(* ===== verification/UF_Prelude.thy ===== *)
theory UF_Prelude
  imports Main "HOL-Library.Word" "HOL-Library.Multiset" "HOL-Library.Sublist"
begin

text \<open>
  Shared vocabulary of the UniFrog development: the machine integer types of the target
  (MIPS32, so \<open>int\<close>, \<open>unsigned\<close>, \<open>long\<close> and \<open>size_t\<close> have 32 bits), C strings as lists of
  characters without the terminating NUL, the string functions of the C library that the
  sources call, and the generic list lemmas the components use.

  A pointer that the code compares with \<open>NULL\<close> is an \<open>option\<close>; \<open>None\<close> is the null pointer.
  An \<open>int\<close> result is an \<open>int\<close>; 0 and negative numbers have the meaning the code gives them.
\<close>

unbundle bit_operations_syntax

named_theorems uf_simps \<open>unfolding rules for the small operations of the components\<close>

section \<open>Types\<close>

type_synonym u8 = "8 word"
type_synonym u16 = "16 word"
type_synonym u32 = "32 word"
type_synonym u64 = "64 word"
type_synonym bytes = "u8 list"

abbreviation NUL :: char where "NUL \<equiv> CHR 0x00"
abbreviation TAB :: char where "TAB \<equiv> CHR 0x09"
abbreviation LF :: char where "LF \<equiv> CHR 0x0A"
abbreviation CR :: char where "CR \<equiv> CHR 0x0D"
abbreviation QUOT :: char where "QUOT \<equiv> CHR 0x22"
abbreviation APOS :: char where "APOS \<equiv> CHR 0x27"
abbreviation BACKSLASH :: char where "BACKSLASH \<equiv> CHR 0x5C"
abbreviation SLASH :: char where "SLASH \<equiv> CHR 0x2F"

section \<open>The C library\<close>

text \<open>The C string that starts at a buffer position: everything before the first NUL.\<close>

definition c_str :: "char list \<Rightarrow> string" where
  "c_str buf = takeWhile (\<lambda>c. c \<noteq> NUL) buf"

definition cstr_ok :: "string \<Rightarrow> bool" where
  "cstr_ok s \<longleftrightarrow> NUL \<notin> set s"

text \<open>\<open>tolower\<close> of the C locale, and equality as \<open>strcasecmp\<close> decides it.\<close>

definition to_lower :: "char \<Rightarrow> char" where
  "to_lower c = (if 65 \<le> (of_char c :: nat) \<and> (of_char c :: nat) \<le> 90
                 then char_of ((of_char c :: nat) + 32) else c)"

definition strcase_eq :: "string \<Rightarrow> string \<Rightarrow> bool" where
  "strcase_eq a b \<longleftrightarrow> map to_lower a = map to_lower b"

text \<open>\<open>strchr\<close> and \<open>strrchr\<close> as offsets of the first and the last occurrence.\<close>

fun str_chr :: "string \<Rightarrow> char \<Rightarrow> nat option" where
  "str_chr [] c = None"
| "str_chr (x # xs) c = (if x = c then Some 0 else map_option Suc (str_chr xs c))"

definition str_rchr :: "string \<Rightarrow> char \<Rightarrow> nat option" where
  "str_rchr s c = map_option (\<lambda>i. length s - 1 - i) (str_chr (rev s) c)"

text \<open>\<open>snprintf (dst, size, "%s", text)\<close> with a non-zero size: the string left in the buffer.\<close>

definition snprintf_s :: "nat \<Rightarrow> string \<Rightarrow> string" where
  "snprintf_s n s = take (n - 1) s"

text \<open>The value of a plain \<open>char\<close>, which is signed on the target.\<close>

definition schar :: "char \<Rightarrow> int" where
  "schar c = (let n = (of_char c :: int) in if n < 128 then n else n - 256)"

text \<open>The components of a string between separators: the reference for the scanning loops.\<close>

fun split_on :: "char \<Rightarrow> string \<Rightarrow> string list" where
  "split_on c [] = [[]]"
| "split_on c (x # xs) =
     (if x = c then [] # split_on c xs
      else (case split_on c xs of [] \<Rightarrow> [[x]] | y # ys \<Rightarrow> (x # y) # ys))"

section \<open>Generic lemmas\<close>

lemma c_str_id [simp]: "cstr_ok s \<Longrightarrow> c_str s = s"
  by (auto simp: cstr_ok_def c_str_def takeWhile_eq_all_conv)

lemma cstr_ok_c_str [simp]: "cstr_ok (c_str s)"
  by (auto simp: cstr_ok_def c_str_def dest: set_takeWhileD)

lemma cstr_ok_simps [simp]:
  "cstr_ok []"
  "cstr_ok (c # s) \<longleftrightarrow> c \<noteq> NUL \<and> cstr_ok s"
  "cstr_ok (s @ t) \<longleftrightarrow> cstr_ok s \<and> cstr_ok t"
  by (auto simp: cstr_ok_def)

lemma cstr_ok_sub [intro]:
  "cstr_ok s \<Longrightarrow> cstr_ok (take n s)"
  "cstr_ok s \<Longrightarrow> cstr_ok (drop n s)"
  "cstr_ok s \<Longrightarrow> cstr_ok (dropWhile P s)"
  "cstr_ok s \<Longrightarrow> cstr_ok (takeWhile P s)"
  by (auto simp: cstr_ok_def dest: in_set_takeD in_set_dropD set_dropWhileD set_takeWhileD)

lemma strcase_eq_refl [simp]: "strcase_eq s s"
  by (simp add: strcase_eq_def)

lemma strcase_eq_sym: "strcase_eq s t \<Longrightarrow> strcase_eq t s"
  by (simp add: strcase_eq_def)

lemma strcase_eq_trans: "strcase_eq s t \<Longrightarrow> strcase_eq t u \<Longrightarrow> strcase_eq s u"
  by (simp add: strcase_eq_def)

lemma strcase_eq_length: "strcase_eq s t \<Longrightarrow> length s = length t"
  unfolding strcase_eq_def by (rule map_eq_imp_length_eq)

lemma str_chr_None [simp]: "str_chr s c = None \<longleftrightarrow> c \<notin> set s"
  by (induction s) auto

lemma str_chr_Some_iff:
  "str_chr s c = Some i \<longleftrightarrow> i < length s \<and> s ! i = c \<and> c \<notin> set (take i s)"
proof (induction s arbitrary: i)
  case (Cons x xs)
  show ?case by (cases i) (auto simp: Cons.IH)
qed simp

lemma str_chr_append: "c \<notin> set a \<Longrightarrow> str_chr (a @ c # b) c = Some (length a)"
  by (induction a) auto

lemma str_rchr_None [simp]: "str_rchr s c = None \<longleftrightarrow> c \<notin> set s"
  by (simp add: str_rchr_def)

lemma str_rchr_append: "c \<notin> set b \<Longrightarrow> str_rchr (a @ c # b) c = Some (length a)"
  by (simp add: str_rchr_def str_chr_append)

lemma str_rchr_SomeD:
  assumes "str_rchr s c = Some i"
  shows "i < length s" "s ! i = c" "c \<notin> set (drop (Suc i) s)"
proof -
  from assms obtain j where j: "str_chr (rev s) c = Some j" and i: "i = length s - 1 - j"
    by (auto simp: str_rchr_def)
  from j have lt: "j < length s" and nth: "rev s ! j = c" and nin: "c \<notin> set (take j (rev s))"
    by (auto simp: str_chr_Some_iff)
  from lt i show "i < length s" by simp
  from lt nth i show "s ! i = c" by (simp add: rev_nth)
  have "drop (Suc i) s = rev (take j (rev s))"
    using lt i by (simp add: take_rev Suc_diff_Suc)
  with nin show "c \<notin> set (drop (Suc i) s)" by simp
qed

lemma take_snoc_nth: "n < length s \<Longrightarrow> take (Suc n) s = take n s @ [s ! n]"
  by (simp add: take_Suc_conv_app_nth)

lemma split_on_neq_Nil [simp]: "split_on c s \<noteq> []"
  by (cases s) (auto split: list.splits)

lemma split_on_append_sep: "c \<notin> set a \<Longrightarrow> split_on c (a @ c # b) = a # split_on c b"
  by (induction a) auto

lemma split_on_no_sep: "c \<notin> set a \<Longrightarrow> split_on c a = [a]"
  by (induction a) auto

text \<open>A linear search by a key that no two rows share finds the row.\<close>

lemma find_key: "distinct (map f ps) \<Longrightarrow> x \<in> set ps \<Longrightarrow> find (\<lambda>p. f x = f p) ps = Some x"
  by (induction ps) (auto simp: image_iff)

section \<open>Fixed-size text buffers\<close>

text \<open>
  The contract of a bounded copy into a buffer of \<open>n\<close> bytes, which \<open>unifrog_text_copy\<close> and
  \<open>snprintf\<close> both provide: the result is a prefix of the source, it leaves room for the
  terminating NUL, and a source that fits is copied whole.
\<close>

locale bounded_copy =
  fixes copy :: "nat \<Rightarrow> string \<Rightarrow> string"
  assumes copy_prefix: "0 < n \<Longrightarrow> prefix (copy n s) s"
    and copy_bound: "0 < n \<Longrightarrow> length (copy n s) < n"
    and copy_fits: "length s < n \<Longrightarrow> copy n s = s"
begin

lemma copy_cstr: "0 < n \<Longrightarrow> cstr_ok s \<Longrightarrow> cstr_ok (copy n s)"
  using copy_prefix [of n s] by (metis cstr_ok_simps(3) prefix_def)

lemma copy_again: "0 < n \<Longrightarrow> copy n (copy n s) = copy n s"
  by (rule copy_fits) (rule copy_bound)

lemma copy_wider: "0 < n \<Longrightarrow> n \<le> m \<Longrightarrow> copy m (copy n s) = copy n s"
  using copy_bound [of n s] by (intro copy_fits) simp

lemma copy_eq_iff: "0 < n \<Longrightarrow> copy n s = s \<longleftrightarrow> length s < n"
  using copy_bound [of n s] copy_fits [of s n] by auto

end

interpretation snp: bounded_copy snprintf_s
  by unfold_locales (auto simp: snprintf_s_def take_is_prefix)

end
