(* ===== verification/UF_Text.thy ===== *)
theory UF_Text
  imports UF_Prelude
begin

text \<open>
  The text helpers of \<open>foundation/src/display/unifrog_text.c\<close> (bounded copies, UTF-8 aware
  counting, copying and scrolling), the path join of \<open>runtime/unifrog_path.c\<close> and the boot
  path policy of \<open>runtime/unifrog_boot_policy.c\<close>.

  A buffer \<open>char dst[n]\<close> is the C string it holds, an output parameter is returned.
\<close>

section \<open>Definitions\<close>

definition ascii_lower :: "char \<Rightarrow> char" where
  "ascii_lower c = (if schar (CHR ''A'') \<le> schar c \<and> schar c \<le> schar (CHR ''Z'')
                    then char_of (nat (schar c - schar (CHR ''A'') + schar (CHR ''a''))) else c)"

fun text_copy_loop :: "nat \<Rightarrow> string \<Rightarrow> string" where
  "text_copy_loop dst_size [] = []"
| "text_copy_loop dst_size (c # src) =
     (if dst_size > 1 then c # text_copy_loop (dst_size - 1) src else [])"

text \<open>The contents of \<open>dst\<close> after the call; \<open>None\<close> stands for a null \<open>dst\<close>.\<close>

definition unifrog_text_copy :: "string option \<Rightarrow> nat \<Rightarrow> string option \<Rightarrow> string option" where
  "unifrog_text_copy dst dst_size src =
     (case dst of None \<Rightarrow> None
      | Some old \<Rightarrow> if dst_size = 0 then Some old
                    else Some (text_copy_loop dst_size (case src of None \<Rightarrow> [] | Some s \<Rightarrow> s)))"

text \<open>The common call: a real buffer of non-zero size.\<close>

abbreviation text_copy :: "nat \<Rightarrow> string \<Rightarrow> string" where
  "text_copy n s \<equiv> text_copy_loop n s"

text \<open>The byte at offset \<open>i\<close> of a C string; the terminating NUL follows the last character.\<close>

definition str_byte :: "string \<Rightarrow> nat \<Rightarrow> u8" where
  "str_byte s i = (if i < length s then of_char (s ! i) else 0)"

fun utf8_tail_ok :: "string \<Rightarrow> nat \<Rightarrow> nat \<Rightarrow> bool" where
  "utf8_tail_ok s i 0 = True"
| "utf8_tail_ok s i (Suc k) =
     (if str_byte s i AND 0xc0 \<noteq> 0x80 then False else utf8_tail_ok s (Suc i) k)"

definition utf8_char_bytes :: "string option \<Rightarrow> nat" where
  "utf8_char_bytes text =
     (case text of None \<Rightarrow> 0
      | Some p \<Rightarrow>
        if str_byte p 0 = 0 then 0
        else if str_byte p 0 < 0x80 then 1
        else let count = (if str_byte p 0 AND 0xe0 = 0xc0 then Some 2
                          else if str_byte p 0 AND 0xf0 = 0xe0 then Some 3
                          else if str_byte p 0 AND 0xf8 = 0xf0 then Some 4 else None)
             in (case count of None \<Rightarrow> 1
                 | Some n \<Rightarrow> if utf8_tail_ok p 1 (n - 1) then n else (1::nat)))"

lemma str_byte_0_Cons [simp]: "str_byte (c # s) 0 = of_char c"
  by (simp add: str_byte_def)

lemma utf8_tail_ok_length:
  "utf8_tail_ok s i k \<Longrightarrow> i \<le> length s \<Longrightarrow> i + k \<le> length s"
proof (induction s i k rule: utf8_tail_ok.induct)
  case (2 s i k)
  then have "str_byte s i AND 0xc0 = 0x80" by (simp split: if_splits)
  then have "i < length s" by (auto simp: str_byte_def split: if_splits)
  with 2 show ?case by (simp split: if_splits)
qed simp

lemma of_char_word_eq_0: "(of_char c :: u8) = 0 \<longleftrightarrow> c = NUL"
proof
  assume "(of_char c :: u8) = 0"
  then have "of_nat (of_char c) = (0 :: u8)" by (simp only: of_nat_of_char)
  then have "256 dvd (of_char c :: nat)"
    by (simp add: word_of_nat_eq_0_iff)
  moreover have "(of_char c :: nat) < 256" by simp
  ultimately have "(of_char c :: nat) = 0" by (meson dvd_imp_le leD neq0_conv)
  then have "(of_char c :: nat) = of_char NUL" by simp
  then show "c = NUL" by (simp only: of_char_eq_iff)
qed simp

lemma utf8_char_bytes_nonzero: "str_byte s 0 \<noteq> 0 \<Longrightarrow> 0 < utf8_char_bytes (Some s)"
  by (auto simp: utf8_char_bytes_def Let_def)

lemma utf8_char_bytes_pos:
  assumes "cstr_ok (c # s)"
  shows "0 < utf8_char_bytes (Some (c # s))" "utf8_char_bytes (Some (c # s)) \<le> length (c # s)"
proof -
  have tail: "utf8_tail_ok (c # s) 1 k \<Longrightarrow> Suc k \<le> length (c # s)" for k
    using utf8_tail_ok_length [of "c # s" 1 k] by simp
  from assms show "0 < utf8_char_bytes (Some (c # s))"
    by (intro utf8_char_bytes_nonzero) (simp add: of_char_word_eq_0)
  from tail [of 1] tail [of 2] tail [of 3]
  show "utf8_char_bytes (Some (c # s)) \<le> length (c # s)"
    by (auto simp: utf8_char_bytes_def Let_def)
qed

function unifrog_text_utf8_length_from :: "string \<Rightarrow> nat" where
  "unifrog_text_utf8_length_from text =
     (if str_byte text 0 = 0 then 0
      else Suc (unifrog_text_utf8_length_from (drop (utf8_char_bytes (Some text)) text)))"
  by pat_completeness auto
termination
proof (relation "measure length")
  fix t :: string
  assume nz: "str_byte t 0 \<noteq> 0"
  then obtain c s where "t = c # s"
    by (cases t) (auto simp: str_byte_def)
  with utf8_char_bytes_nonzero [OF nz]
  show "(drop (utf8_char_bytes (Some t)) t, t) \<in> measure length" by simp
qed simp

declare unifrog_text_utf8_length_from.simps [simp del]

definition unifrog_text_utf8_length :: "string option \<Rightarrow> nat" where
  "unifrog_text_utf8_length text =
     (case text of None \<Rightarrow> 0 | Some s \<Rightarrow> unifrog_text_utf8_length_from s)"

text \<open>The loop of the bounded copy by characters: \<open>acc\<close> is the text already in the buffer.\<close>

function utf8_copy_loop :: "nat \<Rightarrow> nat \<Rightarrow> string \<Rightarrow> string \<Rightarrow> nat \<Rightarrow> string \<times> nat" where
  "utf8_copy_loop dst_size max_chars src acc chars =
     (if str_byte src 0 \<noteq> 0 \<and> chars < max_chars
      then let bytes = utf8_char_bytes (Some src)
           in if length acc + bytes \<ge> dst_size then (acc, chars)
              else utf8_copy_loop dst_size max_chars (drop bytes src) (acc @ take bytes src) (Suc chars)
      else (acc, chars))"
  by pat_completeness auto
termination
  by (relation "measure (\<lambda>(d, m, s, a, c). m - c)") auto

declare utf8_copy_loop.simps [simp del]

definition unifrog_text_utf8_copy_chars ::
  "string option \<Rightarrow> nat \<Rightarrow> string option \<Rightarrow> nat \<Rightarrow> string option \<times> nat" where
  "unifrog_text_utf8_copy_chars dst dst_size src max_chars =
     (case dst of None \<Rightarrow> (None, 0)
      | Some old \<Rightarrow>
        if dst_size = 0 then (Some old, 0)
        else let (out, chars) = utf8_copy_loop dst_size max_chars
                                  (case src of None \<Rightarrow> [] | Some s \<Rightarrow> s) [] 0
             in (Some out, chars))"

definition unifrog_text_ends_with_ci :: "string option \<Rightarrow> string option \<Rightarrow> bool" where
  "unifrog_text_ends_with_ci text sfx =
     (case (text, sfx) of
        (Some t, Some s) \<Rightarrow>
          if length s > length t then False
          else list_all2 (\<lambda>a b. ascii_lower a = ascii_lower b) (drop (length t - length s) t) s
      | _ \<Rightarrow> False)"

primrec skip_glyphs :: "nat \<Rightarrow> string \<Rightarrow> string" where
  "skip_glyphs 0 s = s"
| "skip_glyphs (Suc n) s = skip_glyphs n (drop (utf8_char_bytes (Some s)) s)"

definition marquee_gap :: string where "marquee_gap = ''   ''"

function marquee_loop :: "nat \<Rightarrow> string \<Rightarrow> nat \<Rightarrow> nat \<Rightarrow> nat \<Rightarrow> nat \<Rightarrow> string \<Rightarrow> string" where
  "marquee_loop dst_size text len offset max_chars i dst =
     (if i < max_chars then
        let cycle_chars = len + length marquee_gap;
            pos = (offset + i) mod cycle_chars;
            used = length dst
        in if pos < len then
             let source = skip_glyphs pos text; n = utf8_char_bytes (Some source)
             in if used + n \<ge> dst_size then dst
                else marquee_loop dst_size text len offset max_chars (Suc i) (dst @ take n source)
           else if used + 1 < dst_size
           then marquee_loop dst_size text len offset max_chars (Suc i)
                  (dst @ [marquee_gap ! (pos - len)])
           else marquee_loop dst_size text len offset max_chars (Suc i) dst
      else dst)"
  by pat_completeness auto
termination
  by (relation "measure (\<lambda>(d, t, l, ofs, m, i, x). m - i)") auto

declare marquee_loop.simps [simp del]

definition marquee_offset :: "nat \<Rightarrow> u32 \<Rightarrow> nat" where
  "marquee_offset cycle_chars elapsed_ms =
     (if elapsed_ms < 900 then 0 else unat ((elapsed_ms - 900) div 180) mod cycle_chars)"

definition unifrog_text_marquee ::
  "string option \<Rightarrow> nat \<Rightarrow> string option \<Rightarrow> nat \<Rightarrow> u32 \<Rightarrow> string option \<times> int" where
  "unifrog_text_marquee dst dst_size text max_chars0 elapsed_ms =
     (case dst of None \<Rightarrow> (None, 0)
      | Some old \<Rightarrow>
        if dst_size = 0 then (Some old, 0)
        else
          let text = (case text of None \<Rightarrow> [] | Some s \<Rightarrow> s);
              max_chars = (if max_chars0 \<ge> dst_size then dst_size - 1 else max_chars0);
              len = unifrog_text_utf8_length (Some text)
          in if len \<le> max_chars \<or> max_chars = 0
             then (unifrog_text_copy dst dst_size (Some (if max_chars \<noteq> 0 then text else [])), 0)
             else let cycle_chars = len + length marquee_gap;
                      offset = marquee_offset cycle_chars elapsed_ms
                  in (Some (marquee_loop dst_size text len offset max_chars 0 []), 1))"

definition unifrog_path_join ::
  "string option \<Rightarrow> nat \<Rightarrow> string option \<Rightarrow> string option \<Rightarrow> string option" where
  "unifrog_path_join dst dst_size base name =
     (case dst of None \<Rightarrow> None
      | Some old \<Rightarrow>
        if dst_size = 0 then Some old
        else
          let d = text_copy dst_size (case base of None \<Rightarrow> [] | Some b \<Rightarrow> b);
              len = length d;
              d' = (if len + 1 < dst_size \<and> len > 0 \<and> d ! (len - 1) \<noteq> SLASH
                    then d @ [SLASH] else d)
          in Some (d' @ text_copy (dst_size - length d')
                          (case name of None \<Rightarrow> [] | Some n \<Rightarrow> n)))"

definition UNIFROG_BOOT_PATH_MAX :: nat where "UNIFROG_BOOT_PATH_MAX = 96"

definition boot_char_forbidden :: "char \<Rightarrow> bool" where
  "boot_char_forbidden c \<longleftrightarrow>
     c = BACKSLASH \<or> c = CHR '':'' \<or> c = CR \<or> c = LF \<or> c = TAB \<or> c = CHR '' ''"

fun boot_path_loop :: "string \<Rightarrow> bool \<Rightarrow> bool" where
  "boot_path_loop [] component_start = (\<not> component_start)"
| "boot_path_loop (c # cs) component_start =
     (if boot_char_forbidden c then False
      else if c = SLASH then (if component_start then False else boot_path_loop cs True)
      else if component_start \<and> c = CHR ''.'' then False
      else boot_path_loop cs False)"

definition unifrog_boot_asd_path_supported :: "string option \<Rightarrow> bool" where
  "unifrog_boot_asd_path_supported path =
     (case path of None \<Rightarrow> False
      | Some p \<Rightarrow>
        if p = [] \<or> p ! 0 = SLASH \<or> p ! 0 = CHR ''.'' then False
        else if \<not> unifrog_text_ends_with_ci (Some p) (Some ''.asd'') then False
        else if length p \<ge> UNIFROG_BOOT_PATH_MAX then False
        else boot_path_loop p True)"

section \<open>Bounded copies\<close>

lemma text_copy_eq: "0 < n \<Longrightarrow> text_copy n s = take (n - 1) s"
  by (induction n s rule: text_copy_loop.induct) (auto simp: take_Cons')

interpretation tcp: bounded_copy text_copy_loop
  by unfold_locales (auto simp: text_copy_eq take_is_prefix)

lemma text_copy_is_snprintf: "0 < n \<Longrightarrow> text_copy n s = snprintf_s n s"
  by (simp add: text_copy_eq snprintf_s_def)

section \<open>Glyphs: the reference for the UTF-8 loops\<close>

text \<open>The byte runs that the code treats as one character.\<close>

function utf8_glyphs :: "string \<Rightarrow> string list" where
  "utf8_glyphs s =
     (if str_byte s 0 = 0 then []
      else take (utf8_char_bytes (Some s)) s # utf8_glyphs (drop (utf8_char_bytes (Some s)) s))"
  by pat_completeness auto
termination
proof (relation "measure length")
  fix t :: string
  assume nz: "str_byte t 0 \<noteq> 0"
  then obtain c s where "t = c # s"
    by (cases t) (auto simp: str_byte_def)
  with utf8_char_bytes_nonzero [OF nz]
  show "(drop (utf8_char_bytes (Some t)) t, t) \<in> measure length" by simp
qed simp

declare utf8_glyphs.simps [simp del]

lemma utf8_glyphs_Nil [simp]: "utf8_glyphs [] = []"
  by (simp add: utf8_glyphs.simps [of "[]"] str_byte_def)

lemma str_byte_cstr: "cstr_ok s \<Longrightarrow> str_byte s 0 = 0 \<longleftrightarrow> s = []"
  by (cases s) (auto simp: str_byte_def of_char_word_eq_0)

lemma concat_utf8_glyphs: "cstr_ok s \<Longrightarrow> concat (utf8_glyphs s) = s"
proof (induction s rule: utf8_glyphs.induct)
  case (1 s)
  show ?case
  proof (cases "str_byte s 0 = 0")
    case True
    with "1.prems" show ?thesis by (simp add: str_byte_cstr)
  next
    case False
    with 1 have "concat (utf8_glyphs (drop (utf8_char_bytes (Some s)) s)) = drop (utf8_char_bytes (Some s)) s"
      by blast
    with False show ?thesis by (simp add: utf8_glyphs.simps [of s])
  qed
qed

lemma utf8_length_glyphs: "unifrog_text_utf8_length (Some s) = length (utf8_glyphs s)"
proof -
  have "unifrog_text_utf8_length_from s = length (utf8_glyphs s)"
  proof (induction s rule: utf8_glyphs.induct)
    case (1 s)
    then show ?case
      by (simp add: utf8_glyphs.simps [of s] unifrog_text_utf8_length_from.simps [of s])
  qed
  then show ?thesis by (simp add: unifrog_text_utf8_length_def)
qed

lemma utf8_char_bytes_le4: "utf8_char_bytes (Some s) \<le> 4"
  by (auto simp: utf8_char_bytes_def Let_def)

lemma utf8_char_bytes_le_length: "str_byte s 0 \<noteq> 0 \<Longrightarrow> utf8_char_bytes (Some s) \<le> length s"
proof -
  assume nz: "str_byte s 0 \<noteq> 0"
  then have "s \<noteq> []" by (auto simp: str_byte_def)
  moreover have "utf8_tail_ok s 1 k \<Longrightarrow> s \<noteq> [] \<Longrightarrow> Suc k \<le> length s" for k
    using utf8_tail_ok_length [of s 1 k] by (cases s) auto
  from this [of 1] this [of 2] this [of 3] \<open>s \<noteq> []\<close>
  show ?thesis by (cases s) (auto simp: utf8_char_bytes_def Let_def)
qed

lemma utf8_glyphs_length:
  "g \<in> set (utf8_glyphs s) \<Longrightarrow> 0 < length g \<and> length g \<le> 4"
proof (induction s rule: utf8_glyphs.induct)
  case (1 s)
  show ?case
  proof (cases "str_byte s 0 = 0")
    case True
    with "1.prems" show ?thesis by (simp add: utf8_glyphs.simps [of s])
  next
    case False
    have "0 < length (take (utf8_char_bytes (Some s)) s) \<and> length (take (utf8_char_bytes (Some s)) s) \<le> 4"
      using utf8_char_bytes_le4 [of s] utf8_char_bytes_nonzero [OF False]
        utf8_char_bytes_le_length [OF False] by auto
    with 1 False show ?thesis by (auto simp: utf8_glyphs.simps [of s])
  qed
qed

lemma skip_glyphs_drop:
  "n \<le> length (utf8_glyphs s) \<Longrightarrow> utf8_glyphs (skip_glyphs n s) = drop n (utf8_glyphs s)"
proof (induction n arbitrary: s)
  case (Suc n)
  then have nz: "str_byte s 0 \<noteq> 0" by (auto simp: utf8_glyphs.simps [of s])
  then have "utf8_glyphs s = take (utf8_char_bytes (Some s)) s # utf8_glyphs (drop (utf8_char_bytes (Some s)) s)"
    by (simp add: utf8_glyphs.simps [of s])
  with Suc show ?case by simp
qed simp

lemma glyph_at:
  assumes "n < length (utf8_glyphs s)"
  shows "take (utf8_char_bytes (Some (skip_glyphs n s))) (skip_glyphs n s) = utf8_glyphs s ! n"
    and "utf8_char_bytes (Some (skip_glyphs n s)) = length (utf8_glyphs s ! n)"
proof -
  let ?t = "skip_glyphs n s"
  from assms have gl: "utf8_glyphs ?t = drop n (utf8_glyphs s)"
    by (simp add: skip_glyphs_drop)
  with assms have nz: "str_byte ?t 0 \<noteq> 0"
    by (auto simp: utf8_glyphs.simps [of ?t])
  then have "hd (utf8_glyphs ?t) = take (utf8_char_bytes (Some ?t)) ?t"
    by (simp add: utf8_glyphs.simps [of ?t])
  with gl assms show *: "take (utf8_char_bytes (Some ?t)) ?t = utf8_glyphs s ! n"
    by (simp add: hd_drop_conv_nth)
  show "utf8_char_bytes (Some ?t) = length (utf8_glyphs s ! n)"
    unfolding * [symmetric] using utf8_char_bytes_le_length [OF nz] by simp
qed

lemma glyph_at_take:
  "n < length (utf8_glyphs s) \<Longrightarrow> take (length (utf8_glyphs s ! n)) (skip_glyphs n s) = utf8_glyphs s ! n"
  using glyph_at [of n s] by simp

section \<open>The scrolling label\<close>

text \<open>The cyclic text: the glyphs of the label followed by the gap.\<close>

definition marquee_ring :: "string \<Rightarrow> string list" where
  "marquee_ring t = utf8_glyphs t @ map (\<lambda>c. [c]) marquee_gap"

definition marquee_piece :: "string \<Rightarrow> nat \<Rightarrow> nat \<Rightarrow> string" where
  "marquee_piece t offset i =
     marquee_ring t ! ((offset + i) mod length (marquee_ring t))"

lemma length_marquee_ring: "length (marquee_ring t) = length (utf8_glyphs t) + length marquee_gap"
  by (simp add: marquee_ring_def)

lemma marquee_ring_neq_Nil [simp]: "marquee_ring t \<noteq> []"
  by (simp add: marquee_ring_def marquee_gap_def)

lemma marquee_pos_less: "x mod length (marquee_ring t) < length (marquee_ring t)"
  by (rule mod_less_divisor) simp

lemma marquee_piece_length: "0 < length (marquee_piece t ofs i) \<and> length (marquee_piece t ofs i) \<le> 4"
proof -
  have "marquee_piece t ofs i \<in> set (marquee_ring t)"
    unfolding marquee_piece_def by (rule nth_mem) (rule marquee_pos_less)
  then show ?thesis
    using utf8_glyphs_length [of _ t] by (auto simp: marquee_ring_def)
qed

text \<open>One round of the loop appends the piece of the ring, or stops at the end of the buffer.\<close>

lemma marquee_loop_step:
  assumes "i < m"
  shows "marquee_loop d t (length (utf8_glyphs t)) ofs m i dst =
     (if length dst + length (marquee_piece t ofs i) < d
      then marquee_loop d t (length (utf8_glyphs t)) ofs m (Suc i) (dst @ marquee_piece t ofs i)
      else if (ofs + i) mod length (marquee_ring t) < length (utf8_glyphs t) then dst
      else marquee_loop d t (length (utf8_glyphs t)) ofs m (Suc i) dst)"
proof -
  let ?pos = "(ofs + i) mod length (marquee_ring t)"
  have cyc: "length (utf8_glyphs t) + length marquee_gap = length (marquee_ring t)"
    by (simp add: length_marquee_ring)
  have lt: "?pos < length (marquee_ring t)" by (rule marquee_pos_less)
  show ?thesis
  proof (cases "?pos < length (utf8_glyphs t)")
    case True
    then have pc: "marquee_piece t ofs i = utf8_glyphs t ! ?pos"
      by (simp add: marquee_piece_def marquee_ring_def nth_append)
    from True assms show ?thesis
      unfolding pc by (subst marquee_loop.simps) (simp add: cyc glyph_at(2) glyph_at_take Let_def)
  next
    case False
    with lt have pc: "marquee_piece t ofs i = [marquee_gap ! (?pos - length (utf8_glyphs t))]"
      by (simp add: marquee_piece_def marquee_ring_def nth_append)
    from False assms show ?thesis
      unfolding pc by (subst marquee_loop.simps) (simp add: cyc Let_def)
  qed
qed

lemma marquee_loop_done: "m \<le> i \<Longrightarrow> marquee_loop d t len ofs m i dst = dst"
  by (subst marquee_loop.simps) simp

lemma marquee_loop_full:
  assumes "d \<le> Suc (length dst)"
  shows "marquee_loop d t (length (utf8_glyphs t)) ofs m i dst = dst"
proof (induction "m - i" arbitrary: i)
  case 0
  then show ?case by (simp add: marquee_loop_done)
next
  case (Suc k)
  then have "i < m" by simp
  moreover have "\<not> length dst + length (marquee_piece t ofs i) < d"
    using assms marquee_piece_length [of t ofs i] by linarith
  ultimately show ?case using Suc by (simp add: marquee_loop_step)
qed

abbreviation marquee_window :: "string \<Rightarrow> nat \<Rightarrow> nat \<Rightarrow> nat \<Rightarrow> string" where
  "marquee_window t ofs i k \<equiv> concat (map (marquee_piece t ofs) [i..<k])"

lemma marquee_loop_window:
  assumes "length dst < d" "i \<le> m"
  shows "\<exists>k. i \<le> k \<and> k \<le> m \<and>
    marquee_loop d t (length (utf8_glyphs t)) ofs m i dst = dst @ marquee_window t ofs i k \<and>
    length (dst @ marquee_window t ofs i k) < d \<and> (k < m \<longrightarrow> d < length (dst @ marquee_window t ofs i k) + 5)"
  using assms
proof (induction "m - i" arbitrary: i dst)
  case 0
  then show ?case by (intro exI [of _ i]) (auto simp: marquee_loop_done)
next
  case (Suc n)
  then have im: "i < m" by simp
  let ?p = "marquee_piece t ofs i"
  show ?case
  proof (cases "length dst + length ?p < d")
    case True
    with Suc im obtain k where k: "Suc i \<le> k" "k \<le> m"
      "marquee_loop d t (length (utf8_glyphs t)) ofs m (Suc i) (dst @ ?p)
         = (dst @ ?p) @ marquee_window t ofs (Suc i) k"
      "length ((dst @ ?p) @ marquee_window t ofs (Suc i) k) < d"
      "k < m \<longrightarrow> d < length ((dst @ ?p) @ marquee_window t ofs (Suc i) k) + 5"
      using Suc.hyps(1) [of "Suc i" "dst @ ?p"] Suc.hyps(2)
      by (metis Suc_diff_Suc Suc_leI diff_Suc_1' length_append)
    have "marquee_window t ofs i k = ?p @ marquee_window t ofs (Suc i) k"
      using k(1) by (simp add: upt_conv_Cons)
    with k True im show ?thesis
      by (intro exI [of _ k]) (simp add: marquee_loop_step)
  next
    case False
    have "marquee_loop d t (length (utf8_glyphs t)) ofs m i dst = dst"
    proof (cases "(ofs + i) mod length (marquee_ring t) < length (utf8_glyphs t)")
      case True
      with False im show ?thesis by (simp add: marquee_loop_step)
    next
      case gap: False
      with marquee_pos_less [of "ofs + i" t] have "length ?p = 1"
        by (simp add: marquee_piece_def marquee_ring_def nth_append)
      with False gap im show ?thesis
        by (simp add: marquee_loop_step marquee_loop_full)
    qed
    with Suc.prems False marquee_piece_length [of t ofs i] im show ?thesis
      by (intro exI [of _ i]) auto
  qed
qed

lemma marquee_window_take:
  "i \<le> k \<Longrightarrow> k \<le> m \<Longrightarrow> prefix (marquee_window t ofs i k) (marquee_window t ofs i m)"
proof -
  assume "i \<le> k" "k \<le> m"
  then have "[i..<m] = [i..<k] @ [k..<m]" by (metis le_Suc_ex upt_add_eq_append)
  then show ?thesis by simp
qed

lemma marquee_window_length: "length (marquee_window t ofs i k) \<le> 4 * (k - i)"
proof -
  have "length (concat xs) \<le> 4 * length xs" if "\<forall>x \<in> set xs. length x \<le> 4" for xs :: "string list"
    using that by (induction xs) auto
  from this [of "map (marquee_piece t ofs) [i..<k]"] show ?thesis
    using marquee_piece_length [of t ofs] by simp
qed

section \<open>Copies by character\<close>

lemma utf8_copy_loop_glyphs:
  assumes "length acc < d" "chars \<le> m"
  shows "\<exists>k \<le> length (utf8_glyphs src). utf8_copy_loop d m src acc chars =
      (acc @ concat (take k (utf8_glyphs src)), chars + k) \<and>
    length (acc @ concat (take k (utf8_glyphs src))) < d \<and> chars + k \<le> m \<and>
    (k < length (utf8_glyphs src) \<and> chars + k < m \<longrightarrow>
       d \<le> length (acc @ concat (take (Suc k) (utf8_glyphs src))))"
  using assms
proof (induction d m src acc chars rule: utf8_copy_loop.induct)
  case (1 d m src acc chars)
  let ?n = "utf8_char_bytes (Some src)"
  show ?case
  proof (cases "str_byte src 0 \<noteq> 0 \<and> chars < m")
    case False
    with "1.prems" show ?thesis
      by (intro exI [of _ 0])
         (auto simp: utf8_copy_loop.simps [of d m src acc chars] utf8_glyphs.simps [of src])
  next
    case True
    then have gl: "utf8_glyphs src = take ?n src # utf8_glyphs (drop ?n src)"
      by (simp add: utf8_glyphs.simps [of src])
    have len: "length (take ?n src) = ?n"
      using True utf8_char_bytes_le_length [of src] by simp
    show ?thesis
    proof (cases "d \<le> length acc + ?n")
      case stop: True
      with True "1.prems" gl len show ?thesis
        by (intro exI [of _ 0]) (simp add: utf8_copy_loop.simps [of d m src acc chars] Let_def)
    next
      case False
      with True len "1.IH" [of ?n] obtain k where k: "k \<le> length (utf8_glyphs (drop ?n src))"
        "utf8_copy_loop d m (drop ?n src) (acc @ take ?n src) (Suc chars) =
           ((acc @ take ?n src) @ concat (take k (utf8_glyphs (drop ?n src))), Suc chars + k)"
        "length ((acc @ take ?n src) @ concat (take k (utf8_glyphs (drop ?n src)))) < d"
        "Suc chars + k \<le> m"
        "k < length (utf8_glyphs (drop ?n src)) \<and> Suc chars + k < m \<longrightarrow>
           d \<le> length ((acc @ take ?n src) @ concat (take (Suc k) (utf8_glyphs (drop ?n src))))"
        by auto
      with True False gl show ?thesis
        by (intro exI [of _ "Suc k"]) (simp add: utf8_copy_loop.simps [of d m src acc chars] Let_def)
    qed
  qed
qed

section \<open>Boot paths\<close>

text \<open>What the boot loader accepts as one component of a path.\<close>

definition boot_component_ok :: "string \<Rightarrow> bool" where
  "boot_component_ok part \<longleftrightarrow>
     part \<noteq> [] \<and> hd part \<noteq> CHR ''.'' \<and> (\<forall>c \<in> set part. \<not> boot_char_forbidden c)"

lemma boot_path_loop_components:
  "boot_path_loop p True \<longleftrightarrow> (\<forall>part \<in> set (split_on SLASH p). boot_component_ok part)"
  "boot_path_loop p False \<longleftrightarrow>
     (\<forall>c \<in> set (hd (split_on SLASH p)). \<not> boot_char_forbidden c) \<and>
     (\<forall>part \<in> set (tl (split_on SLASH p)). boot_component_ok part)"
proof (induction p)
  case (Cons c p)
  have "boot_char_forbidden SLASH = False" by (simp add: boot_char_forbidden_def)
  moreover obtain y ys where "split_on SLASH p = y # ys"
    by (cases "split_on SLASH p") auto
  ultimately show "boot_path_loop (c # p) True \<longleftrightarrow>
      (\<forall>part \<in> set (split_on SLASH (c # p)). boot_component_ok part)"
    and "boot_path_loop (c # p) False \<longleftrightarrow>
      (\<forall>x \<in> set (hd (split_on SLASH (c # p))). \<not> boot_char_forbidden x) \<and>
      (\<forall>part \<in> set (tl (split_on SLASH (c # p))). boot_component_ok part)"
    using Cons.IH by (auto simp: boot_component_ok_def)
qed (auto simp: boot_component_ok_def)

lemma ascii_lower_eq_to_lower: "ascii_lower c = to_lower c"
proof -
  define n :: nat where "n = of_char c"
  have n: "n < 256" by (simp add: n_def)
  have i: "(of_char c :: int) = int n"
    unfolding n_def by (simp only: of_nat_of_char)
  show ?thesis
    using n by (auto simp: ascii_lower_def to_lower_def schar_def Let_def i n_def [symmetric] nat_diff_distrib
        split: if_splits intro!: arg_cong [where f = char_of])
qed

lemma ends_with_ci_iff:
  "unifrog_text_ends_with_ci (Some t) (Some s) \<longleftrightarrow>
     length s \<le> length t \<and> strcase_eq (drop (length t - length s) t) s"
  by (auto simp: unifrog_text_ends_with_ci_def strcase_eq_def ascii_lower_eq_to_lower
      list_all2_conv_all_nth list_eq_iff_nth_eq)

section \<open>Properties\<close>

text \<open>
  The scrolling label shows a window of the cyclic text. For a label longer than the
  window, the buffer holds the pieces \<open>0 .. k-1\<close> of the ring of glyphs (the glyphs of the
  label, then three blanks) from the current offset. Only whole glyphs are written, the text
  and its NUL fit the buffer, and fewer than \<open>max_chars\<close> pieces are shown only when less than
  one glyph of room is left.
\<close>

lemma text_marquee_window:
  assumes "0 < dst_size"
    and "max_chars = (if max_chars0 \<ge> dst_size then dst_size - 1 else max_chars0)"
    and "0 < max_chars" and "max_chars < length (utf8_glyphs s)"
    and "ofs = marquee_offset (length (marquee_ring s)) elapsed"
  shows "\<exists>k \<le> max_chars.
    unifrog_text_marquee (Some old) dst_size (Some s) max_chars0 elapsed =
      (Some (marquee_window s ofs 0 k), 1) \<and>
    length (marquee_window s ofs 0 k) < dst_size \<and>
    (k < max_chars \<longrightarrow> dst_size < length (marquee_window s ofs 0 k) + 5)"
proof -
  from marquee_loop_window [of "[]" dst_size 0 max_chars s ofs] assms(1)
  obtain k where "k \<le> max_chars"
    "marquee_loop dst_size s (length (utf8_glyphs s)) ofs max_chars 0 [] = marquee_window s ofs 0 k"
    "length (marquee_window s ofs 0 k) < dst_size"
    "k < max_chars \<longrightarrow> dst_size < length (marquee_window s ofs 0 k) + 5"
    by auto
  with assms show ?thesis
    by (intro exI [of _ k])
       (auto simp: unifrog_text_marquee_def utf8_length_glyphs length_marquee_ring Let_def)
qed

lemma text_marquee_window_witness:
  "\<exists>k \<le> 3. unifrog_text_marquee (Some []) 16 (Some ''Tetris'') 3 1260 =
      (Some (marquee_window ''Tetris'' 2 0 k), 1) \<and>
    length (marquee_window ''Tetris'' 2 0 k) < 16 \<and>
    (k < 3 \<longrightarrow> 16 < length (marquee_window ''Tetris'' 2 0 k) + 5)"
proof -
  have g: "length (utf8_glyphs ''Tetris'') = 6" by code_simp
  show ?thesis
    using text_marquee_window [where dst_size = 16 and max_chars = 3 and max_chars0 = 3
        and s = "''Tetris''" and elapsed = 1260 and ofs = 2 and old = "[]"]
    by (simp add: g length_marquee_ring marquee_gap_def marquee_offset_def)
qed

text \<open>
  A copy by characters keeps the longest run of whole glyphs that fits: the buffer
  holds the first \<open>k\<close> glyphs, the call returns \<open>k\<close>, and it stops before \<open>max_chars\<close> only at
  the end of the text or where the next glyph and the NUL do not fit.
\<close>

lemma text_utf8_copy_whole_glyphs:
  assumes "0 < dst_size"
  shows "\<exists>k. unifrog_text_utf8_copy_chars (Some old) dst_size (Some s) max_chars =
      (Some (concat (take k (utf8_glyphs s))), k) \<and>
    k \<le> min max_chars (length (utf8_glyphs s)) \<and>
    length (concat (take k (utf8_glyphs s))) < dst_size \<and>
    (k < min max_chars (length (utf8_glyphs s)) \<longrightarrow>
       dst_size \<le> length (concat (take (Suc k) (utf8_glyphs s))))"
  using utf8_copy_loop_glyphs [of "[]" dst_size 0 max_chars s] assms
  by (auto simp: unifrog_text_utf8_copy_chars_def)

lemma text_utf8_copy_whole_glyphs_witness:
  "\<exists>k. unifrog_text_utf8_copy_chars (Some []) 4 (Some ''Pong'') 9 =
      (Some (concat (take k (utf8_glyphs ''Pong''))), k) \<and>
    k \<le> min 9 (length (utf8_glyphs ''Pong'')) \<and>
    length (concat (take k (utf8_glyphs ''Pong''))) < 4 \<and>
    (k < min 9 (length (utf8_glyphs ''Pong'')) \<longrightarrow>
       4 \<le> length (concat (take (Suc k) (utf8_glyphs ''Pong''))))"
  by (rule text_utf8_copy_whole_glyphs) simp

text \<open>
  A boot path is accepted exactly when it is shorter than the hand-off buffer, ends in
  \<open>.asd\<close> in any case, and every component between slashes is non-empty, does not start with
  a dot (so no parent traversal and no hidden file) and has no forbidden character.
\<close>

lemma boot_asd_path_supported_iff:
  "unifrog_boot_asd_path_supported (Some p) \<longleftrightarrow>
     length p < UNIFROG_BOOT_PATH_MAX \<and>
     4 \<le> length p \<and> strcase_eq (drop (length p - 4) p) ''.asd'' \<and>
     list_all boot_component_ok (split_on SLASH p)"
proof (cases p)
  case Nil
  then show ?thesis by (simp add: unifrog_boot_asd_path_supported_def)
next
  case (Cons c q)
  obtain y ys where "split_on SLASH q = y # ys" by (cases "split_on SLASH q") auto
  then have "c = SLASH \<or> c = CHR ''.'' \<Longrightarrow> \<not> list_all boot_component_ok (split_on SLASH p)"
    using Cons by (auto simp: boot_component_ok_def)
  moreover have "unifrog_text_ends_with_ci (Some p) (Some ''.asd'') \<longleftrightarrow>
      4 \<le> length p \<and> strcase_eq (drop (length p - 4) p) ''.asd''"
    by (simp add: ends_with_ci_iff eval_nat_numeral)
  moreover have "boot_path_loop p True \<longleftrightarrow> list_all boot_component_ok (split_on SLASH p)"
    by (simp only: boot_path_loop_components(1) list_all_iff)
  ultimately show ?thesis
    using Cons by (auto simp: unifrog_boot_asd_path_supported_def simp del: split_on.simps)
qed

text \<open>
  Joining a directory and a name that fit the buffer gives the directory, one
  slash unless the directory already ends in one or is empty, and the name.
\<close>

lemma path_join_fits:
  assumes "length b + 1 + length n < dst_size"
  shows "unifrog_path_join (Some old) dst_size (Some b) (Some n) =
    Some (b @ (if b = [] \<or> last b = SLASH then [] else [SLASH]) @ n)"
proof -
  have "text_copy dst_size b = b" "text_copy (dst_size - length b) n = n"
    "text_copy (dst_size - Suc (length b)) n = n"
    using assms by (auto intro!: tcp.copy_fits)
  with assms show ?thesis
    by (auto simp: unifrog_path_join_def Let_def last_conv_nth)
qed

lemma path_join_fits_witness:
  "unifrog_path_join (Some []) 32 (Some ''/media'') (Some ''ROMS'') = Some ''/media/ROMS''"
  using path_join_fits [of "''/media''" "''ROMS''" 32 "[]"] by simp

end
