(* ===== verification/UF_Fs.thy ===== *)
theory UF_Fs
  imports UF_Prelude
begin

text \<open>
  The file system calls of the C library that the configuration, storage and history code
  uses, over an explicit store. A state holds the files, whether \<open>rename\<close> may replace an
  existing target (FAT drivers refuse it), and the faults that the environment injects: every
  call takes the next entry of \<open>faults\<close>, and a non-zero entry makes the call fail with that
  \<open>errno\<close>. Text streams are the characters not yet read and the end-of-file flag.
\<close>

section \<open>Files\<close>

definition ENOENT :: int where "ENOENT = 2"
definition EEXIST :: int where "EEXIST = 17"
definition ENOTDIR :: int where "ENOTDIR = 20"
definition EINVAL :: int where "EINVAL = 22"

record fsys =
  files :: "string \<rightharpoonup> string"
  replace_ok :: bool
  faults :: "int list"
  errno :: int

definition put_file :: "string \<Rightarrow> string \<Rightarrow> fsys \<Rightarrow> fsys" where
  "put_file p d fs = fs\<lparr>files := (files fs)(p \<mapsto> d)\<rparr>"

definition next_fault :: "fsys \<Rightarrow> int \<times> fsys" where
  "next_fault fs = (case faults fs of [] \<Rightarrow> (0, fs) | e # es \<Rightarrow> (e, fs\<lparr>faults := es\<rparr>))"

definition c_rename :: "string \<Rightarrow> string \<Rightarrow> fsys \<Rightarrow> int \<times> fsys" where
  "c_rename a b fs =
     (let (e, fs) = next_fault fs in
      if e \<noteq> 0 then (-1, fs\<lparr>errno := e\<rparr>)
      else (case files fs a of
              None \<Rightarrow> (-1, fs\<lparr>errno := ENOENT\<rparr>)
            | Some d \<Rightarrow>
                if files fs b \<noteq> None \<and> a \<noteq> b \<and> \<not> replace_ok fs then (-1, fs\<lparr>errno := EEXIST\<rparr>)
                else (0, fs\<lparr>files := (files fs)(a := None, b \<mapsto> d)\<rparr>)))"

definition c_unlink :: "string \<Rightarrow> fsys \<Rightarrow> int \<times> fsys" where
  "c_unlink p fs =
     (let (e, fs) = next_fault fs in
      if e \<noteq> 0 then (-1, fs\<lparr>errno := e\<rparr>)
      else if files fs p = None then (-1, fs\<lparr>errno := ENOENT\<rparr>)
      else (0, fs\<lparr>files := (files fs)(p := None)\<rparr>))"

text \<open>Opening for reading gives the contents; opening for writing creates an empty file.\<close>

definition c_fopen_rb :: "string \<Rightarrow> fsys \<Rightarrow> string option \<times> fsys" where
  "c_fopen_rb p fs =
     (let (e, fs) = next_fault fs in
      if e \<noteq> 0 then (None, fs\<lparr>errno := e\<rparr>)
      else if files fs p = None then (None, fs\<lparr>errno := ENOENT\<rparr>)
      else (files fs p, fs))"

definition c_fopen_wb :: "string \<Rightarrow> fsys \<Rightarrow> bool \<times> fsys" where
  "c_fopen_wb p fs =
     (let (e, fs) = next_fault fs in
      if e \<noteq> 0 then (False, fs\<lparr>errno := e\<rparr>)
      else (True, put_file p [] fs))"

text \<open>
  Writing appends to the file at \<open>p\<close>, the only open output stream of the code modelled here.
  A failing call writes nothing of its data; \<open>fflush\<close> and \<open>fclose\<close> can fail as well.
\<close>

definition c_fwrite :: "string \<Rightarrow> string \<Rightarrow> fsys \<Rightarrow> bool \<times> fsys" where
  "c_fwrite p d fs =
     (let (e, fs) = next_fault fs in
      if e \<noteq> 0 then (False, fs\<lparr>errno := e\<rparr>)
      else (case files fs p of
              None \<Rightarrow> (False, fs\<lparr>errno := EINVAL\<rparr>)
            | Some old \<Rightarrow> (True, put_file p (old @ d) fs)))"

definition c_sync :: "fsys \<Rightarrow> bool \<times> fsys" where
  "c_sync fs = (let (e, fs) = next_fault fs in
     if e \<noteq> 0 then (False, fs\<lparr>errno := e\<rparr>) else (True, fs))"

definition c_access :: "string \<Rightarrow> fsys \<Rightarrow> bool" where
  "c_access p fs \<longleftrightarrow> files fs p \<noteq> None"

section \<open>Reading lines\<close>

record stream =
  rest :: string
  at_eof :: bool

fun fgets_chunk :: "nat \<Rightarrow> string \<Rightarrow> string \<times> string" where
  "fgets_chunk 0 s = ([], s)"
| "fgets_chunk (Suc n) [] = ([], [])"
| "fgets_chunk (Suc n) (c # s) =
     (if c = LF then ([c], s) else (let (l, r) = fgets_chunk n s in (c # l, r)))"

text \<open>
  \<open>fgets (line, n, file)\<close>: at most \<open>n - 1\<close> characters, up to and with the first newline; the
  end-of-file flag is set when the call had to look past the last character.
\<close>

definition c_fgets :: "nat \<Rightarrow> stream \<Rightarrow> string option \<times> stream" where
  "c_fgets n st =
     (let (l, r) = fgets_chunk (n - 1) (rest st) in
      if l = [] then (None, st\<lparr>at_eof := True\<rparr>)
      else (Some l, \<lparr>rest = r, at_eof = (at_eof st \<or> length l < n - 1 \<and> last l \<noteq> LF)\<rparr>))"

definition open_stream :: "string \<Rightarrow> stream" where
  "open_stream s = \<lparr>rest = s, at_eof = False\<rparr>"

section \<open>Lemmas\<close>

lemmas fs_call_defs = c_rename_def c_unlink_def c_fopen_rb_def c_fopen_wb_def c_fwrite_def c_sync_def

lemma put_file_simps [simp]:
  "files (put_file p d fs) = (files fs)(p \<mapsto> d)"
  "faults (put_file p d fs) = faults fs"
  "replace_ok (put_file p d fs) = replace_ok fs"
  "errno (put_file p d fs) = errno fs"
  "put_file p d (put_file p e fs) = put_file p d fs"
  "files fs p = Some d \<Longrightarrow> put_file p d fs = fs"
  by (simp_all add: put_file_def fun_upd_idem)

lemma next_fault_files [simp]:
  "next_fault fs = (e, fs') \<Longrightarrow> files fs' = files fs"
  "next_fault fs = (e, fs') \<Longrightarrow> replace_ok fs' = replace_ok fs"
  by (auto simp: next_fault_def split: list.splits)

lemma next_fault_none [simp]: "faults fs = [] \<Longrightarrow> next_fault fs = (0, fs)"
  by (simp add: next_fault_def)

lemma c_rename_cases:
  assumes "c_rename a b fs = (r, fs')"
  obtains (ok) d where "r = 0" "files fs a = Some d" "files fs' = (files fs)(a := None, b \<mapsto> d)"
  | (fail) "r = -1" "files fs' = files fs"
  using assms unfolding c_rename_def
  by (auto simp: Let_def split: prod.splits if_splits option.splits)

lemma c_unlink_cases:
  assumes "c_unlink p fs = (r, fs')"
  obtains (ok) "r = 0" "files fs' = (files fs)(p := None)"
  | (fail) "r = -1" "files fs' = files fs"
  using assms unfolding c_unlink_def
  by (auto simp: Let_def split: prod.splits if_splits)

lemma fault_free_calls [simp]:
  assumes "faults fs = []"
  shows "faults (snd (c_rename a b fs)) = []" "faults (snd (c_unlink p fs)) = []"
    "c_fopen_wb p fs = (True, put_file p [] fs)"
    "c_sync fs = (True, fs)"
    "files fs p = Some old \<Longrightarrow> c_fwrite p d fs = (True, put_file p (old @ d) fs)"
    "files fs p = Some old \<Longrightarrow> c_fopen_rb p fs = (Some old, fs)"
  using assms by (auto simp: fs_call_defs split: option.splits)

lemma fgets_chunk_append: "fgets_chunk n s = (l, r) \<Longrightarrow> s = l @ r"
  by (induction n s arbitrary: l r rule: fgets_chunk.induct) (auto split: if_splits prod.splits)

lemma fgets_chunk_length: "fgets_chunk n s = (l, r) \<Longrightarrow> length l \<le> n"
  by (induction n s arbitrary: l r rule: fgets_chunk.induct) (auto split: if_splits prod.splits)

lemma fgets_chunk_line:
  "LF \<notin> set l \<Longrightarrow> length l < n \<Longrightarrow> fgets_chunk n (l @ LF # r) = (l @ [LF], r)"
proof (induction l arbitrary: n)
  case Nil
  then show ?case by (cases n) auto
next
  case (Cons c l)
  then show ?case by (cases n) auto
qed

lemma c_fgets_shrinks: "c_fgets n st = (Some l, st') \<Longrightarrow> length (rest st') < length (rest st)"
  by (auto simp: c_fgets_def Let_def split: prod.splits if_splits dest!: fgets_chunk_append)

lemma c_fgets_empty: "rest st = [] \<Longrightarrow> c_fgets n st = (None, st\<lparr>at_eof := True\<rparr>)"
  by (cases "n - 1") (auto simp: c_fgets_def)

lemma c_fgets_line:
  "LF \<notin> set l \<Longrightarrow> length l + 1 < n \<Longrightarrow>
   c_fgets n \<lparr>rest = l @ LF # r, at_eof = b\<rparr> = (Some (l @ [LF]), \<lparr>rest = r, at_eof = b\<rparr>)"
  using fgets_chunk_line [of l "n - 1" r] by (simp add: c_fgets_def)

end
