(* ===== verification/UF_Config.thy ===== *)
theory UF_Config
  imports UF_Fs UF_Text
begin

text \<open>
  The configuration store of \<open>foundation/src/config/unifrog_config.c\<close>: the reader of
  sectioned \<open>key=value\<close> files, the replacement of one section, and the commit of a temporary
  file over the live one. The callback of the reader is a state transformer that returns the
  new user data and the C result.
\<close>

section \<open>Definitions\<close>

definition CONFIG_LINE_MAX :: nat where "CONFIG_LINE_MAX = 384"
definition CONFIG_SECTION_MAX :: nat where "CONFIG_SECTION_MAX = 320"

definition is_blank :: "char \<Rightarrow> bool" where
  "is_blank c \<longleftrightarrow> c = CHR '' '' \<or> c = TAB"

definition is_trailing :: "char \<Rightarrow> bool" where
  "is_trailing c \<longleftrightarrow> is_blank c \<or> c = CR \<or> c = LF"

definition trim_ascii :: "string \<Rightarrow> string" where
  "trim_ascii s = rev (dropWhile is_trailing (rev (dropWhile is_blank s)))"

fun skip_line :: "string \<Rightarrow> string \<times> bool" where
  "skip_line [] = ([], True)"
| "skip_line (c # s) = (if c = LF then (s, False) else skip_line s)"

definition read_complete_line :: "stream \<Rightarrow> nat \<Rightarrow> (string \<times> stream \<times> nat) option" where
  "read_complete_line st errors =
     (case c_fgets CONFIG_LINE_MAX st of
        (None, _) \<Rightarrow> None
      | (Some buf, st) \<Rightarrow>
          let line = c_str buf in
          if line \<noteq> [] \<and> last line = LF then Some (line, st, errors)
          else if at_eof st then Some (line, st, errors)
          else let (r, e) = skip_line (rest st)
               in Some ([], \<lparr>rest = r, at_eof = (at_eof st \<or> e)\<rparr>, errors + 1))"

fun cut_comment :: "bool \<Rightarrow> string \<Rightarrow> string" where
  "cut_comment at_start [] = []"
| "cut_comment at_start (c # s) =
     (if (c = CHR ''#'' \<or> c = CHR '';'') \<and> at_start then [] else c # cut_comment (is_blank c) s)"

definition unescape :: "char \<Rightarrow> char" where
  "unescape c = (if c = CHR ''n'' then LF else if c = CHR ''r'' then CR
                 else if c = CHR ''t'' then TAB else c)"

fun unquote :: "char \<Rightarrow> string \<Rightarrow> string \<times> string" where
  "unquote q [] = ([], [])"
| "unquote q [c] = (if c = q then ([], [c]) else ([c], []))"
| "unquote q (c # d # s) =
     (if c = q then ([], c # d # s)
      else if c = BACKSLASH \<and> q = QUOT
      then (let (out, r) = unquote q s in (unescape d # out, r))
      else (let (out, r) = unquote q (d # s) in (c # out, r)))"

definition parse_value :: "string \<Rightarrow> nat \<Rightarrow> string option \<times> nat" where
  "parse_value value0 errors =
     (let value = trim_ascii value0 in
      if value = [] \<or> hd value \<noteq> APOS \<and> hd value \<noteq> QUOT
      then (Some (trim_ascii (cut_comment True value)), errors)
      else
        let (out, src) = unquote (hd value) (tl value) in
        if src = [] then (None, errors + 1)
        else let after = trim_ascii (tl src) in
          if after \<noteq> [] \<and> hd after \<noteq> CHR ''#'' \<and> hd after \<noteq> CHR '';'' then (None, errors + 1)
          else (Some out, errors))"

type_synonym 'u config_cb = "'u \<Rightarrow> string \<Rightarrow> string \<Rightarrow> string \<Rightarrow> nat \<Rightarrow> 'u \<times> int"

record 'u config_state =
  cs_section :: string
  cs_errors :: nat
  cs_line :: nat
  cs_user :: 'u

definition utf8_bom :: string where
  "utf8_bom = [CHR 0xEF, CHR 0xBB, CHR 0xBF]"

text \<open>A section header: the text starts with a bracket.\<close>

definition config_header :: "string \<Rightarrow> 'u config_state \<Rightarrow> 'u config_state" where
  "config_header text cs =
     (case str_chr (tl text) (CHR '']'') of
        None \<Rightarrow> cs\<lparr>cs_errors := cs_errors cs + 1\<rparr>
      | Some i \<Rightarrow>
          let name = trim_ascii (take i (tl text)); after = trim_ascii (drop (Suc i) (tl text)) in
          if name = [] \<or> after \<noteq> [] \<and> hd after \<noteq> CHR ''#'' \<and> hd after \<noteq> CHR '';'' \<or>
             length name \<ge> CONFIG_SECTION_MAX
          then cs\<lparr>cs_errors := cs_errors cs + 1\<rparr>
          else cs\<lparr>cs_section := snprintf_s CONFIG_SECTION_MAX name\<rparr>)"

text \<open>A \<open>key=value\<close> line; the flag says whether the callback stopped the loop.\<close>

definition config_assign :: "'u config_cb \<Rightarrow> string \<Rightarrow> 'u config_state \<Rightarrow> 'u config_state \<times> bool" where
  "config_assign cb text cs =
     (case str_chr text (CHR ''='') of
        None \<Rightarrow> (cs\<lparr>cs_errors := cs_errors cs + 1\<rparr>, False)
      | Some i \<Rightarrow>
          let key = trim_ascii (take i text);
              (value, errors) = parse_value (drop (Suc i) text) (cs_errors cs);
              cs = cs\<lparr>cs_errors := errors\<rparr>
          in (case value of
                None \<Rightarrow> (cs, False)
              | Some v \<Rightarrow>
                  if key = [] then (cs, False)
                  else let (u, ret) = cb (cs_user cs) (cs_section cs) key v (cs_line cs)
                       in (cs\<lparr>cs_user := u\<rparr>, ret \<noteq> 0)))"

definition config_line :: "'u config_cb \<Rightarrow> string \<Rightarrow> 'u config_state \<Rightarrow> 'u config_state \<times> bool" where
  "config_line cb line cs0 =
     (let cs = cs0\<lparr>cs_line := cs_line cs0 + 1\<rparr> in
      if line = [] then (cs, False)
      else
        let text0 = trim_ascii line;
            text = (if cs_line cs = 1 \<and> take 3 text0 = utf8_bom then trim_ascii (drop 3 text0) else text0)
        in if text = [] \<or> hd text = CHR ''#'' \<or> hd text = CHR '';'' then (cs, False)
           else if hd text = CHR ''['' then (config_header text cs, False)
           else config_assign cb text cs)"

lemma skip_line_length: "length (fst (skip_line s)) \<le> length s"
  by (induction s) auto

lemma read_complete_line_shrinks:
  "read_complete_line st e = Some (l, st', e') \<Longrightarrow> length (rest st') < length (rest st)"
  using skip_line_length
  by (fastforce simp: read_complete_line_def Let_def dest!: c_fgets_shrinks
      split: option.splits prod.splits if_splits dest: order_le_less_trans)

function config_loop :: "'u config_cb \<Rightarrow> stream \<Rightarrow> 'u config_state \<Rightarrow> 'u config_state" where
  "config_loop cb st cs =
     (case read_complete_line st (cs_errors cs) of
        None \<Rightarrow> cs
      | Some (line, st', errors) \<Rightarrow>
          let (cs', stop) = config_line cb line (cs\<lparr>cs_errors := errors\<rparr>)
          in if stop then cs' else config_loop cb st' cs')"
  by pat_completeness auto
termination
  by (relation "measure (\<lambda>(cb, st, cs). length (rest st))")
     (auto simp: read_complete_line_shrinks)

declare config_loop.simps [simp del]

definition config_start :: "'u \<Rightarrow> 'u config_state" where
  "config_start u = \<lparr>cs_section = [], cs_errors = 0, cs_line = 0, cs_user = u\<rparr>"

text \<open>The result is the C result, the user data and the reported error count.\<close>

definition unifrog_config_read ::
  "fsys \<Rightarrow> string option \<Rightarrow> 'u config_cb option \<Rightarrow> 'u \<Rightarrow> (int \<times> 'u \<times> nat) \<times> fsys" where
  "unifrog_config_read fs path callback userdata =
     (case (path, callback) of
        (Some p, Some cb) \<Rightarrow>
          (case c_fopen_rb p fs of
             (None, fs) \<Rightarrow> ((-1, userdata, 0), fs)
           | (Some d, fs) \<Rightarrow>
               let cs = config_loop cb (open_stream d) (config_start userdata)
               in ((0, cs_user cs, cs_errors cs), fs))
      | _ \<Rightarrow> ((-2, userdata, 0), fs))"

definition line_section_name :: "string \<Rightarrow> nat \<Rightarrow> string option" where
  "line_section_name line section_size =
     (let start = dropWhile is_blank line in
      if start = [] \<or> hd start \<noteq> CHR ''['' then None
      else (case str_chr (tl start) (CHR '']'') of
              None \<Rightarrow> None
            | Some i \<Rightarrow>
                let inner = rev (dropWhile is_blank (rev (dropWhile is_blank (take i (tl start)))))
                in if inner = [] \<or> length inner \<ge> section_size then None else Some inner))"

text \<open>
  The copy loop of the section rewrite. The result is 0, or -1 after a failed write or read;
  \<open>fgets\<close> takes one fault of its own, \<open>fputs\<close> another.
\<close>

function rewrite_loop :: "string \<Rightarrow> string \<Rightarrow> stream \<Rightarrow> bool \<Rightarrow> fsys \<Rightarrow> int \<times> fsys" where
  "rewrite_loop section temporary st skipping fs =
     (let (e, fs) = next_fault fs in
      if e \<noteq> 0 then (-1, fs\<lparr>errno := e\<rparr>)
      else (case c_fgets CONFIG_LINE_MAX st of
              (None, _) \<Rightarrow> (0, fs)
            | (Some buf, st') \<Rightarrow>
                let line = c_str buf;
                    skipping = (case line_section_name line CONFIG_SECTION_MAX of
                                  None \<Rightarrow> skipping | Some current \<Rightarrow> current = section)
                in if skipping then rewrite_loop section temporary st' skipping fs
                   else (case c_fwrite temporary line fs of
                           (False, fs) \<Rightarrow> (-1, fs)
                         | (True, fs) \<Rightarrow> rewrite_loop section temporary st' skipping fs)))"
  by pat_completeness auto
termination
  by (relation "measure (\<lambda>(s, t, st, k, fs). length (rest st))") (auto dest: c_fgets_shrinks [OF sym])

declare rewrite_loop.simps [simp del]

definition config_backup_name :: "string \<Rightarrow> string" where
  "config_backup_name path = path @ ''.bak''"

definition unifrog_config_commit :: "string option \<Rightarrow> string option \<Rightarrow> fsys \<Rightarrow> int \<times> fsys" where
  "unifrog_config_commit temporary path fs =
     (case (temporary, path) of
        (Some tmp, Some p) \<Rightarrow>
          if length (config_backup_name p) \<ge> CONFIG_SECTION_MAX then (-2, fs)
          else
            let backup = config_backup_name p;
                (r, fs) = c_rename tmp p fs
            in if r = 0 then (0, fs)
               else
                 let (_, fs) = c_unlink backup fs;
                     (r1, fs) = c_rename p backup fs;
                     moved_old = (r1 = 0)
                 in if \<not> moved_old \<and> errno fs \<noteq> ENOENT then (-1, fs)
                    else
                      let (r2, fs) = c_rename tmp p fs
                      in if r2 \<noteq> 0
                         then (-1, if moved_old then snd (c_rename backup p fs) else fs)
                         else (0, if moved_old then snd (c_unlink backup fs) else fs)
      | _ \<Rightarrow> (-2, fs))"

text \<open>
  The writer callback is what it does to the stream: the text it emits and its result (it
  reports a failure of its own writes, as every writer in the sources does); \<open>None\<close> is the null pointer that \<open>unifrog_config_remove_section\<close> passes.
\<close>

type_synonym section_writer = "string \<times> int"

definition rewrite_section ::
  "string option \<Rightarrow> string option \<Rightarrow> section_writer option \<Rightarrow> fsys \<Rightarrow> int \<times> fsys" where
  "rewrite_section path section writer fs =
     (case (path, section) of
        (Some p, Some sec) \<Rightarrow>
          if sec = [] then (-2, fs)
          else if length (p @ ''.tmp'') \<ge> CONFIG_SECTION_MAX then (-2, fs)
          else
            let temporary = p @ ''.tmp'';
                (input, fs) = c_fopen_rb p fs;
                (opened, fs) = c_fopen_wb temporary fs
            in if \<not> opened then (-1, fs)
               else
                 let (ret, fs) = (case input of None \<Rightarrow> (0, fs)
                                  | Some d \<Rightarrow> rewrite_loop sec temporary (open_stream d) False fs);
                     (ret, fs) = (case writer of
                        Some (txt, wret) \<Rightarrow>
                          if ret = 0 then
                            let (ok, fs) = c_fwrite temporary ([LF] @ ''['' @ sec @ '']'' @ [LF]) fs
                            in if \<not> ok then (-1, fs)
                               else let (ok, fs) = c_fwrite temporary txt fs
                                    in (if \<not> ok \<or> wret \<noteq> 0 then -1 else 0, fs)
                          else (ret, fs)
                      | None \<Rightarrow> (ret, fs));
                     (closed, fs) = c_sync fs;
                     ret = (if closed then ret else -1);
                     (ret, fs) = (if ret = 0 then unifrog_config_commit (Some temporary) (Some p) fs
                                  else (ret, fs))
                 in (ret, if ret \<noteq> 0 then snd (c_unlink temporary fs) else fs)
      | _ \<Rightarrow> (-2, fs))"

definition unifrog_config_replace_section ::
  "string option \<Rightarrow> string option \<Rightarrow> section_writer option \<Rightarrow> fsys \<Rightarrow> int \<times> fsys" where
  "unifrog_config_replace_section path section writer fs =
     (case writer of None \<Rightarrow> (-2, fs) | Some w \<Rightarrow> rewrite_section path section (Some w) fs)"

definition unifrog_config_remove_section :: "string option \<Rightarrow> string option \<Rightarrow> fsys \<Rightarrow> int \<times> fsys" where
  "unifrog_config_remove_section path section fs =
     (case path of None \<Rightarrow> (-1, fs)
      | Some p \<Rightarrow> if \<not> c_access p fs then (-1, fs) else rewrite_section path section None fs)"

section \<open>Trimming\<close>

lemma is_blank_trailing [simp]: "is_blank c \<Longrightarrow> is_trailing c"
  by (simp add: is_trailing_def)

lemma dropWhile_hd: "s = [] \<or> \<not> P (hd s) \<Longrightarrow> dropWhile P s = s"
  by (cases s) auto

text \<open>A text that trimming leaves alone.\<close>

definition trimmed :: "string \<Rightarrow> bool" where
  "trimmed s \<longleftrightarrow> s = [] \<or> \<not> is_blank (hd s) \<and> \<not> is_trailing (last s)"

lemma trim_ascii_Nil [simp]: "trim_ascii [] = []"
  by (simp add: trim_ascii_def)

lemma trim_ascii_trimmed: "trimmed s \<Longrightarrow> trim_ascii s = s"
  by (auto simp: trimmed_def trim_ascii_def dropWhile_hd hd_rev)

lemma trim_ascii_pad:
  assumes "trimmed s" "s \<noteq> []" "list_all is_blank a" "list_all is_trailing b"
  shows "trim_ascii (a @ s @ b) = s"
proof -
  have "dropWhile is_blank (a @ s @ b) = s @ b"
    using assms by (subst dropWhile_append2) (auto simp: list_all_iff trimmed_def dropWhile_hd)
  moreover have "dropWhile is_trailing (rev b @ rev s) = rev s"
    using assms by (subst dropWhile_append2) (auto simp: list_all_iff trimmed_def dropWhile_hd hd_rev)
  ultimately show ?thesis by (simp add: trim_ascii_def)
qed

lemma hd_dropWhile_not: "dropWhile P s \<noteq> [] \<Longrightarrow> \<not> P (hd (dropWhile P s))"
  by (rule hd_dropWhile)

lemma trimmed_trim: "trimmed (trim_ascii s)"
proof (cases "trim_ascii s = []")
  case False
  let ?m = "dropWhile is_blank s"
  obtain z where z: "?m = trim_ascii s @ z"
    unfolding trim_ascii_def
    by (metis append_take_drop_id rev_append rev_rev_ident takeWhile_dropWhile_id)
  have "\<not> is_trailing (last (trim_ascii s))"
    using False hd_dropWhile [of is_trailing "rev ?m"]
    by (auto simp: trim_ascii_def last_rev)
  moreover have "\<not> is_blank (hd (trim_ascii s))"
    using False z hd_dropWhile [of is_blank s] by (metis append_is_Nil_conv hd_append2)
  ultimately show ?thesis by (simp add: trimmed_def)
qed (simp add: trimmed_def)

lemma trim_ascii_set: "set (trim_ascii s) \<subseteq> set s"
  unfolding trim_ascii_def by (auto dest!: set_dropWhileD)

lemma trim_ascii_length: "length (trim_ascii s) \<le> length s"
  unfolding trim_ascii_def by (metis length_dropWhile_le length_rev le_trans)

section \<open>Values\<close>

text \<open>
  A value that needs no quoting: trimmed, not starting with a quote, and with no comment
  character at its start or after a blank.
\<close>

fun plain_value :: "bool \<Rightarrow> string \<Rightarrow> bool" where
  "plain_value at_start [] = True"
| "plain_value at_start (c # s) =
     (\<not> (at_start \<and> (c = CHR ''#'' \<or> c = CHR '';'')) \<and> plain_value (is_blank c) s)"

lemma cut_comment_plain: "plain_value b s \<Longrightarrow> cut_comment b s = s"
  by (induction b s rule: plain_value.induct) auto

lemma parse_value_plain:
  assumes "trimmed v" "plain_value True v" "v = [] \<or> hd v \<noteq> APOS \<and> hd v \<noteq> QUOT"
    "list_all is_blank a" "list_all is_trailing b"
  shows "parse_value (a @ v @ b) e = (Some v, e)"
proof (cases "v = []")
  case False
  then show ?thesis
    using assms by (simp add: parse_value_def trim_ascii_pad cut_comment_plain trim_ascii_trimmed)
next
  case True
  have "dropWhile is_blank (a @ b) = dropWhile is_blank b"
    using assms(4) by (simp add: list_all_iff)
  moreover have "dropWhile is_trailing (rev (dropWhile is_blank b)) = []"
    using assms(5) by (auto simp: list_all_iff dest: set_dropWhileD)
  ultimately have "trim_ascii (a @ b) = []" by (simp add: trim_ascii_def)
  with True show ?thesis by (simp add: parse_value_def)
qed

text \<open>The double-quoted form of any text, and that reading it gives the text back.\<close>

fun quote_chars :: "string \<Rightarrow> string" where
  "quote_chars [] = []"
| "quote_chars (c # s) =
     (if c = LF then BACKSLASH # CHR ''n'' # quote_chars s
      else if c = CR then BACKSLASH # CHR ''r'' # quote_chars s
      else if c = TAB then BACKSLASH # CHR ''t'' # quote_chars s
      else if c = QUOT \<or> c = BACKSLASH then BACKSLASH # c # quote_chars s
      else c # quote_chars s)"

lemma unquote_quoted: "unquote QUOT (quote_chars s @ QUOT # r) = (s, QUOT # r)"
proof (induction s)
  case Nil
  then show ?case by (cases r) auto
next
  case (Cons c s)
  obtain x xs where x: "quote_chars s @ QUOT # r = x # xs"
    by (cases "quote_chars s @ QUOT # r") auto
  with Cons.IH show ?case by (auto simp: unescape_def)
qed

lemma quote_chars_clean: "LF \<notin> set (quote_chars s)" "cstr_ok s \<Longrightarrow> cstr_ok (quote_chars s)"
  by (induction s) auto

lemma parse_value_quoted:
  assumes "list_all is_trailing b"
  shows "parse_value (QUOT # quote_chars v @ QUOT # b) e = (Some v, e)"
proof -
  have "trimmed (QUOT # quote_chars v @ [QUOT])"
    by (simp add: trimmed_def is_blank_def is_trailing_def)
  from trim_ascii_pad [OF this, of "[]" b] assms
  have "trim_ascii (QUOT # quote_chars v @ QUOT # b) = QUOT # quote_chars v @ [QUOT]" by simp
  then show ?thesis by (simp add: parse_value_def unquote_quoted)
qed

section \<open>Files as lists of items\<close>

text \<open>
  The abstract configuration: a file is a list of items, and it means a list of
  \<open>(section, key, value)\<close> entries. Values are written plainly where that is possible and
  quoted otherwise.
\<close>

datatype cfg_item = Blank | Comment string | Header string | Assign string string

definition print_value :: "string \<Rightarrow> string" where
  "print_value v =
     (if trimmed v \<and> plain_value True v \<and> LF \<notin> set v \<and> (v = [] \<or> hd v \<noteq> APOS \<and> hd v \<noteq> QUOT)
      then v else QUOT # quote_chars v @ [QUOT])"

fun render_item :: "cfg_item \<Rightarrow> string" where
  "render_item Blank = []"
| "render_item (Comment c) = CHR ''#'' # c"
| "render_item (Header s) = CHR ''['' # s @ [CHR '']'']"
| "render_item (Assign k v) = k @ CHR ''='' # print_value v"

definition render_items :: "cfg_item list \<Rightarrow> string" where
  "render_items items = concat (map (\<lambda>i. render_item i @ [LF]) items)"

fun item_entries :: "string \<Rightarrow> cfg_item list \<Rightarrow> (string \<times> string \<times> string) list" where
  "item_entries sec [] = []"
| "item_entries sec (Header s # is) = item_entries s is"
| "item_entries sec (Assign k v # is) = (sec, k, v) # item_entries sec is"
| "item_entries sec (Blank # is) = item_entries sec is"
| "item_entries sec (Comment c # is) = item_entries sec is"

definition key_ok :: "string \<Rightarrow> bool" where
  "key_ok k \<longleftrightarrow> k \<noteq> [] \<and> trimmed k \<and> cstr_ok k \<and> LF \<notin> set k \<and> CHR ''='' \<notin> set k \<and>
     hd k \<notin> {CHR ''#'', CHR '';'', CHR ''[''} \<and> \<not> prefix utf8_bom k"

definition section_ok :: "string \<Rightarrow> bool" where
  "section_ok s \<longleftrightarrow> s \<noteq> [] \<and> trimmed s \<and> cstr_ok s \<and> LF \<notin> set s \<and> CHR '']'' \<notin> set s \<and>
     length s < CONFIG_SECTION_MAX"

fun item_ok :: "cfg_item \<Rightarrow> bool" where
  "item_ok Blank = True"
| "item_ok (Comment c) = (cstr_ok c \<and> LF \<notin> set c \<and> length c + 2 < CONFIG_LINE_MAX)"
| "item_ok (Header s) = section_ok s"
| "item_ok (Assign k v) = (key_ok k \<and> cstr_ok v \<and> length (render_item (Assign k v)) + 1 < CONFIG_LINE_MAX)"

lemma render_items_simps [simp]:
  "render_items [] = []"
  "render_items (i # is) = render_item i @ LF # render_items is"
  "render_items (xs @ ys) = render_items xs @ render_items ys"
  by (simp_all add: render_items_def)

lemma print_value_clean: "LF \<notin> set (print_value v)" "cstr_ok v \<Longrightarrow> cstr_ok (print_value v)"
  by (auto simp: print_value_def quote_chars_clean)

lemma parse_print_value: "parse_value (print_value v @ [LF]) e = (Some v, e)"
  using parse_value_plain [of v "[]" "[LF]" e] parse_value_quoted [of "[LF]" v e]
  by (auto simp: print_value_def is_trailing_def)

lemma parse_print_value_bare: "parse_value (print_value v) e = (Some v, e)"
  using parse_value_plain [of v "[]" "[]" e] parse_value_quoted [of "[]" v e]
  by (auto simp: print_value_def)

lemma trimmed_print_value: "print_value v = [] \<or> \<not> is_trailing (last (print_value v))"
  by (auto simp: print_value_def trimmed_def is_trailing_def is_blank_def)

lemma item_ok_line:
  assumes "item_ok i"
  shows "LF \<notin> set (render_item i)" "cstr_ok (render_item i)" "length (render_item i) + 1 < CONFIG_LINE_MAX"
  using assms
  by (cases i; auto simp: section_ok_def key_ok_def print_value_clean CONFIG_LINE_MAX_def CONFIG_SECTION_MAX_def)+

lemma trim_line:
  "trimmed s \<Longrightarrow> s \<noteq> [] \<Longrightarrow> trim_ascii (s @ [LF]) = s"
  using trim_ascii_pad [of s "[]" "[LF]"] by (simp add: is_trailing_def)

lemma config_line_blank: "config_line cb [LF] cs = (cs\<lparr>cs_line := Suc (cs_line cs)\<rparr>, False)"
  by (simp add: config_line_def trim_ascii_def is_blank_def is_trailing_def utf8_bom_def)

lemma config_line_comment:
  "config_line cb (CHR ''#'' # c @ [LF]) cs = (cs\<lparr>cs_line := Suc (cs_line cs)\<rparr>, False)"
proof -
  have "hd (trim_ascii (CHR ''#'' # c @ [LF])) = CHR ''#'' \<and> trim_ascii (CHR ''#'' # c @ [LF]) \<noteq> []"
  proof -
    have "dropWhile is_trailing (rev c @ [CHR ''#'']) = dropWhile is_trailing (rev c) @ [CHR ''#'']"
      by (induction c rule: rev_induct) (auto simp: is_trailing_def is_blank_def)
    then show ?thesis by (simp add: trim_ascii_def is_blank_def is_trailing_def)
  qed
  then show ?thesis
    by (cases "trim_ascii (CHR ''#'' # c @ [LF])") (auto simp: config_line_def utf8_bom_def Let_def)
qed

lemma config_line_header:
  assumes "section_ok s"
  shows "config_line cb (CHR ''['' # s @ CHR '']'' # [LF]) cs =
    (cs\<lparr>cs_line := Suc (cs_line cs), cs_section := s\<rparr>, False)"
proof -
  have "trim_ascii (CHR ''['' # s @ CHR '']'' # [LF]) = CHR ''['' # s @ [CHR '']'']"
    using trim_line [of "CHR ''['' # s @ [CHR '']'']"] by (simp add: trimmed_def is_blank_def is_trailing_def)
  moreover have "str_chr (s @ [CHR '']'']) (CHR '']'') = Some (length s)"
    using assms by (simp add: str_chr_append section_ok_def)
  ultimately show ?thesis
    using assms by (simp add: config_line_def config_header_def utf8_bom_def section_ok_def
        trim_ascii_trimmed snp.copy_fits)
qed

lemma config_line_assign:
  assumes "key_ok k"
  shows "config_line cb (k @ CHR ''='' # print_value v @ [LF]) cs =
    (let (u, ret) = cb (cs_user cs) (cs_section cs) k v (Suc (cs_line cs))
     in (cs\<lparr>cs_line := Suc (cs_line cs), cs_user := u\<rparr>, ret \<noteq> 0))"
proof -
  let ?t = "k @ CHR ''='' # print_value v"
  have "trimmed ?t"
    using assms trimmed_print_value [of v]
    by (auto simp: key_ok_def trimmed_def is_trailing_def is_blank_def)
  then have tl: "trim_ascii (k @ CHR ''='' # print_value v @ [LF]) = ?t"
    using trim_line [of ?t] by simp
  have nobom: "take 3 ?t \<noteq> utf8_bom"
  proof
    assume bom: "take 3 ?t = utf8_bom"
    show False
    proof (cases "3 \<le> length k")
      case True
      with bom have "prefix utf8_bom k" by (metis append_eq_conv_conj length_take min.absorb2
            prefixI take_append take_is_prefix diff_is_0_eq take_0 append_Nil2)
      with assms show False by (simp add: key_ok_def)
    next
      case False
      then have "CHR ''='' \<in> set (take 3 ?t)" by (auto simp: take_Cons')
      with bom show False by (simp add: utf8_bom_def)
    qed
  qed
  have "str_chr ?t (CHR ''='') = Some (length k)"
    using assms by (simp add: str_chr_append key_ok_def)
  with assms tl nobom show ?thesis
    by (auto simp: config_line_def config_assign_def key_ok_def parse_print_value_bare trim_ascii_trimmed
        Let_def split: prod.splits)
qed

lemma read_complete_line_ok:
  assumes "LF \<notin> set l" "cstr_ok l" "length l + 1 < CONFIG_LINE_MAX"
  shows "read_complete_line \<lparr>rest = l @ LF # r, at_eof = b\<rparr> e = Some (l @ [LF], \<lparr>rest = r, at_eof = b\<rparr>, e)"
  using assms by (simp add: read_complete_line_def c_fgets_line)

lemma config_loop_end: "config_loop cb \<lparr>rest = [], at_eof = b\<rparr> cs = cs"
  by (simp add: config_loop.simps [of cb "\<lparr>rest = [], at_eof = b\<rparr>"] read_complete_line_def c_fgets_empty)

lemma config_loop_line:
  assumes "LF \<notin> set l" "cstr_ok l" "length l + 1 < CONFIG_LINE_MAX"
  shows "config_loop cb \<lparr>rest = l @ LF # r, at_eof = b\<rparr> cs =
    (let (cs', stop) = config_line cb (l @ [LF]) cs in
     if stop then cs' else config_loop cb \<lparr>rest = r, at_eof = b\<rparr> cs')"
  by (simp add: config_loop.simps [of cb "\<lparr>rest = l @ LF # r, at_eof = b\<rparr>"]
      read_complete_line_ok [OF assms])

text \<open>The callback that records every entry it is given, as a list.\<close>

definition collect_cb :: "(string \<times> string \<times> string) list config_cb" where
  "collect_cb acc sec k v n = (acc @ [(sec, k, v)], 0)"

text \<open>Reading with any callback that never stops and ignores the line number.\<close>

lemma config_loop_items:
  assumes "list_all item_ok items" and cb: "\<And>u sec k v n. cb u sec k v n = (g u (sec, k, v), 0)"
  shows "cs_user (config_loop cb \<lparr>rest = render_items items, at_eof = b\<rparr> cs) =
      foldl g (cs_user cs) (item_entries (cs_section cs) items) \<and>
    cs_errors (config_loop cb \<lparr>rest = render_items items, at_eof = b\<rparr> cs) = cs_errors cs"
  using assms(1)
proof (induction items arbitrary: cs)
  case Nil
  then show ?case by (simp add: config_loop_end)
next
  case (Cons i items)
  then have ok: "item_ok i" and oks: "list_all item_ok items" by simp_all
  have step: "config_loop cb \<lparr>rest = render_items (i # items), at_eof = b\<rparr> cs =
      (let (cs', stop) = config_line cb (render_item i @ [LF]) cs in
       if stop then cs' else config_loop cb \<lparr>rest = render_items items, at_eof = b\<rparr> cs')"
    using config_loop_line [OF item_ok_line [OF ok], of cb "render_items items" b cs] by simp
  show ?case
  proof (cases i)
    case (Assign k v)
    with ok have "config_line cb (render_item i @ [LF]) cs =
        (cs\<lparr>cs_line := Suc (cs_line cs), cs_user := g (cs_user cs) (cs_section cs, k, v)\<rparr>, False)"
      by (simp add: config_line_assign cb)
    with step Assign Cons.IH [OF oks] show ?thesis by (simp add: Let_def)
  next
    case (Header s)
    with ok have "config_line cb (render_item i @ [LF]) cs =
        (cs\<lparr>cs_line := Suc (cs_line cs), cs_section := s\<rparr>, False)"
      by (simp add: config_line_header)
    with step Header Cons.IH [OF oks] show ?thesis by (simp add: Let_def)
  next
    case Blank
    with step Cons.IH [OF oks] show ?thesis by (simp add: config_line_blank Let_def)
  next
    case (Comment c)
    with step Cons.IH [OF oks] show ?thesis by (simp add: config_line_comment Let_def)
  qed
qed

lemma config_read_items_cb:
  assumes "list_all item_ok items" "faults fs = []" "files fs p = Some (render_items items)"
    and "\<And>u sec k v n. cb u sec k v n = (g u (sec, k, v), 0)"
  shows "unifrog_config_read fs (Some p) (Some cb) u = ((0, foldl g u (item_entries [] items), 0), fs)"
proof -
  let ?r = "config_loop cb (open_stream (render_items items)) (config_start u)"
  have "cs_user ?r = foldl g u (item_entries [] items)" "cs_errors ?r = 0"
    using config_loop_items [OF assms(1), of cb g False "config_start u"] assms(4)
    by (simp_all add: open_stream_def config_start_def)
  then show ?thesis
    using assms(1-3) by (simp add: unifrog_config_read_def c_fopen_rb_def Let_def)
qed

lemma config_read_items:
  assumes "list_all item_ok items" "faults fs = []" "files fs p = Some (render_items items)"
  shows "unifrog_config_read fs (Some p) (Some collect_cb) [] = ((0, item_entries [] items, 0), fs)"
proof -
  have "foldl (\<lambda>acc e. acc @ [e]) us es = us @ es" for us es :: "(string \<times> string \<times> string) list"
    by (induction es arbitrary: us) simp_all
  then show ?thesis
    using config_read_items_cb [OF assms, of collect_cb "\<lambda>acc e. acc @ [e]" "[]"] by (simp add: collect_cb_def)
qed

section \<open>Rewriting a section\<close>

fun items_keep :: "string \<Rightarrow> bool \<Rightarrow> cfg_item list \<Rightarrow> cfg_item list" where
  "items_keep s skip [] = []"
| "items_keep s skip (i # is) =
     (let skip' = (case i of Header h \<Rightarrow> h = s | _ \<Rightarrow> skip)
      in (if skip' then [] else [i]) @ items_keep s skip' is)"

lemma items_keep_ok: "list_all item_ok is \<Longrightarrow> list_all item_ok (items_keep s b is)"
  by (induction "is" arbitrary: b) (auto simp: Let_def)

lemma items_keep_entries:
  assumes "b \<Longrightarrow> cur = s" "\<not> b \<Longrightarrow> c0 = cur \<and> cur \<noteq> s"
  shows "item_entries c0 (items_keep s b is) = filter (\<lambda>e. fst e \<noteq> s) (item_entries cur is)"
  using assms
proof (induction "is" arbitrary: b c0 cur)
  case (Cons i "is")
  have skipped: "item_entries c (items_keep s True is) = filter (\<lambda>e. fst e \<noteq> s) (item_entries s is)" for c
    by (rule Cons.IH) simp_all
  have kept: "c \<noteq> s \<Longrightarrow>
      item_entries c (items_keep s False is) = filter (\<lambda>e. fst e \<noteq> s) (item_entries c is)" for c
    by (rule Cons.IH) simp_all
  from Cons.prems show ?case by (cases i; cases b) (auto simp: Let_def skipped kept)
qed simp

lemma item_entries_append:
  "item_entries c (xs @ [Blank, Header s] @ map (\<lambda>(k, v). Assign k v) es) =
     item_entries c xs @ map (\<lambda>(k, v). (s, k, v)) es"
proof -
  have new: "item_entries s (map (\<lambda>(k, v). Assign k v) es) = map (\<lambda>(k, v). (s, k, v)) es"
    by (induction es) auto
  show ?thesis by (induction c xs rule: item_entries.induct) (auto simp: new)
qed

lemma line_section_name_item:
  assumes "item_ok i"
  shows "line_section_name (render_item i @ [LF]) CONFIG_SECTION_MAX =
    (case i of Header h \<Rightarrow> Some h | _ \<Rightarrow> None)"
proof (cases i)
  case (Header h)
  with assms have ok: "section_ok h" by simp
  then have "str_chr (h @ CHR '']'' # [LF]) (CHR '']'') = Some (length h)"
    by (intro str_chr_append) (simp add: section_ok_def)
  moreover have "dropWhile is_blank h = h" "dropWhile is_blank (rev h) = rev h"
    using ok by (auto simp: section_ok_def trimmed_def hd_rev intro!: dropWhile_hd)
  ultimately show ?thesis
    using ok Header by (simp add: line_section_name_def is_blank_def section_ok_def)
next
  case (Assign k v)
  with assms obtain c k' where "k = c # k'" "\<not> is_blank c" "c \<noteq> CHR ''[''"
    by (cases k) (auto simp: key_ok_def trimmed_def)
  with Assign show ?thesis by (simp add: line_section_name_def)
qed (simp_all add: line_section_name_def is_blank_def)

lemma rewrite_loop_items:
  assumes "list_all item_ok items" "faults fs = []" "files fs tmp = Some out"
  shows "rewrite_loop sec tmp \<lparr>rest = render_items items, at_eof = b\<rparr> skip fs =
    (0, put_file tmp (out @ render_items (items_keep sec skip items)) fs)"
  using assms
proof (induction items arbitrary: skip fs out)
  case Nil
  then show ?case
    by (simp add: rewrite_loop.simps [of sec tmp "\<lparr>rest = [], at_eof = b\<rparr>"] c_fgets_empty)
next
  case (Cons i items)
  then have ok: "item_ok i" and oks: "list_all item_ok items" by simp_all
  let ?l = "render_item i" and ?st = "\<lparr>rest = render_item i @ LF # render_items items, at_eof = b\<rparr>"
  let ?skip = "case i of Header h \<Rightarrow> h = sec | _ \<Rightarrow> skip"
  let ?fs = "put_file tmp (out @ ?l @ [LF]) fs"
  have get: "c_fgets CONFIG_LINE_MAX ?st = (Some (?l @ [LF]), \<lparr>rest = render_items items, at_eof = b\<rparr>)"
    using item_ok_line [OF ok] by (intro c_fgets_line) simp_all
  have cs: "c_str (?l @ [LF]) = ?l @ [LF]"
    using item_ok_line(2) [OF ok] by (intro c_str_id) simp
  have sk: "(case line_section_name (?l @ [LF]) CONFIG_SECTION_MAX of
      None \<Rightarrow> skip | Some current \<Rightarrow> current = sec) = ?skip"
    unfolding line_section_name_item [OF ok] by (cases i) simp_all
  show ?case
  proof (cases ?skip)
    case True
    with Cons.prems get cs sk Cons.IH [OF oks Cons.prems(2,3), of True] show ?thesis
      by (simp add: rewrite_loop.simps [of sec tmp ?st] Let_def)
  next
    case False
    with Cons.prems get cs sk Cons.IH [OF oks, of ?fs "out @ ?l @ [LF]" False] show ?thesis
      by (simp add: rewrite_loop.simps [of sec tmp ?st] Let_def)
  qed
qed

section \<open>Committing a file\<close>

text \<open>The six file system calls a commit can make, and which of them decide its result.\<close>

lemma config_commit_steps:
  assumes "unifrog_config_commit (Some tmp) (Some p) fs = (r, fs')" "length p + 4 < CONFIG_SECTION_MAX"
  obtains r0 f0 r1 f1 r2 f2 r3 f3 r4 f4 r5 f5 where
    "c_rename tmp p fs = (r0, f0)" "c_unlink (config_backup_name p) f0 = (r1, f1)"
    "c_rename p (config_backup_name p) f1 = (r2, f2)" "c_rename tmp p f2 = (r3, f3)"
    "c_rename (config_backup_name p) p f3 = (r4, f4)" "c_unlink (config_backup_name p) f3 = (r5, f5)"
    "(r, fs') =
      (if r0 = 0 then (0, f0)
       else if r2 \<noteq> 0 \<and> errno f2 \<noteq> ENOENT then (-1, f2)
       else if r3 \<noteq> 0 then (-1, if r2 = 0 then f4 else f3) else (0, if r2 = 0 then f5 else f3))"
proof -
  let ?b = "config_backup_name p"
  have fits: "\<not> CONFIG_SECTION_MAX \<le> length ?b" using assms(2) by (simp add: config_backup_name_def)
  obtain r0 f0 where s0: "c_rename tmp p fs = (r0, f0)" by fastforce
  obtain r1 f1 where s1: "c_unlink ?b f0 = (r1, f1)" by fastforce
  obtain r2 f2 where s2: "c_rename p ?b f1 = (r2, f2)" by fastforce
  obtain r3 f3 where s3: "c_rename tmp p f2 = (r3, f3)" by fastforce
  obtain r4 f4 where s4: "c_rename ?b p f3 = (r4, f4)" by fastforce
  obtain r5 f5 where s5: "c_unlink ?b f3 = (r5, f5)" by fastforce
  have "(r, fs') =
      (if r0 = 0 then (0, f0)
       else if r2 \<noteq> 0 \<and> errno f2 \<noteq> ENOENT then (-1, f2)
       else if r3 \<noteq> 0 then (-1, if r2 = 0 then f4 else f3) else (0, if r2 = 0 then f5 else f3))"
    using assms(1) fits s0 s1 s2 s3 s4 s5 by (simp add: unifrog_config_commit_def Let_def split: if_splits)
  with that s0 s1 s2 s3 s4 s5 show ?thesis by blast
qed

lemma config_commit_cases:
  assumes run: "unifrog_config_commit (Some tmp) (Some p) fs = (r, fs')"
    and len: "length p + 4 < CONFIG_SECTION_MAX"
    and ne: "tmp \<noteq> p" "tmp \<noteq> config_backup_name p"
    and new: "files fs tmp = Some d"
  shows "r = 0 \<and> files fs' p = Some d \<and> files fs' tmp = None \<or>
      r = -1 \<and> files fs' tmp = Some d \<and>
        (files fs' p = files fs p \<or> files fs' p = None \<and> files fs' (config_backup_name p) = files fs p)"
    and "q \<notin> {tmp, p, config_backup_name p} \<Longrightarrow> files fs' q = files fs q"
proof -
  let ?b = "config_backup_name p"
  have pb: "p \<noteq> ?b" by (simp add: config_backup_name_def)
  obtain r0 f0 r1 f1 r2 f2 r3 f3 r4 f4 r5 f5 where
    s0: "c_rename tmp p fs = (r0, f0)" and s1: "c_unlink ?b f0 = (r1, f1)" and s2: "c_rename p ?b f1 = (r2, f2)"
    and s3: "c_rename tmp p f2 = (r3, f3)" and s4: "c_rename ?b p f3 = (r4, f4)" and s5: "c_unlink ?b f3 = (r5, f5)"
    and "def": "(r, fs') =
      (if r0 = 0 then (0, f0)
       else if r2 \<noteq> 0 \<and> errno f2 \<noteq> ENOENT then (-1, f2)
       else if r3 \<noteq> 0 then (-1, if r2 = 0 then f4 else f3) else (0, if r2 = 0 then f5 else f3))"
    using run len by (rule config_commit_steps)
  have "(r = 0 \<and> files fs' p = Some d \<and> files fs' tmp = None \<or>
      r = -1 \<and> files fs' tmp = Some d \<and>
        (files fs' p = files fs p \<or> files fs' p = None \<and> files fs' ?b = files fs p)) \<and>
      (q \<notin> {tmp, p, ?b} \<longrightarrow> files fs' q = files fs q)"
    using s0
  proof (cases rule: c_rename_cases)
    case ok
    with def new ne show ?thesis by simp
  next
    case f0: fail
    have m1: "files f1 x = (if x = ?b \<and> r1 = 0 then None else files fs x)" for x
      using s1 f0 by (cases rule: c_unlink_cases) auto
    show ?thesis
      using s2
    proof (cases rule: c_rename_cases)
      case (ok old)
      have m2: "files f2 x = (if x = p then None else if x = ?b then files fs p else files fs x)" for x
        using ok m1 pb by auto
      show ?thesis
        using s3
      proof (cases rule: c_rename_cases)
        case ok3: (ok d')
        show ?thesis
          using s5 ok3 def f0 ok(1) m2 ne new pb by (cases rule: c_unlink_cases) auto
      next
        case f3: fail
        show ?thesis
          using s4 f3 def f0 ok(1) m2 ne new pb by (cases rule: c_rename_cases) auto
      qed
    next
      case f2: fail
      show ?thesis
        using s3
      proof (cases rule: c_rename_cases)
        case (ok d')
        with def f0 f2 m1 ne new pb show ?thesis by (auto split: if_splits)
      next
        case fail
        with def f0 f2 m1 ne new pb show ?thesis by (auto split: if_splits)
      qed
    qed
  qed
  then show "r = 0 \<and> files fs' p = Some d \<and> files fs' tmp = None \<or>
      r = -1 \<and> files fs' tmp = Some d \<and>
        (files fs' p = files fs p \<or> files fs' p = None \<and> files fs' ?b = files fs p)"
    and "q \<notin> {tmp, p, ?b} \<Longrightarrow> files fs' q = files fs q" by blast+
qed

lemma config_commit_fault_free:
  assumes "faults fs = []" "length p + 4 < CONFIG_SECTION_MAX"
    "tmp \<noteq> p" "tmp \<noteq> config_backup_name p" "files fs tmp = Some d"
  shows "fst (unifrog_config_commit (Some tmp) (Some p) fs) = 0"
    and "faults (snd (unifrog_config_commit (Some tmp) (Some p) fs)) = []"
proof -
  have pb: "p \<noteq> config_backup_name p" by (simp add: config_backup_name_def)
  show "fst (unifrog_config_commit (Some tmp) (Some p) fs) = 0"
    and "faults (snd (unifrog_config_commit (Some tmp) (Some p) fs)) = []"
    using assms pb
    by (auto simp: unifrog_config_commit_def c_rename_def c_unlink_def config_backup_name_def Let_def)
qed

section \<open>What the reader hands to a callback\<close>

definition entry_safe :: "string \<times> string \<times> string \<Rightarrow> bool" where
  "entry_safe e = (case e of (sec, k, v) \<Rightarrow>
     length sec < CONFIG_SECTION_MAX \<and> k \<noteq> [] \<and> trimmed k \<and>
     length k + length v < CONFIG_LINE_MAX \<and> CHR ''='' \<notin> set k)"

definition collect_safe :: "(string \<times> string \<times> string) list config_state \<Rightarrow> bool" where
  "collect_safe cs \<longleftrightarrow> length (cs_section cs) < CONFIG_SECTION_MAX \<and> list_all entry_safe (cs_user cs)"

lemma unquote_length: "unquote q s = (out, r) \<Longrightarrow> length out + length r \<le> length s"
  by (induction q s arbitrary: out r rule: unquote.induct) (auto split: if_splits prod.splits)

lemma cut_comment_length: "length (cut_comment b s) \<le> length s"
  by (induction b s rule: cut_comment.induct) auto

lemma parse_value_length:
  assumes "parse_value s e = (Some v, e')"
  shows "length v \<le> length s"
proof -
  let ?t = "trim_ascii s"
  have t: "length ?t \<le> length s" by (rule trim_ascii_length)
  show ?thesis
  proof (cases "?t = [] \<or> hd ?t \<noteq> APOS \<and> hd ?t \<noteq> QUOT")
    case True
    with assms have "v = trim_ascii (cut_comment True ?t)" by (simp add: parse_value_def)
    with t show ?thesis
      using trim_ascii_length [of "cut_comment True ?t"] cut_comment_length [of True ?t] by simp
  next
    case False
    obtain out r where u: "unquote (hd ?t) (tl ?t) = (out, r)" by fastforce
    with assms False have "v = out" by (auto simp: parse_value_def Let_def split: if_splits)
    with unquote_length [OF u] t show ?thesis by simp
  qed
qed

lemma config_assign_safe:
  assumes "collect_safe cs" "length text < CONFIG_LINE_MAX" "trimmed text"
  shows "collect_safe (fst (config_assign collect_cb text cs))"
proof (cases "str_chr text (CHR ''='')")
  case None
  show ?thesis using assms by (simp add: config_assign_def collect_safe_def None del: str_chr_None)
next
  case (Some i)
  then have i: "i < length text" "CHR ''='' \<notin> set (take i text)" by (auto simp: str_chr_Some_iff)
  obtain v e where pv: "parse_value (drop (Suc i) text) (cs_errors cs) = (v, e)" by fastforce
  let ?k = "trim_ascii (take i text)"
  have k: "trimmed ?k" "CHR ''='' \<notin> set ?k" "length ?k \<le> i"
    using i trim_ascii_set [of "take i text"] trim_ascii_length [of "take i text"]
    by (auto simp: trimmed_trim)
  have "length w \<le> length text - Suc i" if "v = Some w" for w
    using parse_value_length [of "drop (Suc i) text" "cs_errors cs" w e] pv that by simp
  with assms i k pv Some show ?thesis
    by (auto simp: config_assign_def collect_safe_def collect_cb_def entry_safe_def Let_def
        split: option.splits)
qed

lemma config_line_safe:
  assumes "collect_safe cs" "length line < CONFIG_LINE_MAX"
  shows "collect_safe (fst (config_line collect_cb line cs))"
proof -
  let ?t0 = "trim_ascii line"
  have len: "length (trim_ascii (drop 3 ?t0)) < CONFIG_LINE_MAX" "length ?t0 < CONFIG_LINE_MAX"
    using assms(2) trim_ascii_length [of line] trim_ascii_length [of "drop 3 ?t0"] by auto
  have hdr: "collect_safe cs' \<Longrightarrow> collect_safe (config_header x cs')" for x cs'
    by (auto simp: config_header_def collect_safe_def Let_def snprintf_s_def CONFIG_SECTION_MAX_def
        split: option.splits)
  from assms(1) have upd: "collect_safe (cs\<lparr>cs_line := n\<rparr>)" for n by (simp add: collect_safe_def)
  show ?thesis
    using len by (auto simp: config_line_def Let_def upd hdr intro!: config_assign_safe trimmed_trim)
qed

lemma read_complete_line_bound:
  assumes "read_complete_line st e = Some (l, st', e')"
  shows "length l < CONFIG_LINE_MAX"
proof -
  obtain buf r where b: "fgets_chunk (CONFIG_LINE_MAX - 1) (rest st) = (buf, r)" by fastforce
  from fgets_chunk_length [OF b] have "length buf < CONFIG_LINE_MAX" by (simp add: CONFIG_LINE_MAX_def)
  moreover have "length (c_str buf) \<le> length buf" by (simp add: c_str_def length_takeWhile_le)
  ultimately show ?thesis
    using assms b by (auto simp: read_complete_line_def c_fgets_def Let_def CONFIG_LINE_MAX_def
        split: if_splits prod.splits)
qed

lemma config_loop_safe: "collect_safe cs \<Longrightarrow> collect_safe (config_loop collect_cb st cs)"
proof (induction "length (rest st)" arbitrary: st cs rule: less_induct)
  case less
  show ?case
  proof (cases "read_complete_line st (cs_errors cs)")
    case None
    with less.prems show ?thesis by (simp add: config_loop.simps [of _ st])
  next
    case (Some x)
    obtain line st' e where x: "x = (line, st', e)" by (cases x) auto
    obtain cs' stop where l: "config_line collect_cb line (cs\<lparr>cs_errors := e\<rparr>) = (cs', stop)" by fastforce
    have "collect_safe (cs\<lparr>cs_errors := e\<rparr>)" using less.prems by (simp add: collect_safe_def)
    then have "collect_safe cs'"
      using config_line_safe [of "cs\<lparr>cs_errors := e\<rparr>" line] read_complete_line_bound Some x l by auto
    moreover have "length (rest st') < length (rest st)"
      using Some x read_complete_line_shrinks by auto
    ultimately show ?thesis
      using less.hyps [of st' cs'] Some x l by (simp add: config_loop.simps [of _ st])
  qed
qed

section \<open>Properties\<close>

text \<open>
  C13. Reading back what was written: a file rendered from well-formed items (comments, blank
  lines, headers, assignments with plain or quoted values) is read without errors, and the
  callback sees exactly the entries of the items, in order, each with its section.
\<close>

theorem config_read_roundtrip:
  assumes "list_all item_ok items" and "faults fs = []" and "files fs p = Some (render_items items)"
  shows "unifrog_config_read fs (Some p) (Some collect_cb) [] = ((0, item_entries [] items, 0), fs)"
  using assms by (rule config_read_items)

text \<open>A file in the style of \<open>unifrog.ini\<close>, used as the concrete input of the witnesses.\<close>

definition sample_items :: "cfg_item list" where
  "sample_items =
     [Comment '' UniFrog'', Assign ''sort'' ''1'', Header ''core.gambatte'', Assign ''gain'' ''2'',
      Blank, Header ''core.gpsp'', Assign ''core'' '' x # y'']"

lemma sample_items_ok: "list_all item_ok sample_items"
  by code_simp

definition sample_fs :: fsys where
  "sample_fs = \<lparr>files = [''c.ini'' \<mapsto> render_items sample_items], replace_ok = False,
     faults = [], errno = 0\<rparr>"

theorem config_read_roundtrip_witness:
  "unifrog_config_read sample_fs (Some ''c.ini'') (Some collect_cb) [] =
     ((0, [([], ''sort'', ''1''), (''core.gambatte'', ''gain'', ''2''), (''core.gpsp'', ''core'', '' x # y'')], 0),
      sample_fs)"
  using config_read_roundtrip [of sample_items sample_fs "''c.ini''", OF sample_items_ok]
  by (simp add: sample_fs_def sample_items_def)

text \<open>
  Whatever bytes the file has, every entry handed to the callback is safe for the buffers
  of the reader and its clients: the section is shorter than \<open>CONFIG_SECTION_MAX\<close>, the key is
  non-empty, trimmed and has no \<open>=\<close>, and key and value together are shorter than a line.
\<close>

lemma config_read_entries_safe:
  assumes "files fs p = Some d" and "faults fs = []"
  shows "\<exists>entries errors. unifrog_config_read fs (Some p) (Some collect_cb) [] = ((0, entries, errors), fs) \<and>
    list_all entry_safe entries"
proof -
  have "collect_safe (config_start [])"
    by (simp add: collect_safe_def config_start_def CONFIG_SECTION_MAX_def)
  from config_loop_safe [OF this, of "open_stream d"] assms show ?thesis
    by (simp add: unifrog_config_read_def Let_def collect_safe_def)
qed

lemma config_read_entries_safe_witness:
  "\<exists>entries errors. unifrog_config_read sample_fs (Some ''c.ini'') (Some collect_cb) [] =
     ((0, entries, errors), sample_fs) \<and> list_all entry_safe entries"
  by (rule config_read_entries_safe [of sample_fs "''c.ini''" "render_items sample_items"])
     (simp_all add: sample_fs_def)

text \<open>
  C2. A commit never loses the file, whatever faults the calls run into: it returns 0 and the
  path holds the new contents (and the temporary file is gone), or it returns -1, the new
  contents are still in the temporary file and the old contents are at the path or, when even
  the restoring rename failed, in the backup. No other file changes.
\<close>

theorem config_commit_never_loses:
  assumes "unifrog_config_commit (Some tmp) (Some p) fs = (r, fs')"
    and "length p + 4 < CONFIG_SECTION_MAX" and "tmp \<noteq> p" and "tmp \<noteq> config_backup_name p"
    and "files fs tmp = Some d"
  shows "(r = 0 \<and> files fs' p = Some d \<and> files fs' tmp = None \<or>
      r = -1 \<and> files fs' tmp = Some d \<and>
        (files fs' p = files fs p \<or>
         files fs' p = None \<and> files fs' (config_backup_name p) = files fs p)) \<and>
    (\<forall>q. q \<notin> {tmp, p, config_backup_name p} \<longrightarrow> files fs' q = files fs q)"
  using config_commit_cases [OF assms] by blast

definition commit_fs :: "int list \<Rightarrow> fsys" where
  "commit_fs fl = \<lparr>files = [''a'' \<mapsto> ''old'', ''a.tmp'' \<mapsto> ''new''], replace_ok = False,
     faults = fl, errno = 0\<rparr>"

text \<open>The run in which every rename after the first move fails: the path is left empty.\<close>

lemma config_commit_path_missing_run:
  "fst (unifrog_config_commit (Some ''a.tmp'') (Some ''a'') (commit_fs [0, 0, 0, 5, 5])) = -1 \<and>
   files (snd (unifrog_config_commit (Some ''a.tmp'') (Some ''a'') (commit_fs [0, 0, 0, 5, 5]))) ''a'' = None"
  by (simp add: unifrog_config_commit_def commit_fs_def c_rename_def c_unlink_def next_fault_def
      config_backup_name_def CONFIG_SECTION_MAX_def)

theorem config_commit_never_loses_witness:
  "\<exists>r fs'. unifrog_config_commit (Some ''a.tmp'') (Some ''a'') (commit_fs [0, 0, 0, 5, 5]) = (r, fs') \<and>
    (r = 0 \<and> files fs' ''a'' = Some ''new'' \<and> files fs' ''a.tmp'' = None \<or>
     r = -1 \<and> files fs' ''a.tmp'' = Some ''new'' \<and>
       (files fs' ''a'' = Some ''old'' \<or> files fs' ''a'' = None \<and> files fs' ''a.bak'' = Some ''old''))"
proof -
  obtain r fs' where run: "unifrog_config_commit (Some ''a.tmp'') (Some ''a'') (commit_fs [0, 0, 0, 5, 5]) = (r, fs')"
    by fastforce
  from config_commit_never_loses [OF this, of "''new''"] run show ?thesis
    by (simp add: commit_fs_def config_backup_name_def CONFIG_SECTION_MAX_def)
qed

text \<open>
  C14. Replacing a section rewrites exactly that section. For a file of well-formed items and
  a writer that emits assignments, the call succeeds, leaves no temporary file, and a later
  read delivers the entries of all other sections unchanged and in order, followed by the new
  entries of the section. Files other than the path, its temporary and its backup are kept.
\<close>

theorem config_replace_section_entries:
  assumes "list_all item_ok items" and "faults fs = []" and "files fs p = Some (render_items items)"
    and "length p + 4 < CONFIG_SECTION_MAX" and "section_ok sec"
    and "list_all (\<lambda>(k, v). item_ok (Assign k v)) es"
  shows "\<exists>fs'. unifrog_config_replace_section (Some p) (Some sec)
        (Some (render_items (map (\<lambda>(k, v). Assign k v) es), 0)) fs = (0, fs') \<and>
      files fs' (p @ ''.tmp'') = None \<and>
      unifrog_config_read fs' (Some p) (Some collect_cb) [] =
        ((0, filter (\<lambda>e. fst e \<noteq> sec) (item_entries [] items) @ map (\<lambda>(k, v). (sec, k, v)) es, 0), fs') \<and>
      (\<forall>q. q \<notin> {p @ ''.tmp'', p, config_backup_name p} \<longrightarrow> files fs' q = files fs q)"
proof -
  let ?tmp = "p @ ''.tmp''"
  let ?new = "items_keep sec False items @ [Blank, Header sec] @ map (\<lambda>(k, v). Assign k v) es"
  let ?fs = "put_file ?tmp (render_items ?new) fs"
  let ?commit = "unifrog_config_commit (Some ?tmp) (Some p) ?fs"
  have sec: "sec \<noteq> []" using assms(5) by (simp add: section_ok_def)
  have ne: "?tmp \<noteq> p" "?tmp \<noteq> config_backup_name p" by (simp_all add: config_backup_name_def)
  have ff: "faults ?fs = []" "files ?fs ?tmp = Some (render_items ?new)" using assms(2) by simp_all
  obtain fs1 where run: "?commit = (0, fs1)" and ff': "faults fs1 = []"
    using config_commit_fault_free [OF ff(1) assms(4) ne ff(2)] by (cases ?commit) auto
  note fin = config_commit_cases [OF run assms(4) ne ff(2)]
  have call: "unifrog_config_replace_section (Some p) (Some sec)
      (Some (render_items (map (\<lambda>(k, v). Assign k v) es), 0)) fs = (0, fs1)"
    using assms sec run rewrite_loop_items [OF assms(1), of "put_file ?tmp [] fs" ?tmp "[]" sec False False]
    by (simp add: unifrog_config_replace_section_def rewrite_section_def open_stream_def Let_def)
  have new_ok: "list_all item_ok ?new"
    using items_keep_ok [OF assms(1), of sec False] assms(5,6)
    by (auto simp: list_all_iff)
  have "item_entries [] ?new =
      filter (\<lambda>e. fst e \<noteq> sec) (item_entries [] items) @ map (\<lambda>(k, v). (sec, k, v)) es"
    using items_keep_entries [of False "[]" sec "[]" items] sec by (simp only: item_entries_append) auto
  with config_read_items [OF new_ok ff'] fin(1) call fin(2) show ?thesis
    by (intro exI [of _ fs1]) auto
qed

theorem config_replace_section_entries_witness:
  "\<exists>fs'. unifrog_config_replace_section (Some ''c.ini'') (Some ''core.gambatte'')
        (Some (render_items [Assign ''gain'' ''4''], 0)) sample_fs = (0, fs') \<and>
      unifrog_config_read fs' (Some ''c.ini'') (Some collect_cb) [] =
        ((0, [([], ''sort'', ''1''), (''core.gpsp'', ''core'', '' x # y''), (''core.gambatte'', ''gain'', ''4'')], 0), fs')"
proof -
  have "section_ok ''core.gambatte''" "item_ok (Assign ''gain'' ''4'')" by code_simp+
  then show ?thesis
    using config_replace_section_entries [of sample_items sample_fs "''c.ini''" "''core.gambatte''"
        "[(''gain'', ''4'')]", OF sample_items_ok]
    by (auto simp: sample_fs_def sample_items_def CONFIG_SECTION_MAX_def)
qed

end
