(* ===== verification/UF_Battery.thy ===== *)
theory UF_Battery
  imports UF_Prelude
begin

text \<open>
  The battery policy of \<open>foundation/src/runtime/unifrog_battery_policy.c\<close>: the active voltage
  calibration, the percentage curve, the discharge rate estimate and the low-battery flag with
  its confirmation counters. All quantities are 32-bit unsigned words, as in the code; the
  global \<open>active_calibration\<close> is an argument of the operations that read it.
\<close>

section \<open>Definitions\<close>

definition BATTERY_RATE_SAMPLE_MS :: u32 where "BATTERY_RATE_SAMPLE_MS = 5 * 60 * 1000"
definition BATTERY_RATE_MAX_MV_PER_HOUR :: u32 where "BATTERY_RATE_MAX_MV_PER_HOUR = 2000"
definition BATTERY_LOW_CONFIRM_SAMPLES :: u32 where "BATTERY_LOW_CONFIRM_SAMPLES = 3"
definition BATTERY_NORMAL_CONFIRM_SAMPLES :: u32 where "BATTERY_NORMAL_CONFIRM_SAMPLES = 2"
definition BATTERY_RECOVERY_MARGIN_MV :: u32 where "BATTERY_RECOVERY_MARGIN_MV = 100"
definition UNIFROG_BATTERY_SOURCE_LEN :: nat where "UNIFROG_BATTERY_SOURCE_LEN = 12"

record battery_calibration =
  cal_millivolts :: "u32 list"
  cal_discharge :: u32
  cal_estimate :: int

record battery_status =
  available :: int
  raw :: u32
  millivolts :: u32
  percent :: u32
  bars :: u32
  discharge_mv_per_hour :: u32
  estimated_minutes :: u32
  low :: bool
  source :: string
  sample_millivolts :: u32
  sample_ms :: u32
  low_confirm_samples :: u32
  normal_confirm_samples :: u32

definition unifrog_battery_calibration_defaults :: battery_calibration where
  "unifrog_battery_calibration_defaults =
     \<lparr>cal_millivolts = [3500, 3660, 3720, 3800, 4000], cal_discharge = 120, cal_estimate = 1\<rparr>"

fun points_increase :: "u32 list \<Rightarrow> bool" where
  "points_increase (a # b # ps) = (if b \<le> a then False else points_increase (b # ps))"
| "points_increase ps = True"

definition unifrog_battery_calibration_valid :: "battery_calibration option \<Rightarrow> bool" where
  "unifrog_battery_calibration_valid cal =
     (case cal of None \<Rightarrow> False
      | Some c \<Rightarrow>
        if cal_millivolts c ! 0 < 2500 \<or> cal_millivolts c ! 4 > 5000 \<or>
           cal_discharge c > BATTERY_RATE_MAX_MV_PER_HOUR \<or>
           cal_estimate c \<noteq> 0 \<and> cal_estimate c \<noteq> 1 then False
        else points_increase (cal_millivolts c))"

definition unifrog_battery_set_calibration ::
  "battery_calibration option \<Rightarrow> battery_calibration \<Rightarrow> battery_calibration" where
  "unifrog_battery_set_calibration cal active =
     (if unifrog_battery_calibration_valid cal then the cal else active)"

definition unifrog_battery_status_init :: "battery_calibration \<Rightarrow> battery_status" where
  "unifrog_battery_status_init active =
     \<lparr>available = -1, raw = 0, millivolts = 0, percent = 0, bars = 0,
      discharge_mv_per_hour = cal_discharge active, estimated_minutes = 0, low = False,
      source = snprintf_s UNIFROG_BATTERY_SOURCE_LEN ''?'', sample_millivolts = 0, sample_ms = 0,
      low_confirm_samples = 0, normal_confirm_samples = 0\<rparr>"

fun percent_loop :: "u32 \<Rightarrow> u32 \<Rightarrow> u32 list \<Rightarrow> u32" where
  "percent_loop i mv (a # b # ps) =
     (if mv > b then percent_loop (i + 1) mv (b # ps)
      else let span = b - a in i * 25 + ((mv - a) * 25 + span div 2) div span)"
| "percent_loop i mv ps = 100"

definition unifrog_battery_percent_for_mv :: "battery_calibration \<Rightarrow> u32 \<Rightarrow> u32" where
  "unifrog_battery_percent_for_mv active mv =
     (let points = cal_millivolts active in
      if mv \<le> points ! 0 then 0
      else if mv \<ge> points ! 4 then 100
      else percent_loop 0 mv points)"

definition bars_for_percent :: "u32 \<Rightarrow> u32" where
  "bars_for_percent pc = (if pc \<ge> 100 then 4 else pc div 25)"

definition unifrog_battery_bars_for_raw :: "battery_calibration \<Rightarrow> u32 \<Rightarrow> u32" where
  "unifrog_battery_bars_for_raw active raw_v =
     bars_for_percent (unifrog_battery_percent_for_mv active (raw_v * 20))"

definition battery_update_rate ::
  "battery_calibration \<Rightarrow> battery_status \<Rightarrow> u32 \<Rightarrow> u32 \<Rightarrow> battery_status" where
  "battery_update_rate active status mv now_ms =
     (let stamp = (if now_ms \<noteq> 0 then now_ms else 1) in
      if sample_ms status = 0 then status\<lparr>sample_ms := stamp, sample_millivolts := mv\<rparr>
      else
        let elapsed = now_ms - sample_ms status in
        if elapsed < BATTERY_RATE_SAMPLE_MS then status
        else
          let rate = ucast (sample_millivolts status - mv) * 3600000 div (ucast elapsed :: u64);
              status = (if cal_estimate active \<noteq> 0 \<and> sample_millivolts status > mv \<and>
                           rate > 0 \<and> rate \<le> ucast BATTERY_RATE_MAX_MV_PER_HOUR
                        then let measured = (ucast rate :: u32); previous = discharge_mv_per_hour status
                             in status\<lparr>discharge_mv_per_hour :=
                                  (if previous \<noteq> 0 then (previous * 3 + measured + 2) div 4 else measured)\<rparr>
                        else status)
          in status\<lparr>sample_ms := stamp, sample_millivolts := mv\<rparr>)"

text \<open>The confirmation counters and the new low flag.\<close>

definition battery_confirm :: "battery_calibration \<Rightarrow> u32 \<Rightarrow> battery_status \<Rightarrow> battery_status \<times> bool" where
  "battery_confirm active mv status =
     (let sample_low = (mv \<le> cal_millivolts active ! 1) in
      if low status then
        if mv < cal_millivolts active ! 1 + BATTERY_RECOVERY_MARGIN_MV
        then (status\<lparr>normal_confirm_samples := 0\<rparr>, True)
        else
          let status = status\<lparr>low_confirm_samples := 0\<rparr>;
              status = (if normal_confirm_samples status < BATTERY_NORMAL_CONFIRM_SAMPLES
                        then status\<lparr>normal_confirm_samples := normal_confirm_samples status + 1\<rparr>
                        else status)
          in (status, normal_confirm_samples status < BATTERY_NORMAL_CONFIRM_SAMPLES)
      else if sample_low then
        let status = status\<lparr>normal_confirm_samples := 0\<rparr>;
            status = (if low_confirm_samples status < BATTERY_LOW_CONFIRM_SAMPLES
                      then status\<lparr>low_confirm_samples := low_confirm_samples status + 1\<rparr>
                      else status)
        in (status, low_confirm_samples status \<ge> BATTERY_LOW_CONFIRM_SAMPLES)
      else (status\<lparr>low_confirm_samples := 0, normal_confirm_samples := 0\<rparr>, False))"

definition unifrog_battery_status_apply_sample ::
  "battery_calibration \<Rightarrow> battery_status option \<Rightarrow> u32 \<Rightarrow> u32 \<Rightarrow> string option \<Rightarrow> u32 \<Rightarrow>
   int \<times> battery_status option" where
  "unifrog_battery_status_apply_sample active status0 raw_v mv src now_ms =
     (case status0 of None \<Rightarrow> (-1, None)
      | Some status \<Rightarrow>
        let pc = unifrog_battery_percent_for_mv active mv;
            br = bars_for_percent pc;
            (status, low_now) = battery_confirm active mv status;
            name = (case src of None \<Rightarrow> ''?'' | Some s \<Rightarrow> s);
            changed = (available status \<noteq> 1 \<or> raw status \<noteq> raw_v \<or> percent status \<noteq> pc \<or>
                       bars status \<noteq> br \<or> low status \<noteq> low_now \<or> source status \<noteq> name);
            status = (if discharge_mv_per_hour status = 0
                      then status\<lparr>discharge_mv_per_hour := cal_discharge active\<rparr> else status);
            status = battery_update_rate active status mv now_ms;
            rate = (if cal_estimate active \<noteq> 0 then discharge_mv_per_hour status else cal_discharge active);
            minutes = (if rate \<noteq> 0 \<and> mv > cal_millivolts active ! 0
                       then (mv - cal_millivolts active ! 0) * 60 div rate else 0)
        in (if changed then 1 else 0,
            Some (status\<lparr>available := 1, raw := raw_v, millivolts := mv, percent := pc, bars := br,
              discharge_mv_per_hour := rate, estimated_minutes := minutes, low := low_now,
              source := snprintf_s UNIFROG_BATTERY_SOURCE_LEN name\<rparr>)))"

section \<open>The calibration\<close>

text \<open>The calibrations the setter accepts, with the five points named.\<close>

definition cal_ok :: "battery_calibration \<Rightarrow> bool" where
  "cal_ok c \<longleftrightarrow> length (cal_millivolts c) = 5 \<and> unifrog_battery_calibration_valid (Some c)"

lemma cal_ok_points:
  assumes "cal_ok c"
  obtains a0 a1 a2 a3 a4 where "cal_millivolts c = [a0, a1, a2, a3, a4]"
    "2500 \<le> unat a0" "unat a0 < unat a1" "unat a1 < unat a2" "unat a2 < unat a3"
    "unat a3 < unat a4" "unat a4 \<le> 5000"
proof -
  from assms obtain a0 a1 a2 a3 a4 where c: "cal_millivolts c = [a0, a1, a2, a3, a4]"
    by (auto simp: cal_ok_def length_Suc_conv eval_nat_numeral)
  with assms have v: "\<not> a0 < 2500" "\<not> 5000 < a4" "a0 < a1" "a1 < a2" "a2 < a3" "a3 < a4"
    by (auto simp: cal_ok_def unifrog_battery_calibration_valid_def eval_nat_numeral not_le
        split: if_splits)
  then have "2500 \<le> unat a0" "unat a4 \<le> 5000"
    by (simp_all add: word_less_nat_alt not_less)
  with v c show thesis by (intro that) (simp_all add: word_less_nat_alt)
qed

lemma cal_ok_defaults: "cal_ok unifrog_battery_calibration_defaults"
  by (simp add: cal_ok_def unifrog_battery_calibration_defaults_def
      unifrog_battery_calibration_valid_def BATTERY_RATE_MAX_MV_PER_HOUR_def)

lemma set_calibration_ok:
  assumes "cal_ok active" "\<And>c. new = Some c \<Longrightarrow> length (cal_millivolts c) = 5"
  shows "cal_ok (unifrog_battery_set_calibration new active)"
proof (cases new)
  case None
  with assms(1) show ?thesis
    by (simp add: unifrog_battery_set_calibration_def unifrog_battery_calibration_valid_def)
next
  case (Some c)
  with assms show ?thesis by (simp add: unifrog_battery_set_calibration_def cal_ok_def)
qed

section \<open>The percentage curve\<close>

text \<open>One segment of the curve, on natural numbers: rounding to the nearest quarter step.\<close>

definition segment :: "nat \<Rightarrow> nat \<Rightarrow> nat \<Rightarrow> nat" where
  "segment a b v = ((v - a) * 25 + (b - a) div 2) div (b - a)"

lemma unat_segment:
  assumes "unat a < unat b" "unat a \<le> unat mv" "unat mv \<le> unat b" "unat b \<le> 5000"
  shows "unat (((mv - a) * 25 + (b - a) div 2) div (b - a) :: u32) = segment (unat a) (unat b) (unat mv)"
proof -
  have d: "unat (b - a) = unat b - unat a" "unat (mv - a) = unat mv - unat a"
    using assms by (simp_all add: unat_sub word_le_nat_alt)
  have m: "unat ((mv - a) * 25) = (unat mv - unat a) * 25"
    unfolding unat_word_ariths(2) d using assms by simp
  have h: "unat ((b - a) div 2) = (unat b - unat a) div 2"
    using d by (simp add: unat_div)
  have s: "unat ((mv - a) * 25 + (b - a) div 2) = (unat mv - unat a) * 25 + (unat b - unat a) div 2"
    unfolding unat_word_ariths(1) m h using assms by simp
  show ?thesis unfolding unat_div s d segment_def ..
qed

lemma segment_bounds: "a < b \<Longrightarrow> a \<le> v \<Longrightarrow> v \<le> b \<Longrightarrow> segment a b v \<le> 25"
proof -
  assume ab: "a < b" "a \<le> v" "v \<le> b"
  then have "(v - a) * 25 + (b - a) div 2 < 26 * (b - a)"
    by (simp add: algebra_simps)
  then show ?thesis using ab by (simp add: segment_def div_less_iff_less_mult less_Suc_eq_le [symmetric])
qed

lemma segment_ends: "a < b \<Longrightarrow> segment a b a = 0" "a < b \<Longrightarrow> segment a b b = 25"
proof -
  assume ab: "a < b"
  then show "segment a b a = 0" by (simp add: segment_def)
  have "((b - a) * 25 + (b - a) div 2) div (b - a) = 25 + (b - a) div 2 div (b - a)"
    using ab by (simp add: div_mult_self1)
  with ab show "segment a b b = 25" by (simp add: segment_def)
qed

lemma segment_mono: "v \<le> w \<Longrightarrow> segment a b v \<le> segment a b w"
  unfolding segment_def by (intro div_le_mono add_le_mono mult_le_mono diff_le_mono) auto

text \<open>The reference curve: four linear segments of a quarter each.\<close>

definition curve :: "nat \<Rightarrow> nat \<Rightarrow> nat \<Rightarrow> nat \<Rightarrow> nat \<Rightarrow> nat \<Rightarrow> nat" where
  "curve a0 a1 a2 a3 a4 v =
     (if v \<le> a0 then 0 else if v \<ge> a4 then 100
      else if v \<le> a1 then segment a0 a1 v
      else if v \<le> a2 then 25 + segment a1 a2 v
      else if v \<le> a3 then 50 + segment a2 a3 v
      else 75 + segment a3 a4 v)"

lemma unat_offset_segment:
  assumes "unat a < unat b" "unat a \<le> unat mv" "unat mv \<le> unat b" "unat b \<le> 5000" "unat k \<le> 100"
  shows "unat (k + ((mv - a) * 25 + (b - a) div 2) div (b - a) :: u32)
    = unat k + segment (unat a) (unat b) (unat mv)"
  unfolding unat_word_ariths(1) unat_segment [OF assms(1-4)]
  using segment_bounds [OF assms(1-3)] assms(5) by simp

lemma percent_curve:
  assumes "cal_millivolts c = [a0, a1, a2, a3, a4]" "unat a0 < unat a1" "unat a1 < unat a2"
    "unat a2 < unat a3" "unat a3 < unat a4" "unat a4 \<le> 5000"
  shows "unat (unifrog_battery_percent_for_mv c mv) =
    curve (unat a0) (unat a1) (unat a2) (unat a3) (unat a4) (unat mv)"
proof -
  define f where "f a b = ((mv - a) * 25 + (b - a) div 2) div (b - a)" for a b :: u32
  have pc: "unifrog_battery_percent_for_mv c mv =
      (if mv \<le> a0 then 0 else if a4 \<le> mv then 100 else if mv \<le> a1 then f a0 a1
       else if mv \<le> a2 then 25 + f a1 a2 else if mv \<le> a3 then 50 + f a2 a3 else 75 + f a3 a4)"
    by (simp add: unifrog_battery_percent_for_mv_def assms(1) Let_def eval_nat_numeral not_less f_def)
       (simp add: not_le [symmetric], metis linear)
  have seg: "unat (k + f a b) = unat k + segment (unat a) (unat b) (unat mv)"
    if "a < b" "\<not> mv \<le> a" "mv \<le> b" "unat b \<le> 5000" "unat k \<le> 100" for a b k
    using that unat_offset_segment [of a b mv k]
    by (simp add: f_def word_le_nat_alt word_less_nat_alt)
  have lt: "a0 < a1" "a1 < a2" "a2 < a3" "a3 < a4" using assms by (simp_all add: word_less_nat_alt)
  have le: "unat a1 \<le> 5000" "unat a2 \<le> 5000" "unat a3 \<le> 5000" using assms by simp_all
  consider "mv \<le> a0" | "\<not> mv \<le> a0" "a4 \<le> mv" | "\<not> mv \<le> a0" "\<not> a4 \<le> mv" "mv \<le> a1"
    | "\<not> mv \<le> a0" "\<not> a4 \<le> mv" "\<not> mv \<le> a1" "mv \<le> a2"
    | "\<not> mv \<le> a0" "\<not> a4 \<le> mv" "\<not> mv \<le> a2" "mv \<le> a3"
    | "\<not> mv \<le> a0" "\<not> a4 \<le> mv" "\<not> mv \<le> a3"
    by blast
  then show ?thesis
  proof cases
    case 3
    with seg [OF lt(1), of 0] le show ?thesis by (simp add: pc curve_def word_le_nat_alt)
  next
    case 4
    with seg [OF lt(2), of 25] le show ?thesis by (simp add: pc curve_def word_le_nat_alt)
  next
    case 5
    then have "\<not> mv \<le> a1" using lt by auto
    with 5 seg [OF lt(3), of 50] le show ?thesis by (simp add: pc curve_def word_le_nat_alt)
  next
    case 6
    then have "\<not> mv \<le> a1" "\<not> mv \<le> a2" using lt by auto
    with 6 seg [OF lt(4), of 75] assms(6) show ?thesis by (simp add: pc curve_def word_le_nat_alt)
  qed (simp_all add: pc curve_def word_le_nat_alt)
qed

lemma curve_le_100:
  "a0 < a1 \<Longrightarrow> a1 < a2 \<Longrightarrow> a2 < a3 \<Longrightarrow> a3 < a4 \<Longrightarrow> curve a0 a1 a2 a3 a4 v \<le> 100"
  using segment_bounds [of a0 a1 v] segment_bounds [of a1 a2 v] segment_bounds [of a2 a3 v]
    segment_bounds [of a3 a4 v] by (auto simp: curve_def)

lemma curve_mono:
  assumes "a0 < a1" "a1 < a2" "a2 < a3" "a3 < a4" "v \<le> w"
  shows "curve a0 a1 a2 a3 a4 v \<le> curve a0 a1 a2 a3 a4 w"
proof -
  note b = segment_bounds [of a0 a1 v] segment_bounds [of a1 a2 v] segment_bounds [of a2 a3 v]
    segment_bounds [of a3 a4 v]
  show ?thesis
    using assms b segment_mono [OF assms(5), of a0 a1] segment_mono [OF assms(5), of a1 a2]
      segment_mono [OF assms(5), of a2 a3] segment_mono [OF assms(5), of a3 a4]
    by (auto simp: curve_def)
qed

lemma curve_at_points:
  assumes "a0 < a1" "a1 < a2" "a2 < a3" "a3 < a4"
  shows "curve a0 a1 a2 a3 a4 a0 = 0" "curve a0 a1 a2 a3 a4 a1 = 25" "curve a0 a1 a2 a3 a4 a2 = 50"
    "curve a0 a1 a2 a3 a4 a3 = 75" "curve a0 a1 a2 a3 a4 a4 = 100"
  using assms by (auto simp: curve_def segment_ends)

section \<open>The low-battery flag\<close>

text \<open>
  The abstract machine: a normal battery has seen \<open>n\<close> weak samples in a row, a low battery \<open>n\<close>
  strong ones. A sample is weak at or below the second calibration point, strong from a
  margin above it.
\<close>

datatype charge = Normal nat | Low nat

datatype sample_class = Weak | Middle | Strong

definition classify :: "battery_calibration \<Rightarrow> u32 \<Rightarrow> sample_class" where
  "classify c mv = (if mv \<le> cal_millivolts c ! 1 then Weak
     else if mv < cal_millivolts c ! 1 + BATTERY_RECOVERY_MARGIN_MV then Middle else Strong)"

fun charge_step :: "charge \<Rightarrow> sample_class \<Rightarrow> charge" where
  "charge_step (Normal n) Weak = (if n + 1 \<ge> 3 then Low 0 else Normal (n + 1))"
| "charge_step (Normal n) k = Normal 0"
| "charge_step (Low n) Strong = (if n + 1 \<ge> 2 then Normal 0 else Low (n + 1))"
| "charge_step (Low n) k = Low 0"

definition charge_abs :: "battery_status \<Rightarrow> charge" where
  "charge_abs s = (if low s then Low (unat (normal_confirm_samples s))
                   else Normal (unat (low_confirm_samples s)))"

definition counters_ok :: "battery_status \<Rightarrow> bool" where
  "counters_ok s \<longleftrightarrow> (if low s then normal_confirm_samples s < BATTERY_NORMAL_CONFIRM_SAMPLES
                      else low_confirm_samples s < BATTERY_LOW_CONFIRM_SAMPLES)"

lemma word_small_succ: "unat (n :: u32) < 3 \<Longrightarrow> unat (n + 1) = Suc (unat n)"
  by (simp add: unat_word_ariths)

lemma classify_margin:
  assumes "cal_ok c"
  shows "mv < cal_millivolts c ! 1 + BATTERY_RECOVERY_MARGIN_MV \<longleftrightarrow> classify c mv \<noteq> Strong"
proof -
  from assms obtain a0 a1 a2 a3 a4 where p: "cal_millivolts c = [a0, a1, a2, a3, a4]"
    "unat a1 < unat a2" "unat a2 < unat a3" "unat a3 < unat a4" "unat a4 \<le> 5000"
    by (rule cal_ok_points)
  then have "unat (a1 + 100) = unat a1 + 100" by (simp add: unat_word_ariths)
  with p show ?thesis
    by (auto simp: classify_def BATTERY_RECOVERY_MARGIN_MV_def word_less_nat_alt word_le_nat_alt)
qed

lemma battery_confirm_step:
  assumes "cal_ok c" "counters_ok s" "battery_confirm c mv s = (s', l)"
  shows "charge_abs (s'\<lparr>low := l\<rparr>) = charge_step (charge_abs s) (classify c mv)"
    and "counters_ok (s'\<lparr>low := l\<rparr>)"
proof -
  have weak: "mv \<le> cal_millivolts c ! 1 \<longleftrightarrow> classify c mv = Weak" by (auto simp: classify_def)
  note margin = classify_margin [OF assms(1), of mv]
  note confirm = assms(3) [unfolded battery_confirm_def Let_def weak margin]
  show "charge_abs (s'\<lparr>low := l\<rparr>) = charge_step (charge_abs s) (classify c mv)"
    and "counters_ok (s'\<lparr>low := l\<rparr>)"
    using assms(2) confirm
    by (cases "classify c mv"; cases "low s";
        auto simp: charge_abs_def counters_ok_def BATTERY_NORMAL_CONFIRM_SAMPLES_def
          BATTERY_LOW_CONFIRM_SAMPLES_def word_less_nat_alt word_le_nat_alt word_small_succ split: if_splits)+
qed

section \<open>The discharge rate\<close>

lemma rate_average_bound:
  fixes p m :: u32
  assumes "p \<le> 2000" "m \<le> 2000"
  shows "(p * 3 + m + 2) div 4 \<le> 2000"
proof -
  have u: "unat p \<le> 2000" "unat m \<le> 2000" using assms by (simp_all add: word_le_nat_alt)
  then have "unat (p * 3 + m + 2) = unat p * 3 + unat m + 2" by (simp add: unat_word_ariths)
  then have "unat ((p * 3 + m + 2) div 4) = (unat p * 3 + unat m + 2) div 4" by (simp add: unat_div)
  also have "\<dots> \<le> 2000" using u by linarith
  finally show ?thesis by (simp add: word_le_nat_alt)
qed

lemma measured_rate_bound:
  fixes r :: u64
  assumes "r \<le> ucast BATTERY_RATE_MAX_MV_PER_HOUR"
  shows "(ucast r :: u32) \<le> 2000"
proof -
  have "unat r \<le> 2000"
    using assms by (simp add: BATTERY_RATE_MAX_MV_PER_HOUR_def word_le_nat_alt)
  then show ?thesis by (simp add: word_le_nat_alt unsigned_ucast_eq take_bit_eq_mod)
qed

lemma battery_update_rate_bound:
  assumes "discharge_mv_per_hour s \<le> 2000"
  shows "discharge_mv_per_hour (battery_update_rate c s mv now) \<le> 2000"
  using assms rate_average_bound measured_rate_bound
  by (auto simp: battery_update_rate_def Let_def)

lemma battery_update_rate_flags [simp]:
  "low (battery_update_rate c s mv now) = low s"
  "low_confirm_samples (battery_update_rate c s mv now) = low_confirm_samples s"
  "normal_confirm_samples (battery_update_rate c s mv now) = normal_confirm_samples s"
  by (simp_all add: battery_update_rate_def Let_def)

lemma rate_default_flags [simp]:
  "low_confirm_samples (if b then s\<lparr>discharge_mv_per_hour := x\<rparr> else s) = low_confirm_samples s"
  "normal_confirm_samples (if b then s\<lparr>discharge_mv_per_hour := x\<rparr> else s) = normal_confirm_samples s"
  by simp_all

lemma battery_confirm_rate: "battery_confirm c mv s = (s', l) \<Longrightarrow> discharge_mv_per_hour s' = discharge_mv_per_hour s"
  by (auto simp: battery_confirm_def Let_def split: if_splits)

lemma apply_sample_flags:
  assumes "unifrog_battery_status_apply_sample c (Some s) r mv src now = (ret, Some s2)"
    "battery_confirm c mv s = (s1, l)"
  shows "charge_abs s2 = charge_abs (s1\<lparr>low := l\<rparr>)" "counters_ok s2 = counters_ok (s1\<lparr>low := l\<rparr>)"
  using assms
  by (auto simp: unifrog_battery_status_apply_sample_def charge_abs_def counters_ok_def Let_def)

lemma cal_ok_rate: "cal_ok c \<Longrightarrow> cal_discharge c \<le> 2000"
  by (auto simp: cal_ok_def unifrog_battery_calibration_valid_def BATTERY_RATE_MAX_MV_PER_HOUR_def
      not_less split: if_splits)

text \<open>Samples applied one after the other, as the frontend polls the battery.\<close>

fun apply_samples ::
  "battery_calibration \<Rightarrow> battery_status \<Rightarrow> (u32 \<times> u32 \<times> string option \<times> u32) list \<Rightarrow> battery_status" where
  "apply_samples c s [] = s"
| "apply_samples c s ((r, mv, src, now) # xs) =
     apply_samples c (the (snd (unifrog_battery_status_apply_sample c (Some s) r mv src now))) xs"

lemma apply_sample_Some:
  obtains ret s' where "unifrog_battery_status_apply_sample c (Some s) r mv src now = (ret, Some s')"
proof -
  have "\<exists>ret s'. unifrog_battery_status_apply_sample c (Some s) r mv src now = (ret, Some s')"
    by (simp add: unifrog_battery_status_apply_sample_def Let_def case_prod_beta)
  with that show thesis by blast
qed

lemma apply_samples_charge:
  assumes "cal_ok c" "counters_ok s"
  shows "charge_abs (apply_samples c s xs) =
      foldl charge_step (charge_abs s) (map (\<lambda>(r, mv, src, now). classify c mv) xs) \<and>
    counters_ok (apply_samples c s xs)"
  using assms(2)
proof (induction xs arbitrary: s)
  case (Cons x xs)
  obtain r mv src now where x: "x = (r, mv, src, now)" by (cases x) auto
  obtain ret s2 where run: "unifrog_battery_status_apply_sample c (Some s) r mv src now = (ret, Some s2)"
    by (rule apply_sample_Some)
  obtain s1 l where conf: "battery_confirm c mv s = (s1, l)" by fastforce
  note step = battery_confirm_step [OF assms(1) Cons.prems conf] apply_sample_flags [OF run conf]
  with Cons.IH [of s2] run x show ?case by simp
qed simp

section \<open>Properties\<close>

text \<open>The ratio \<open>n / d\<close>, rounded to the nearest integer, halves upwards.\<close>

definition rounded_ratio :: "nat \<Rightarrow> nat \<Rightarrow> nat" where
  "rounded_ratio n d = (2 * n + d) div (2 * d)"

lemma rounded_ratio_iff:
  assumes "0 < d"
  shows "q = rounded_ratio n d \<longleftrightarrow> 2 * d * q \<le> 2 * n + d \<and> 2 * n + d < 2 * d * (q + 1)"
  using assms unfolding rounded_ratio_def
  by (metis add.commute div_nat_eqI div_times_less_eq_dividend dividend_less_times_div mult.commute mult_Suc_right
      nat_0_less_mult_iff plus_1_eq_Suc zero_less_numeral)

lemma segment_rounded: "segment a b v = rounded_ratio (25 * (v - a)) (b - a)"
proof -
  have "rounded_ratio (25 * (v - a)) (b - a) = (2 * ((v - a) * 25) + (b - a)) div 2 div (b - a)"
    unfolding rounded_ratio_def div_mult2_eq by (simp only: mult.commute)
  also have "(2 * ((v - a) * 25) + (b - a)) div 2 = (v - a) * 25 + (b - a) div 2" by presburger
  finally show ?thesis by (simp add: segment_def)
qed

lemma curve_segment:
  assumes "a0 < a1" "a1 < a2" "a2 < a3" "a3 < a4" "i < 4"
    and "[a0, a1, a2, a3, a4] ! i \<le> v" "v \<le> [a0, a1, a2, a3, a4] ! (i + 1)"
  shows "curve a0 a1 a2 a3 a4 v = 25 * i + segment ([a0, a1, a2, a3, a4] ! i) ([a0, a1, a2, a3, a4] ! (i + 1)) v"
proof -
  note ends = segment_ends [OF assms(1)] segment_ends [OF assms(2)] segment_ends [OF assms(3)] segment_ends [OF assms(4)]
  consider "i = 0" | "i = 1" | "i = 2" | "i = 3" using assms(5) by linarith
  then show ?thesis
  proof cases
    case 1
    with assms ends show ?thesis by (cases "v = a0") (auto simp: curve_def)
  next
    case 2
    with assms ends show ?thesis by (cases "v = a1") (auto simp: curve_def)
  next
    case 3
    with assms ends show ?thesis by (cases "v = a2") (auto simp: curve_def)
  next
    case 4
    with assms ends show ?thesis by (cases "v = a3"; cases "v = a4") (auto simp: curve_def eval_nat_numeral)
  qed
qed

text \<open>
  C29. The percentage of a valid calibration is the piecewise linear curve through the five
  calibration points, rounded: between two points, a quarter apart, it is the linear
  interpolation rounded to the nearest integer, halves upwards; below the first point it is 0
  and above the last 100. So it never exceeds 100, does not fall when the voltage rises, and is
  exactly 0, 25, 50, 75 and 100 at the points. No intermediate 32-bit computation wraps.
\<close>

theorem battery_percent_gauge:
  assumes "cal_ok c"
  shows "(\<forall>i < 4. unat (cal_millivolts c ! i) \<le> unat mv \<and> unat mv \<le> unat (cal_millivolts c ! (i + 1)) \<longrightarrow>
      unat (unifrog_battery_percent_for_mv c mv) =
        25 * i + rounded_ratio (25 * (unat mv - unat (cal_millivolts c ! i)))
          (unat (cal_millivolts c ! (i + 1)) - unat (cal_millivolts c ! i))) \<and>
    (unat mv \<le> unat (cal_millivolts c ! 0) \<longrightarrow> unifrog_battery_percent_for_mv c mv = 0) \<and>
    (unat (cal_millivolts c ! 4) \<le> unat mv \<longrightarrow> unifrog_battery_percent_for_mv c mv = 100) \<and>
    unifrog_battery_percent_for_mv c mv \<le> 100 \<and>
    (mv \<le> mv' \<longrightarrow> unifrog_battery_percent_for_mv c mv \<le> unifrog_battery_percent_for_mv c mv') \<and>
    map (unifrog_battery_percent_for_mv c) (cal_millivolts c) = [0, 25, 50, 75, 100]"
proof -
  from assms obtain a0 a1 a2 a3 a4 where p: "cal_millivolts c = [a0, a1, a2, a3, a4]"
    "unat a0 < unat a1" "unat a1 < unat a2" "unat a2 < unat a3" "unat a3 < unat a4" "unat a4 \<le> 5000"
    by (rule cal_ok_points)
  let ?curve = "curve (unat a0) (unat a1) (unat a2) (unat a3) (unat a4)"
  note pc = percent_curve [OF p]
  have "unifrog_battery_percent_for_mv c x = of_nat (unat (unifrog_battery_percent_for_mv c x))" for x
    by simp
  then have at: "unifrog_battery_percent_for_mv c x = of_nat (?curve (unat x))" for x
    by (simp add: pc)
  have nth: "unat (cal_millivolts c ! i) = [unat a0, unat a1, unat a2, unat a3, unat a4] ! i" if "i < 5" for i
    using that nth_map [of i "cal_millivolts c" unat] by (simp add: p(1))
  have "unat (unifrog_battery_percent_for_mv c mv) =
      25 * i + rounded_ratio (25 * (unat mv - unat (cal_millivolts c ! i)))
        (unat (cal_millivolts c ! (i + 1)) - unat (cal_millivolts c ! i))"
    if "i < 4" "unat (cal_millivolts c ! i) \<le> unat mv" "unat mv \<le> unat (cal_millivolts c ! (i + 1))" for i
    using curve_segment [OF p(2-5), of i "unat mv"] that nth [of i] nth [of "i + 1"]
    by (simp add: pc segment_rounded)
  moreover have "unat mv \<le> unat (cal_millivolts c ! 0) \<longrightarrow> unifrog_battery_percent_for_mv c mv = 0"
    "unat (cal_millivolts c ! 4) \<le> unat mv \<longrightarrow> unifrog_battery_percent_for_mv c mv = 100"
    using p(2-5) by (simp_all add: at curve_def nth eval_nat_numeral)
  moreover have "map (unifrog_battery_percent_for_mv c) (cal_millivolts c) = [0, 25, 50, 75, 100]"
    by (simp add: p(1) at curve_at_points [OF p(2-5)])
  ultimately show ?thesis
    using curve_le_100 [OF p(2-5), of "unat mv"] curve_mono [OF p(2-5), of "unat mv" "unat mv'"]
    by (simp add: word_le_nat_alt pc)
qed

theorem battery_percent_gauge_witness:
  "cal_ok unifrog_battery_calibration_defaults \<and>
   unat (unifrog_battery_percent_for_mv unifrog_battery_calibration_defaults 3705) = 44 \<and>
   unifrog_battery_percent_for_mv unifrog_battery_calibration_defaults 3705 \<le>
     unifrog_battery_percent_for_mv unifrog_battery_calibration_defaults 3900"
proof -
  note gauge = battery_percent_gauge [OF cal_ok_defaults, of 3705 3900]
  have "unat (unifrog_battery_percent_for_mv unifrog_battery_calibration_defaults 3705) = 44"
    using gauge [THEN conjunct1, rule_format, of 1]
    by (simp add: unifrog_battery_calibration_defaults_def rounded_ratio_def)
  with gauge cal_ok_defaults show ?thesis by simp
qed

text \<open>
  C15. The low-battery flag follows the confirmation machine: from consistent counters, any
  sequence of samples drives the flag and the counters exactly as the abstract machine does,
  which turns low only after three weak samples in a row and normal again only after two
  strong ones in a row. The counters stay consistent.
\<close>

theorem battery_low_flag_refines:
  assumes "cal_ok c" and "counters_ok s"
  shows "charge_abs (apply_samples c s xs) =
      foldl charge_step (charge_abs s) (map (\<lambda>(r, mv, src, now). classify c mv) xs) \<and>
    counters_ok (apply_samples c s xs)"
  using assms by (rule apply_samples_charge)

theorem battery_low_flag_refines_witness:
  "charge_abs (apply_samples unifrog_battery_calibration_defaults
      (unifrog_battery_status_init unifrog_battery_calibration_defaults)
      [(180, 3600, None, 1), (180, 3600, None, 2), (180, 3600, None, 3), (190, 3800, None, 4)]) = Low 1"
proof -
  have "counters_ok (unifrog_battery_status_init unifrog_battery_calibration_defaults)"
    "charge_abs (unifrog_battery_status_init unifrog_battery_calibration_defaults) = Normal 0"
    by (simp_all add: counters_ok_def charge_abs_def unifrog_battery_status_init_def BATTERY_LOW_CONFIRM_SAMPLES_def)
  then show ?thesis
    using battery_low_flag_refines [OF cal_ok_defaults,
        of "unifrog_battery_status_init unifrog_battery_calibration_defaults"
           "[(180, 3600, None, 1), (180, 3600, None, 2), (180, 3600, None, 3), (190, 3800, None, 4)]"]
    by (simp add: classify_def unifrog_battery_calibration_defaults_def BATTERY_RECOVERY_MARGIN_MV_def)
qed

text \<open>
  The discharge rate stays within the limit of 2000 mV per hour: applying a sample to a
  status within the limit, under a valid calibration, gives a status within the limit,
  whatever the time stamps and voltages are.
\<close>

lemma battery_rate_bounded:
  assumes "cal_ok c" and "discharge_mv_per_hour s \<le> BATTERY_RATE_MAX_MV_PER_HOUR"
    and "unifrog_battery_status_apply_sample c (Some s) r mv src now = (ret, Some s')"
  shows "discharge_mv_per_hour s' \<le> BATTERY_RATE_MAX_MV_PER_HOUR"
proof -
  obtain s1 l where conf: "battery_confirm c mv s = (s1, l)" by fastforce
  from assms(2) battery_confirm_rate [OF conf] have "discharge_mv_per_hour s1 \<le> 2000"
    by (simp add: BATTERY_RATE_MAX_MV_PER_HOUR_def)
  with assms(1,3) conf cal_ok_rate [OF assms(1)] show ?thesis
    by (auto simp: unifrog_battery_status_apply_sample_def BATTERY_RATE_MAX_MV_PER_HOUR_def Let_def
        intro!: battery_update_rate_bound)
qed

lemma battery_rate_bounded_witness:
  "\<exists>ret s'. unifrog_battery_status_apply_sample unifrog_battery_calibration_defaults
      (Some (unifrog_battery_status_init unifrog_battery_calibration_defaults)) 200 4000 (Some ''direct'') 7 = (ret, Some s') \<and>
    discharge_mv_per_hour s' \<le> BATTERY_RATE_MAX_MV_PER_HOUR"
proof -
  let ?d = unifrog_battery_calibration_defaults
  obtain ret s' where run: "unifrog_battery_status_apply_sample ?d
      (Some (unifrog_battery_status_init ?d)) 200 4000 (Some ''direct'') 7 = (ret, Some s')"
    by (rule apply_sample_Some)
  have "discharge_mv_per_hour (unifrog_battery_status_init ?d) \<le> BATTERY_RATE_MAX_MV_PER_HOUR"
    by (simp add: unifrog_battery_status_init_def BATTERY_RATE_MAX_MV_PER_HOUR_def unifrog_battery_calibration_defaults_def)
  from battery_rate_bounded [OF cal_ok_defaults this run] run show ?thesis by blast
qed

end
