(* ===== verification/UF_Bin.thy ===== *)
theory UF_Bin
  imports UF_Prelude
begin

text \<open>
  Binary streams and little-endian fields, shared by the archive reader and the archive
  writer (\<open>foundation/src/archive\<close>).

  A \<open>FILE\<close> opened for binary access is its bytes, its position and a list that decides
  for each further call of the C library whether it fails (the empty list: no failure).
  \<open>long\<close> has 32 bits on the target, so a position above \<open>LONG_MAX\<close> cannot be told.

  Most functions of the archive code end in \<open>return -1\<close> or \<open>goto out\<close> as soon as one
  step fails; \<open>io_bind\<close> is that sequencing: \<open>None\<close> is the failure, the stream keeps the
  state the failing step left it in.
\<close>

section \<open>Streams\<close>

definition LONG_MAX :: nat where "LONG_MAX = 2147483647"

record cfile =
  fbytes :: bytes
  fpos :: nat
  ffaults :: "bool list"

definition io_fault :: "cfile \<Rightarrow> bool \<times> cfile" where
  "io_fault f = (case ffaults f of [] \<Rightarrow> (False, f) | b # rest \<Rightarrow> (b, f\<lparr>ffaults := rest\<rparr>))"

definition f_tell :: "cfile \<Rightarrow> nat option \<times> cfile" where
  "f_tell f0 = (let (bad, f) = io_fault f0
                in if bad \<or> fpos f > LONG_MAX then (None, f) else (Some (fpos f), f))"

text \<open>\<open>fseek\<close> from the start, from the current position and to the end.\<close>

definition f_seek_set :: "nat \<Rightarrow> cfile \<Rightarrow> unit option \<times> cfile" where
  "f_seek_set off f0 = (let (bad, f) = io_fault f0
                        in if bad then (None, f) else (Some (), f\<lparr>fpos := off\<rparr>))"

definition f_seek_cur :: "nat \<Rightarrow> cfile \<Rightarrow> unit option \<times> cfile" where
  "f_seek_cur n f0 = (let (bad, f) = io_fault f0
                      in if bad then (None, f) else (Some (), f\<lparr>fpos := fpos f + n\<rparr>))"

definition f_seek_end :: "cfile \<Rightarrow> unit option \<times> cfile" where
  "f_seek_end f0 = (let (bad, f) = io_fault f0
                    in if bad then (None, f) else (Some (), f\<lparr>fpos := length (fbytes f)\<rparr>))"

text \<open>\<open>fread\<close>: the bytes obtained, fewer than asked for at the end of the file.\<close>

definition f_read :: "nat \<Rightarrow> cfile \<Rightarrow> bytes \<times> cfile" where
  "f_read n f0 = (let (bad, f) = io_fault f0;
                      got = take n (drop (fpos f) (fbytes f))
                  in if bad then ([], f) else (got, f\<lparr>fpos := fpos f + length got\<rparr>))"

text \<open>\<open>fwrite\<close> at the current position; a gap behind the old end is filled with zeros.\<close>

definition write_at :: "nat \<Rightarrow> bytes \<Rightarrow> bytes \<Rightarrow> bytes" where
  "write_at pos bs xs =
     take pos xs @ replicate (pos - length xs) 0 @ bs @ drop (pos + length bs) xs"

definition f_write :: "bytes \<Rightarrow> cfile \<Rightarrow> unit option \<times> cfile" where
  "f_write bs f0 =
     (let (bad, f) = io_fault f0
      in if bad then (None, f)
         else (Some (), f\<lparr>fbytes := write_at (fpos f) bs (fbytes f), fpos := fpos f + length bs\<rparr>))"

definition io_bind ::
  "('f \<Rightarrow> 'a option \<times> 'f) \<Rightarrow> ('a \<Rightarrow> 'f \<Rightarrow> 'b option \<times> 'f) \<Rightarrow> 'f \<Rightarrow> 'b option \<times> 'f" where
  "io_bind m k f = (case m f of (None, g) \<Rightarrow> (None, g) | (Some x, g) \<Rightarrow> k x g)"

definition io_ret :: "'a \<Rightarrow> 'f \<Rightarrow> 'a option \<times> 'f" where
  "io_ret x f = (Some x, f)"

definition io_guard :: "bool \<Rightarrow> 'f \<Rightarrow> unit option \<times> 'f" where
  "io_guard b f = (if b then Some () else None, f)"

text \<open>A healthy stream: every further call succeeds.\<close>

abbreviation healthy :: "bytes \<Rightarrow> nat \<Rightarrow> cfile" where
  "healthy bs p \<equiv> \<lparr>fbytes = bs, fpos = p, ffaults = []\<rparr>"

lemma io_bind_Some_iff:
  "io_bind m k f = (Some y, h) \<longleftrightarrow> (\<exists>x g. m f = (Some x, g) \<and> k x g = (Some y, h))"
  by (auto simp: io_bind_def split: prod.splits option.splits)

lemma io_bind_Some [simp]: "m f = (Some x, g) \<Longrightarrow> io_bind m k f = k x g"
  by (simp add: io_bind_def)

lemma io_guard_Some_iff [simp]: "io_guard b f = (Some u, h) \<longleftrightarrow> b \<and> f = h"
  by (auto simp: io_guard_def)

lemma io_bind_ret [simp]: "io_bind (io_ret x) k = k x"
  by (simp add: io_bind_def io_ret_def fun_eq_iff)

lemma io_ret_Some_iff [simp]: "io_ret x f = (Some y, h) \<longleftrightarrow> x = y \<and> f = h"
  by (auto simp: io_ret_def)

lemma io_guard_True [simp]: "io_bind (io_guard True) k = k ()"
  by (simp add: io_bind_def io_guard_def fun_eq_iff)

lemma healthy_calls [simp]:
  "p \<le> LONG_MAX \<Longrightarrow> f_tell (healthy bs p) = (Some p, healthy bs p)"
  "f_seek_set q (healthy bs p) = (Some (), healthy bs q)"
  "f_seek_cur q (healthy bs p) = (Some (), healthy bs (p + q))"
  "f_seek_end (healthy bs p) = (Some (), healthy bs (length bs))"
  "f_write ds (healthy bs p) = (Some (), healthy (write_at p ds bs) (p + length ds))"
  "f_read n (healthy bs p) =
     (take n (drop p bs), healthy bs (p + length (take n (drop p bs))))"
  by (simp_all add: f_tell_def f_seek_set_def f_seek_cur_def f_seek_end_def f_write_def
      f_read_def io_fault_def Let_def)

text \<open>Reading calls never change the bytes of the file.\<close>

lemma io_fault_bytes: "io_fault f = (b, g) \<Longrightarrow> fbytes g = fbytes f"
  by (auto simp: io_fault_def split: list.splits)

lemma reading_bytes:
  "f_tell f = (r1, g) \<Longrightarrow> fbytes g = fbytes f"
  "f_seek_set q f = (r2, g) \<Longrightarrow> fbytes g = fbytes f"
  "f_seek_cur q f = (r2, g) \<Longrightarrow> fbytes g = fbytes f"
  "f_seek_end f = (r2, g) \<Longrightarrow> fbytes g = fbytes f"
  "f_read n f = (r3, g) \<Longrightarrow> fbytes g = fbytes f"
  by (auto simp: f_tell_def f_seek_set_def f_seek_cur_def f_seek_end_def f_read_def Let_def
      dest!: io_fault_bytes split: prod.splits if_splits)

lemma io_fault_pos: "io_fault f = (b, g) \<Longrightarrow> fpos g = fpos f \<and> fbytes g = fbytes f"
  by (auto simp: io_fault_def split: list.splits)

lemma f_tellD: "f_tell f = (Some n, g) \<Longrightarrow>
    n = fpos f \<and> n \<le> LONG_MAX \<and> fpos g = fpos f \<and> fbytes g = fbytes f"
  by (cases "io_fault f") (auto simp: f_tell_def dest!: io_fault_pos split: if_splits)

lemma f_seek_endD: "f_seek_end f = (Some u, g) \<Longrightarrow>
    fpos g = length (fbytes f) \<and> fbytes g = fbytes f"
  by (cases "io_fault f") (auto simp: f_seek_end_def dest!: io_fault_pos split: if_splits)

lemma f_seek_setD: "f_seek_set p f = (Some u, g) \<Longrightarrow> fpos g = p \<and> fbytes g = fbytes f"
  by (cases "io_fault f") (auto simp: f_seek_set_def dest!: io_fault_pos split: if_splits)

lemma f_writeD: "f_write bs f = (Some u, g) \<Longrightarrow>
    fpos g = fpos f + length bs \<and> fbytes g = write_at (fpos f) bs (fbytes f)"
  by (cases "io_fault f") (auto simp: f_write_def dest!: io_fault_pos split: if_splits)

lemma f_readD: "f_read n f = (buf, g) \<Longrightarrow> fbytes g = fbytes f \<and>
    (buf = [] \<or> buf = take n (drop (fpos f) (fbytes f)) \<and> fpos g = fpos f + length buf)"
  by (cases "io_fault f") (auto simp: f_read_def Let_def dest!: io_fault_pos split: if_splits)

lemma write_at_end [simp]: "write_at (length xs) bs xs = xs @ bs"
  by (simp add: write_at_def)

lemma write_at_inside:
  "length a = p \<Longrightarrow> length b = length bs \<Longrightarrow> write_at p bs (a @ b @ c) = a @ bs @ c"
  by (simp add: write_at_def)

section \<open>Little-endian fields\<close>

definition zip_read_le16 :: "bytes \<Rightarrow> nat \<Rightarrow> u16" where
  "zip_read_le16 p i = (ucast (p ! i) :: u16) OR push_bit 8 (ucast (p ! (i + 1)))"

definition zip_read_le32 :: "bytes \<Rightarrow> nat \<Rightarrow> u32" where
  "zip_read_le32 p i = (ucast (p ! i) :: u32) OR push_bit 8 (ucast (p ! (i + 1)))
     OR push_bit 16 (ucast (p ! (i + 2))) OR push_bit 24 (ucast (p ! (i + 3)))"

text \<open>The bytes that \<open>put16\<close> and \<open>put32\<close> store, and a store into a buffer at an offset.\<close>

definition put16 :: "u16 \<Rightarrow> bytes" where
  "put16 value = [ucast value, ucast (drop_bit 8 value)]"

definition put32 :: "u32 \<Rightarrow> bytes" where
  "put32 value = [ucast value, ucast (drop_bit 8 value), ucast (drop_bit 16 value),
                  ucast (drop_bit 24 value)]"

definition poke :: "nat \<Rightarrow> bytes \<Rightarrow> bytes \<Rightarrow> bytes" where
  "poke i bs buf = take i buf @ bs @ drop (i + length bs) buf"

text \<open>
  What the writer and the reader agree on for a field of a fixed width: the stored bytes
  have that width, a field is read back from them wherever they stand, and reading looks
  only at the bytes of the field.
\<close>

locale le_field =
  fixes width :: nat and put :: "'v \<Rightarrow> bytes" and get :: "bytes \<Rightarrow> nat \<Rightarrow> 'v"
  assumes put_length [simp]: "length (put v) = width"
    and get_put: "get (put v) 0 = v"
    and get_local: "i + width \<le> length p \<Longrightarrow> get p i = get (take width (drop i p)) 0"
begin

lemma get_at: "i = length a \<Longrightarrow> get (a @ put v @ b) i = v"
  using get_local [of i "a @ put v @ b"] by (simp add: get_put)

lemma get_shift: "i + width \<le> length b \<Longrightarrow> get (a @ b) (length a + i) = get b i"
  using get_local [of "length a + i" "a @ b"] get_local [of i b] by simp

lemma get_front: "i + width \<le> length a \<Longrightarrow> get (a @ b) i = get a i"
  using get_local [of i "a @ b"] get_local [of i a] by simp

lemma get_here: "get (put v @ b) 0 = v"
  using get_at [of 0 "[]"] by simp

lemma get_skip:
  "length a \<le> i \<Longrightarrow> i + width \<le> length a + length b \<Longrightarrow> get (a @ b) i = get b (i - length a)"
  using get_shift [of "i - length a" b a] by simp

lemma get_poke_same: "i + width \<le> length buf \<Longrightarrow> get (poke i (put v) buf) i = v"
  unfolding poke_def by (rule get_at) simp

lemma get_poke_other:
  assumes "j + width \<le> length buf" "i + length bs \<le> length buf"
    and "j + width \<le> i \<or> i + length bs \<le> j"
  shows "get (poke i bs buf) j = get buf j"
proof -
  from assms(3) have "take width (drop j (poke i bs buf)) = take width (drop j buf)"
  proof
    assume "j + width \<le> i"
    then have "take (j + width) (poke i bs buf) = take (j + width) buf"
      using assms by (simp add: poke_def)
    then show ?thesis by (metis add_diff_cancel_left' drop_take)
  next
    assume ge: "i + length bs \<le> j"
    then have "drop j (poke i bs buf) = drop (j - (i + length bs)) (drop (i + length bs) buf)"
      using assms by (simp add: poke_def)
    also have "\<dots> = drop j buf" using ge by simp
    finally show ?thesis by simp
  qed
  moreover have "length (poke i bs buf) = length buf" using assms by (simp add: poke_def)
  ultimately show ?thesis
    using assms get_local [of j buf] get_local [of j "poke i bs buf"] by simp
qed

end

lemma le16_join:
  "(ucast (ucast v :: u8) :: u16) OR push_bit 8 (ucast (ucast (drop_bit 8 v) :: u8)) = v"
  by (rule bit_word_eqI) (auto simp: bit_simps)

lemma le32_join:
  "(ucast (ucast v :: u8) :: u32) OR push_bit 8 (ucast (ucast (drop_bit 8 v) :: u8))
     OR push_bit 16 (ucast (ucast (drop_bit 16 v) :: u8))
     OR push_bit 24 (ucast (ucast (drop_bit 24 v) :: u8)) = v"
proof (rule bit_word_eqI)
  fix n :: nat
  assume "n < LENGTH(32)"
  moreover have "n < 8 \<or> 8 \<le> n \<and> n < 16 \<or> 16 \<le> n \<and> n < 24 \<or> 24 \<le> n" by linarith
  ultimately show "bit ((ucast (ucast v :: u8) :: u32) OR push_bit 8 (ucast (ucast (drop_bit 8 v) :: u8))
     OR push_bit 16 (ucast (ucast (drop_bit 16 v) :: u8))
     OR push_bit 24 (ucast (ucast (drop_bit 24 v) :: u8))) n = bit v n"
    by (elim disjE conjE) (simp_all add: bit_simps, linarith+)
qed

lemma take_drop_nth:
  "i + n \<le> length p \<Longrightarrow> take n (drop i p) = map (\<lambda>k. p ! (i + k)) [0..<n]"
  by (auto simp: list_eq_iff_nth_eq)

interpretation f16: le_field 2 put16 zip_read_le16
proof
  fix i :: nat and p :: bytes
  assume "i + 2 \<le> length p"
  then show "zip_read_le16 p i = zip_read_le16 (take 2 (drop i p)) 0"
    by (simp add: zip_read_le16_def take_drop_nth)
qed (simp_all add: put16_def zip_read_le16_def le16_join)

interpretation f32: le_field 4 put32 zip_read_le32
proof
  fix i :: nat and p :: bytes
  assume "i + 4 \<le> length p"
  then show "zip_read_le32 p i = zip_read_le32 (take 4 (drop i p)) 0"
    by (simp add: zip_read_le32_def take_drop_nth)
qed (simp_all add: put32_def zip_read_le32_def le32_join)

section \<open>Segments of a name\<close>

text \<open>The pieces of a list between separators, and what a safe piece of a name is.\<close>

fun segments :: "('a \<Rightarrow> bool) \<Rightarrow> 'a list \<Rightarrow> 'a list list" where
  "segments P [] = [[]]"
| "segments P (x # xs) =
     (if P x then [] # segments P xs
      else (x # hd (segments P xs)) # tl (segments P xs))"

definition segment_ok :: "bytes \<Rightarrow> bool" where
  "segment_ok s \<longleftrightarrow> s \<noteq> [] \<and> s \<noteq> [0x2e] \<and> s \<noteq> [0x2e, 0x2e]"

lemma segments_neq_Nil [simp]: "segments P xs \<noteq> []"
  by (cases xs) auto

lemma segments_append:
  "list_all (\<lambda>x. \<not> P x) cur \<Longrightarrow>
   segments P (cur @ rest) = (cur @ hd (segments P rest)) # tl (segments P rest)"
  by (induction cur) auto

lemma segments_sep: "P c \<Longrightarrow> list_all (\<lambda>x. \<not> P x) cur \<Longrightarrow>
   segments P (cur @ c # rest) = cur # segments P rest"
  by (simp add: segments_append)

lemma segments_no_sep: "list_all (\<lambda>x. \<not> P x) cur \<Longrightarrow> segments P cur = [cur]"
  using segments_append [of P cur "[]"] by simp

lemma segments_suffix: "\<exists>pre. xs = pre @ last (segments P xs)"
proof (induction xs)
  case (Cons x xs)
  then obtain pre where pre: "xs = pre @ last (segments P xs)" by blast
  show ?case
  proof (cases "P x \<or> tl (segments P xs) \<noteq> []")
    case True
    then have "last (segments P (x # xs)) = last (segments P xs)"
      by (cases "segments P xs") auto
    with pre show ?thesis by (metis append_Cons)
  next
    case False
    then have "segments P xs = [hd (segments P xs)]" by (cases "segments P xs") auto
    with False have "last (segments P (x # xs)) = x # last (segments P xs)" by (metis last.simps segments.simps(2))
    moreover from False have "\<not> P x" "tl (segments P xs) = []" by auto
    then have "xs = last (segments P xs)"
    proof (induction xs)
      case (Cons y ys)
      then show ?case by (cases "segments P ys") (auto split: if_splits)
    qed simp
    ultimately show ?thesis by (metis append_Nil)
  qed
qed simp

lemma segments_last_empty: "xs \<noteq> [] \<Longrightarrow> last (segments P xs) = [] \<Longrightarrow> P (last xs)"
proof (induction xs)
  case (Cons x xs)
  then show ?case by (cases xs; cases "segments P xs") (auto split: if_splits)
qed simp

text \<open>
  The scanning loop that the reader and the writer both run over an entry name: it counts
  the length of the current segment, rejects the characters in \<open>bad\<close>, and at a separator
  rejects an empty segment, \<open>.\<close> and \<open>..\<close> by looking back into the name.
\<close>

locale segment_scan =
  fixes sep bad :: "u8 \<Rightarrow> bool"
    and loop :: "bytes \<Rightarrow> bytes \<Rightarrow> nat \<Rightarrow> nat \<Rightarrow> nat option"
  assumes loop_Nil: "loop name [] i n = Some n"
    and loop_Cons: "loop name (c # rest) i n =
      (if bad c then None
       else if sep c then
         (if n = 0 \<or> n = 1 \<and> name ! (i - 1) = 0x2e \<or>
             n = 2 \<and> name ! (i - 2) = 0x2e \<and> name ! (i - 1) = 0x2e
          then None else loop name rest (Suc i) 0)
       else loop name rest (Suc i) (Suc n))"
begin

text \<open>The look-back test decides whether the segment that ends at \<open>i\<close> is safe.\<close>

lemma look_back:
  assumes "name = pre @ cur @ rest" "i = length (pre @ cur)"
  shows "(length cur = 0 \<or> length cur = 1 \<and> name ! (i - 1) = 0x2e \<or>
          length cur = 2 \<and> name ! (i - 2) = 0x2e \<and> name ! (i - 1) = 0x2e) \<longleftrightarrow> \<not> segment_ok cur"
proof -
  consider "cur = []" | x where "cur = [x]" | x y where "cur = [x, y]"
    | x y z us where "cur = x # y # z # us"
    by (metis list.exhaust)
  then show ?thesis using assms by cases (auto simp: segment_ok_def nth_append)
qed

lemma loop_segments:
  assumes "name = pre @ cur @ rest" "list_all (\<lambda>c. \<not> sep c) cur"
  shows "loop name rest (length (pre @ cur)) (length cur) =
    (if list_all (\<lambda>c. \<not> bad c) rest \<and> list_all segment_ok (butlast (segments sep (cur @ rest)))
     then Some (length (last (segments sep (cur @ rest)))) else None)"
  using assms
proof (induction rest arbitrary: pre cur)
  case Nil
  then show ?case by (simp add: loop_Nil segments_no_sep)
next
  case (Cons c rest)
  note lb = look_back [OF Cons.prems(1) refl]
  show ?case
  proof (cases "sep c")
    case True
    have sg: "segments sep (cur @ c # rest) = cur # segments sep rest"
      using True Cons.prems(2) by (rule segments_sep)
    show ?thesis
      using True lb Cons.prems Cons.IH [of "pre @ cur @ [c]" "[]"]
      by (simp add: loop_Cons sg)
  next
    case False
    with Cons.prems show ?thesis
      using Cons.IH [of pre "cur @ [c]"] by (simp add: loop_Cons)
  qed
qed

lemma loop_whole:
  "loop name name 0 0 =
    (if list_all (\<lambda>c. \<not> bad c) name \<and> list_all segment_ok (butlast (segments sep name))
     then Some (length (last (segments sep name))) else None)"
  using loop_segments [of name "[]" "[]" name] by simp

text \<open>The same test after the loop decides whether the last segment is safe.\<close>

lemma final_look_back:
  "(length (last (segments sep name)) = 0 \<or>
    length (last (segments sep name)) = 1 \<and> name ! (length name - 1) = 0x2e \<or>
    length (last (segments sep name)) = 2 \<and> name ! (length name - 2) = 0x2e \<and>
      name ! (length name - 1) = 0x2e) \<longleftrightarrow> \<not> segment_ok (last (segments sep name))"
proof -
  obtain pre where "name = pre @ last (segments sep name)"
    using segments_suffix by blast
  then have "name = pre @ last (segments sep name) @ []" "length name = length (pre @ last (segments sep name))"
    by simp_all
  then show ?thesis by (rule look_back)
qed

end

end
