(* ===== verification/UF_Zip.thy ===== *)
theory UF_Zip
  imports UF_Bin
begin

text \<open>
  The ZIP reader of \<open>foundation/src/archive/unifrog_zip.c\<close>: the search for the end record,
  the check of every directory record against its local header, the two passes that build
  the entry table, and the extraction of stored and deflated entries.

  Names are byte lists. \<open>size_t\<close> values are naturals: every sum in this file is bounded by
  the file size plus a few 16-bit lengths, and a file that can be told has at most
  \<open>LONG_MAX\<close> bytes. Which allocations succeed is the argument \<open>mem\<close> (\<open>mem k\<close> for the
  \<open>k\<close>-th allocation of the call). zlib is not part of the sources: it is the record \<open>zlib\<close>
  of the functions that are called, and what the code relies on are the predicates
  \<open>crc_laws\<close>, \<open>inflate_fits\<close> and \<open>inflate_progress\<close>.
\<close>

section \<open>Constants and structures\<close>

definition UNIFROG_ZIP_EOCD_SIG :: u32 where "UNIFROG_ZIP_EOCD_SIG = 0x06054b50"
definition UNIFROG_ZIP_CDH_SIG :: u32 where "UNIFROG_ZIP_CDH_SIG = 0x02014b50"
definition UNIFROG_ZIP_LH_SIG :: u32 where "UNIFROG_ZIP_LH_SIG = 0x04034b50"
definition UNIFROG_ZIP_EOCD_MIN :: nat where "UNIFROG_ZIP_EOCD_MIN = 22"
definition UNIFROG_ZIP_EOCD_MAX_COMMENT :: nat where "UNIFROG_ZIP_EOCD_MAX_COMMENT = 65535"
definition UNIFROG_ZIP_EOCD_SCAN_MAX :: nat where
  "UNIFROG_ZIP_EOCD_SCAN_MAX = UNIFROG_ZIP_EOCD_MIN + UNIFROG_ZIP_EOCD_MAX_COMMENT"
definition UNIFROG_ZIP_CDH_FIXED :: nat where "UNIFROG_ZIP_CDH_FIXED = 46"
definition UNIFROG_ZIP_LH_FIXED :: nat where "UNIFROG_ZIP_LH_FIXED = 30"
definition UNIFROG_ZIP_IO_CHUNK :: nat where "UNIFROG_ZIP_IO_CHUNK = 4096"
definition SIZE_MAX :: nat where "SIZE_MAX = 4294967295"

abbreviation B_SLASH :: u8 where "B_SLASH \<equiv> 0x2f"
abbreviation B_BACKSLASH :: u8 where "B_BACKSLASH \<equiv> 0x5c"
abbreviation B_COLON :: u8 where "B_COLON \<equiv> 0x3a"
abbreviation B_DOT :: u8 where "B_DOT \<equiv> 0x2e"

record zip_entry =
  ename :: bytes
  eflags :: u16
  emethod :: u16
  ecrc32 :: u32
  ecompressed_size :: u32
  euncompressed_size :: u32
  elocal_offset :: u32

record zip_scan =
  sname :: bytes
  sdata_offset :: nat
  sflags :: u16
  smethod :: u16
  scrc32 :: u32
  scompressed_size :: u32
  suncompressed_size :: u32
  slocal_offset :: u32
  skeep :: bool

record zip_impl =
  zfile_size :: nat
  zentry_count :: nat
  zdata_offsets :: "nat list"
  zentries :: "zip_entry list"
  zname_storage :: nat
  zowns_file :: bool

section \<open>Stream helpers\<close>

definition zip_file_size :: "cfile \<Rightarrow> nat option \<times> cfile" where
  "zip_file_size =
     io_bind f_tell (\<lambda>start.
     io_bind f_seek_end (\<lambda>_.
     io_bind f_tell (\<lambda>end_pos.
     io_bind (f_seek_set start) (\<lambda>_. io_ret end_pos))))"

definition zip_read_exact :: "nat \<Rightarrow> cfile \<Rightarrow> bytes option \<times> cfile" where
  "zip_read_exact n f = (let (buf, g) = f_read n f
                         in (if length buf = n then Some buf else None, g))"

definition zip_seek :: "nat \<Rightarrow> cfile \<Rightarrow> unit option \<times> cfile" where
  "zip_seek offset f = (if offset > LONG_MAX then (None, f) else f_seek_set offset f)"

definition zip_skip :: "nat \<Rightarrow> cfile \<Rightarrow> unit option \<times> cfile" where
  "zip_skip n f = (if n > LONG_MAX then (None, f) else f_seek_cur n f)"

text \<open>The backward search for the end record: \<open>k\<close> positions remain below \<open>pos = min_pos + k\<close>.\<close>

fun eocd_loop :: "bytes \<Rightarrow> nat \<Rightarrow> nat \<Rightarrow> nat option" where
  "eocd_loop buf min_pos k =
     (let pos = min_pos + k in
      if zip_read_le32 buf pos = UNIFROG_ZIP_EOCD_SIG \<and>
         pos + UNIFROG_ZIP_EOCD_MIN + unat (zip_read_le16 buf (pos + 20)) = length buf
      then Some pos
      else (case k of 0 \<Rightarrow> None | Suc k' \<Rightarrow> eocd_loop buf min_pos k'))"

declare eocd_loop.simps [simp del]

definition zip_find_eocd :: "bytes \<Rightarrow> nat option" where
  "zip_find_eocd buf =
     (let zip_size = length buf in
      if zip_size < UNIFROG_ZIP_EOCD_MIN then None
      else let min_pos = (if zip_size > UNIFROG_ZIP_EOCD_SCAN_MAX
                          then zip_size - UNIFROG_ZIP_EOCD_SCAN_MAX else 0)
           in eocd_loop buf min_pos (zip_size - UNIFROG_ZIP_EOCD_MIN - min_pos))"

definition zip_is_separator :: "u8 \<Rightarrow> bool" where
  "zip_is_separator c \<longleftrightarrow> c = B_SLASH \<or> c = B_BACKSLASH \<or> c = B_COLON"

text \<open>The segment scan: \<open>None\<close> is the early \<open>return 0\<close>, otherwise the final \<open>segment_len\<close>.\<close>

fun zip_name_loop :: "bytes \<Rightarrow> bytes \<Rightarrow> nat \<Rightarrow> nat \<Rightarrow> nat option" where
  "zip_name_loop name [] i segment_len = Some segment_len"
| "zip_name_loop name (c # rest) i segment_len =
     (if zip_is_separator c
      then if segment_len = 0 then None
           else if segment_len = 1 \<and> name ! (i - 1) = B_DOT then None
           else if segment_len = 2 \<and> name ! (i - 2) = B_DOT \<and> name ! (i - 1) = B_DOT then None
           else zip_name_loop name rest (Suc i) 0
      else zip_name_loop name rest (Suc i) (Suc segment_len))"

definition zip_name_is_safe :: "bytes \<Rightarrow> bool" where
  "zip_name_is_safe name =
     (let n = length name in
      if n = 0 then False
      else if zip_is_separator (name ! 0) then False
      else if 0 \<in> set name then False
      else (case zip_name_loop name name 0 0 of
              None \<Rightarrow> False
            | Some segment_len \<Rightarrow>
                if segment_len = 0 then name ! (n - 1) = B_SLASH
                else if segment_len = 1 \<and> name ! (n - 1) = B_DOT then False
                else if segment_len = 2 \<and> name ! (n - 2) = B_DOT \<and> name ! (n - 1) = B_DOT then False
                else True))"

definition zip_name_is_dir :: "bytes \<Rightarrow> bool" where
  "zip_name_is_dir name \<longleftrightarrow> length name > 0 \<and> name ! (length name - 1) = B_SLASH"

definition zip_range_within_file :: "nat \<Rightarrow> nat \<Rightarrow> nat \<Rightarrow> bool" where
  "zip_range_within_file offset len file_size \<longleftrightarrow> offset \<le> file_size \<and> len \<le> file_size - offset"

function zip_compare_file_bytes :: "bytes \<Rightarrow> cfile \<Rightarrow> unit option \<times> cfile" where
  "zip_compare_file_bytes expected f =
     (if expected = [] then (Some (), f)
      else let chunk = (if length expected < 256 then length expected else 256)
           in (case zip_read_exact chunk f of
                 (None, g) \<Rightarrow> (None, g)
               | (Some buf, g) \<Rightarrow>
                   if buf \<noteq> take chunk expected then (None, g)
                   else zip_compare_file_bytes (drop chunk expected) g))"
  by pat_completeness auto
termination
  by (relation "measure (\<lambda>(e, f). length e)") (auto split: if_splits)

declare zip_compare_file_bytes.simps [simp del]

section \<open>The central directory\<close>

text \<open>
  One directory record at \<open>cursor\<close> and the local header it points to. The result is the
  scanned entry and the cursor of the next record.
\<close>

definition zip_scan_record :: "bytes \<Rightarrow> nat \<Rightarrow> (zip_scan \<times> nat) option" where
  "zip_scan_record cd cursor =
     (if cursor > length cd \<or> length cd - cursor < UNIFROG_ZIP_CDH_FIXED then None
      else if zip_read_le32 cd cursor \<noteq> UNIFROG_ZIP_CDH_SIG then None
      else let flags = zip_read_le16 cd (cursor + 8);
               method = zip_read_le16 cd (cursor + 10);
               crc = zip_read_le32 cd (cursor + 16);
               compressed_size = zip_read_le32 cd (cursor + 20);
               uncompressed_size = zip_read_le32 cd (cursor + 24);
               name_len = unat (zip_read_le16 cd (cursor + 28));
               extra_len = unat (zip_read_le16 cd (cursor + 30));
               comment_len = unat (zip_read_le16 cd (cursor + 32));
               local_offset = zip_read_le32 cd (cursor + 42);
               record_size = UNIFROG_ZIP_CDH_FIXED + name_len + extra_len + comment_len;
               name = take name_len (drop (cursor + UNIFROG_ZIP_CDH_FIXED) cd)
           in if compressed_size = 0xffffffff \<or> uncompressed_size = 0xffffffff \<or>
                 local_offset = 0xffffffff then None
              else if record_size > length cd - cursor then None
              else if flags AND 1 \<noteq> 0 then None
              else if \<not> zip_name_is_safe name then None
              else if method = 0 \<and> compressed_size \<noteq> uncompressed_size then None
              else Some (\<lparr>sname = name, sdata_offset = 0, sflags = flags, smethod = method,
                          scrc32 = crc, scompressed_size = compressed_size,
                          suncompressed_size = uncompressed_size, slocal_offset = local_offset,
                          skeep = (\<not> zip_name_is_dir name \<and> (method = 0 \<or> method = 8))\<rparr>,
                         cursor + record_size))"

definition zip_scan_local :: "nat \<Rightarrow> zip_scan \<Rightarrow> cfile \<Rightarrow> nat option \<times> cfile" where
  "zip_scan_local file_size scan =
     (let local_offset = unat (slocal_offset scan);
          name_len = length (sname scan);
          local_pos = local_offset + UNIFROG_ZIP_LH_FIXED in
      io_bind (io_guard (zip_range_within_file local_offset UNIFROG_ZIP_LH_FIXED file_size)) (\<lambda>_.
      io_bind (zip_seek local_offset) (\<lambda>_.
      io_bind (zip_read_exact UNIFROG_ZIP_LH_FIXED) (\<lambda>lh.
      io_bind (io_guard (zip_read_le32 lh 0 = UNIFROG_ZIP_LH_SIG)) (\<lambda>_.
      io_bind (io_guard (zip_read_le16 lh 6 AND 1 = 0)) (\<lambda>_.
      io_bind (io_guard (zip_read_le16 lh 8 = smethod scan)) (\<lambda>_.
      io_bind (io_guard (unat (zip_read_le16 lh 26) = name_len)) (\<lambda>_.
      io_bind (io_guard (zip_range_within_file local_pos name_len file_size)) (\<lambda>_.
      io_bind (zip_compare_file_bytes (sname scan)) (\<lambda>_.
      io_bind (io_guard (zip_range_within_file (local_pos + name_len)
                           (unat (zip_read_le16 lh 28)) file_size)) (\<lambda>_.
      io_bind (zip_skip (unat (zip_read_le16 lh 28))) (\<lambda>_.
      let data_offset = local_pos + name_len + unat (zip_read_le16 lh 28) in
      io_bind (io_guard (zip_range_within_file data_offset (unat (scompressed_size scan)) file_size))
        (\<lambda>_. io_ret data_offset)))))))))))))"

definition zip_scan_entry ::
  "bytes \<Rightarrow> nat \<Rightarrow> nat \<Rightarrow> cfile \<Rightarrow> (zip_scan \<times> nat) option \<times> cfile" where
  "zip_scan_entry cd file_size cursor f =
     (case zip_scan_record cd cursor of
        None \<Rightarrow> (None, f)
      | Some (scan, next_cursor) \<Rightarrow>
          io_bind (zip_scan_local file_size scan)
            (\<lambda>data_offset. io_ret (scan\<lparr>sdata_offset := data_offset\<rparr>, next_cursor)) f)"

text \<open>The first pass: the number of supported entries and the bytes their names take.\<close>

fun zip_count_loop ::
  "nat \<Rightarrow> bytes \<Rightarrow> nat \<Rightarrow> nat \<Rightarrow> nat \<Rightarrow> nat \<Rightarrow> cfile \<Rightarrow> (nat \<times> nat \<times> nat) option \<times> cfile" where
  "zip_count_loop 0 cd file_size cursor supported_count name_storage =
     io_ret (cursor, supported_count, name_storage)"
| "zip_count_loop (Suc n) cd file_size cursor supported_count name_storage =
     io_bind (zip_scan_entry cd file_size cursor) (\<lambda>(scan, next_cursor).
       if skeep scan
       then io_bind (io_guard (\<not> (supported_count = SIZE_MAX \<or>
                          name_storage > SIZE_MAX - length (sname scan) - 1))) (\<lambda>_.
            zip_count_loop n cd file_size next_cursor (Suc supported_count)
              (name_storage + (length (sname scan) + 1)))
       else zip_count_loop n cd file_size next_cursor supported_count name_storage)"

definition entry_of_scan :: "zip_scan \<Rightarrow> zip_entry" where
  "entry_of_scan scan =
     \<lparr>ename = sname scan, eflags = sflags scan, emethod = smethod scan, ecrc32 = scrc32 scan,
      ecompressed_size = scompressed_size scan, euncompressed_size = suncompressed_size scan,
      elocal_offset = slocal_offset scan\<rparr>"

text \<open>
  The second pass: the entries, their data offsets and the cursors into the two arrays and
  into the name storage. A store outside an array would be the no-op \<open>xs[i := x]\<close>.
\<close>

fun zip_fill_loop ::
  "nat \<Rightarrow> bytes \<Rightarrow> nat \<Rightarrow> nat \<Rightarrow> nat \<Rightarrow> nat \<Rightarrow> zip_entry list \<Rightarrow> nat list \<Rightarrow> cfile
     \<Rightarrow> (nat \<times> nat \<times> zip_entry list \<times> nat list) option \<times> cfile" where
  "zip_fill_loop 0 cd file_size cursor entry_index name_cursor entries offsets =
     io_ret (entry_index, name_cursor, entries, offsets)"
| "zip_fill_loop (Suc n) cd file_size cursor entry_index name_cursor entries offsets =
     io_bind (zip_scan_entry cd file_size cursor) (\<lambda>(scan, next_cursor).
       if skeep scan
       then zip_fill_loop n cd file_size next_cursor (Suc entry_index)
              (name_cursor + (length (sname scan) + 1))
              (entries[entry_index := entry_of_scan scan])
              (offsets[entry_index := sdata_offset scan])
       else zip_fill_loop n cd file_size next_cursor entry_index name_cursor entries offsets)"

text \<open>The directory of a file: its size, the directory bytes and the number of records.\<close>

definition zip_directory :: "(nat \<Rightarrow> bool) \<Rightarrow> cfile \<Rightarrow> (nat \<times> bytes \<times> nat) option \<times> cfile" where
  "zip_directory mem =
     io_bind zip_file_size (\<lambda>file_size.
     io_bind (io_guard (\<not> file_size < UNIFROG_ZIP_EOCD_MIN)) (\<lambda>_.
     let tail_size = (if file_size > UNIFROG_ZIP_EOCD_SCAN_MAX
                      then UNIFROG_ZIP_EOCD_SCAN_MAX else file_size) in
     io_bind (io_guard (mem 0)) (\<lambda>_.
     io_bind (zip_seek (file_size - tail_size)) (\<lambda>_.
     io_bind (zip_read_exact tail_size) (\<lambda>tail.
     (case zip_find_eocd tail of
        None \<Rightarrow> (\<lambda>f. (None, f))
      | Some eocd \<Rightarrow>
        io_bind (io_guard (\<not> (zip_read_le16 tail (eocd + 4) \<noteq> 0 \<or>
                              zip_read_le16 tail (eocd + 6) \<noteq> 0))) (\<lambda>_.
        let entries_total = zip_read_le16 tail (eocd + 10);
            cd_size = zip_read_le32 tail (eocd + 12);
            cd_offset = zip_read_le32 tail (eocd + 16) in
        io_bind (io_guard (\<not> (entries_total = 0xffff \<or> cd_size = 0xffffffff \<or>
                              cd_offset = 0xffffffff))) (\<lambda>_.
        io_bind (io_guard (\<not> (unat cd_size > file_size \<or>
                              unat cd_offset > file_size - unat cd_size))) (\<lambda>_.
        io_bind (io_guard (mem 1)) (\<lambda>_.
        io_bind (zip_seek (unat cd_offset)) (\<lambda>_.
        io_bind (zip_read_exact (unat cd_size)) (\<lambda>cd.
        io_ret (file_size, cd, unat entries_total)))))))))))))"

text \<open>
  Opening: the archive, the stream and how often \<open>fclose\<close> was called on it. On the failure
  path \<open>zip_free_impl\<close> closes an owned file when the archive structure exists already, and
  the function then closes it itself.
\<close>

definition zip_restore :: "nat option \<Rightarrow> cfile \<Rightarrow> cfile" where
  "zip_restore restore_pos f =
     (case restore_pos of None \<Rightarrow> f | Some p \<Rightarrow> snd (f_seek_set p f))"

definition zip_free_impl :: "bool \<Rightarrow> nat" where
  "zip_free_impl owns_file = (if owns_file then 1 else 0)"

definition zip_open_fail :: "bool \<Rightarrow> bool \<Rightarrow> nat option \<Rightarrow> cfile \<Rightarrow> zip_impl option \<times> cfile \<times> nat" where
  "zip_open_fail own_file impl_exists restore_pos f =
     (None, zip_restore restore_pos f,
      (if impl_exists then zip_free_impl own_file else 0) + (if own_file then 1 else 0))"

definition zip_open_from_file ::
  "(nat \<Rightarrow> bool) \<Rightarrow> bool \<Rightarrow> cfile \<Rightarrow> zip_impl option \<times> cfile \<times> nat" where
  "zip_open_from_file mem own_file f0 =
     (let (restore_pos, f1) = f_tell f0 in
      case zip_directory mem f1 of
        (None, f2) \<Rightarrow> zip_open_fail own_file False restore_pos f2
      | (Some (file_size, cd, entries_total), f2) \<Rightarrow>
        (case zip_count_loop entries_total cd file_size 0 0 0 f2 of
           (None, f3) \<Rightarrow> zip_open_fail own_file False restore_pos f3
         | (Some (cursor, supported_count, name_storage), f3) \<Rightarrow>
           if cursor \<noteq> length cd then zip_open_fail own_file False restore_pos f3
           else if \<not> mem 2 then zip_open_fail own_file False restore_pos f3
           else if supported_count > 0 \<and> (\<not> mem 3 \<or> \<not> mem 4 \<or> \<not> mem 5)
           then zip_open_fail own_file True restore_pos f3
           else (case zip_fill_loop entries_total cd file_size 0 0 0
                        (replicate supported_count
                           \<lparr>ename = [], eflags = 0, emethod = 0, ecrc32 = 0, ecompressed_size = 0,
                            euncompressed_size = 0, elocal_offset = 0\<rparr>)
                        (replicate supported_count 0) f3 of
                   (None, f4) \<Rightarrow> zip_open_fail own_file True restore_pos f4
                 | (Some (entry_index, name_cursor, entries, offsets), f4) \<Rightarrow>
                     (Some \<lparr>zfile_size = file_size, zentry_count = supported_count,
                            zdata_offsets = offsets, zentries = entries,
                            zname_storage = name_storage, zowns_file = own_file\<rparr>,
                      zip_restore restore_pos f4, 0))))"

text \<open>The exported entry points; \<open>opened\<close> is what \<open>fopen\<close> gave for the path.\<close>

definition unifrog_zip_open_path ::
  "(nat \<Rightarrow> bool) \<Rightarrow> cfile option \<Rightarrow> (zip_impl option \<times> cfile \<times> nat) option" where
  "unifrog_zip_open_path mem opened = map_option (zip_open_from_file mem True) opened"

definition unifrog_zip_open_file ::
  "(nat \<Rightarrow> bool) \<Rightarrow> cfile \<Rightarrow> zip_impl option \<times> cfile \<times> nat" where
  "unifrog_zip_open_file mem f = zip_open_from_file mem False f"

definition unifrog_zip_close :: "zip_impl option \<Rightarrow> zip_impl option \<times> nat" where
  "unifrog_zip_close arc =
     (case arc of None \<Rightarrow> (None, 0) | Some impl \<Rightarrow> (None, zip_free_impl (zowns_file impl)))"

definition unifrog_zip_entry_count :: "zip_impl option \<Rightarrow> nat" where
  "unifrog_zip_entry_count arc = (case arc of None \<Rightarrow> 0 | Some impl \<Rightarrow> zentry_count impl)"

text \<open>The index of the first entry with the name; the code returns its address.\<close>

fun zip_find_loop :: "zip_entry list \<Rightarrow> bytes \<Rightarrow> nat \<Rightarrow> nat option" where
  "zip_find_loop [] name i = None"
| "zip_find_loop (e # es) name i = (if ename e = name then Some i else zip_find_loop es name (Suc i))"

definition unifrog_zip_find :: "zip_impl option \<Rightarrow> bytes \<Rightarrow> nat option" where
  "unifrog_zip_find arc name =
     (case arc of None \<Rightarrow> None
      | Some impl \<Rightarrow> if name = [] then None
                     else zip_find_loop (take (zentry_count impl) (zentries impl)) name 0)"

section \<open>Extraction\<close>

datatype zret = Z_OK | Z_STREAM_END | Z_ERROR

text \<open>
  zlib as the code calls it: \<open>z_crc0\<close> is \<open>crc32 (0, Z_NULL, 0)\<close>, \<open>z_crc c buf\<close> is
  \<open>crc32 (c, buf, len)\<close>, \<open>z_init\<close> the stream after \<open>inflateInit2\<close>, and
  \<open>z_inflate finish input avail_out z\<close> gives the return code, the number of input bytes
  taken, the output bytes and the stream after the call.
\<close>

record 'z zlib =
  z_crc0 :: u32
  z_crc :: "u32 \<Rightarrow> bytes \<Rightarrow> u32"
  z_init :: "'z option"
  z_inflate :: "bool \<Rightarrow> bytes \<Rightarrow> nat \<Rightarrow> 'z \<Rightarrow> zret \<times> nat \<times> bytes \<times> 'z"

function zip_copy_stored ::
  "'z zlib \<Rightarrow> nat \<Rightarrow> u32 \<Rightarrow> cfile \<Rightarrow> cfile \<Rightarrow> u32 option \<times> cfile \<times> cfile" where
  "zip_copy_stored zl remaining crc inp out =
     (if remaining = 0 then (Some crc, inp, out)
      else let chunk = (if remaining < UNIFROG_ZIP_IO_CHUNK then remaining else UNIFROG_ZIP_IO_CHUNK)
           in (case zip_read_exact chunk inp of
                 (None, inp') \<Rightarrow> (None, inp', out)
               | (Some buf, inp') \<Rightarrow>
                   (case f_write buf out of
                      (None, out') \<Rightarrow> (None, inp', out')
                    | (Some _, out') \<Rightarrow>
                        zip_copy_stored zl (remaining - chunk) (z_crc zl crc buf) inp' out')))"
  by pat_completeness auto
termination
  by (relation "measure (\<lambda>(z, n, c, i, f). n)")
     (auto simp: UNIFROG_ZIP_IO_CHUNK_def split: if_splits)

declare zip_copy_stored.simps [simp del]

text \<open>
  The stream state of \<open>zip_inflate_raw\<close>: checksum, \<open>total_out\<close> and the zlib stream. The
  counter is zlib's \<open>uLong\<close>, 32 bits wide on the target: it wraps.
\<close>

type_synonym 'z infl = "u32 \<times> u32 \<times> 'z"

definition inflate_emit :: "'z zlib \<Rightarrow> bytes \<Rightarrow> u32 \<Rightarrow> cfile \<Rightarrow> u32 option \<times> cfile" where
  "inflate_emit zl produced crc out =
     (if produced = [] then (Some crc, out)
      else io_bind (f_write produced) (\<lambda>_. io_ret (z_crc zl crc produced)) out)"

text \<open>
  One \<open>inflate\<close> call with its checks: the return code, the unread input, the number of
  bytes produced and the new state, or \<open>None\<close> for \<open>goto out\<close>.
\<close>

definition inflate_call ::
  "'z zlib \<Rightarrow> u32 \<Rightarrow> bool \<Rightarrow> bytes \<Rightarrow> 'z infl \<Rightarrow> cfile \<Rightarrow> (zret \<times> bytes \<times> nat \<times> 'z infl) option \<times> cfile" where
  "inflate_call zl uncompressed_size finish inb st out =
     (let (crc, total_out, z) = st;
          (zret, used, produced, z') = z_inflate zl finish inb UNIFROG_ZIP_IO_CHUNK z;
          total_out' = total_out + word_of_nat (length produced)
      in if zret = Z_ERROR then (None, out)
         else io_bind (inflate_emit zl produced crc) (\<lambda>crc'.
              io_bind (io_guard (\<not> total_out' > uncompressed_size)) (\<lambda>_.
              io_ret (zret, drop used inb, length produced, (crc', total_out', z')))) out)"

partial_function (option) inflate_feed ::
  "'z zlib \<Rightarrow> u32 \<Rightarrow> nat \<Rightarrow> zret \<Rightarrow> bytes \<Rightarrow> 'z infl \<Rightarrow> cfile
     \<Rightarrow> ((zret \<times> 'z infl) option \<times> cfile) option" where
  [code]: "inflate_feed zl usize remaining zret inb st out =
     (if inb = [] then Some (Some (zret, st), out)
      else (case inflate_call zl usize False inb st out of
              (None, out') \<Rightarrow> Some (None, out')
            | (Some (zret', inb', produced, st'), out') \<Rightarrow>
                if zret' = Z_STREAM_END
                then Some (if inb' \<noteq> [] \<or> remaining \<noteq> 0 then None else Some (zret', st'), out')
                else inflate_feed zl usize remaining zret' inb' st' out'))"

function inflate_input ::
  "'z zlib \<Rightarrow> u32 \<Rightarrow> nat \<Rightarrow> zret \<Rightarrow> 'z infl \<Rightarrow> cfile \<Rightarrow> cfile
     \<Rightarrow> ((zret \<times> 'z infl) option \<times> cfile \<times> cfile) option" where
  "inflate_input zl usize remaining zret st inp out =
     (if remaining = 0 then Some (Some (zret, st), inp, out)
      else let chunk = (if remaining < UNIFROG_ZIP_IO_CHUNK then remaining else UNIFROG_ZIP_IO_CHUNK)
           in (case zip_read_exact chunk inp of
                 (None, inp') \<Rightarrow> Some (None, inp', out)
               | (Some in_buf, inp') \<Rightarrow>
                   (case inflate_feed zl usize (remaining - chunk) zret in_buf st out of
                      None \<Rightarrow> None
                    | Some (None, out') \<Rightarrow> Some (None, inp', out')
                    | Some (Some (zret', st'), out') \<Rightarrow>
                        if zret' = Z_STREAM_END then Some (Some (zret', st'), inp', out')
                        else inflate_input zl usize (remaining - chunk) zret' st' inp' out')))"
  by pat_completeness auto
termination
  by (relation "measure (\<lambda>(z, u, n, r, s, i, f). n)")
     (auto simp: UNIFROG_ZIP_IO_CHUNK_def split: if_splits)

declare inflate_input.simps [simp del]

partial_function (option) inflate_finish ::
  "'z zlib \<Rightarrow> u32 \<Rightarrow> zret \<Rightarrow> 'z infl \<Rightarrow> cfile \<Rightarrow> ((zret \<times> 'z infl) option \<times> cfile) option" where
  [code]: "inflate_finish zl usize zret st out =
     (if zret = Z_STREAM_END then Some (Some (zret, st), out)
      else (case inflate_call zl usize True [] st out of
              (None, out') \<Rightarrow> Some (None, out')
            | (Some (zret', inb', produced, st'), out') \<Rightarrow>
                if produced = 0 \<and> zret' \<noteq> Z_STREAM_END then Some (None, out')
                else inflate_finish zl usize zret' st' out'))"

text \<open>\<open>None\<close>: the call does not return; otherwise the checksum (\<open>None\<close>: -1) and the streams.\<close>

definition zip_inflate_raw ::
  "'z zlib \<Rightarrow> u32 \<Rightarrow> u32 \<Rightarrow> cfile \<Rightarrow> cfile \<Rightarrow> (u32 option \<times> cfile \<times> cfile) option" where
  "zip_inflate_raw zl compressed_size uncompressed_size inp out =
     (case z_init zl of
        None \<Rightarrow> Some (None, inp, out)
      | Some z \<Rightarrow>
        (case inflate_input zl uncompressed_size (unat compressed_size) Z_OK
                (z_crc0 zl, 0, z) inp out of
           None \<Rightarrow> None
         | Some (None, inp', out') \<Rightarrow> Some (None, inp', out')
         | Some (Some (zret, st), inp', out') \<Rightarrow>
           (case inflate_finish zl uncompressed_size zret st out' of
              None \<Rightarrow> None
            | Some (None, out'') \<Rightarrow> Some (None, inp', out'')
            | Some (Some (_, crc, total_out, _), out'') \<Rightarrow>
                Some (if total_out = uncompressed_size then Some crc else None, inp', out''))))"

definition zip_extract_entry_index ::
  "'z zlib \<Rightarrow> zip_impl \<Rightarrow> nat \<Rightarrow> cfile \<Rightarrow> cfile \<Rightarrow> (int \<times> cfile \<times> cfile) option" where
  "zip_extract_entry_index zl impl index inp out =
     (if index \<ge> zentry_count impl then Some (-1, inp, out)
      else let entry = zentries impl ! index;
               (restore_pos, f1) = f_tell inp
           in (case zip_seek (zdata_offsets impl ! index) f1 of
                 (None, f2) \<Rightarrow> Some (-1, zip_restore restore_pos f2, out)
               | (Some _, f2) \<Rightarrow>
                 (case (if emethod entry = 0
                        then Some (zip_copy_stored zl (unat (ecompressed_size entry)) (z_crc0 zl) f2 out)
                        else if emethod entry = 8
                        then zip_inflate_raw zl (ecompressed_size entry) (euncompressed_size entry) f2 out
                        else Some (None, f2, out)) of
                    None \<Rightarrow> None
                  | Some (None, f3, out') \<Rightarrow> Some (-1, zip_restore restore_pos f3, out')
                  | Some (Some crc, f3, out') \<Rightarrow>
                      Some (if crc \<noteq> ecrc32 entry then -1 else 0, zip_restore restore_pos f3, out'))))"

text \<open>An entry is named by its index: the address of an element of the table.\<close>

definition unifrog_zip_extract_entry_to_file ::
  "'z zlib \<Rightarrow> zip_impl option \<Rightarrow> nat option \<Rightarrow> cfile \<Rightarrow> cfile \<Rightarrow> (int \<times> cfile \<times> cfile) option" where
  "unifrog_zip_extract_entry_to_file zl arc entry inp out =
     (case (arc, entry) of
        (Some impl, Some i) \<Rightarrow>
          if i < zentry_count impl then zip_extract_entry_index zl impl i inp out
          else Some (-1, inp, out)
      | _ \<Rightarrow> Some (-1, inp, out))"

definition unifrog_zip_extract_name_to_file ::
  "'z zlib \<Rightarrow> zip_impl option \<Rightarrow> bytes \<Rightarrow> cfile \<Rightarrow> cfile \<Rightarrow> (int \<times> cfile \<times> cfile) option" where
  "unifrog_zip_extract_name_to_file zl arc name inp out =
     (case unifrog_zip_find arc name of
        None \<Rightarrow> Some (-1, inp, out)
      | Some i \<Rightarrow> unifrog_zip_extract_entry_to_file zl arc (Some i) inp out)"

text \<open>
  \<open>opened\<close> is the empty file \<open>fopen (out_path, "wb")\<close> gave; the contents left in it are
  returned whether or not the extraction succeeded.
\<close>

definition unifrog_zip_extract_name_to_path ::
  "'z zlib \<Rightarrow> zip_impl option \<Rightarrow> bytes \<Rightarrow> bytes \<Rightarrow> cfile option \<Rightarrow> cfile
     \<Rightarrow> (int \<times> cfile \<times> cfile option) option" where
  "unifrog_zip_extract_name_to_path zl arc name out_path opened inp =
     (if arc = None \<or> out_path = [] then Some (-1, inp, opened)
      else (case opened of
              None \<Rightarrow> Some (-1, inp, None)
            | Some out \<Rightarrow>
                map_option (\<lambda>(ret, inp', out'). (ret, inp', Some out'))
                  (unifrog_zip_extract_name_to_file zl arc name inp out)))"

section \<open>Entry names\<close>

interpretation zn: segment_scan zip_is_separator "\<lambda>_. False" zip_name_loop
  by unfold_locales auto

lemma zip_name_is_safe_segments:
  "zip_name_is_safe name \<longleftrightarrow>
     name \<noteq> [] \<and> 0 \<notin> set name \<and>
     list_all segment_ok (butlast (segments zip_is_separator name)) \<and>
     (segment_ok (last (segments zip_is_separator name)) \<or>
      last (segments zip_is_separator name) = [] \<and> last name = B_SLASH)"
proof (cases name)
  case (Cons c rest)
  let ?s = "segments zip_is_separator name"
  have fst_sep: "zip_is_separator c \<Longrightarrow> \<not> list_all segment_ok (butlast ?s)"
    using Cons by (simp add: segment_ok_def)
  have lastn: "name ! (length name - 1) = last name"
    using Cons by (simp add: last_conv_nth)
  show ?thesis
  proof (cases "list_all segment_ok (butlast ?s)")
    case False
    then have "zip_name_loop name name 0 0 = None" by (simp add: zn.loop_whole)
    with False show ?thesis by (simp add: zip_name_is_safe_def)
  next
    case True
    then have loop: "zip_name_loop name name 0 0 = Some (length (last ?s))"
      by (simp add: zn.loop_whole list_all_iff)
    from True fst_sep have hd_ok: "\<not> zip_is_separator (name ! 0)" using Cons by auto
    have nil: "last ?s = [] \<Longrightarrow> \<not> segment_ok (last ?s)" by (simp add: segment_ok_def)
    have ne: "name \<noteq> []" using Cons by simp
    show ?thesis
      using zn.final_look_back [of name] True hd_ok nil ne
      unfolding zip_name_is_safe_def Let_def loop lastn option.case length_0_conv
      by argo
  qed
qed (simp add: zip_name_is_safe_def)

section \<open>The entry table\<close>

text \<open>What the reader promises of an entry of the table, with its data at \<open>off\<close>.\<close>

definition entry_in_file :: "nat \<Rightarrow> zip_entry \<Rightarrow> nat \<Rightarrow> bool" where
  "entry_in_file file_size e off \<longleftrightarrow>
     zip_name_is_safe (ename e) \<and> \<not> zip_name_is_dir (ename e) \<and>
     (emethod e = 0 \<and> ecompressed_size e = euncompressed_size e \<or> emethod e = 8) \<and>
     eflags e AND 1 = 0 \<and>
     unat (elocal_offset e) + UNIFROG_ZIP_LH_FIXED + length (ename e) \<le> off \<and>
     off + unat (ecompressed_size e) \<le> file_size"

lemma scan_recordD:
  assumes "zip_scan_record cd cursor = Some (s, nx)"
  shows "zip_name_is_safe (sname s)" "sflags s AND 1 = 0"
    "skeep s \<longleftrightarrow> \<not> zip_name_is_dir (sname s) \<and> (smethod s = 0 \<or> smethod s = 8)"
    "smethod s = 0 \<Longrightarrow> scompressed_size s = suncompressed_size s"
    "cursor + UNIFROG_ZIP_CDH_FIXED \<le> nx" "nx \<le> length cd"
  using assms by (auto simp: zip_scan_record_def Let_def UNIFROG_ZIP_CDH_FIXED_def split: if_splits)

lemma scan_localD:
  assumes "zip_scan_local fs s f = (Some off, g)"
  shows "unat (slocal_offset s) + UNIFROG_ZIP_LH_FIXED + length (sname s) \<le> off"
    "off + unat (scompressed_size s) \<le> fs"
  using assms by (auto simp: zip_scan_local_def Let_def io_bind_Some_iff zip_range_within_file_def)

lemma scan_entryD:
  assumes "zip_scan_entry cd fs cursor f = (Some (s, nx), g)"
  obtains s0 off where "zip_scan_record cd cursor = Some (s0, nx)" "s = s0\<lparr>sdata_offset := off\<rparr>"
    "zip_scan_local fs s0 f = (Some off, g)"
  using assms by (auto simp: zip_scan_entry_def io_bind_Some_iff split: option.splits)

lemma scan_entry_in_file:
  assumes "zip_scan_entry cd fs cursor f = (Some (s, nx), g)" "skeep s"
  shows "entry_in_file fs (entry_of_scan s) (sdata_offset s)"
proof -
  from assms(1) obtain s0 off where s: "zip_scan_record cd cursor = Some (s0, nx)"
    "s = s0\<lparr>sdata_offset := off\<rparr>" "zip_scan_local fs s0 f = (Some off, g)" by (rule scan_entryD)
  with scan_recordD [OF s(1)] scan_localD [OF s(3)] assms(2) show ?thesis
    by (auto simp: entry_in_file_def entry_of_scan_def)
qed

text \<open>Both passes see the same records, so they count the same entries and name bytes.\<close>

lemma count_fill_agree:
  assumes "zip_count_loop n cd fs cur c ns f = (Some (cur', c', ns'), g)"
    and "zip_fill_loop n cd fs cur i nc es os f2 = (Some (i', nc', es', os'), g2)"
  shows "i' + c = i + c' \<and> nc' + ns = nc + ns'"
  using assms
proof (induction n arbitrary: cur c ns f i nc es os f2)
  case (Suc n)
  from Suc.prems(1) obtain s nx h where s: "zip_scan_entry cd fs cur f = (Some (s, nx), h)"
    and rest: "(if skeep s
       then io_bind (io_guard (\<not> (c = SIZE_MAX \<or> ns > SIZE_MAX - length (sname s) - 1)))
              (\<lambda>_. zip_count_loop n cd fs nx (Suc c) (ns + (length (sname s) + 1)))
       else zip_count_loop n cd fs nx c ns) h = (Some (cur', c', ns'), g)"
    by (auto simp: io_bind_Some_iff if_distrib [of "\<lambda>x. x _"])
  from Suc.prems(2) obtain s2 nx2 h2 where s2: "zip_scan_entry cd fs cur f2 = (Some (s2, nx2), h2)"
    and rest2: "(if skeep s2
       then zip_fill_loop n cd fs nx2 (Suc i) (nc + (length (sname s2) + 1))
              (es[i := entry_of_scan s2]) (os[i := sdata_offset s2])
       else zip_fill_loop n cd fs nx2 i nc es os) h2 = (Some (i', nc', es', os'), g2)"
    by (auto simp: io_bind_Some_iff if_distrib [of "\<lambda>x. x _"])
  from s s2 have eq: "nx2 = nx" "skeep s2 = skeep s" "sname s2 = sname s"
    by (auto elim!: scan_entryD)
  show ?case
  proof (cases "skeep s")
    case True
    with rest have "zip_count_loop n cd fs nx (Suc c) (ns + (length (sname s) + 1)) h
        = (Some (cur', c', ns'), g)"
      by (simp add: io_bind_Some_iff)
    with Suc.IH rest2 True eq show ?thesis by fastforce
  next
    case False
    with Suc.IH rest rest2 eq show ?thesis by fastforce
  qed
qed simp

lemma fill_loop_mono:
  "zip_fill_loop n cd fs cur i nc es os f = (Some (i', nc', es', os'), g) \<Longrightarrow>
   i \<le> i' \<and> nc \<le> nc' \<and> length es' = length es \<and> length os' = length os"
  by (induction n arbitrary: cur i nc es os f)
     (fastforce simp: io_bind_Some_iff split: if_splits)+

lemma fill_loop_entries:
  assumes "zip_fill_loop n cd fs cur i nc es os f = (Some (i', nc', es', os'), g)"
    and "i' \<le> length es" "length os = length es"
    and "\<forall>k < i. entry_in_file fs (es ! k) (os ! k)"
  shows "\<forall>k < i'. entry_in_file fs (es' ! k) (os' ! k)"
  using assms
proof (induction n arbitrary: cur i nc es os f)
  case (Suc n)
  from Suc.prems(1) obtain s nx h where s: "zip_scan_entry cd fs cur f = (Some (s, nx), h)"
    and rest: "(if skeep s
       then zip_fill_loop n cd fs nx (Suc i) (nc + (length (sname s) + 1))
              (es[i := entry_of_scan s]) (os[i := sdata_offset s])
       else zip_fill_loop n cd fs nx i nc es os) h = (Some (i', nc', es', os'), g)"
    by (auto simp: io_bind_Some_iff if_distrib [of "\<lambda>x. x _"])
  show ?case
  proof (cases "skeep s")
    case True
    with rest have r: "zip_fill_loop n cd fs nx (Suc i) (nc + (length (sname s) + 1))
        (es[i := entry_of_scan s]) (os[i := sdata_offset s]) h = (Some (i', nc', es', os'), g)" by simp
    from fill_loop_mono [OF r] Suc.prems(2,3) have "i < length es" "i < length os" by auto
    with scan_entry_in_file [OF s True] Suc.prems(4)
    have "\<forall>k < Suc i. entry_in_file fs (es[i := entry_of_scan s] ! k) (os[i := sdata_offset s] ! k)"
      by (simp add: less_Suc_eq nth_list_update)
    with Suc.IH [OF r] Suc.prems(2,3) show ?thesis by simp
  next
    case False
    with Suc.IH [of nx i nc es os h] rest Suc.prems show ?thesis by simp
  qed
qed simp

lemma zip_file_size_length:
  "zip_file_size f = (Some n, g) \<Longrightarrow> n = length (fbytes f) \<and> n \<le> LONG_MAX"
  by (auto simp: zip_file_size_def io_bind_Some_iff dest!: f_tellD f_seek_endD)

lemma zip_directory_size:
  "zip_directory mem f = (Some (fs, cd, n), g) \<Longrightarrow> fs = length (fbytes f) \<and> fs \<le> LONG_MAX"
  by (auto simp: zip_directory_def io_bind_Some_iff Let_def dest!: zip_file_size_length
      split: option.splits)

lemma zip_open_SomeD:
  assumes "zip_open_from_file mem own f = (Some impl, g, k)"
  obtains cd n i nc h1 h2 h3 where
    "zip_directory mem (snd (f_tell f)) = (Some (zfile_size impl, cd, n), h1)"
    "zip_count_loop n cd (zfile_size impl) 0 0 0 h1 = (Some (length cd, zentry_count impl, zname_storage impl), h2)"
    "zip_fill_loop n cd (zfile_size impl) 0 0 0 (replicate (zentry_count impl)
       \<lparr>ename = [], eflags = 0, emethod = 0, ecrc32 = 0, ecompressed_size = 0,
        euncompressed_size = 0, elocal_offset = 0\<rparr>) (replicate (zentry_count impl) 0) h2 =
       (Some (i, nc, zentries impl, zdata_offsets impl), h3)" "k = 0" "zowns_file impl = own"
  using assms
  by (auto simp: zip_open_from_file_def zip_open_fail_def Let_def split: prod.splits option.splits if_splits)

section \<open>Extracted data\<close>

text \<open>
  The documented behaviour of zlib that the extraction relies on: a checksum can be taken
  piece by piece, \<open>inflate\<close> answers \<open>Z_OK\<close> only when it took input or produced output, and
  it never produces more than \<open>avail_out\<close> bytes.
\<close>

definition crc_laws :: "'z zlib \<Rightarrow> bool" where
  "crc_laws zl \<longleftrightarrow> (\<forall>c. z_crc zl c [] = c) \<and>
     (\<forall>c a b. z_crc zl (z_crc zl c a) b = z_crc zl c (a @ b))"

definition inflate_progress :: "'z zlib \<Rightarrow> bool" where
  "inflate_progress zl \<longleftrightarrow>
     (\<forall>finish inb z used produced z'.
        z_inflate zl finish inb UNIFROG_ZIP_IO_CHUNK z = (Z_OK, used, produced, z') \<longrightarrow>
        0 < used \<or> produced \<noteq> [])"

definition inflate_fits :: "'z zlib \<Rightarrow> bool" where
  "inflate_fits zl \<longleftrightarrow>
     (\<forall>finish inb avail z. length (fst (snd (snd (z_inflate zl finish inb avail z)))) \<le> avail)"

definition at_end :: "cfile \<Rightarrow> bool" where
  "at_end f \<longleftrightarrow> fpos f = length (fbytes f)"

text \<open>\<open>d\<close> was appended to the output, and the checksum went from \<open>c\<close> to \<open>c'\<close> over it.\<close>

definition emitted :: "'z zlib \<Rightarrow> cfile \<Rightarrow> bytes \<Rightarrow> cfile \<Rightarrow> u32 \<Rightarrow> u32 \<Rightarrow> bool" where
  "emitted zl out d out' c c' \<longleftrightarrow>
     at_end out' \<and> fbytes out' = fbytes out @ d \<and> c' = z_crc zl c d"

lemma emitted_refl: "crc_laws zl \<Longrightarrow> at_end out \<Longrightarrow> emitted zl out [] out c c"
  by (simp add: emitted_def crc_laws_def)

lemma emitted_trans:
  "crc_laws zl \<Longrightarrow> emitted zl a d b c c' \<Longrightarrow> emitted zl b d' e c' c'' \<Longrightarrow> emitted zl a (d @ d') e c c''"
  by (simp add: emitted_def crc_laws_def)

lemma emitted_at_end: "emitted zl a d b c c' \<Longrightarrow> at_end b"
  by (simp add: emitted_def)

lemma f_write_emitted:
  "f_write d out = (Some u, out') \<Longrightarrow> at_end out \<Longrightarrow> emitted zl out d out' c (z_crc zl c d)"
  by (auto simp: emitted_def at_end_def dest!: f_writeD)

lemma zip_read_exactD:
  "zip_read_exact n f = (Some buf, g) \<Longrightarrow> 0 < n \<Longrightarrow>
   length buf = n \<and> fbytes g = fbytes f \<and> buf = take n (drop (fpos f) (fbytes f)) \<and> fpos g = fpos f + n"
  by (auto simp: zip_read_exact_def split: prod.splits if_splits dest!: f_readD)

lemma copy_stored_emits:
  assumes "zip_copy_stored zl n c inp out = (Some c', inp', out')" "at_end out" "crc_laws zl"
  shows "emitted zl out (take n (drop (fpos inp) (fbytes inp))) out' c c' \<and>
    length (take n (drop (fpos inp) (fbytes inp))) = n"
  using assms
proof (induction zl n c inp out rule: zip_copy_stored.induct)
  case (1 zl n c inp out)
  let ?k = "if n < UNIFROG_ZIP_IO_CHUNK then n else UNIFROG_ZIP_IO_CHUNK"
  show ?case
  proof (cases "n = 0")
    case True
    with "1.prems" show ?thesis
      by (simp add: zip_copy_stored.simps [of zl 0 c inp out] emitted_refl)
  next
    case False
    then have k: "0 < ?k" "?k \<le> n" by (auto simp: UNIFROG_ZIP_IO_CHUNK_def)
    from "1.prems"(1) False obtain buf inp1 u out1 where
      r: "zip_read_exact ?k inp = (Some buf, inp1)" and w: "f_write buf out = (Some u, out1)"
      and rec: "zip_copy_stored zl (n - ?k) (z_crc zl c buf) inp1 out1 = (Some c', inp', out')"
      by (auto simp: zip_copy_stored.simps [of zl n c inp out] Let_def split: prod.splits option.splits)
    let ?rest = "take (n - ?k) (drop (fpos inp1) (fbytes inp1))"
    note e1 = f_write_emitted [OF w "1.prems"(2), of zl c]
    from "1.IH" [OF False refl r [symmetric] refl w [symmetric] refl rec emitted_at_end [OF e1] "1.prems"(3)]
    have e2: "emitted zl out1 ?rest out' (z_crc zl c buf) c'" "length ?rest = n - ?k" by auto
    from zip_read_exactD [OF r k(1)] have rd: "length buf = ?k" "fbytes inp1 = fbytes inp"
      "buf = take ?k (drop (fpos inp) (fbytes inp))" "fpos inp1 = fpos inp + ?k" by blast+
    have "take n (drop (fpos inp) (fbytes inp)) = buf @ ?rest"
      using take_add [of ?k "n - ?k" "drop (fpos inp) (fbytes inp)"] k(2)
      unfolding rd(2,4) rd(3) [symmetric] drop_drop
      by (simp only: add.commute le_add_diff_inverse)
    with emitted_trans [OF "1.prems"(3) e1 e2(1)] e2(2) rd(1) k(2)
    show ?thesis by simp
  qed
qed

text \<open>
  The 32-bit counter. \<open>counted zl us n d n'\<close>: after the bytes \<open>d\<close> the counter went from \<open>n\<close> to
  \<open>n'\<close> modulo \<open>2 ^ 32\<close>, and exactly, staying below the recorded size \<open>us\<close>, when one more
  buffer than \<open>us\<close> still fits below \<open>2 ^ 32\<close>.
\<close>

definition size_no_wrap :: "u32 \<Rightarrow> bool" where
  "size_no_wrap us \<longleftrightarrow> unat us + UNIFROG_ZIP_IO_CHUNK < 2 ^ 32"

definition counted :: "'z zlib \<Rightarrow> u32 \<Rightarrow> u32 \<Rightarrow> bytes \<Rightarrow> u32 \<Rightarrow> bool" where
  "counted zl us n d n' \<longleftrightarrow> n' = n + word_of_nat (length d) \<and>
     (inflate_fits zl \<longrightarrow> size_no_wrap us \<longrightarrow> n \<le> us \<longrightarrow> n' \<le> us \<and> unat n' = unat n + length d)"

lemma counted_refl: "counted zl us n [] n"
  by (simp add: counted_def)

lemma counted_trans: "counted zl us a d b \<Longrightarrow> counted zl us b e c \<Longrightarrow> counted zl us a (d @ e) c"
  by (auto simp: counted_def)

lemma unat_add_small:
  fixes a :: u32
  assumes "unat a + k < 2 ^ 32"
  shows "unat (a + word_of_nat k) = unat a + k"
proof -
  have "unat (word_of_nat k :: u32) = k"
    using assms by (simp add: unat_of_nat)
  with assms show ?thesis by (simp add: unat_word_ariths)
qed

lemma inflate_call_emits:
  assumes "inflate_call zl us fin inb (c, n, z) out = (Some (r, inb', k, c', n', z'), out')"
  shows "\<exists>d. k = length d \<and> n' \<le> us \<and> counted zl us n d n' \<and>
    (at_end out \<longrightarrow> crc_laws zl \<longrightarrow> emitted zl out d out' c c')"
proof -
  obtain r1 used d z1 where z: "z_inflate zl fin inb UNIFROG_ZIP_IO_CHUNK z = (r1, used, d, z1)"
    by (metis prod_cases4)
  with assms have n': "n' = n + word_of_nat (length d)" "n' \<le> us" "k = length d"
    by (auto simp: inflate_call_def Let_def io_bind_Some_iff split: if_splits)
  have "unat n' = unat n + length d" if "inflate_fits zl" "size_no_wrap us" "n \<le> us"
  proof -
    from \<open>inflate_fits zl\<close> have "length d \<le> UNIFROG_ZIP_IO_CHUNK"
      using z unfolding inflate_fits_def by (metis fst_conv snd_conv)
    with that(2,3) show ?thesis
      unfolding n'(1) size_no_wrap_def word_le_nat_alt by (intro unat_add_small) linarith
  qed
  with n' have "counted zl us n d n'" by (simp add: counted_def)
  moreover from z assms have "at_end out \<longrightarrow> crc_laws zl \<longrightarrow> emitted zl out d out' c c'"
    by (auto simp: inflate_call_def Let_def inflate_emit_def io_bind_Some_iff emitted_refl f_write_emitted
         split: if_splits)
  ultimately show ?thesis using n' by blast
qed

text \<open>A run of the stream from the state \<open>(c, n)\<close> to \<open>(c', n')\<close> that appends \<open>d\<close> to the output.\<close>

definition stream_run ::
  "'z zlib \<Rightarrow> u32 \<Rightarrow> cfile \<Rightarrow> bytes \<Rightarrow> cfile \<Rightarrow> u32 \<Rightarrow> u32 \<Rightarrow> u32 \<Rightarrow> u32 \<Rightarrow> bool" where
  "stream_run zl us out d out' c c' n n' \<longleftrightarrow> counted zl us n d n' \<and>
     (at_end out \<longrightarrow> crc_laws zl \<longrightarrow> emitted zl out d out' c c')"

lemma stream_run_refl: "stream_run zl us out [] out c c n n"
  by (simp add: stream_run_def counted_refl emitted_refl)

lemma stream_run_trans:
  "stream_run zl us o1 d o2 c1 c2 n1 n2 \<Longrightarrow> stream_run zl us o2 e o3 c2 c3 n2 n3 \<Longrightarrow>
   stream_run zl us o1 (d @ e) o3 c1 c3 n1 n3"
  by (meson stream_run_def counted_trans emitted_trans emitted_at_end)

lemma inflate_call_run:
  "inflate_call zl us fin inb (c, n, z) out = (Some (r, inb', k, c', n', z'), out') \<Longrightarrow>
   \<exists>d. k = length d \<and> n' \<le> us \<and> stream_run zl us out d out' c c' n n'"
  using inflate_call_emits by (fastforce simp: stream_run_def)

lemma inflate_feed_run:
  assumes "inflate_feed zl us rm r inb (c, n, z) out = Some (Some (r', c', n', z'), out')"
  shows "\<exists>d. stream_run zl us out d out' c c' n n'"
proof -
  have "res = (Some (r', c', n', z'), out') \<Longrightarrow> st = (c, n, z) \<Longrightarrow>
      \<exists>d. stream_run zl us out d out' c c' n n'"
    if "inflate_feed zl us rm r inb st out = Some res" for st res
    using that
  proof (induction arbitrary: c n z rule: inflate_feed.raw_induct [rotated 1, consumes 1])
    case (1 feed zl us rm r inb st out res)
    show ?case
    proof (cases "inb = []")
      case True
      with 1 stream_run_refl show ?thesis by fastforce
    next
      case False
      with 1 obtain r1 inb1 k1 c1 n1 z1 out1 where
        call: "inflate_call zl us False inb (c, n, z) out = (Some (r1, inb1, k1, c1, n1, z1), out1)"
        by (auto split: prod.splits option.splits)
      from inflate_call_run [OF call] obtain d1 where d1: "stream_run zl us out d1 out1 c c1 n n1"
        by auto
      show ?thesis
      proof (cases "r1 = Z_STREAM_END")
        case True
        with 1 False call d1 show ?thesis by (auto split: if_splits)
      next
        case rec: False
        with 1 False call have "feed zl us rm r1 inb1 (c1, n1, z1) out1 = Some res" by simp
        from "1.IH" [OF this "1.prems"(1) refl] d1 stream_run_trans show ?thesis by blast
      qed
    qed
  qed
  with assms show ?thesis by blast
qed

lemma inflate_input_run:
  assumes "inflate_input zl us rm r (c, n, z) inp out = Some (Some (r', c', n', z'), inp', out')"
  shows "\<exists>d. stream_run zl us out d out' c c' n n'"
  using assms
proof (induction zl us rm r "(c, n, z)" inp out arbitrary: c n z rule: inflate_input.induct)
  case (1 zl us rm r inp out)
  let ?k = "if rm < UNIFROG_ZIP_IO_CHUNK then rm else UNIFROG_ZIP_IO_CHUNK"
  note unf = inflate_input.simps [of zl us rm r "(c, n, z)" inp out]
  show ?case
  proof (cases "rm = 0")
    case True
    with "1.prems" stream_run_refl show ?thesis unfolding unf by fastforce
  next
    case False
    with "1.prems" obtain buf inp1 r1 c1 n1 z1 out1 where
      rd: "zip_read_exact ?k inp = (Some buf, inp1)" and
      fd: "inflate_feed zl us (rm - ?k) r buf (c, n, z) out = Some (Some (r1, c1, n1, z1), out1)"
      by (auto simp: unf Let_def split: prod.splits option.splits)
    from inflate_feed_run [OF fd] obtain d1 where d1: "stream_run zl us out d1 out1 c c1 n n1" by blast
    show ?thesis
    proof (cases "r1 = Z_STREAM_END")
      case True
      with "1.prems" False rd fd d1 show ?thesis by (auto simp: unf Let_def)
    next
      case go: False
      with "1.prems" False rd fd
      have rec: "inflate_input zl us (rm - ?k) r1 (c1, n1, z1) inp1 out1
          = Some (Some (r', c', n', z'), inp', out')"
        by (simp add: unf Let_def)
      from "1.hyps" [OF False refl rd [symmetric] refl fd refl refl refl go rec] d1 stream_run_trans
      show ?thesis by blast
    qed
  qed
qed

lemma inflate_finish_run:
  assumes "inflate_finish zl us r (c, n, z) out = Some (Some (r', c', n', z'), out')"
  shows "\<exists>d. stream_run zl us out d out' c c' n n'"
proof -
  have "res = (Some (r', c', n', z'), out') \<Longrightarrow> st = (c, n, z) \<Longrightarrow>
      \<exists>d. stream_run zl us out d out' c c' n n'"
    if "inflate_finish zl us r st out = Some res" for st res
    using that
  proof (induction arbitrary: c n z rule: inflate_finish.raw_induct [rotated 1, consumes 1])
    case (1 drain zl us r st out res)
    show ?case
    proof (cases "r = Z_STREAM_END")
      case True
      with 1 stream_run_refl show ?thesis by fastforce
    next
      case False
      with 1 obtain r1 inb1 k1 c1 n1 z1 out1 where
        call: "inflate_call zl us True [] (c, n, z) out = (Some (r1, inb1, k1, c1, n1, z1), out1)"
        by (auto split: prod.splits option.splits)
      with 1 False have "drain zl us r1 (c1, n1, z1) out1 = Some res" by (auto split: if_splits)
      from "1.IH" [OF this "1.prems"(1) refl] inflate_call_run [OF call] stream_run_trans show ?thesis
        by blast
    qed
  qed
  with assms show ?thesis by blast
qed

text \<open>
  Termination. The counter bounds the output of a stream as long as it cannot wrap, so the
  bytes still allowed and the bytes still unread make up a measure.
\<close>

lemma inflate_call_room:
  assumes "inflate_call zl us fin inb (c, n, z) out = (Some (r, inb', k, c', n', z'), out')"
    and "inflate_fits zl" "size_no_wrap us" "n \<le> us"
  shows "n' \<le> us" "unat us - unat n' + k = unat us - unat n" "unat n' \<le> unat us"
proof -
  obtain d where d: "k = length d" "n' \<le> us" "counted zl us n d n'"
    using inflate_call_emits [OF assms(1)] by blast
  with assms(2-4) have "unat n' = unat n + k" unfolding counted_def by blast
  moreover from d(2) show "n' \<le> us" "unat n' \<le> unat us" by (simp_all add: word_le_nat_alt)
  ultimately show "unat us - unat n' + k = unat us - unat n" by linarith
qed

lemma inflate_call_progress:
  assumes "inflate_call zl us fin inb (c, n, z) out = (Some (Z_OK, inb', k, c', n', z'), out')"
    and "inflate_progress zl" "inb \<noteq> []"
  shows "length inb' + 1 \<le> length inb + k"
proof -
  obtain r1 used d z1 where z: "z_inflate zl fin inb UNIFROG_ZIP_IO_CHUNK z = (r1, used, d, z1)"
    by (metis prod_cases4)
  with assms have "r1 = Z_OK" "inb' = drop used inb" "k = length d"
    by (auto simp: inflate_call_def Let_def io_bind_Some_iff split: if_splits)
  moreover from z \<open>r1 = Z_OK\<close> assms(2) have "0 < used \<or> d \<noteq> []"
    unfolding inflate_progress_def by blast
  ultimately show ?thesis using assms(3) by (cases inb; cases d) auto
qed

lemma inflate_feed_returns:
  assumes "inflate_progress zl" "inflate_fits zl" "size_no_wrap us" "n \<le> us"
  shows "\<exists>res. inflate_feed zl us rm r inb (c, n, z) out = Some res"
  using assms(4)
proof (induction "length inb + 2 * (unat us - unat n)" arbitrary: r inb c n z out rule: less_induct)
  case less
  note unf = inflate_feed.simps [of zl us rm r inb "(c, n, z)" out]
  obtain res1 out1 where call: "inflate_call zl us False inb (c, n, z) out = (res1, out1)"
    by (metis surj_pair)
  show ?case
  proof (cases "inb = [] \<or> res1 = None")
    case True
    with call show ?thesis by (auto simp: inflate_feed.simps)
  next
    case False
    then obtain r1 inb1 k1 c1 n1 z1 where a: "res1 = Some (r1, inb1, k1, c1, n1, z1)"
      by (cases res1) auto
    note room = inflate_call_room [OF call [unfolded a] assms(2,3) less.prems]
    show ?thesis
    proof (cases "r1 = Z_STREAM_END")
      case True
      with False call a show ?thesis by (auto simp: unf)
    next
      case go: False
      have "r1 \<noteq> Z_ERROR"
        using call a by (auto simp: inflate_call_def Let_def io_bind_Some_iff split: prod.splits if_splits)
      with go have "r1 = Z_OK" by (cases r1) auto
      with inflate_call_progress [of zl us False inb] call a assms(1) False
      have "length inb1 + 1 \<le> length inb + k1" by blast
      moreover have "length inb1 \<le> length inb"
        using call a by (auto simp: inflate_call_def Let_def io_bind_Some_iff split: prod.splits if_splits)
      ultimately have "length inb1 + 2 * (unat us - unat n1) < length inb + 2 * (unat us - unat n)"
        using room(2) by linarith
      from less.hyps [OF this room(1), of r1 c1 z1 out1] False call a go show ?thesis
        by (simp add: unf)
    qed
  qed
qed

lemma stream_run_room:
  "stream_run zl us out d out' c c' n n' \<Longrightarrow> inflate_fits zl \<Longrightarrow> size_no_wrap us \<Longrightarrow> n \<le> us \<Longrightarrow> n' \<le> us"
  unfolding stream_run_def counted_def by blast

lemma inflate_input_returns:
  assumes "inflate_progress zl" "inflate_fits zl" "size_no_wrap us" "n \<le> us"
  shows "\<exists>res. inflate_input zl us rm r (c, n, z) inp out = Some res"
  using assms(4)
proof (induction rm arbitrary: r c n z inp out rule: less_induct)
  case (less rm)
  let ?k = "if rm < UNIFROG_ZIP_IO_CHUNK then rm else UNIFROG_ZIP_IO_CHUNK"
  note unf = inflate_input.simps [of zl us rm r "(c, n, z)" inp out]
  obtain rd inp1 where rd: "zip_read_exact ?k inp = (rd, inp1)" by (metis surj_pair)
  show ?case
  proof (cases "rm = 0 \<or> rd = None")
    case True
    with rd show ?thesis by (auto simp: inflate_input.simps Let_def)
  next
    case False
    then obtain buf where buf: "rd = Some buf" by auto
    from inflate_feed_returns [OF assms(1-3) less.prems, of "rm - ?k" r buf c z out]
    obtain fd out1 where fd: "inflate_feed zl us (rm - ?k) r buf (c, n, z) out = Some (fd, out1)"
      by (metis surj_pair)
    show ?thesis
    proof (cases fd)
      case None
      with False rd buf fd show ?thesis by (simp add: unf Let_def)
    next
      case (Some a)
      then obtain r1 c1 n1 z1 where a: "fd = Some (r1, c1, n1, z1)" by (cases a) auto
      from inflate_feed_run [OF fd [unfolded a]] stream_run_room assms(2,3) less.prems
      have "n1 \<le> us" by blast
      moreover have "rm - ?k < rm" using False by (auto simp: UNIFROG_ZIP_IO_CHUNK_def)
      ultimately show ?thesis
        using less.IH [of "rm - ?k" n1 r1 c1 z1 inp1 out1] False rd buf fd a
        by (auto simp: unf Let_def)
    qed
  qed
qed

lemma inflate_finish_returns:
  assumes "inflate_fits zl" "size_no_wrap us" "n \<le> us"
  shows "\<exists>res. inflate_finish zl us r (c, n, z) out = Some res"
  using assms(3)
proof (induction "unat us - unat n" arbitrary: r c n z out rule: less_induct)
  case less
  note unf = inflate_finish.simps [of zl us r "(c, n, z)" out]
  obtain res1 out1 where call: "inflate_call zl us True [] (c, n, z) out = (res1, out1)"
    by (metis surj_pair)
  show ?case
  proof (cases "r = Z_STREAM_END \<or> res1 = None")
    case True
    with call show ?thesis by (auto simp: unf)
  next
    case False
    then obtain r1 inb1 k1 c1 n1 z1 where a: "res1 = Some (r1, inb1, k1, c1, n1, z1)"
      by (cases res1) auto
    note room = inflate_call_room [OF call [unfolded a] assms(1,2) less.prems]
    consider "k1 = 0" "r1 \<noteq> Z_STREAM_END" | "r1 = Z_STREAM_END" | "0 < k1" by auto
    then show ?thesis
    proof cases
      case 3
      with room(2) have "unat us - unat n1 < unat us - unat n" by linarith
      from less.hyps [OF this room(1), of r1 c1 z1 out1] False call a 3 show ?thesis
        by (simp add: unf)
    qed (use False call a in \<open>auto simp: unf inflate_finish.simps [of zl us Z_STREAM_END]\<close>)
  qed
qed

text \<open>A run of \<open>zip_inflate_raw\<close> is a run of the input loop and then of the draining loop.\<close>

lemma inflate_raw_emits:
  assumes "zip_inflate_raw zl cs us inp out = Some (Some c', inp', out')"
    and "at_end out" "crc_laws zl"
  shows "\<exists>d. emitted zl out d out' (z_crc0 zl) c' \<and> word_of_nat (length d) = us \<and>
    (inflate_fits zl \<longrightarrow> size_no_wrap us \<longrightarrow> length d = unat us)"
proof -
  from assms(1) obtain z r1 c1 n1 z1 out1 r2 z2 where
    i: "inflate_input zl us (unat cs) Z_OK (z_crc0 zl, 0, z) inp out
          = Some (Some (r1, c1, n1, z1), inp', out1)" and
    f: "inflate_finish zl us r1 (c1, n1, z1) out1 = Some (Some (r2, c', us, z2), out')"
    by (auto simp: zip_inflate_raw_def split: option.splits if_splits)
  from inflate_input_run [OF i] inflate_finish_run [OF f] obtain d
    where "stream_run zl us out d out' (z_crc0 zl) c' 0 us"
    using stream_run_trans by blast
  with assms(2,3) show ?thesis
    by (intro exI [of _ d]) (auto simp: stream_run_def counted_def)
qed

lemma inflate_raw_returns:
  assumes "inflate_progress zl" "inflate_fits zl" "size_no_wrap us"
  shows "\<exists>res. zip_inflate_raw zl cs us inp out = Some res"
proof (cases "z_init zl")
  case (Some z)
  from inflate_input_returns [OF assms, of 0] obtain ri inp1 out1 where
    i: "inflate_input zl us (unat cs) Z_OK (z_crc0 zl, 0, z) inp out = Some (ri, inp1, out1)"
    by (metis prod_cases3 word_zero_le)
  show ?thesis
  proof (cases ri)
    case (Some a)
    then obtain r1 c1 n1 z1 where a: "ri = Some (r1, c1, n1, z1)" by (cases a) auto
    from inflate_input_run [OF i [unfolded a]] stream_run_room [OF _ assms(2,3)] have "n1 \<le> us"
      by (meson word_zero_le)
    from inflate_finish_returns [OF assms(2,3) this, of r1 c1 z1 out1] i a \<open>z_init zl = Some z\<close>
    show ?thesis by (auto simp: zip_inflate_raw_def split: option.splits)
  qed (use i \<open>z_init zl = Some z\<close> in \<open>simp add: zip_inflate_raw_def\<close>)
qed (simp add: zip_inflate_raw_def)

end
