(* ===== verification/UF_ZipWriter.thy ===== *)
theory UF_ZipWriter
  imports UF_Zip
begin

text \<open>
  The streaming, store-only ZIP writer of \<open>foundation/src/archive/unifrog_zip_writer.c\<close>: an
  entry is a local header with empty size fields, the name and the data; the checksum and
  the sizes are patched into the header afterwards; closing appends the central directory
  and the end record.

  \<open>count\<close> is the length of the entry list. The outcome of an allocation is an argument, the
  result of \<open>localtime\<close> is an argument (\<open>None\<close>: a null pointer), zlib is the record \<open>zlib\<close>
  of the reader.
\<close>

section \<open>Definitions\<close>

definition ZIP_LOCAL_SIGNATURE :: u32 where "ZIP_LOCAL_SIGNATURE = 0x04034b50"
definition ZIP_CENTRAL_SIGNATURE :: u32 where "ZIP_CENTRAL_SIGNATURE = 0x02014b50"
definition ZIP_END_SIGNATURE :: u32 where "ZIP_END_SIGNATURE = 0x06054b50"
definition ZIP_VERSION :: u16 where "ZIP_VERSION = 20"
definition ZIP_IO_BYTES :: nat where "ZIP_IO_BYTES = 4096"
definition ZIP_NAME_MAX :: nat where "ZIP_NAME_MAX = 255"
definition ZIP_ENTRY_MAX :: nat where "ZIP_ENTRY_MAX = 256"
definition UINT32_MAX :: nat where "UINT32_MAX = 4294967295"

record zip_writer_entry =
  wname :: bytes
  wcrc32 :: u32
  wsize :: u32
  wlocal_offset :: u32
  wdos_date :: u16
  wdos_time :: u16

record zip_writer =
  wfile :: cfile
  wpath :: string
  wentries :: "zip_writer_entry list"
  wcapacity :: nat
  wpending_dos_date :: u16
  wpending_dos_time :: u16

record tm =
  tm_year :: int
  tm_mon :: int
  tm_mday :: int
  tm_hour :: int
  tm_min :: int
  tm_sec :: int

definition writer_dos_time :: "tm option \<Rightarrow> u16 \<times> u16" where
  "writer_dos_time value =
     (case value of
        None \<Rightarrow> (0x0021, 0)
      | Some v \<Rightarrow>
        if tm_year v < 80 then (0x0021, 0)
        else let year0 = (of_int (tm_year v + 1900) :: u32);
                 year = (if year0 > 2107 then 2107 else year0)
             in (ucast (push_bit 9 (year - 1980) OR push_bit 5 (of_int (tm_mon v + 1) :: u32)
                        OR of_int (tm_mday v)),
                 ucast (push_bit 11 (of_int (tm_hour v) :: u32) OR push_bit 5 (of_int (tm_min v))
                        OR drop_bit 1 (of_int (tm_sec v)))))"

definition write_exact :: "bytes \<Rightarrow> cfile \<Rightarrow> unit option \<times> cfile" where
  "write_exact data f = (if data = [] then (Some (), f) else f_write data f)"

definition on_file :: "(cfile \<Rightarrow> 'a option \<times> cfile) \<Rightarrow> zip_writer \<Rightarrow> 'a option \<times> zip_writer" where
  "on_file m w = (let (r, f) = m (wfile w) in (r, w\<lparr>wfile := f\<rparr>))"

definition writer_char_bad :: "u8 \<Rightarrow> bool" where
  "writer_char_bad c \<longleftrightarrow> c = B_BACKSLASH \<or> c = B_COLON \<or> c = 0x0d \<or> c = 0x0a \<or> c = 0"

fun writer_name_loop :: "bytes \<Rightarrow> bytes \<Rightarrow> nat \<Rightarrow> nat \<Rightarrow> nat option" where
  "writer_name_loop name [] i segment = Some segment"
| "writer_name_loop name (c # rest) i segment =
     (if writer_char_bad c then None
      else if c = B_SLASH
      then if segment = 0 \<or> segment = 1 \<and> name ! (i - 1) = B_DOT \<or>
              segment = 2 \<and> name ! (i - 2) = B_DOT \<and> name ! (i - 1) = B_DOT
           then None
           else writer_name_loop name rest (Suc i) 0
      else writer_name_loop name rest (Suc i) (Suc segment))"

definition writer_name_valid :: "bytes \<Rightarrow> bool" where
  "writer_name_valid name =
     (if name = [] \<or> name ! 0 = B_SLASH \<or> name ! 0 = B_BACKSLASH then False
      else if length name > ZIP_NAME_MAX then False
      else (case writer_name_loop name name 0 0 of
              None \<Rightarrow> False
            | Some segment \<Rightarrow>
                segment > 0 \<and> \<not> (segment = 1 \<and> name ! (length name - 1) = B_DOT) \<and>
                \<not> (segment = 2 \<and> name ! (length name - 2) = B_DOT \<and> name ! (length name - 1) = B_DOT)))"

definition writer_reserve :: "bool \<Rightarrow> zip_writer \<Rightarrow> unit option \<times> zip_writer" where
  "writer_reserve realloc_ok w =
     (if length (wentries w) < wcapacity w then (Some (), w)
      else if wcapacity w \<ge> ZIP_ENTRY_MAX then (None, w)
      else let capacity0 = (if wcapacity w \<noteq> 0 then wcapacity w * 2 else 16);
               capacity = (if capacity0 > ZIP_ENTRY_MAX then ZIP_ENTRY_MAX else capacity0)
           in if \<not> realloc_ok then (None, w) else (Some (), w\<lparr>wcapacity := capacity\<rparr>))"

definition writer_local_header :: "u16 \<Rightarrow> u16 \<Rightarrow> nat \<Rightarrow> bytes" where
  "writer_local_header dos_date dos_time name_len =
     poke 26 (put16 (of_nat name_len))
      (poke 12 (put16 dos_date)
       (poke 10 (put16 dos_time)
        (poke 4 (put16 ZIP_VERSION)
         (poke 0 (put32 ZIP_LOCAL_SIGNATURE) (replicate 30 0)))))"

definition writer_begin_entry ::
  "bool \<Rightarrow> tm option \<Rightarrow> bytes \<Rightarrow> zip_writer \<Rightarrow> nat option \<times> zip_writer" where
  "writer_begin_entry realloc_ok now name =
     io_bind (io_guard (writer_name_valid name)) (\<lambda>_.
     io_bind (writer_reserve realloc_ok) (\<lambda>_.
     io_bind (on_file f_tell) (\<lambda>offset.
     io_bind (io_guard (\<not> offset > UINT32_MAX)) (\<lambda>_.
     let (dos_date, dos_time) = writer_dos_time now in
     io_bind (\<lambda>w. io_ret () (w\<lparr>wpending_dos_date := dos_date, wpending_dos_time := dos_time\<rparr>)) (\<lambda>_.
     io_bind (on_file (write_exact (writer_local_header dos_date dos_time (length name)))) (\<lambda>_.
     io_bind (on_file (write_exact name)) (\<lambda>_.
     io_ret offset)))))))"

definition writer_finish_entry ::
  "bool \<Rightarrow> bytes \<Rightarrow> nat \<Rightarrow> u32 \<Rightarrow> u32 \<Rightarrow> zip_writer \<Rightarrow> unit option \<times> zip_writer" where
  "writer_finish_entry malloc_ok name header_offset crc sz =
     io_bind (on_file f_tell) (\<lambda>end_pos.
     io_bind (on_file (f_seek_set (header_offset + 14))) (\<lambda>_.
     io_bind (on_file (write_exact (put32 crc @ put32 sz @ put32 sz))) (\<lambda>_.
     io_bind (on_file (f_seek_set end_pos)) (\<lambda>_.
     io_bind (io_guard malloc_ok) (\<lambda>_ w.
       io_ret () (w\<lparr>wentries := wentries w @
         [\<lparr>wname = name, wcrc32 = crc, wsize = sz, wlocal_offset = of_nat header_offset,
           wdos_date = wpending_dos_date w, wdos_time = wpending_dos_time w\<rparr>]\<rparr>))))))"

text \<open>
  \<open>calloc_ok\<close> and \<open>malloc_ok\<close> are the two allocations, \<open>opened\<close> tells whether
  \<open>fopen (path, "w+b")\<close> succeeded.
\<close>

definition unifrog_zip_writer_open_path ::
  "bool \<Rightarrow> bool \<Rightarrow> string \<Rightarrow> cfile option \<Rightarrow> zip_writer option" where
  "unifrog_zip_writer_open_path calloc_ok malloc_ok path opened =
     (if path = [] then None
      else if \<not> calloc_ok then None
      else if \<not> malloc_ok then None
      else map_option (\<lambda>f. \<lparr>wfile = f, wpath = path, wentries = [], wcapacity = 0,
                            wpending_dos_date = 0, wpending_dos_time = 0\<rparr>) opened)"

definition unifrog_zip_writer_add_data ::
  "'z zlib \<Rightarrow> bool \<Rightarrow> bool \<Rightarrow> tm option \<Rightarrow> bytes \<Rightarrow> bytes \<Rightarrow> zip_writer \<Rightarrow> unit option \<times> zip_writer" where
  "unifrog_zip_writer_add_data zl realloc_ok malloc_ok now name data =
     io_bind (io_guard (\<not> length data > UINT32_MAX)) (\<lambda>_.
     io_bind (writer_begin_entry realloc_ok now name) (\<lambda>offset.
     io_bind (on_file (write_exact data)) (\<lambda>_.
     writer_finish_entry malloc_ok name offset (z_crc zl (z_crc0 zl) data) (of_nat (length data)))))"

text \<open>
  The copy loop of \<open>unifrog_zip_writer_add_path\<close>. A read that fails gives no bytes and sets
  the error flag of the input.
\<close>

definition f_read_flag :: "nat \<Rightarrow> cfile \<Rightarrow> bytes \<times> bool \<times> cfile" where
  "f_read_flag n f = (let (buf, g) = f_read n f in (buf, fst (io_fault f), g))"

lemma f_read_flag_full:
  assumes "f_read_flag n f = (buf, bad, g)" "length buf = n" "0 < n"
  shows "length (fbytes g) - fpos g < length (fbytes f) - fpos f"
proof -
  from assms have r: "f_read n f = (buf, g)" by (auto simp: f_read_flag_def split: prod.splits)
  have "buf \<noteq> []" using assms(2,3) by auto
  with f_readD [OF r] have "buf = take n (drop (fpos f) (fbytes f))" "fpos g = fpos f + length buf"
    "fbytes g = fbytes f" by auto
  moreover have "n \<le> length (fbytes f) - fpos f"
    using calculation(1) assms(2) by (metis length_drop length_take min.cobounded1)
  ultimately show ?thesis using assms by simp
qed

function add_path_loop ::
  "'z zlib \<Rightarrow> cfile \<Rightarrow> u32 \<Rightarrow> u32 \<Rightarrow> zip_writer \<Rightarrow> (u32 \<times> u32) option \<times> zip_writer" where
  "add_path_loop zl inp crc tot w =
     (case f_read_flag ZIP_IO_BYTES inp of
        (got, failed, inp') \<Rightarrow>
          (case on_file (write_exact got) w of
             (None, w') \<Rightarrow> (None, w')
           | (Some _, w') \<Rightarrow>
               let crc' = (if got = [] then crc else z_crc zl crc got);
                   tot' = tot + of_nat (length got)
               in if length got < ZIP_IO_BYTES
                  then (if failed then (None, w') else (Some (crc', tot'), w'))
                  else add_path_loop zl inp' crc' tot' w'))"
  by pat_completeness auto
termination
proof (relation "measure (\<lambda>(z, f, c, s, w). length (fbytes f) - fpos f)", goal_cases)
  case (2 zl inp crc tot w got rest failed inp')
  then show ?case
    using f_read_flag_full [of ZIP_IO_BYTES inp got failed inp'] f_readD [of ZIP_IO_BYTES inp got inp']
    by (auto simp: f_read_flag_def ZIP_IO_BYTES_def split: prod.splits)
qed simp

declare add_path_loop.simps [simp del]

text \<open>\<open>st\<close> is the result of \<open>stat\<close> (regular file, size), \<open>opened\<close> the result of \<open>fopen\<close>.\<close>

definition unifrog_zip_writer_add_path ::
  "'z zlib \<Rightarrow> bool \<Rightarrow> bool \<Rightarrow> tm option \<Rightarrow> (bool \<times> int) option \<Rightarrow> cfile option \<Rightarrow> bytes \<Rightarrow> nat
     \<Rightarrow> zip_writer \<Rightarrow> unit option \<times> zip_writer" where
  "unifrog_zip_writer_add_path zl realloc_ok malloc_ok now st opened name maximum_size =
     io_bind (io_guard (case st of None \<Rightarrow> False
                        | Some (regular, st_size) \<Rightarrow>
                            \<not> (\<not> regular \<or> st_size < 0 \<or> st_size > int UINT32_MAX \<or>
                               maximum_size \<noteq> 0 \<and> st_size > int maximum_size))) (\<lambda>_.
     io_bind (writer_begin_entry realloc_ok now name) (\<lambda>offset.
     (case opened of
        None \<Rightarrow> (\<lambda>w. (None, w))
      | Some input \<Rightarrow>
          io_bind (add_path_loop zl input (z_crc0 zl) 0) (\<lambda>(crc, tot).
          writer_finish_entry malloc_ok name offset crc tot))))"

definition writer_central_header :: "zip_writer_entry \<Rightarrow> bytes" where
  "writer_central_header entry =
     poke 42 (put32 (wlocal_offset entry))
      (poke 28 (put16 (of_nat (length (wname entry))))
       (poke 24 (put32 (wsize entry))
        (poke 20 (put32 (wsize entry))
         (poke 16 (put32 (wcrc32 entry))
          (poke 14 (put16 (wdos_date entry))
           (poke 12 (put16 (wdos_time entry))
            (poke 6 (put16 ZIP_VERSION)
             (poke 4 (put16 ZIP_VERSION)
              (poke 0 (put32 ZIP_CENTRAL_SIGNATURE) (replicate 46 0))))))))))"

fun writer_central_loop :: "zip_writer_entry list \<Rightarrow> zip_writer \<Rightarrow> unit option \<times> zip_writer" where
  "writer_central_loop [] = io_ret ()"
| "writer_central_loop (entry # rest) =
     io_bind (on_file (write_exact (writer_central_header entry))) (\<lambda>_.
     io_bind (on_file (write_exact (wname entry))) (\<lambda>_.
     writer_central_loop rest))"

definition writer_end_record :: "nat \<Rightarrow> nat \<Rightarrow> nat \<Rightarrow> bytes" where
  "writer_end_record n central_offset final_offset =
     poke 16 (put32 (of_nat central_offset))
      (poke 12 (put32 (of_nat (final_offset - central_offset)))
       (poke 10 (put16 (of_nat n))
        (poke 8 (put16 (of_nat n))
         (poke 0 (put32 ZIP_END_SIGNATURE) (replicate 22 0)))))"

text \<open>The directory, up to the end record that remains to be written.\<close>

definition writer_directory :: "zip_writer \<Rightarrow> bytes option \<times> zip_writer" where
  "writer_directory w0 =
     io_bind (on_file f_tell) (\<lambda>central_offset.
     io_bind (io_guard (\<not> central_offset > UINT32_MAX)) (\<lambda>_.
     io_bind (writer_central_loop (wentries w0)) (\<lambda>_.
     io_bind (on_file f_tell) (\<lambda>final_offset.
     io_bind (io_guard (\<not> (final_offset < central_offset \<or> final_offset > UINT32_MAX))) (\<lambda>_.
     io_ret (writer_end_record (length (wentries w0)) central_offset final_offset)))))) w0"

text \<open>\<open>fflush\<close> and \<open>fclose\<close> on a stream: they may fail, and change no byte.\<close>

definition f_sync :: "cfile \<Rightarrow> unit option \<times> cfile" where
  "f_sync f0 = (let (bad, f) = io_fault f0 in (if bad then None else Some (), f))"

text \<open>
  What a finished writer leaves: the return value, the stream as it stands, whether the
  archive was removed, and how many times \<open>fclose\<close> was called.
\<close>

record zip_writer_end =
  zret :: int
  zstream :: cfile
  zremoved :: bool
  zcloses :: nat

definition unifrog_zip_writer_close :: "zip_writer option \<Rightarrow> zip_writer_end option" where
  "unifrog_zip_writer_close writer =
     (case writer of
        None \<Rightarrow> None
      | Some w \<Rightarrow>
        Some (case writer_directory w of
          (None, w1) \<Rightarrow> \<lparr>zret = -1, zstream = wfile w1, zremoved = True, zcloses = 1\<rparr>
        | (Some rec, w1) \<Rightarrow>
          (case write_exact rec (wfile w1) of
             (None, f2) \<Rightarrow> \<lparr>zret = -1, zstream = f2, zremoved = True, zcloses = 0\<rparr>
           | (Some _, f2) \<Rightarrow>
             (case f_sync f2 of
                (None, f3) \<Rightarrow> \<lparr>zret = -1, zstream = f3, zremoved = True, zcloses = 0\<rparr>
              | (Some _, f3) \<Rightarrow>
                (case f_sync f3 of
                   (None, f4) \<Rightarrow> \<lparr>zret = -1, zstream = f4, zremoved = True, zcloses = 1\<rparr>
                 | (Some _, f4) \<Rightarrow> \<lparr>zret = 0, zstream = f4, zremoved = False, zcloses = 1\<rparr>)))))"

definition unifrog_zip_writer_abort :: "zip_writer option \<Rightarrow> zip_writer_end option" where
  "unifrog_zip_writer_abort writer =
     map_option (\<lambda>w. \<lparr>zret = 0, zstream = wfile w, zremoved = True, zcloses = 1\<rparr>) writer"

section \<open>Entry names\<close>

interpretation wn: segment_scan "\<lambda>c. c = B_SLASH" writer_char_bad writer_name_loop
  by unfold_locales auto

lemma writer_name_valid_segments:
  "writer_name_valid name \<longleftrightarrow>
     length name \<le> ZIP_NAME_MAX \<and> list_all (\<lambda>c. \<not> writer_char_bad c) name \<and>
     list_all segment_ok (segments (\<lambda>c. c = B_SLASH) name)"
proof (cases name)
  case (Cons c rest)
  let ?s = "segments (\<lambda>c. c = B_SLASH) name"
  let ?ok = "list_all (\<lambda>c. \<not> writer_char_bad c) name \<and> list_all segment_ok (butlast ?s)"
  have split: "list_all segment_ok ?s \<longleftrightarrow> list_all segment_ok (butlast ?s) \<and> segment_ok (last ?s)"
  proof -
    have "list_all segment_ok (xs @ [x]) \<longleftrightarrow> list_all segment_ok xs \<and> segment_ok x" for xs x
      by simp
    then show ?thesis by (metis append_butlast_last_id segments_neq_Nil)
  qed
  have first: "?ok \<Longrightarrow> name ! 0 \<noteq> B_SLASH \<and> name ! 0 \<noteq> B_BACKSLASH"
    using Cons by (auto simp: segment_ok_def writer_char_bad_def split: if_splits)
  show ?thesis
  proof (cases ?ok)
    case False
    then have "writer_name_loop name name 0 0 = None" by (simp add: wn.loop_whole)
    with False split show ?thesis by (auto simp: writer_name_valid_def)
  next
    case True
    then have loop: "writer_name_loop name name 0 0 = Some (length (last ?s))"
      by (simp add: wn.loop_whole)
    have ne: "name \<noteq> []" using Cons by simp
    have "0 < length (last ?s) \<longleftrightarrow> length (last ?s) \<noteq> 0" by linarith
    with wn.final_look_back [of name] True first [OF True] ne split show ?thesis
      unfolding writer_name_valid_def loop option.case linorder_not_less [symmetric, of "length name"]
      by argo
  qed
qed (simp add: writer_name_valid_def segment_ok_def)

text \<open>Every name the writer accepts is a safe file name for the reader.\<close>

lemma segments_cong: "(\<And>x. x \<in> set xs \<Longrightarrow> P x = Q x) \<Longrightarrow> segments P xs = segments Q xs"
  by (induction xs) auto

lemma segments_snoc: "P c \<Longrightarrow> segments P (xs @ [c]) = segments P xs @ [[]]"
  by (induction xs) auto

lemma writer_name_readable:
  assumes "writer_name_valid name"
  shows "zip_name_is_safe name" "\<not> zip_name_is_dir name" "length name < 2 ^ 16" "name \<noteq> []"
proof -
  from assms have chars: "\<forall>c \<in> set name. \<not> writer_char_bad c"
    and segs: "list_all segment_ok (segments (\<lambda>c. c = B_SLASH) name)"
    and len: "length name \<le> ZIP_NAME_MAX"
    by (auto simp: writer_name_valid_segments list_all_iff)
  show ne: "name \<noteq> []" using segs by (auto simp: segment_ok_def)
  have eq: "segments zip_is_separator name = segments (\<lambda>c. c = B_SLASH) name"
    using chars by (intro segments_cong) (auto simp: zip_is_separator_def writer_char_bad_def)
  let ?s = "segments (\<lambda>c. c = B_SLASH) name"
  have "list_all segment_ok (butlast ?s)" "segment_ok (last ?s)"
    using segs by (auto simp: list_all_iff dest: in_set_butlastD)
  moreover have "0 \<notin> set name" using chars by (auto simp: writer_char_bad_def)
  ultimately show "zip_name_is_safe name"
    using ne by (simp add: zip_name_is_safe_segments eq)
  show "\<not> zip_name_is_dir name"
  proof
    assume "zip_name_is_dir name"
    then have "last name = B_SLASH" by (simp add: zip_name_is_dir_def last_conv_nth)
    then obtain pre where "name = pre @ [B_SLASH]" using ne by (metis append_butlast_last_id)
    moreover have "last (segments (\<lambda>c. c = B_SLASH) (pre @ [B_SLASH])) = []"
      by (simp add: segments_snoc)
    ultimately show False using \<open>segment_ok (last ?s)\<close> by (simp add: segment_ok_def)
  qed
  show "length name < 2 ^ 16" using len by (simp add: ZIP_NAME_MAX_def)
qed

end
