(* ===== verification/UF_Archive.thy ===== *)
theory UF_Archive
  imports UF_ZipWriter
begin

text \<open>
  The ZIP reader and the ZIP writer together: the byte layout of an archive, that the
  writer produces exactly that layout, and that the reader opens it, finds every member and
  extracts its data. The safety properties of the reader on arbitrary files follow.
\<close>

section \<open>The layout of an archive\<close>

record member =
  mname :: bytes
  mdata :: bytes
  mdate :: u16
  mtime :: u16

definition member_crc :: "'z zlib \<Rightarrow> member \<Rightarrow> u32" where
  "member_crc zl m = z_crc zl (z_crc0 zl) (mdata m)"

abbreviation msize :: "member \<Rightarrow> u32" where
  "msize m \<equiv> of_nat (length (mdata m))"

definition local_header :: "'z zlib \<Rightarrow> member \<Rightarrow> bytes" where
  "local_header zl m =
     put32 0x04034b50 @ put16 20 @ replicate 4 0 @ put16 (mtime m) @ put16 (mdate m) @
     put32 (member_crc zl m) @ put32 (msize m) @ put32 (msize m) @
     put16 (of_nat (length (mname m))) @ replicate 2 0"

definition local_block :: "'z zlib \<Rightarrow> member \<Rightarrow> bytes" where
  "local_block zl m = local_header zl m @ mname m @ mdata m"

definition central_header :: "'z zlib \<Rightarrow> member \<Rightarrow> nat \<Rightarrow> bytes" where
  "central_header zl m off =
     put32 0x02014b50 @ put16 20 @ put16 20 @ replicate 4 0 @ put16 (mtime m) @ put16 (mdate m) @
     put32 (member_crc zl m) @ put32 (msize m) @ put32 (msize m) @
     put16 (of_nat (length (mname m))) @ replicate 12 0 @ put32 (of_nat off)"

fun central_records :: "'z zlib \<Rightarrow> nat \<Rightarrow> member list \<Rightarrow> bytes" where
  "central_records zl off [] = []"
| "central_records zl off (m # ms) =
     central_header zl m off @ mname m @ central_records zl (off + length (local_block zl m)) ms"

definition end_record :: "nat \<Rightarrow> nat \<Rightarrow> nat \<Rightarrow> bytes" where
  "end_record n cd_size cd_offset =
     put32 0x06054b50 @ replicate 4 0 @ put16 (of_nat n) @ put16 (of_nat n) @
     put32 (of_nat cd_size) @ put32 (of_nat cd_offset) @ replicate 2 0"

definition blocks :: "'z zlib \<Rightarrow> member list \<Rightarrow> bytes" where
  "blocks zl ms = concat (map (local_block zl) ms)"

definition archive_bytes :: "'z zlib \<Rightarrow> member list \<Rightarrow> bytes" where
  "archive_bytes zl ms = blocks zl ms @ central_records zl 0 ms @
     end_record (length ms) (length (central_records zl 0 ms)) (length (blocks zl ms))"

text \<open>What can be written: valid names, at most 256 members, and a file of at most 2 GiB.\<close>

definition archive_ok :: "'z zlib \<Rightarrow> member list \<Rightarrow> bool" where
  "archive_ok zl ms \<longleftrightarrow>
     list_all (\<lambda>m. writer_name_valid (mname m)) ms \<and> length ms \<le> ZIP_ENTRY_MAX \<and>
     length (archive_bytes zl ms) \<le> LONG_MAX"

lemma blocks_simps [simp]:
  "blocks zl [] = []"
  "blocks zl (m # ms) = local_block zl m @ blocks zl ms"
  "blocks zl (ms @ ns) = blocks zl ms @ blocks zl ns"
  by (simp_all add: blocks_def)

lemma layout_lengths [simp]:
  "length (local_header zl m) = 30"
  "length (local_block zl m) = 30 + length (mname m) + length (mdata m)"
  "length (central_header zl m off) = 46"
  "length (end_record n a b) = 22"
  by (simp_all add: local_header_def local_block_def central_header_def end_record_def)

text \<open>The headers that the writer assembles by stores into a zeroed buffer.\<close>

lemma poke_conv: "length a = i \<Longrightarrow> length b = length bs \<Longrightarrow> poke i bs (a @ b @ c) = a @ bs @ c"
  by (simp add: poke_def)

lemma writer_local_header_eq:
  "writer_local_header d t n =
     put32 0x04034b50 @ put16 20 @ replicate 4 0 @ put16 t @ put16 d @ replicate 12 0 @
     put16 (of_nat n) @ replicate 2 0"
  by (simp add: writer_local_header_def ZIP_LOCAL_SIGNATURE_def ZIP_VERSION_def poke_def)

lemma writer_central_header_eq:
  "writer_central_header \<lparr>wname = mname m, wcrc32 = member_crc zl m, wsize = msize m,
      wlocal_offset = of_nat off, wdos_date = mdate m, wdos_time = mtime m\<rparr> = central_header zl m off"
  by (simp add: writer_central_header_def central_header_def ZIP_CENTRAL_SIGNATURE_def ZIP_VERSION_def
      poke_def)

lemma writer_end_record_eq:
  "writer_end_record n a b = end_record n (b - a) a"
  by (simp add: writer_end_record_def end_record_def ZIP_END_SIGNATURE_def poke_def)

section \<open>The writer produces the layout\<close>

definition entry_of :: "'z zlib \<Rightarrow> member \<Rightarrow> nat \<Rightarrow> zip_writer_entry" where
  "entry_of zl m off =
     \<lparr>wname = mname m, wcrc32 = member_crc zl m, wsize = msize m, wlocal_offset = of_nat off,
      wdos_date = mdate m, wdos_time = mtime m\<rparr>"

fun entries_from :: "'z zlib \<Rightarrow> nat \<Rightarrow> member list \<Rightarrow> zip_writer_entry list" where
  "entries_from zl off [] = []"
| "entries_from zl off (m # ms) =
     entry_of zl m off # entries_from zl (off + length (local_block zl m)) ms"

lemma length_entries_from [simp]: "length (entries_from zl off ms) = length ms"
  by (induction ms arbitrary: off) auto

lemma entries_from_append:
  "entries_from zl off (ms @ ns) = entries_from zl off ms @ entries_from zl (off + length (blocks zl ms)) ns"
  by (induction ms arbitrary: off) (auto simp: add.assoc)

text \<open>The abstraction: a healthy writer that holds exactly the members \<open>ms\<close>.\<close>

definition writer_holds :: "'z zlib \<Rightarrow> member list \<Rightarrow> zip_writer \<Rightarrow> bool" where
  "writer_holds zl ms w \<longleftrightarrow>
     wfile w = healthy (blocks zl ms) (length (blocks zl ms)) \<and>
     wentries w = entries_from zl 0 ms \<and>
     length ms \<le> wcapacity w \<and> wcapacity w \<le> ZIP_ENTRY_MAX"

lemma on_file_healthy:
  "wfile w = f \<Longrightarrow> m f = (Some x, g) \<Longrightarrow> on_file m w = (Some x, w\<lparr>wfile := g\<rparr>)"
  by (simp add: on_file_def)

lemma write_exact_inside [simp]:
  "ds \<noteq> [] \<Longrightarrow> write_exact ds (healthy bs p) = (Some (), healthy (write_at p ds bs) (p + length ds))"
  by (simp add: write_exact_def)

lemma write_exact_append [simp]:
  "p = length bs \<Longrightarrow> write_exact ds (healthy bs p) = (Some (), healthy (bs @ ds) (p + length ds))"
  by (simp add: write_exact_def)

lemma writer_reserve_holds:
  assumes "writer_holds zl ms w" "length ms < ZIP_ENTRY_MAX"
  shows "\<exists>c. writer_reserve True w = (Some (), w\<lparr>wcapacity := c\<rparr>) \<and>
    length ms < c \<and> c \<le> ZIP_ENTRY_MAX"
proof -
  let ?c = "wcapacity w"
  from assms have le: "length (wentries w) = length ms" "length ms \<le> ?c" "?c \<le> ZIP_ENTRY_MAX"
    by (simp_all add: writer_holds_def)
  show ?thesis
  proof (cases "length ms < ?c")
    case True
    with le show ?thesis by (intro exI [of _ ?c]) (simp add: writer_reserve_def)
  next
    case False
    with le assms(2) show ?thesis
      by (auto simp: writer_reserve_def Let_def ZIP_ENTRY_MAX_def)
  qed
qed

lemma put_neq_Nil [simp]: "put32 v \<noteq> []" "put16 u \<noteq> []"
  by (simp_all add: put32_def put16_def)

lemma local_header_split:
  "local_header zl m =
     take 14 (writer_local_header (mdate m) (mtime m) (length (mname m))) @
     (put32 (member_crc zl m) @ put32 (msize m) @ put32 (msize m)) @
     drop 26 (writer_local_header (mdate m) (mtime m) (length (mname m)))"
  by (simp add: local_header_def writer_local_header_eq)

lemma length_writer_local_header [simp]: "length (writer_local_header d t n) = 30"
  by (simp add: writer_local_header_eq)

lemma writer_local_header_neq_Nil [simp]: "writer_local_header d t n \<noteq> []"
  using length_writer_local_header by (metis list.size(3) zero_neq_numeral)

text \<open>Patching the checksum and the sizes turns the written block into the final one.\<close>

lemma patch_header:
  assumes "length a = off"
  shows "write_at (off + 14) (put32 (member_crc zl m) @ put32 (msize m) @ put32 (msize m))
      (a @ writer_local_header (mdate m) (mtime m) (length (mname m)) @ mname m @ mdata m)
    = a @ local_block zl m"
proof -
  let ?h = "writer_local_header (mdate m) (mtime m) (length (mname m))"
  have "?h = take 14 ?h @ take 12 (drop 14 ?h) @ drop 26 ?h"
  proof -
    have "take 14 ?h @ take 12 (drop 14 ?h) @ drop 12 (drop 14 ?h) = ?h"
      by (simp only: append_take_drop_id)
    then show ?thesis by simp
  qed
  then have eq: "a @ ?h @ mname m @ mdata m =
      (a @ take 14 ?h) @ take 12 (drop 14 ?h) @ (drop 26 ?h @ mname m @ mdata m)"
    by (metis append.assoc)
  show ?thesis
    unfolding eq
    using assms write_at_inside [of "a @ take 14 ?h" "off + 14" "take 12 (drop 14 ?h)"
        "put32 (member_crc zl m) @ put32 (msize m) @ put32 (msize m)" "drop 26 ?h @ mname m @ mdata m"]
    by (simp add: local_block_def local_header_split)
qed

lemma writer_add_data_holds:
  assumes "writer_holds zl ms w" "length ms < ZIP_ENTRY_MAX"
    and "writer_name_valid (mname m)" "writer_dos_time now = (mdate m, mtime m)"
    and "length (blocks zl (ms @ [m])) \<le> LONG_MAX"
  shows "\<exists>w'. unifrog_zip_writer_add_data zl True True now (mname m) (mdata m) w = (Some (), w') \<and>
    writer_holds zl (ms @ [m]) w' \<and> wpath w' = wpath w"
proof -
  let ?b = "blocks zl ms" and ?h = "writer_local_header (mdate m) (mtime m) (length (mname m))"
  from writer_reserve_holds [OF assms(1,2)] obtain c where
    c: "writer_reserve True w = (Some (), w\<lparr>wcapacity := c\<rparr>)" "length ms < c" "c \<le> ZIP_ENTRY_MAX" by blast
  have f: "wfile w = healthy ?b (length ?b)" and e: "wentries w = entries_from zl 0 ms"
    using assms(1) by (simp_all add: writer_holds_def)
  have size: "length ?b + 30 + length (mname m) + length (mdata m) \<le> LONG_MAX"
    using assms(5) by simp
  then have small: "length ?b \<le> LONG_MAX" "\<not> length ?b > UINT32_MAX" "\<not> length (mdata m) > UINT32_MAX"
    by (auto simp: LONG_MAX_def UINT32_MAX_def)
  note patch = patch_header [of ?b "length ?b" zl m, OF refl]
  let ?w' = "w\<lparr>wcapacity := c, wpending_dos_date := mdate m, wpending_dos_time := mtime m,
      wfile := healthy (?b @ local_block zl m) (length (?b @ local_block zl m)),
      wentries := wentries w @ [entry_of zl m (length ?b)]\<rparr>"
  have begin_entry: "writer_begin_entry True now (mname m) w =
      (Some (length ?b), w\<lparr>wcapacity := c, wpending_dos_date := mdate m, wpending_dos_time := mtime m,
         wfile := healthy (?b @ ?h @ mname m) (length (?b @ ?h @ mname m))\<rparr>)"
    using assms(3,4) c(1) f small
    by (simp add: writer_begin_entry_def io_bind_def io_guard_def io_ret_def on_file_def add.assoc)
  have "unifrog_zip_writer_add_data zl True True now (mname m) (mdata m) w = (Some (), ?w')"
    using begin_entry small size patch
    by (simp add: unifrog_zip_writer_add_data_def writer_finish_entry_def io_bind_def io_guard_def
        io_ret_def on_file_def entry_of_def member_crc_def add.assoc)
  moreover have "writer_holds zl (ms @ [m]) ?w'"
    using c e by (simp add: writer_holds_def entries_from_append)
  ultimately show ?thesis by auto
qed

text \<open>A sequence of additions, each with its clock reading, its name and its data.\<close>

fun writer_add_all ::
  "'z zlib \<Rightarrow> (tm option \<times> bytes \<times> bytes) list \<Rightarrow> zip_writer \<Rightarrow> unit option \<times> zip_writer" where
  "writer_add_all zl [] = io_ret ()"
| "writer_add_all zl ((now, name, data) # rest) =
     io_bind (unifrog_zip_writer_add_data zl True True now name data) (\<lambda>_. writer_add_all zl rest)"

definition member_of :: "tm option \<times> bytes \<times> bytes \<Rightarrow> member" where
  "member_of x = (case x of (now, name, data) \<Rightarrow>
     \<lparr>mname = name, mdata = data, mdate = fst (writer_dos_time now), mtime = snd (writer_dos_time now)\<rparr>)"

lemma length_archive_bytes:
  "length (archive_bytes zl ms) = length (blocks zl ms) + length (central_records zl 0 ms) + 22"
  by (simp add: archive_bytes_def)

lemma length_blocks_mono: "length (blocks zl ms) \<le> length (blocks zl (ms @ ns))"
  by simp

lemma writer_add_all_holds:
  assumes "writer_holds zl ms w" "length ms + length xs \<le> ZIP_ENTRY_MAX"
    and "list_all (\<lambda>x. writer_name_valid (mname (member_of x))) xs"
    and "length (blocks zl (ms @ map member_of xs)) \<le> LONG_MAX"
  shows "\<exists>w'. writer_add_all zl xs w = (Some (), w') \<and> writer_holds zl (ms @ map member_of xs) w'"
  using assms
proof (induction xs arbitrary: ms w)
  case Nil
  then show ?case by (simp add: io_ret_def)
next
  case (Cons x xs)
  obtain now name data where x: "x = (now, name, data)" by (cases x)
  let ?m = "member_of x"
  have m: "mname ?m = name" "mdata ?m = data" "writer_dos_time now = (mdate ?m, mtime ?m)"
    by (simp_all add: x member_of_def)
  from Cons.prems writer_add_data_holds [of zl ms w ?m now] m obtain w1 where
    w1: "unifrog_zip_writer_add_data zl True True now name data w = (Some (), w1)"
      "writer_holds zl (ms @ [?m]) w1"
    by auto
  from Cons.IH [OF w1(2)] Cons.prems w1(1) show ?case by (simp add: x)
qed

lemma writer_central_loop_healthy:
  assumes "wfile w = healthy bs (length bs)"
  shows "writer_central_loop (entries_from zl off ms) w =
    (Some (), w\<lparr>wfile := healthy (bs @ central_records zl off ms) (length (bs @ central_records zl off ms))\<rparr>)"
  using assms
proof (induction ms arbitrary: off bs w)
  case Nil
  then have "w = w\<lparr>wfile := healthy bs (length bs)\<rparr>" by (cases w) simp
  with Nil show ?case by (simp add: io_ret_def)
next
  case (Cons m ms)
  let ?h = "central_header zl m off"
  have h: "writer_central_header (entry_of zl m off) = ?h"
    unfolding entry_of_def by (rule writer_central_header_eq)
  from Cons.prems have "writer_central_loop (entries_from zl off (m # ms)) w =
      writer_central_loop (entries_from zl (off + length (local_block zl m)) ms)
        (w\<lparr>wfile := healthy (bs @ ?h @ mname m) (length (bs @ ?h @ mname m))\<rparr>)"
    by (simp add: h io_bind_def on_file_def add.assoc) (simp add: entry_of_def add.assoc)
  with Cons.IH [of _ "bs @ ?h @ mname m"] show ?case by (simp add: add.assoc)
qed

lemma writer_close_archive:
  assumes "writer_holds zl ms w" "length (archive_bytes zl ms) \<le> LONG_MAX"
  shows "unifrog_zip_writer_close (Some w) =
    Some \<lparr>zret = 0, zstream = healthy (archive_bytes zl ms) (length (archive_bytes zl ms)),
          zremoved = False, zcloses = 1\<rparr>"
proof -
  let ?b = "blocks zl ms" and ?c = "central_records zl 0 ms"
  have f: "wfile w = healthy ?b (length ?b)" and e: "wentries w = entries_from zl 0 ms"
    using assms(1) by (simp_all add: writer_holds_def)
  have sz: "length ?b \<le> LONG_MAX" "length ?b + length ?c \<le> LONG_MAX"
    "length ?b \<le> UINT32_MAX" "length ?b + length ?c \<le> UINT32_MAX"
    using assms(2) by (auto simp: length_archive_bytes LONG_MAX_def UINT32_MAX_def)
  have same: "w\<lparr>wfile := healthy ?b (length ?b)\<rparr> = w" using f by (cases w) simp
  have "writer_directory w = (Some (end_record (length ms) (length ?c) (length ?b)),
      w\<lparr>wfile := healthy (?b @ ?c) (length (?b @ ?c))\<rparr>)"
    using sz writer_central_loop_healthy [OF f, of zl 0 ms]
    by (simp add: writer_directory_def io_bind_def io_guard_def io_ret_def on_file_def e f same
        writer_end_record_eq)
  then show ?thesis
    by (simp add: unifrog_zip_writer_close_def f_sync_def io_fault_def archive_bytes_def add.assoc)
qed

section \<open>The reader accepts the layout\<close>

lemma zip_read_exact_healthy:
  "p + n \<le> length bs \<Longrightarrow>
   zip_read_exact n (healthy bs p) = (Some (take n (drop p bs)), healthy bs (p + n))"
  by (auto simp: zip_read_exact_def Let_def min_def)

lemma zip_compare_healthy:
  "bs = a @ expected @ b \<Longrightarrow>
   zip_compare_file_bytes expected (healthy bs (length a)) = (Some (), healthy bs (length a + length expected))"
proof (induction "length expected" arbitrary: expected a rule: less_induct)
  case less
  show ?case
  proof (cases "expected = []")
    case True
    then show ?thesis by (simp add: zip_compare_file_bytes.simps)
  next
    case False
    let ?k = "if length expected < 256 then length expected else 256"
    have k: "0 < ?k" "?k \<le> length expected" using False by auto
    have rd: "zip_read_exact ?k (healthy bs (length a)) =
        (Some (take ?k expected), healthy bs (length a + ?k))"
      using k(2) less.prems zip_read_exact_healthy [of "length a" ?k bs] by simp
    have "bs = (a @ take ?k expected) @ drop ?k expected @ b"
      using less.prems by (metis append.assoc append_take_drop_id)
    from less.hyps [OF _ this] False k
    have "zip_compare_file_bytes (drop ?k expected) (healthy bs (length a + ?k)) =
        (Some (), healthy bs (length a + length expected))"
      by (simp add: min_def split: if_splits)
    with False rd show ?thesis
      by (subst zip_compare_file_bytes.simps) (simp add: Let_def)
  qed
qed

lemma le_zeros:
  "i + 2 \<le> k \<Longrightarrow> zip_read_le16 (replicate k 0 @ r) i = 0"
  "i + 2 \<le> k \<Longrightarrow> zip_read_le16 (replicate k 0) i = 0"
  by (simp_all add: zip_read_le16_def nth_append)

lemmas le_fields = f16.get_here f32.get_here f16.get_skip f32.get_skip le_zeros

lemma central_fields:
  "zip_read_le32 (central_header zl m off @ r) 0 = UNIFROG_ZIP_CDH_SIG"
  "zip_read_le16 (central_header zl m off @ r) 8 = 0"
  "zip_read_le16 (central_header zl m off @ r) 10 = 0"
  "zip_read_le32 (central_header zl m off @ r) 16 = member_crc zl m"
  "zip_read_le32 (central_header zl m off @ r) 20 = msize m"
  "zip_read_le32 (central_header zl m off @ r) 24 = msize m"
  "zip_read_le16 (central_header zl m off @ r) 28 = of_nat (length (mname m))"
  "zip_read_le16 (central_header zl m off @ r) 30 = 0"
  "zip_read_le16 (central_header zl m off @ r) 32 = 0"
  "zip_read_le32 (central_header zl m off @ r) 42 = of_nat off"
  by (simp_all add: central_header_def UNIFROG_ZIP_CDH_SIG_def le_fields)

lemma local_fields:
  "zip_read_le32 (local_header zl m) 0 = UNIFROG_ZIP_LH_SIG"
  "zip_read_le16 (local_header zl m) 6 = 0"
  "zip_read_le16 (local_header zl m) 8 = 0"
  "zip_read_le16 (local_header zl m) 26 = of_nat (length (mname m))"
  "zip_read_le16 (local_header zl m) 28 = 0"
  by (simp_all add: local_header_def UNIFROG_ZIP_LH_SIG_def le_fields)

lemma end_fields:
  "zip_read_le32 (end_record n a b) 0 = UNIFROG_ZIP_EOCD_SIG"
  "zip_read_le16 (end_record n a b) 4 = 0"
  "zip_read_le16 (end_record n a b) 6 = 0"
  "zip_read_le16 (end_record n a b) 10 = of_nat n"
  "zip_read_le32 (end_record n a b) 12 = of_nat a"
  "zip_read_le32 (end_record n a b) 16 = of_nat b"
  "zip_read_le16 (end_record n a b) 20 = 0"
  by (simp_all add: end_record_def UNIFROG_ZIP_EOCD_SIG_def le_fields)

text \<open>The scan of one directory record, with the local block of its member in the file.\<close>

definition scan_of :: "'z zlib \<Rightarrow> member \<Rightarrow> nat \<Rightarrow> zip_scan" where
  "scan_of zl m off =
     \<lparr>sname = mname m, sdata_offset = off + 30 + length (mname m), sflags = 0, smethod = 0,
      scrc32 = member_crc zl m, scompressed_size = msize m, suncompressed_size = msize m,
      slocal_offset = of_nat off, skeep = True\<rparr>"

lemma unat_small: "n \<le> LONG_MAX \<Longrightarrow> unat (of_nat n :: u32) = n" "n \<le> LONG_MAX \<Longrightarrow> (of_nat n :: u32) \<noteq> 0xffffffff"
proof -
  assume n: "n \<le> LONG_MAX"
  then show u: "unat (of_nat n :: u32) = n" by (simp add: unsigned_of_nat take_bit_nat_eq_self LONG_MAX_def)
  show "(of_nat n :: u32) \<noteq> 0xffffffff"
  proof
    assume "(of_nat n :: u32) = 0xffffffff"
    with u have "n = unat (0xffffffff :: u32)" by simp
    with n show False by (simp add: LONG_MAX_def)
  qed
qed

lemma unat_small16: "n < 2 ^ 16 \<Longrightarrow> unat (of_nat n :: u16) = n"
  by (simp add: unsigned_of_nat take_bit_nat_eq_self)

lemma scan_record_layout:
  assumes "writer_name_valid (mname m)" "length (mdata m) \<le> LONG_MAX" "off \<le> LONG_MAX"
  shows "zip_scan_record (pre @ central_header zl m off @ mname m @ post) (length pre) =
    Some ((scan_of zl m off)\<lparr>sdata_offset := 0\<rparr>, length pre + (46 + length (mname m)))"
proof -
  note nm = writer_name_readable [OF assms(1)]
  let ?c = "central_header zl m off @ mname m @ post"
  have sh: "zip_read_le16 (pre @ ?c) (length pre + i) = zip_read_le16 ?c i" if "i + 2 \<le> 46" for i
    using that by (intro f16.get_shift) simp
  have sh0: "zip_read_le32 (pre @ ?c) (length pre) = zip_read_le32 ?c 0"
    using f32.get_shift [of 0 ?c pre] by simp
  have sh4: "zip_read_le32 (pre @ ?c) (length pre + i) = zip_read_le32 ?c i" if "i + 4 \<le> 46" for i
    using that by (intro f32.get_shift) simp
  show ?thesis
    using nm assms unat_small [of "length (mdata m)"] unat_small [of off] unat_small16 [of "length (mname m)"]
    by (simp add: zip_scan_record_def UNIFROG_ZIP_CDH_FIXED_def sh sh4 sh0 central_fields scan_of_def Let_def)
qed

lemma scan_local_layout:
  assumes "writer_name_valid (mname m)" "bs = a @ local_block zl m @ b" "off = length a"
    and "length bs \<le> LONG_MAX"
  shows "zip_scan_local (length bs) ((scan_of zl m off)\<lparr>sdata_offset := 0\<rparr>) (healthy bs p) =
    (Some (off + 30 + length (mname m)), healthy bs (off + 30 + length (mname m)))"
proof -
  note nm = writer_name_readable [OF assms(1)]
  have len: "length bs = off + 30 + length (mname m) + length (mdata m) + length b"
    using assms(2,3) by simp
  have u: "unat (of_nat off :: u32) = off" "unat (msize m) = length (mdata m)" "off \<le> LONG_MAX"
    using len assms(4) by (auto intro!: unat_small)
  have lh: "zip_read_exact 30 (healthy bs off) = (Some (local_header zl m), healthy bs (off + 30))"
    using assms(2,3) zip_read_exact_healthy [of off 30 bs] by (simp add: local_block_def)
  have "bs = (a @ local_header zl m) @ mname m @ (mdata m @ b)"
    using assms(2) by (simp add: local_block_def)
  from zip_compare_healthy [OF this]
  have cmp: "zip_compare_file_bytes (mname m) (healthy bs (off + 30)) =
      (Some (), healthy bs (off + 30 + length (mname m)))"
    using assms(3) by simp
  show ?thesis
    using u lh cmp len nm(3) assms(4)
    by (simp add: zip_scan_local_def scan_of_def Let_def io_bind_def io_guard_def io_ret_def
        zip_range_within_file_def UNIFROG_ZIP_LH_FIXED_def zip_seek_def zip_skip_def
        local_fields unat_small16)
qed

lemma scan_entry_layout:
  assumes "writer_name_valid (mname m)" "bs = a @ local_block zl m @ b" "off = length a"
    and "length bs \<le> LONG_MAX"
  shows "zip_scan_entry (pre @ central_header zl m off @ mname m @ post) (length bs) (length pre) (healthy bs p) =
    (Some (scan_of zl m off, length (pre @ central_header zl m off @ mname m)),
     healthy bs (off + 30 + length (mname m)))"
proof -
  have "length (mdata m) \<le> LONG_MAX" "off \<le> LONG_MAX" using assms(2-4) by simp_all
  from scan_record_layout [OF assms(1) this, of pre zl post] scan_local_layout [OF assms, of p] show ?thesis
    by (simp add: zip_scan_entry_def io_bind_def io_ret_def scan_of_def)
qed

definition names_size :: "member list \<Rightarrow> nat" where
  "names_size ms = sum_list (map (\<lambda>m. length (mname m) + 1) ms)"

lemma count_loop_layout:
  assumes "list_all (\<lambda>m. writer_name_valid (mname m)) ms" "bs = a @ blocks zl ms @ b" "off = length a"
    and "length bs \<le> LONG_MAX" "cd = pre @ central_records zl off ms"
    and "c + length ms \<le> ZIP_ENTRY_MAX" "ns + length (central_records zl off ms) \<le> LONG_MAX"
  shows "\<exists>q. zip_count_loop (length ms) cd (length bs) (length pre) c ns (healthy bs p) =
    (Some (length cd, c + length ms, ns + names_size ms), healthy bs q)"
  using assms
proof (induction ms arbitrary: a off pre c ns p)
  case Nil
  then show ?case by (simp add: io_ret_def names_size_def)
next
  case (Cons m ms)
  let ?off = "off + length (local_block zl m)" and ?pre = "pre @ central_header zl m off @ mname m"
  have scan: "zip_scan_entry cd (length bs) (length pre) (healthy bs p) =
      (Some (scan_of zl m off, length ?pre), healthy bs (off + 30 + length (mname m)))"
    using scan_entry_layout [of m bs a zl "blocks zl ms @ b" off pre "central_records zl ?off ms" p] Cons.prems
    by simp
  have "length (mname m) < 2 ^ 16" using Cons.prems(1) writer_name_readable(3) by simp
  then have guard: "\<not> (c = SIZE_MAX \<or> ns > SIZE_MAX - length (mname m) - 1)"
    using Cons.prems(6,7) by (auto simp: SIZE_MAX_def LONG_MAX_def ZIP_ENTRY_MAX_def)
  from Cons.IH [of "a @ local_block zl m" ?off ?pre "Suc c" "ns + (length (mname m) + 1)"] Cons.prems
  obtain q where "zip_count_loop (length ms) cd (length bs) (length ?pre) (Suc c)
      (ns + (length (mname m) + 1)) (healthy bs (off + 30 + length (mname m))) =
      (Some (length cd, Suc c + length ms, ns + (length (mname m) + 1) + names_size ms), healthy bs q)"
    by (auto simp del: layout_lengths(2))
  with scan guard show ?case
    by (intro exI [of _ q]) (simp add: io_bind_def io_guard_def scan_of_def names_size_def)
qed

fun table_from :: "'z zlib \<Rightarrow> nat \<Rightarrow> member list \<Rightarrow> zip_entry list" where
  "table_from zl off [] = []"
| "table_from zl off (m # ms) =
     entry_of_scan (scan_of zl m off) # table_from zl (off + length (local_block zl m)) ms"

fun offsets_from :: "'z zlib \<Rightarrow> nat \<Rightarrow> member list \<Rightarrow> nat list" where
  "offsets_from zl off [] = []"
| "offsets_from zl off (m # ms) =
     (off + 30 + length (mname m)) # offsets_from zl (off + length (local_block zl m)) ms"

lemma length_tables [simp]:
  "length (table_from zl off ms) = length ms" "length (offsets_from zl off ms) = length ms"
  by (induction ms arbitrary: off) auto

lemma fill_loop_layout:
  assumes "list_all (\<lambda>m. writer_name_valid (mname m)) ms" "bs = a @ blocks zl ms @ b" "off = length a"
    and "length bs \<le> LONG_MAX" "cd = pre @ central_records zl off ms"
    and "length es = i + length ms" "length os = i + length ms"
  shows "\<exists>q. zip_fill_loop (length ms) cd (length bs) (length pre) i nc es os (healthy bs p) =
    (Some (i + length ms, nc + names_size ms, take i es @ table_from zl off ms,
           take i os @ offsets_from zl off ms), healthy bs q)"
  using assms
proof (induction ms arbitrary: a off pre i nc es os p)
  case Nil
  then show ?case by (simp add: io_ret_def names_size_def)
next
  case (Cons m ms)
  let ?off = "off + length (local_block zl m)" and ?pre = "pre @ central_header zl m off @ mname m"
  let ?es = "es[i := entry_of_scan (scan_of zl m off)]" and ?os = "os[i := off + 30 + length (mname m)]"
  have scan: "zip_scan_entry cd (length bs) (length pre) (healthy bs p) =
      (Some (scan_of zl m off, length ?pre), healthy bs (off + 30 + length (mname m)))"
    using scan_entry_layout [of m bs a zl "blocks zl ms @ b" off pre "central_records zl ?off ms" p] Cons.prems
    by simp
  have tk: "take (Suc i) ?es = take i es @ [entry_of_scan (scan_of zl m off)]"
    "take (Suc i) ?os = take i os @ [off + 30 + length (mname m)]"
    using Cons.prems(6,7) by (simp_all add: take_Suc_conv_app_nth)
  from Cons.IH [of "a @ local_block zl m" ?off ?pre ?es "Suc i" ?os "nc + (length (mname m) + 1)"] Cons.prems
  obtain q where "zip_fill_loop (length ms) cd (length bs) (length ?pre) (Suc i)
      (nc + (length (mname m) + 1)) ?es ?os (healthy bs (off + 30 + length (mname m))) =
      (Some (Suc i + length ms, nc + (length (mname m) + 1) + names_size ms,
         take (Suc i) ?es @ table_from zl ?off ms, take (Suc i) ?os @ offsets_from zl ?off ms), healthy bs q)"
    by (auto simp del: layout_lengths(2))
  with scan show ?case
    unfolding tk
    by (intro exI [of _ q]) (simp add: io_bind_def scan_of_def names_size_def)
qed

lemma find_eocd_layout:
  assumes "buf = pre @ end_record n a b" "length buf \<le> UNIFROG_ZIP_EOCD_SCAN_MAX"
  shows "zip_find_eocd buf = Some (length pre)"
proof -
  have "zip_read_le32 buf (length pre) = UNIFROG_ZIP_EOCD_SIG"
    "zip_read_le16 buf (length pre + 20) = 0"
    using assms(1) f32.get_shift [of 0 "end_record n a b" pre] f16.get_shift [of 20 "end_record n a b" pre]
    by (simp_all add: end_fields)
  then have "eocd_loop buf 0 (length pre) = Some (length pre)"
    by (subst eocd_loop.simps) (simp add: assms(1) UNIFROG_ZIP_EOCD_MIN_def)
  with assms show ?thesis
    by (simp add: zip_find_eocd_def UNIFROG_ZIP_EOCD_MIN_def UNIFROG_ZIP_EOCD_SCAN_MAX_def)
qed

lemma zip_file_size_healthy:
  "p \<le> LONG_MAX \<Longrightarrow> length bs \<le> LONG_MAX \<Longrightarrow>
   zip_file_size (healthy bs p) = (Some (length bs), healthy bs p)"
  by (simp add: zip_file_size_def io_bind_def io_ret_def)

lemma zip_directory_layout:
  assumes "archive_ok zl ms" "bs = archive_bytes zl ms" "p \<le> LONG_MAX" "mem 0" "mem 1"
  shows "\<exists>q. zip_directory mem (healthy bs p) =
    (Some (length bs, central_records zl 0 ms, length ms), healthy bs q)"
proof -
  let ?b = "blocks zl ms" and ?c = "central_records zl 0 ms"
  let ?e = "end_record (length ms) (length ?c) (length ?b)"
  let ?t = "if length bs > UNIFROG_ZIP_EOCD_SCAN_MAX then UNIFROG_ZIP_EOCD_SCAN_MAX else length bs"
  have bs: "bs = ?b @ ?c @ ?e" and len: "length bs \<le> LONG_MAX" and n: "length ms \<le> 256"
    using assms(1,2) by (simp_all add: archive_bytes_def archive_ok_def ZIP_ENTRY_MAX_def)
  have t: "?t \<le> length bs" "22 \<le> ?t"
    using bs by (auto simp: UNIFROG_ZIP_EOCD_SCAN_MAX_def UNIFROG_ZIP_EOCD_MIN_def)
  define pre where "pre = take (?t - 22) (drop (length bs - ?t) bs)"
  have tail: "take ?t (drop (length bs - ?t) bs) = pre @ ?e"
  proof -
    have "drop (length bs - 22) bs = ?e" using bs by simp
    then have "drop (?t - 22) (drop (length bs - ?t) bs) = ?e" using t by simp
    moreover have "take ?t (drop (length bs - ?t) bs) = drop (length bs - ?t) bs" using t(1) by simp
    ultimately show ?thesis
      unfolding pre_def using append_take_drop_id [of "?t - 22" "drop (length bs - ?t) bs"]
      by (simp only:)
  qed
  have eocd: "zip_find_eocd (pre @ ?e) = Some (length pre)"
  proof (rule find_eocd_layout [OF refl])
    have "length (pre @ ?e) \<le> ?t" by (metis length_take min.cobounded2 tail)
    then show "length (pre @ ?e) \<le> UNIFROG_ZIP_EOCD_SCAN_MAX" by (simp split: if_splits)
  qed
  have field16: "zip_read_le16 (pre @ ?e) (length pre + i) = zip_read_le16 ?e i" if "i + 2 \<le> 22" for i
    using that by (intro f16.get_shift) simp
  have field32: "zip_read_le32 (pre @ ?e) (length pre + i) = zip_read_le32 ?e i" if "i + 4 \<le> 22" for i
    using that by (intro f32.get_shift) simp
  have u: "unat (of_nat (length ?c) :: u32) = length ?c" "unat (of_nat (length ?b) :: u32) = length ?b"
    "(of_nat (length ?c) :: u32) \<noteq> 0xffffffff" "(of_nat (length ?b) :: u32) \<noteq> 0xffffffff"
    using len bs by (auto intro!: unat_small simp del: unsigned_of_nat)
  have u16: "unat (of_nat (length ms) :: u16) = length ms" using n by (intro unat_small16) simp
  then have u16': "(of_nat (length ms) :: u16) \<noteq> 0xffff" using n by (auto dest!: arg_cong [where f = unat])
  have rd: "zip_read_exact ?t (healthy bs (length bs - ?t)) = (Some (pre @ ?e), healthy bs (length bs))"
    using zip_read_exact_healthy [of "length bs - ?t" ?t bs] t(1) tail by simp
  have rc: "zip_read_exact (length ?c) (healthy bs (length ?b)) =
      (Some ?c, healthy bs (length ?b + length ?c))"
    using zip_read_exact_healthy [of "length ?b" "length ?c" bs] bs by simp
  have ranges: "\<not> length bs < UNIFROG_ZIP_EOCD_MIN" "\<not> length bs - ?t > LONG_MAX" "\<not> length ?b > LONG_MAX"
    "\<not> (length ?c > length bs \<or> length ?b > length bs - length ?c)"
    using len bs by (auto simp: UNIFROG_ZIP_EOCD_MIN_def)
  show ?thesis
    using assms(4,5) rd rc eocd ranges u u16 u16' zip_file_size_healthy [OF assms(3) len]
    by (intro exI [of _ "length ?b + length ?c"])
       (simp add: zip_directory_def io_bind_def io_guard_def io_ret_def zip_seek_def Let_def
         field16 field32 end_fields)
qed

definition archive_impl :: "'z zlib \<Rightarrow> member list \<Rightarrow> bool \<Rightarrow> zip_impl" where
  "archive_impl zl ms own =
     \<lparr>zfile_size = length (archive_bytes zl ms), zentry_count = length ms,
      zdata_offsets = offsets_from zl 0 ms, zentries = table_from zl 0 ms,
      zname_storage = names_size ms, zowns_file = own\<rparr>"

lemma archive_loops:
  assumes "archive_ok zl ms" "bs = archive_bytes zl ms"
  shows "\<exists>q. zip_count_loop (length ms) (central_records zl 0 ms) (length bs) 0 0 0 (healthy bs p) =
      (Some (length (central_records zl 0 ms), length ms, names_size ms), healthy bs q)"
    and "length es = length ms \<Longrightarrow> length os = length ms \<Longrightarrow>
      \<exists>q. zip_fill_loop (length ms) (central_records zl 0 ms) (length bs) 0 0 0 es os (healthy bs p) =
      (Some (length ms, names_size ms, table_from zl 0 ms, offsets_from zl 0 ms), healthy bs q)"
proof -
  let ?cd = "central_records zl 0 ms"
  have bs: "bs = [] @ blocks zl ms @ (?cd @ end_record (length ms) (length ?cd) (length (blocks zl ms)))"
    and names: "list_all (\<lambda>m. writer_name_valid (mname m)) ms" and len: "length bs \<le> LONG_MAX"
    and n: "0 + length ms \<le> ZIP_ENTRY_MAX"
    using assms by (simp_all add: archive_ok_def archive_bytes_def)
  have "0 + length ?cd \<le> LONG_MAX" using bs len by simp
  from count_loop_layout [OF names bs _ len _ n this, where pre = "[]" and p = p and cd = ?cd]
  show "\<exists>q. zip_count_loop (length ms) ?cd (length bs) 0 0 0 (healthy bs p) =
      (Some (length ?cd, length ms, names_size ms), healthy bs q)" by simp
  show "\<exists>q. zip_fill_loop (length ms) ?cd (length bs) 0 0 0 es os (healthy bs p) =
      (Some (length ms, names_size ms, table_from zl 0 ms, offsets_from zl 0 ms), healthy bs q)"
    if "length es = length ms" "length os = length ms"
    using fill_loop_layout [OF names bs _ len, where pre = "[]" and p = p and cd = ?cd and off = 0
        and es = es and os = os and i = 0 and nc = 0] that by simp
qed

lemma zip_open_layout:
  assumes "archive_ok zl ms" "bs = archive_bytes zl ms" "p \<le> LONG_MAX"
  shows "zip_open_from_file (\<lambda>_. True) own (healthy bs p) =
    (Some (archive_impl zl ms own), healthy bs p, 0)"
proof -
  let ?cd = "central_records zl 0 ms"
  from zip_directory_layout [OF assms, of "\<lambda>_. True"] obtain q1 where
    d: "zip_directory (\<lambda>_. True) (healthy bs p) = (Some (length bs, ?cd, length ms), healthy bs q1)" by auto
  from archive_loops(1) [OF assms(1,2), of q1] obtain q2 where
    c: "zip_count_loop (length ms) ?cd (length bs) 0 0 0 (healthy bs q1) =
      (Some (length ?cd, length ms, names_size ms), healthy bs q2)" by blast
  let ?e0 = "\<lparr>ename = [], eflags = 0, emethod = 0, ecrc32 = 0, ecompressed_size = 0,
              euncompressed_size = 0, elocal_offset = 0\<rparr>"
  from archive_loops(2) [OF assms(1,2), of "replicate (length ms) ?e0" "replicate (length ms) 0" q2]
  obtain q3 where
    f: "zip_fill_loop (length ms) ?cd (length bs) 0 0 0 (replicate (length ms) ?e0)
          (replicate (length ms) 0) (healthy bs q2) =
      (Some (length ms, names_size ms, table_from zl 0 ms, offsets_from zl 0 ms), healthy bs q3)" by auto
  show ?thesis
    using d c f assms(3) by (simp add: zip_open_from_file_def zip_restore_def archive_impl_def assms(2))
qed

lemma find_loop_layout:
  "distinct (map mname ms) \<Longrightarrow> k < length ms \<Longrightarrow>
   zip_find_loop (table_from zl off ms) (mname (ms ! k)) i = Some (i + k)"
proof (induction ms arbitrary: off i k)
  case (Cons m ms)
  show ?case
  proof (cases k)
    case 0
    then show ?thesis by (simp add: entry_of_scan_def scan_of_def)
  next
    case (Suc j)
    with Cons.prems have "mname m \<noteq> mname (ms ! j)" by auto
    with Suc Cons show ?thesis by (simp add: entry_of_scan_def scan_of_def)
  qed
qed simp

lemma table_nth:
  "k < length ms \<Longrightarrow>
   table_from zl off ms ! k = entry_of_scan (scan_of zl (ms ! k) (off + length (blocks zl (take k ms)))) \<and>
   offsets_from zl off ms ! k = off + length (blocks zl (take k ms)) + 30 + length (mname (ms ! k))"
proof (induction ms arbitrary: off k)
  case (Cons m ms)
  then show ?case by (cases k) (simp_all add: add.assoc)
qed simp

lemma copy_stored_healthy:
  assumes "crc_laws zl" "p + n \<le> length bs"
  shows "zip_copy_stored zl n c (healthy bs p) (healthy ob (length ob)) =
    (Some (z_crc zl c (take n (drop p bs))), healthy bs (p + n),
     healthy (ob @ take n (drop p bs)) (length ob + n))"
  using assms(2)
proof (induction n arbitrary: c p ob rule: less_induct)
  case (less n)
  let ?k = "if n < UNIFROG_ZIP_IO_CHUNK then n else UNIFROG_ZIP_IO_CHUNK"
  note unf = zip_copy_stored.simps [of zl n c "healthy bs p" "healthy ob (length ob)"]
  show ?case
  proof (cases "n = 0")
    case True
    with assms(1) show ?thesis unfolding unf by (simp add: crc_laws_def)
  next
    case False
    let ?d = "take ?k (drop p bs)" and ?r = "take (n - ?k) (drop (p + ?k) bs)"
    have k: "n - ?k < n" "?k \<le> n" using False by (auto simp: UNIFROG_ZIP_IO_CHUNK_def)
    have d: "length ?d = ?k" using less.prems k(2) by simp
    have split: "take n (drop p bs) = ?d @ ?r"
      using take_add [of ?k "n - ?k" "drop p bs"] k(2)
      by (simp only: drop_drop add.commute le_add_diff_inverse)
    have rd: "zip_read_exact ?k (healthy bs p) = (Some ?d, healthy bs (p + ?k))"
      using less.prems k(2) by (intro zip_read_exact_healthy) simp
    have "zip_copy_stored zl (n - ?k) (z_crc zl c ?d) (healthy bs (p + ?k))
        (healthy (ob @ ?d) (length (ob @ ?d))) =
      (Some (z_crc zl (z_crc zl c ?d) ?r), healthy bs (p + ?k + (n - ?k)),
       healthy ((ob @ ?d) @ ?r) (length (ob @ ?d) + (n - ?k)))"
      using less.prems k by (intro less.IH) simp_all
    then have rec: "zip_copy_stored zl (n - ?k) (z_crc zl c ?d) (healthy bs (p + ?k))
        (healthy (ob @ ?d) (length ob + ?k)) =
      (Some (z_crc zl c (take n (drop p bs))), healthy bs (p + n),
       healthy (ob @ take n (drop p bs)) (length ob + n))"
      using d k(2) assms(1) unfolding split by (simp add: crc_laws_def del: length_take)
    from False rd rec d show ?thesis
      unfolding unf by (simp add: Let_def del: length_take)
  qed
qed

lemma extract_layout:
  assumes "crc_laws zl" "archive_ok zl ms" "bs = archive_bytes zl ms" "k < length ms"
    and "distinct (map mname ms)" "p \<le> LONG_MAX"
  shows "unifrog_zip_extract_name_to_file zl (Some (archive_impl zl ms own)) (mname (ms ! k))
      (healthy bs p) (healthy [] 0) =
    Some (0, healthy bs p, healthy (mdata (ms ! k)) (length (mdata (ms ! k))))"
proof -
  let ?m = "ms ! k" and ?o = "length (blocks zl (take k ms))"
  have valid: "writer_name_valid (mname ?m)" and len: "length bs \<le> LONG_MAX"
    using assms by (auto simp: archive_ok_def list_all_length)
  note nm = writer_name_readable [OF valid]
  have find: "unifrog_zip_find (Some (archive_impl zl ms own)) (mname ?m) = Some k"
    using find_loop_layout [OF assms(5,4), of zl 0 0] nm(4)
    by (simp add: unifrog_zip_find_def archive_impl_def)
  have split: "blocks zl ms = blocks zl (take k ms) @ local_block zl ?m @ blocks zl (drop (Suc k) ms)"
    using id_take_nth_drop [OF assms(4)] by (metis blocks_simps(2,3))
  then have pos: "take (length (mdata ?m)) (drop (?o + 30 + length (mname ?m)) bs) = mdata ?m"
    and fits: "?o + 30 + length (mname ?m) + length (mdata ?m) \<le> length bs"
    using assms(3) by (simp_all add: archive_bytes_def local_block_def)
  have u: "unat (msize ?m) = length (mdata ?m)" using fits len by (intro unat_small) simp
  have seek: "\<not> ?o + 30 + length (mname ?m) > LONG_MAX" using fits len by simp
  have copy: "zip_copy_stored zl (length (mdata ?m)) (z_crc0 zl) (healthy bs (?o + 30 + length (mname ?m)))
      (healthy [] 0) =
    (Some (member_crc zl ?m), healthy bs (?o + 30 + length (mname ?m) + length (mdata ?m)),
     healthy (mdata ?m) (length (mdata ?m)))"
    using copy_stored_healthy [OF assms(1) fits, of "z_crc0 zl" "[]"]
    unfolding pos by (simp add: member_crc_def)
  show ?thesis
    using find copy seek assms(4,6) table_nth [OF assms(4), of zl 0]
    by (simp add: unifrog_zip_extract_name_to_file_def unifrog_zip_extract_entry_to_file_def
        zip_extract_entry_index_def zip_seek_def zip_restore_def archive_impl_def
        entry_of_scan_def scan_of_def u del: unsigned_of_nat)
qed

section \<open>Properties\<close>

text \<open>
  C1. An archive round trip. A writer is opened on an empty file, any sequence of at most
  256 members with accepted, pairwise different names is added, and it is closed: every call
  succeeds. The reader opens the resulting file, counts every member, and extracting any of
  them by name returns 0 and writes exactly its data.
\<close>

theorem zip_roundtrip:
  assumes "crc_laws zl" "path \<noteq> []" "archive_ok zl (map member_of xs)"
    and "distinct (map (\<lambda>x. fst (snd x)) xs)" "k < length xs" "xs ! k = (now, name, data)"
  shows "\<exists>w0 w fin impl g inp. unifrog_zip_writer_open_path True True path (Some (healthy [] 0)) = Some w0 \<and>
    writer_add_all zl xs w0 = (Some (), w) \<and>
    unifrog_zip_writer_close (Some w) = Some fin \<and> zret fin = 0 \<and> \<not> zremoved fin \<and> zcloses fin = 1 \<and>
    unifrog_zip_open_file (\<lambda>_. True) (healthy (fbytes (zstream fin)) 0) = (Some impl, g, 0) \<and>
    unifrog_zip_entry_count (Some impl) = length xs \<and>
    unifrog_zip_extract_name_to_file zl (Some impl) name g (healthy [] 0) =
      Some (0, inp, healthy data (length data))"
proof -
  let ?ms = "map member_of xs"
  define w0 where "w0 = \<lparr>wfile = healthy [] 0, wpath = path, wentries = [], wcapacity = 0,
    wpending_dos_date = 0, wpending_dos_time = 0\<rparr>"
  have "unifrog_zip_writer_open_path True True path (Some (healthy [] 0)) = Some w0"
    using assms(2) by (simp add: unifrog_zip_writer_open_path_def w0_def)
  moreover have "writer_holds zl [] w0" by (simp add: writer_holds_def w0_def)
  then obtain w where "writer_add_all zl xs w0 = (Some (), w)" and w: "writer_holds zl ?ms w"
    using writer_add_all_holds [of zl "[]" w0 xs] assms(3)
    by (auto simp: archive_ok_def length_archive_bytes list.pred_map comp_def)
  moreover note writer_close_archive [OF w]
  moreover have "unifrog_zip_open_file (\<lambda>_. True) (healthy (archive_bytes zl ?ms) 0) =
      (Some (archive_impl zl ?ms False), healthy (archive_bytes zl ?ms) 0, 0)"
    using zip_open_layout [OF assms(3) refl, of 0 False] by (simp add: unifrog_zip_open_file_def)
  moreover have "map mname ?ms = map (\<lambda>x. fst (snd x)) xs"
    by (auto simp: member_of_def)
  with assms(4) have "distinct (map mname ?ms)" by (simp only:)
  with assms(5,6) have "unifrog_zip_extract_name_to_file zl (Some (archive_impl zl ?ms False)) name
      (healthy (archive_bytes zl ?ms) 0) (healthy [] 0) =
    Some (0, healthy (archive_bytes zl ?ms) 0, healthy data (length data))"
    using extract_layout [OF assms(1,3) refl, of k 0 False] by (simp add: member_of_def)
  ultimately show ?thesis
    using assms(3) by (auto simp: archive_ok_def unifrog_zip_entry_count_def archive_impl_def)
qed

text \<open>
  A concrete zlib: the CRC-32 of the ZIP format, and a stream whose output is its input.
\<close>

definition crc_bit :: "u32 \<Rightarrow> u32" where
  "crc_bit c = (if bit c 0 then drop_bit 1 c XOR 0xEDB88320 else drop_bit 1 c)"

definition crc_byte :: "u32 \<Rightarrow> u8 \<Rightarrow> u32" where
  "crc_byte c b = (crc_bit ^^ 8) (c XOR ucast b)"

definition sample_zlib :: "unit zlib" where
  "sample_zlib = \<lparr>z_crc0 = 0, z_crc = (\<lambda>c bs. NOT (foldl crc_byte (NOT c) bs)), z_init = Some (),
     z_inflate = (\<lambda>finish inb avail z. if inb = [] then (Z_STREAM_END, 0, [], z)
                    else (Z_OK, min avail (length inb), take avail inb, z))\<rparr>"

lemma sample_crc_laws: "crc_laws sample_zlib"
  by (simp add: crc_laws_def sample_zlib_def)

lemma sample_progress: "inflate_progress sample_zlib"
  by (auto simp: inflate_progress_def sample_zlib_def UNIFROG_ZIP_IO_CHUNK_def split: if_splits)

lemma sample_fits: "inflate_fits sample_zlib"
  by (auto simp: inflate_fits_def sample_zlib_def)

definition sample_members :: "(tm option \<times> bytes \<times> bytes) list" where
  "sample_members = [(None, [0x61, 0x2f, 0x62], [1, 2, 3]), (None, [0x63], [])]"

lemma sample_archive_ok: "archive_ok sample_zlib (map member_of sample_members)"
proof -
  have "writer_name_valid [0x61, 0x2f, 0x62]" "writer_name_valid [0x63]" by code_simp+
  then show ?thesis
    by (simp add: archive_ok_def sample_members_def member_of_def length_archive_bytes ZIP_ENTRY_MAX_def
        LONG_MAX_def)
qed

theorem zip_roundtrip_witness:
  "\<exists>w0 w fin impl g inp. unifrog_zip_writer_open_path True True ''x.zip'' (Some (healthy [] 0)) = Some w0 \<and>
    writer_add_all sample_zlib sample_members w0 = (Some (), w) \<and>
    unifrog_zip_writer_close (Some w) = Some fin \<and> zret fin = 0 \<and> \<not> zremoved fin \<and> zcloses fin = 1 \<and>
    unifrog_zip_open_file (\<lambda>_. True) (healthy (fbytes (zstream fin)) 0) = (Some impl, g, 0) \<and>
    unifrog_zip_entry_count (Some impl) = length sample_members \<and>
    unifrog_zip_extract_name_to_file sample_zlib (Some impl) [0x61, 0x2f, 0x62] g (healthy [] 0) =
      Some (0, inp, healthy [1, 2, 3] (length ([1, 2, 3] :: bytes)))"
proof (rule zip_roundtrip [OF sample_crc_laws _ sample_archive_ok])
  show "distinct (map (\<lambda>x. fst (snd x)) sample_members)" by (simp add: sample_members_def)
  show "0 < length sample_members" by (simp add: sample_members_def)
  show "sample_members ! 0 = (None, [0x61, 0x2f, 0x62], [1, 2, 3])" by (simp add: sample_members_def)
qed simp

text \<open>
  An entry name is accepted exactly when it is not empty, has no NUL, and every segment
  between the separators slash, backslash and colon is non-empty and neither \<open>.\<close> nor \<open>..\<close>;
  only the last segment may be empty, after a final slash. So an accepted name is relative
  and cannot leave the directory it is extracted into.
\<close>

lemma zip_name_safe_iff:
  "zip_name_is_safe name \<longleftrightarrow>
     name \<noteq> [] \<and> 0 \<notin> set name \<and>
     list_all segment_ok (butlast (segments zip_is_separator name)) \<and>
     (segment_ok (last (segments zip_is_separator name)) \<or>
      last (segments zip_is_separator name) = [] \<and> last name = B_SLASH)"
  by (rule zip_name_is_safe_segments)

text \<open>
  C6. Whatever the bytes of the file and whichever calls fail, an archive that opens has a
  table in which every entry has a safe name that is no directory, a supported method, no
  encryption, and data that lies behind its local header and inside the file. The table is
  exactly as long as both arrays, and the file was not closed.
\<close>

theorem zip_open_table_safe:
  assumes "zip_open_from_file mem own f = (Some impl, g, k)"
  shows "zfile_size impl = length (fbytes f) \<and> k = 0 \<and> length (zentries impl) = zentry_count impl \<and>
    list_all2 (entry_in_file (length (fbytes f))) (zentries impl) (zdata_offsets impl)"
proof -
  from assms obtain cd n i nc h1 h2 h3 where
    d: "zip_directory mem (snd (f_tell f)) = (Some (zfile_size impl, cd, n), h1)" and
    c: "zip_count_loop n cd (zfile_size impl) 0 0 0 h1 =
      (Some (length cd, zentry_count impl, zname_storage impl), h2)" and
    l: "zip_fill_loop n cd (zfile_size impl) 0 0 0 (replicate (zentry_count impl)
       \<lparr>ename = [], eflags = 0, emethod = 0, ecrc32 = 0, ecompressed_size = 0,
        euncompressed_size = 0, elocal_offset = 0\<rparr>) (replicate (zentry_count impl) 0) h2 =
       (Some (i, nc, zentries impl, zdata_offsets impl), h3)" and k: "k = 0"
    by (rule zip_open_SomeD)
  have size: "zfile_size impl = length (fbytes f)"
    using zip_directory_size [OF d] reading_bytes(1) [of f _ "snd (f_tell f)"] by (metis prod.collapse)
  from count_fill_agree [OF c l] have i: "i = zentry_count impl" by simp
  from fill_loop_mono [OF l] have len: "length (zentries impl) = zentry_count impl"
    "length (zdata_offsets impl) = zentry_count impl" by simp_all
  from fill_loop_entries [OF l] i have "\<forall>j < zentry_count impl.
      entry_in_file (zfile_size impl) (zentries impl ! j) (zdata_offsets impl ! j)" by simp
  with size k len show ?thesis by (simp add: list_all2_conv_all_nth)
qed

definition sample_zip :: bytes where
  "sample_zip = archive_bytes sample_zlib (map member_of sample_members)"

abbreviation sample_impl :: "bool \<Rightarrow> zip_impl" where
  "sample_impl \<equiv> archive_impl sample_zlib (map member_of sample_members)"

lemma sample_open:
  "zip_open_from_file (\<lambda>_. True) own (healthy sample_zip 0) = (Some (sample_impl own), healthy sample_zip 0, 0)"
  by (rule zip_open_layout [OF sample_archive_ok]) (simp_all add: sample_zip_def)

theorem zip_open_table_safe_witness:
  "zfile_size (sample_impl True) = length sample_zip \<and> length (zentries (sample_impl True)) = 2 \<and>
    list_all2 (entry_in_file (length sample_zip)) (zentries (sample_impl True)) (zdata_offsets (sample_impl True))"
  using zip_open_table_safe [OF sample_open [of True]]
  by (simp add: archive_impl_def sample_members_def)

text \<open>
  The second pass stays inside the arrays that were allocated from the counts of the
  first: both passes visit the same records, so the store index ends at the number of
  entries, the name cursor ends at the size of the name storage, both only grow, and every
  slot holds an entry of the file.
\<close>

lemma zip_fill_within_counts:
  assumes "zip_count_loop n cd file_size 0 0 0 f = (Some (cur, supported_count, name_storage), g)"
    and "zip_fill_loop n cd file_size 0 0 0 (replicate supported_count e0) (replicate supported_count 0) f2 =
      (Some (entry_index, name_cursor, entries, offsets), g2)"
  shows "entry_index = supported_count \<and> name_cursor = name_storage \<and>
    list_all2 (entry_in_file file_size) entries offsets"
proof -
  from count_fill_agree [OF assms] have i: "entry_index = supported_count" "name_cursor = name_storage"
    by simp_all
  from fill_loop_mono [OF assms(2)] fill_loop_entries [OF assms(2)] i show ?thesis
    by (simp add: list_all2_conv_all_nth)
qed

lemma sample_loops:
  "\<exists>p q. zip_count_loop 2 (central_records sample_zlib 0 (map member_of sample_members)) (length sample_zip)
      0 0 0 (healthy sample_zip 0) =
      (Some (length (central_records sample_zlib 0 (map member_of sample_members)), 2, 6), healthy sample_zip p) \<and>
    zip_fill_loop 2 (central_records sample_zlib 0 (map member_of sample_members)) (length sample_zip) 0 0 0
      (replicate 2 (entry_of_scan undefined)) (replicate 2 0) (healthy sample_zip p) =
      (Some (2, 6, zentries (sample_impl True), zdata_offsets (sample_impl True)), healthy sample_zip q)"
proof -
  let ?ms = "map member_of sample_members"
  have n: "length ?ms = 2" "names_size ?ms = 6"
    by (simp_all add: sample_members_def names_size_def member_of_def)
  from archive_loops [OF sample_archive_ok sample_zip_def] show ?thesis
    unfolding n archive_impl_def by (metis length_replicate zip_impl.select_convs(3,4))
qed

lemma zip_fill_within_counts_witness:
  "list_all2 (entry_in_file (length sample_zip)) (zentries (sample_impl True)) (zdata_offsets (sample_impl True))"
  using sample_loops zip_fill_within_counts by blast

text \<open>
  C5. Extraction is verified. When extracting an entry of an opened table returns 0, the
  bytes appended to the output have the recorded checksum, and their number is the recorded
  size: exactly for a stored entry, and exactly for a deflated entry when a further output
  buffer would still fit below \<open>2 ^ 32\<close> bytes and \<open>inflate\<close> keeps to \<open>avail_out\<close>. Without
  that room zlib's 32-bit byte counter may wrap, and the number agrees modulo \<open>2 ^ 32\<close>. This
  holds whatever the file has in it, for an output stream that stands at its end and a
  checksum that can be taken piece by piece.
\<close>

theorem zip_extract_verified:
  assumes "zip_extract_entry_index zl impl i inp out = Some (0, inp', out')"
    and "crc_laws zl" "at_end out"
    and "entry_in_file fs (zentries impl ! i) (zdata_offsets impl ! i)"
  shows "\<exists>d. fbytes out' = fbytes out @ d \<and>
    z_crc zl (z_crc0 zl) d = ecrc32 (zentries impl ! i) \<and>
    word_of_nat (length d) = euncompressed_size (zentries impl ! i) \<and>
    (emethod (zentries impl ! i) = 0 \<or>
     inflate_fits zl \<and> unat (euncompressed_size (zentries impl ! i)) + UNIFROG_ZIP_IO_CHUNK < 2 ^ 32 \<longrightarrow>
     length d = unat (euncompressed_size (zentries impl ! i)))"
proof -
  let ?e = "zentries impl ! i"
  consider "emethod ?e = 0" "ecompressed_size ?e = euncompressed_size ?e" | "emethod ?e = 8"
    using assms(4) by (auto simp: entry_in_file_def)
  then show ?thesis
  proof cases
    case 1
    with assms(1) obtain f2 f3 where
      "zip_copy_stored zl (unat (ecompressed_size ?e)) (z_crc0 zl) f2 out = (Some (ecrc32 ?e), f3, out')"
      by (auto simp: zip_extract_entry_index_def Let_def split: prod.splits option.splits if_splits)
    from copy_stored_emits [OF this assms(3,2)] 1 show ?thesis
      by (intro exI) (auto simp: emitted_def)
  next
    case 2
    with assms(1) obtain f2 f3 where
      "zip_inflate_raw zl (ecompressed_size ?e) (euncompressed_size ?e) f2 out = Some (Some (ecrc32 ?e), f3, out')"
      by (auto simp: zip_extract_entry_index_def Let_def split: prod.splits option.splits if_splits)
    from inflate_raw_emits [OF this assms(3,2)] 2 show ?thesis
      unfolding emitted_def size_no_wrap_def by auto
  qed
qed

lemma sample_extract:
  "zip_extract_entry_index sample_zlib (sample_impl True) 0 (healthy sample_zip 0) (healthy [] 0) =
     Some (0, healthy sample_zip 0, healthy [1, 2, 3] 3)"
proof -
  let ?n = "[0x61, 0x2f, 0x62] :: bytes"
  have x: "map member_of sample_members ! 0 = \<lparr>mname = ?n, mdata = [1, 2, 3], mdate = 0x21, mtime = 0\<rparr>"
    by (simp add: sample_members_def member_of_def writer_dos_time_def)
  have "unifrog_zip_extract_name_to_file sample_zlib (Some (sample_impl True)) ?n
      (healthy sample_zip 0) (healthy [] 0) = Some (0, healthy sample_zip 0, healthy [1, 2, 3] 3)"
    using extract_layout [OF sample_crc_laws sample_archive_ok sample_zip_def, of 0 0 True]
    unfolding x by (simp add: sample_members_def member_of_def)
  moreover have "unifrog_zip_find (Some (sample_impl True)) ?n = Some 0" "zentry_count (sample_impl True) = 2"
    by (simp_all add: unifrog_zip_find_def archive_impl_def sample_members_def member_of_def
        entry_of_scan_def scan_of_def)
  ultimately show ?thesis
    by (simp add: unifrog_zip_extract_name_to_file_def unifrog_zip_extract_entry_to_file_def)
qed

theorem zip_extract_verified_witness:
  "\<exists>d. fbytes (healthy [1, 2, 3] 3) = fbytes (healthy [] 0) @ d \<and>
    z_crc sample_zlib (z_crc0 sample_zlib) d = ecrc32 (zentries (sample_impl True) ! 0) \<and>
    word_of_nat (length d) = euncompressed_size (zentries (sample_impl True) ! 0) \<and>
    (emethod (zentries (sample_impl True) ! 0) = 0 \<or>
     inflate_fits sample_zlib \<and>
     unat (euncompressed_size (zentries (sample_impl True) ! 0)) + UNIFROG_ZIP_IO_CHUNK < 2 ^ 32 \<longrightarrow>
     length d = unat (euncompressed_size (zentries (sample_impl True) ! 0)))"
proof (rule zip_extract_verified [OF sample_extract sample_crc_laws])
  have "list_all2 (entry_in_file (length sample_zip)) (zentries (sample_impl True)) (zdata_offsets (sample_impl True))"
    using sample_loops count_fill_agree fill_loop_mono fill_loop_entries
    by (fastforce simp: list_all2_conv_all_nth)
  then show "entry_in_file (length sample_zip) (zentries (sample_impl True) ! 0) (zdata_offsets (sample_impl True) ! 0)"
    by (rule list_all2_nthD) (simp add: archive_impl_def sample_members_def)
qed (simp add: at_end_def)

text \<open>
  The counter does wrap: with the largest recorded size the test after \<open>inflate\<close> never
  fails, so a stream that has produced \<open>2 ^ 32 - 1\<close> bytes may go on.
\<close>

lemma inflate_size_check_wraps:
  "\<exists>out'. inflate_call sample_zlib 0xFFFFFFFF False [7, 8, 9] (0, 0xFFFFFFFF, ()) (healthy [] 0) =
     (Some (Z_OK, [], 3, z_crc sample_zlib 0 [7, 8, 9], 2, ()), out') \<and> fbytes out' = [7, 8, 9]"
  by (simp add: inflate_call_def inflate_emit_def sample_zlib_def io_bind_def io_ret_def io_guard_def
      write_at_def UNIFROG_ZIP_IO_CHUNK_def)

text \<open>
  C23. Extraction by name always returns, with 0 or -1, for every name, input and output,
  provided that \<open>inflate\<close> answers \<open>Z_OK\<close> only after taking input or producing output and
  keeps to \<open>avail_out\<close>, as zlib documents, and that the recorded size of every deflated
  entry leaves room for one more output buffer below \<open>2 ^ 32\<close>, so that the 32-bit counter
  which bounds the output cannot wrap.
\<close>

theorem zip_extract_returns:
  assumes "inflate_progress zl" "inflate_fits zl"
    and "\<And>impl i. arc = Some impl \<Longrightarrow> i < zentry_count impl \<Longrightarrow> emethod (zentries impl ! i) = 8 \<Longrightarrow>
      unat (euncompressed_size (zentries impl ! i)) + UNIFROG_ZIP_IO_CHUNK < 2 ^ 32"
  shows "\<exists>ret inp' out'. unifrog_zip_extract_name_to_file zl arc name inp out = Some (ret, inp', out') \<and>
    (ret = 0 \<or> ret = -1)"
proof -
  have "\<exists>ret inp' out'. zip_extract_entry_index zl impl i inp out = Some (ret, inp', out') \<and> (ret = 0 \<or> ret = -1)"
    if "arc = Some impl" for impl i
  proof -
    let ?e = "zentries impl ! i"
    obtain rp f1 where tell: "f_tell inp = (rp, f1)" by (metis surj_pair)
    obtain s f2 where seek: "zip_seek (zdata_offsets impl ! i) f1 = (s, f2)" by (metis surj_pair)
    obtain c' f4 o4 where stored: "zip_copy_stored zl (unat (ecompressed_size ?e)) (z_crc0 zl) f2 out = (c', f4, o4)"
      by (metis prod_cases3)
    have raw: "\<exists>c f3 o3. zip_inflate_raw zl (ecompressed_size ?e) (euncompressed_size ?e) f2 out = Some (c, f3, o3)"
      if "i < zentry_count impl" "emethod ?e = 8"
      using inflate_raw_returns [OF assms(1,2), of "euncompressed_size ?e"]
        assms(3) [OF \<open>arc = Some impl\<close> that] by (auto simp: size_no_wrap_def)
    show ?thesis
      by (cases s; cases c')
         (use raw in \<open>auto simp: zip_extract_entry_index_def Let_def tell seek stored
            split: option.splits intro: leI\<close>)
  qed
  then show ?thesis
    by (auto simp: unifrog_zip_extract_name_to_file_def unifrog_zip_extract_entry_to_file_def
        split: option.splits)
qed

theorem zip_extract_returns_witness:
  "\<exists>ret inp' out'. unifrog_zip_extract_name_to_file sample_zlib (Some (sample_impl True)) [0x63]
      (healthy sample_zip 0) (healthy [] 0) = Some (ret, inp', out') \<and> (ret = 0 \<or> ret = -1)"
  by (rule zip_extract_returns [OF sample_progress sample_fits])
     (auto simp: archive_impl_def sample_members_def entry_of_scan_def scan_of_def less_Suc_eq)

section \<open>Failure paths\<close>

text \<open>
  When an owned archive fails after its structure was allocated, the file is closed twice:
  once by \<open>zip_free_impl\<close> and once by the function itself.
\<close>

lemma zip_open_closes_twice:
  assumes "archive_ok zl ms" "ms \<noteq> []"
  shows "snd (snd (zip_open_from_file (\<lambda>k. k \<noteq> 3) True (healthy (archive_bytes zl ms) 0))) = 2"
proof -
  let ?bs = "archive_bytes zl ms"
  from zip_directory_layout [OF assms(1) refl, of 0 "\<lambda>k. k \<noteq> 3"] obtain q1 where
    d: "zip_directory (\<lambda>k. k \<noteq> 3) (healthy ?bs 0) =
      (Some (length ?bs, central_records zl 0 ms, length ms), healthy ?bs q1)" by auto
  from archive_loops(1) [OF assms(1) refl, of q1] d assms(2) show ?thesis
    by (auto simp: zip_open_from_file_def zip_open_fail_def zip_free_impl_def)
qed

text \<open>When the end record cannot be written, the writer forgets its stream without closing it.\<close>

lemma zip_writer_close_leaks:
  assumes "writer_directory w = (Some rec, w1)" "write_exact rec (wfile w1) = (None, f)"
  shows "\<exists>fin. unifrog_zip_writer_close (Some w) = Some fin \<and> zret fin = -1 \<and> zcloses fin = 0"
  using assms by (simp add: unifrog_zip_writer_close_def)

end
