(* ===== verification/UF_Policy.thy ===== *)
theory UF_Policy
  imports UF_Prelude
begin

text \<open>
  The pure policy tables: the settings that the emulator menu cycles through
  (\<open>components/libretro/src/unifrog_libretro_policy.c\<close>), the storage profiles
  (\<open>foundation/src/storage/unifrog_storage_profile.c\<close>) and the log levels
  (\<open>foundation/src/runtime/unifrog_log_policy.c\<close>).

  Enumerations are their integer values; an \<open>unsigned\<close> argument that the code casts to
  \<open>int\<close> is a 32-bit word read by \<open>sint\<close>.
\<close>

section \<open>Libretro settings\<close>

definition UNIFROG_LIBRETRO_FRAMESKIP_OFF :: int where "UNIFROG_LIBRETRO_FRAMESKIP_OFF = 0"
definition UNIFROG_LIBRETRO_FRAMESKIP_AUTO :: int where "UNIFROG_LIBRETRO_FRAMESKIP_AUTO = 1"
definition UNIFROG_LIBRETRO_FRAMESKIP_FIXED_1 :: int where "UNIFROG_LIBRETRO_FRAMESKIP_FIXED_1 = 2"
definition UNIFROG_LIBRETRO_FRAMESKIP_FIXED_2 :: int where "UNIFROG_LIBRETRO_FRAMESKIP_FIXED_2 = 3"
definition UNIFROG_LIBRETRO_DISPLAY_FIT :: int where "UNIFROG_LIBRETRO_DISPLAY_FIT = 0"
definition UNIFROG_LIBRETRO_DISPLAY_STRETCH :: int where "UNIFROG_LIBRETRO_DISPLAY_STRETCH = 1"
definition UNIFROG_LIBRETRO_DISPLAY_ORIGINAL :: int where "UNIFROG_LIBRETRO_DISPLAY_ORIGINAL = 2"
definition UNIFROG_LIBRETRO_INPUT_DEFAULT :: int where "UNIFROG_LIBRETRO_INPUT_DEFAULT = 0"
definition UNIFROG_LIBRETRO_INPUT_RETROARCH :: int where "UNIFROG_LIBRETRO_INPUT_RETROARCH = 1"
definition UNIFROG_LIBRETRO_INPUT_GENESIS :: int where "UNIFROG_LIBRETRO_INPUT_GENESIS = 2"
definition UNIFROG_LIBRETRO_INPUT_SWAP_AB :: int where "UNIFROG_LIBRETRO_INPUT_SWAP_AB = 3"
definition UNIFROG_LIBRETRO_INPUT_SWAP_XY :: int where "UNIFROG_LIBRETRO_INPUT_SWAP_XY = 4"
definition UNIFROG_GE_CLOCK_198MHZ :: int where "UNIFROG_GE_CLOCK_198MHZ = 0"
definition UNIFROG_GE_CLOCK_148MHZ :: int where "UNIFROG_GE_CLOCK_148MHZ = 1"
definition UNIFROG_GE_CLOCK_225MHZ :: int where "UNIFROG_GE_CLOCK_225MHZ = 2"
definition UNIFROG_GE_CLOCK_238MHZ :: int where "UNIFROG_GE_CLOCK_238MHZ = 3"

lemmas policy_enums =
  UNIFROG_LIBRETRO_FRAMESKIP_OFF_def UNIFROG_LIBRETRO_FRAMESKIP_AUTO_def
  UNIFROG_LIBRETRO_FRAMESKIP_FIXED_1_def UNIFROG_LIBRETRO_FRAMESKIP_FIXED_2_def
  UNIFROG_LIBRETRO_DISPLAY_FIT_def UNIFROG_LIBRETRO_DISPLAY_STRETCH_def
  UNIFROG_LIBRETRO_DISPLAY_ORIGINAL_def UNIFROG_LIBRETRO_INPUT_DEFAULT_def
  UNIFROG_LIBRETRO_INPUT_RETROARCH_def UNIFROG_LIBRETRO_INPUT_GENESIS_def
  UNIFROG_LIBRETRO_INPUT_SWAP_AB_def UNIFROG_LIBRETRO_INPUT_SWAP_XY_def
  UNIFROG_GE_CLOCK_198MHZ_def UNIFROG_GE_CLOCK_148MHZ_def UNIFROG_GE_CLOCK_225MHZ_def
  UNIFROG_GE_CLOCK_238MHZ_def

definition cpu_mhz_values :: "int list" where
  "cpu_mhz_values = [0, 198, 297, 396, 594, 702, 756, 808, 810, 864, 918]"

definition system_cores :: "(string \<times> string) list" where
  "system_cores =
    [(''ARCADE'', ''fbalpha2012''), (''NEOGEO'', ''fbalpha2012''), (''ATARI'', ''stella2014''),
     (''ATARI2600'', ''stella2014''), (''A2600'', ''stella2014''), (''ATARI5200'', ''a5200''),
     (''A5200'', ''a5200''), (''ATARI7800'', ''prosystem''), (''A7800'', ''prosystem''),
     (''GB'', ''gambatte''), (''GBC'', ''gambatte''), (''GBA'', ''gpsp''), (''FC'', ''quicknes''),
     (''NES'', ''quicknes''), (''SFC'', ''snes9x2005''), (''SNES'', ''snes9x2005''),
     (''GG'', ''picodrive''), (''GAMEGEAR'', ''picodrive''), (''SMS'', ''picodrive''),
     (''MD'', ''picodrive''), (''GENESIS'', ''picodrive''), (''MEGADRIVE'', ''picodrive''),
     (''PCE'', ''pce-fast''), (''TG16'', ''pce-fast''), (''TURBOGRAFX-16'', ''pce-fast''),
     (''PS'', ''qpsx''), (''PS1'', ''qpsx''), (''PSX'', ''qpsx''), (''LYNX'', ''handy''),
     (''NGP'', ''race''), (''NGPC'', ''race''), (''WS'', ''beetle-cygne''),
     (''WSC'', ''beetle-cygne''), (''COLECO'', ''gearcoleco''), (''COLECOVISION'', ''gearcoleco''),
     (''MSX'', ''bluemsx-prosty''), (''C64'', ''frodo-prosty''), (''PICO8'', ''fake08-prosty'')]"

text \<open>The first index that holds the value, as the search loop of \<open>cycle_index\<close> finds it.\<close>

fun index_loop :: "int list \<Rightarrow> int \<Rightarrow> nat \<Rightarrow> nat option" where
  "index_loop [] current i = None"
| "index_loop (v # vs) current i = (if v = current then Some i else index_loop vs current (Suc i))"

definition cycle_index :: "int list \<Rightarrow> int \<Rightarrow> int \<Rightarrow> nat \<Rightarrow> nat" where
  "cycle_index values current delta fallback =
     (let n = length values;
          start = (if fallback < n then fallback else 0);
          index = (case index_loop values current 0 of None \<Rightarrow> start | Some i \<Rightarrow> i)
      in if delta < 0 then (if index = 0 then n - 1 else index - 1)
         else (index + 1) mod n)"

definition fast_forward_values :: "int list" where "fast_forward_values = [0, 2, 4, 8, 16]"

definition unifrog_libretro_policy_fast_forward :: "u32 \<Rightarrow> int \<Rightarrow> u32" where
  "unifrog_libretro_policy_fast_forward current delta =
     of_int (fast_forward_values ! cycle_index fast_forward_values (sint current) delta 0)"

definition unifrog_libretro_policy_audio_gain :: "u32 \<Rightarrow> u32" where
  "unifrog_libretro_policy_audio_gain configured = (if configured \<le> 4 then configured else 1)"

definition unifrog_libretro_policy_cpu_count :: "bool \<Rightarrow> nat" where
  "unifrog_libretro_policy_cpu_count include_default =
     length cpu_mhz_values - (if include_default then 0 else 1)"

definition unifrog_libretro_policy_cpu_at :: "nat \<Rightarrow> bool \<Rightarrow> u32" where
  "unifrog_libretro_policy_cpu_at index include_default =
     (let offset = (if include_default then 0 else 1);
          n = unifrog_libretro_policy_cpu_count include_default
      in if index < n then of_int (cpu_mhz_values ! (index + offset)) else 0)"

definition unifrog_libretro_policy_cpu_valid :: "u32 \<Rightarrow> bool" where
  "unifrog_libretro_policy_cpu_valid mhz = list_ex (\<lambda>v. of_int v = mhz) cpu_mhz_values"

definition unifrog_libretro_policy_cpu :: "u32 \<Rightarrow> int \<Rightarrow> bool \<Rightarrow> u32" where
  "unifrog_libretro_policy_cpu current delta include_default =
     (let offset = (if include_default then 0 else 1);
          n = unifrog_libretro_policy_cpu_count include_default
      in of_int (cpu_mhz_values !
           (offset + cycle_index (take n (drop offset cpu_mhz_values)) (sint current) delta 0)))"

definition frameskip_values :: "int list" where
  "frameskip_values = [UNIFROG_LIBRETRO_FRAMESKIP_OFF, UNIFROG_LIBRETRO_FRAMESKIP_AUTO,
     UNIFROG_LIBRETRO_FRAMESKIP_FIXED_1, UNIFROG_LIBRETRO_FRAMESKIP_FIXED_2]"

definition unifrog_libretro_policy_frameskip :: "int \<Rightarrow> int \<Rightarrow> int" where
  "unifrog_libretro_policy_frameskip current delta =
     frameskip_values ! cycle_index frameskip_values current delta 0"

definition display_values :: "int list" where
  "display_values = [UNIFROG_LIBRETRO_DISPLAY_FIT, UNIFROG_LIBRETRO_DISPLAY_STRETCH,
     UNIFROG_LIBRETRO_DISPLAY_ORIGINAL]"

definition unifrog_libretro_policy_display :: "int \<Rightarrow> int \<Rightarrow> int" where
  "unifrog_libretro_policy_display current delta =
     display_values ! cycle_index display_values current delta 0"

definition input_values :: "int list" where
  "input_values = [UNIFROG_LIBRETRO_INPUT_DEFAULT, UNIFROG_LIBRETRO_INPUT_RETROARCH,
     UNIFROG_LIBRETRO_INPUT_GENESIS, UNIFROG_LIBRETRO_INPUT_SWAP_AB, UNIFROG_LIBRETRO_INPUT_SWAP_XY]"

definition unifrog_libretro_policy_input_profile :: "int \<Rightarrow> int \<Rightarrow> int" where
  "unifrog_libretro_policy_input_profile current delta =
     input_values ! cycle_index input_values current delta 0"

definition ge_clock_values :: "int list" where
  "ge_clock_values = [UNIFROG_GE_CLOCK_148MHZ, UNIFROG_GE_CLOCK_198MHZ, UNIFROG_GE_CLOCK_225MHZ,
     UNIFROG_GE_CLOCK_238MHZ]"

definition unifrog_libretro_policy_ge_clock :: "int \<Rightarrow> int \<Rightarrow> int" where
  "unifrog_libretro_policy_ge_clock current delta =
     ge_clock_values ! cycle_index ge_clock_values current delta 1"

text \<open>\<open>None\<close> is a null table; the two loops are searches from the end and from the start.\<close>

definition unifrog_libretro_policy_level :: "u32 list option \<Rightarrow> u32 \<Rightarrow> int \<Rightarrow> u32" where
  "unifrog_libretro_policy_level levels current delta =
     (case levels of
        None \<Rightarrow> current
      | Some [] \<Rightarrow> current
      | Some (l # ls) \<Rightarrow>
          if delta < 0
          then (case find (\<lambda>v. v < current) (rev (l # ls)) of Some v \<Rightarrow> v | None \<Rightarrow> last (l # ls))
          else (case find (\<lambda>v. v > current) (l # ls) of Some v \<Rightarrow> v | None \<Rightarrow> l))"

definition unifrog_libretro_policy_frameskip_label :: "int \<Rightarrow> string" where
  "unifrog_libretro_policy_frameskip_label frameskip =
     (if frameskip = UNIFROG_LIBRETRO_FRAMESKIP_AUTO then ''Auto''
      else if frameskip = UNIFROG_LIBRETRO_FRAMESKIP_FIXED_1 then ''1''
      else if frameskip = UNIFROG_LIBRETRO_FRAMESKIP_FIXED_2 then ''2''
      else ''Off'')"

definition unifrog_libretro_policy_ge_label :: "int \<Rightarrow> string" where
  "unifrog_libretro_policy_ge_label ge_clock =
     (if ge_clock = UNIFROG_GE_CLOCK_148MHZ then ''148''
      else if ge_clock = UNIFROG_GE_CLOCK_225MHZ then ''225''
      else if ge_clock = UNIFROG_GE_CLOCK_238MHZ then ''238''
      else ''198'')"

text \<open>The scan of the alternatives: \<open>cursor\<close> is the rest of the list at the start of one.\<close>

function archive_loop :: "string \<Rightarrow> string \<Rightarrow> bool" where
  "archive_loop ext cursor =
     (if cursor = [] then False
      else let piece = takeWhile (\<lambda>c. c \<noteq> CHR ''|'') cursor;
               rest = dropWhile (\<lambda>c. c \<noteq> CHR ''|'') cursor;
               name = dropWhile (\<lambda>c. c = CHR ''.'') piece
           in if length name = length ext \<and> strcase_eq name ext then True
              else archive_loop ext (if rest \<noteq> [] then tl rest else rest))"
  by pat_completeness auto
termination
proof (relation "measure (\<lambda>(e, c). length c)", goal_cases)
  case (2 ext cursor piece rest name)
  have "length (if rest \<noteq> [] then tl rest else rest) < length cursor"
  proof (cases rest)
    case Nil
    with 2 show ?thesis by simp
  next
    case (Cons c cs)
    moreover have "length rest \<le> length cursor"
      unfolding 2(3) by (rule length_dropWhile_le)
    ultimately show ?thesis by simp
  qed
  then show ?case by simp
qed simp

declare archive_loop.simps [simp del]

definition path_extension :: "string \<Rightarrow> string option" where
  "path_extension path =
     (let name = (case str_rchr path SLASH of None \<Rightarrow> path | Some i \<Rightarrow> drop (Suc i) path)
      in case str_rchr name (CHR ''.'') of
           None \<Rightarrow> None
         | Some i \<Rightarrow> if drop (Suc i) name = [] then None else Some (drop (Suc i) name))"

definition unifrog_libretro_policy_native_archive :: "bool \<Rightarrow> string option \<Rightarrow> string option \<Rightarrow> bool" where
  "unifrog_libretro_policy_native_archive need_fullpath valid_extensions path =
     (case (valid_extensions, path) of
        (Some exts, Some p) \<Rightarrow>
          if \<not> need_fullpath then False
          else (case path_extension p of
                  None \<Rightarrow> False
                | Some ext \<Rightarrow>
                    if \<not> strcase_eq ext ''zip'' \<and> \<not> strcase_eq ext ''7z'' then False
                    else archive_loop ext exts)
      | _ \<Rightarrow> False)"

definition unifrog_libretro_policy_system_core :: "string option \<Rightarrow> string option" where
  "unifrog_libretro_policy_system_core sys =
     (case sys of
        None \<Rightarrow> None
      | Some [] \<Rightarrow> None
      | Some s \<Rightarrow> map_option snd (find (\<lambda>(n, core). strcase_eq s n) system_cores))"

section \<open>Storage profiles\<close>

record storage_profile_info =
  sp_name :: string
  sp_label :: string
  sp_bus_width :: string
  sp_timing :: string
  sp_signal :: string

definition profile :: "string \<Rightarrow> string \<Rightarrow> string \<Rightarrow> string \<Rightarrow> string \<Rightarrow> storage_profile_info" where
  "profile n l b t s = \<lparr>sp_name = n, sp_label = l, sp_bus_width = b, sp_timing = t, sp_signal = s\<rparr>"

definition profiles :: "storage_profile_info list" where
  "profiles =
    [profile ''boot'' ''boot profile'' ''build setting'' ''build setting'' ''build setting'',
     profile ''auto'' ''automatic fallback'' ''automatic'' ''normal/fallback'' ''automatic'',
     profile ''safe'' ''1-bit safe 25 MHz'' ''1-bit'' ''legacy 25 MHz'' ''3.3 V'',
     profile ''wide1'' ''4-bit 1 MHz'' ''4-bit'' ''legacy 1 MHz'' ''3.3 V'',
     profile ''wide2'' ''4-bit 2 MHz'' ''4-bit'' ''legacy 2 MHz'' ''3.3 V'',
     profile ''wide4'' ''4-bit 4 MHz'' ''4-bit'' ''legacy 4 MHz'' ''3.3 V'',
     profile ''wide8'' ''4-bit 8 MHz'' ''4-bit'' ''legacy 8 MHz'' ''3.3 V'',
     profile ''wide10'' ''4-bit 10 MHz'' ''4-bit'' ''legacy 10 MHz'' ''3.3 V'',
     profile ''wide12'' ''4-bit 12 MHz'' ''4-bit'' ''legacy 12 MHz'' ''3.3 V'',
     profile ''wide14'' ''4-bit 14 MHz'' ''4-bit'' ''legacy 14 MHz'' ''3.3 V'',
     profile ''wide16'' ''4-bit 16 MHz'' ''4-bit'' ''legacy 16 MHz'' ''3.3 V'',
     profile ''wide18'' ''4-bit 18 MHz'' ''4-bit'' ''legacy 18 MHz'' ''3.3 V'',
     profile ''wide20'' ''4-bit 20 MHz'' ''4-bit'' ''legacy 20 MHz'' ''3.3 V'',
     profile ''wide22'' ''4-bit 22 MHz'' ''4-bit'' ''legacy 22 MHz'' ''3.3 V'',
     profile ''wide24'' ''4-bit 24 MHz'' ''4-bit'' ''legacy 24 MHz'' ''3.3 V'',
     profile ''wide25'' ''4-bit 25 MHz'' ''4-bit'' ''legacy 25 MHz'' ''3.3 V'',
     profile ''wide37'' ''4-bit HS 37 MHz'' ''4-bit'' ''high speed 37 MHz'' ''3.3 V'',
     profile ''hs1'' ''1-bit HS max'' ''1-bit'' ''high speed maximum'' ''3.3 V'',
     profile ''wide50'' ''4-bit HS 50 MHz'' ''4-bit'' ''high speed 50 MHz'' ''3.3 V'',
     profile ''wide'' ''4-bit HS max'' ''4-bit'' ''high speed maximum'' ''3.3 V'',
     profile ''uhs12'' ''UHS SDR12'' ''4-bit'' ''UHS SDR12'' ''1.8 V'',
     profile ''uhs25'' ''UHS SDR25'' ''4-bit'' ''UHS SDR25'' ''1.8 V'',
     profile ''uhs'' ''UHS max'' ''4-bit'' ''UHS maximum'' ''1.8 V'']"

definition unifrog_storage_profile_info :: "string option \<Rightarrow> storage_profile_info" where
  "unifrog_storage_profile_info p =
     (let name = (case p of None \<Rightarrow> ''boot'' | Some s \<Rightarrow> if s = [] then ''boot'' else s)
      in case find (\<lambda>i. name = sp_name i) profiles of Some i \<Rightarrow> i | None \<Rightarrow> hd profiles)"

definition unifrog_storage_profile_count :: nat where
  "unifrog_storage_profile_count = length profiles"

definition unifrog_storage_profile_name :: "nat \<Rightarrow> string option" where
  "unifrog_storage_profile_name index =
     (if index < unifrog_storage_profile_count then Some (sp_name (profiles ! index)) else None)"

section \<open>Log levels\<close>

text \<open>A level is an \<open>int\<close>, so that values outside the enumeration are covered.\<close>

definition UNIFROG_LOG_TRACE :: int where "UNIFROG_LOG_TRACE = 0"
definition UNIFROG_LOG_OFF :: int where "UNIFROG_LOG_OFF = 5"

definition level_names :: "string list" where
  "level_names = [''trace'', ''debug'', ''info'', ''warn'', ''error'', ''off'']"

definition unifrog_log_level_name :: "int \<Rightarrow> string" where
  "unifrog_log_level_name level =
     (if 0 \<le> level \<and> level < int (length level_names) then level_names ! nat level else ''info'')"

fun level_loop :: "string list \<Rightarrow> string \<Rightarrow> int \<Rightarrow> int \<Rightarrow> int" where
  "level_loop [] name i fallback = fallback"
| "level_loop (l # ls) name i fallback =
     (if strcase_eq name l then i else level_loop ls name (i + 1) fallback)"

definition unifrog_log_level_from_name :: "string option \<Rightarrow> int \<Rightarrow> int" where
  "unifrog_log_level_from_name name fallback =
     (case name of None \<Rightarrow> fallback
      | Some s \<Rightarrow> if s = [] then fallback else level_loop level_names s 0 fallback)"

text \<open>The new \<open>active_level\<close>.\<close>

definition unifrog_log_set_level :: "int \<Rightarrow> int" where
  "unifrog_log_set_level level =
     (if 0 \<le> level \<and> level \<le> UNIFROG_LOG_OFF then level else UNIFROG_LOG_TRACE)"

definition unifrog_log_would_write :: "int \<Rightarrow> int \<Rightarrow> bool" where
  "unifrog_log_would_write active_level level \<longleftrightarrow>
     active_level \<noteq> UNIFROG_LOG_OFF \<and> level \<ge> active_level \<and> level < UNIFROG_LOG_OFF"

section \<open>Cyclic settings\<close>

text \<open>
  The contract of a menu setting: a finite list of values without repetition, a step that
  moves by one position in the direction of \<open>delta\<close> and wraps around, and that answers an
  unknown value with a value of the list.
\<close>

locale cyclic_setting =
  fixes step :: "'v \<Rightarrow> int \<Rightarrow> 'v" and vals :: "'v list"
  assumes vals_distinct: "distinct vals" and vals_nonempty: "vals \<noteq> []"
    and step_at: "i < length vals \<Longrightarrow> step (vals ! i) d =
      vals ! (if d < 0 then (if i = 0 then length vals - 1 else i - 1) else (i + 1) mod length vals)"
    and step_in: "step x d \<in> set vals"
begin

lemma forth_back: "x \<in> set vals \<Longrightarrow> 0 \<le> d \<Longrightarrow> e < 0 \<Longrightarrow> step (step x d) e = x"
proof -
  assume "x \<in> set vals" and d: "0 \<le> d" "e < 0"
  then obtain i where i: "i < length vals" "x = vals ! i" by (auto simp: in_set_conv_nth)
  show ?thesis
  proof (cases "Suc i < length vals")
    case True
    with i d show ?thesis by (simp add: step_at)
  next
    case False
    then have "length vals = Suc i" using i(1) by simp
    with i d show ?thesis by (simp add: step_at)
  qed
qed

lemma back_forth: "x \<in> set vals \<Longrightarrow> 0 \<le> d \<Longrightarrow> e < 0 \<Longrightarrow> step (step x e) d = x"
proof -
  assume "x \<in> set vals" and d: "0 \<le> d" "e < 0"
  then obtain i where i: "i < length vals" "x = vals ! i" by (auto simp: in_set_conv_nth)
  with d vals_nonempty show ?thesis by (cases i) (simp_all add: step_at)
qed

lemma steps_at: "i < length vals \<Longrightarrow> 0 \<le> d \<Longrightarrow>
  ((\<lambda>x. step x d) ^^ n) (vals ! i) = vals ! ((i + n) mod length vals)"
proof (induction n)
  case (Suc n)
  have "(i + n) mod length vals < length vals" using vals_nonempty by simp
  with Suc show ?case by (simp add: step_at mod_Suc_eq)
qed simp

lemma reaches_all: "x \<in> set vals \<Longrightarrow> y \<in> set vals \<Longrightarrow> 0 \<le> d \<Longrightarrow>
  \<exists>n < length vals. ((\<lambda>x. step x d) ^^ n) x = y"
proof -
  assume "x \<in> set vals" "y \<in> set vals" and d: "0 \<le> d"
  then obtain i j where ij: "i < length vals" "x = vals ! i" "j < length vals" "y = vals ! j"
    by (auto simp: in_set_conv_nth)
  show ?thesis
  proof (cases "i \<le> j")
    case True
    with ij d show ?thesis by (intro exI [of _ "j - i"]) (auto simp: steps_at)
  next
    case False
    with ij d show ?thesis
      by (intro exI [of _ "length vals - i + j"]) (auto simp: steps_at)
  qed
qed

end

lemma index_loop_nth: "distinct vs \<Longrightarrow> i < length vs \<Longrightarrow> index_loop vs (vs ! i) k = Some (k + i)"
proof (induction vs arbitrary: i k)
  case (Cons v vs)
  then show ?case by (cases i) auto
qed simp

lemma index_loop_less: "index_loop vs c k = Some j \<Longrightarrow> k \<le> j \<and> j < k + length vs"
  by (induction vs arbitrary: k) (fastforce split: if_splits)+

lemma cycle_index_at:
  "distinct vs \<Longrightarrow> i < length vs \<Longrightarrow> cycle_index vs (vs ! i) d fb =
     (if d < 0 then (if i = 0 then length vs - 1 else i - 1) else (i + 1) mod length vs)"
  by (simp add: cycle_index_def Let_def index_loop_nth)

lemma cycle_index_less: "vs \<noteq> [] \<Longrightarrow> cycle_index vs c d fb < length vs"
  by (auto simp: cycle_index_def Let_def split: option.splits dest!: index_loop_less)

lemma cyclic_setting_cycle:
  assumes "distinct vs" "vs \<noteq> []" "\<And>v. v \<in> set vs \<Longrightarrow> g (f v) = v"
  shows "cyclic_setting (\<lambda>c d. f (vs ! cycle_index vs (g c) d fb)) (map f vs)"
proof
  show "distinct (map f vs)" using assms by (auto simp: distinct_map intro!: inj_on_inverseI [of _ g])
  show "map f vs \<noteq> []" using assms(2) by simp
  show "f (vs ! cycle_index vs (g x) d fb) \<in> set (map f vs)" for x d
    using cycle_index_less [OF assms(2)] by simp
  fix i :: nat and d :: int
  assume i: "i < length (map f vs)"
  then have g: "g (map f vs ! i) = vs ! i" using assms(3) by simp
  let ?j = "if d < 0 then (if i = 0 then length vs - 1 else i - 1) else (i + 1) mod length vs"
  have j: "?j < length vs" using i assms(2) by auto
  have "cycle_index vs (g (map f vs ! i)) d fb = ?j"
    unfolding g using i by (intro cycle_index_at [OF assms(1)]) simp
  then show "f (vs ! cycle_index vs (g (map f vs ! i)) d fb) = map f vs !
      (if d < 0 then if i = 0 then length (map f vs) - 1 else i - 1 else (i + 1) mod length (map f vs))"
    using j by (simp only: length_map nth_map)
qed

lemma sint_small: "list_all (\<lambda>v. 0 \<le> v \<and> v < 2 ^ 31) vs \<Longrightarrow> v \<in> set vs \<Longrightarrow> sint (of_int v :: u32) = v"
  by (auto simp: list_all_iff signed_of_int signed_take_bit_int_eq_self)

lemma cyclic_setting_words:
  assumes "distinct vs" "vs \<noteq> []" "list_all (\<lambda>v. 0 \<le> v \<and> v < 2 ^ 31) vs"
  shows "cyclic_setting (\<lambda>c d. (of_int (vs ! cycle_index vs (sint c) d fb) :: u32)) (map of_int vs)"
  using assms by (intro cyclic_setting_cycle sint_small)

lemmas policy_values = frameskip_values_def display_values_def input_values_def ge_clock_values_def
  fast_forward_values_def cpu_mhz_values_def policy_enums

interpretation frameskip: cyclic_setting unifrog_libretro_policy_frameskip frameskip_values
  using cyclic_setting_cycle [of frameskip_values id id 0]
  by (simp add: unifrog_libretro_policy_frameskip_def [abs_def] policy_values)

interpretation display: cyclic_setting unifrog_libretro_policy_display display_values
  using cyclic_setting_cycle [of display_values id id 0]
  by (simp add: unifrog_libretro_policy_display_def [abs_def] policy_values)

interpretation input_profile: cyclic_setting unifrog_libretro_policy_input_profile input_values
  using cyclic_setting_cycle [of input_values id id 0]
  by (simp add: unifrog_libretro_policy_input_profile_def [abs_def] policy_values)

interpretation ge_clock: cyclic_setting unifrog_libretro_policy_ge_clock ge_clock_values
  using cyclic_setting_cycle [of ge_clock_values id id 1]
  by (simp add: unifrog_libretro_policy_ge_clock_def [abs_def] policy_values)

definition fast_forward_words :: "u32 list" where "fast_forward_words = [0, 2, 4, 8, 16]"

interpretation fast_forward: cyclic_setting unifrog_libretro_policy_fast_forward fast_forward_words
  using cyclic_setting_words [of fast_forward_values 0]
  by (simp add: unifrog_libretro_policy_fast_forward_def [abs_def] policy_values fast_forward_words_def)

text \<open>The clock menu with and without the entry 0, which stands for the default clock.\<close>

definition cpu_words :: "bool \<Rightarrow> u32 list" where
  "cpu_words include_default =
     (if include_default then [0] else []) @ [198, 297, 396, 594, 702, 756, 808, 810, 864, 918]"

lemma cpu_step_True:
  "unifrog_libretro_policy_cpu current delta True =
     of_int (cpu_mhz_values ! cycle_index cpu_mhz_values (sint current) delta 0)"
  by (simp add: unifrog_libretro_policy_cpu_def unifrog_libretro_policy_cpu_count_def)

lemma cpu_step_False:
  "unifrog_libretro_policy_cpu current delta False =
     of_int (tl cpu_mhz_values ! cycle_index (tl cpu_mhz_values) (sint current) delta 0)"
  by (simp add: unifrog_libretro_policy_cpu_def unifrog_libretro_policy_cpu_count_def drop_Suc
      nth_tl cpu_mhz_values_def)

interpretation cpu_menu: cyclic_setting "\<lambda>c d. unifrog_libretro_policy_cpu c d True" "cpu_words True"
  using cyclic_setting_words [of cpu_mhz_values 0]
  by (simp add: cpu_step_True policy_values cpu_words_def)

interpretation cpu_fixed: cyclic_setting "\<lambda>c d. unifrog_libretro_policy_cpu c d False" "cpu_words False"
  using cyclic_setting_words [of "tl cpu_mhz_values" 0]
  by (simp add: cpu_step_False policy_values cpu_words_def)

section \<open>Archives and systems\<close>

lemma split_on_takeWhile:
  "split_on c s = takeWhile (\<lambda>x. x \<noteq> c) s #
     (case dropWhile (\<lambda>x. x \<noteq> c) s of [] \<Rightarrow> [] | _ # r \<Rightarrow> split_on c r)"
  by (induction s) auto

lemma archive_loop_alternatives:
  "ext \<noteq> [] \<Longrightarrow> archive_loop ext cursor \<longleftrightarrow>
     (\<exists>alt \<in> set (split_on (CHR ''|'') cursor). strcase_eq (dropWhile (\<lambda>c. c = CHR ''.'') alt) ext)"
proof (induction ext cursor rule: archive_loop.induct)
  case (1 ext cursor)
  let ?piece = "takeWhile (\<lambda>c. c \<noteq> CHR ''|'') cursor" and ?rest = "dropWhile (\<lambda>c. c \<noteq> CHR ''|'') cursor"
  let ?hit = "\<lambda>alt. strcase_eq (dropWhile (\<lambda>c. c = CHR ''.'') alt) ext"
  note unf = archive_loop.simps [of ext cursor]
  have none: "\<not> ?hit []" using "1.prems" by (auto simp: strcase_eq_def)
  have len: "?hit alt \<Longrightarrow> length (dropWhile (\<lambda>c. c = CHR ''.'') alt) = length ext" for alt
    by (rule strcase_eq_length)
  show ?case
  proof (cases "cursor = []")
    case True
    with none show ?thesis unfolding unf by simp
  next
    case False
    have sp: "split_on (CHR ''|'') cursor = ?piece # (case ?rest of [] \<Rightarrow> [] | _ # r \<Rightarrow> split_on (CHR ''|'') r)"
      by (rule split_on_takeWhile)
    show ?thesis
    proof (cases "?hit ?piece")
      case True
      with False len sp show ?thesis unfolding unf by (simp add: Let_def)
    next
      case miss: False
      have step: "archive_loop ext cursor \<longleftrightarrow> archive_loop ext (if ?rest \<noteq> [] then tl ?rest else ?rest)"
        unfolding unf using False miss by (simp add: Let_def)
      have IH: "archive_loop ext (if ?rest \<noteq> [] then tl ?rest else ?rest) \<longleftrightarrow>
          (\<exists>alt \<in> set (split_on (CHR ''|'') (if ?rest \<noteq> [] then tl ?rest else ?rest)). ?hit alt)"
        using "1.IH" [OF False refl refl refl _ "1.prems"] miss by blast
      show ?thesis
      proof (cases ?rest)
        case Nil
        with step IH miss none sp show ?thesis by simp
      next
        case (Cons c r)
        with step IH miss sp show ?thesis by simp
      qed
    qed
  qed
qed

lemma system_cores_lower:
  "map (\<lambda>row. map to_lower (fst row)) system_cores =
    [''arcade'', ''neogeo'', ''atari'', ''atari2600'', ''a2600'', ''atari5200'', ''a5200'', ''atari7800'',
     ''a7800'', ''gb'', ''gbc'', ''gba'', ''fc'', ''nes'', ''sfc'', ''snes'', ''gg'', ''gamegear'', ''sms'',
     ''md'', ''genesis'', ''megadrive'', ''pce'', ''tg16'', ''turbografx-16'', ''ps'', ''ps1'', ''psx'',
     ''lynx'', ''ngp'', ''ngpc'', ''ws'', ''wsc'', ''coleco'', ''colecovision'', ''msx'', ''c64'', ''pico8'']"
  by (simp add: system_cores_def to_lower_def char_of_def bit_Suc_0_iff)

lemma system_cores_distinct: "distinct (map (\<lambda>row. map to_lower (fst row)) system_cores)"
  unfolding system_cores_lower by simp

section \<open>Properties\<close>

text \<open>
  The clock menu. From every clock of the menu, a step forward and a step back cancel in
  either order, stepping forward visits every other clock of the menu before it repeats, and
  from any value whatsoever a step gives a clock that \<open>cpu_valid\<close> accepts.
\<close>

lemma libretro_cpu_menu:
  assumes "current \<in> set (cpu_words b)" "other \<in> set (cpu_words b)" "0 \<le> d" "e < 0"
  shows "unifrog_libretro_policy_cpu (unifrog_libretro_policy_cpu current d b) e b = current \<and>
    unifrog_libretro_policy_cpu (unifrog_libretro_policy_cpu current e b) d b = current \<and>
    (\<exists>n < length (cpu_words b). ((\<lambda>c. unifrog_libretro_policy_cpu c d b) ^^ n) current = other) \<and>
    unifrog_libretro_policy_cpu_valid (unifrog_libretro_policy_cpu any k b)"
proof -
  have valid: "list_all unifrog_libretro_policy_cpu_valid (cpu_words True)"
    "list_all unifrog_libretro_policy_cpu_valid (cpu_words False)" by code_simp+
  show ?thesis
  proof (cases b)
    case True
    with assms valid(1) cpu_menu.step_in show ?thesis
      by (auto simp: list_all_iff intro: cpu_menu.forth_back cpu_menu.back_forth cpu_menu.reaches_all)
  next
    case False
    with assms valid(2) cpu_fixed.step_in show ?thesis
      by (auto simp: list_all_iff intro: cpu_fixed.forth_back cpu_fixed.back_forth cpu_fixed.reaches_all)
  qed
qed

lemma libretro_cpu_menu_witness:
  "unifrog_libretro_policy_cpu (unifrog_libretro_policy_cpu 918 1 False) (-1) False = 918 \<and>
    unifrog_libretro_policy_cpu (unifrog_libretro_policy_cpu 918 (-1) False) 1 False = 918 \<and>
    (\<exists>n < length (cpu_words False). ((\<lambda>c. unifrog_libretro_policy_cpu c 1 False) ^^ n) 918 = 396) \<and>
    unifrog_libretro_policy_cpu_valid (unifrog_libretro_policy_cpu 12345 0 False)"
  by (rule libretro_cpu_menu) (simp_all add: cpu_words_def)

text \<open>
  The other cyclic settings (frame skip, display mode, input profile, graphics clock and
  fast forward): stepping forward and back is the identity on their values, and every step,
  also from a value that is not on the list, lands on the list.
\<close>

lemma libretro_settings_cycle:
  assumes "0 \<le> d" "e < 0"
  shows "list_all (\<lambda>x. unifrog_libretro_policy_frameskip (unifrog_libretro_policy_frameskip x d) e = x) frameskip_values \<and>
    list_all (\<lambda>x. unifrog_libretro_policy_display (unifrog_libretro_policy_display x d) e = x) display_values \<and>
    list_all (\<lambda>x. unifrog_libretro_policy_input_profile (unifrog_libretro_policy_input_profile x d) e = x) input_values \<and>
    list_all (\<lambda>x. unifrog_libretro_policy_ge_clock (unifrog_libretro_policy_ge_clock x d) e = x) ge_clock_values \<and>
    list_all (\<lambda>x. unifrog_libretro_policy_fast_forward (unifrog_libretro_policy_fast_forward x d) e = x) fast_forward_words \<and>
    unifrog_libretro_policy_frameskip cur k \<in> set frameskip_values \<and>
    unifrog_libretro_policy_display cur k \<in> set display_values \<and>
    unifrog_libretro_policy_input_profile cur k \<in> set input_values \<and>
    unifrog_libretro_policy_ge_clock cur k \<in> set ge_clock_values \<and>
    unifrog_libretro_policy_fast_forward ucur k \<in> set fast_forward_words"
  using assms
  by (auto simp: list_all_iff frameskip.forth_back display.forth_back input_profile.forth_back
      ge_clock.forth_back fast_forward.forth_back frameskip.step_in display.step_in
      input_profile.step_in ge_clock.step_in fast_forward.step_in)

lemma libretro_settings_cycle_witness:
  "unifrog_libretro_policy_ge_clock (unifrog_libretro_policy_ge_clock UNIFROG_GE_CLOCK_198MHZ 1) (-1)
     = UNIFROG_GE_CLOCK_198MHZ"
  using libretro_settings_cycle [of 1 "-1" 0 0 0] by (simp add: ge_clock_values_def)

text \<open>
  Brightness and volume levels. On a table that strictly increases, stepping up gives the
  smallest level above the current value and wraps to the first one, stepping down gives the
  greatest level below it and wraps to the last one.
\<close>

lemma libretro_level_step:
  assumes "sorted_wrt (<) levels" "levels \<noteq> []"
  shows "unifrog_libretro_policy_level (Some levels) current delta =
    (if delta < 0
     then (if filter (\<lambda>v. v < current) levels = [] then last levels
           else Max (set (filter (\<lambda>v. v < current) levels)))
     else (if filter (\<lambda>v. v > current) levels = [] then hd levels
           else Min (set (filter (\<lambda>v. v > current) levels))))"
proof -
  have find_filter: "find P xs = (if filter P xs = [] then None else Some (hd (filter P xs)))"
    for P and xs :: "u32 list"
    by (induction xs) auto
  have lo: "hd xs = Min (set xs)" if "sorted_wrt (<) xs" "xs \<noteq> []" for xs :: "u32 list"
    using that by (cases xs) (auto simp: Min_insert2 less_imp_le)
  have hi: "hd (rev xs) = Max (set xs)" if "sorted_wrt (<) xs" "xs \<noteq> []" for xs :: "u32 list"
    using that
    by (cases xs rule: rev_cases) (auto simp: sorted_wrt_append Max_insert2 less_imp_le)
  have srt: "sorted_wrt (<) (filter P levels)" for P using assms(1) by (rule sorted_wrt_filter)
  have lv: "unifrog_libretro_policy_level (Some levels) current delta =
      (if delta < 0
       then (case find (\<lambda>v. v < current) (rev levels) of Some v \<Rightarrow> v | None \<Rightarrow> last levels)
       else (case find (\<lambda>v. v > current) levels of Some v \<Rightarrow> v | None \<Rightarrow> hd levels))"
  proof -
    obtain l ls where "levels = l # ls" using assms(2) by (cases levels) auto
    then show ?thesis
      by (simp only: unifrog_libretro_policy_level_def option.case list.case list.sel)
  qed
  show ?thesis
    using lo [OF srt, of "\<lambda>v. v > current"] hi [OF srt, of "\<lambda>v. v < current"]
    unfolding lv find_filter rev_filter [symmetric] by (simp del: set_filter)
qed

lemma libretro_level_step_witness:
  "unifrog_libretro_policy_level (Some [0, 40, 80]) 50 1 = 80 \<and>
   unifrog_libretro_policy_level (Some [0, 40, 80]) 0 (-1) = 80"
  using libretro_level_step [of "[0, 40, 80]" 50 1] libretro_level_step [of "[0, 40, 80]" 0 "-1"] by simp

text \<open>
  A core opens an archive itself exactly when it needs full paths, the file name has the
  extension zip or 7z in any case, and one of the alternatives of its extension list, without
  leading dots, is that extension in any case.
\<close>

lemma libretro_native_archive_iff:
  "unifrog_libretro_policy_native_archive need (Some exts) (Some path) \<longleftrightarrow>
     need \<and>
     (\<exists>ext. path_extension path = Some ext \<and> (strcase_eq ext ''zip'' \<or> strcase_eq ext ''7z'') \<and>
        list_ex (\<lambda>alt. strcase_eq (dropWhile (\<lambda>c. c = CHR ''.'') alt) ext) (split_on (CHR ''|'') exts))"
proof -
  have "ext \<noteq> []" if "path_extension path = Some ext" for ext
    using that by (auto simp: path_extension_def Let_def simp del: str_rchr_None split: option.splits if_splits)
  then show ?thesis
    by (auto simp: unifrog_libretro_policy_native_archive_def archive_loop_alternatives list_ex_iff
        split: option.splits)
qed

text \<open>
  The default core of a system folder: every row of the table is found under its own
  name (no earlier row shadows it), and the spelling of the folder in upper or lower case
  does not matter.
\<close>

lemma libretro_system_core_table:
  "list_all (\<lambda>(name, core). unifrog_libretro_policy_system_core (Some name) = Some core) system_cores \<and>
   unifrog_libretro_policy_system_core (Some (map to_lower s)) = unifrog_libretro_policy_system_core (Some s)"
proof
  have "unifrog_libretro_policy_system_core (Some (fst row)) = Some (snd row)" if "row \<in> set system_cores" for row
  proof -
    have "fst row \<noteq> []" using that by (auto simp: system_cores_def)
    then obtain c cs where n: "fst row = c # cs" by (cases "fst row") auto
    from find_key [OF system_cores_distinct that]
    have "find (\<lambda>(n, core). strcase_eq (c # cs) n) system_cores = Some row"
      by (simp add: n strcase_eq_def case_prod_beta')
    then show ?thesis unfolding n by (simp add: unifrog_libretro_policy_system_core_def)
  qed
  then show "list_all (\<lambda>(name, core). unifrog_libretro_policy_system_core (Some name) = Some core) system_cores"
    by (auto simp: list_all_iff)
  have low: "to_lower (to_lower c) = to_lower c" for c
    by (auto simp: to_lower_def)
  have "strcase_eq (map to_lower s) n = strcase_eq s n" for n
    by (simp add: strcase_eq_def low comp_def)
  then show "unifrog_libretro_policy_system_core (Some (map to_lower s)) = unifrog_libretro_policy_system_core (Some s)"
    by (cases s) (simp_all add: unifrog_libretro_policy_system_core_def)
qed

text \<open>
  Log levels. The name of every level is read back as that level whatever the fallback,
  a level set to any integer is one of the enumeration, and the levels written under an
  active level are exactly those from it up to the errors; nothing is written when it is off.
\<close>

lemma log_level_policy:
  "list_all (\<lambda>l. unifrog_log_level_from_name (Some (unifrog_log_level_name l)) fallback = l) [0, 1, 2, 3, 4, 5] \<and>
   unifrog_log_set_level any \<in> set [0, 1, 2, 3, 4, 5] \<and>
   filter (unifrog_log_would_write (unifrog_log_set_level any)) [0, 1, 2, 3, 4, 5] =
     [unifrog_log_set_level any..4] \<and>
   \<not> unifrog_log_would_write (unifrog_log_set_level any) UNIFROG_LOG_OFF"
proof (intro conjI)
  show "list_all (\<lambda>l. unifrog_log_level_from_name (Some (unifrog_log_level_name l)) fallback = l) [0, 1, 2, 3, 4, 5]"
    by (simp add: unifrog_log_level_from_name_def unifrog_log_level_name_def level_names_def strcase_eq_def
        to_lower_def)
  have range: "unifrog_log_set_level any \<in> {0, 1, 2, 3, 4, 5}"
    by (auto simp: unifrog_log_set_level_def UNIFROG_LOG_OFF_def UNIFROG_LOG_TRACE_def)
  then show "unifrog_log_set_level any \<in> set [0, 1, 2, 3, 4, 5]" by simp
  from range show "filter (unifrog_log_would_write (unifrog_log_set_level any)) [0, 1, 2, 3, 4, 5] =
      [unifrog_log_set_level any..4]"
    by (elim insertE) (simp_all add: unifrog_log_would_write_def UNIFROG_LOG_OFF_def upto.simps)
  show "\<not> unifrog_log_would_write (unifrog_log_set_level any) UNIFROG_LOG_OFF"
    by (simp add: unifrog_log_would_write_def)
qed

text \<open>
  Storage profiles. The information of the name of every index is that of the index, an
  unknown, empty or missing name gives the boot profile, and an index out of range no name.
\<close>

lemma storage_profile_lookup:
  "list_all (\<lambda>i. \<exists>n. unifrog_storage_profile_name i = Some n \<and>
       unifrog_storage_profile_info (Some n) = profiles ! i) [0..<unifrog_storage_profile_count] \<and>
   unifrog_storage_profile_info None = profiles ! 0 \<and>
   (name \<in> set (map sp_name profiles) \<or> unifrog_storage_profile_info (Some name) = profiles ! 0) \<and>
   unifrog_storage_profile_name (unifrog_storage_profile_count + k) = None"
proof (intro conjI)
  have dist: "distinct (map sp_name profiles)" and ne: "list_all (\<lambda>i. sp_name i \<noteq> []) profiles" by code_simp+
  show "list_all (\<lambda>i. \<exists>n. unifrog_storage_profile_name i = Some n \<and>
       unifrog_storage_profile_info (Some n) = profiles ! i) [0..<unifrog_storage_profile_count]"
    using ne find_key [OF dist]
    by (auto simp: list_all_iff unifrog_storage_profile_name_def unifrog_storage_profile_info_def Let_def
        unifrog_storage_profile_count_def)
  show "unifrog_storage_profile_info None = profiles ! 0"
    by (simp add: unifrog_storage_profile_info_def profiles_def profile_def)
  show "name \<in> set (map sp_name profiles) \<or> unifrog_storage_profile_info (Some name) = profiles ! 0"
  proof (cases "name = []")
    case True
    then show ?thesis by (simp add: unifrog_storage_profile_info_def profiles_def profile_def)
  next
    case False
    have "profiles \<noteq> []" by (simp add: profiles_def)
    with False show ?thesis
      by (auto simp: unifrog_storage_profile_info_def hd_conv_nth find_None_iff find_Some_iff
          intro!: imageI split: option.splits)
  qed
  show "unifrog_storage_profile_name (unifrog_storage_profile_count + k) = None"
    by (simp add: unifrog_storage_profile_name_def)
qed

end
