(* ===== verification/UF_Media.thy ===== *)
theory UF_Media
  imports UF_Prelude
begin

text \<open>
  Content routing and the read-ahead cache of the media player: the suffix tables and
  routes of \<open>components/media/src/unifrog_media_content.c\<close> and
  \<open>foundation/src/content/unifrog_reader_content.c\<close>, and the slot policy of
  \<open>components/media/src/unifrog_media_policy.c\<close>.

  The static helpers \<open>path_has_suffix\<close> and \<open>path_has_any_suffix\<close> are the same code in both
  content files and are defined once. An array with its length is a list, a null array is
  \<open>None\<close>; \<open>size_t\<close> has 32 bits, \<open>int64_t\<close> values are integers.
\<close>

section \<open>Content classes\<close>

datatype media_route =
    UNIFROG_MEDIA_ROUTE_AUTO
  | UNIFROG_MEDIA_ROUTE_NATIVE
  | UNIFROG_MEDIA_ROUTE_FFMPEG
  | UNIFROG_MEDIA_ROUTE_WAV_AUDDEC
  | UNIFROG_MEDIA_ROUTE_HCPLAYER
  | UNIFROG_MEDIA_ROUTE_HCPLAYER_AUDIO
  | UNIFROG_MEDIA_ROUTE_HCPLAYER_MUTED
  | ROUTE_OTHER int \<comment> \<open>an integer outside the enumeration\<close>

definition media_routes :: "(string \<times> media_route) list" where
  "media_routes =
    [(''auto'', UNIFROG_MEDIA_ROUTE_AUTO), (''native'', UNIFROG_MEDIA_ROUTE_NATIVE),
     (''ffmpeg'', UNIFROG_MEDIA_ROUTE_FFMPEG), (''wav-auddec'', UNIFROG_MEDIA_ROUTE_WAV_AUDDEC),
     (''hcplayer'', UNIFROG_MEDIA_ROUTE_HCPLAYER),
     (''hcplayer-audio'', UNIFROG_MEDIA_ROUTE_HCPLAYER_AUDIO),
     (''hcplayer-muted'', UNIFROG_MEDIA_ROUTE_HCPLAYER_MUTED)]"

text \<open>\<open>None\<close> is the result -1, with \<open>*route\<close> unchanged.\<close>

definition unifrog_media_route_parse :: "string option \<Rightarrow> media_route option" where
  "unifrog_media_route_parse name =
     (case name of
        None \<Rightarrow> None
      | Some n \<Rightarrow> if n = ''media'' then Some UNIFROG_MEDIA_ROUTE_AUTO
                  else map_option snd (find (\<lambda>row. n = fst row) media_routes))"

definition unifrog_media_route_name :: "media_route \<Rightarrow> string" where
  "unifrog_media_route_name route =
     (case find (\<lambda>row. route = snd row) media_routes of Some row \<Rightarrow> fst row | None \<Rightarrow> ''auto'')"

definition path_has_suffix :: "string option \<Rightarrow> string \<Rightarrow> bool" where
  "path_has_suffix path sfx =
     (case path of
        None \<Rightarrow> False
      | Some p \<Rightarrow> length p \<ge> length sfx \<and> strcase_eq (drop (length p - length sfx) p) sfx)"

definition path_has_any_suffix :: "string option \<Rightarrow> string list \<Rightarrow> bool" where
  "path_has_any_suffix path sfxs = list_ex (path_has_suffix path) sfxs"

definition audio_suffixes :: "string list" where
  "audio_suffixes = [''.mp3'', ''.wav'', ''.flac'', ''.ogg'', ''.opus'', ''.aac'', ''.adts'', ''.m4a'',
     ''.wma'', ''.ra'']"

definition unifrog_media_path_is_audio :: "string option \<Rightarrow> bool" where
  "unifrog_media_path_is_audio path = path_has_any_suffix path audio_suffixes"

definition image_suffixes :: "string list" where
  "image_suffixes = [''.jpg'', ''.jpeg'', ''.png'', ''.gif'', ''.bmp'', ''.webp'']"

definition unifrog_media_path_is_image :: "string option \<Rightarrow> bool" where
  "unifrog_media_path_is_image path = path_has_any_suffix path image_suffixes"

definition video_suffixes :: "string list" where
  "video_suffixes = [''.mp4'', ''.m4v'', ''.mov'', ''.mkv'', ''.avi'', ''.flv'', ''.webm'', ''.wmv'',
     ''.ts'', ''.m2ts'', ''.mts'', ''.vob'', ''.mpg'', ''.mpeg'', ''.3gp'', ''.3g2'', ''.h264'', ''.264'',
     ''.rm'', ''.rmvb'']"

definition unifrog_media_path_is_supported :: "string option \<Rightarrow> bool" where
  "unifrog_media_path_is_supported path \<longleftrightarrow>
     unifrog_media_path_is_audio path \<or> unifrog_media_path_is_image path \<or>
     path_has_any_suffix path video_suffixes"

definition unifrog_media_path_is_wav :: "string option \<Rightarrow> bool" where
  "unifrog_media_path_is_wav path = path_has_suffix path ''.wav''"

definition unifrog_media_path_is_mp3 :: "string option \<Rightarrow> bool" where
  "unifrog_media_path_is_mp3 path = path_has_suffix path ''.mp3''"

definition unifrog_media_path_is_aac :: "string option \<Rightarrow> bool" where
  "unifrog_media_path_is_aac path \<longleftrightarrow> path_has_suffix path ''.aac'' \<or> path_has_suffix path ''.adts''"

definition unifrog_media_path_is_flac :: "string option \<Rightarrow> bool" where
  "unifrog_media_path_is_flac path = path_has_suffix path ''.flac''"

definition unifrog_media_path_is_ogg :: "string option \<Rightarrow> bool" where
  "unifrog_media_path_is_ogg path \<longleftrightarrow> path_has_suffix path ''.ogg'' \<or> path_has_suffix path ''.opus''"

definition unifrog_media_route_available :: "string option \<Rightarrow> media_route \<Rightarrow> bool \<Rightarrow> bool" where
  "unifrog_media_route_available path route hcplayer_enabled =
     (if path = None \<or> path = Some [] then False
      else let audio = unifrog_media_path_is_audio path; image = unifrog_media_path_is_image path
           in case route of
                UNIFROG_MEDIA_ROUTE_AUTO \<Rightarrow> True
              | UNIFROG_MEDIA_ROUTE_NATIVE \<Rightarrow> \<not> image
              | UNIFROG_MEDIA_ROUTE_FFMPEG \<Rightarrow> \<not> image
              | UNIFROG_MEDIA_ROUTE_WAV_AUDDEC \<Rightarrow> unifrog_media_path_is_wav path
              | UNIFROG_MEDIA_ROUTE_HCPLAYER \<Rightarrow> hcplayer_enabled
              | UNIFROG_MEDIA_ROUTE_HCPLAYER_AUDIO \<Rightarrow> hcplayer_enabled \<and> \<not> image
              | UNIFROG_MEDIA_ROUTE_HCPLAYER_MUTED \<Rightarrow> hcplayer_enabled \<and> \<not> audio
              | ROUTE_OTHER _ \<Rightarrow> False)"

definition reader_image_suffixes :: "string list" where
  "reader_image_suffixes = [''.png'', ''.jpg'', ''.jpeg'', ''.bmp'', ''.gif'', ''.webp'', ''.tif'',
     ''.tiff'', ''.tga'', ''.svg'']"

definition unifrog_reader_path_is_image :: "string option \<Rightarrow> bool" where
  "unifrog_reader_path_is_image path = path_has_any_suffix path reader_image_suffixes"

definition reader_text_suffixes :: "string list" where
  "reader_text_suffixes = [''.txt'', ''.md'', ''.html'', ''.htm'', ''.xhtml'']"

definition unifrog_reader_path_is_text :: "string option \<Rightarrow> bool" where
  "unifrog_reader_path_is_text path = path_has_any_suffix path reader_text_suffixes"

definition unifrog_reader_path_is_archive :: "string option \<Rightarrow> bool" where
  "unifrog_reader_path_is_archive path \<longleftrightarrow> path_has_suffix path ''.cbz'' \<or> path_has_suffix path ''.epub''"

definition unifrog_reader_path_supported :: "string option \<Rightarrow> bool" where
  "unifrog_reader_path_supported path \<longleftrightarrow> unifrog_reader_path_is_image path \<or>
     unifrog_reader_path_is_text path \<or> unifrog_reader_path_is_archive path"

section \<open>Read-ahead slots\<close>

definition INT64_MAX :: int where "INT64_MAX = 9223372036854775807"

record readahead_slot =
  rsize :: u32
  rstart :: int
  rlast_used :: u32

text \<open>The test of one slot; \<open>(size_t)(INT64_MAX - start)\<close> keeps the low 32 bits.\<close>

definition slot_hit :: "readahead_slot \<Rightarrow> int \<Rightarrow> bool \<Rightarrow> bool" where
  "slot_hit s position allow_end =
     (if rsize s = 0 \<or> rstart s < 0 \<or> rsize s > (of_int (INT64_MAX - rstart s) :: u32) then False
      else let end_pos = rstart s + int (unat (rsize s))
           in position \<ge> rstart s \<and> (position < end_pos \<or> allow_end \<and> position = end_pos))"

fun find_slot_loop :: "readahead_slot list \<Rightarrow> int \<Rightarrow> bool \<Rightarrow> int \<Rightarrow> int" where
  "find_slot_loop [] position allow_end i = -1"
| "find_slot_loop (s # ss) position allow_end i =
     (if slot_hit s position allow_end then i else find_slot_loop ss position allow_end (i + 1))"

definition unifrog_media_policy_find_slot :: "readahead_slot list option \<Rightarrow> int \<Rightarrow> bool \<Rightarrow> int" where
  "unifrog_media_policy_find_slot slots position allow_end =
     (case slots of None \<Rightarrow> -1
      | Some ss \<Rightarrow> if position < 0 then -1 else find_slot_loop ss position allow_end 0)"

text \<open>The slot and the value of \<open>*evicted\<close>.\<close>

fun choose_loop :: "readahead_slot list \<Rightarrow> nat \<Rightarrow> nat \<Rightarrow> u32 \<Rightarrow> nat \<times> bool" where
  "choose_loop [] i best best_used = (best, True)"
| "choose_loop (s # ss) i best best_used =
     (if rsize s = 0 then (i, False)
      else if rlast_used s < best_used then choose_loop ss (Suc i) i (rlast_used s)
      else choose_loop ss (Suc i) best best_used)"

definition unifrog_media_policy_choose_slot :: "readahead_slot list option \<Rightarrow> nat \<times> bool" where
  "unifrog_media_policy_choose_slot slots =
     (case slots of None \<Rightarrow> (0, False)
      | Some ss \<Rightarrow> if ss = [] then (0, False) else choose_loop ss 0 0 0xffffffff)"

definition unifrog_media_policy_touch ::
  "readahead_slot list option \<Rightarrow> u32 \<Rightarrow> nat \<Rightarrow> u32 \<times> readahead_slot list option" where
  "unifrog_media_policy_touch slots clock slot =
     (case slots of None \<Rightarrow> (clock, None)
      | Some ss \<Rightarrow>
        if slot \<ge> length ss then (clock, Some ss)
        else let clock1 = clock + 1;
                 ss1 = (if clock1 = 0 then map (\<lambda>s. s\<lparr>rlast_used := 0\<rparr>) ss else ss);
                 clock2 = (if clock1 = 0 then 1 else clock1)
             in (clock2, Some (ss1[slot := (ss1 ! slot)\<lparr>rlast_used := clock2\<rparr>])))"

section \<open>The extension decides the class\<close>

text \<open>The part of a path from its last dot, in lower case.\<close>

definition dot_tail :: "string \<Rightarrow> string option" where
  "dot_tail p = map_option (\<lambda>i. map to_lower (drop i p)) (str_rchr p (CHR ''.''))"

lemma to_lower_eq_dot: "to_lower c = CHR ''.'' \<longleftrightarrow> c = CHR ''.''"
proof
  assume "to_lower c = CHR ''.''"
  moreover have "to_lower c \<noteq> CHR ''.''" if "65 \<le> (of_char c :: nat)" "(of_char c :: nat) \<le> 90"
  proof
    assume "to_lower c = CHR ''.''"
    then have "(of_char (to_lower c) :: nat) = 46" by simp
    moreover have "(of_char (to_lower c) :: nat) = of_char c + 32"
      using that by (simp add: to_lower_def)
    ultimately show False using that by simp
  qed
  ultimately show "c = CHR ''.''" by (auto simp: to_lower_def split: if_splits)
qed (simp add: to_lower_def)

lemma to_lower_idem: "to_lower (to_lower c) = to_lower c"
  by (auto simp: to_lower_def)

text \<open>A suffix that is a dot and then no other dot is the part from the last dot.\<close>

lemma has_suffix_dot_tail:
  assumes "CHR ''.'' \<notin> set e"
  shows "path_has_suffix (Some p) (CHR ''.'' # e) \<longleftrightarrow> dot_tail p = Some (CHR ''.'' # map to_lower e)"
proof
  assume l: "path_has_suffix (Some p) (CHR ''.'' # e)"
  let ?k = "length p - Suc (length e)"
  from l have len: "Suc (length e) \<le> length p"
    and eq: "map to_lower (drop ?k p) = CHR ''.'' # map to_lower e"
    by (auto simp: path_has_suffix_def strcase_eq_def to_lower_def)
  obtain c r where cr: "drop ?k p = c # r" using len by (cases "drop ?k p") auto
  with eq have c: "c = CHR ''.''" and r: "map to_lower r = map to_lower e"
    by (auto simp: to_lower_eq_dot)
  have "CHR ''.'' \<notin> set r"
  proof
    assume "CHR ''.'' \<in> set r"
    then have "to_lower (CHR ''.'') \<in> set (map to_lower r)" by simp
    then obtain x where "x \<in> set e" "to_lower x = to_lower (CHR ''.'')" unfolding r by auto
    moreover have "to_lower (CHR ''.'') = CHR ''.''" by (simp add: to_lower_def)
    ultimately show False using assms to_lower_eq_dot [of x] by metis
  qed
  moreover have "p = take ?k p @ CHR ''.'' # r" using cr c by (metis append_take_drop_id)
  ultimately have "str_rchr p (CHR ''.'') = Some (length (take ?k p))"
    using str_rchr_append [of "CHR ''.''" r "take ?k p"] by simp
  then show "dot_tail p = Some (CHR ''.'' # map to_lower e)"
    using eq len by (simp add: dot_tail_def min_def)
next
  assume "dot_tail p = Some (CHR ''.'' # map to_lower e)"
  then obtain i where i: "str_rchr p (CHR ''.'') = Some i"
    "map to_lower (drop i p) = CHR ''.'' # map to_lower e"
    by (auto simp: dot_tail_def)
  from i(2) have "length (drop i p) = Suc (length e)" by (metis length_Cons length_map)
  moreover have "i < length p" using i(1) by (rule str_rchr_SomeD)
  ultimately have "length p - Suc (length e) = i" "Suc (length e) \<le> length p" by auto
  with i(2) show "path_has_suffix (Some p) (CHR ''.'' # e)"
    by (simp add: path_has_suffix_def strcase_eq_def to_lower_def [of "CHR ''.''"])
qed

definition dot_suffixes :: "string list \<Rightarrow> bool" where
  "dot_suffixes ss \<longleftrightarrow> list_all (\<lambda>s. s \<noteq> [] \<and> hd s = CHR ''.'' \<and> CHR ''.'' \<notin> set (tl s) \<and> map to_lower s = s) ss"

lemma any_suffix_dot_tail:
  assumes "dot_suffixes ss"
  shows "path_has_any_suffix (Some p) ss \<longleftrightarrow> (\<exists>s \<in> set ss. dot_tail p = Some s)"
proof -
  have "path_has_suffix (Some p) s \<longleftrightarrow> dot_tail p = Some s" if "s \<in> set ss" for s
  proof -
    from assms that have s: "s \<noteq> []" "hd s = CHR ''.''" "CHR ''.'' \<notin> set (tl s)" "map to_lower s = s"
      by (auto simp: dot_suffixes_def list_all_iff)
    then obtain e where "s = CHR ''.'' # e" by (cases s) auto
    with s has_suffix_dot_tail [of e p] show ?thesis by simp
  qed
  then show ?thesis by (auto simp: path_has_any_suffix_def list_ex_iff)
qed

lemma suffix_tables:
  "dot_suffixes audio_suffixes" "dot_suffixes image_suffixes" "dot_suffixes video_suffixes"
  "dot_suffixes reader_image_suffixes" "dot_suffixes reader_text_suffixes"
  "dot_suffixes [''.cbz'', ''.epub'']"
  by (simp_all add: dot_suffixes_def audio_suffixes_def image_suffixes_def video_suffixes_def
      reader_image_suffixes_def reader_text_suffixes_def to_lower_def)

lemma class_dot_tail:
  "unifrog_media_path_is_audio (Some p) \<longleftrightarrow> dot_tail p \<in> Some ` set audio_suffixes"
  "unifrog_media_path_is_image (Some p) \<longleftrightarrow> dot_tail p \<in> Some ` set image_suffixes"
  "path_has_any_suffix (Some p) video_suffixes \<longleftrightarrow> dot_tail p \<in> Some ` set video_suffixes"
  "unifrog_reader_path_is_image (Some p) \<longleftrightarrow> dot_tail p \<in> Some ` set reader_image_suffixes"
  "unifrog_reader_path_is_text (Some p) \<longleftrightarrow> dot_tail p \<in> Some ` set reader_text_suffixes"
  "unifrog_reader_path_is_archive (Some p) \<longleftrightarrow> dot_tail p \<in> Some ` set [''.cbz'', ''.epub'']"
proof -
  note any = any_suffix_dot_tail
  show "unifrog_media_path_is_audio (Some p) \<longleftrightarrow> dot_tail p \<in> Some ` set audio_suffixes"
    "unifrog_media_path_is_image (Some p) \<longleftrightarrow> dot_tail p \<in> Some ` set image_suffixes"
    "path_has_any_suffix (Some p) video_suffixes \<longleftrightarrow> dot_tail p \<in> Some ` set video_suffixes"
    "unifrog_reader_path_is_image (Some p) \<longleftrightarrow> dot_tail p \<in> Some ` set reader_image_suffixes"
    "unifrog_reader_path_is_text (Some p) \<longleftrightarrow> dot_tail p \<in> Some ` set reader_text_suffixes"
    by (auto simp: unifrog_media_path_is_audio_def unifrog_media_path_is_image_def
        unifrog_reader_path_is_image_def unifrog_reader_path_is_text_def any suffix_tables)
  show "unifrog_reader_path_is_archive (Some p) \<longleftrightarrow> dot_tail p \<in> Some ` set [''.cbz'', ''.epub'']"
    using any [OF suffix_tables(6), of p]
    by (auto simp: unifrog_reader_path_is_archive_def path_has_any_suffix_def)
qed

lemma wav_dot_tail: "unifrog_media_path_is_wav (Some p) \<longleftrightarrow> dot_tail p = Some ''.wav''"
  using has_suffix_dot_tail [of "''wav''" p] by (simp add: unifrog_media_path_is_wav_def to_lower_def)

section \<open>The slot policy\<close>

lemma find_slot_loop_cases:
  "find_slot_loop ss pos e i = -1 \<and> list_all (\<lambda>s. \<not> slot_hit s pos e) ss \<or>
   (\<exists>k < length ss. find_slot_loop ss pos e i = i + int k \<and> slot_hit (ss ! k) pos e \<and>
      list_all (\<lambda>s. \<not> slot_hit s pos e) (take k ss))"
proof (induction ss arbitrary: i)
  case (Cons s ss)
  show ?case
  proof (cases "slot_hit s pos e")
    case True
    then show ?thesis by (intro disjI2 exI [of _ 0]) simp
  next
    case False
    from Cons [of "i + 1"] show ?thesis
    proof (elim disjE exE conjE)
      fix k assume k: "k < length ss" "find_slot_loop ss pos e (i + 1) = i + 1 + int k"
        "slot_hit (ss ! k) pos e" "list_all (\<lambda>s. \<not> slot_hit s pos e) (take k ss)"
      with False show ?thesis by (intro disjI2 exI [of _ "Suc k"]) simp
    qed (use False in simp)
  qed
qed simp

text \<open>Below 4 GiB the truncated overflow test of a slot never rejects it.\<close>

lemma slot_hit_below_4G:
  assumes "0 \<le> rstart s" "rstart s + int (unat (rsize s)) < 2 ^ 32"
  shows "slot_hit s pos e \<longleftrightarrow> rsize s \<noteq> 0 \<and> rstart s \<le> pos \<and>
    (pos < rstart s + int (unat (rsize s)) \<or> e \<and> pos = rstart s + int (unat (rsize s)))"
proof -
  have "(INT64_MAX - rstart s) mod 2 ^ 32 = 2 ^ 32 - 1 - rstart s"
  proof -
    have "INT64_MAX - rstart s = (2 ^ 32 - 1 - rstart s) + (2 ^ 31 - 1) * 2 ^ 32"
      by (simp add: INT64_MAX_def)
    moreover have "rstart s < 2 ^ 32" using assms(2) by linarith
    then have "0 \<le> 2 ^ 32 - 1 - rstart s" "2 ^ 32 - 1 - rstart s < 2 ^ 32"
      using assms(1) by simp_all
    ultimately show ?thesis by (metis mod_mult_self2 mod_pos_pos_trivial mult.commute)
  qed
  then have "uint (of_int (INT64_MAX - rstart s) :: u32) = 2 ^ 32 - 1 - rstart s"
    unfolding uint_word_of_int by simp
  moreover have "int (unat (rsize s)) = uint (rsize s)" by simp
  ultimately have "\<not> rsize s > (of_int (INT64_MAX - rstart s) :: u32)"
    using assms(2) by (simp add: word_less_def)
  with assms(1) show ?thesis by (auto simp: slot_hit_def Let_def)
qed

lemma choose_loop_full:
  assumes "list_all (\<lambda>s. rsize s \<noteq> 0) ss"
  shows "\<exists>b. choose_loop ss i best bu = (b, True) \<and>
    (b = best \<and> list_all (\<lambda>s. bu \<le> rlast_used s) ss \<or>
     (\<exists>k < length ss. b = i + k \<and> rlast_used (ss ! k) < bu \<and>
        list_all (\<lambda>s. rlast_used (ss ! k) \<le> rlast_used s) ss))"
  using assms
proof (induction ss arbitrary: i best bu)
  case (Cons s ss)
  show ?case
  proof (cases "rlast_used s < bu")
    case True
    from Cons.IH [of "Suc i" i "rlast_used s"] Cons.prems obtain b where
      b: "choose_loop ss (Suc i) i (rlast_used s) = (b, True)" and
      alt: "b = i \<and> list_all (\<lambda>x. rlast_used s \<le> rlast_used x) ss \<or>
        (\<exists>k < length ss. b = Suc i + k \<and> rlast_used (ss ! k) < rlast_used s \<and>
           list_all (\<lambda>x. rlast_used (ss ! k) \<le> rlast_used x) ss)" by auto
    from alt have "\<exists>k < length (s # ss). b = i + k \<and> rlast_used ((s # ss) ! k) < bu \<and>
        list_all (\<lambda>x. rlast_used ((s # ss) ! k) \<le> rlast_used x) (s # ss)"
    proof (elim disjE exE conjE)
      assume "b = i" "list_all (\<lambda>x. rlast_used s \<le> rlast_used x) ss"
      with True show ?thesis by (intro exI [of _ 0]) simp
    next
      fix k assume "k < length ss" "b = Suc i + k" "rlast_used (ss ! k) < rlast_used s"
        "list_all (\<lambda>x. rlast_used (ss ! k) \<le> rlast_used x) ss"
      with True show ?thesis by (intro exI [of _ "Suc k"]) auto
    qed
    with b True Cons.prems show ?thesis by auto
  next
    case False
    from Cons.IH [of "Suc i" best bu] Cons.prems obtain b where
      b: "choose_loop ss (Suc i) best bu = (b, True)" and
      alt: "b = best \<and> list_all (\<lambda>x. bu \<le> rlast_used x) ss \<or>
        (\<exists>k < length ss. b = Suc i + k \<and> rlast_used (ss ! k) < bu \<and>
           list_all (\<lambda>x. rlast_used (ss ! k) \<le> rlast_used x) ss)" by auto
    from alt False have "b = best \<and> list_all (\<lambda>x. bu \<le> rlast_used x) (s # ss) \<or>
        (\<exists>k < length (s # ss). b = i + k \<and> rlast_used ((s # ss) ! k) < bu \<and>
           list_all (\<lambda>x. rlast_used ((s # ss) ! k) \<le> rlast_used x) (s # ss))"
    proof (elim disjE exE conjE)
      fix k assume "k < length ss" "b = Suc i + k" "rlast_used (ss ! k) < bu"
        "list_all (\<lambda>x. rlast_used (ss ! k) \<le> rlast_used x) ss"
      with False show ?thesis by (intro disjI2 exI [of _ "Suc k"]) auto
    qed auto
    with b False Cons.prems show ?thesis by auto
  qed
qed simp

lemma choose_full_minimal:
  assumes "list_all (\<lambda>s. rsize s \<noteq> 0) ss" "ss \<noteq> []"
  shows "\<exists>b < length ss. unifrog_media_policy_choose_slot (Some ss) = (b, True) \<and>
    list_all (\<lambda>s. rlast_used (ss ! b) \<le> rlast_used s) ss"
proof -
  have top: "w \<le> (0xffffffff :: u32)" for w using uint_bounded [of w] by (simp add: word_le_def)
  from choose_loop_full [OF assms(1), of 0 0 "0xffffffff"] obtain b where
    "choose_loop ss 0 0 0xffffffff = (b, True)"
    "b = 0 \<and> list_all (\<lambda>s. 0xffffffff \<le> rlast_used s) ss \<or>
     (\<exists>k < length ss. b = k \<and> list_all (\<lambda>s. rlast_used (ss ! k) \<le> rlast_used s) ss)" by auto
  with assms(2) top show ?thesis
    by (auto simp: unifrog_media_policy_choose_slot_def list_all_iff intro: order_trans)
qed

text \<open>The touches of a history, newest first, and when a slot was last touched in it.\<close>

fun after_touches :: "nat list \<Rightarrow> u32 \<times> readahead_slot list \<Rightarrow> u32 \<times> readahead_slot list" where
  "after_touches [] st = st"
| "after_touches (t # older) st =
     (case after_touches older st of
        (clock, ss) \<Rightarrow> (case unifrog_media_policy_touch (Some ss) clock t of
                          (clock', Some ss') \<Rightarrow> (clock', ss')
                        | (clock', None) \<Rightarrow> (clock', ss)))"

fun recency :: "nat list \<Rightarrow> nat \<Rightarrow> nat" where
  "recency [] s = 0"
| "recency (t # older) s = (if t = s then Suc (length older) else recency older s)"

lemma recency_le: "recency h s \<le> length h"
  by (induction h) (auto intro: le_SucI)

lemma after_touches_state:
  assumes "list_all (\<lambda>t. t < length ss) h" "length h < 2 ^ 32 - 1" "list_all (\<lambda>s. rlast_used s = 0) ss"
  shows "\<exists>ss'. after_touches h (0, ss) = (of_nat (length h), ss') \<and> length ss' = length ss \<and>
    (\<forall>i < length ss. ss' ! i = (ss ! i)\<lparr>rlast_used := of_nat (recency h i)\<rparr>)"
  using assms
proof (induction h)
  case Nil
  then show ?case by (auto simp: list_all_length)
next
  case (Cons t h)
  then obtain ss' where ss': "after_touches h (0, ss) = (of_nat (length h), ss')" "length ss' = length ss"
    "\<forall>i < length ss. ss' ! i = (ss ! i)\<lparr>rlast_used := of_nat (recency h i)\<rparr>" by auto
  have nz: "(of_nat (Suc (length h)) :: u32) \<noteq> 0"
    using Cons.prems(2) by (simp add: word_of_nat_eq_0_iff nat_dvd_not_less del: of_nat_Suc)
  from Cons.prems(1) ss' nz show ?case
    by (auto simp: unifrog_media_policy_touch_def Let_def nth_list_update add.commute)
qed

section \<open>Properties\<close>

text \<open>
  The class of a file is decided by what follows its last dot, ignoring case, and the
  tables do not overlap: no file is audio and image, audio and video, or image and video for
  the player, nor two of image, text and archive for the reader. Every route that is
  available for a supported file fits its class.
\<close>

lemma media_classes:
  "\<not> (unifrog_media_path_is_audio (Some p) \<and> unifrog_media_path_is_image (Some p)) \<and>
   \<not> (unifrog_media_path_is_audio (Some p) \<and> path_has_any_suffix (Some p) video_suffixes) \<and>
   \<not> (unifrog_media_path_is_image (Some p) \<and> path_has_any_suffix (Some p) video_suffixes) \<and>
   \<not> (unifrog_reader_path_is_image (Some p) \<and> unifrog_reader_path_is_text (Some p)) \<and>
   \<not> (unifrog_reader_path_is_image (Some p) \<and> unifrog_reader_path_is_archive (Some p)) \<and>
   \<not> (unifrog_reader_path_is_text (Some p) \<and> unifrog_reader_path_is_archive (Some p)) \<and>
   (unifrog_media_path_is_supported (Some p) \<longleftrightarrow>
      dot_tail p \<in> Some ` set (audio_suffixes @ image_suffixes @ video_suffixes))"
proof -
  have disj: "set audio_suffixes \<inter> set image_suffixes = {}" "set audio_suffixes \<inter> set video_suffixes = {}"
    "set image_suffixes \<inter> set video_suffixes = {}" "set reader_image_suffixes \<inter> set reader_text_suffixes = {}"
    "set reader_image_suffixes \<inter> set [''.cbz'', ''.epub''] = {}"
    "set reader_text_suffixes \<inter> set [''.cbz'', ''.epub''] = {}"
    by (simp_all add: audio_suffixes_def image_suffixes_def video_suffixes_def reader_image_suffixes_def
        reader_text_suffixes_def)
  have no: "\<not> (x \<in> Some ` A \<and> x \<in> Some ` B)" if "A \<inter> B = {}" for x :: "string option" and A B
    using that by auto
  show ?thesis
    unfolding class_dot_tail unifrog_media_path_is_supported_def
    using no [OF disj(1)] no [OF disj(2)] no [OF disj(3)] no [OF disj(4)] no [OF disj(5)] no [OF disj(6)]
    by (simp only: set_append image_Un Un_iff) blast
qed

text \<open>
  Route names. Parsing the name of a route gives the route back, parsing any other text
  succeeds only for \<open>media\<close>, which is the automatic route, and the automatic route is
  available for every file, the silent player only for files that are not audio.
\<close>

lemma media_route_roundtrip:
  "list_all (\<lambda>(n, r). unifrog_media_route_parse (Some n) = Some r \<and> unifrog_media_route_name r = n) media_routes \<and>
   (unifrog_media_route_parse (Some name) = None \<or> name = ''media'' \<or> name \<in> set (map fst media_routes)) \<and>
   unifrog_media_route_available (Some (c # cs)) UNIFROG_MEDIA_ROUTE_AUTO hc \<and>
   (unifrog_media_route_available (Some (c # cs)) UNIFROG_MEDIA_ROUTE_HCPLAYER_MUTED hc \<longleftrightarrow>
      hc \<and> \<not> unifrog_media_path_is_audio (Some (c # cs)))"
proof (intro conjI)
  show "list_all (\<lambda>(n, r). unifrog_media_route_parse (Some n) = Some r \<and> unifrog_media_route_name r = n) media_routes"
    by (simp add: media_routes_def unifrog_media_route_parse_def unifrog_media_route_name_def)
  show "unifrog_media_route_parse (Some name) = None \<or> name = ''media'' \<or> name \<in> set (map fst media_routes)"
  proof (cases "name \<in> set (map fst media_routes)")
    case False
    then have "find (\<lambda>row. name = fst row) media_routes = None"
      unfolding find_None_iff by (metis in_set_conv_nth image_eqI list.set_map)
    then show ?thesis by (simp add: unifrog_media_route_parse_def)
  qed simp
qed (simp_all add: unifrog_media_route_available_def)

text \<open>
  Slot search. The result is -1 or the first slot whose range contains the position; and
  a position inside any non-empty slot that ends below 4 GiB is found.
\<close>

lemma media_find_slot_correct:
  assumes "0 \<le> pos" "k < length ss" "rsize (ss ! k) \<noteq> 0" "0 \<le> rstart (ss ! k)"
    and "rstart (ss ! k) \<le> pos" "pos < rstart (ss ! k) + int (unat (rsize (ss ! k)))"
    and "rstart (ss ! k) + int (unat (rsize (ss ! k))) < 2 ^ 32"
  shows "\<exists>i \<le> k. unifrog_media_policy_find_slot (Some ss) pos e = int i \<and>
    rstart (ss ! i) \<le> pos \<and> pos \<le> rstart (ss ! i) + int (unat (rsize (ss ! i)))"
proof -
  have hit: "slot_hit (ss ! k) pos e" using assms(3-7) by (simp add: slot_hit_below_4G)
  from find_slot_loop_cases [of ss pos e 0] show ?thesis
  proof (elim disjE exE conjE)
    assume "list_all (\<lambda>s. \<not> slot_hit s pos e) ss"
    with hit assms(2) show ?thesis by (auto simp: list_all_length)
  next
    fix i assume i: "i < length ss" "find_slot_loop ss pos e 0 = 0 + int i" "slot_hit (ss ! i) pos e"
      "list_all (\<lambda>s. \<not> slot_hit s pos e) (take i ss)"
    have "i \<le> k"
    proof (rule ccontr)
      assume "\<not> i \<le> k"
      with i(4) assms(2) have "\<not> slot_hit (ss ! k) pos e" by (auto simp: list_all_length)
      with hit show False by simp
    qed
    moreover have "rstart (ss ! i) \<le> pos" "pos \<le> rstart (ss ! i) + int (unat (rsize (ss ! i)))"
      using i(3) by (auto simp: slot_hit_def Let_def split: if_splits)
    ultimately show ?thesis
      using i(2) assms(1) by (auto simp: unifrog_media_policy_find_slot_def)
  qed
qed

definition sample_slots :: "readahead_slot list" where
  "sample_slots = [\<lparr>rsize = 4096, rstart = 0, rlast_used = 0\<rparr>, \<lparr>rsize = 4096, rstart = 8192, rlast_used = 0\<rparr>]"

lemma media_find_slot_correct_witness:
  "\<exists>i \<le> 1. unifrog_media_policy_find_slot (Some sample_slots) 9000 False = int i \<and>
    rstart (sample_slots ! i) \<le> 9000 \<and>
    9000 \<le> rstart (sample_slots ! i) + int (unat (rsize (sample_slots ! i)))"
  by (rule media_find_slot_correct) (simp_all add: sample_slots_def)

text \<open>
  Eviction is least recently used. After any history of fewer than \<open>2^32 - 1\<close> touches on
  full slots, the slot chosen for reuse is one whose last touch is the oldest (a slot that
  was never touched counts as older than all others).
\<close>

lemma media_lru:
  assumes "list_all (\<lambda>t. t < length ss) h" "length h < 2 ^ 32 - 1"
    and "list_all (\<lambda>s. rlast_used s = 0) ss" "list_all (\<lambda>s. rsize s \<noteq> 0) ss" "ss \<noteq> []"
  shows "\<exists>b < length ss. unifrog_media_policy_choose_slot (Some (snd (after_touches h (0, ss)))) = (b, True) \<and>
    (\<forall>k < length ss. recency h b \<le> recency h k)"
proof -
  from after_touches_state [OF assms(1-3)] obtain ss' where
    ss': "after_touches h (0, ss) = (of_nat (length h), ss')" "length ss' = length ss"
    "\<forall>i < length ss. ss' ! i = (ss ! i)\<lparr>rlast_used := of_nat (recency h i)\<rparr>" by blast
  have "list_all (\<lambda>s. rsize s \<noteq> 0) ss'" "ss' \<noteq> []"
    using ss' assms(4,5) by (auto simp: list_all_length)
  from choose_full_minimal [OF this] ss'(2) obtain b where
    b: "b < length ss" "unifrog_media_policy_choose_slot (Some ss') = (b, True)"
    "list_all (\<lambda>s. rlast_used (ss' ! b) \<le> rlast_used s) ss'" by auto
  have u: "unat (of_nat (recency h i) :: u32) = recency h i" for i
    using recency_le [of h i] assms(2) by (simp add: unsigned_of_nat take_bit_nat_eq_self)
  have "recency h b \<le> recency h k" if "k < length ss" for k
  proof -
    from b(3) that ss'(2) have "rlast_used (ss' ! b) \<le> rlast_used (ss' ! k)" by (simp add: list_all_length)
    then have "unat (rlast_used (ss' ! b)) \<le> unat (rlast_used (ss' ! k))" by (simp add: word_le_nat_alt)
    moreover have "rlast_used (ss' ! i) = of_nat (recency h i)" if "i < length ss" for i
      using ss'(3) that by simp
    ultimately show ?thesis using b(1) that by (simp only: u)
  qed
  with b ss'(1) show ?thesis by auto
qed

lemma media_lru_witness:
  "\<exists>b < length sample_slots.
     unifrog_media_policy_choose_slot (Some (snd (after_touches [1, 0, 1] (0, sample_slots)))) = (b, True) \<and>
     (\<forall>k < length sample_slots. recency [1, 0, 1] b \<le> recency [1, 0, 1] k)"
  by (rule media_lru) (simp_all add: sample_slots_def)

text \<open>
  The overflow test of a slot compares with a value that was truncated to 32 bits: a slot
  that reaches the 4 GiB boundary is never found.
\<close>

lemma media_slot_at_4G_missed:
  "unifrog_media_policy_find_slot (Some [\<lparr>rsize = 2, rstart = 2 ^ 32 - 2, rlast_used = 0\<rparr>]) (2 ^ 32 - 2) False = -1"
  by (simp add: unifrog_media_policy_find_slot_def slot_hit_def INT64_MAX_def)

end
