(* ===== verification/UF_Crash.thy ===== *)
theory UF_Crash
  imports UF_Fs
begin

text \<open>
  The crash hand-off of \<open>foundation/src/runtime/unifrog_exception_record.c\<close>: two records in
  memory that survives a reset (\<open>apps/fastboot/include/fastboot/handoff.h\<close>), one stored by
  the exception handler and one that names the activity under way, and their report at the
  next boot.

  The state holds both records, the files and the messages given to \<open>unifrog_log\<close>. The CPU
  registers and the memory that the handler samples are arguments. A cache flush changes
  nothing the model can see.
\<close>

section \<open>Records\<close>

definition FASTBOOT_EXCEPTION_MAGIC :: u32 where "FASTBOOT_EXCEPTION_MAGIC = 0x55464245"
definition FASTBOOT_EXCEPTION_VERSION :: u32 where "FASTBOOT_EXCEPTION_VERSION = 3"
definition FASTBOOT_EXCEPTION_EPC_WORDS :: nat where "FASTBOOT_EXCEPTION_EPC_WORDS = 4"
definition FASTBOOT_EXCEPTION_STACK_WORDS :: nat where "FASTBOOT_EXCEPTION_STACK_WORDS = 8"
definition FASTBOOT_ACTIVITY_MAGIC :: u32 where "FASTBOOT_ACTIVITY_MAGIC = 0x55464241"
definition FASTBOOT_ACTIVITY_VERSION :: u32 where "FASTBOOT_ACTIVITY_VERSION = 1"
definition FASTBOOT_ACTIVITY_FLAG_ARMED :: u32 where "FASTBOOT_ACTIVITY_FLAG_ARMED = 1"

definition UNIFROG_CRASH_MARKER_PATH :: string where
  "UNIFROG_CRASH_MARKER_PATH = ''/media/mmcblk0/unifrog_data/last-crash.ini''"

record exception_record =
  xmagic :: u32
  xversion :: u32
  xcause :: u32
  xepc :: u32
  xbadvaddr :: u32
  xra :: u32
  xcount :: u32
  xstatus :: u32
  xsp :: u32
  xtask :: u32
  xirq_nesting :: u32
  xphase :: u32
  xmarker :: u32
  xheartbeat :: u32
  xdetail0 :: u32
  xdetail1 :: u32
  xepc_section :: u32
  xra_section :: u32
  xgp :: u32
  xepc_words :: "u32 list"
  xstack_words :: "u32 list"
  xchecksum :: u32

record activity_record =
  amagic :: u32
  aversion :: u32
  aflags :: u32
  aphase :: u32
  amarker :: u32
  aheartbeat :: u32
  adetail0 :: u32
  adetail1 :: u32
  acount :: u32
  achecksum :: u32

record crash_log =
  ltag :: string
  levent :: string
  lvalues :: "u32 list"

record crash_state =
  exc :: exception_record
  act :: activity_record
  cfs :: fsys
  clog :: "crash_log list"

definition checksum_mix :: "u32 \<Rightarrow> u32 \<Rightarrow> u32" where
  "checksum_mix checksum v =
     checksum XOR (v + 0x9e3779b9 + push_bit 6 checksum + drop_bit 2 checksum)"

definition exception_checksum :: "exception_record \<Rightarrow> u32" where
  "exception_checksum r =
     foldl checksum_mix
       (xmagic r XOR xversion r XOR xcause r XOR xepc r XOR xbadvaddr r XOR xra r XOR xcount r XOR 0x9e3779b9)
       ([xstatus r, xsp r, xtask r, xirq_nesting r, xphase r, xmarker r, xheartbeat r, xdetail0 r,
         xdetail1 r, xepc_section r, xra_section r, xgp r]
        @ take FASTBOOT_EXCEPTION_EPC_WORDS (xepc_words r)
        @ take FASTBOOT_EXCEPTION_STACK_WORDS (xstack_words r))"

definition activity_checksum :: "activity_record \<Rightarrow> u32" where
  "activity_checksum r =
     foldl checksum_mix 0x41435456
       [amagic r, aversion r, aflags r, aphase r, amarker r, aheartbeat r, adetail0 r, adetail1 r, acount r]"

definition activity_valid :: "activity_record \<Rightarrow> bool" where
  "activity_valid r \<longleftrightarrow> amagic r = FASTBOOT_ACTIVITY_MAGIC \<and> aversion r = FASTBOOT_ACTIVITY_VERSION \<and>
     achecksum r = activity_checksum r"

definition readable_code_addr :: "u32 \<Rightarrow> bool" where
  "readable_code_addr addr \<longleftrightarrow> addr \<ge> 0x80000000 \<and> addr < 0x80800000 \<and> addr AND 3 = 0"

definition readable_stack_addr :: "u32 \<Rightarrow> bool" where
  "readable_stack_addr addr \<longleftrightarrow> addr \<ge> 0x80000000 \<and> addr < 0x88000000 \<and> addr AND 3 = 0"

definition copy_words :: "(u32 \<Rightarrow> u32) \<Rightarrow> nat \<Rightarrow> u32 \<Rightarrow> (u32 \<Rightarrow> bool) \<Rightarrow> u32 list" where
  "copy_words ram n addr valid =
     map (\<lambda>i. let cur = addr + of_nat i * 4 in if valid cur then ram cur else 0) [0..<n]"

definition phase_labels :: "(u32 \<times> string) list" where
  "phase_labels =
    [(1, ''boot''), (2, ''dma''), (3, ''frontend_start''), (4, ''frontend_storage''),
     (10, ''external_core_begin''), (11, ''external_core_load''), (12, ''external_core_api''),
     (20, ''libretro_begin''), (21, ''libretro_api''), (22, ''libretro_callbacks''),
     (30, ''content_prepare''), (40, ''core_init''), (50, ''retro_load_game''), (60, ''save_load''),
     (70, ''presenter_open''), (71, ''audio_open''), (80, ''run_frame''), (90, ''save_memory''),
     (91, ''unload_game''), (92, ''deinit''), (100, ''finish''), (120, ''core_module_begin''),
     (121, ''core_module_open''), (122, ''core_module_header''), (123, ''core_module_validate''),
     (124, ''core_module_read''), (125, ''core_module_bss''), (126, ''core_module_cache''),
     (127, ''core_module_entry''), (128, ''core_module_done''), (130, ''media''), (131, ''media_audio''),
     (132, ''media_video''), (140, ''log_flush''), (141, ''log_reset''), (142, ''log_recovery''),
     (150, ''report_write''), (160, ''ge_submit'')]"

definition phase_label :: "u32 \<Rightarrow> string" where
  "phase_label phase = (case map_of phase_labels phase of Some l \<Rightarrow> l | None \<Rightarrow> ''none'')"

section \<open>Operations\<close>

text \<open>The registers that the handler reads: status, stack pointer and global pointer.\<close>

record cpu_regs =
  r_status :: u32
  r_sp :: u32
  r_gp :: u32

text \<open>The record as the assignments of the handler leave it, before its checksum is stored.\<close>

definition exception_fill ::
  "cpu_regs \<Rightarrow> (u32 \<Rightarrow> u32) \<Rightarrow> u32 \<Rightarrow> u32 \<Rightarrow> u32 \<Rightarrow> u32 \<Rightarrow> crash_state \<Rightarrow> exception_record" where
  "exception_fill regs ram cause epc badvaddr ra s =
     (let old = exc s; a = act s;
          n = (if xmagic old = FASTBOOT_EXCEPTION_MAGIC \<and> xversion old = FASTBOOT_EXCEPTION_VERSION
               then xcount old + 1 else 1);
          armed = activity_valid a \<and> aflags a AND FASTBOOT_ACTIVITY_FLAG_ARMED \<noteq> 0
      in \<lparr>xmagic = FASTBOOT_EXCEPTION_MAGIC, xversion = FASTBOOT_EXCEPTION_VERSION,
          xcause = cause, xepc = epc, xbadvaddr = badvaddr, xra = ra, xcount = n,
          xstatus = r_status regs, xsp = r_sp regs, xtask = 0, xirq_nesting = 0,
          xphase = (if armed then aphase a else 0), xmarker = (if armed then amarker a else 0),
          xheartbeat = (if armed then aheartbeat a else 0),
          xdetail0 = (if armed then adetail0 a else 0), xdetail1 = (if armed then adetail1 a else 0),
          xepc_section = epc AND 0xfff00000, xra_section = ra AND 0xfff00000, xgp = r_gp regs,
          xepc_words = copy_words ram FASTBOOT_EXCEPTION_EPC_WORDS (epc AND NOT 3) readable_code_addr,
          xstack_words = copy_words ram FASTBOOT_EXCEPTION_STACK_WORDS (r_sp regs) readable_stack_addr,
          xchecksum = xchecksum old\<rparr>)"

definition unifrog_exception_record_store ::
  "cpu_regs \<Rightarrow> (u32 \<Rightarrow> u32) \<Rightarrow> u32 \<Rightarrow> u32 \<Rightarrow> u32 \<Rightarrow> u32 \<Rightarrow> crash_state \<Rightarrow> crash_state" where
  "unifrog_exception_record_store regs ram cause epc badvaddr ra s =
     (let r = exception_fill regs ram cause epc badvaddr ra s
      in s\<lparr>exc := r\<lparr>xchecksum := exception_checksum r\<rparr>\<rparr>)"

fun activity_hash_loop :: "string \<Rightarrow> u32 \<Rightarrow> u32" where
  "activity_hash_loop [] hash = hash"
| "activity_hash_loop (c # cs) hash = activity_hash_loop cs ((hash XOR of_char c) * 16777619)"

definition unifrog_exception_activity_hash :: "string option \<Rightarrow> u32" where
  "unifrog_exception_activity_hash txt =
     (case txt of None \<Rightarrow> 2166136261 | Some t \<Rightarrow> activity_hash_loop t 2166136261)"

definition activity_fill :: "u32 \<Rightarrow> u32 \<Rightarrow> u32 \<Rightarrow> u32 \<Rightarrow> crash_state \<Rightarrow> activity_record" where
  "activity_fill phase marker detail0 detail1 s =
     (let old = act s;
          known = amagic old = FASTBOOT_ACTIVITY_MAGIC \<and> aversion old = FASTBOOT_ACTIVITY_VERSION
      in \<lparr>amagic = FASTBOOT_ACTIVITY_MAGIC, aversion = FASTBOOT_ACTIVITY_VERSION,
          aflags = FASTBOOT_ACTIVITY_FLAG_ARMED, aphase = phase, amarker = marker,
          aheartbeat = (if known then aheartbeat old + 1 else 1),
          adetail0 = detail0, adetail1 = detail1,
          acount = (if known then acount old + 1 else 1), achecksum = achecksum old\<rparr>)"

definition unifrog_exception_activity_set :: "u32 \<Rightarrow> u32 \<Rightarrow> u32 \<Rightarrow> u32 \<Rightarrow> crash_state \<Rightarrow> crash_state" where
  "unifrog_exception_activity_set phase marker detail0 detail1 s =
     (let r = activity_fill phase marker detail0 detail1 s
      in s\<lparr>act := r\<lparr>achecksum := activity_checksum r\<rparr>\<rparr>)"

definition unifrog_exception_activity_clear :: "crash_state \<Rightarrow> crash_state" where
  "unifrog_exception_activity_clear s = s\<lparr>act := (act s)\<lparr>amagic := 0, aflags := 0, achecksum := 0\<rparr>\<rparr>"

text \<open>The result code and, with 1, the five values for the non-null output pointers.\<close>

definition unifrog_exception_record_peek ::
  "crash_state \<Rightarrow> int \<times> (u32 \<times> u32 \<times> u32 \<times> u32 \<times> u32) option" where
  "unifrog_exception_record_peek s =
     (let r = exc s in
      if xmagic r \<noteq> FASTBOOT_EXCEPTION_MAGIC \<or> xversion r \<noteq> FASTBOOT_EXCEPTION_VERSION then (0, None)
      else if exception_checksum r \<noteq> xchecksum r then (-1, None)
      else (1, Some (xcause r, xepc r, xbadvaddr r, xra r, xcount r)))"

text \<open>The conversions \<open>%lu\<close> and \<open>0x%08lx\<close>.\<close>

definition digit :: "nat \<Rightarrow> char" where
  "digit n = (if n < 10 then char_of (48 + n) else char_of (87 + n))"

fun print_dec :: "nat \<Rightarrow> string" where
  "print_dec n = (if n < 10 then [digit n] else print_dec (n div 10) @ [digit (n mod 10)])"

declare print_dec.simps [simp del]

definition print_hex8 :: "u32 \<Rightarrow> string" where
  "print_hex8 w = ''0x'' @ map (\<lambda>i. digit (unat (drop_bit (4 * i) w) mod 16)) [7, 6, 5, 4, 3, 2, 1, 0]"

definition marker_line :: "string \<Rightarrow> string \<Rightarrow> string" where
  "marker_line key v = key @ ''='' @ v @ [LF]"

definition exception_marker :: "string \<Rightarrow> exception_record \<Rightarrow> string" where
  "exception_marker tag r =
     marker_line ''type'' ''exception'' @ marker_line ''tag'' tag @
     marker_line ''count'' (print_dec (unat (xcount r))) @
     marker_line ''cause'' (print_hex8 (xcause r)) @ marker_line ''epc'' (print_hex8 (xepc r)) @
     marker_line ''badvaddr'' (print_hex8 (xbadvaddr r)) @ marker_line ''ra'' (print_hex8 (xra r)) @
     marker_line ''status'' (print_hex8 (xstatus r)) @ marker_line ''sp'' (print_hex8 (xsp r)) @
     marker_line ''gp'' (print_hex8 (xgp r)) @ marker_line ''phase'' (print_dec (unat (xphase r))) @
     marker_line ''phase_label'' (phase_label (xphase r)) @
     marker_line ''marker'' (print_dec (unat (xmarker r))) @
     marker_line ''heartbeat'' (print_dec (unat (xheartbeat r))) @
     marker_line ''detail0'' (print_hex8 (xdetail0 r)) @ marker_line ''detail1'' (print_hex8 (xdetail1 r)) @
     marker_line ''epc_section'' (print_hex8 (xepc_section r)) @
     marker_line ''ra_section'' (print_hex8 (xra_section r)) @
     concat (map (\<lambda>i. marker_line (''epc_word'' @ print_dec i) (print_hex8 (xepc_words r ! i)))
               [0..<FASTBOOT_EXCEPTION_EPC_WORDS]) @
     concat (map (\<lambda>i. marker_line (''stack_word'' @ print_dec i) (print_hex8 (xstack_words r ! i)))
               [0..<FASTBOOT_EXCEPTION_STACK_WORDS])"

definition activity_marker :: "string \<Rightarrow> activity_record \<Rightarrow> string" where
  "activity_marker tag r =
     marker_line ''type'' ''activity'' @ marker_line ''tag'' tag @
     marker_line ''count'' (print_dec (unat (acount r))) @
     marker_line ''phase'' (print_dec (unat (aphase r))) @
     marker_line ''phase_label'' (phase_label (aphase r)) @
     marker_line ''marker'' (print_dec (unat (amarker r))) @
     marker_line ''heartbeat'' (print_dec (unat (aheartbeat r))) @
     marker_line ''detail0'' (print_hex8 (adetail0 r)) @ marker_line ''detail1'' (print_hex8 (adetail1 r))"

definition crash_note :: "string \<Rightarrow> string \<Rightarrow> u32 list \<Rightarrow> crash_state \<Rightarrow> crash_state" where
  "crash_note tag event vals s = s\<lparr>clog := clog s @ [\<lparr>ltag = tag, levent = event, lvalues = vals\<rparr>]\<rparr>"

text \<open>
  The marker file: opened, written and closed; the code ignores whether the writes succeed.
  The \<open>fprintf\<close> calls on the buffered stream are one write of the whole text.
\<close>

definition write_marker :: "string \<Rightarrow> string \<Rightarrow> string \<Rightarrow> crash_state \<Rightarrow> crash_state" where
  "write_marker tag failed body s =
     (case c_fopen_wb UNIFROG_CRASH_MARKER_PATH (cfs s) of
        (True, fs1) \<Rightarrow>
          (let (ok, fs2) = c_fwrite UNIFROG_CRASH_MARKER_PATH body fs1;
               (closed, fs3) = c_sync fs2
           in s\<lparr>cfs := fs3\<rparr>)
      | (False, fs1) \<Rightarrow> crash_note tag failed [] (s\<lparr>cfs := fs1\<rparr>))"

definition exception_clear :: "crash_state \<Rightarrow> crash_state" where
  "exception_clear s = s\<lparr>exc := (exc s)\<lparr>xmagic := 0, xchecksum := 0\<rparr>\<rparr>"

definition unifrog_exception_record_log_and_clear :: "string option \<Rightarrow> crash_state \<Rightarrow> crash_state" where
  "unifrog_exception_record_log_and_clear tag0 s =
     (let r = exc s; tag = (case tag0 of None \<Rightarrow> [] | Some t \<Rightarrow> t) in
      if xmagic r \<noteq> FASTBOOT_EXCEPTION_MAGIC \<or> xversion r \<noteq> FASTBOOT_EXCEPTION_VERSION then s
      else if exception_checksum r \<noteq> xchecksum r
      then exception_clear (crash_note tag ''exception invalid checksum''
             [xchecksum r, exception_checksum r] s)
      else exception_clear (write_marker tag ''exception marker write failed'' (exception_marker tag r)
             (crash_note tag ''exception retained''
               [xcount r, xcause r, xepc r, xbadvaddr r, xra r, xstatus r, xsp r, xgp r, xphase r,
                xmarker r, xheartbeat r, xdetail0 r, xdetail1 r, xepc_section r, xra_section r] s)))"

definition unifrog_exception_activity_log_and_clear :: "string option \<Rightarrow> crash_state \<Rightarrow> crash_state" where
  "unifrog_exception_activity_log_and_clear tag0 s =
     (let r = act s; tag = (case tag0 of None \<Rightarrow> [] | Some t \<Rightarrow> t) in
      if amagic r \<noteq> FASTBOOT_ACTIVITY_MAGIC \<or> aversion r \<noteq> FASTBOOT_ACTIVITY_VERSION then s
      else if activity_checksum r \<noteq> achecksum r
      then unifrog_exception_activity_clear (crash_note tag ''activity invalid checksum''
             [achecksum r, activity_checksum r] s)
      else if aflags r AND FASTBOOT_ACTIVITY_FLAG_ARMED = 0 then unifrog_exception_activity_clear s
      else unifrog_exception_activity_clear
             (write_marker tag ''activity marker write failed'' (activity_marker tag r)
               (crash_note tag ''activity retained''
                 [acount r, aphase r, amarker r, aheartbeat r, adetail0 r, adetail1 r] s)))"

section \<open>Sealed records\<close>

text \<open>
  What both retained records have in common: sealing stores a checksum that does not depend
  on the field it is stored in and keeps the magic, wiping destroys the magic.
\<close>

locale retained_record =
  fixes magic_ok :: "'r \<Rightarrow> bool" and checksum stored :: "'r \<Rightarrow> u32" and seal wipe :: "'r \<Rightarrow> 'r"
  assumes seal_stored: "stored (seal r) = checksum r"
    and seal_checksum: "checksum (seal r) = checksum r"
    and seal_magic: "magic_ok (seal r) = magic_ok r"
    and wipe_magic: "\<not> magic_ok (wipe r)"
begin

lemma sealed_valid: "magic_ok r \<Longrightarrow> magic_ok (seal r) \<and> checksum (seal r) = stored (seal r)"
  by (simp add: seal_stored seal_checksum seal_magic)

lemma wiped_invalid: "\<not> (magic_ok (wipe r) \<and> checksum (wipe r) = stored (wipe r))"
  by (simp add: wipe_magic)

end

definition exc_magic_ok :: "exception_record \<Rightarrow> bool" where
  "exc_magic_ok r \<longleftrightarrow> xmagic r = FASTBOOT_EXCEPTION_MAGIC \<and> xversion r = FASTBOOT_EXCEPTION_VERSION"

definition act_magic_ok :: "activity_record \<Rightarrow> bool" where
  "act_magic_ok r \<longleftrightarrow> amagic r = FASTBOOT_ACTIVITY_MAGIC \<and> aversion r = FASTBOOT_ACTIVITY_VERSION"

interpretation xr: retained_record exc_magic_ok exception_checksum xchecksum
  "\<lambda>r. r\<lparr>xchecksum := exception_checksum r\<rparr>" "\<lambda>r. r\<lparr>xmagic := 0, xchecksum := 0\<rparr>"
  by unfold_locales (simp_all add: exc_magic_ok_def exception_checksum_def FASTBOOT_EXCEPTION_MAGIC_def)

interpretation ar: retained_record act_magic_ok activity_checksum achecksum
  "\<lambda>r. r\<lparr>achecksum := activity_checksum r\<rparr>" "\<lambda>r. r\<lparr>amagic := 0, aflags := 0, achecksum := 0\<rparr>"
  by unfold_locales (simp_all add: act_magic_ok_def activity_checksum_def FASTBOOT_ACTIVITY_MAGIC_def)

lemma peek_cases:
  "unifrog_exception_record_peek s =
     (if \<not> exc_magic_ok (exc s) then (0, None)
      else if exception_checksum (exc s) \<noteq> xchecksum (exc s) then (-1, None)
      else (1, Some (xcause (exc s), xepc (exc s), xbadvaddr (exc s), xra (exc s), xcount (exc s))))"
  by (simp add: unifrog_exception_record_peek_def exc_magic_ok_def Let_def)

lemma store_exc:
  "exc (unifrog_exception_record_store regs ram cause epc badvaddr ra s) =
     (exception_fill regs ram cause epc badvaddr ra s)
       \<lparr>xchecksum := exception_checksum (exception_fill regs ram cause epc badvaddr ra s)\<rparr>"
  by (simp add: unifrog_exception_record_store_def Let_def)

lemma store_sealed:
  "exc_magic_ok (exc (unifrog_exception_record_store regs ram cause epc badvaddr ra s))"
  "exception_checksum (exc (unifrog_exception_record_store regs ram cause epc badvaddr ra s)) =
     xchecksum (exc (unifrog_exception_record_store regs ram cause epc badvaddr ra s))"
  unfolding store_exc xr.seal_checksum xr.seal_stored xr.seal_magic
  by (simp_all add: exc_magic_ok_def exception_fill_def Let_def)

lemma store_frame:
  "act (unifrog_exception_record_store regs ram cause epc badvaddr ra s) = act s"
  "cfs (unifrog_exception_record_store regs ram cause epc badvaddr ra s) = cfs s"
  by (simp_all add: unifrog_exception_record_store_def Let_def)

lemma activity_set_valid:
  "activity_valid (act (unifrog_exception_activity_set phase marker d0 d1 s))"
  "aflags (act (unifrog_exception_activity_set phase marker d0 d1 s)) = FASTBOOT_ACTIVITY_FLAG_ARMED"
  "aphase (act (unifrog_exception_activity_set phase marker d0 d1 s)) = phase"
  "amarker (act (unifrog_exception_activity_set phase marker d0 d1 s)) = marker"
  "adetail0 (act (unifrog_exception_activity_set phase marker d0 d1 s)) = d0"
  "adetail1 (act (unifrog_exception_activity_set phase marker d0 d1 s)) = d1"
proof -
  have a: "act (unifrog_exception_activity_set phase marker d0 d1 s) =
      (activity_fill phase marker d0 d1 s)
        \<lparr>achecksum := activity_checksum (activity_fill phase marker d0 d1 s)\<rparr>"
    by (simp add: unifrog_exception_activity_set_def Let_def)
  show "activity_valid (act (unifrog_exception_activity_set phase marker d0 d1 s))"
    unfolding a activity_valid_def ar.seal_checksum ar.seal_stored
    by (simp add: activity_fill_def Let_def)
qed (simp_all add: unifrog_exception_activity_set_def activity_fill_def Let_def)

lemma write_marker_healthy:
  assumes "faults (cfs s) = []"
  shows "write_marker tag failed body s =
    s\<lparr>cfs := put_file UNIFROG_CRASH_MARKER_PATH body (cfs s)\<rparr>"
  using assms by (simp add: write_marker_def c_fopen_wb_def c_fwrite_def c_sync_def)

lemma write_marker_frame:
  "exc (write_marker tag failed body s) = exc s" "act (write_marker tag failed body s) = act s"
  by (auto simp: write_marker_def crash_note_def split: prod.splits bool.splits)

section \<open>The layout of the retained memory\<close>

text \<open>The regions of \<open>handoff.h\<close>: base address and size in bytes, in address order.\<close>

definition retained_regions :: "(nat \<times> nat) list" where
  "retained_regions =
     [(0x87fff700, (19 + FASTBOOT_EXCEPTION_EPC_WORDS + FASTBOOT_EXCEPTION_STACK_WORDS + 1) * 4),
      (0x87fff780, 16 + 64 * 24),
      (0x87fffdc0, 10 * 4),
      (0x87fffe00, 16 + 96),
      (0x87fffe70, 16 + 32 * 4),
      (0x87ffff00, 4 + 96)]"

section \<open>Properties\<close>

text \<open>
  C26. A stored exception is what the next boot sees. Whatever the retained memory held, after
  the handler stored an exception, peeking reports it as valid with exactly its cause,
  addresses and the number of exceptions in a row, which restarts at 1 when no exception
  record was there.
\<close>

theorem crash_store_peek:
  "unifrog_exception_record_peek (unifrog_exception_record_store regs ram cause epc badvaddr ra s) =
     (1, Some (cause, epc, badvaddr, ra, if exc_magic_ok (exc s) then xcount (exc s) + 1 else 1))"
  using store_sealed [of regs ram cause epc badvaddr ra s]
  unfolding peek_cases
  by (simp add: store_exc) (simp add: exception_fill_def Let_def exc_magic_ok_def)

text \<open>
  The crash names the activity. An exception stored after an activity was announced
  carries its phase, marker and details; after the activity was cleared, it carries zeros.
\<close>

lemma crash_names_activity:
  "(let x = exc (unifrog_exception_record_store regs ram cause epc badvaddr ra
                   (unifrog_exception_activity_set phase marker d0 d1 s))
    in (xphase x, xmarker x, xdetail0 x, xdetail1 x)) = (phase, marker, d0, d1) \<and>
   (let x = exc (unifrog_exception_record_store regs ram cause epc badvaddr ra
                   (unifrog_exception_activity_clear s))
    in (xphase x, xmarker x, xdetail0 x, xdetail1 x)) = (0, 0, 0, 0)"
proof
  show "(let x = exc (unifrog_exception_record_store regs ram cause epc badvaddr ra
                   (unifrog_exception_activity_set phase marker d0 d1 s))
    in (xphase x, xmarker x, xdetail0 x, xdetail1 x)) = (phase, marker, d0, d1)"
    by (simp add: store_exc Let_def)
       (simp add: exception_fill_def Let_def activity_set_valid FASTBOOT_ACTIVITY_FLAG_ARMED_def)
  have "\<not> activity_valid (act (unifrog_exception_activity_clear s))"
    by (simp add: activity_valid_def unifrog_exception_activity_clear_def FASTBOOT_ACTIVITY_MAGIC_def)
  then show "(let x = exc (unifrog_exception_record_store regs ram cause epc badvaddr ra
                   (unifrog_exception_activity_clear s))
    in (xphase x, xmarker x, xdetail0 x, xdetail1 x)) = (0, 0, 0, 0)"
    by (simp add: store_exc Let_def) (simp add: exception_fill_def Let_def)
qed

text \<open>
  The memory of the machine, stated on numbers: a word can be read at an address that is a multiple of
  four, from \<open>0x80000000\<close> up to a limit, which is 8 MB further for code and 128 MB further for data.
\<close>

definition mapped_word :: "nat \<Rightarrow> nat \<Rightarrow> bool" where
  "mapped_word megabytes a \<longleftrightarrow> 2 ^ 31 \<le> a \<and> a < 2 ^ 31 + megabytes * 2 ^ 20 \<and> a mod 4 = 0"

lemma and_3_mod: "a AND 3 = 0 \<longleftrightarrow> unat (a :: u32) mod 4 = 0"
proof -
  have "a AND 3 = a AND mask 2" by (simp add: mask_eq_exp_minus_1)
  also have "\<dots> = take_bit 2 a" by (simp add: take_bit_eq_mask)
  finally have "unat (a AND 3) = take_bit 2 (unat a)" by (simp only: unsigned_take_bit_eq)
  then have "unat (a AND 3) = unat a mod 4" by (simp add: take_bit_eq_mod)
  then show ?thesis by (metis unsigned_eq_0_iff)
qed

lemma and_not_mask: "(a :: u32) AND NOT (mask k) = push_bit k (drop_bit k a)"
  by (rule bit_word_eqI) (auto simp: bit_simps)

lemma and_not_3: "unat (a AND NOT 3 :: u32) = unat a div 4 * 4"
proof -
  have "a AND NOT 3 = a AND NOT (mask 2)" by (simp add: mask_eq_exp_minus_1)
  also have "\<dots> = push_bit 2 (drop_bit 2 a)" by (rule and_not_mask)
  finally have e: "a AND NOT 3 = push_bit 2 (drop_bit 2 a)" .
  have "unat a div 4 * 4 < 2 ^ 32"
    by (rule le_less_trans [OF div_times_less_eq_dividend]) (use unsigned_less [of a] in simp)
  moreover have "unat (drop_bit 2 a) = unat a div 4" by (simp only: unat_drop_bit_eq) (simp add: drop_bit_eq_div)
  ultimately show ?thesis
    unfolding e by (simp only: unsigned_push_bit_eq) (simp add: push_bit_eq_mult take_bit_nat_eq_self)
qed

lemma readable_mapped:
  "readable_code_addr a \<longleftrightarrow> mapped_word 8 (unat a)" "readable_stack_addr a \<longleftrightarrow> mapped_word 128 (unat a)"
  by (simp_all add: readable_code_addr_def readable_stack_addr_def mapped_word_def and_3_mod word_le_nat_alt word_less_nat_alt)

text \<open>The words at \<open>n\<close> consecutive places from the address \<open>a\<close>, which wraps after 32 bits; 0 where nothing can be read.\<close>

definition mapped_words :: "(u32 \<Rightarrow> u32) \<Rightarrow> nat \<Rightarrow> nat \<Rightarrow> nat \<Rightarrow> u32 list" where
  "mapped_words ram megabytes n a =
     map (\<lambda>i. let w = (a + 4 * i) mod 2 ^ 32 in if mapped_word megabytes w then ram (word_of_nat w) else 0) [0..<n]"

lemma copy_words_mapped:
  assumes "\<And>a. valid a \<longleftrightarrow> mapped_word megabytes (unat a)"
  shows "copy_words ram n addr valid = mapped_words ram megabytes n (unat addr)"
proof -
  have "addr + of_nat i * 4 = word_of_nat (unat addr + 4 * i)" for i by (simp add: mult.commute)
  then have u: "unat (addr + of_nat i * 4) = (unat addr + 4 * i) mod 2 ^ 32" for i by (simp only: unat_of_nat) simp
  have "addr + of_nat i * 4 = word_of_nat ((unat addr + 4 * i) mod 2 ^ 32)" for i
    unfolding u [symmetric] by simp
  with u show ?thesis by (simp only: copy_words_def mapped_words_def assms Let_def)
qed

text \<open>
  C30. The handler reads memory only where it is mapped and aligned. Two memories that agree on the
  multiples of four in the 128 MB from \<open>0x80000000\<close> give the same record, whatever the program counter and
  the stack pointer are. The four words of code it keeps start at the program counter rounded down to a
  multiple of four, and are read only in the first 8 MB; the eight words of stack start at the stack pointer;
  a word that cannot be read is kept as 0, and addresses wrap after 32 bits.
\<close>

theorem crash_store_reads_mapped:
  assumes "\<And>a. 0x80000000 \<le> unat a \<Longrightarrow> unat a < 0x88000000 \<Longrightarrow> unat a mod 4 = 0 \<Longrightarrow> ram a = ram' a"
  shows "unifrog_exception_record_store regs ram cause epc badvaddr ra s =
      unifrog_exception_record_store regs ram' cause epc badvaddr ra s \<and>
    xepc_words (exc (unifrog_exception_record_store regs ram cause epc badvaddr ra s)) =
      mapped_words ram 8 4 (unat epc div 4 * 4) \<and>
    xstack_words (exc (unifrog_exception_record_store regs ram cause epc badvaddr ra s)) =
      mapped_words ram 128 8 (unat (r_sp regs))"
proof -
  note words = copy_words_mapped [where megabytes = 8 and valid = readable_code_addr, OF readable_mapped(1)]
    copy_words_mapped [where megabytes = 128 and valid = readable_stack_addr, OF readable_mapped(2)]
  have "ram a = ram' a" if "mapped_word 128 (unat a)" for a using assms [of a] that by (simp add: mapped_word_def)
  moreover have "mapped_word 8 w \<Longrightarrow> mapped_word 128 w" for w by (simp add: mapped_word_def)
  ultimately have "mapped_words ram m n a = mapped_words ram' m n a" if "m \<in> {8, 128}" for m n a
    using that by (auto simp: mapped_words_def Let_def unat_of_nat)
  then have "exception_fill regs ram cause epc badvaddr ra s = exception_fill regs ram' cause epc badvaddr ra s"
    by (simp add: exception_fill_def words)
  moreover have "xepc_words (exception_fill regs ram cause epc badvaddr ra s) = mapped_words ram 8 4 (unat epc div 4 * 4)"
    "xstack_words (exception_fill regs ram cause epc badvaddr ra s) = mapped_words ram 128 8 (unat (r_sp regs))"
    unfolding exception_fill_def Let_def words and_not_3 FASTBOOT_EXCEPTION_EPC_WORDS_def FASTBOOT_EXCEPTION_STACK_WORDS_def by simp_all
  ultimately show ?thesis by (simp add: unifrog_exception_record_store_def Let_def)
qed

definition blank_crash :: crash_state where
  "blank_crash =
     \<lparr>exc = \<lparr>xmagic = 0, xversion = 0, xcause = 0, xepc = 0, xbadvaddr = 0, xra = 0, xcount = 0, xstatus = 0,
             xsp = 0, xtask = 0, xirq_nesting = 0, xphase = 0, xmarker = 0, xheartbeat = 0, xdetail0 = 0,
             xdetail1 = 0, xepc_section = 0, xra_section = 0, xgp = 0, xepc_words = replicate 4 0,
             xstack_words = replicate 8 0, xchecksum = 0\<rparr>,
      act = \<lparr>amagic = 0, aversion = 0, aflags = 0, aphase = 0, amarker = 0, aheartbeat = 0, adetail0 = 0,
             adetail1 = 0, acount = 0, achecksum = 0\<rparr>,
      cfs = \<lparr>files = Map.empty, replace_ok = True, faults = [], errno = 0\<rparr>, clog = []\<rparr>"

theorem crash_store_reads_mapped_witness:
  "unifrog_exception_record_store \<lparr>r_status = 0, r_sp = 0x80000010, r_gp = 0\<rparr> (\<lambda>a. if a = 3 then 7 else take_bit 8 a) 1 2 3 4 blank_crash =
      unifrog_exception_record_store \<lparr>r_status = 0, r_sp = 0x80000010, r_gp = 0\<rparr> (\<lambda>a. take_bit 8 a) 1 2 3 4 blank_crash \<and>
    xstack_words (exc (unifrog_exception_record_store \<lparr>r_status = 0, r_sp = 0x80000010, r_gp = 0\<rparr>
      (\<lambda>a. if a = 3 then 7 else take_bit 8 a) 1 2 3 4 blank_crash)) = [0x10, 0x14, 0x18, 0x1C, 0x20, 0x24, 0x28, 0x2C]"
proof -
  let ?regs = "\<lparr>r_status = 0, r_sp = 0x80000010, r_gp = 0\<rparr>"
  let ?ram = "\<lambda>a :: u32. if a = 3 then 7 else take_bit 8 a"
  have "?ram a = take_bit 8 a" if "unat a mod 4 = 0" for a using that by auto
  then have r: "unifrog_exception_record_store ?regs ?ram 1 2 3 4 blank_crash =
      unifrog_exception_record_store ?regs (\<lambda>a. take_bit 8 a) 1 2 3 4 blank_crash \<and>
    xepc_words (exc (unifrog_exception_record_store ?regs ?ram 1 2 3 4 blank_crash)) =
      mapped_words ?ram 8 4 (unat (2 :: u32) div 4 * 4) \<and>
    xstack_words (exc (unifrog_exception_record_store ?regs ?ram 1 2 3 4 blank_crash)) =
      mapped_words ?ram 128 8 (unat (r_sp ?regs))"
    by (intro crash_store_reads_mapped)
  have "mapped_words ?ram 128 8 (unat (r_sp ?regs)) = [0x10, 0x14, 0x18, 0x1C, 0x20, 0x24, 0x28, 0x2C]"
    by (simp add: mapped_words_def mapped_word_def upt_conv_Cons)
  with r show ?thesis by metis
qed

text \<open>
  The report at boot. With a working file system, a valid exception record is written to
  the marker file and logged, a record whose checksum does not match is logged but leaves
  the files alone, and in every case no exception record remains, so the same crash is not
  reported twice.
\<close>

lemma crash_report_once:
  assumes "faults (cfs s) = []" "exc_magic_ok (exc s)"
  shows "let s' = unifrog_exception_record_log_and_clear tag s in
    fst (unifrog_exception_record_peek s') = 0 \<and> unifrog_exception_record_log_and_clear tag s' = s' \<and>
    act s' = act s \<and> length (clog s') = Suc (length (clog s)) \<and>
    files (cfs s') =
      (if exception_checksum (exc s) = xchecksum (exc s)
       then (files (cfs s))(UNIFROG_CRASH_MARKER_PATH \<mapsto>
              exception_marker (case tag of None \<Rightarrow> [] | Some t \<Rightarrow> t) (exc s))
       else files (cfs s))"
proof -
  let ?s' = "unifrog_exception_record_log_and_clear tag s"
  have gone: "\<not> exc_magic_ok (exc (exception_clear u))" for u
    using xr.wipe_magic by (simp add: exception_clear_def)
  have "\<exists>u. ?s' = exception_clear u"
    using assms(2)
    by (cases "exception_checksum (exc s) = xchecksum (exc s)")
       (auto simp: unifrog_exception_record_log_and_clear_def Let_def exc_magic_ok_def)
  then obtain u where u: "?s' = exception_clear u" by blast
  have "fst (unifrog_exception_record_peek ?s') = 0"
    unfolding u using gone by (simp add: peek_cases)
  moreover have "unifrog_exception_record_log_and_clear tag ?s' = ?s'"
    unfolding u using gone [of u]
    by (auto simp: unifrog_exception_record_log_and_clear_def exc_magic_ok_def Let_def)
  moreover have "act ?s' = act s \<and> length (clog ?s') = Suc (length (clog s)) \<and>
    files (cfs ?s') =
      (if exception_checksum (exc s) = xchecksum (exc s)
       then (files (cfs s))(UNIFROG_CRASH_MARKER_PATH \<mapsto>
              exception_marker (case tag of None \<Rightarrow> [] | Some t \<Rightarrow> t) (exc s))
       else files (cfs s))"
    using assms
    by (simp add: unifrog_exception_record_log_and_clear_def exc_magic_ok_def Let_def crash_note_def
        write_marker_healthy exception_clear_def)
  ultimately show ?thesis by (simp add: Let_def)
qed

lemma crash_report_once_witness:
  "let s = unifrog_exception_record_store \<lparr>r_status = 0, r_sp = 0, r_gp = 0\<rparr> (\<lambda>_. 0) 1 2 3 4 blank_crash;
       s' = unifrog_exception_record_log_and_clear None s in
    fst (unifrog_exception_record_peek s') = 0 \<and>
    files (cfs s') = (files (cfs s))(UNIFROG_CRASH_MARKER_PATH \<mapsto> exception_marker [] (exc s))"
proof -
  let ?s = "unifrog_exception_record_store \<lparr>r_status = 0, r_sp = 0, r_gp = 0\<rparr> (\<lambda>_. 0) 1 2 3 4 blank_crash"
  have "faults (cfs ?s) = []" by (simp add: store_frame blank_crash_def)
  from crash_report_once [OF this store_sealed(1), of None] store_sealed(2) show ?thesis
    by (simp add: Let_def)
qed

text \<open>
  The retained regions do not overlap. The exception record, the boot trace, the activity
  record, the diagnostics, the register dump and the boot hand-off lie one behind the other,
  and the last one ends below \<open>0x88000000\<close>, the end of the memory.
\<close>

lemma retained_regions_disjoint:
  "sorted_wrt (\<lambda>(a, n) (b, m). a + n \<le> b) retained_regions \<and>
   list_all (\<lambda>(a, n). a + n \<le> 0x88000000 \<and> a mod 4 = 0) retained_regions"
  by (simp add: retained_regions_def FASTBOOT_EXCEPTION_EPC_WORDS_def FASTBOOT_EXCEPTION_STACK_WORDS_def)

text \<open>
  At boot both records are reported one after the other, and both reports write the same
  marker file: after a crash during an announced activity, the file holds only the activity
  and the description of the exception is lost.
\<close>

lemma crash_marker_overwritten:
  assumes "faults (cfs s) = []" "exc_magic_ok (exc s)" "activity_valid (act s)"
    and "aflags (act s) = FASTBOOT_ACTIVITY_FLAG_ARMED"
  shows "files (cfs (unifrog_exception_activity_log_and_clear (Some tag)
      (unifrog_exception_record_log_and_clear (Some tag) s))) UNIFROG_CRASH_MARKER_PATH =
    Some (activity_marker tag (act s))"
proof -
  let ?s1 = "unifrog_exception_record_log_and_clear (Some tag) s"
  have "act ?s1 = act s" "faults (cfs ?s1) = []"
    using assms(1,2)
    by (simp_all add: unifrog_exception_record_log_and_clear_def exc_magic_ok_def Let_def crash_note_def
        write_marker_healthy exception_clear_def)
  with assms(3,4) show ?thesis
    by (simp add: unifrog_exception_activity_log_and_clear_def [of _ ?s1] Let_def activity_valid_def
        crash_note_def write_marker_healthy unifrog_exception_activity_clear_def FASTBOOT_ACTIVITY_FLAG_ARMED_def)
qed

end
