(* ===== verification/UF_Menu.thy ===== *)
theory UF_Menu
  imports UF_Policy
begin

text \<open>
  The menu model of the frontend (\<open>components/frontend/src/app/frontend_model.c\<close>): the
  identifiers of the menu actions, the rows of the five menus that are built from the
  settings, and the cursor.  A \<open>snprintf\<close> of string arguments into a text field is \<open>snprintf_s\<close>
  of the concatenated arguments; a \<open>NULL\<close> text is \<open>None\<close>.
\<close>

section \<open>Data\<close>

datatype frontend_action =
  ACTION_NONE | ACTION_EXPLORE | ACTION_FAVORITES | ACTION_HISTORY | ACTION_APPS | ACTION_INFO |
  ACTION_CONFIG | ACTION_REBOOT | ACTION_SHUTDOWN | ACTION_LAUNCH_SETTINGS | ACTION_CUSTOM |
  ACTION_INTERFACE | ACTION_THEME | ACTION_LANGUAGE | ACTION_POWER | ACTION_STORAGE |
  ACTION_STORAGE_MODE | ACTION_SORT | ACTION_CLOCK | ACTION_TITLE_ROOT | ACTION_COUNTER_FOLDER |
  ACTION_COUNTER_FILE | ACTION_HIDDEN | ACTION_CONTENT_COLLECT | ACTION_CONTENT_HISTORY |
  ACTION_MIXED_CONTENT | ACTION_EXPLORE_UNIFROG | ACTION_EXPLORE_BIOS | ACTION_EXPLORE_DATA |
  ACTION_FIRMWARE | ACTION_UPDATES | ACTION_CORES | ACTION_PACKAGE_CHECK | ACTION_EXPLORE_SAVES |
  ACTION_STORAGE_FAST_PROBE | ACTION_FLUSH_LOG | ACTION_STORAGE_PROFILE | ACTION_BACK_STORAGE |
  ACTION_EXPLORE_SD

datatype model_screen = MODEL_LAUNCH | MODEL_CONFIG | MODEL_VISUAL | MODEL_STORAGE | MODEL_STORAGE_MODE

definition UNIFROG_FRONTEND_MODEL_MAX_ITEMS :: nat where "UNIFROG_FRONTEND_MODEL_MAX_ITEMS = 32"

definition UNIFROG_FRONTEND_MODEL_TEXT_MAX :: nat where "UNIFROG_FRONTEND_MODEL_TEXT_MAX = 96"

record model_settings =
  ms_sort_desc :: bool
  ms_clock_enabled :: bool
  ms_title_include_root :: bool
  ms_menu_counter_folder :: bool
  ms_menu_counter_file :: bool
  ms_show_hidden :: bool
  ms_content_collect :: bool
  ms_content_history :: bool
  ms_mixed_content :: bool
  ms_theme :: "string option"
  ms_language :: "string option"
  ms_rom_root_label :: "string option"
  ms_rom_root :: "string option"
  ms_active_storage_profile :: "string option"
  ms_configured_storage_profile :: "string option"
  ms_boot_storage_profile :: "string option"
  ms_storage_normal_profile :: "string option"
  ms_storage_fallback_profile :: "string option"

record model_item =
  mi_label :: string
  mi_detail :: string
  mi_action :: frontend_action
  mi_payload :: string

text \<open>\<open>items\<close> is the used part of the array, so the field \<open>count\<close> is its length.\<close>

record frontend_model =
  fm_screen :: model_screen
  fm_title :: string
  fm_status :: string
  fm_items :: "model_item list"
  fm_selected :: u32

definition action_ids :: "(frontend_action \<times> string) list" where
  "action_ids =
    [(ACTION_EXPLORE, ''explore''), (ACTION_EXPLORE_SD, ''explore_sd''),
    (ACTION_FAVORITES, ''favorites''), (ACTION_HISTORY, ''history''), (ACTION_APPS, ''apps''),
    (ACTION_INFO, ''info''), (ACTION_CONFIG, ''config''), (ACTION_REBOOT, ''reboot''),
    (ACTION_SHUTDOWN, ''shutdown''), (ACTION_LAUNCH_SETTINGS, ''launch_settings''),
    (ACTION_CUSTOM, ''custom''), (ACTION_INTERFACE, ''interface''), (ACTION_THEME, ''theme''),
    (ACTION_LANGUAGE, ''language''), (ACTION_POWER, ''power''), (ACTION_STORAGE, ''storage''),
    (ACTION_STORAGE_MODE, ''storage_mode''), (ACTION_SORT, ''sort''), (ACTION_CLOCK, ''clock''),
    (ACTION_TITLE_ROOT, ''title_root''), (ACTION_COUNTER_FOLDER, ''counter_folder''),
    (ACTION_COUNTER_FILE, ''counter_file''), (ACTION_HIDDEN, ''hidden''),
    (ACTION_CONTENT_COLLECT, ''content_collect''), (ACTION_CONTENT_HISTORY, ''content_history''),
    (ACTION_MIXED_CONTENT, ''mixed_content''), (ACTION_EXPLORE_UNIFROG, ''explore_unifrog''),
    (ACTION_EXPLORE_BIOS, ''explore_bios''), (ACTION_EXPLORE_DATA, ''explore_data''),
    (ACTION_FIRMWARE, ''firmware''), (ACTION_UPDATES, ''updates''), (ACTION_CORES, ''cores''),
    (ACTION_PACKAGE_CHECK, ''package_check''), (ACTION_EXPLORE_SAVES, ''explore_saves''),
    (ACTION_STORAGE_FAST_PROBE, ''storage_fast_probe''), (ACTION_FLUSH_LOG, ''flush_log''),
    (ACTION_STORAGE_PROFILE, ''storage_profile''), (ACTION_BACK_STORAGE, ''back_storage'')]"

section \<open>Operations\<close>

text \<open>
  A pointer printed with \<open>%s\<close>.  The C library of the target prints \<open>(null)\<close> for a null pointer.
  A pointer compared by \<open>strcmp\<close> with a string is compared with \<open>Some\<close> of it.
\<close>

definition printf_s :: "string option \<Rightarrow> string" where
  "printf_s p = (case p of None \<Rightarrow> ''(null)'' | Some s \<Rightarrow> s)"

definition on_off :: "bool \<Rightarrow> string" where
  "on_off v = (if v then ''on'' else ''off'')"

definition model_text :: "string option \<Rightarrow> string" where
  "model_text p = snprintf_s UNIFROG_FRONTEND_MODEL_TEXT_MAX (case p of None \<Rightarrow> [] | Some s \<Rightarrow> s)"

definition model_reset :: "model_screen \<Rightarrow> string \<Rightarrow> frontend_model" where
  "model_reset screen title =
     \<lparr>fm_screen = screen, fm_title = model_text (Some title), fm_status = [], fm_items = [], fm_selected = 0\<rparr>"

definition model_add ::
  "string option \<Rightarrow> string option \<Rightarrow> frontend_action \<Rightarrow> string option \<Rightarrow> frontend_model \<Rightarrow> frontend_model"
where
  "model_add label detail action payload m =
     (if length (fm_items m) \<ge> UNIFROG_FRONTEND_MODEL_MAX_ITEMS then m
      else m\<lparr>fm_items := fm_items m @ [\<lparr>mi_label = model_text label, mi_detail = model_text detail,
                mi_action = action, mi_payload = model_text payload\<rparr>]\<rparr>)"

definition unifrog_frontend_action_id :: "frontend_action \<Rightarrow> string" where
  "unifrog_frontend_action_id action =
     (case find (\<lambda>p. fst p = action) action_ids of Some p \<Rightarrow> snd p | None \<Rightarrow> [])"

definition unifrog_frontend_action_from_id :: "string option \<Rightarrow> frontend_action" where
  "unifrog_frontend_action_from_id id_opt =
     (case id_opt of None \<Rightarrow> ACTION_NONE
      | Some s \<Rightarrow> if s = [] then ACTION_NONE
          else (case find (\<lambda>p. snd p = s) action_ids of Some p \<Rightarrow> fst p | None \<Rightarrow> ACTION_NONE))"

text \<open>A menu is a list of rows added in order to a cleared model.\<close>

type_synonym model_row = "string option \<times> string option \<times> frontend_action \<times> string option"

definition model_add_rows :: "model_row list \<Rightarrow> frontend_model \<Rightarrow> frontend_model" where
  "model_add_rows rows m = fold (\<lambda>(l, d, a, p). model_add l d a p) rows m"

definition row :: "string \<Rightarrow> string \<Rightarrow> frontend_action \<Rightarrow> model_row" where
  "row l d a = (Some l, Some d, a, None)"

definition build_launch :: frontend_model where
  "build_launch = model_add_rows
     [row ''Explore'' ''SD root'' ACTION_EXPLORE_SD,
      row ''Collection'' ''favorites'' ACTION_FAVORITES,
      row ''History'' ''recent'' ACTION_HISTORY,
      row ''Apps'' ''native'' ACTION_APPS,
      row ''Info'' ''device'' ACTION_INFO,
      row ''Config'' ''settings'' ACTION_CONFIG,
      row ''Reboot'' ''system'' ACTION_REBOOT,
      row ''Safe Shutdown'' ''flush writes, then power off'' ACTION_SHUTDOWN]
     (model_reset MODEL_LAUNCH ''muOS'')"

definition build_config :: "model_settings \<Rightarrow> frontend_model" where
  "build_config s = model_add_rows
     [row ''Gameplay'' ''launch defaults'' ACTION_LAUNCH_SETTINGS,
      row ''Browser'' ''listing and history'' ACTION_INTERFACE,
      (Some ''Appearance'', ms_theme s, ACTION_CUSTOM, None),
      row ''Storage'' ''SD tools'' ACTION_STORAGE,
      row ''Power'' ''battery and reboot'' ACTION_POWER,
      (Some ''Language'', ms_language s, ACTION_LANGUAGE, None)]
     (model_reset MODEL_CONFIG ''Config'')"

definition build_visual :: "model_settings \<Rightarrow> frontend_model" where
  "build_visual s = model_add_rows
     [row ''Sort'' (if ms_sort_desc s then ''name desc'' else ''name asc'') ACTION_SORT,
      row ''Clock'' (on_off (ms_clock_enabled s)) ACTION_CLOCK,
      row ''Title Root Drive'' (on_off (ms_title_include_root s)) ACTION_TITLE_ROOT,
      row ''Menu Counter Folder'' (on_off (ms_menu_counter_folder s)) ACTION_COUNTER_FOLDER,
      row ''Menu Counter File'' (on_off (ms_menu_counter_file s)) ACTION_COUNTER_FILE,
      row ''Hidden'' (if ms_show_hidden s then ''shown'' else ''hidden'') ACTION_HIDDEN,
      row ''Content Collect'' (on_off (ms_content_collect s)) ACTION_CONTENT_COLLECT,
      row ''Content History'' (on_off (ms_content_history s)) ACTION_CONTENT_HISTORY,
      row ''Mixed Content'' (on_off (ms_mixed_content s)) ACTION_MIXED_CONTENT]
     (model_reset MODEL_VISUAL ''Visual'')"

definition storage_policy :: "model_settings \<Rightarrow> string" where
  "storage_policy s = snprintf_s UNIFROG_FRONTEND_MODEL_TEXT_MAX
     (if ms_configured_storage_profile s = Some ''auto''
      then ''normal '' @ printf_s (ms_storage_normal_profile s) @ ''; fallback '' @
           printf_s (ms_storage_fallback_profile s) @ ''; battery unchanged''
      else ''manual '' @ printf_s (ms_configured_storage_profile s))"

definition build_storage :: "model_settings \<Rightarrow> frontend_model" where
  "build_storage s = model_add_rows
     [row ''SD Mode'' (sp_label (unifrog_storage_profile_info (ms_active_storage_profile s))) ACTION_STORAGE_MODE,
      row ''Policy'' (storage_policy s) ACTION_STORAGE_MODE,
      row ''UniFrog Files'' ''/unifrog'' ACTION_EXPLORE_UNIFROG,
      row ''Bios'' ''/bios'' ACTION_EXPLORE_BIOS,
      (ms_rom_root_label s, ms_rom_root s, ACTION_EXPLORE, None),
      row ''Collection'' ''favorites'' ACTION_FAVORITES,
      row ''History'' ''recent'' ACTION_HISTORY,
      row ''Data'' ''/unifrog_data'' ACTION_EXPLORE_DATA,
      row ''Firmware Boot'' ''boot .asd'' ACTION_FIRMWARE,
      row ''Updates'' ''version slots'' ACTION_UPDATES,
      row ''Core Manager'' ''ABI status'' ACTION_CORES,
      row ''Package Check'' ''layout'' ACTION_PACKAGE_CHECK,
      row ''Save Data'' ''/unifrog_data/saves'' ACTION_EXPLORE_SAVES,
      row ''Storage Probe'' ''1-25 MHz stress'' ACTION_STORAGE_FAST_PROBE,
      (Some ''Theme Files'', ms_theme s, ACTION_THEME, None),
      row ''Log Flush'' ''logs'' ACTION_FLUSH_LOG]
     (model_reset MODEL_STORAGE ''Storage'')"

text \<open>The row of one storage profile: the configured one is marked with a star.\<close>

definition profile_detail :: "model_settings \<Rightarrow> string \<Rightarrow> string" where
  "profile_detail s name = snprintf_s UNIFROG_FRONTEND_MODEL_TEXT_MAX
     ((if name = ''boot'' then printf_s (ms_boot_storage_profile s)
       else sp_label (unifrog_storage_profile_info (Some name))) @
      (if Some name = ms_configured_storage_profile s then '' *'' else []))"

definition profile_row :: "model_settings \<Rightarrow> nat \<Rightarrow> model_row" where
  "profile_row s i =
     (let p = unifrog_storage_profile_name i; name = (case p of Some n \<Rightarrow> n | None \<Rightarrow> [])
      in (Some (if name = ''boot'' then ''Boot Profile'' else name), Some (profile_detail s name),
          ACTION_STORAGE_PROFILE, p))"

definition build_storage_mode :: "model_settings \<Rightarrow> frontend_model" where
  "build_storage_mode s =
     (let active = unifrog_storage_profile_info (ms_active_storage_profile s);
          m = model_reset MODEL_STORAGE_MODE ''SD Mode'';
          m = model_add_rows
     [row ''Active'' (sp_label active) ACTION_NONE,
      row ''Configured'' (sp_label (unifrog_storage_profile_info (ms_configured_storage_profile s))) ACTION_NONE,
      row ''Bus Width'' (sp_bus_width active) ACTION_NONE,
      row ''Timing'' (sp_timing active) ACTION_NONE,
      row ''Signal'' (sp_signal active) ACTION_NONE] m;
          m = model_add_rows (map (profile_row s) [0..<unifrog_storage_profile_count]) m;
          m = model_add_rows [row ''Back'' ''storage'' ACTION_BACK_STORAGE] m
      in m\<lparr>fm_status := snprintf_s UNIFROG_FRONTEND_MODEL_TEXT_MAX ''A choose  B back''\<rparr>)"

definition empty_settings :: model_settings where
  "empty_settings =
     \<lparr>ms_sort_desc = False, ms_clock_enabled = False, ms_title_include_root = False,
      ms_menu_counter_folder = False, ms_menu_counter_file = False, ms_show_hidden = False,
      ms_content_collect = False, ms_content_history = False, ms_mixed_content = False,
      ms_theme = Some ''muos'', ms_language = Some ''english'', ms_rom_root_label = Some ''ROMs'',
      ms_rom_root = Some ''/ROMS'', ms_active_storage_profile = Some ''boot'',
      ms_configured_storage_profile = Some ''boot'', ms_boot_storage_profile = Some ''boot'',
      ms_storage_normal_profile = None, ms_storage_fallback_profile = None\<rparr>"

text \<open>
  \<open>empty_settings\<close> is the local \<open>empty\<close> of the function below.  The pointers it does not set stay
  \<open>NULL\<close>; they are read only when the configured profile is \<open>auto\<close>, which it is not.
\<close>

definition unifrog_frontend_model_build :: "model_screen \<Rightarrow> model_settings option \<Rightarrow> frontend_model" where
  "unifrog_frontend_model_build screen settings =
     (let s = (case settings of None \<Rightarrow> empty_settings | Some s \<Rightarrow> s)
      in case screen of MODEL_LAUNCH \<Rightarrow> build_launch
         | MODEL_CONFIG \<Rightarrow> build_config s
         | MODEL_VISUAL \<Rightarrow> build_visual s
         | MODEL_STORAGE \<Rightarrow> build_storage s
         | MODEL_STORAGE_MODE \<Rightarrow> build_storage_mode s)"

definition unifrog_frontend_model_move :: "frontend_model \<Rightarrow> int \<Rightarrow> frontend_model" where
  "unifrog_frontend_model_move m direction =
     (let cnt = word_of_nat (length (fm_items m)) :: u32
      in if cnt = 0 \<or> direction = 0 then m
         else if direction < 0
         then m\<lparr>fm_selected := if fm_selected m = 0 then cnt - 1 else fm_selected m - 1\<rparr>
         else m\<lparr>fm_selected := (fm_selected m + 1) mod cnt\<rparr>)"

section \<open>Rows\<close>

definition row_item :: "model_row \<Rightarrow> model_item" where
  "row_item r = (case r of (l, d, a, p) \<Rightarrow>
     \<lparr>mi_label = model_text l, mi_detail = model_text d, mi_action = a, mi_payload = model_text p\<rparr>)"

lemma model_text_bound: "length (model_text p) < UNIFROG_FRONTEND_MODEL_TEXT_MAX"
  using snp.copy_bound [of UNIFROG_FRONTEND_MODEL_TEXT_MAX]
  by (simp add: model_text_def UNIFROG_FRONTEND_MODEL_TEXT_MAX_def)

lemma model_text_short: "length s < 96 \<Longrightarrow> model_text (Some s) = s"
  by (simp add: model_text_def UNIFROG_FRONTEND_MODEL_TEXT_MAX_def snp.copy_fits)

lemma model_add_fits:
  "length (fm_items m) < UNIFROG_FRONTEND_MODEL_MAX_ITEMS \<Longrightarrow>
   model_add l d a p m = m\<lparr>fm_items := fm_items m @ [row_item (l, d, a, p)]\<rparr>"
  by (simp add: model_add_def row_item_def)

lemma model_add_rows_fit:
  "length (fm_items m) + length rows \<le> UNIFROG_FRONTEND_MODEL_MAX_ITEMS \<Longrightarrow>
   model_add_rows rows m = m\<lparr>fm_items := fm_items m @ map row_item rows\<rparr>"
proof (induction rows arbitrary: m)
  case (Cons r rows)
  then show ?case by (cases r) (simp add: model_add_rows_def model_add_fits)
qed (simp add: model_add_rows_def)

text \<open>A menu that can be shown: some rows, at most 32, and the cursor on one of them.\<close>

definition menu_ok :: "frontend_model \<Rightarrow> bool" where
  "menu_ok m \<longleftrightarrow> fm_items m \<noteq> [] \<and> length (fm_items m) \<le> UNIFROG_FRONTEND_MODEL_MAX_ITEMS \<and>
     unat (fm_selected m) < length (fm_items m)"

lemmas menu_build_defs = build_launch_def build_config_def build_visual_def build_storage_def
  build_storage_mode_def Let_def model_reset_def

lemma profile_count: "unifrog_storage_profile_count = 23"
  by (simp add: unifrog_storage_profile_count_def profiles_def)

lemma build_items:
  "fm_items build_launch = map row_item
     [row ''Explore'' ''SD root'' ACTION_EXPLORE_SD, row ''Collection'' ''favorites'' ACTION_FAVORITES,
      row ''History'' ''recent'' ACTION_HISTORY, row ''Apps'' ''native'' ACTION_APPS,
      row ''Info'' ''device'' ACTION_INFO, row ''Config'' ''settings'' ACTION_CONFIG,
      row ''Reboot'' ''system'' ACTION_REBOOT,
      row ''Safe Shutdown'' ''flush writes, then power off'' ACTION_SHUTDOWN]"
  "length (fm_items (build_config s)) = 6"
  "length (fm_items (build_visual s)) = 9"
  "length (fm_items (build_storage s)) = 16"
  by (simp_all add: menu_build_defs model_add_rows_fit UNIFROG_FRONTEND_MODEL_MAX_ITEMS_def)

lemma build_storage_mode_items:
  "\<exists>front. length front = 5 \<and> list_all (\<lambda>i. mi_action i = ACTION_NONE) front \<and>
     fm_items (build_storage_mode s) =
       front @ map (\<lambda>i. row_item (profile_row s i)) [0..<unifrog_storage_profile_count] @
       [row_item (row ''Back'' ''storage'' ACTION_BACK_STORAGE)]"
  by (rule exI [of _ "take 5 (fm_items (build_storage_mode s))"])
    (simp add: menu_build_defs model_add_rows_fit UNIFROG_FRONTEND_MODEL_MAX_ITEMS_def profile_count
      row_item_def row_def)

lemma build_screen: "fm_screen (unifrog_frontend_model_build sc s) = sc"
  by (cases sc) (simp_all add: unifrog_frontend_model_build_def menu_build_defs model_add_rows_fit
      UNIFROG_FRONTEND_MODEL_MAX_ITEMS_def profile_count)

lemma build_selected: "fm_selected (unifrog_frontend_model_build sc s) = 0"
  by (cases sc) (simp_all add: unifrog_frontend_model_build_def menu_build_defs model_add_rows_fit
      UNIFROG_FRONTEND_MODEL_MAX_ITEMS_def profile_count)

lemma build_ok: "menu_ok (unifrog_frontend_model_build sc s)"
proof -
  let ?m = "unifrog_frontend_model_build sc s"
  have "length (fm_items ?m) \<in> {8, 6, 9, 16, 29}"
    using build_storage_mode_items [of "case s of None \<Rightarrow> empty_settings | Some s \<Rightarrow> s"]
    by (cases sc) (auto simp: unifrog_frontend_model_build_def Let_def build_items profile_count)
  then show ?thesis using build_selected [of sc s]
    by (auto simp: menu_ok_def UNIFROG_FRONTEND_MODEL_MAX_ITEMS_def)
qed

section \<open>The cursor\<close>

lemma move_items [simp]: "fm_items (unifrog_frontend_model_move m d) = fm_items m"
  by (simp add: unifrog_frontend_model_move_def Let_def)

lemma unat_less_uint: "unat w < n \<longleftrightarrow> uint w < int n"
  by (metis of_nat_less_iff of_nat_unat)

lemma uint_minus_one_nonneg: "w \<noteq> 0 \<Longrightarrow> 0 \<le> uint w - 1"
  by (metis diff_ge_0_iff_ge int_one_le_iff_zero_less linorder_not_less uint_0_iff uint_ge_0 order_antisym_conv)

lemma move_selected:
  assumes "menu_ok m"
  shows "uint (fm_selected (unifrog_frontend_model_move m d)) =
           (uint (fm_selected m) + sgn d) mod int (length (fm_items m))"
proof -
  let ?n = "length (fm_items m)" and ?s = "fm_selected m"
  from assms have n: "0 < ?n" "?n \<le> 32" and s: "unat ?s < ?n"
    by (auto simp: menu_ok_def UNIFROG_FRONTEND_MODEL_MAX_ITEMS_def)
  from n have cnt: "unat (word_of_nat ?n :: u32) = ?n" "(word_of_nat ?n :: u32) \<noteq> 0"
    by (auto simp: unsigned_of_nat take_bit_nat_eq_self unat_eq_0 [symmetric])
  have up: "unat (?s + 1) = unat ?s + 1"
    using s n unat_add_lem [of ?s 1] by simp
  consider "d = 0" | "0 < d" | "d < 0" "?s = 0" | "d < 0" "?s \<noteq> 0" by linarith
  then show ?thesis
  proof cases
    case 1 with s show ?thesis by (simp add: unifrog_frontend_model_move_def unat_less_uint)
  next
    case 2
    with cnt have "fm_selected (unifrog_frontend_model_move m d) = (?s + 1) mod word_of_nat ?n"
      by (simp add: unifrog_frontend_model_move_def)
    then have "unat (fm_selected (unifrog_frontend_model_move m d)) = (unat ?s + 1) mod ?n"
      by (simp only: unat_mod_distrib up cnt)
    then have "int (unat (fm_selected (unifrog_frontend_model_move m d))) = int ((unat ?s + 1) mod ?n)"
      by (rule arg_cong)
    with 2 show ?thesis by (simp add: zmod_int add.commute)
  next
    case 3
    with cnt have "fm_selected (unifrog_frontend_model_move m d) = word_of_nat ?n - 1"
      by (simp add: unifrog_frontend_model_move_def)
    then have "unat (fm_selected (unifrog_frontend_model_move m d)) = ?n - 1"
      using unat_minus_one [OF cnt(2)] cnt(1) by simp
    then have "int (unat (fm_selected (unifrog_frontend_model_move m d))) = int (?n - 1)"
      by (rule arg_cong)
    also have "\<dots> = int ?n - 1" using n by linarith
    finally show ?thesis using 3 n by (simp add: zmod_minus1)
  next
    case 4
    with cnt have "fm_selected (unifrog_frontend_model_move m d) = ?s - 1"
      by (simp add: unifrog_frontend_model_move_def)
    then have "unat (fm_selected (unifrog_frontend_model_move m d)) = unat ?s - 1"
      using unat_minus_one [OF 4(2)] by simp
    then have "int (unat (fm_selected (unifrog_frontend_model_move m d))) = int (unat ?s - 1)"
      by (rule arg_cong)
    also have "\<dots> = uint ?s - 1" using 4(2) by (simp add: of_nat_diff unat_gt_0 Suc_le_eq)
    finally show ?thesis using 4 s uint_minus_one_nonneg [OF 4(2)] by (simp add: unat_less_uint)
  qed
qed

lemma move_ok: assumes "menu_ok m" shows "menu_ok (unifrog_frontend_model_move m d)"
proof -
  have "0 < length (fm_items m)" using assms by (simp add: menu_ok_def)
  then have "uint (fm_selected (unifrog_frontend_model_move m d)) < int (length (fm_items m))"
    unfolding move_selected [OF assms] by simp
  with assms show ?thesis by (simp add: menu_ok_def unat_less_uint)
qed

definition menu_moves :: "frontend_model \<Rightarrow> int list \<Rightarrow> frontend_model" where
  "menu_moves m ds = foldl unifrog_frontend_model_move m ds"

lemma menu_moves_correct:
  "menu_ok m \<Longrightarrow> menu_ok (menu_moves m ds) \<and> fm_items (menu_moves m ds) = fm_items m \<and>
     uint (fm_selected (menu_moves m ds)) =
       (uint (fm_selected m) + sum_list (map sgn ds)) mod int (length (fm_items m))"
proof (induction ds arbitrary: m)
  case Nil
  then show ?case by (simp add: menu_moves_def menu_ok_def unat_less_uint)
next
  case (Cons d ds)
  from Cons.IH [OF move_ok [OF Cons.prems, of d]] show ?case
    by (simp add: menu_moves_def move_selected [OF Cons.prems] mod_add_left_eq add.assoc)
qed

section \<open>Properties\<close>

text \<open>
  An action and its identifier determine each other: the identifier of every action is read
  back as that action, and an identifier that names an action is the one that action is written
  with.  (A menu row stores its action as the path of a frontend item and recovers it from there.)
\<close>

lemma menu_action_roundtrip:
  "unifrog_frontend_action_from_id (Some (unifrog_frontend_action_id a)) = a \<and>
   (unifrog_frontend_action_from_id p = ACTION_NONE \<or>
    p = Some (unifrog_frontend_action_id (unifrog_frontend_action_from_id p)))"
proof (intro conjI)
  have dist: "distinct (map fst action_ids)" "distinct (map snd action_ids)"
    and ne: "list_all (\<lambda>p. snd p \<noteq> []) action_ids" by code_simp+
  have find_fst: "find (\<lambda>q. fst q = fst p) action_ids = Some p"
    and find_snd: "find (\<lambda>q. snd q = snd p) action_ids = Some p" if "p \<in> set action_ids" for p
    using find_key [OF dist(1) that] find_key [OF dist(2) that] by (simp_all add: eq_commute)
  have cover: "a = ACTION_NONE \<or> a \<in> fst ` set action_ids"
    by (cases a; hypsubst; code_simp)
  have none: "unifrog_frontend_action_id ACTION_NONE = []"
    by (simp add: unifrog_frontend_action_id_def action_ids_def)
  show "unifrog_frontend_action_from_id (Some (unifrog_frontend_action_id a)) = a"
    using cover
  proof
    assume "a \<in> fst ` set action_ids"
    then obtain q where q: "q \<in> set action_ids" "a = fst q" by auto
    with ne show ?thesis
      by (simp add: unifrog_frontend_action_from_id_def unifrog_frontend_action_id_def find_fst find_snd
          list_all_iff)
  qed (simp add: unifrog_frontend_action_from_id_def none)
  show "unifrog_frontend_action_from_id p = ACTION_NONE \<or>
    p = Some (unifrog_frontend_action_id (unifrog_frontend_action_from_id p))"
  proof (cases "unifrog_frontend_action_from_id p = ACTION_NONE")
    case False
    then obtain s q where s: "p = Some s" "s \<noteq> []" "find (\<lambda>q. snd q = s) action_ids = Some q"
      by (auto simp: unifrog_frontend_action_from_id_def split: option.splits if_splits)
    then have "q \<in> set action_ids" "snd q = s" by (auto simp: find_Some_iff)
    with s show ?thesis
      by (simp add: unifrog_frontend_action_from_id_def unifrog_frontend_action_id_def find_fst)
  qed simp
qed

text \<open>
  Every menu is well formed whatever the settings are, and the cursor walks it cyclically:
  after any sequence of moves the model still is the requested screen with the same rows, the
  cursor is on a row, and its position is the number of steps down less the number of steps up,
  modulo the number of rows.  The storage menu offers every storage profile, in table order, with
  the profile's name as the payload of its row.
\<close>

lemma menu_cursor_cyclic:
  "let m = unifrog_frontend_model_build sc s; m' = menu_moves m ds
   in fm_screen m = sc \<and> menu_ok m' \<and> fm_items m' = fm_items m \<and>
      uint (fm_selected m') = sum_list (map sgn ds) mod int (length (fm_items m)) \<and>
      map mi_payload (filter (\<lambda>i. mi_action i = ACTION_STORAGE_PROFILE)
        (fm_items (unifrog_frontend_model_build MODEL_STORAGE_MODE s))) = map sp_name profiles"
proof -
  have "map mi_payload (filter (\<lambda>i. mi_action i = ACTION_STORAGE_PROFILE)
          (fm_items (build_storage_mode st))) = map sp_name profiles" for st
  proof -
    have pay: "mi_action (row_item (profile_row st i)) = ACTION_STORAGE_PROFILE"
      "mi_payload (row_item (profile_row st i)) = model_text (unifrog_storage_profile_name i)" for i
      by (simp_all add: row_item_def profile_row_def Let_def)
    have bk: "mi_action (row_item (row ''Back'' ''storage'' ACTION_BACK_STORAGE)) = ACTION_BACK_STORAGE"
      by (simp add: row_item_def row_def)
    have "list_all (\<lambda>p. length (sp_name p) < 96) profiles" by code_simp
    then have "map (\<lambda>i. model_text (unifrog_storage_profile_name i)) [0..<unifrog_storage_profile_count]
        = map sp_name profiles"
      by (intro nth_equalityI) (simp_all add: unifrog_storage_profile_name_def
          unifrog_storage_profile_count_def model_text_short list_all_length)
    with build_storage_mode_items [of st] show ?thesis
      by (auto simp: filter_map o_def pay bk filter_False list_all_iff simp del: upt_Suc)
  qed
  then show ?thesis
    using menu_moves_correct [OF build_ok, of sc s ds]
    by (simp add: Let_def build_screen build_selected unifrog_frontend_model_build_def [of MODEL_STORAGE_MODE])
qed

end
