(* ===== verification/UF_Controller.thy ===== *)
theory UF_Controller
  imports UF_Menu
begin

text \<open>
  The menu controller (\<open>components/frontend/src/app/frontend_controller.c\<close>): a state machine over
  the menu model that opens submenus, toggles settings and forwards the remaining actions to its
  owner.  A call of the owner's \<open>services.action\<close> callback is an element of the list of
  notifications that the operation returns.

  The pointer \<open>settings.configured_storage_profile\<close> of a controller always points at the buffer
  \<open>configured_storage_profile\<close> of the same controller; the field \<open>ctl_configured\<close> is that buffer, and
  the pointer is filled in from it wherever the settings are read.
\<close>

section \<open>State\<close>

definition UNIFROG_FRONTEND_CONTROLLER_PROFILE_MAX :: nat where
  "UNIFROG_FRONTEND_CONTROLLER_PROFILE_MAX = 16"

type_synonym notification = "frontend_action \<times> string"

record controller =
  ctl_settings :: model_settings
  ctl_model :: frontend_model
  ctl_action :: bool
  ctl_configured :: string

definition ctl_view_settings :: "controller \<Rightarrow> model_settings" where
  "ctl_view_settings c = (ctl_settings c)\<lparr>ms_configured_storage_profile := Some (ctl_configured c)\<rparr>"

section \<open>Operations\<close>

definition controller_build :: "controller \<Rightarrow> model_screen \<Rightarrow> controller" where
  "controller_build c screen =
     c\<lparr>ctl_model := unifrog_frontend_model_build screen (Some (ctl_view_settings c))\<rparr>"

definition controller_notify :: "controller \<Rightarrow> frontend_action \<Rightarrow> string \<Rightarrow> notification list" where
  "controller_notify c action payload = (if ctl_action c then [(action, payload)] else [])"

text \<open>The setting that an action toggles: how it is read and how it is changed.\<close>

definition toggle_field ::
  "frontend_action \<Rightarrow> ((model_settings \<Rightarrow> bool) \<times> ((bool \<Rightarrow> bool) \<Rightarrow> model_settings \<Rightarrow> model_settings)) option"
where
  "toggle_field action =
     (case action of
        ACTION_SORT \<Rightarrow> Some (ms_sort_desc, ms_sort_desc_update)
      | ACTION_CLOCK \<Rightarrow> Some (ms_clock_enabled, ms_clock_enabled_update)
      | ACTION_TITLE_ROOT \<Rightarrow> Some (ms_title_include_root, ms_title_include_root_update)
      | ACTION_COUNTER_FOLDER \<Rightarrow> Some (ms_menu_counter_folder, ms_menu_counter_folder_update)
      | ACTION_COUNTER_FILE \<Rightarrow> Some (ms_menu_counter_file, ms_menu_counter_file_update)
      | ACTION_HIDDEN \<Rightarrow> Some (ms_show_hidden, ms_show_hidden_update)
      | ACTION_CONTENT_COLLECT \<Rightarrow> Some (ms_content_collect, ms_content_collect_update)
      | ACTION_CONTENT_HISTORY \<Rightarrow> Some (ms_content_history, ms_content_history_update)
      | ACTION_MIXED_CONTENT \<Rightarrow> Some (ms_mixed_content, ms_mixed_content_update)
      | _ \<Rightarrow> None)"

definition controller_toggle :: "controller \<Rightarrow> frontend_action \<Rightarrow> (controller \<times> notification list) option" where
  "controller_toggle c action =
     (case toggle_field action of
        None \<Rightarrow> None
      | Some (rd, upd) \<Rightarrow>
          let c1 = c\<lparr>ctl_settings := upd Not (ctl_settings c)\<rparr>;
              ns = controller_notify c1 action (if rd (ctl_settings c1) then ''1'' else ''0'')
          in Some (controller_build c1 (fm_screen (ctl_model c1)), ns))"

text \<open>The settings of a controller that is initialised without any: all bytes zero.\<close>

definition zero_settings :: model_settings where
  "zero_settings =
     \<lparr>ms_sort_desc = False, ms_clock_enabled = False, ms_title_include_root = False,
      ms_menu_counter_folder = False, ms_menu_counter_file = False, ms_show_hidden = False,
      ms_content_collect = False, ms_content_history = False, ms_mixed_content = False,
      ms_theme = None, ms_language = None, ms_rom_root_label = None, ms_rom_root = None,
      ms_active_storage_profile = None, ms_configured_storage_profile = None,
      ms_boot_storage_profile = None, ms_storage_normal_profile = None, ms_storage_fallback_profile = None\<rparr>"

definition unifrog_frontend_controller_init :: "model_settings option \<Rightarrow> bool \<Rightarrow> controller" where
  "unifrog_frontend_controller_init settings action =
     (let s = (case settings of None \<Rightarrow> zero_settings | Some s \<Rightarrow> s);
          conf = snprintf_s UNIFROG_FRONTEND_CONTROLLER_PROFILE_MAX
            (case ms_configured_storage_profile s of Some p \<Rightarrow> p | None \<Rightarrow> ''boot'');
          c = \<lparr>ctl_settings = s, ctl_model = model_reset MODEL_LAUNCH [], ctl_action = action,
               ctl_configured = conf\<rparr>
      in controller_build c MODEL_LAUNCH)"

definition unifrog_frontend_controller_move :: "controller \<Rightarrow> int \<Rightarrow> controller" where
  "unifrog_frontend_controller_move c direction =
     c\<lparr>ctl_model := unifrog_frontend_model_move (ctl_model c) direction\<rparr>"

definition unifrog_frontend_controller_activate ::
  "controller \<Rightarrow> controller \<times> frontend_action \<times> notification list"
where
  "unifrog_frontend_controller_activate c =
     (if unat (fm_selected (ctl_model c)) \<ge> length (fm_items (ctl_model c)) then (c, ACTION_NONE, [])
      else
        let item = fm_items (ctl_model c) ! unat (fm_selected (ctl_model c));
            action = mi_action item
        in case action of
             ACTION_CONFIG \<Rightarrow> (controller_build c MODEL_CONFIG, action, [])
           | ACTION_INTERFACE \<Rightarrow> (controller_build c MODEL_VISUAL, action, [])
           | ACTION_STORAGE \<Rightarrow> (controller_build c MODEL_STORAGE, action, [])
           | ACTION_STORAGE_MODE \<Rightarrow> (controller_build c MODEL_STORAGE_MODE, action, [])
           | ACTION_BACK_STORAGE \<Rightarrow> (controller_build c MODEL_STORAGE, action, [])
           | ACTION_STORAGE_PROFILE \<Rightarrow>
               (let c1 = c\<lparr>ctl_configured := snprintf_s UNIFROG_FRONTEND_CONTROLLER_PROFILE_MAX
                       (if mi_payload item \<noteq> [] then mi_payload item else ''boot'')\<rparr>;
                    ns = controller_notify c1 action (ctl_configured c1)
                in (controller_build c1 MODEL_STORAGE_MODE, action, ns))
           | _ \<Rightarrow> (case controller_toggle c action of
                 Some (c1, ns) \<Rightarrow> (c1, action, ns)
               | None \<Rightarrow>
                   if action \<noteq> ACTION_NONE then (c, action, controller_notify c action (mi_payload item))
                   else (c, action, [])))"

definition unifrog_frontend_controller_back :: "controller \<Rightarrow> controller" where
  "unifrog_frontend_controller_back c =
     (case fm_screen (ctl_model c) of
        MODEL_STORAGE_MODE \<Rightarrow> controller_build c MODEL_STORAGE
      | MODEL_VISUAL \<Rightarrow> controller_build c MODEL_CONFIG
      | MODEL_STORAGE \<Rightarrow> controller_build c MODEL_CONFIG
      | MODEL_CONFIG \<Rightarrow> controller_build c MODEL_LAUNCH
      | _ \<Rightarrow> c)"

section \<open>The state machine\<close>

inductive ctl_step :: "controller \<Rightarrow> notification list \<Rightarrow> controller \<Rightarrow> bool" where
  ctl_move: "ctl_step c [] (unifrog_frontend_controller_move c d)"
| ctl_activate: "unifrog_frontend_controller_activate c = (c', a, ns) \<Longrightarrow> ctl_step c ns c'"
| ctl_back: "ctl_step c [] (unifrog_frontend_controller_back c)"

inductive ctl_reach :: "model_settings option \<Rightarrow> bool \<Rightarrow> controller \<Rightarrow> notification list \<Rightarrow> bool"
  for s act where
  ctl_init: "ctl_reach s act (unifrog_frontend_controller_init s act) []"
| ctl_next: "ctl_reach s act c ns \<Longrightarrow> ctl_step c ns' c' \<Longrightarrow> ctl_reach s act c' (ns @ ns')"

inductive_cases ctl_stepE: "ctl_step c ns c'"

text \<open>
  The invariant: the cursor is on a row, the rows are the ones the current settings give for the
  current screen, and the configured profile fits its buffer.
\<close>

definition ctl_ok :: "controller \<Rightarrow> bool" where
  "ctl_ok c \<longleftrightarrow> menu_ok (ctl_model c) \<and>
     fm_items (ctl_model c) =
       fm_items (unifrog_frontend_model_build (fm_screen (ctl_model c)) (Some (ctl_view_settings c))) \<and>
     length (ctl_configured c) < UNIFROG_FRONTEND_CONTROLLER_PROFILE_MAX"

lemma ctl_view_settings_model [simp]:
  "ctl_view_settings (c\<lparr>ctl_model := m\<rparr>) = ctl_view_settings c"
  by (simp add: ctl_view_settings_def)

lemma controller_build_simps [simp]:
  "ctl_model (controller_build c sc) = unifrog_frontend_model_build sc (Some (ctl_view_settings c))"
  "ctl_view_settings (controller_build c sc) = ctl_view_settings c"
  "ctl_configured (controller_build c sc) = ctl_configured c"
  "ctl_settings (controller_build c sc) = ctl_settings c"
  "ctl_action (controller_build c sc) = ctl_action c"
  by (simp_all add: controller_build_def)

lemma controller_build_ok:
  "length (ctl_configured c) < UNIFROG_FRONTEND_CONTROLLER_PROFILE_MAX \<Longrightarrow> ctl_ok (controller_build c sc)"
  by (simp add: ctl_ok_def build_ok build_screen)

lemma conf_bound:
  "length (snprintf_s UNIFROG_FRONTEND_CONTROLLER_PROFILE_MAX p) < UNIFROG_FRONTEND_CONTROLLER_PROFILE_MAX"
  using snp.copy_bound [of UNIFROG_FRONTEND_CONTROLLER_PROFILE_MAX p]
  by (simp add: UNIFROG_FRONTEND_CONTROLLER_PROFILE_MAX_def)

lemma init_ok: "ctl_ok (unifrog_frontend_controller_init s act)"
  by (simp add: unifrog_frontend_controller_init_def Let_def controller_build_ok conf_bound)

lemma move_screen [simp]: "fm_screen (unifrog_frontend_model_move m d) = fm_screen m"
  by (simp add: unifrog_frontend_model_move_def Let_def)

lemma controller_move_ok: "ctl_ok c \<Longrightarrow> ctl_ok (unifrog_frontend_controller_move c d)"
  by (simp add: ctl_ok_def unifrog_frontend_controller_move_def move_ok)

lemma controller_back_ok: "ctl_ok c \<Longrightarrow> ctl_ok (unifrog_frontend_controller_back c)"
  by (auto simp: unifrog_frontend_controller_back_def ctl_ok_def [of c] intro: controller_build_ok
      split: model_screen.splits)

lemma controller_toggle_ok: "controller_toggle c a = Some (c', ns) \<Longrightarrow> ctl_ok c \<Longrightarrow> ctl_ok c'"
  by (auto simp: controller_toggle_def Let_def ctl_ok_def [of c] intro!: controller_build_ok
      split: option.splits)

lemma controller_activate_ok:
  assumes "unifrog_frontend_controller_activate c = (c', a, ns)" and ok: "ctl_ok c"
  shows "ctl_ok c'"
proof -
  have len: "length (ctl_configured c) < UNIFROG_FRONTEND_CONTROLLER_PROFILE_MAX"
    using ok by (simp add: ctl_ok_def)
  show ?thesis
    using assms(1) ok controller_build_ok [OF len]
    by (auto simp: unifrog_frontend_controller_activate_def Let_def conf_bound
        intro: controller_build_ok controller_toggle_ok
        split: if_splits frontend_action.splits option.splits prod.splits)
qed

lemma ctl_step_ok: "ctl_step c ns c' \<Longrightarrow> ctl_ok c \<Longrightarrow> ctl_ok c'"
  by (erule ctl_stepE) (auto intro: controller_move_ok controller_back_ok controller_activate_ok)

text \<open>A key press, and the run of the controller on a sequence of them.\<close>

datatype ctl_key = Key_Move int | Key_Activate | Key_Back

fun ctl_press :: "ctl_key \<Rightarrow> controller \<times> notification list \<Rightarrow> controller \<times> notification list" where
  "ctl_press (Key_Move d) (c, ns) = (unifrog_frontend_controller_move c d, ns)"
| "ctl_press Key_Activate (c, ns) =
     (case unifrog_frontend_controller_activate c of (c', a, ns') \<Rightarrow> (c', ns @ ns'))"
| "ctl_press Key_Back (c, ns) = (unifrog_frontend_controller_back c, ns)"

definition ctl_run :: "model_settings option \<Rightarrow> bool \<Rightarrow> ctl_key list \<Rightarrow> controller \<times> notification list" where
  "ctl_run s act keys = fold ctl_press keys (unifrog_frontend_controller_init s act, [])"

lemma ctl_press_reach:
  assumes "ctl_reach s act (fst p) (snd p)"
  shows "ctl_reach s act (fst (ctl_press k p)) (snd (ctl_press k p))"
proof (cases p)
  case (Pair c ns)
  with assms have r: "ctl_reach s act c ns" by simp
  show ?thesis
    using ctl_next [OF r ctl_move] ctl_next [OF r ctl_back] ctl_next [OF r ctl_activate]
    by (cases k) (auto simp: Pair split: prod.splits)
qed

lemma ctl_run_reach: "ctl_reach s act (fst (ctl_run s act keys)) (snd (ctl_run s act keys))"
proof (induction keys rule: rev_induct)
  case Nil
  show ?case by (simp add: ctl_run_def ctl_init)
next
  case (snoc k keys)
  from ctl_press_reach [OF snoc.IH, of k] show ?case by (simp add: ctl_run_def)
qed

section \<open>The owner's copy of the settings\<close>

text \<open>
  What the owner of the controller learns from a notification: the new value of a toggled setting
  or the name of the chosen storage profile.
\<close>

definition owner_apply :: "notification \<Rightarrow> model_settings \<times> string \<Rightarrow> model_settings \<times> string" where
  "owner_apply n st = (case n of (a, p) \<Rightarrow> case st of (s, conf) \<Rightarrow>
     (case toggle_field a of
        Some (rd, upd) \<Rightarrow> (upd (\<lambda>_. p = ''1'') s, conf)
      | None \<Rightarrow> (s, if a = ACTION_STORAGE_PROFILE then p else conf)))"

definition ctl_owned :: "controller \<Rightarrow> model_settings \<times> string" where
  "ctl_owned c = (ctl_settings c, ctl_configured c)"

lemma toggle_field_law:
  "toggle_field a = Some (rd, upd) \<Longrightarrow> upd (\<lambda>_. rd (upd Not s)) s = upd Not s"
  by (cases a) (auto simp: toggle_field_def)

lemma ctl_owned_build [simp]: "ctl_owned (controller_build c sc) = ctl_owned c"
  by (simp add: ctl_owned_def)

lemma notify_on: "ctl_action c \<Longrightarrow> controller_notify c a p = [(a, p)]"
  by (simp add: controller_notify_def)

lemma toggle_owned:
  assumes "controller_toggle c a = Some (c', ns)" and act: "ctl_action c"
  shows "ctl_owned c' = fold owner_apply ns (ctl_owned c) \<and> ctl_action c'"
proof -
  from assms(1) obtain rd upd where f: "toggle_field a = Some (rd, upd)"
    by (auto simp: controller_toggle_def split: option.splits)
  with assms show ?thesis
    using toggle_field_law [OF f, of "ctl_settings c"]
    by (auto simp: controller_toggle_def Let_def notify_on owner_apply_def ctl_owned_def)
qed

lemma activate_owned:
  assumes "unifrog_frontend_controller_activate c = (c', a, ns)" and act: "ctl_action c"
  shows "ctl_owned c' = fold owner_apply ns (ctl_owned c) \<and> ctl_action c'"
proof -
  have plain: "owner_apply (a, p) (ctl_owned c) = ctl_owned c"
    if "a \<noteq> ACTION_STORAGE_PROFILE" "controller_toggle c a = None" for a p
    using that by (auto simp: owner_apply_def ctl_owned_def controller_toggle_def Let_def
        split: option.splits prod.splits)
  show ?thesis
    using assms plain toggle_owned [OF _ act]
    by (auto simp: unifrog_frontend_controller_activate_def Let_def notify_on
        split: if_splits frontend_action.splits option.splits prod.splits)
      (auto simp: owner_apply_def ctl_owned_def toggle_field_def)
qed

lemma step_owned:
  assumes "ctl_step c ns c'" and act: "ctl_action c"
  shows "ctl_owned c' = fold owner_apply ns (ctl_owned c) \<and> ctl_action c'"
  using assms
proof cases
  case (ctl_move d)
  with act show ?thesis by (simp add: unifrog_frontend_controller_move_def ctl_owned_def)
next
  case (ctl_activate a)
  with activate_owned act show ?thesis by blast
next
  case ctl_back
  with act show ?thesis
    by (auto simp: unifrog_frontend_controller_back_def split: model_screen.splits)
qed

section \<open>Properties\<close>

text \<open>
  C7. In every state the menu controller can reach, with any sequence of moves, activations and
  steps back, the cursor is on a row, the rows shown are exactly the ones its current settings
  give for its current screen, and the configured storage profile fits its buffer; and an owner
  that applies the notifications it received, in order, to the settings it started with has the
  controller's own settings: no change is missed and none is announced that did not happen.
\<close>

theorem controller_in_sync:
  assumes "ctl_reach s True c ns"
  shows "ctl_ok c \<and> ctl_owned c = fold owner_apply ns (ctl_owned (unifrog_frontend_controller_init s True))"
proof -
  have "ctl_ok c \<and> ctl_action c \<and>
    ctl_owned c = fold owner_apply ns (ctl_owned (unifrog_frontend_controller_init s True))"
    using assms
  proof (induction rule: ctl_reach.induct)
    case ctl_init
    have "ctl_action (unifrog_frontend_controller_init s True)"
      by (simp add: unifrog_frontend_controller_init_def Let_def)
    with init_ok show ?case by simp
  next
    case (ctl_next c ns ns' c')
    then show ?case using step_owned ctl_step_ok by auto
  qed
  then show ?thesis by simp
qed

theorem controller_in_sync_witness:
  "let keys = [Key_Move (-1), Key_Move (-1), Key_Move (-1), Key_Activate, Key_Move 1, Key_Activate,
               Key_Activate];
       (c, ns) = ctl_run None True keys
   in ns = [(ACTION_SORT, ''1'')] \<and> ms_sort_desc (ctl_settings c) \<and> ctl_ok c"
proof -
  let ?keys = "[Key_Move (-1), Key_Move (-1), Key_Move (-1), Key_Activate, Key_Move 1, Key_Activate,
               Key_Activate]"
  have "ctl_ok (fst (ctl_run None True ?keys))"
    using controller_in_sync [OF ctl_run_reach] by blast
  moreover have "snd (ctl_run None True ?keys) = [(ACTION_SORT, ''1'')]"
    "ms_sort_desc (ctl_settings (fst (ctl_run None True ?keys)))" by code_simp+
  ultimately show ?thesis by (simp add: Let_def split_beta)
qed

text \<open>
  A controller initialised without settings passes its own, zeroed settings to the menu model, so
  the model's fallback settings are not used and the storage menu prints a null boot profile.
\<close>

lemma controller_null_boot_profile:
  "mi_detail (fm_items (ctl_model (fst (ctl_run None False
     [Key_Move (-1), Key_Move (-1), Key_Move (-1), Key_Activate, Key_Move 1, Key_Move 1, Key_Move 1,
      Key_Activate, Key_Activate]))) ! 5) = ''(null) *''"
  by code_simp

end
