(* ===== verification/UF_Frontend.thy ===== *)
theory UF_Frontend
  imports UF_Text UF_Menu
begin

text \<open>
  The state of the frontend (\<open>struct frontend_state\<close> of
  \<open>components/frontend/src/app/frontend_internal.h\<close>) with the fields that the modelled operations read
  or write, the translation of texts (\<open>frontend_theme.c\<close>), and the navigation history
  (\<open>frontend_navigation.c\<close>): two stacks of at most 16 entries in parallel arrays, which forget their
  oldest entry when they are full.

  \<open>fe_items\<close> and \<open>fe_i18n\<close> are the used parts of their arrays, so \<open>item_count\<close> and \<open>i18n_count\<close> are
  their lengths; the arrays of the navigation keep all 16 elements and a count, as in the code.
  Lines written to the log are not part of the state.
\<close>

section \<open>Data\<close>

datatype frontend_view =
  VIEW_LAUNCH | VIEW_EXPLORE | VIEW_HISTORY | VIEW_FAVORITES | VIEW_APPS | VIEW_CONFIG |
  VIEW_CONNECT | VIEW_CUSTOM | VIEW_VISUAL | VIEW_LAUNCH_SETTINGS | VIEW_POWER | VIEW_STORAGE |
  VIEW_STORAGE_MODE | VIEW_STORAGE_CONFIRM | VIEW_ROM_SYSTEMS | VIEW_ROM_SYSTEM_MAPPINGS |
  VIEW_ROM_ROOTS | VIEW_ROM_ROOT_PICKER | VIEW_OPEN_WITH | VIEW_OPEN_WITH_OTHER |
  VIEW_MEDIA_PLAYER | VIEW_READER | VIEW_THEME | VIEW_LANGUAGE | VIEW_FIRMWARE | VIEW_SCRIPTS |
  VIEW_UPDATES | VIEW_CORES | VIEW_CORE_INFO | VIEW_PACKAGE_CHECK | VIEW_CLOCK | VIEW_ARTWORK |
  VIEW_FONT | VIEW_INFO | VIEW_SYSINFO

datatype frontend_item_kind =
  ITEM_ACTION | ITEM_INFO | ITEM_DIR | ITEM_GAME | ITEM_MEDIA | ITEM_READER | ITEM_FIRMWARE |
  ITEM_SCRIPT | ITEM_THEME_ARCHIVE | ITEM_UPDATE_ARCHIVE | ITEM_VERSION | ITEM_CORE_MODULE

definition FRONTEND_MAX_ITEMS :: nat where "FRONTEND_MAX_ITEMS = 8192"
definition FRONTEND_MAX_PATH :: nat where "FRONTEND_MAX_PATH = 256"
definition FRONTEND_ROWS :: u32 where "FRONTEND_ROWS = 8"
definition FRONTEND_NAV_MAX :: nat where "FRONTEND_NAV_MAX = 16"
definition FRONTEND_NAV_LOG_STEP :: u32 where "FRONTEND_NAV_LOG_STEP = 16"

record frontend_item =
  it_name :: string
  it_meta :: string
  it_path :: string
  it_core :: string
  it_kind :: frontend_item_kind
  it_action :: frontend_action

record navigation_state =
  nav_path :: "string list"
  nav_selected :: "u32 list"
  nav_count :: nat
  view_stack :: "frontend_view list"
  view_selected :: "u32 list"
  view_scroll :: "u32 list"
  view_count :: nat
  parent_view :: frontend_view
  has_parent_view :: bool

record frontend_state =
  fe_view :: frontend_view
  fe_nav :: navigation_state
  fe_items :: "frontend_item list"
  fe_item_generation :: u32
  fe_selected :: u32
  fe_scroll :: u32
  fe_title :: string
  fe_current_dir :: string
  fe_rom_root :: string
  fe_rom_root_label :: string
  fe_rom_roots :: "string list"
  fe_rom_root_count :: nat
  fe_status :: string
  fe_sort_desc :: bool
  fe_i18n :: "(string \<times> string) list"
  fe_needs_draw :: bool
  fe_nav_log_last_selected :: u32
  fe_nav_log_last_view :: frontend_view

text \<open>The state with all bytes zero.\<close>

definition zero_nav :: navigation_state where
  "zero_nav = \<lparr>nav_path = replicate 16 [], nav_selected = replicate 16 0, nav_count = 0,
     view_stack = replicate 16 VIEW_LAUNCH, view_selected = replicate 16 0, view_scroll = replicate 16 0,
     view_count = 0, parent_view = VIEW_LAUNCH, has_parent_view = False\<rparr>"

definition zero_frontend :: frontend_state where
  "zero_frontend = \<lparr>fe_view = VIEW_LAUNCH, fe_nav = zero_nav, fe_items = [], fe_item_generation = 0,
     fe_selected = 0, fe_scroll = 0, fe_title = [], fe_current_dir = [], fe_rom_root = [],
     fe_rom_root_label = [], fe_rom_roots = replicate 8 [], fe_rom_root_count = 0, fe_status = [],
     fe_sort_desc = False, fe_i18n = [], fe_needs_draw = False, fe_nav_log_last_selected = 0,
     fe_nav_log_last_view = VIEW_LAUNCH\<rparr>"

section \<open>Translation\<close>

definition tr :: "frontend_state \<Rightarrow> string \<Rightarrow> string" where
  "tr fe key = (case find (\<lambda>p. fst p = key) (fe_i18n fe) of Some p \<Rightarrow> snd p | None \<Rightarrow> key)"

section \<open>Navigation\<close>

text \<open>\<open>memmove (a, a + 1, (n - 1) * sizeof a[0])\<close> on an array of \<open>n\<close> elements: the last one stays.\<close>

definition array_shift :: "'a list \<Rightarrow> 'a list" where
  "array_shift a = tl a @ [last a]"

definition frontend_nav_reset :: "frontend_state \<Rightarrow> frontend_state" where
  "frontend_nav_reset fe = fe\<lparr>fe_nav := (fe_nav fe)\<lparr>nav_count := 0\<rparr>\<rparr>"

text \<open>The part of \<open>frontend_nav_push\<close> after its guard, and \<open>frontend_parent_view_push\<close>, on the stacks.\<close>

definition nav_enter :: "string \<times> u32 \<Rightarrow> navigation_state \<Rightarrow> navigation_state" where
  "nav_enter e n =
     (let n = (if nav_count n \<ge> FRONTEND_NAV_MAX
               then n\<lparr>nav_path := array_shift (nav_path n), nav_selected := array_shift (nav_selected n),
                      nav_count := FRONTEND_NAV_MAX - 1\<rparr>
               else n)
      in n\<lparr>nav_path := (nav_path n)[nav_count n := text_copy FRONTEND_MAX_PATH (fst e)],
           nav_selected := (nav_selected n)[nav_count n := snd e],
           nav_count := nav_count n + 1\<rparr>)"

definition frontend_nav_push :: "frontend_state \<Rightarrow> frontend_state" where
  "frontend_nav_push fe =
     (if fe_view fe \<noteq> VIEW_EXPLORE \<and> fe_view fe \<noteq> VIEW_FIRMWARE \<and> fe_view fe \<noteq> VIEW_SCRIPTS \<or>
         fe_current_dir fe = []
      then fe
      else fe\<lparr>fe_nav := nav_enter (fe_current_dir fe, fe_selected fe) (fe_nav fe)\<rparr>)"

text \<open>The result of \<open>frontend_nav_pop\<close> is \<open>None\<close> for 0, or the new state, path and selection.\<close>

definition frontend_nav_pop :: "frontend_state \<Rightarrow> nat \<Rightarrow> (frontend_state \<times> string \<times> u32) option" where
  "frontend_nav_pop fe path_size =
     (if path_size = 0 \<or> nav_count (fe_nav fe) = 0 then None
      else let k = nav_count (fe_nav fe) - 1
           in Some (fe\<lparr>fe_nav := (fe_nav fe)\<lparr>nav_count := k\<rparr>\<rparr>,
                    text_copy path_size (nav_path (fe_nav fe) ! k), nav_selected (fe_nav fe) ! k))"

definition view_enter :: "frontend_view \<times> u32 \<times> u32 \<Rightarrow> navigation_state \<Rightarrow> navigation_state" where
  "view_enter e n =
     (let n = (if view_count n \<ge> FRONTEND_NAV_MAX
               then n\<lparr>view_stack := array_shift (view_stack n), view_selected := array_shift (view_selected n),
                      view_scroll := array_shift (view_scroll n), view_count := FRONTEND_NAV_MAX - 1\<rparr>
               else n)
      in n\<lparr>view_stack := (view_stack n)[view_count n := fst e],
           view_selected := (view_selected n)[view_count n := fst (snd e)],
           view_scroll := (view_scroll n)[view_count n := snd (snd e)],
           view_count := view_count n + 1, parent_view := fst e, has_parent_view := True\<rparr>)"

text \<open>The part of \<open>restore_parent_view\<close> before the view is shown: the entry to return to, if any.\<close>

definition view_leave :: "navigation_state \<Rightarrow> navigation_state \<times> (frontend_view \<times> u32 \<times> u32) option" where
  "view_leave n =
     (let (n, e) = (if view_count n > 0
            then let k = view_count n - 1
                 in (n\<lparr>view_count := k\<rparr>, Some (view_stack n ! k, view_selected n ! k, view_scroll n ! k))
            else (n, None))
      in (if view_count n > 0
          then n\<lparr>parent_view := view_stack n ! (view_count n - 1), has_parent_view := True\<rparr>
          else n\<lparr>parent_view := VIEW_LAUNCH, has_parent_view := False\<rparr>, e))"

definition frontend_parent_view_push :: "frontend_state \<Rightarrow> frontend_state" where
  "frontend_parent_view_push fe =
     fe\<lparr>fe_nav := view_enter (fe_view fe, fe_selected fe, fe_scroll fe) (fe_nav fe)\<rparr>"

definition frontend_parent_view_clear :: "frontend_state \<Rightarrow> frontend_state" where
  "frontend_parent_view_clear fe =
     fe\<lparr>fe_nav := (fe_nav fe)\<lparr>has_parent_view := False, parent_view := VIEW_LAUNCH, view_count := 0\<rparr>\<rparr>"

section \<open>A stack that forgets\<close>

text \<open>
  The entries that a history of \<open>cap\<close> places keeps, and the contract of both histories: a state with a list of entries, oldest first, and a capacity.
  Entering appends an entry and drops the oldest one when there is no room.
\<close>

definition recent :: "nat \<Rightarrow> 'e list \<Rightarrow> 'e list" where
  "recent cap es = drop (length es - cap) es"

lemma recent_short: "length es \<le> cap \<Longrightarrow> recent cap es = es"
  by (simp add: recent_def)

lemma recent_append: "recent cap (recent cap xs @ ys) = recent cap (xs @ ys)"
proof -
  let ?k = "length xs - cap"
  have "recent cap xs @ ys = drop ?k (xs @ ys)" by (simp add: recent_def)
  moreover have "length (xs @ ys) - ?k - cap + ?k = length (xs @ ys) - cap" by simp
  ultimately show ?thesis by (simp add: recent_def [of _ "drop _ _"] recent_def [of _ "_ @ _"])
qed

locale forgetting_stack =
  fixes enter :: "'e \<Rightarrow> 's \<Rightarrow> 's"
    and entries :: "'s \<Rightarrow> 'e list"
    and wf :: "'s \<Rightarrow> bool"
    and kept :: "'e \<Rightarrow> 'e"
    and cap :: nat
  assumes cap_pos: "0 < cap"
    and wf_bound: "wf s \<Longrightarrow> length (entries s) \<le> cap"
    and wf_enter: "wf s \<Longrightarrow> wf (enter e s)"
    and enter_room: "wf s \<Longrightarrow> length (entries s) < cap \<Longrightarrow> entries (enter e s) = entries s @ [kept e]"
    and enter_full: "wf s \<Longrightarrow> length (entries s) = cap \<Longrightarrow> entries (enter e s) = tl (entries s) @ [kept e]"
begin

lemma enter_recent: "wf s \<Longrightarrow> entries (enter e s) = recent cap (entries s @ [kept e])"
proof (cases "length (entries s) = cap")
  case True
  assume "wf s"
  from enter_full [OF this True] show ?thesis
    using True cap_pos by (cases "entries s") (auto simp: recent_def)
next
  case False
  assume "wf s"
  with False wf_bound [of s] have "length (entries s) < cap" by simp
  with enter_room [OF \<open>wf s\<close> this] show ?thesis by (simp add: recent_short)
qed

lemma enter_all:
  "wf s \<Longrightarrow> wf (fold enter es s) \<and> entries (fold enter es s) = recent cap (entries s @ map kept es)"
proof (induction es arbitrary: s)
  case Nil
  then show ?case by (simp add: recent_short wf_bound)
next
  case (Cons e es)
  have "recent cap (recent cap (entries s @ [kept e]) @ map kept es) = recent cap ((entries s @ [kept e]) @ map kept es)"
    by (rule recent_append)
  with Cons.IH [OF wf_enter [OF Cons.prems]] show ?case
    by (simp add: enter_recent [OF Cons.prems])
qed

end

section \<open>The two histories\<close>

definition nav_entries :: "navigation_state \<Rightarrow> (string \<times> u32) list" where
  "nav_entries n = List.zip (take (nav_count n) (nav_path n)) (take (nav_count n) (nav_selected n))"

definition view_entries :: "navigation_state \<Rightarrow> (frontend_view \<times> u32 \<times> u32) list" where
  "view_entries n = List.zip (take (view_count n) (view_stack n))
     (List.zip (take (view_count n) (view_selected n)) (take (view_count n) (view_scroll n)))"

definition nav_wf :: "navigation_state \<Rightarrow> bool" where
  "nav_wf n \<longleftrightarrow> length (nav_path n) = FRONTEND_NAV_MAX \<and> length (nav_selected n) = FRONTEND_NAV_MAX \<and>
     nav_count n \<le> FRONTEND_NAV_MAX \<and> length (view_stack n) = FRONTEND_NAV_MAX \<and>
     length (view_selected n) = FRONTEND_NAV_MAX \<and> length (view_scroll n) = FRONTEND_NAV_MAX \<and>
     view_count n \<le> FRONTEND_NAV_MAX"

text \<open>The parent view that the back button reports is the newest entry of the view history.\<close>

definition parent_ok :: "navigation_state \<Rightarrow> bool" where
  "parent_ok n \<longleftrightarrow> (if view_entries n = [] then \<not> has_parent_view n \<and> parent_view n = VIEW_LAUNCH
     else has_parent_view n \<and> parent_view n = fst (last (view_entries n)))"

lemma stack_update: "c < length a \<Longrightarrow> take (Suc c) (a[c := x]) = take c a @ [x]"
  by (simp add: take_Suc_conv_app_nth)

lemma array_shift_simps:
  "a \<noteq> [] \<Longrightarrow> length (array_shift a) = length a"
  "length a = Suc n \<Longrightarrow> take n (array_shift a) = tl a"
  by (cases a; simp add: array_shift_def)+

lemma stack_update_full:
  assumes "length a = Suc n"
  shows "take (Suc n) ((array_shift a)[n := x]) = tl a @ [x]"
proof -
  have "length (array_shift a) = Suc n" using assms by (cases a) (auto simp: array_shift_def)
  then have "n < length (array_shift a)" by simp
  from stack_update [OF this] show ?thesis unfolding array_shift_simps(2) [OF assms] .
qed

lemma zip_tl: "List.zip (tl a) (tl b) = tl (List.zip a b)"
  by (cases a; cases b) auto

lemma nav_enter_room:
  "nav_wf n \<Longrightarrow> nav_count n < 16 \<Longrightarrow>
   nav_entries (nav_enter e n) = nav_entries n @ [(text_copy FRONTEND_MAX_PATH (fst e), snd e)]"
  by (simp add: nav_entries_def nav_enter_def nav_wf_def FRONTEND_NAV_MAX_def stack_update del: take_Suc_Cons)

lemma nav_enter_full:
  "nav_wf n \<Longrightarrow> nav_count n = 16 \<Longrightarrow>
   nav_entries (nav_enter e n) = tl (nav_entries n) @ [(text_copy FRONTEND_MAX_PATH (fst e), snd e)]"
  using stack_update_full [of "nav_path n" 15] stack_update_full [of "nav_selected n" 15]
  by (simp add: nav_entries_def nav_enter_def nav_wf_def FRONTEND_NAV_MAX_def zip_tl)

lemma view_enter_room:
  "nav_wf n \<Longrightarrow> view_count n < 16 \<Longrightarrow> view_entries (view_enter e n) = view_entries n @ [e]"
  by (simp add: view_entries_def view_enter_def nav_wf_def FRONTEND_NAV_MAX_def stack_update del: take_Suc_Cons)

lemma view_enter_full:
  "nav_wf n \<Longrightarrow> view_count n = 16 \<Longrightarrow> view_entries (view_enter e n) = tl (view_entries n) @ [e]"
  using stack_update_full [of "view_stack n" 15] stack_update_full [of "view_selected n" 15]
    stack_update_full [of "view_scroll n" 15]
  by (simp add: view_entries_def view_enter_def nav_wf_def FRONTEND_NAV_MAX_def zip_tl)

lemma array_shift_length: "length a = FRONTEND_NAV_MAX \<Longrightarrow> length (array_shift a) = FRONTEND_NAV_MAX"
  by (cases a) (auto simp: FRONTEND_NAV_MAX_def array_shift_def)

lemma enter_wf: "nav_wf n \<Longrightarrow> nav_wf (nav_enter e n)" "nav_wf n \<Longrightarrow> nav_wf (view_enter v n)"
  by (auto simp: nav_wf_def nav_enter_def view_enter_def Let_def array_shift_length)
    (simp_all add: FRONTEND_NAV_MAX_def)

lemma zero_nav_wf: "nav_wf zero_nav"
  by (simp add: nav_wf_def zero_nav_def FRONTEND_NAV_MAX_def)

lemma nav_count_bound:
  "nav_wf n \<Longrightarrow> nav_count n \<le> 16" "nav_wf n \<Longrightarrow> view_count n \<le> 16"
  by (simp_all add: nav_wf_def FRONTEND_NAV_MAX_def)

lemma nav_entries_length: "nav_wf n \<Longrightarrow> length (nav_entries n) = nav_count n"
  by (simp add: nav_entries_def nav_wf_def)

lemma view_entries_length: "nav_wf n \<Longrightarrow> length (view_entries n) = view_count n"
  by (simp add: view_entries_def nav_wf_def)

interpretation dirs: forgetting_stack nav_enter nav_entries nav_wf
  "\<lambda>e. (text_copy FRONTEND_MAX_PATH (fst e), snd e)" FRONTEND_NAV_MAX
proof
  show "0 < FRONTEND_NAV_MAX" by (simp add: FRONTEND_NAV_MAX_def)
qed (auto simp: nav_entries_length enter_wf nav_count_bound nav_enter_room nav_enter_full FRONTEND_NAV_MAX_def)

interpretation views: forgetting_stack view_enter view_entries nav_wf "\<lambda>e. e" FRONTEND_NAV_MAX
proof
  show "0 < FRONTEND_NAV_MAX" by (simp add: FRONTEND_NAV_MAX_def)
qed (auto simp: view_entries_length enter_wf nav_count_bound view_enter_room view_enter_full FRONTEND_NAV_MAX_def)

lemma nav_pop_entries:
  assumes wf: "nav_wf (fe_nav fe)" and sz: "0 < n"
  shows "case frontend_nav_pop fe n of
     None \<Rightarrow> nav_entries (fe_nav fe) = []
   | Some (fe', p, s) \<Rightarrow> nav_wf (fe_nav fe') \<and>
       (\<exists>d. nav_entries (fe_nav fe) = nav_entries (fe_nav fe') @ [(d, s)] \<and> p = text_copy n d)"
proof (cases "nav_count (fe_nav fe)")
  case 0
  then show ?thesis using sz by (simp add: frontend_nav_pop_def nav_entries_def)
next
  case (Suc k)
  with wf have k: "k < length (nav_path (fe_nav fe))" "k < length (nav_selected (fe_nav fe))"
    by (auto simp: nav_wf_def)
  then show ?thesis using sz wf Suc
    by (simp add: frontend_nav_pop_def nav_entries_def nav_wf_def take_Suc_conv_app_nth)
qed

text \<open>Visiting a directory from the browser, and going back as often as \<open>k\<close> times.\<close>

definition nav_visit :: "string \<times> u32 \<Rightarrow> frontend_state \<Rightarrow> frontend_state" where
  "nav_visit e fe = frontend_nav_push (fe\<lparr>fe_current_dir := fst e, fe_selected := snd e\<rparr>)"

fun nav_unwind :: "nat \<Rightarrow> frontend_state \<Rightarrow> (string \<times> u32) list" where
  "nav_unwind 0 fe = []"
| "nav_unwind (Suc k) fe =
     (case frontend_nav_pop fe FRONTEND_MAX_PATH of None \<Rightarrow> []
      | Some (fe', p, s) \<Rightarrow> (p, s) # nav_unwind k fe')"

lemma nav_unwind_entries:
  "nav_wf (fe_nav fe) \<Longrightarrow> nav_entries (fe_nav fe) = es \<Longrightarrow>
   nav_unwind k fe = take k (rev (map (\<lambda>(d, s). (text_copy FRONTEND_MAX_PATH d, s)) es))"
proof (induction k arbitrary: fe es)
  case (Suc k)
  from nav_pop_entries [OF Suc.prems(1), of FRONTEND_MAX_PATH] Suc.IH Suc.prems(2) show ?case
    by (auto simp: FRONTEND_MAX_PATH_def split: option.splits prod.splits)
qed simp

lemma nav_visit_nav:
  assumes "fe_view fe = VIEW_EXPLORE" "fst e \<noteq> []"
  shows "fe_nav (nav_visit e fe) = nav_enter e (fe_nav fe)" "fe_view (nav_visit e fe) = VIEW_EXPLORE"
  using assms by (simp_all add: nav_visit_def frontend_nav_push_def)

lemma nav_visits_nav:
  "fe_view fe = VIEW_EXPLORE \<Longrightarrow> list_all (\<lambda>e. fst e \<noteq> []) es \<Longrightarrow>
   fe_nav (fold nav_visit es fe) = fold nav_enter es (fe_nav fe)"
  by (induction es arbitrary: fe) (simp_all add: nav_visit_nav)

lemma path_copy_id: "length d < 256 \<Longrightarrow> text_copy FRONTEND_MAX_PATH d = d"
  by (rule tcp.copy_fits) (simp add: FRONTEND_MAX_PATH_def)

lemma view_leave_entries:
  assumes "nav_wf n"
  shows "case view_leave n of (n', e) \<Rightarrow> nav_wf n' \<and> parent_ok n' \<and>
     view_entries n = view_entries n' @ (case e of None \<Rightarrow> [] | Some e \<Rightarrow> [e]) \<and>
     (e = None \<longrightarrow> view_entries n = [])"
proof (cases "view_count n")
  case 0
  then show ?thesis using assms by (simp add: view_leave_def view_entries_def nav_wf_def parent_ok_def)
next
  case (Suc k)
  with assms have k: "k < length (view_stack n)" "k < length (view_selected n)" "k < length (view_scroll n)"
    by (auto simp: nav_wf_def)
  show ?thesis
  proof (cases k)
    case 0
    then show ?thesis using assms Suc k
      by (auto simp: view_leave_def view_entries_def nav_wf_def parent_ok_def Let_def take_Suc_conv_app_nth)
  next
    case (Suc j)
    with k \<open>view_count n = Suc k\<close> assms show ?thesis
      by (auto simp: view_leave_def view_entries_def nav_wf_def parent_ok_def Let_def take_Suc_conv_app_nth)
  qed
qed

lemma view_enter_parent: "nav_wf n \<Longrightarrow> parent_ok (view_enter e n)"
  by (simp add: parent_ok_def views.enter_recent recent_def FRONTEND_NAV_MAX_def)
    (simp add: view_enter_def Let_def)

section \<open>Properties\<close>

text \<open>
  C22. Going back in the file browser revisits the directories in reverse order: after visiting any
  sequence of directories from an empty history, repeated \<open>frontend_nav_pop\<close> gives back the sixteen
  most recent ones, newest first, each with the row that was selected there; older ones are
  forgotten, and nothing is written outside the arrays (the arrays keep their sixteen elements).
\<close>

theorem nav_history_lifo:
  assumes "nav_wf (fe_nav fe)" and "fe_view fe = VIEW_EXPLORE"
    and "list_all (\<lambda>(d, s). d \<noteq> [] \<and> length d < 256) es"
  shows "nav_wf (fe_nav (fold nav_visit es (frontend_nav_reset fe))) \<and>
     nav_unwind k (fold nav_visit es (frontend_nav_reset fe)) = take k (take 16 (rev es))"
proof -
  let ?fe = "frontend_nav_reset fe" and ?keep = "\<lambda>e. (text_copy FRONTEND_MAX_PATH (fst e), snd e)"
  have wf: "nav_wf (fe_nav ?fe)" and view: "fe_view ?fe = VIEW_EXPLORE" and nil: "nav_entries (fe_nav ?fe) = []"
    using assms by (simp_all add: frontend_nav_reset_def nav_wf_def nav_entries_def)
  have es: "map ?keep es = es"
    using assms(3) by (intro map_idI) (auto simp: list_all_iff path_copy_id)
  have ne: "list_all (\<lambda>e. fst e \<noteq> []) es" using assms(3) by (auto simp: list_all_iff)
  note visits = nav_visits_nav [OF view ne]
  have all: "nav_wf (fe_nav (fold nav_visit es ?fe)) \<and>
      nav_entries (fe_nav (fold nav_visit es ?fe)) = drop (length es - 16) es"
    using dirs.enter_all [OF wf, of es] unfolding visits nil es
    by (simp add: recent_def FRONTEND_NAV_MAX_def)
  have "map (\<lambda>(d, s). (text_copy FRONTEND_MAX_PATH d, s)) (drop n es) = drop n es" for n
    using assms(3) by (intro map_idI) (auto simp: list_all_iff path_copy_id dest!: in_set_dropD)
  moreover have "rev (drop (length es - 16) es) = take 16 (rev es)"
    by (cases "length es \<le> 16") (auto simp: rev_drop)
  ultimately show ?thesis using nav_unwind_entries [of "fold nav_visit es ?fe" _ k] all by simp
qed

theorem nav_history_lifo_witness:
  "\<exists>fe. nav_wf (fe_nav fe) \<and> fe_view fe = VIEW_EXPLORE \<and>
     nav_unwind 3 (fold nav_visit [(''/a'', 1), (''/a/b'', 2)] (frontend_nav_reset fe)) =
       [(''/a/b'', 2), (''/a'', 1)]"
proof -
  let ?fe = "zero_frontend\<lparr>fe_view := VIEW_EXPLORE\<rparr>"
  have wf: "nav_wf (fe_nav ?fe)" "fe_view ?fe = VIEW_EXPLORE" by (simp_all add: zero_frontend_def zero_nav_wf)
  show ?thesis
    using nav_history_lifo [OF wf, of "[(''/a'', 1), (''/a/b'', 2)]" 3] wf by (intro exI [of _ ?fe]) simp
qed

text \<open>
  The view history behaves in the same way and the parent view is always its newest entry:
  entering a view and leaving it again returns exactly the view, selection and scroll position
  that were entered and leaves the older entries as they were (less the oldest, if the history was
  full); a second leave then reports the entry below, and a leave on an empty history reports none.
\<close>

lemma view_history_returns:
  assumes "nav_wf (fe_nav fe)"
  shows "let n = fe_nav (frontend_parent_view_push fe); (n', e) = view_leave n
     in nav_wf n \<and> parent_ok n \<and> parent_ok n' \<and> e = Some (fe_view fe, fe_selected fe, fe_scroll fe) \<and>
        view_entries n' = drop (length (view_entries (fe_nav fe)) - 15) (view_entries (fe_nav fe)) \<and>
        view_leave (fe_nav (frontend_parent_view_clear fe)) =
          (fe_nav (frontend_parent_view_clear fe), None)"
proof -
  let ?e = "(fe_view fe, fe_selected fe, fe_scroll fe)" and ?n = "fe_nav (frontend_parent_view_push fe)"
  have n: "?n = view_enter ?e (fe_nav fe)" by (simp add: frontend_parent_view_push_def)
  have wf: "nav_wf ?n" "parent_ok ?n" unfolding n using assms by (simp_all add: enter_wf view_enter_parent)
  have "view_entries ?n = drop (length (view_entries (fe_nav fe)) - 15) (view_entries (fe_nav fe)) @ [?e]"
    unfolding n views.enter_recent [OF assms] recent_def FRONTEND_NAV_MAX_def by simp
  with view_leave_entries [OF wf(1)] wf show ?thesis
    by (auto simp: Let_def frontend_parent_view_clear_def view_leave_def [of "_\<lparr>view_count := 0\<rparr>"]
        split: prod.splits option.splits)
qed

lemma view_history_returns_witness:
  "nav_wf (fe_nav zero_frontend) \<and>
   snd (view_leave (fe_nav (frontend_parent_view_push zero_frontend))) = Some (VIEW_LAUNCH, 0, 0)"
proof -
  have wf: "nav_wf (fe_nav zero_frontend)" by (simp add: zero_frontend_def zero_nav_wf)
  have "snd (view_leave (fe_nav (frontend_parent_view_push zero_frontend))) =
      Some (fe_view zero_frontend, fe_selected zero_frontend, fe_scroll zero_frontend)"
    using view_history_returns [OF wf] by (auto simp: Let_def split: prod.splits)
  with wf show ?thesis by (simp add: zero_frontend_def)
qed

end
