(* ===== verification/UF_Items.thy ===== *)
theory UF_Items
  imports UF_Frontend "HOL-Library.List_Lexorder" "HOL-Library.Product_Lexorder"
begin

text \<open>
  The item list of the frontend (\<open>components/frontend/src/app/frontend_items.c\<close>): natural ordering
  of names, adding items without duplicates, sorting, and keeping the selection on the screen.

  The comparison runs over two C strings; the tail of the list that is left is the pointer, and
  \<open>peek\<close> is the character it points at.  \<open>qsort\<close> of the C library is a parameter with its contract,
  because the order it leaves equal items in is not specified.
\<close>

section \<open>Comparing names\<close>

definition is_back_item :: "frontend_item \<Rightarrow> bool" where
  "is_back_item item \<longleftrightarrow> it_kind item = ITEM_DIR \<and> it_path item = []"

definition ascii_is_digit :: "char \<Rightarrow> bool" where
  "ascii_is_digit c \<longleftrightarrow> schar c \<ge> 48 \<and> schar c \<le> 57"

definition name_lower :: "char \<Rightarrow> char" where
  "name_lower c = (if schar c \<ge> 65 \<and> schar c \<le> 90 then char_of ((of_char c :: nat) + 32) else c)"

definition peek :: "string \<Rightarrow> char" where
  "peek p = (case p of [] \<Rightarrow> NUL | c # _ \<Rightarrow> c)"

fun digits_compare :: "string \<Rightarrow> string \<Rightarrow> int" where
  "digits_compare (x # xs) (y # ys) =
     (if x \<noteq> y then if schar x < schar y then -1 else 1 else digits_compare xs ys)"
| "digits_compare _ _ = 0"

lemma digit_tail_shorter:
  assumes "ascii_is_digit (peek p)"
  shows "length (dropWhile ascii_is_digit (dropWhile (\<lambda>c. c = CHR ''0'') p)) < length p"
proof (cases p)
  case Nil
  with assms show ?thesis by (simp add: peek_def ascii_is_digit_def schar_def)
next
  case (Cons c s)
  with assms have c: "ascii_is_digit c" by (simp add: peek_def)
  have "length (dropWhile ascii_is_digit (dropWhile (\<lambda>c. c = CHR ''0'') s)) \<le> length s"
    by (meson length_dropWhile_le order_trans)
  moreover have "length (dropWhile ascii_is_digit s) \<le> length s" by (rule length_dropWhile_le)
  ultimately show ?thesis using Cons c by (simp add: le_imp_less_Suc)
qed

function natural_name_loop :: "string \<Rightarrow> string \<Rightarrow> int" where
  "natural_name_loop pa pb =
     (if pa = [] \<and> pb = [] then 0
      else if ascii_is_digit (peek pa) \<and> ascii_is_digit (peek pb) then
        (let za = dropWhile (\<lambda>c. c = CHR ''0'') pa; zb = dropWhile (\<lambda>c. c = CHR ''0'') pb;
             ea = dropWhile ascii_is_digit za; eb = dropWhile ascii_is_digit zb;
             la = length za - length ea; lb = length zb - length eb
         in if la \<noteq> lb then if la < lb then -1 else 1
            else (let r = digits_compare (take la za) (take la zb)
                  in if r \<noteq> 0 then r else natural_name_loop ea eb))
      else if name_lower (peek pa) \<noteq> name_lower (peek pb)
      then if schar (name_lower (peek pa)) < schar (name_lower (peek pb)) then -1 else 1
      else natural_name_loop (tl pa) (tl pb))"
  by pat_completeness auto
termination
  by (relation "measure (\<lambda>(pa, pb). length pa + length pb)")
    (auto simp: Let_def dest!: digit_tail_shorter neq_Nil_conv [THEN iffD1])

declare natural_name_loop.simps [simp del]

definition natural_name_compare :: "string option \<Rightarrow> string option \<Rightarrow> int" where
  "natural_name_compare a b =
     natural_name_loop (case a of None \<Rightarrow> [] | Some s \<Rightarrow> s) (case b of None \<Rightarrow> [] | Some s \<Rightarrow> s)"

section \<open>The item list\<close>

definition optional :: "string option \<Rightarrow> string" where
  "optional p = (case p of None \<Rightarrow> [] | Some s \<Rightarrow> s)"

definition reset_items :: "frontend_state \<Rightarrow> string option \<Rightarrow> frontend_state" where
  "reset_items fe title =
     fe\<lparr>fe_items := [], fe_selected := 0, fe_scroll := 0, fe_item_generation := fe_item_generation fe + 1,
        fe_current_dir := [],
        fe_title := text_copy 64 (tr fe (case title of None \<Rightarrow> ''muOS'' | Some s \<Rightarrow> s)),
        fe_needs_draw := True\<rparr>"

definition item_path_already_listed :: "frontend_state \<Rightarrow> frontend_item_kind \<Rightarrow> string option \<Rightarrow> bool" where
  "item_path_already_listed fe kind path =
     (if optional path = [] then False
      else list_ex (\<lambda>item. it_kind item = kind \<and> it_path item \<noteq> [] \<and> it_path item = optional path)
             (fe_items fe))"

definition unique_kind :: "frontend_item_kind \<Rightarrow> bool" where
  "unique_kind kind \<longleftrightarrow> kind = ITEM_DIR \<or> kind = ITEM_GAME \<or> kind = ITEM_MEDIA \<or> kind = ITEM_READER \<or>
     kind = ITEM_SCRIPT \<or> kind = ITEM_FIRMWARE"

definition make_item ::
  "frontend_state \<Rightarrow> string option \<Rightarrow> string option \<Rightarrow> frontend_item_kind \<Rightarrow> string option \<Rightarrow>
   string option \<Rightarrow> frontend_item"
where
  "make_item fe name meta kind path core =
     (let p = text_copy FRONTEND_MAX_PATH (optional path)
      in \<lparr>it_name = text_copy 96 (tr fe (optional name)), it_meta = text_copy 64 (tr fe (optional meta)),
          it_path = p, it_core = text_copy 96 (optional core), it_kind = kind,
          it_action = (if kind = ITEM_ACTION then unifrog_frontend_action_from_id (Some p) else ACTION_NONE)\<rparr>)"

text \<open>The result is the new state with the index of the new item, or \<open>None\<close> for a null pointer.\<close>

definition add_item ::
  "frontend_state \<Rightarrow> string option \<Rightarrow> string option \<Rightarrow> frontend_item_kind \<Rightarrow> string option \<Rightarrow>
   string option \<Rightarrow> frontend_state \<times> nat option"
where
  "add_item fe name meta kind path core =
     (if length (fe_items fe) \<ge> FRONTEND_MAX_ITEMS then (fe, None)
      else if unique_kind kind \<and> item_path_already_listed fe kind path then (fe, None)
      else (fe\<lparr>fe_items := fe_items fe @ [make_item fe name meta kind path core]\<rparr>,
            Some (length (fe_items fe))))"

definition add_info :: "frontend_state \<Rightarrow> string option \<Rightarrow> string option \<Rightarrow> frontend_state \<times> nat option" where
  "add_info fe name meta = add_item fe name meta ITEM_INFO (Some []) None"

text \<open>
  A format with \<open>%s\<close> conversions only.  A conversion without an argument and any other conversion
  are undefined in C; here they print nothing.
\<close>

fun c_format :: "string \<Rightarrow> string list \<Rightarrow> string" where
  "c_format [] args = []"
| "c_format [c] args = [c]"
| "c_format (c # d # s) args =
     (if c \<noteq> CHR ''%'' then c # c_format (d # s) args
      else if d = CHR ''s'' then (case args of [] \<Rightarrow> c_format s [] | a # as \<Rightarrow> a @ c_format s as)
      else if d = CHR ''%'' then CHR ''%'' # c_format s args
      else c_format s args)"

definition frontend_set_status :: "frontend_state \<Rightarrow> string \<Rightarrow> string list \<Rightarrow> frontend_state" where
  "frontend_set_status fe fmt args =
     fe\<lparr>fe_status := snprintf_s 96 (c_format (tr fe fmt) args), fe_needs_draw := True\<rparr>"

definition add_model_item :: "model_item \<Rightarrow> frontend_state \<Rightarrow> frontend_state" where
  "add_model_item item fe =
     fst (add_item fe (Some (mi_label item)) (Some (mi_detail item))
            (if mi_action item = ACTION_NONE then ITEM_INFO else ITEM_ACTION)
            (Some (unifrog_frontend_action_id (mi_action item)))
            (if mi_payload item \<noteq> [] then Some (mi_payload item) else None))"

definition add_model_items :: "frontend_state \<Rightarrow> frontend_model \<Rightarrow> frontend_state" where
  "add_model_items fe model =
     (let fe = fold add_model_item (fm_items model) fe
      in if fm_status model \<noteq> [] then frontend_set_status fe ''%s'' [fm_status model] else fe)"

definition item_compare :: "bool \<Rightarrow> frontend_item \<Rightarrow> frontend_item \<Rightarrow> int" where
  "item_compare frontend_sort_desc ia ib =
     (if is_back_item ia \<and> \<not> is_back_item ib then -1
      else if \<not> is_back_item ia \<and> is_back_item ib then 1
      else if it_kind ia = ITEM_DIR \<and> it_kind ib \<noteq> ITEM_DIR then -1
      else if it_kind ia \<noteq> ITEM_DIR \<and> it_kind ib = ITEM_DIR then 1
      else let r = natural_name_compare (Some (it_name ia)) (Some (it_name ib))
           in if frontend_sort_desc then - r else r)"

type_synonym 'a qsort = "('a \<Rightarrow> 'a \<Rightarrow> int) \<Rightarrow> 'a list \<Rightarrow> 'a list"

definition sort_items :: "frontend_item qsort \<Rightarrow> frontend_state \<Rightarrow> frontend_state" where
  "sort_items qsort fe = fe\<lparr>fe_items := qsort (item_compare (fe_sort_desc fe)) (fe_items fe)\<rparr>"

section \<open>The selection\<close>

definition item_count :: "frontend_state \<Rightarrow> u32" where
  "item_count fe = word_of_nat (length (fe_items fe))"

definition clamp_selection :: "frontend_state \<Rightarrow> frontend_state" where
  "clamp_selection fe =
     (if item_count fe = 0 then fe\<lparr>fe_selected := 0, fe_scroll := 0\<rparr>
      else
        let fe = (if fe_selected fe \<ge> item_count fe then fe\<lparr>fe_selected := item_count fe - 1\<rparr> else fe);
            fe = (if fe_scroll fe > fe_selected fe then fe\<lparr>fe_scroll := fe_selected fe\<rparr> else fe)
        in if fe_selected fe \<ge> fe_scroll fe + FRONTEND_ROWS
           then fe\<lparr>fe_scroll := fe_selected fe - FRONTEND_ROWS + 1\<rparr> else fe)"

text \<open>The second component tells whether a line is logged.\<close>

definition log_selection :: "frontend_state \<Rightarrow> string option \<Rightarrow> frontend_state \<times> bool" where
  "log_selection fe reason =
     (if fe_selected fe \<ge> item_count fe then (fe, False)
      else
        let hot_repeat = (reason = Some ''up'' \<or> reason = Some ''down'');
            should_log = (\<not> hot_repeat \<or> fe_view fe \<noteq> fe_nav_log_last_view fe \<or> fe_selected fe = 0 \<or>
              fe_selected fe + 1 = item_count fe \<or>
              fe_selected fe div FRONTEND_NAV_LOG_STEP \<noteq>
                fe_nav_log_last_selected fe div FRONTEND_NAV_LOG_STEP)
        in (fe\<lparr>fe_nav_log_last_view := fe_view fe, fe_nav_log_last_selected := fe_selected fe\<rparr>, should_log))"

definition restore_view_selection :: "frontend_state \<Rightarrow> u32 \<Rightarrow> u32 \<Rightarrow> frontend_state" where
  "restore_view_selection fe selected scroll =
     fst (log_selection ((clamp_selection (fe\<lparr>fe_selected := selected, fe_scroll := scroll\<rparr>))
            \<lparr>fe_needs_draw := True\<rparr>) (Some ''back''))"

section \<open>The natural order\<close>

text \<open>
  The reference: a name is the list of its tokens, where a run of digits is one token with its
  numeric value, another character is a token with its lower-case code, and the end of the name
  is a token as well.  Names are compared as the token lists are, lexicographically.
\<close>

fun num_value :: "string \<Rightarrow> nat" where
  "num_value [] = 0"
| "num_value (c # s) = nat (schar c - 48) * 10 ^ length s + num_value s"

function name_key :: "string \<Rightarrow> (int \<times> nat) list" where
  "name_key s =
     (if s = [] then [(0, 0)]
      else if ascii_is_digit (peek s)
      then (48, num_value (takeWhile ascii_is_digit s)) # name_key (dropWhile ascii_is_digit s)
      else (schar (name_lower (peek s)), 0) # name_key (tl s))"
  by pat_completeness auto
termination
  by (relation "measure length")
    (auto simp: peek_def neq_Nil_conv le_imp_less_Suc length_dropWhile_le)

declare name_key.simps [simp del]

definition cmp3 :: "'a::linorder \<Rightarrow> 'a \<Rightarrow> int" where
  "cmp3 x y = (if x = y then 0 else if x < y then -1 else 1)"

lemma cmp3_Cons: "cmp3 (x # xs) (y # ys) = (if x = y then cmp3 xs ys else cmp3 x y)"
  by (simp add: cmp3_def)

lemma cmp3_refl [simp]: "cmp3 x x = 0"
  by (simp add: cmp3_def)

lemma of_char_int_range: "0 \<le> (of_char c :: int)" "(of_char c :: int) < 256"
proof -
  have "(of_char c :: int) = int (of_char c)" by (rule of_nat_of_char [symmetric])
  with nat_of_char_less_256 [of c] show "0 \<le> (of_char c :: int)" "(of_char c :: int) < 256" by linarith+
qed

lemma schar_inj: "schar c = schar d \<longleftrightarrow> c = d"
proof
  assume "schar c = schar d"
  then have "(of_char c :: int) = of_char d"
    using of_char_int_range [of c] of_char_int_range [of d]
    by (auto simp: schar_def Let_def split: if_splits)
  then show "c = d" by simp
qed simp

lemma schar_of_nat_digit: "ascii_is_digit c \<Longrightarrow> nat (schar c - 48) \<le> 9"
  by (auto simp: ascii_is_digit_def)

lemma num_value_less: "list_all ascii_is_digit s \<Longrightarrow> num_value s < 10 ^ length s"
proof (induction s)
  case (Cons c s)
  then have le: "nat (schar c - 48) * 10 ^ length s \<le> 9 * 10 ^ length s"
    using schar_of_nat_digit by (intro mult_right_mono) auto
  have "num_value s < 10 ^ length s" using Cons by simp
  then have "nat (schar c - 48) * 10 ^ length s + num_value s < 9 * 10 ^ length s + 10 ^ length s"
    using le by (rule add_le_less_mono [rotated])
  then show ?case by simp
qed simp

lemma num_value_ge:
  assumes "ascii_is_digit c" "c \<noteq> CHR ''0''"
  shows "10 ^ length s \<le> num_value (c # s)"
proof -
  have "schar c \<noteq> schar (CHR ''0'')" unfolding schar_inj using assms(2) .
  moreover have "schar (CHR ''0'') = 48" by (simp add: schar_def)
  ultimately have "1 \<le> nat (schar c - 48)" using assms(1) unfolding ascii_is_digit_def by linarith
  then have "1 * 10 ^ length s \<le> nat (schar c - 48) * 10 ^ length s" by (rule mult_right_mono) simp
  then show ?thesis by (simp only: mult_1 num_value.simps trans_le_add1)
qed

lemma num_value_zeros: "num_value (dropWhile (\<lambda>c. c = CHR ''0'') s) = num_value s"
  by (induction s) (auto simp: schar_def)

lemma digits_compare_value:
  "length xs = length ys \<Longrightarrow> list_all ascii_is_digit xs \<Longrightarrow> list_all ascii_is_digit ys \<Longrightarrow>
   digits_compare xs ys = cmp3 (num_value xs) (num_value ys)"
proof (induction xs ys rule: list_induct2)
  case (Cons x xs y ys)
  have less: "nat (schar x - 48) * 10 ^ length xs + num_value xs < nat (schar y - 48) * 10 ^ length ys + num_value ys"
    if "schar x < schar y" "length xs = length ys" "list_all ascii_is_digit xs" "ascii_is_digit x"
    for x y xs ys
  proof -
    let ?p = "10 ^ length xs :: nat"
    have "nat (schar x - 48) + 1 \<le> nat (schar y - 48)"
      using that(1,4) unfolding ascii_is_digit_def by linarith
    then have "(nat (schar x - 48) + 1) * ?p \<le> nat (schar y - 48) * ?p" by (rule mult_right_mono) simp
    with num_value_less [OF that(3)] show ?thesis by (simp add: that(2))
  qed
  have ne: "x \<noteq> y \<Longrightarrow> schar x < schar y \<or> schar y < schar x" using schar_inj [of x y] by linarith
  show ?case
    using Cons ne less [of x y xs ys] less [of y x ys xs] by (auto simp: cmp3_def)
qed simp

definition no_leading_zero :: "string \<Rightarrow> bool" where
  "no_leading_zero s \<longleftrightarrow> (case s of [] \<Rightarrow> True | c # _ \<Rightarrow> c \<noteq> CHR ''0'')"

lemma shorter_number:
  assumes "length xs < length ys" "list_all ascii_is_digit xs" "list_all ascii_is_digit ys" "no_leading_zero ys"
  shows "num_value xs < num_value ys"
proof -
  obtain y zs where ys: "ys = y # zs" using assms(1) by (cases ys) auto
  have "num_value xs < 10 ^ length xs" using num_value_less [OF assms(2)] .
  also have "\<dots> \<le> 10 ^ length zs" using assms(1) ys by (intro power_increasing) auto
  also have "\<dots> \<le> num_value ys" using assms ys num_value_ge by (auto simp: no_leading_zero_def)
  finally show ?thesis .
qed

lemma number_compare:
  assumes "list_all ascii_is_digit xs" "list_all ascii_is_digit ys" "no_leading_zero xs" "no_leading_zero ys"
  shows "(if length xs \<noteq> length ys then if length xs < length ys then -1 else 1 else digits_compare xs ys) =
    cmp3 (num_value xs) (num_value ys)"
  using assms shorter_number [of xs ys] shorter_number [of ys xs] digits_compare_value [of xs ys]
  by (cases "length xs" "length ys" rule: linorder_cases) (auto simp: cmp3_def)

text \<open>The token at the head of a name.\<close>

definition head_key :: "string \<Rightarrow> int \<times> nat" where
  "head_key s = (if ascii_is_digit (peek s) then (48, num_value (takeWhile ascii_is_digit s))
                 else (schar (name_lower (peek s)), 0))"

lemma char_facts:
  "name_lower NUL = NUL" "schar NUL = 0" "\<not> ascii_is_digit NUL" "ascii_is_digit (CHR ''0'')"
  by (simp_all add: name_lower_def schar_def ascii_is_digit_def)

lemma digit_lower: "ascii_is_digit c \<Longrightarrow> name_lower c = c"
  by (auto simp: ascii_is_digit_def name_lower_def)

lemma upper_lower:
  assumes "schar c \<ge> 65 \<and> schar c \<le> 90"
  shows "schar (name_lower c) = schar c + 32"
proof -
  have n: "65 \<le> (of_char c :: int)" "(of_char c :: int) \<le> 90" "schar c = of_char c"
    using assms of_char_int_range [of c] by (auto simp: schar_def Let_def split: if_splits)
  then have m: "65 \<le> (of_char c :: nat)" "(of_char c :: nat) \<le> 90"
    unfolding of_nat_of_char [symmetric, where 'a = int] by linarith+
  have "(of_char (char_of ((of_char c :: nat) + 32) :: char) :: int) = of_char c + 32"
    using m by (simp add: of_nat_of_char [symmetric, where 'a = int] del: of_nat_of_char)
  with assms n show ?thesis by (simp add: name_lower_def schar_def Let_def)
qed

lemma lower_range:
  assumes "\<not> ascii_is_digit c"
  shows "schar (name_lower c) < 48 \<or> 57 < schar (name_lower c)"
proof (cases "schar c \<ge> 65 \<and> schar c \<le> 90")
  case True
  with upper_lower [OF True] show ?thesis by simp
next
  case False
  with assms show ?thesis by (auto simp: name_lower_def ascii_is_digit_def)
qed

lemma lower_not_nul: "name_lower c = NUL \<longleftrightarrow> c = NUL"
proof (cases "schar c \<ge> 65 \<and> schar c \<le> 90")
  case True
  with upper_lower [OF True] show ?thesis by (auto simp: char_facts)
qed (auto simp: name_lower_def)

lemma head_key_less:
  assumes "name_lower (peek a) \<noteq> name_lower (peek b)" "\<not> (ascii_is_digit (peek a) \<and> ascii_is_digit (peek b))"
  shows "cmp3 (head_key a) (head_key b) =
    (if schar (name_lower (peek a)) < schar (name_lower (peek b)) then -1 else 1)"
proof -
  have ne: "schar (name_lower (peek a)) \<noteq> schar (name_lower (peek b))" using assms(1) by (simp add: schar_inj)
  show ?thesis
    using assms(2) ne lower_range [of "peek a"] lower_range [of "peek b"]
    by (auto simp: head_key_def cmp3_def digit_lower less_prod_def' ascii_is_digit_def)
qed

lemma name_key_unfold:
  "name_key s = head_key s # (if s = [] then [] else
     name_key (if ascii_is_digit (peek s) then dropWhile ascii_is_digit s else tl s))"
  by (subst name_key.simps) (auto simp: head_key_def peek_def char_facts)

lemma drop_zeros_digits:
  "dropWhile ascii_is_digit (dropWhile (\<lambda>c. c = CHR ''0'') s) = dropWhile ascii_is_digit s"
  by (induction s) (auto simp: char_facts)

lemma take_zeros_digits:
  "takeWhile ascii_is_digit (dropWhile (\<lambda>c. c = CHR ''0'') s) =
   dropWhile (\<lambda>c. c = CHR ''0'') (takeWhile ascii_is_digit s)"
  by (induction s) (auto simp: char_facts)

lemma no_leading_zero_drop: "no_leading_zero (dropWhile (\<lambda>c. c = CHR ''0'') s)"
  by (induction s) (auto simp: no_leading_zero_def)

lemma run_of_digits:
  fixes s :: string
  defines "z \<equiv> dropWhile (\<lambda>c. c = CHR ''0'') s"
  defines "d \<equiv> takeWhile ascii_is_digit z"
  shows "length z - length (dropWhile ascii_is_digit z) = length d" "take (length d) z = d"
    "num_value d = num_value (takeWhile ascii_is_digit s)" "list_all ascii_is_digit d" "no_leading_zero d"
proof -
  have z: "d @ dropWhile ascii_is_digit z = z" by (simp add: d_def)
  then show "length z - length (dropWhile ascii_is_digit z) = length d"
    by (metis add_diff_cancel_right' length_append)
  show "take (length d) z = d" by (metis z append_eq_conv_conj)
  show "num_value d = num_value (takeWhile ascii_is_digit s)"
    by (simp add: d_def z_def take_zeros_digits num_value_zeros)
  show "list_all ascii_is_digit d" by (auto simp: d_def list_all_iff dest: set_takeWhileD)
  show "no_leading_zero d" unfolding d_def z_def take_zeros_digits by (rule no_leading_zero_drop)
qed

lemma natural_name_loop_digits:
  fixes pa pb :: string
  defines "da \<equiv> takeWhile ascii_is_digit (dropWhile (\<lambda>c. c = CHR ''0'') pa)"
  defines "db \<equiv> takeWhile ascii_is_digit (dropWhile (\<lambda>c. c = CHR ''0'') pb)"
  assumes "ascii_is_digit (peek pa)" "ascii_is_digit (peek pb)"
  shows "natural_name_loop pa pb =
    (if length da \<noteq> length db then if length da < length db then -1 else 1
     else if digits_compare da db \<noteq> 0 then digits_compare da db
     else natural_name_loop (dropWhile ascii_is_digit pa) (dropWhile ascii_is_digit pb))"
proof -
  have "pa \<noteq> []" using assms(3) by (auto simp: peek_def char_facts)
  then show ?thesis
    using assms(3,4) run_of_digits(1,2) [of pa] run_of_digits(1,2) [of pb]
    unfolding da_def [symmetric] db_def [symmetric]
    by (subst natural_name_loop.simps) (cases "length da = length db"; simp add: Let_def drop_zeros_digits)
qed

lemma natural_name_loop_key:
  "cstr_ok pa \<Longrightarrow> cstr_ok pb \<Longrightarrow> natural_name_loop pa pb = cmp3 (name_key pa) (name_key pb)"
proof (induction "length pa + length pb" arbitrary: pa pb rule: less_induct)
  case (less pa pb)
  let ?da = "takeWhile ascii_is_digit (dropWhile (\<lambda>c. c = CHR ''0'') pa)"
  let ?db = "takeWhile ascii_is_digit (dropWhile (\<lambda>c. c = CHR ''0'') pb)"
  have ok: "cstr_ok (dropWhile ascii_is_digit pa)" "cstr_ok (dropWhile ascii_is_digit pb)"
    "cstr_ok (tl pa)" "cstr_ok (tl pb)"
    using less.prems by (cases pa; cases pb; auto)+
  consider "pa = []" "pb = []"
    | "ascii_is_digit (peek pa)" "ascii_is_digit (peek pb)"
    | "\<not> (ascii_is_digit (peek pa) \<and> ascii_is_digit (peek pb))" "name_lower (peek pa) \<noteq> name_lower (peek pb)"
    | "\<not> (pa = [] \<and> pb = [])" "\<not> (ascii_is_digit (peek pa) \<and> ascii_is_digit (peek pb))"
      "name_lower (peek pa) = name_lower (peek pb)"
    by blast
  then show ?case
  proof cases
    case 1
    then show ?thesis by (simp add: natural_name_loop.simps)
  next
    case 2
    then have ne: "pa \<noteq> []" "pb \<noteq> []" by (auto simp: peek_def char_facts)
    have num: "(if length ?da \<noteq> length ?db then if length ?da < length ?db then -1 else 1
        else digits_compare ?da ?db) =
        cmp3 (num_value (takeWhile ascii_is_digit pa)) (num_value (takeWhile ascii_is_digit pb))"
      using number_compare [OF run_of_digits(4,4,5,5), of pa pb] by (simp only: run_of_digits(3))
    have "length (dropWhile ascii_is_digit pa) + length (dropWhile ascii_is_digit pb) < length pa + length pb"
      using digit_tail_shorter [OF 2(1)] digit_tail_shorter [OF 2(2)] by (simp add: drop_zeros_digits)
    from less.hyps [OF this ok(1,2)] num natural_name_loop_digits [OF 2] show ?thesis
      using ne 2 by (auto simp: name_key_unfold [of pa] name_key_unfold [of pb] cmp3_Cons head_key_def cmp3_def [of "(_, _)"]
          cmp3_def [of "num_value _"] split: if_splits)
  next
    case 3
    then have "head_key pa \<noteq> head_key pb" using head_key_less [OF 3(2,1)] by (auto split: if_splits)
    then show ?thesis using 3 head_key_less [OF 3(2,1)]
      by (subst natural_name_loop.simps) (auto simp: name_key_unfold [of pa] name_key_unfold [of pb] cmp3_Cons char_facts)
  next
    case 4
    have nd: "\<not> ascii_is_digit (peek pa)" "\<not> ascii_is_digit (peek pb)"
      using 4(2,3) lower_range [of "peek pa"] lower_range [of "peek pb"] digit_lower [of "peek pa"] digit_lower [of "peek pb"]
      by (auto simp: ascii_is_digit_def)
    have lz: "name_lower c = NUL \<longleftrightarrow> c = NUL" for c
      using lower_not_nul by blast
    have ne: "pa \<noteq> []" "pb \<noteq> []"
      using 4 less.prems lz lz [of "peek pa"] lz [of "peek pb"]
      by (auto simp: peek_def char_facts split: list.splits)
    then have "length (tl pa) + length (tl pb) < length pa + length pb" by (cases pa; cases pb) auto
    from less.hyps [OF this ok(3,4)] 4 nd ne show ?thesis
      by (subst natural_name_loop.simps) (simp add: name_key_unfold [of pa] name_key_unfold [of pb] cmp3_Cons head_key_def)
  qed
qed

section \<open>Comparison functions and sorting\<close>

text \<open>
  What \<open>qsort\<close> requires of a comparison function on the elements \<open>A\<close> of an array: the sign flips
  with the arguments and "not greater" is transitive.
\<close>

locale comparator =
  fixes cmp :: "'a \<Rightarrow> 'a \<Rightarrow> int" and A :: "'a set"
  assumes cmp_flip: "a \<in> A \<Longrightarrow> b \<in> A \<Longrightarrow> sgn (cmp a b) = - sgn (cmp b a)"
    and cmp_trans: "a \<in> A \<Longrightarrow> b \<in> A \<Longrightarrow> c \<in> A \<Longrightarrow> cmp a b \<le> 0 \<Longrightarrow> cmp b c \<le> 0 \<Longrightarrow> cmp a c \<le> 0"
begin

lemma cmp_self: "a \<in> A \<Longrightarrow> cmp a a = 0"
  using cmp_flip [of a a] by (simp add: sgn_if split: if_splits)

lemma cmp_total: "a \<in> A \<Longrightarrow> b \<in> A \<Longrightarrow> cmp a b \<le> 0 \<or> cmp b a \<le> 0"
  using cmp_flip [of a b] by (auto simp: sgn_if split: if_splits)

end

text \<open>
  The contract of \<open>qsort\<close>: for a proper comparison function the array is rearranged into ascending
  order.  Insertion sort is one function that satisfies it.
\<close>

definition qsort_contract :: "'a qsort \<Rightarrow> bool" where
  "qsort_contract qs \<longleftrightarrow> (\<forall>cmp xs. comparator cmp (set xs) \<longrightarrow>
     mset (qs cmp xs) = mset xs \<and> sorted_wrt (\<lambda>a b. cmp a b \<le> 0) (qs cmp xs))"

fun insert_by :: "('a \<Rightarrow> 'a \<Rightarrow> int) \<Rightarrow> 'a \<Rightarrow> 'a list \<Rightarrow> 'a list" where
  "insert_by cmp x [] = [x]"
| "insert_by cmp x (y # ys) = (if cmp x y \<le> 0 then x # y # ys else y # insert_by cmp x ys)"

definition insertion_sort :: "'a qsort" where
  "insertion_sort cmp xs = foldr (insert_by cmp) xs []"

lemma mset_insert_by: "mset (insert_by cmp x xs) = add_mset x (mset xs)"
  by (induction xs) auto

lemma set_insert_by: "set (insert_by cmp x xs) = insert x (set xs)"
  by (metis mset_insert_by set_mset_add_mset_insert set_mset_mset)

context comparator
begin

lemma sorted_insert_by:
  "x \<in> A \<Longrightarrow> set xs \<subseteq> A \<Longrightarrow> sorted_wrt (\<lambda>a b. cmp a b \<le> 0) xs \<Longrightarrow>
   sorted_wrt (\<lambda>a b. cmp a b \<le> 0) (insert_by cmp x xs)"
proof (induction xs)
  case (Cons y ys)
  have "cmp x z \<le> 0" if "cmp x y \<le> 0" "z \<in> set ys" for z
    using Cons.prems that cmp_trans [of x y z] by auto
  with Cons show ?case using cmp_total [of x y] by (auto simp: set_insert_by)
qed simp

lemma sorted_insertion_sort:
  "set xs \<subseteq> A \<Longrightarrow> mset (insertion_sort cmp xs) = mset xs \<and>
   sorted_wrt (\<lambda>a b. cmp a b \<le> 0) (insertion_sort cmp xs)"
proof (induction xs)
  case (Cons x xs)
  then have IH: "mset (insertion_sort cmp xs) = mset xs"
    "sorted_wrt (\<lambda>a b. cmp a b \<le> 0) (insertion_sort cmp xs)" by auto
  have "set (insertion_sort cmp xs) \<subseteq> A" using IH(1) Cons.prems by (metis insert_subset list.simps(15) set_mset_mset)
  with sorted_insert_by [of x "insertion_sort cmp xs"] IH Cons.prems show ?case
    by (simp add: insertion_sort_def mset_insert_by)
qed (simp add: insertion_sort_def)

lemma comparator_subset: "B \<subseteq> A \<Longrightarrow> comparator cmp B"
  by unfold_locales (auto intro: cmp_flip cmp_trans)

end

lemma insertion_sort_contract: "qsort_contract insertion_sort"
  by (simp add: qsort_contract_def comparator.sorted_insertion_sort)

text \<open>The key of an item: its group, then the tokens of its name.\<close>

definition item_rank :: "frontend_item \<Rightarrow> nat" where
  "item_rank i = (if is_back_item i then 0 else if it_kind i = ITEM_DIR then 1 else 2)"

definition item_before :: "bool \<Rightarrow> frontend_item \<Rightarrow> frontend_item \<Rightarrow> bool" where
  "item_before desc a b \<longleftrightarrow> item_rank a < item_rank b \<or> item_rank a = item_rank b \<and>
     (if desc then name_key (it_name b) \<le> name_key (it_name a)
      else name_key (it_name a) \<le> name_key (it_name b))"

definition item_cmp :: "bool \<Rightarrow> frontend_item \<Rightarrow> frontend_item \<Rightarrow> int" where
  "item_cmp desc a b = (if item_rank a \<noteq> item_rank b then cmp3 (item_rank a) (item_rank b)
     else if desc then - cmp3 (name_key (it_name a)) (name_key (it_name b))
     else cmp3 (name_key (it_name a)) (name_key (it_name b)))"

lemma cmp3_flip: "cmp3 x y = - cmp3 y x"
  by (auto simp: cmp3_def)

lemma cmp3_le: "cmp3 x y \<le> 0 \<longleftrightarrow> x \<le> y"
  by (auto simp: cmp3_def)

lemma cmp3_ge: "0 \<le> cmp3 x y \<longleftrightarrow> y \<le> x"
  by (auto simp: cmp3_def)

lemma item_cmp_le: "item_cmp desc a b \<le> 0 \<longleftrightarrow> item_before desc a b"
  by (auto simp: item_cmp_def item_before_def cmp3_le cmp3_ge)

lemma item_cmp_flip: "item_cmp desc a b = - item_cmp desc b a"
  using cmp3_flip [of "item_rank a" "item_rank b"] cmp3_flip [of "name_key (it_name a)" "name_key (it_name b)"]
  by (auto simp: item_cmp_def)

lemma item_before_trans: "item_before desc a b \<Longrightarrow> item_before desc b c \<Longrightarrow> item_before desc a c"
  by (auto simp: item_before_def split: if_splits)

lemma item_compare_key:
  assumes "cstr_ok (it_name a)" "cstr_ok (it_name b)"
  shows "item_compare desc a b = item_cmp desc a b"
  using natural_name_loop_key [OF assms]
  by (auto simp: item_compare_def item_cmp_def item_rank_def natural_name_compare_def is_back_item_def
      cmp3_def [of "_ :: nat"])

interpretation items: comparator "item_compare desc" "{i. cstr_ok (it_name i)}"
proof
  fix a b :: frontend_item
  assume "a \<in> {i. cstr_ok (it_name i)}" "b \<in> {i. cstr_ok (it_name i)}"
  then show "sgn (item_compare desc a b) = - sgn (item_compare desc b a)"
    using item_cmp_flip [of desc a b] by (simp add: sgn_minus item_compare_key)
qed (auto simp: item_compare_key item_cmp_le intro: item_before_trans)

section \<open>Paths are listed once\<close>

text \<open>The items of the kinds that name a file or a directory have different paths.\<close>

definition listed_paths :: "frontend_item list \<Rightarrow> (frontend_item_kind \<times> string) list" where
  "listed_paths items = map (\<lambda>i. (it_kind i, it_path i))
     (filter (\<lambda>i. unique_kind (it_kind i) \<and> it_path i \<noteq> []) items)"

definition items_ok :: "frontend_state \<Rightarrow> bool" where
  "items_ok fe \<longleftrightarrow> length (fe_items fe) \<le> FRONTEND_MAX_ITEMS \<and> distinct (listed_paths (fe_items fe)) \<and>
     list_all (\<lambda>i. length (it_name i) < 96 \<and> length (it_meta i) < 64 \<and> length (it_path i) < 256 \<and>
       length (it_core i) < 96) (fe_items fe)"

lemma make_item_bounds:
  "length (it_name (make_item fe n m k p c)) < 96 \<and> length (it_meta (make_item fe n m k p c)) < 64 \<and>
   length (it_path (make_item fe n m k p c)) < 256 \<and> length (it_core (make_item fe n m k p c)) < 96"
  using tcp.copy_bound [of FRONTEND_MAX_PATH "optional p"]
  by (simp add: make_item_def Let_def tcp.copy_bound FRONTEND_MAX_PATH_def)

lemma make_item_sel:
  "it_kind (make_item fe n m k p c) = k"
  "length (optional p) < 256 \<Longrightarrow> it_path (make_item fe n m k p c) = optional p"
  by (simp_all add: make_item_def Let_def path_copy_id)

lemma listed_paths_append: "listed_paths (xs @ ys) = listed_paths xs @ listed_paths ys"
  by (simp add: listed_paths_def)

lemma already_listed_iff:
  assumes "unique_kind k" "optional p \<noteq> []"
  shows "item_path_already_listed fe k p \<longleftrightarrow> (k, optional p) \<in> set (listed_paths (fe_items fe))"
  using assms by (auto simp: item_path_already_listed_def listed_paths_def list_ex_iff)

lemma add_item_ok:
  assumes ok: "items_ok fe" and short: "length (optional p) < 256"
  shows "items_ok (fst (add_item fe n m k p c))"
proof (cases "snd (add_item fe n m k p c)")
  case None
  with ok show ?thesis by (auto simp: add_item_def split: if_splits)
next
  case (Some i)
  then have room: "length (fe_items fe) < FRONTEND_MAX_ITEMS"
    and new: "\<not> (unique_kind k \<and> item_path_already_listed fe k p)"
    and fe': "fst (add_item fe n m k p c) = fe\<lparr>fe_items := fe_items fe @ [make_item fe n m k p c]\<rparr>"
    by (auto simp: add_item_def split: if_splits)
  have "distinct (listed_paths (fe_items fe @ [make_item fe n m k p c]))"
    using ok new already_listed_iff [of k p fe] short
    by (auto simp: items_ok_def listed_paths_append listed_paths_def [of "[_]"] make_item_sel)
  with ok room make_item_bounds [of fe n m k p c] show ?thesis by (simp add: items_ok_def fe')
qed

section \<open>The selection stays on the screen\<close>

definition selection_ok :: "frontend_state \<Rightarrow> bool" where
  "selection_ok fe \<longleftrightarrow> (if fe_items fe = [] then fe_selected fe = 0 \<and> fe_scroll fe = 0
     else unat (fe_selected fe) < length (fe_items fe) \<and> unat (fe_scroll fe) \<le> unat (fe_selected fe) \<and>
          unat (fe_selected fe) < unat (fe_scroll fe) + 8)"

lemma item_count_unat: "length (fe_items fe) \<le> FRONTEND_MAX_ITEMS \<Longrightarrow> unat (item_count fe) = length (fe_items fe)"
  by (simp add: item_count_def FRONTEND_MAX_ITEMS_def unsigned_of_nat take_bit_nat_eq_self)

lemma clamp_selection_ok:
  assumes "length (fe_items fe) \<le> FRONTEND_MAX_ITEMS"
  shows "selection_ok (clamp_selection fe) \<and> fe_items (clamp_selection fe) = fe_items fe"
proof (cases "fe_items fe = []")
  case True
  then show ?thesis by (simp add: clamp_selection_def item_count_def selection_ok_def)
next
  case False
  let ?n = "item_count fe"
  have n: "unat ?n = length (fe_items fe)" by (rule item_count_unat [OF assms])
  have pos: "0 < unat ?n" and le: "unat ?n \<le> 8192"
    using n False assms by (simp_all add: FRONTEND_MAX_ITEMS_def)
  define s where "s = (if fe_selected fe \<ge> ?n then ?n - 1 else fe_selected fe)"
  define c where "c = (if fe_scroll fe > s then s else fe_scroll fe)"
  have s: "unat s < unat ?n" using pos by (auto simp: s_def word_le_nat_alt unat_sub_if')
  have c: "unat c \<le> unat s" by (auto simp: c_def word_less_nat_alt)
  have c8: "unat (c + FRONTEND_ROWS) = unat c + 8"
    using s c le by (simp add: FRONTEND_ROWS_def unat_add_lem [THEN iffD1])
  have top: "unat (s - FRONTEND_ROWS + 1) = unat s - 8 + 1" if "unat c + 8 \<le> unat s"
    using that s le by (simp add: FRONTEND_ROWS_def unat_word_ariths unat_sub_if')
  have fe': "clamp_selection fe =
     fe\<lparr>fe_selected := s, fe_scroll := if s \<ge> c + FRONTEND_ROWS then s - FRONTEND_ROWS + 1 else c\<rparr>"
    using pos by (auto simp: clamp_selection_def Let_def s_def c_def item_count_def)
  show ?thesis
    using False s c c8 top n by (auto simp: fe' selection_ok_def word_le_nat_alt)
qed

lemma restore_selection_ok:
  assumes "length (fe_items fe) \<le> FRONTEND_MAX_ITEMS"
  shows "selection_ok (restore_view_selection fe sel scr) \<and> fe_items (restore_view_selection fe sel scr) = fe_items fe"
proof -
  let ?fe = "clamp_selection (fe\<lparr>fe_selected := sel, fe_scroll := scr\<rparr>)"
  have "selection_ok ?fe \<and> fe_items ?fe = fe_items fe"
    using clamp_selection_ok [of "fe\<lparr>fe_selected := sel, fe_scroll := scr\<rparr>"] assms by simp
  moreover have "fe_items (fst (log_selection g r)) = fe_items g"
    "fe_selected (fst (log_selection g r)) = fe_selected g" "fe_scroll (fst (log_selection g r)) = fe_scroll g" for g r
    by (simp_all add: log_selection_def Let_def)
  ultimately show ?thesis by (auto simp: restore_view_selection_def selection_ok_def)
qed

text \<open>A request to add an item: name, detail, kind, path and core.\<close>

type_synonym item_request = "string option \<times> string option \<times> frontend_item_kind \<times> string option \<times> string option"

definition add_request :: "item_request \<Rightarrow> frontend_state \<Rightarrow> frontend_state" where
  "add_request r fe = (case r of (n, m, k, p, c) \<Rightarrow> fst (add_item fe n m k p c))"

definition add_requests :: "item_request list \<Rightarrow> frontend_state \<Rightarrow> frontend_state" where
  "add_requests rs fe = fold add_request rs fe"

definition request_path :: "item_request \<Rightarrow> string" where
  "request_path r = (case r of (n, m, k, p, c) \<Rightarrow> optional p)"

lemma add_requests_ok:
  "items_ok fe \<Longrightarrow> list_all (\<lambda>r. length (request_path r) < 256) rs \<Longrightarrow> items_ok (add_requests rs fe)"
proof (induction rs arbitrary: fe)
  case (Cons r rs)
  have "items_ok (add_request r fe)"
    using Cons.prems by (cases r) (auto simp: add_request_def request_path_def intro: add_item_ok)
  with Cons show ?case by (simp add: add_requests_def)
qed (simp add: add_requests_def)

section \<open>Properties\<close>

text \<open>
  C21. The natural order of names is the lexicographic order of their tokens: \<open>natural_name_compare\<close>
  is negative, zero or positive exactly when the token list of the first name is less than, equal
  to or greater than that of the second, where a run of digits counts as one number whatever its
  leading zeros, letters are compared without case and the end of a name is a token of its own.
\<close>

theorem natural_order_tokens:
  assumes "cstr_ok a" and "cstr_ok b"
  shows "natural_name_compare (Some a) (Some b) = cmp3 (name_key a) (name_key b)"
  by (simp add: natural_name_compare_def natural_name_loop_key assms)

theorem natural_order_tokens_witness:
  "natural_name_compare (Some ''Rom 010 a'') (Some ''rom 9 b'') = 1 \<and>
   name_key ''rom 9'' = [(114, 0), (111, 0), (109, 0), (32, 0), (48, 9), (0, 0)]"
proof -
  have k: "name_key ''rom 9'' = [(114, 0), (111, 0), (109, 0), (32, 0), (48, 9), (0, 0)]" by code_simp
  have "cmp3 (name_key ''Rom 010 a'') (name_key ''rom 9 b'') = 1" by code_simp
  with k natural_order_tokens [of "''Rom 010 a''" "''rom 9 b''"] show ?thesis by simp
qed

text \<open>
  C20. Sorting the item list only rearranges it, and puts the entry that leads back first, then the
  directories, then everything else, each group in the natural order of the names, ascending or
  descending as configured.  The comparison function satisfies what \<open>qsort\<close> requires of it, so this
  holds for every \<open>qsort\<close> that keeps its contract.
\<close>

theorem sort_items_ordered:
  assumes "qsort_contract qs" and "list_all (\<lambda>i. cstr_ok (it_name i)) (fe_items fe)"
  shows "mset (fe_items (sort_items qs fe)) = mset (fe_items fe) \<and>
     sorted_wrt (item_before (fe_sort_desc fe)) (fe_items (sort_items qs fe))"
proof -
  let ?c = "item_compare (fe_sort_desc fe)"
  have sub: "set (fe_items fe) \<subseteq> {i. cstr_ok (it_name i)}" using assms(2) by (auto simp: list_all_iff)
  have res: "mset (qs ?c (fe_items fe)) = mset (fe_items fe)" "sorted_wrt (\<lambda>a b. ?c a b \<le> 0) (qs ?c (fe_items fe))"
    using assms(1) items.comparator_subset [OF sub] by (auto simp: qsort_contract_def)
  have "set (qs ?c (fe_items fe)) \<subseteq> {i. cstr_ok (it_name i)}"
    using sub mset_eq_setD [OF res(1)] by simp
  then have "sorted_wrt (item_before (fe_sort_desc fe)) (qs ?c (fe_items fe))"
    using res(2) by (elim sorted_wrt_mono_rel [rotated])
      (auto simp: subset_iff item_compare_key simp flip: item_cmp_le)
  with res(1) show ?thesis by (simp add: sort_items_def)
qed

definition sample_item :: "frontend_item_kind \<Rightarrow> string \<Rightarrow> string \<Rightarrow> frontend_item" where
  "sample_item k n p = \<lparr>it_name = n, it_meta = [], it_path = p, it_core = [], it_kind = k, it_action = ACTION_NONE\<rparr>"

theorem sort_items_ordered_witness:
  "let fe = zero_frontend\<lparr>fe_items := [sample_item ITEM_GAME ''rom10'' ''/a'', sample_item ITEM_GAME ''Rom9'' ''/b'',
              sample_item ITEM_DIR ''Sub'' ''/c'', sample_item ITEM_DIR ''up'' []]\<rparr>
   in map it_name (fe_items (sort_items insertion_sort fe)) = [''up'', ''Sub'', ''Rom9'', ''rom10''] \<and>
      sorted_wrt (item_before False) (fe_items (sort_items insertion_sort fe))"
proof -
  let ?fe = "zero_frontend\<lparr>fe_items := [sample_item ITEM_GAME ''rom10'' ''/a'', sample_item ITEM_GAME ''Rom9'' ''/b'',
              sample_item ITEM_DIR ''Sub'' ''/c'', sample_item ITEM_DIR ''up'' []]\<rparr>"
  have ok: "list_all (\<lambda>i. cstr_ok (it_name i)) (fe_items ?fe)" by (simp add: sample_item_def)
  have "map it_name (fe_items (sort_items insertion_sort ?fe)) = [''up'', ''Sub'', ''Rom9'', ''rom10'']" by code_simp
  moreover have "fe_sort_desc ?fe = False" by (simp add: zero_frontend_def)
  ultimately show ?thesis
    using sort_items_ordered [OF insertion_sort_contract ok] by (simp only: Let_def)
qed

text \<open>
  C19. Whatever items a view adds to a cleared list, in any order and however often, the list never
  exceeds its 8192 places, every text fits its field, and no file or directory is listed twice (for
  paths that fit the path field); and wherever the selection was when the view was left, returning
  to it puts the selection on an existing row inside the eight visible rows, without wrapping.
\<close>

theorem item_list_invariant:
  assumes "list_all (\<lambda>r. length (request_path r) < 256) rs"
  shows "items_ok (add_requests rs (reset_items fe title)) \<and>
     selection_ok (restore_view_selection (add_requests rs (reset_items fe title)) selected scroll)"
proof -
  have "items_ok (reset_items fe title)" by (simp add: items_ok_def reset_items_def listed_paths_def)
  then have ok: "items_ok (add_requests rs (reset_items fe title))" using assms by (rule add_requests_ok)
  then have "length (fe_items (add_requests rs (reset_items fe title))) \<le> FRONTEND_MAX_ITEMS"
    by (simp add: items_ok_def)
  with ok restore_selection_ok show ?thesis by blast
qed

theorem item_list_invariant_witness:
  "let fe = add_requests [(Some ''a'', None, ITEM_GAME, Some ''/x'', None), (Some ''b'', None, ITEM_GAME, Some ''/x'', None)]
         (reset_items zero_frontend None)
   in length (fe_items fe) = 1 \<and> items_ok fe \<and> selection_ok (restore_view_selection fe 7 99)"
proof -
  let ?rs = "[(Some ''a'', None, ITEM_GAME, Some ''/x'', None), (Some ''b'', None, ITEM_GAME, Some ''/x'', None)]"
  have "list_all (\<lambda>r. length (request_path r) < 256) ?rs" by (simp add: request_path_def optional_def)
  moreover have "length (fe_items (add_requests ?rs (reset_items zero_frontend None))) = 1" by code_simp
  ultimately show ?thesis using item_list_invariant by (simp add: Let_def)
qed

text \<open>
  The duplicate check compares the stored path, which is cut to 255 characters, with the whole new
  path, so a longer path is listed as often as it is added.
\<close>

lemma long_path_listed_twice:
  assumes "length p = 300"
  shows "length (fe_items (add_requests [(None, None, ITEM_GAME, Some p, None), (None, None, ITEM_GAME, Some p, None)]
           (reset_items fe title))) = 2"
proof -
  have "length (text_copy FRONTEND_MAX_PATH p) < 256"
    using tcp.copy_bound [of FRONTEND_MAX_PATH p] by (simp add: FRONTEND_MAX_PATH_def)
  with assms have "text_copy FRONTEND_MAX_PATH p \<noteq> p" by auto
  with assms show ?thesis
    by (auto simp: add_requests_def add_request_def add_item_def reset_items_def FRONTEND_MAX_ITEMS_def
        item_path_already_listed_def optional_def make_item_def Let_def)
qed

end
