(* ===== verification/UF_Trace.thy ===== *)
theory UF_Trace
  imports UF_Prelude
begin

text \<open>
  The boot trace: a log of at most 64 events in retained memory, written by the boot stage
  (\<open>boot_trace_note\<close> of \<open>apps/fastboot/src/stage1.c\<close>) and by the firmware
  (\<open>foundation/src/runtime/unifrog_boot_trace.c\<close>), and read back by the firmware.

  The memory behind the trace may hold anything after a power-up, so the record is arbitrary; the
  array of entries always has its 64 elements.  The state of the backlight pin that is stored
  with an event is read from three registers; these values are an argument.
\<close>

section \<open>Data\<close>

definition FASTBOOT_TRACE_MAGIC :: u32 where "FASTBOOT_TRACE_MAGIC = 0x55464254"
definition FASTBOOT_TRACE_VERSION :: u32 where "FASTBOOT_TRACE_VERSION = 1"
definition FASTBOOT_TRACE_ENTRIES :: nat where "FASTBOOT_TRACE_ENTRIES = 64"
definition FASTBOOT_BACKLIGHT_R05_MASK :: u32 where "FASTBOOT_BACKLIGHT_R05_MASK = 0x20"
definition FASTBOOT_TRACE_STAGE1_BOARD_DETECT :: u32 where "FASTBOOT_TRACE_STAGE1_BOARD_DETECT = 27"

record trace_entry =
  te_seq :: u32
  te_event :: u32
  te_arg0 :: u32
  te_arg1 :: u32
  te_arg2 :: u32
  te_r05_state :: u32

record boot_trace =
  tc_magic :: u32
  tc_version :: u32
  tc_count :: u32
  tc_dropped :: u32
  tc_entries :: "trace_entry list"
  tc_stores :: "(nat \<times> nat) list"

text \<open>
  \<open>tc_stores\<close> is not part of the record in memory: it logs the stores that the writers make to it,
  each as an offset from the start of the record and a number of bytes.  The list \<open>tc_entries\<close> cannot
  show a store past the end of the array, the log does.  The structure has four words and then the
  entries of six words each.
\<close>

definition log_trace :: "(nat \<times> nat) list \<Rightarrow> boot_trace \<Rightarrow> boot_trace" where
  "log_trace xs t = t\<lparr>tc_stores := tc_stores t @ xs\<rparr>"

text \<open>The registers of the backlight pin: its multiplexer byte, direction and output.\<close>

type_synonym r05_regs = "u8 \<times> u32 \<times> u32"

section \<open>Operations\<close>

definition unifrog_boot_trace_r05_state :: "r05_regs \<Rightarrow> u32" where
  "unifrog_boot_trace_r05_state r = (case r of (mux, dir, out) \<Rightarrow>
     let state = ucast mux;
         state = (if dir AND FASTBOOT_BACKLIGHT_R05_MASK \<noteq> 0 then state OR 0x100 else state)
     in if out AND FASTBOOT_BACKLIGHT_R05_MASK \<noteq> 0 then state OR 0x200 else state)"

definition trace_magic_ok :: "boot_trace \<Rightarrow> bool" where
  "trace_magic_ok t \<longleftrightarrow> tc_magic t = FASTBOOT_TRACE_MAGIC \<and> tc_version t = FASTBOOT_TRACE_VERSION"

definition zero_entry :: trace_entry where
  "zero_entry = \<lparr>te_seq = 0, te_event = 0, te_arg0 = 0, te_arg1 = 0, te_arg2 = 0, te_r05_state = 0\<rparr>"

definition boot_trace_reset :: "boot_trace \<Rightarrow> boot_trace" where
  "boot_trace_reset t = log_trace ([(0, 4), (4, 4), (8, 4), (12, 4)] @
       map (\<lambda>i. (16 + 24 * i, 24)) [0..<FASTBOOT_TRACE_ENTRIES])
     (t\<lparr>tc_magic := FASTBOOT_TRACE_MAGIC, tc_version := FASTBOOT_TRACE_VERSION, tc_count := 0,
       tc_dropped := 0, tc_entries := replicate FASTBOOT_TRACE_ENTRIES zero_entry\<rparr>)"

text \<open>The common tail of both writers: count a dropped event or store it in the next place.\<close>

definition trace_store :: "u32 \<Rightarrow> u32 \<Rightarrow> u32 \<Rightarrow> u32 \<Rightarrow> u32 \<Rightarrow> boot_trace \<Rightarrow> boot_trace" where
  "trace_store event arg0 arg1 arg2 r05 t =
     (if unat (tc_count t) \<ge> FASTBOOT_TRACE_ENTRIES
      then log_trace [(12, 4)] (t\<lparr>tc_dropped := tc_dropped t + 1\<rparr>)
      else log_trace [(8, 4), (16 + 24 * unat (tc_count t), 24)]
             (t\<lparr>tc_count := tc_count t + 1,
               tc_entries := (tc_entries t)[unat (tc_count t) := \<lparr>te_seq = tc_count t, te_event = event,
                 te_arg0 = arg0, te_arg1 = arg1, te_arg2 = arg2, te_r05_state = r05\<rparr>]\<rparr>))"

definition boot_trace_note :: "u32 \<Rightarrow> u32 \<Rightarrow> u32 \<Rightarrow> u32 \<Rightarrow> u32 \<Rightarrow> boot_trace \<Rightarrow> boot_trace" where
  "boot_trace_note event arg0 arg1 arg2 r05 t =
     (let t = (if \<not> trace_magic_ok t then boot_trace_reset t else t)
      in trace_store event arg0 arg1 arg2 r05 t)"

text \<open>The firmware keeps beside the trace how many of its entries it has logged.\<close>

definition unifrog_boot_trace_mark ::
  "u32 \<Rightarrow> u32 \<Rightarrow> u32 \<Rightarrow> u32 \<Rightarrow> r05_regs \<Rightarrow> boot_trace \<times> u32 \<Rightarrow> boot_trace \<times> u32"
where
  "unifrog_boot_trace_mark event arg0 arg1 arg2 regs s = (case s of (t, logged) \<Rightarrow>
     let (t, logged) = (if \<not> trace_magic_ok t
           then (log_trace [(0, 4), (4, 4), (8, 4), (12, 4)]
                   (t\<lparr>tc_magic := FASTBOOT_TRACE_MAGIC, tc_version := FASTBOOT_TRACE_VERSION, tc_count := 0,
                     tc_dropped := 0\<rparr>), 0)
           else (t, logged))
     in (trace_store event arg0 arg1 arg2 (unifrog_boot_trace_r05_state regs) t, logged))"

definition boot_trace_names :: "(u32 \<times> string) list" where
  "boot_trace_names =
    [(1, ''fastboot.stub.backlight_off''), (10, ''fastboot.stage1.start''),
     (11, ''fastboot.stage1.backlight_off''), (12, ''fastboot.stage1.mount_result''),
     (13, ''fastboot.stage1.handoff_result''), (14, ''fastboot.stage1.load_start''),
     (15, ''fastboot.stage1.load_done''), (16, ''fastboot.stage1.asd_start''),
     (17, ''fastboot.stage1.asd_done''), (18, ''fastboot.stage1.jump''),
     (19, ''fastboot.stage1.fail''), (20, ''fastboot.stage1.input_override''),
     (21, ''fastboot.stage1.default_result''), (22, ''fastboot.stage1.hw_gpio_l''),
     (23, ''fastboot.stage1.hw_gpio_r''), (24, ''fastboot.stage1.hw_pinmux''),
     (25, ''fastboot.stage1.input_sf2000_raw''), (26, ''fastboot.stage1.input_gb300_raw''),
     (27, ''fastboot.stage1.board_detect''), (100, ''unifrog.main.start''),
     (101, ''unifrog.app_main.start''), (102, ''unifrog.module_init.begin''),
     (103, ''unifrog.module_init.done''), (104, ''unifrog.frontend_thread.start''),
     (105, ''unifrog.board_init.begin''), (106, ''unifrog.board_init.done''),
     (107, ''unifrog.storage.done''), (108, ''unifrog.log_reset.done''),
     (109, ''unifrog.frontend.begin''), (110, ''unifrog.fb_open.begin''),
     (111, ''unifrog.fb_clear.done''), (112, ''unifrog.boot_logo.done''),
     (128, ''unifrog.input.local_done''), (129, ''unifrog.input.wireless_done''),
     (130, ''unifrog.input.clear_done''), (135, ''unifrog.ge.open_done''),
     (136, ''unifrog.ge.fill_setup''), (137, ''unifrog.ge.state_done''),
     (138, ''unifrog.ge.submit_begin''), (139, ''unifrog.ge.submit_done''),
     (140, ''unifrog.ge.clock''), (113, ''unifrog.source_mmc.bootstrap_begin''),
     (114, ''unifrog.source_mmc.bootstrap_done''),
     (115, ''unifrog.source_mmc.driver_register_done''),
     (116, ''unifrog.source_mmc.device_register_begin''),
     (117, ''unifrog.source_mmc.device_register_done''), (118, ''unifrog.source_mmc.probe_begin''),
     (119, ''unifrog.source_mmc.probe_done''), (200, ''sdk.pwm.probe_begin''),
     (201, ''sdk.pwm.pinmux_active''), (202, ''sdk.pwm.register_done''),
     (210, ''sdk.backlight.probe_begin''), (211, ''sdk.backlight.default_off''),
     (212, ''sdk.backlight.pwm_duty''), (213, ''sdk.backlight.gpio_status''),
     (214, ''sdk.backlight.write''), (220, ''sdk.lcd.probe_begin''),
     (221, ''sdk.lcd.display_begin''), (222, ''sdk.lcd.reset_done''),
     (223, ''sdk.lcd.panel_probe_done''), (224, ''sdk.lcd.init_seq_done''),
     (225, ''sdk.lcd.dispon''), (226, ''sdk.lcd.rgb_on''), (240, ''sdk.fb.probe_begin''),
     (241, ''sdk.fb.alloc_done''), (242, ''sdk.fb.register_done''), (243, ''sdk.fb.gma_off'')]"

definition boot_trace_name :: "u32 \<Rightarrow> string" where
  "boot_trace_name event = (case map_of boot_trace_names event of Some s \<Rightarrow> s | None \<Rightarrow> ''unknown'')"

definition trace_visible :: "boot_trace \<Rightarrow> u32" where
  "trace_visible t = (if unat (tc_count t) > FASTBOOT_TRACE_ENTRIES then word_of_nat FASTBOOT_TRACE_ENTRIES
     else tc_count t)"

fun find_event :: "u32 \<Rightarrow> trace_entry list \<Rightarrow> trace_entry option" where
  "find_event ev [] = None"
| "find_event ev (e # es) = (if te_event e \<noteq> ev then find_event ev es else Some e)"

definition unifrog_boot_trace_fastboot_board :: "boot_trace \<Rightarrow> (u32 \<times> u32 \<times> u32) option" where
  "unifrog_boot_trace_fastboot_board t =
     (if \<not> trace_magic_ok t then None
      else map_option (\<lambda>e. (te_arg0 e, te_arg1 e, te_arg2 e))
        (find_event FASTBOOT_TRACE_STAGE1_BOARD_DETECT (take (unat (trace_visible t)) (tc_entries t))))"

text \<open>The entries that a call of \<open>unifrog_boot_trace_log\<close> writes to the log, with their names.\<close>

definition unifrog_boot_trace_log :: "boot_trace \<times> u32 \<Rightarrow> (boot_trace \<times> u32) \<times> (trace_entry \<times> string) list" where
  "unifrog_boot_trace_log s = (case s of (t, logged) \<Rightarrow>
     if \<not> trace_magic_ok t then (s, [])
     else if logged < trace_visible t
     then ((t, trace_visible t),
           map (\<lambda>e. (e, boot_trace_name (te_event e)))
             (drop (unat logged) (take (unat (trace_visible t)) (tc_entries t))))
     else (s, []))"

lemma log_trace_simps [simp]:
  "tc_magic (log_trace xs t) = tc_magic t" "tc_version (log_trace xs t) = tc_version t"
  "tc_count (log_trace xs t) = tc_count t" "tc_dropped (log_trace xs t) = tc_dropped t"
  "tc_entries (log_trace xs t) = tc_entries t" "tc_stores (log_trace xs t) = tc_stores t @ xs"
  by (simp_all add: log_trace_def)

text \<open>The boot stage's writer stays inside the record of \<open>16 + 64 * 24\<close> bytes, whatever the memory holds.\<close>

lemma boot_trace_note_stores:
  "\<exists>xs. tc_stores (boot_trace_note ev a b c r t) = tc_stores t @ xs \<and> list_all (\<lambda>(off, n). off + n \<le> 1552) xs"
proof -
  have store: "\<exists>xs. tc_stores (trace_store ev a b c r u) = tc_stores u @ xs \<and> list_all (\<lambda>(off, n). off + n \<le> 1552) xs"
    for u
    by (auto simp: trace_store_def FASTBOOT_TRACE_ENTRIES_def)
  have "\<exists>xs. tc_stores (boot_trace_reset t) = tc_stores t @ xs \<and> list_all (\<lambda>(off, n). off + n \<le> 1552) xs"
    by (auto simp: boot_trace_reset_def FASTBOOT_TRACE_ENTRIES_def list_all_iff)
  with store [of t] store [of "boot_trace_reset t"] show ?thesis
    by (fastforce simp: boot_trace_note_def)
qed

section \<open>The recorded events\<close>

definition trace_wf :: "boot_trace \<Rightarrow> bool" where
  "trace_wf t \<longleftrightarrow> length (tc_entries t) = FASTBOOT_TRACE_ENTRIES"

text \<open>The events that a reader of the trace sees.\<close>

definition recorded :: "boot_trace \<Rightarrow> trace_entry list" where
  "recorded t = (if trace_magic_ok t then take (unat (tc_count t)) (tc_entries t) else [])"

type_synonym trace_event = "u32 \<times> u32 \<times> u32 \<times> u32 \<times> u32"

definition event_of :: "trace_entry \<Rightarrow> trace_event" where
  "event_of e = (te_event e, te_arg0 e, te_arg1 e, te_arg2 e, te_r05_state e)"

text \<open>
  The contract of a trace writer: it appends the event to what the trace holds, or leaves the
  trace as it is when it is full, and starts afresh when the memory does not hold a trace.
\<close>

locale trace_writer =
  fixes note_event :: "'e \<Rightarrow> boot_trace \<Rightarrow> boot_trace" and shown :: "'e \<Rightarrow> trace_event"
  assumes note_wf: "trace_wf t \<Longrightarrow> trace_wf (note_event e t) \<and> trace_magic_ok (note_event e t)"
    and note_events: "trace_wf t \<Longrightarrow> length (recorded t) < 64 \<Longrightarrow>
          map event_of (recorded (note_event e t)) = map event_of (recorded t) @ [shown e]"
    and note_full: "trace_wf t \<Longrightarrow> length (recorded t) = 64 \<Longrightarrow> recorded (note_event e t) = recorded t"
begin

lemma recorded_le: "trace_wf t \<Longrightarrow> length (recorded t) \<le> 64"
  by (simp add: recorded_def trace_wf_def FASTBOOT_TRACE_ENTRIES_def)

lemma note_all:
  "trace_wf t \<Longrightarrow> trace_wf (fold note_event es t) \<and>
     map event_of (recorded (fold note_event es t)) = take 64 (map event_of (recorded t) @ map shown es)"
proof (induction es arbitrary: t)
  case Nil
  then show ?case using recorded_le [of t] by simp
next
  case (Cons e es)
  from Cons.prems have wf: "trace_wf (note_event e t)" using note_wf by blast
  show ?case
  proof (cases "length (recorded t) < 64")
    case True
    with Cons.IH [OF wf] note_events [OF Cons.prems] show ?thesis by simp
  next
    case False
    then have len: "length (recorded t) = 64" using recorded_le [OF Cons.prems] by simp
    with Cons.IH [OF wf] note_full [OF Cons.prems len] show ?thesis by simp
  qed
qed

end

lemma recorded_store:
  assumes "trace_wf t" "trace_magic_ok t"
  shows "trace_wf (trace_store ev a b c r t) \<and> trace_magic_ok (trace_store ev a b c r t) \<and>
    (length (recorded t) < 64 \<longrightarrow> map event_of (recorded (trace_store ev a b c r t)) =
        map event_of (recorded t) @ [(ev, a, b, c, r)]) \<and>
    (length (recorded t) = 64 \<longrightarrow> recorded (trace_store ev a b c r t) = recorded t)"
proof (cases "unat (tc_count t) \<ge> 64")
  case True
  with assms show ?thesis
    by (auto simp: trace_store_def trace_wf_def trace_magic_ok_def recorded_def FASTBOOT_TRACE_ENTRIES_def)
next
  case False
  then have c: "unat (tc_count t) < 64" by simp
  then have "unat (tc_count t + 1) = Suc (unat (tc_count t))"
    using unat_add_lem [of "tc_count t" 1] by simp
  with c assms show ?thesis
    by (auto simp: trace_store_def trace_wf_def trace_magic_ok_def recorded_def FASTBOOT_TRACE_ENTRIES_def
        event_of_def take_Suc_conv_app_nth)
qed

definition stage1_note :: "trace_event \<Rightarrow> boot_trace \<Rightarrow> boot_trace" where
  "stage1_note e t = (case e of (ev, a, b, c, r) \<Rightarrow> boot_trace_note ev a b c r t)"

type_synonym firmware_event = "u32 \<times> u32 \<times> u32 \<times> u32 \<times> r05_regs"

definition firmware_mark :: "u32 \<Rightarrow> firmware_event \<Rightarrow> boot_trace \<Rightarrow> boot_trace" where
  "firmware_mark logged e t = (case e of (ev, a, b, c, regs) \<Rightarrow> fst (unifrog_boot_trace_mark ev a b c regs (t, logged)))"

definition firmware_shown :: "firmware_event \<Rightarrow> trace_event" where
  "firmware_shown e = (case e of (ev, a, b, c, regs) \<Rightarrow> (ev, a, b, c, unifrog_boot_trace_r05_state regs))"

lemma recorded_fresh: "\<not> trace_magic_ok t \<Longrightarrow> recorded t = []"
  by (simp add: recorded_def)

lemma reset_fresh:
  "trace_wf (boot_trace_reset t)" "trace_magic_ok (boot_trace_reset t)" "recorded (boot_trace_reset t) = []"
  by (simp_all add: boot_trace_reset_def trace_wf_def trace_magic_ok_def recorded_def)

interpretation stage1: trace_writer stage1_note "\<lambda>e. e"
proof
  fix t :: boot_trace and e :: trace_event
  assume wf: "trace_wf t"
  obtain ev a b c r where e: "e = (ev, a, b, c, r)" by (cases e) auto
  note st = recorded_store [OF wf, of ev a b c r]
    and fresh = recorded_store [OF reset_fresh(1,2), of ev a b c r t]
  show "trace_wf (stage1_note e t) \<and> trace_magic_ok (stage1_note e t)"
    using st fresh by (cases "trace_magic_ok t") (simp_all add: e stage1_note_def boot_trace_note_def)
  show "map event_of (recorded (stage1_note e t)) = map event_of (recorded t) @ [e]" if "length (recorded t) < 64"
    using st fresh that
    by (cases "trace_magic_ok t") (simp_all add: e stage1_note_def boot_trace_note_def reset_fresh recorded_fresh)
  show "recorded (stage1_note e t) = recorded t" if "length (recorded t) = 64"
    using st that by (cases "trace_magic_ok t") (simp_all add: e stage1_note_def boot_trace_note_def recorded_fresh)
qed

interpretation firmware: trace_writer "firmware_mark logged" firmware_shown
proof
  fix t :: boot_trace and e :: firmware_event
  assume wf: "trace_wf t"
  obtain ev a b c regs where e: "e = (ev, a, b, c, regs)" by (cases e) auto
  let ?t = "log_trace [(0, 4), (4, 4), (8, 4), (12, 4)]
    (t\<lparr>tc_magic := FASTBOOT_TRACE_MAGIC, tc_version := FASTBOOT_TRACE_VERSION, tc_count := 0, tc_dropped := 0\<rparr>)"
  let ?r = "unifrog_boot_trace_r05_state regs"
  have new: "trace_wf ?t" "trace_magic_ok ?t" "recorded ?t = []"
    using wf by (simp_all add: trace_wf_def trace_magic_ok_def recorded_def)
  note st = recorded_store [OF wf, of ev a b c ?r]
    and fresh = recorded_store [OF new(1,2), of ev a b c ?r]
  show "trace_wf (firmware_mark logged e t) \<and> trace_magic_ok (firmware_mark logged e t)"
    using st fresh by (cases "trace_magic_ok t") (simp_all add: e firmware_mark_def unifrog_boot_trace_mark_def)
  show "map event_of (recorded (firmware_mark logged e t)) = map event_of (recorded t) @ [firmware_shown e]"
    if "length (recorded t) < 64"
    using st fresh that
    by (cases "trace_magic_ok t")
      (simp_all add: e firmware_mark_def unifrog_boot_trace_mark_def new recorded_fresh firmware_shown_def)
  show "recorded (firmware_mark logged e t) = recorded t" if "length (recorded t) = 64"
    using st that
    by (cases "trace_magic_ok t") (simp_all add: e firmware_mark_def unifrog_boot_trace_mark_def recorded_fresh)
qed

lemma visible_entries:
  "trace_wf t \<Longrightarrow> trace_magic_ok t \<Longrightarrow> take (unat (trace_visible t)) (tc_entries t) = recorded t"
  by (auto simp: trace_visible_def recorded_def trace_wf_def FASTBOOT_TRACE_ENTRIES_def)

lemma find_event_find: "find_event ev es = find (\<lambda>e. te_event e = ev) es"
  by (induction es) auto

lemma find_event_of:
  "map_option event_of (find (\<lambda>e. te_event e = ev) es) = find (\<lambda>x. fst x = ev) (map event_of es)"
  by (induction es) (auto simp: event_of_def)

section \<open>Properties\<close>

text \<open>
  The boot trace survives the change of program: whatever the retained memory held, after the
  boot stage noted its events and the firmware marked its own, the trace holds exactly the events
  that were there, followed by the boot stage's and the firmware's in order, cut to the first 64;
  and the board that the firmware looks up is the one of the first board detection among them.
\<close>

lemma boot_trace_events:
  assumes "trace_wf t"
  shows "let t' = fold (firmware_mark logged) fs (fold stage1_note es t);
             all = take 64 (map event_of (recorded t) @ es @ map firmware_shown fs)
         in trace_wf t' \<and> map event_of (recorded t') = all \<and>
            (fs = [] \<and> es = [] \<or> unifrog_boot_trace_fastboot_board t' =
              map_option (\<lambda>(ev, a, b, c, r). (a, b, c))
                (find (\<lambda>x. fst x = FASTBOOT_TRACE_STAGE1_BOARD_DETECT) all))"
proof -
  let ?s = "fold stage1_note es t" let ?t = "fold (firmware_mark logged) fs ?s"
  have s: "trace_wf ?s" "map event_of (recorded ?s) = take 64 (map event_of (recorded t) @ es)"
    using stage1.note_all [OF assms, of es] by simp_all
  have u: "trace_wf ?t" "map event_of (recorded ?t) = take 64 (map event_of (recorded ?s) @ map firmware_shown fs)"
    using firmware.note_all [OF s(1), of logged fs] by simp_all
  have "take 64 (take 64 (xs @ ys) @ zs) = take 64 (xs @ ys @ zs)" for xs ys zs :: "trace_event list"
    by (cases "length (xs @ ys) < 64") (auto simp: min_def)
  with u s have rec: "map event_of (recorded ?t) = take 64 (map event_of (recorded t) @ es @ map firmware_shown fs)"
    by metis
  have "trace_magic_ok ?t" if "\<not> (fs = [] \<and> es = [])"
  proof (cases fs rule: rev_cases)
    case Nil
    with that obtain es' e where "es = es' @ [e]" by (cases es rule: rev_cases) auto
    with Nil show ?thesis
      using stage1.note_wf [of "fold stage1_note es' t" e] stage1.note_all [OF assms, of es'] by simp
  next
    case (snoc fs' f)
    then show ?thesis
      using firmware.note_wf [of "fold (firmware_mark logged) fs' ?s" logged f] firmware.note_all [OF s(1), of logged fs']
      by simp
  qed
  moreover have "unifrog_boot_trace_fastboot_board ?t = map_option (\<lambda>(ev, a, b, c, r). (a, b, c))
      (find (\<lambda>x. fst x = FASTBOOT_TRACE_STAGE1_BOARD_DETECT) (map event_of (recorded ?t)))" if "trace_magic_ok ?t"
    using that visible_entries [OF u(1) that]
    by (simp add: unifrog_boot_trace_fastboot_board_def find_event_find find_event_of [symmetric] option.map_comp
        o_def event_of_def)
  ultimately show ?thesis using rec u(1) by (auto simp: Let_def)
qed

lemma boot_trace_events_witness:
  "let t = \<lparr>tc_magic = 7, tc_version = 9, tc_count = 99, tc_dropped = 1, tc_entries = replicate 64 zero_entry, tc_stores = []\<rparr>
   in trace_wf t \<and> map event_of (recorded (fold stage1_note [(10, 1, 2, 3, 0), (27, 2, 4, 6, 0)] t)) =
        [(10, 1, 2, 3, 0), (27, 2, 4, 6, 0)] \<and>
      unifrog_boot_trace_fastboot_board (fold stage1_note [(10, 1, 2, 3, 0), (27, 2, 4, 6, 0)] t) = Some (2, 4, 6)"
proof -
  let ?t = "\<lparr>tc_magic = 7, tc_version = 9, tc_count = 99, tc_dropped = 1, tc_entries = replicate 64 zero_entry, tc_stores = []\<rparr>"
  have wf: "trace_wf ?t" by (simp add: trace_wf_def FASTBOOT_TRACE_ENTRIES_def)
  have old: "recorded ?t = []" by (simp add: recorded_def trace_magic_ok_def FASTBOOT_TRACE_MAGIC_def)
  show ?thesis
    using boot_trace_events [OF wf, of 0 "[]" "[(10, 1, 2, 3, 0), (27, 2, 4, 6, 0)]"] wf old
    by (simp only: Let_def) (simp add: FASTBOOT_TRACE_STAGE1_BOARD_DETECT_def)
qed

text \<open>
  The firmware writes every entry of the trace to its log once: a second call writes only what was
  added in between.
\<close>

lemma boot_trace_logged_once:
  assumes wf: "trace_wf t" and m: "trace_magic_ok t" and old: "unat logged \<le> length (recorded t)"
  shows "map fst (snd (unifrog_boot_trace_log (t, logged))) = drop (unat logged) (recorded t) \<and>
    snd (unifrog_boot_trace_log (fst (unifrog_boot_trace_log (t, logged)))) = []"
proof -
  have len: "unat (trace_visible t) = length (recorded t)"
    using wf m by (auto simp: trace_visible_def recorded_def trace_wf_def FASTBOOT_TRACE_ENTRIES_def min_def)
  show ?thesis
    using len old m visible_entries [OF wf m]
    by (auto simp: unifrog_boot_trace_log_def word_less_nat_alt o_def)
qed

end
