(* ===== verification/UF_Mem.thy ===== *)
theory UF_Mem
  imports UF_Prelude
begin

text \<open>
  The byte-addressed memory of the target, for the code that loads programs into it: the boot
  stage and the core module loader.  A block of at most \<open>2\<^sup>3\<^sup>2\<close> bytes starts at an address and wraps
  around at the end of the address space.
\<close>

type_synonym memory = "u32 \<Rightarrow> u8"

definition mem_write :: "u32 \<Rightarrow> bytes \<Rightarrow> memory \<Rightarrow> memory" where
  "mem_write a bs m = (\<lambda>x. if unat (x - a) < length bs then bs ! unat (x - a) else m x)"

definition mem_read :: "u32 \<Rightarrow> nat \<Rightarrow> memory \<Rightarrow> bytes" where
  "mem_read a n m = map (\<lambda>i. m (a + word_of_nat i)) [0..<n]"

text \<open>Two memories agree outside the addresses from \<open>lo\<close> up to, not including, \<open>hi\<close>.\<close>

definition same_outside :: "nat \<Rightarrow> nat \<Rightarrow> memory \<Rightarrow> memory \<Rightarrow> bool" where
  "same_outside lo hi m m' \<longleftrightarrow> (\<forall>x. unat x < lo \<or> hi \<le> unat x \<longrightarrow> m' x = m x)"

lemma same_outside_refl [simp]: "same_outside lo hi m m"
  by (simp add: same_outside_def)

lemma same_outside_trans: "same_outside lo hi m m' \<Longrightarrow> same_outside lo hi m' m'' \<Longrightarrow> same_outside lo hi m m''"
  by (simp add: same_outside_def)

lemma same_outside_weaken:
  "same_outside lo hi m m' \<Longrightarrow> lo' \<le> lo \<Longrightarrow> hi \<le> hi' \<Longrightarrow> same_outside lo' hi' m m'"
  by (simp add: same_outside_def)

lemma mem_write_Nil [simp]: "mem_write a [] m = m"
  by (simp add: mem_write_def)

lemma mem_read_length [simp]: "length (mem_read a n m) = n"
  by (simp add: mem_read_def)

lemma mem_read_0 [simp]: "mem_read a 0 m = []"
  by (simp add: mem_read_def)

lemma u32_bound: "unat (x :: u32) < 2 ^ 32"
  using unsigned_less [of x] by simp

lemma unat_offset: "unat a + i < 2 ^ 32 \<Longrightarrow> unat (a + word_of_nat i :: u32) = unat a + i"
  by (simp add: unat_word_ariths unsigned_of_nat take_bit_nat_def)

lemma unat_distance: "unat (x - a :: u32) = (if unat a \<le> unat x then unat x - unat a else unat x + 2 ^ 32 - unat a)"
  by (simp add: unat_sub_if')

lemma mem_write_outside:
  assumes "unat a + length bs \<le> 2 ^ 32" "lo \<le> unat a" "unat a + length bs \<le> hi"
  shows "same_outside lo hi m (mem_write a bs m)"
  using assms u32_bound [of a] by (auto simp: same_outside_def mem_write_def unat_distance)

lemma mem_write_at:
  assumes "unat a + length bs \<le> 2 ^ 32" "i < length bs"
  shows "mem_write a bs m (a + word_of_nat i) = bs ! i"
  using assms by (simp add: mem_write_def unsigned_of_nat take_bit_nat_eq_self)

lemma mem_write_frame:
  assumes "unat a + length bs \<le> 2 ^ 32" "unat x < unat a \<or> unat a + length bs \<le> unat x"
  shows "mem_write a bs m x = m x"
  using assms u32_bound [of a] by (auto simp: mem_write_def unat_distance)

lemma mem_read_write:
  assumes "unat a + length bs \<le> 2 ^ 32"
  shows "mem_read a (length bs) (mem_write a bs m) = bs"
  using assms by (auto simp: mem_read_def intro!: nth_equalityI mem_write_at)

text \<open>A block written in two parts.\<close>

lemma mem_write_append:
  assumes "unat a + length (bs @ cs) \<le> 2 ^ 32"
  shows "mem_write (a + word_of_nat (length bs)) cs (mem_write a bs m) = mem_write a (bs @ cs) m"
proof
  fix x
  show "mem_write (a + word_of_nat (length bs)) cs (mem_write a bs m) x = mem_write a (bs @ cs) m x"
  proof (cases "length cs = 0")
    case True
    then show ?thesis by (simp add: mem_write_def)
  next
    case False
    then have b: "unat (a + word_of_nat (length bs)) = unat a + length bs"
      using assms by (intro unat_offset) (cases cs; simp)
    show ?thesis
      using assms u32_bound [of x] u32_bound [of a]
      by (auto simp: mem_write_def unat_distance b nth_append)
  qed
qed

lemma mem_read_frame:
  assumes "unat a + n \<le> 2 ^ 32" "same_outside lo hi m m'" "unat a + n \<le> lo \<or> hi \<le> unat a"
  shows "mem_read a n m' = mem_read a n m"
proof -
  have "m' (a + word_of_nat i) = m (a + word_of_nat i)" if "i < n" for i
    using assms that unat_offset [of a i] by (auto simp: same_outside_def)
  then show ?thesis by (simp add: mem_read_def)
qed

lemma mem_read_drop:
  assumes "k \<le> n"
  shows "drop k (mem_read a n m) = mem_read (a + word_of_nat k) (n - k) m"
  by (rule nth_equalityI) (use assms in \<open>simp_all add: mem_read_def algebra_simps less_diff_conv\<close>)

end
