(* ===== verification/UF_Boot.thy ===== *)
theory UF_Boot
  imports UF_Text UF_Trace UF_Mem
begin

text \<open>
  The boot chain: the firmware's request to boot another image
  (\<open>foundation/src/platform/sf2000/unifrog_boot.c\<close>) and the boot stage that carries it out
  (\<open>apps/fastboot/src/stage1.c\<close>).  The two meet in the hand-off record in retained memory.

  The FAT file system of the boot ROM is not part of the sources.  It is the record \<open>rom\<close>: the
  results of mounting and opening, the size of an opened file, and the return code and bytes of
  each read, which may differ from call to call (the number of the call is the first argument).
  The keys, the GPIO inputs and the backlight registers are the record \<open>board\<close>.  The payload that
  is entered does not come back.

  The record \<open>stage\<close> has beside the state of the boot stage a log of the stores it makes: to the
  loading area, to its zeroed section, to the diagnosis and hand-off records and to its arrays on
  the stack (\<open>sg_stores\<close>), and to the boot trace (\<open>tc_stores\<close> of the trace).  Not in the log are the
  registers of the pins, assignments to single variables and what the routines of the boot ROM
  keep for themselves in the \<open>FATFS\<close> and \<open>FIL\<close> structures that they are given.
\<close>

section \<open>Addresses and records\<close>

definition FASTBOOT_CHUNK_ADDR :: u32 where "FASTBOOT_CHUNK_ADDR = 0x87fe0000"
definition FASTBOOT_STAGE1_ADDR :: u32 where "FASTBOOT_STAGE1_ADDR = 0x87ff7000"
definition FASTBOOT_STACK_ADDR :: u32 where "FASTBOOT_STACK_ADDR = 0x87fff000"
definition ENTRY_ADDR :: u32 where "ENTRY_ADDR = 0x80001000"
definition RAW_LOAD_ADDR :: u32 where "RAW_LOAD_ADDR = ENTRY_ADDR"
definition ASD_LOAD_ADDR :: u32 where "ASD_LOAD_ADDR = 0x80000200"
definition ASD_STAGE_ADDR :: u32 where "ASD_STAGE_ADDR = 0x87000000"
definition CHUNK_SIZE :: nat where "CHUNK_SIZE = 64 * 1024"
definition ASD_SKIP :: nat where "ASD_SKIP = 0x200"
definition RAW_LOAD_LIMIT :: nat where "RAW_LOAD_LIMIT = unat (FASTBOOT_CHUNK_ADDR - RAW_LOAD_ADDR)"
definition FASTBOOT_HANDOFF_PATH_BYTES :: nat where "FASTBOOT_HANDOFF_PATH_BYTES = 96"
definition FASTBOOT_HANDOFF_MAGIC :: u32 where "FASTBOOT_HANDOFF_MAGIC = 0x55464248"
definition FASTBOOT_TRACE_BASE :: u32 where "FASTBOOT_TRACE_BASE = 0x87fff780"
definition FASTBOOT_DIAG_BASE :: u32 where "FASTBOOT_DIAG_BASE = 0x87fffe00"
definition FASTBOOT_HANDOFF_BASE :: u32 where "FASTBOOT_HANDOFF_BASE = 0x87ffff00"
definition FASTBOOT_DIAG_MAGIC :: u32 where "FASTBOOT_DIAG_MAGIC = 0x55464244"
definition BOOT_ASD_CFG_PATH :: string where "BOOT_ASD_CFG_PATH = ''firmware/boot_asd.cfg''"
definition DEFAULT_ASD_CFG_READ_MAX :: nat where "DEFAULT_ASD_CFG_READ_MAX = FASTBOOT_HANDOFF_PATH_BYTES - 1"

record fastboot_handoff =
  ho_magic :: u32
  ho_path :: "char list"

record fastboot_diag =
  dg_magic :: u32
  dg_stage_addr :: u32
  dg_event :: u32
  dg_result :: u32
  dg_path :: string

text \<open>The key matrices: for each scan of a bus and each clocked bit, whether the data pin is high.\<close>

record board =
  bd_sf2000_pin :: "nat \<Rightarrow> nat \<Rightarrow> bool"
  bd_gb300_d0 :: "nat \<Rightarrow> nat \<Rightarrow> bool"
  bd_gb300_d1 :: "nat \<Rightarrow> nat \<Rightarrow> bool"
  bd_gpio_l :: "u32 \<times> u32 \<times> u32"
  bd_gpio_r :: "u32 \<times> u32 \<times> u32"
  bd_pinmux_l :: "nat \<Rightarrow> u8"
  bd_pinmux_r :: "nat \<Rightarrow> u8"

record rom =
  rom_mount :: u32
  rom_open :: "nat \<Rightarrow> string \<Rightarrow> u32"
  rom_size :: "string \<Rightarrow> u64"
  rom_read :: "nat \<Rightarrow> string \<Rightarrow> nat \<Rightarrow> nat \<Rightarrow> u32 \<times> bytes"

text \<open>
  A logged store: at an address of the memory, or into an array of the stack, given by the size of
  the array, the index of the first byte and the number of bytes.
\<close>

datatype store = At nat nat | Local nat nat nat

text \<open>\<open>sg_bss\<close> are the addresses that the linker gives to \<open>__bss_start\<close> and \<open>__bss_end\<close>.\<close>

record stage =
  sg_mem :: memory
  sg_calls :: nat
  sg_scans :: nat
  sg_file :: "string \<times> nat"
  sg_trace :: boot_trace
  sg_diag :: fastboot_diag
  sg_handoff :: fastboot_handoff
  sg_r05 :: r05_regs
  sg_last_sf2000 :: u32
  sg_last_gb300 :: u32
  sg_board :: u32
  sg_bss :: "u32 \<times> u32"
  sg_stores :: "store list"

definition log_stores :: "store list \<Rightarrow> stage \<Rightarrow> stage" where
  "log_stores xs s = s\<lparr>sg_stores := sg_stores s @ xs\<rparr>"

text \<open>All stores so far, those to the trace with their addresses.\<close>

definition stage_stores :: "stage \<Rightarrow> store list" where
  "stage_stores s = sg_stores s @ map (\<lambda>(off, n). At (unat FASTBOOT_TRACE_BASE + off) n) (tc_stores (sg_trace s))"

section \<open>Keys and board detection\<close>

definition FASTBOOT_SF2000_KEY_MASK :: u32 where "FASTBOOT_SF2000_KEY_MASK = push_bit 12 1 - 1"
definition FASTBOOT_GB300_KEY_MASK :: u32 where "FASTBOOT_GB300_KEY_MASK = push_bit 16 1 - 1"
definition FASTBOOT_SF2000_B_KEY_MASK :: u32 where "FASTBOOT_SF2000_B_KEY_MASK = push_bit 5 1"
definition FASTBOOT_GB300_B_KEY_MASK :: u32 where "FASTBOOT_GB300_B_KEY_MASK = push_bit 6 1"
definition FASTBOOT_BUTTON_SCAN_POLLS :: nat where "FASTBOOT_BUTTON_SCAN_POLLS = 3"
definition FASTBOOT_DEVICE_BOARD_UNKNOWN :: u32 where "FASTBOOT_DEVICE_BOARD_UNKNOWN = 0"
definition FASTBOOT_DEVICE_BOARD_SF2000 :: u32 where "FASTBOOT_DEVICE_BOARD_SF2000 = 1"
definition FASTBOOT_DEVICE_BOARD_GB300 :: u32 where "FASTBOOT_DEVICE_BOARD_GB300 = 2"

definition fastboot_scan_sf2000_keys :: "board \<Rightarrow> nat \<Rightarrow> u32" where
  "fastboot_scan_sf2000_keys b n =
     fold (\<lambda>i raw. if \<not> bd_sf2000_pin b n i then raw OR push_bit i 1 else raw) [0..<12] 0"

definition fastboot_scan_gb300_keys :: "board \<Rightarrow> nat \<Rightarrow> u32" where
  "fastboot_scan_gb300_keys b n =
     fold (\<lambda>i raw. if \<not> bd_gb300_d0 b n i \<or> \<not> bd_gb300_d1 b n i then raw OR push_bit i 1 else raw) [0..<16] 0"

definition fastboot_sanitize_sf2000_keys :: "u32 \<Rightarrow> u32" where
  "fastboot_sanitize_sf2000_keys keys =
     (let keys = keys AND FASTBOOT_SF2000_KEY_MASK
      in if keys = FASTBOOT_SF2000_KEY_MASK then 0 else keys AND FASTBOOT_SF2000_B_KEY_MASK)"

definition fastboot_sanitize_gb300_keys :: "u32 \<Rightarrow> u32" where
  "fastboot_sanitize_gb300_keys keys =
     (let keys = keys AND FASTBOOT_GB300_KEY_MASK
      in if keys = FASTBOOT_GB300_KEY_MASK then 0 else keys AND FASTBOOT_GB300_B_KEY_MASK)"

text \<open>The polls of one bus are combined with AND; every poll is one scan.\<close>

definition poll_keys :: "(nat \<Rightarrow> u32) \<Rightarrow> u32 \<Rightarrow> nat \<Rightarrow> u32" where
  "poll_keys scan every n = fold (\<lambda>i keys. keys AND scan (n + i)) [0..<FASTBOOT_BUTTON_SCAN_POLLS] every"

definition fastboot_scan_sf2000_b_key :: "board \<Rightarrow> stage \<Rightarrow> u32 \<times> stage" where
  "fastboot_scan_sf2000_b_key b s =
     (let keys = fastboot_sanitize_sf2000_keys
            (poll_keys (fastboot_scan_sf2000_keys b) FASTBOOT_SF2000_KEY_MASK (sg_scans s));
          s = s\<lparr>sg_scans := sg_scans s + FASTBOOT_BUTTON_SCAN_POLLS\<rparr>
      in if keys \<noteq> 0 then (keys, s\<lparr>sg_last_sf2000 := keys, sg_last_gb300 := 0\<rparr>) else (0, s))"

definition fastboot_scan_gb300_b_key :: "board \<Rightarrow> stage \<Rightarrow> u32 \<times> stage" where
  "fastboot_scan_gb300_b_key b s =
     (let keys = fastboot_sanitize_gb300_keys
            (poll_keys (fastboot_scan_gb300_keys b) FASTBOOT_GB300_KEY_MASK (sg_scans s));
          s = s\<lparr>sg_scans := sg_scans s + FASTBOOT_BUTTON_SCAN_POLLS\<rparr>
      in (keys, s\<lparr>sg_last_sf2000 := 0, sg_last_gb300 := keys\<rparr>))"

definition fastboot_scan_boot_cancel :: "board \<Rightarrow> stage \<Rightarrow> u32 \<times> stage" where
  "fastboot_scan_boot_cancel b s =
     (if sg_board s = FASTBOOT_DEVICE_BOARD_GB300
      then (let (key, s) = fastboot_scan_gb300_b_key b s
            in if key \<noteq> 0 then (key, s) else fastboot_scan_sf2000_b_key b s)
      else (let (key, s) = fastboot_scan_sf2000_b_key b s
            in if key \<noteq> 0 then (key, s) else fastboot_scan_gb300_b_key b s))"

section \<open>Backlight, trace and diagnosis\<close>

definition fastboot_backlight_off :: "stage \<Rightarrow> stage" where
  "fastboot_backlight_off s = (case sg_r05 s of (mux, dir, out) \<Rightarrow>
     s\<lparr>sg_r05 := (0, dir OR FASTBOOT_BACKLIGHT_R05_MASK, out OR FASTBOOT_BACKLIGHT_R05_MASK)\<rparr>)"

definition fastboot_backlight_state :: "stage \<Rightarrow> u32" where
  "fastboot_backlight_state s = unifrog_boot_trace_r05_state (sg_r05 s)"

fun path_hash_loop :: "string \<Rightarrow> u32 \<Rightarrow> u32" where
  "path_hash_loop [] hash = hash"
| "path_hash_loop (c # cs) hash = path_hash_loop cs ((hash XOR of_char c) * 16777619)"

definition trace_path_hash :: "string \<Rightarrow> u32" where
  "trace_path_hash path = path_hash_loop path 2166136261"

definition note_trace :: "u32 \<Rightarrow> u32 \<Rightarrow> u32 \<Rightarrow> u32 \<Rightarrow> stage \<Rightarrow> stage" where
  "note_trace event arg0 arg1 arg2 s =
     s\<lparr>sg_trace := boot_trace_note event arg0 arg1 arg2 (fastboot_backlight_state s) (sg_trace s)\<rparr>"

definition fastboot_pack4 :: "u32 \<Rightarrow> u32 \<Rightarrow> u32 \<Rightarrow> u32 \<Rightarrow> u32" where
  "fastboot_pack4 a b c d =
     (a AND 0xff) OR push_bit 8 (b AND 0xff) OR push_bit 16 (c AND 0xff) OR push_bit 24 (d AND 0xff)"

definition copy_diag_path :: "string \<Rightarrow> string" where
  "copy_diag_path path = take (FASTBOOT_HANDOFF_PATH_BYTES - 1) path"

definition write_diag :: "u32 \<Rightarrow> u32 \<Rightarrow> string \<Rightarrow> stage \<Rightarrow> stage" where
  "write_diag event result path s =
     log_stores [At (unat FASTBOOT_DIAG_BASE) 16, At (unat FASTBOOT_DIAG_BASE + 16) (length (copy_diag_path path) + 1)]
       (s\<lparr>sg_diag := \<lparr>dg_magic = FASTBOOT_DIAG_MAGIC, dg_stage_addr = FASTBOOT_STAGE1_ADDR, dg_event = event,
         dg_result = result, dg_path = copy_diag_path path\<rparr>\<rparr>)"

text \<open>The fingerprint of the hardware: what is traced of the pins, and the combined key scans.\<close>

definition fastboot_log_passive_hardware_fingerprint :: "board \<Rightarrow> stage \<Rightarrow> stage" where
  "fastboot_log_passive_hardware_fingerprint b s =
     (let l = (\<lambda>i. ucast (bd_pinmux_l b i)); r = (\<lambda>i. ucast (bd_pinmux_r b i));
          (li, lo, ld) = bd_gpio_l b; (ri, ro, rd) = bd_gpio_r b;
          s = note_trace 22 li lo ld s;
          s = note_trace 23 ri ro rd s
      in note_trace 24 (fastboot_pack4 (l 15) (l 23) (l 24) (l 25)) (fastboot_pack4 (l 26) (l 27) (l 28) (l 29))
           (fastboot_pack4 (r 5) (r 7) 0 0) s)"

record key_prints =
  kp_sf_and :: u32
  kp_sf_or :: u32
  kp_sf_last :: u32
  kp_gb_and :: u32
  kp_gb_or :: u32
  kp_gb_last :: u32

text \<open>AND, OR and last value of the masked polls of one bus.\<close>

definition bus_print :: "(nat \<Rightarrow> u32) \<Rightarrow> u32 \<Rightarrow> nat \<Rightarrow> u32 \<times> u32 \<times> u32" where
  "bus_print scan every n =
     fold (\<lambda>i (a, o', l). let v = scan (n + i) AND every in (a AND v, o' OR v, v))
       [0..<FASTBOOT_BUTTON_SCAN_POLLS] (every, 0, 0)"

definition fastboot_log_key_fingerprint :: "board \<Rightarrow> stage \<Rightarrow> key_prints \<times> stage" where
  "fastboot_log_key_fingerprint b s =
     (let (sa, so, sl) = bus_print (fastboot_scan_sf2000_keys b) FASTBOOT_SF2000_KEY_MASK (sg_scans s);
          (ga, go, gl) = bus_print (fastboot_scan_gb300_keys b) FASTBOOT_GB300_KEY_MASK
            (sg_scans s + FASTBOOT_BUTTON_SCAN_POLLS);
          s = s\<lparr>sg_scans := sg_scans s + 2 * FASTBOOT_BUTTON_SCAN_POLLS\<rparr>;
          s = note_trace 25 sa so sl s;
          s = note_trace 26 ga go gl s
      in (\<lparr>kp_sf_and = sa, kp_sf_or = so, kp_sf_last = sl, kp_gb_and = ga, kp_gb_or = go, kp_gb_last = gl\<rparr>, s))"

text \<open>The scores for the two boards and the marks that gave them.\<close>

definition board_scores :: "key_prints \<Rightarrow> u32 \<Rightarrow> u32 \<Rightarrow> u32 \<times> u32 \<times> u32" where
  "board_scores kp l_in r_in =
     (let (sf, gb, marks) =
            (if kp_gb_and kp = FASTBOOT_GB300_KEY_MASK \<and> kp_gb_or kp = FASTBOOT_GB300_KEY_MASK then (2, 0, 1)
             else if kp_gb_and kp = 0 \<and> kp_gb_or kp = 0 then (0, 2, 2)
             else if kp_gb_or kp \<noteq> FASTBOOT_GB300_KEY_MASK then (0, 1, 4) else (0, 0, 0));
          (sf, gb, marks) = (if l_in AND push_bit 27 1 \<noteq> 0 then (sf, gb + 1, marks OR 0x10)
             else (sf + 1, gb, marks OR 0x08))
      in if r_in AND push_bit 7 1 \<noteq> 0 then (sf + 1, gb, marks OR 0x20) else (sf, gb + 1, marks OR 0x40))"

definition board_decide :: "u32 \<Rightarrow> u32 \<Rightarrow> u32" where
  "board_decide sf gb =
     (if sf \<ge> 2 \<and> sf \<ge> gb + 2 then FASTBOOT_DEVICE_BOARD_SF2000
      else if gb \<ge> 2 \<and> gb \<ge> sf + 2 then FASTBOOT_DEVICE_BOARD_GB300
      else FASTBOOT_DEVICE_BOARD_UNKNOWN)"

definition fastboot_detect_board :: "key_prints \<Rightarrow> board \<Rightarrow> stage \<Rightarrow> stage" where
  "fastboot_detect_board kp b s =
     (let (sf, gb, marks) = board_scores kp (fst (bd_gpio_l b)) (fst (bd_gpio_r b));
          bd = board_decide sf gb
      in note_trace FASTBOOT_TRACE_STAGE1_BOARD_DETECT bd marks (push_bit 16 sf OR gb) (s\<lparr>sg_board := bd\<rparr>))"

section \<open>Loading files\<close>

text \<open>
  One call of \<open>rom_f_read\<close> into memory.  The bytes it delivers are stored at the destination and
  advance the position, also when it reports an error.
\<close>

definition rom_f_read :: "rom \<Rightarrow> u32 \<Rightarrow> nat \<Rightarrow> stage \<Rightarrow> (u32 \<times> nat) \<times> stage" where
  "rom_f_read rom dst len s =
     (let (path, pos) = sg_file s; (rc, bs) = rom_read rom (sg_calls s) path pos len
      in ((rc, length bs), log_stores [At (unat dst) (length bs)]
            (s\<lparr>sg_mem := mem_write dst bs (sg_mem s), sg_calls := sg_calls s + 1,
               sg_file := (path, pos + length bs)\<rparr>)))"

definition rom_f_open :: "rom \<Rightarrow> string \<Rightarrow> stage \<Rightarrow> u32 \<times> stage" where
  "rom_f_open rom path s =
     (rom_open rom (sg_calls s) path, s\<lparr>sg_calls := sg_calls s + 1, sg_file := (path, 0)\<rparr>)"

definition read_exact :: "rom \<Rightarrow> u32 \<Rightarrow> nat \<Rightarrow> stage \<Rightarrow> bool \<times> stage" where
  "read_exact rom dst len s =
     (let ((rc, got), s) = rom_f_read rom dst len s in (\<not> (rc \<noteq> 0 \<or> got \<noteq> len), s))"

function skip_bytes :: "rom \<Rightarrow> nat \<Rightarrow> stage \<Rightarrow> bool \<times> stage" where
  "skip_bytes rom n s =
     (if n = 0 then (True, s)
      else let want = (if n > CHUNK_SIZE then CHUNK_SIZE else n);
               (ok, s) = read_exact rom FASTBOOT_CHUNK_ADDR want s
           in if \<not> ok then (False, s) else skip_bytes rom (n - want) s)"
  by pat_completeness auto
termination
  by (relation "measure (\<lambda>(rom, n, s). n)") (auto simp: CHUNK_SIZE_def)

text \<open>\<open>total\<close> is the number of bytes loaded so far; the second result is the final number.\<close>

function read_stream_bounded :: "rom \<Rightarrow> u32 \<Rightarrow> nat \<Rightarrow> nat \<Rightarrow> stage \<Rightarrow> (bool \<times> nat) \<times> stage" where
  "read_stream_bounded rom load_addr max_size loaded s =
     (let room = max_size - loaded
      in if room = 0 then ((False, 0), s)
         else let want = (if room > CHUNK_SIZE then CHUNK_SIZE else room);
                  ((rc, got), s) = rom_f_read rom (load_addr + word_of_nat loaded) want s
              in if rc \<noteq> 0 then ((False, 0), s)
                 else if got = 0 then ((loaded \<noteq> 0, loaded), s)
                 else read_stream_bounded rom load_addr max_size (loaded + got) s)"
  by pat_completeness auto
termination
  by (relation "measure (\<lambda>(rom, a, m, l, s). m - l)") auto

function read_stream_exact_loop :: "rom \<Rightarrow> u32 \<Rightarrow> nat \<Rightarrow> stage \<Rightarrow> bool \<times> stage" where
  "read_stream_exact_loop rom dst remaining s =
     (if remaining = 0 then (True, s)
      else let want = (if remaining > CHUNK_SIZE then CHUNK_SIZE else remaining);
               (ok, s) = read_exact rom dst want s
           in if \<not> ok then (False, s)
              else read_stream_exact_loop rom (dst + word_of_nat want) (remaining - want) s)"
  by pat_completeness auto
termination
  by (relation "measure (\<lambda>(rom, d, n, s). n)") (auto simp: CHUNK_SIZE_def)

definition read_stream_exact :: "rom \<Rightarrow> u32 \<Rightarrow> nat \<Rightarrow> stage \<Rightarrow> bool \<times> stage" where
  "read_stream_exact rom load_addr n s =
     (let (ok, s) = read_stream_exact_loop rom load_addr n s in (ok \<and> n \<noteq> 0, s))"

declare skip_bytes.simps [simp del] read_stream_bounded.simps [simp del] read_stream_exact_loop.simps [simp del]

primrec copy_bytes :: "nat \<Rightarrow> u32 \<Rightarrow> u32 \<Rightarrow> memory \<Rightarrow> memory" where
  "copy_bytes 0 dst src m = m"
| "copy_bytes (Suc n) dst src m = copy_bytes n (dst + 1) (src + 1) (m(dst := m src))"

definition asd_size_ok :: "u64 \<Rightarrow> bool" where
  "asd_size_ok sz \<longleftrightarrow> \<not> (unat sz \<le> ASD_SKIP \<or> unat sz - ASD_SKIP > unat (FASTBOOT_CHUNK_ADDR - ASD_STAGE_ADDR))"

definition load_asd_staged :: "rom \<Rightarrow> string \<Rightarrow> stage \<Rightarrow> bool \<times> stage" where
  "load_asd_staged rom path s =
     (let h = trace_path_hash path;
          s = note_trace 16 h ASD_LOAD_ADDR 0 s;
          s = write_diag 20 0 path s;
          (rc, s) = rom_f_open rom path s
      in if rc \<noteq> 0 then (False, write_diag 21 rc path (note_trace 17 h rc 0 s))
         else if \<not> asd_size_ok (rom_size rom path)
         then (False, write_diag 22 (ucast (rom_size rom path)) path
                 (note_trace 17 h 22 (ucast (rom_size rom path)) s))
         else let payload_size = unat (rom_size rom path) - ASD_SKIP;
                  (ok, s) = skip_bytes rom ASD_SKIP s
              in if \<not> ok then (False, write_diag 23 (- 1) path (note_trace 17 h 23 0 s))
                 else let (ok, s) = read_stream_exact rom ASD_STAGE_ADDR payload_size s
                      in if \<not> ok then (False, write_diag 24 (- 1) path (note_trace 17 h 24 (- 1) s))
                         else let s = s\<lparr>sg_mem := copy_bytes payload_size ASD_LOAD_ADDR ASD_STAGE_ADDR (sg_mem s)\<rparr>;
                                  s = log_stores [At (unat ASD_LOAD_ADDR) payload_size] s;
                                  s = note_trace 17 h 0 (word_of_nat payload_size) s
                              in (True, write_diag 25 (word_of_nat payload_size) path s))"

definition load_file :: "rom \<Rightarrow> string \<Rightarrow> nat \<Rightarrow> u32 \<Rightarrow> stage \<Rightarrow> bool \<times> stage" where
  "load_file rom path skip load_addr s =
     (let h = trace_path_hash path;
          s = note_trace 14 h (word_of_nat skip) load_addr s;
          s = write_diag 10 0 path s;
          (rc, s) = rom_f_open rom path s
      in if rc \<noteq> 0 then (False, write_diag 11 rc path (note_trace 15 h rc 0 s))
         else let (ok, s) = (if skip \<noteq> 0 then skip_bytes rom skip s else (True, s))
              in if \<not> ok then (False, write_diag 12 (- 1) path (note_trace 15 h 12 0 s))
                 else if skip \<ge> RAW_LOAD_LIMIT
                 then (False, write_diag 15 (word_of_nat skip) path (note_trace 15 h 15 (word_of_nat skip) s))
                 else let ((ok, loaded), s) = read_stream_bounded rom load_addr (RAW_LOAD_LIMIT - skip) 0 s;
                          rc = (if ok then 0 else - 1);
                          s = note_trace 15 h rc (word_of_nat loaded) s
                      in (ok, write_diag (if ok then 13 else 14) rc path s))"

section \<open>Choosing the image\<close>

text \<open>The scan of the hand-off path: cut at white space, refused at a backslash or a colon.\<close>

definition fastboot_ascii_is_space :: "char \<Rightarrow> bool" where
  "fastboot_ascii_is_space c \<longleftrightarrow> c = CHR '' '' \<or> c = TAB \<or> c = CR \<or> c = LF"

fun handoff_scan :: "string \<Rightarrow> string option" where
  "handoff_scan [] = Some []"
| "handoff_scan (c # cs) =
     (if fastboot_ascii_is_space c then Some []
      else if c = BACKSLASH \<or> c = CHR '':'' then None
      else map_option (Cons c) (handoff_scan cs))"

text \<open>
  The hand-off is copied to an array of the stack with its NUL, the last byte of the array is set,
  the record is cleared, and a path that ends in white space is cut in the array.
\<close>

definition read_handoff_path :: "stage \<Rightarrow> string option \<times> stage" where
  "read_handoff_path s =
     (if ho_magic (sg_handoff s) \<noteq> FASTBOOT_HANDOFF_MAGIC then (None, s)
      else let path = c_str (take (FASTBOOT_HANDOFF_PATH_BYTES - 1) (ho_path (sg_handoff s)));
               s = log_stores [Local FASTBOOT_HANDOFF_PATH_BYTES 0 (min (FASTBOOT_HANDOFF_PATH_BYTES - 1) (length path + 1)),
                     Local FASTBOOT_HANDOFF_PATH_BYTES (FASTBOOT_HANDOFF_PATH_BYTES - 1) 1,
                     At (unat FASTBOOT_HANDOFF_BASE) 4, At (unat FASTBOOT_HANDOFF_BASE + 4) FASTBOOT_HANDOFF_PATH_BYTES]
                   (s\<lparr>sg_handoff := \<lparr>ho_magic = 0, ho_path = replicate FASTBOOT_HANDOFF_PATH_BYTES NUL\<rparr>\<rparr>)
           in case handoff_scan path of
                None \<Rightarrow> (None, s)
              | Some p \<Rightarrow>
                  let s = (if length p < length path then log_stores [Local FASTBOOT_HANDOFF_PATH_BYTES (length p) 1] s else s)
                  in if p = [] \<or> hd p = SLASH \<or> hd p = CHR ''.'' \<or> hd p = BACKSLASH then (None, s)
                     else (Some p, s))"

definition asd_suffix :: "string \<Rightarrow> bool" where
  "asd_suffix name = (let n = length name in
     name ! (n - 4) = CHR ''.'' \<and> (name ! (n - 3) = CHR ''a'' \<or> name ! (n - 3) = CHR ''A'') \<and>
     (name ! (n - 2) = CHR ''s'' \<or> name ! (n - 2) = CHR ''S'') \<and>
     (name ! (n - 1) = CHR ''d'' \<or> name ! (n - 1) = CHR ''D''))"

definition fastboot_ascii_ends_asd :: "string \<Rightarrow> bool" where
  "fastboot_ascii_ends_asd name = (if length name < 5 then False else asd_suffix name)"

fun valid_asd_loop :: "string \<Rightarrow> nat \<Rightarrow> bool \<Rightarrow> bool option" where
  "valid_asd_loop [] i component_start = Some component_start"
| "valid_asd_loop (c # cs) i component_start =
     (if i \<ge> DEFAULT_ASD_CFG_READ_MAX then None
      else if c = BACKSLASH \<or> c = CHR '':'' \<or> fastboot_ascii_is_space c then None
      else if c = SLASH then (if component_start then None else valid_asd_loop cs (i + 1) True)
      else if component_start \<and> c = CHR ''.'' then None
      else valid_asd_loop cs (i + 1) False)"

definition fastboot_valid_asd_path :: "string option \<Rightarrow> bool" where
  "fastboot_valid_asd_path path =
     (case path of None \<Rightarrow> False
      | Some p \<Rightarrow> if p = [] \<or> hd p = SLASH \<or> hd p = CHR ''.'' then False
          else (case valid_asd_loop p 0 True of None \<Rightarrow> False
                | Some component_start \<Rightarrow> \<not> component_start \<and> fastboot_ascii_ends_asd p))"

definition byte_char :: "u8 \<Rightarrow> char" where
  "byte_char b = char_of (unat b)"

definition trim_space :: "string \<Rightarrow> string" where
  "trim_space s = rev (dropWhile fastboot_ascii_is_space (rev (dropWhile fastboot_ascii_is_space s)))"

text \<open>
  The configuration is read into the array \<open>cfg\<close> of the stack, the trimmed path is copied to the
  caller's array; both get their NUL.
\<close>

definition read_default_asd_path :: "rom \<Rightarrow> stage \<Rightarrow> string option \<times> stage" where
  "read_default_asd_path rom s =
     (let (rc, s) = rom_f_open rom BOOT_ASD_CFG_PATH s
      in if rc \<noteq> 0 then (None, note_trace 21 (- 2) rc 0 s)
         else let (rc, bs) = rom_read rom (sg_calls s) BOOT_ASD_CFG_PATH 0 DEFAULT_ASD_CFG_READ_MAX;
                  s = log_stores [Local (DEFAULT_ASD_CFG_READ_MAX + 1) 0 (length bs)] (s\<lparr>sg_calls := sg_calls s + 1\<rparr>)
              in if rc \<noteq> 0 \<or> bs = [] then (None, note_trace 21 (- 3) rc (word_of_nat (length bs)) s)
                 else let s = log_stores [Local (DEFAULT_ASD_CFG_READ_MAX + 1) (length bs) 1] s;
                          text' = trim_space (map byte_char bs)
                      in if text' = [] \<or> length text' \<ge> FASTBOOT_HANDOFF_PATH_BYTES
                         then (None, note_trace 21 (- 4) (word_of_nat (length bs)) (word_of_nat (length text')) s)
                         else let s = log_stores [Local FASTBOOT_HANDOFF_PATH_BYTES 0 (length text'),
                                    Local FASTBOOT_HANDOFF_PATH_BYTES (length text') 1] s
                              in if \<not> fastboot_valid_asd_path (Some (c_str text'))
                                 then (None, note_trace 21 (- 5) (trace_path_hash (c_str text'))
                                        (word_of_nat (length text')) s)
                                 else (Some (c_str text'), s))"

datatype outcome = Jumped string | Stuck

definition jump_to_payload :: "string \<Rightarrow> stage \<Rightarrow> stage \<times> outcome" where
  "jump_to_payload path s =
     (let s = fastboot_backlight_off s;
          st = fastboot_backlight_state s;
          s = note_trace 18 (trace_path_hash path) ENTRY_ADDR st s
      in (write_diag 30 st path s, Jumped path))"

definition stage1_fail :: "stage \<Rightarrow> stage \<times> outcome" where
  "stage1_fail s = (write_diag 99 (- 1) [] (note_trace 19 0 0 0 s), Stuck)"

text \<open>The images tried when neither the hand-off nor the default gave one.\<close>

definition stage1_stock :: "rom \<Rightarrow> stage \<Rightarrow> stage \<times> outcome" where
  "stage1_stock rom s =
     (let (ok, s) = load_file rom ''unifrog/firmware/unifrog.bin'' 0 RAW_LOAD_ADDR s
      in if ok then jump_to_payload ''unifrog/firmware/unifrog.bin'' s
      else let (ok, s) = load_asd_staged rom ''stock.asd'' s
      in if ok then jump_to_payload ''stock.asd'' s
      else let (ok, s) = load_asd_staged rom ''bisrv_stock.asd'' s
      in if ok then jump_to_payload ''bisrv_stock.asd'' s
      else let (ok, s) = load_asd_staged rom ''stock/bisrv.asd'' s
      in if ok then jump_to_payload ''stock/bisrv.asd'' s
      else stage1_fail s)"

definition stage1_default :: "board \<Rightarrow> rom \<Rightarrow> stage \<Rightarrow> stage \<times> outcome" where
  "stage1_default b rom s =
     (let (keys, s) = fastboot_scan_boot_cancel b s
      in if keys \<noteq> 0 then stage1_stock rom (note_trace 20 keys (sg_last_sf2000 s) (sg_last_gb300 s) s)
         else case read_default_asd_path rom s of
                (None, s) \<Rightarrow> stage1_stock rom (note_trace 21 (- 1) 0 0 s)
              | (Some p, s) \<Rightarrow>
                  let s = note_trace 21 0 (trace_path_hash p) 0 s;
                      (ok, s) = load_asd_staged rom p s
                  in if ok then jump_to_payload p s
                     else stage1_stock rom (note_trace 21 (- 1) (trace_path_hash p) 0 s))"

text \<open>The variables of the boot stage that live in its zeroed section.\<close>

definition clear_bss :: "stage \<Rightarrow> stage" where
  "clear_bss s = log_stores [At (unat (fst (sg_bss s))) (unat (snd (sg_bss s)) - unat (fst (sg_bss s)))]
     (s\<lparr>sg_file := ([], 0), sg_last_sf2000 := 0, sg_last_gb300 := 0, sg_board := 0\<rparr>)"

definition stage1_start :: "board \<Rightarrow> stage \<Rightarrow> stage" where
  "stage1_start b s =
     (let s = clear_bss s;
          s = note_trace 10 FASTBOOT_STAGE1_ADDR 0 0 s;
          s = fastboot_log_passive_hardware_fingerprint b s;
          (kp, s) = fastboot_log_key_fingerprint b s;
          s = fastboot_detect_board kp b s;
          s = fastboot_backlight_off s;
          s = note_trace 11 (fastboot_backlight_state s) 0 0 s
      in write_diag 1 0 [] s)"

definition stage1_main :: "board \<Rightarrow> rom \<Rightarrow> stage \<Rightarrow> stage \<times> outcome" where
  "stage1_main b rom s =
     (let s = stage1_start b s;
          s = note_trace 12 (rom_mount rom) 0 0 s;
          s = write_diag 2 (rom_mount rom) [] s
      in if rom_mount rom \<noteq> 0 then stage1_fail s
         else case read_handoff_path s of
                (Some p, s) \<Rightarrow>
                  let s = note_trace 13 0 (trace_path_hash p) 0 s;
                      s = write_diag 3 0 p s;
                      (ok, s) = load_asd_staged rom p s
                  in if ok then jump_to_payload p (write_diag 4 0 p s) else stage1_default b rom s
              | (None, s) \<Rightarrow> stage1_default b rom (write_diag 5 (- 1) [] (note_trace 13 (- 1) 0 0 s)))"

section \<open>The request of the firmware\<close>

text \<open>
  \<open>boot_via_stage1_path\<close> up to the call of the boot stage: the image of the boot stage, which the
  build links into the firmware, is copied to its place and the hand-off is filled in.  \<open>None\<close> is
  the error return.
\<close>

definition pad_to :: "nat \<Rightarrow> string \<Rightarrow> char list" where
  "pad_to n s = s @ replicate (n - length s) NUL"

definition boot_via_stage1_path :: "bytes \<Rightarrow> string \<Rightarrow> stage \<Rightarrow> stage option" where
  "boot_via_stage1_path stage_image path s =
     (if length stage_image = 0 \<or> length stage_image > unat (FASTBOOT_STACK_ADDR - FASTBOOT_STAGE1_ADDR) then None
      else let s = s\<lparr>sg_mem := mem_write FASTBOOT_STAGE1_ADDR stage_image (sg_mem s)\<rparr>;
               s = s\<lparr>sg_handoff := \<lparr>ho_magic = FASTBOOT_HANDOFF_MAGIC,
                       ho_path = pad_to FASTBOOT_HANDOFF_PATH_BYTES
                         (text_copy FASTBOOT_HANDOFF_PATH_BYTES path)\<rparr>\<rparr>
           in Some (s\<lparr>sg_diag := \<lparr>dg_magic = FASTBOOT_DIAG_MAGIC, dg_stage_addr = FASTBOOT_STAGE1_ADDR,
                       dg_event = 102, dg_result = 0,
                       dg_path = text_copy FASTBOOT_HANDOFF_PATH_BYTES path\<rparr>\<rparr>))"

definition unifrog_boot_asd_path :: "bytes \<Rightarrow> string option \<Rightarrow> stage \<Rightarrow> stage option" where
  "unifrog_boot_asd_path stage_image path s =
     (if \<not> unifrog_boot_asd_path_supported path then None
      else boot_via_stage1_path stage_image (the path) s)"

definition unifrog_boot_reboot :: "stage \<Rightarrow> stage" where
  "unifrog_boot_reboot s = s\<lparr>sg_handoff := (sg_handoff s)\<lparr>ho_magic := 0\<rparr>, sg_diag := (sg_diag s)\<lparr>dg_magic := 0\<rparr>\<rparr>"

section \<open>A card\<close>

text \<open>A ROM that serves the same files at every call, the reads complete.\<close>

definition serving :: "(string \<Rightarrow> bytes) \<Rightarrow> rom" where
  "serving files = \<lparr>rom_mount = 0, rom_open = (\<lambda>n path. if files path = [] then 4 else 0),
     rom_size = (\<lambda>path. word_of_nat (length (files path))),
     rom_read = (\<lambda>n path pos len. (0, take len (drop pos (files path))))\<rparr>"

text \<open>A board with no key pressed and a memory after power-up, for concrete runs.\<close>

definition idle_board :: board where
  "idle_board = \<lparr>bd_sf2000_pin = (\<lambda>n i. True), bd_gb300_d0 = (\<lambda>n i. True), bd_gb300_d1 = (\<lambda>n i. True),
     bd_gpio_l = (0, 0, 0), bd_gpio_r = (0, 0, 0), bd_pinmux_l = (\<lambda>i. 0), bd_pinmux_r = (\<lambda>i. 0)\<rparr>"

definition cold_stage :: stage where
  "cold_stage = \<lparr>sg_mem = (\<lambda>a. 0), sg_calls = 0, sg_scans = 0, sg_file = ([], 0),
     sg_trace = \<lparr>tc_magic = 0, tc_version = 0, tc_count = 0, tc_dropped = 0,
       tc_entries = replicate FASTBOOT_TRACE_ENTRIES zero_entry, tc_stores = []\<rparr>,
     sg_diag = \<lparr>dg_magic = 0, dg_stage_addr = 0, dg_event = 0, dg_result = 0, dg_path = []\<rparr>,
     sg_handoff = \<lparr>ho_magic = 0, ho_path = replicate FASTBOOT_HANDOFF_PATH_BYTES NUL\<rparr>,
     sg_r05 = (0, 0, 0), sg_last_sf2000 = 0, sg_last_gb300 = 0, sg_board = 0,
     sg_bss = (0x87ff9000, 0x87ff9800), sg_stores = []\<rparr>"

section \<open>Where the boot stage stores\<close>

text \<open>
  Loading stays below the boot stage itself: its code, its stack and the retained records lie from
  \<open>0x87ff7000\<close> on.
\<close>

definition BOOT_LO :: nat where "BOOT_LO = 0x80000200"
definition BOOT_HI :: nat where "BOOT_HI = 0x87ff0000"

text \<open>
  The places the boot stage may store to, as numbers: the loading area, its zeroed section \<open>bss\<close>, the
  boot trace of \<open>0x610\<close> bytes, the diagnosis of \<open>0x70\<close> and the hand-off of \<open>0x64\<close> bytes, and its arrays on
  the stack.  Between them lie the crash records of the firmware at \<open>0x87fff700\<close>, \<open>0x87fffdc0\<close> and
  \<open>0x87fffe70\<close>.
\<close>

fun store_in_place :: "u32 \<times> u32 \<Rightarrow> store \<Rightarrow> bool" where
  "store_in_place bss (At a n) \<longleftrightarrow>
     0x80000200 \<le> a \<and> a + n \<le> 0x87ff0000 \<or>
     unat (fst bss) \<le> a \<and> a + n \<le> unat (snd bss) \<or>
     0x87fff780 \<le> a \<and> a + n \<le> 0x87fffd90 \<or>
     0x87fffe00 \<le> a \<and> a + n \<le> 0x87fffe70 \<or>
     0x87ffff00 \<le> a \<and> a + n \<le> 0x87ffff64"
| "store_in_place bss (Local len i n) \<longleftrightarrow> i + n \<le> len"

definition stores_ok :: "stage \<Rightarrow> bool" where
  "stores_ok s \<longleftrightarrow> unat (fst (sg_bss s)) \<le> unat (snd (sg_bss s)) \<and> list_all (store_in_place (sg_bss s)) (stage_stores s)"

definition in_bounds :: "stage \<Rightarrow> stage \<Rightarrow> bool" where
  "in_bounds s s' \<longleftrightarrow> same_outside BOOT_LO BOOT_HI (sg_mem s) (sg_mem s') \<and> sg_bss s' = sg_bss s \<and>
     (stores_ok s \<longrightarrow> stores_ok s')"

text \<open>What is documented of \<open>f_read\<close>: it delivers at most the number of bytes asked for.\<close>

definition rom_sane :: "rom \<Rightarrow> bool" where
  "rom_sane rom \<longleftrightarrow> (\<forall>n p pos len. length (snd (rom_read rom n p pos len)) \<le> len)"

lemmas boot_addrs = FASTBOOT_CHUNK_ADDR_def ASD_STAGE_ADDR_def ASD_LOAD_ADDR_def RAW_LOAD_ADDR_def ENTRY_ADDR_def
  BOOT_LO_def BOOT_HI_def CHUNK_SIZE_def ASD_SKIP_def FASTBOOT_STAGE1_ADDR_def FASTBOOT_STACK_ADDR_def

lemma in_bounds_refl [simp]: "in_bounds s s"
  by (simp add: in_bounds_def)

lemma in_bounds_trans [trans]: "in_bounds s t \<Longrightarrow> in_bounds t u \<Longrightarrow> in_bounds s u"
  unfolding in_bounds_def using same_outside_trans by metis

lemma log_stores_simps [simp]:
  "sg_mem (log_stores xs s) = sg_mem s" "sg_bss (log_stores xs s) = sg_bss s" "sg_trace (log_stores xs s) = sg_trace s"
  "sg_file (log_stores xs s) = sg_file s" "sg_handoff (log_stores xs s) = sg_handoff s"
  "sg_calls (log_stores xs s) = sg_calls s" "sg_stores (log_stores xs s) = sg_stores s @ xs"
  by (simp_all add: log_stores_def)

lemma sg_mem_simps [simp]:
  "sg_mem (note_trace e a b c s) = sg_mem s" "sg_mem (write_diag ev r p s) = sg_mem s"
  "sg_mem (fastboot_backlight_off s) = sg_mem s" "sg_mem (snd (rom_f_open rom p s)) = sg_mem s"
  by (simp_all add: note_trace_def write_diag_def fastboot_backlight_off_def rom_f_open_def split: prod.splits)

text \<open>The steps a state may take without leaving its bounds.\<close>

lemma in_bounds_same:
  assumes "in_bounds s t" "sg_mem u = sg_mem t" "sg_bss u = sg_bss t" "sg_stores u = sg_stores t" "sg_trace u = sg_trace t"
  shows "in_bounds s u"
  using assms by (auto simp: in_bounds_def stores_ok_def stage_stores_def)

lemma in_bounds_log:
  assumes "in_bounds s t" "list_all (store_in_place (sg_bss t)) xs"
  shows "in_bounds s (log_stores xs t)"
  using assms by (auto simp: in_bounds_def stores_ok_def stage_stores_def)

lemma in_bounds_note:
  assumes "in_bounds s t"
  shows "in_bounds s (note_trace e a b c t)"
proof -
  obtain xs where xs: "tc_stores (boot_trace_note e a b c (fastboot_backlight_state t) (sg_trace t)) = tc_stores (sg_trace t) @ xs"
      "list_all (\<lambda>(off, n). off + n \<le> 1552) xs"
    using boot_trace_note_stores by blast
  then have "list_all (store_in_place (sg_bss t)) (map (\<lambda>(off, n). At (unat FASTBOOT_TRACE_BASE + off) n) xs)"
    by (auto simp: list_all_iff FASTBOOT_TRACE_BASE_def)
  with xs(1) assms show ?thesis
    by (auto simp: in_bounds_def stores_ok_def stage_stores_def note_trace_def)
qed

lemma in_bounds_diag:
  assumes "in_bounds s t"
  shows "in_bounds s (write_diag ev r p t)"
proof -
  have "length (copy_diag_path p) \<le> 95" by (simp add: copy_diag_path_def FASTBOOT_HANDOFF_PATH_BYTES_def)
  then show ?thesis
    unfolding write_diag_def
    by (intro in_bounds_log in_bounds_same [OF assms]) (simp_all add: FASTBOOT_DIAG_BASE_def)
qed

lemma in_bounds_backlight: "in_bounds s t \<Longrightarrow> in_bounds s (fastboot_backlight_off t)"
  by (erule in_bounds_same) (simp_all add: fastboot_backlight_off_def split: prod.splits)

lemma in_bounds_jump: "in_bounds s t \<Longrightarrow> in_bounds s (fst (jump_to_payload p t))"
  by (simp add: jump_to_payload_def Let_def in_bounds_diag in_bounds_note in_bounds_backlight)

lemma stage1_fail_in_bounds: "in_bounds s t \<Longrightarrow> in_bounds s (fst (stage1_fail t))"
  by (simp add: stage1_fail_def in_bounds_diag in_bounds_note)

lemma in_bounds_open: "in_bounds s t \<Longrightarrow> rom_f_open rom p t = (rc, u) \<Longrightarrow> in_bounds s u"
  by (erule in_bounds_same) (auto simp: rom_f_open_def)

lemmas in_bounds_steps = in_bounds_note in_bounds_diag in_bounds_backlight in_bounds_jump stage1_fail_in_bounds

lemma rom_f_read_in_bounds:
  assumes "rom_sane rom" "rom_f_read rom dst len s = (r, s')"
    "BOOT_LO \<le> unat dst" "unat dst + len \<le> BOOT_HI"
  shows "in_bounds s s' \<and> snd r \<le> len"
proof -
  obtain path pos where f: "sg_file s = (path, pos)" by (cases "sg_file s")
  obtain rc bs where rd: "rom_read rom (sg_calls s) path pos len = (rc, bs)" by (cases "rom_read rom (sg_calls s) path pos len")
  have bs: "length bs \<le> len" using assms(1) rd unfolding rom_sane_def by (metis snd_conv)
  have "same_outside BOOT_LO BOOT_HI (sg_mem s) (mem_write dst bs (sg_mem s))"
    using assms(3,4) bs by (intro mem_write_outside) (auto simp: BOOT_HI_def)
  then have "in_bounds s (s\<lparr>sg_mem := mem_write dst bs (sg_mem s), sg_calls := sg_calls s + 1, sg_file := (path, pos + length bs)\<rparr>)"
    by (simp add: in_bounds_def stores_ok_def stage_stores_def)
  then have "in_bounds s (log_stores [At (unat dst) (length bs)]
      (s\<lparr>sg_mem := mem_write dst bs (sg_mem s), sg_calls := sg_calls s + 1, sg_file := (path, pos + length bs)\<rparr>))"
    by (rule in_bounds_log) (use assms(3,4) bs in \<open>simp add: BOOT_LO_def BOOT_HI_def\<close>)
  with assms(2) f rd bs show ?thesis by (auto simp: rom_f_read_def)
qed

lemma read_exact_in_bounds:
  assumes "rom_sane rom" "read_exact rom dst len s = (ok, s')" "BOOT_LO \<le> unat dst" "unat dst + len \<le> BOOT_HI"
  shows "in_bounds s s'"
  using assms rom_f_read_in_bounds [of rom dst len s] by (auto simp: read_exact_def split: prod.splits)

lemma skip_bytes_in_bounds:
  "rom_sane rom \<Longrightarrow> skip_bytes rom n s = (ok, s') \<Longrightarrow> in_bounds s s'"
proof (induction rom n s arbitrary: ok s' rule: skip_bytes.induct)
  case (1 rom n s)
  let ?w = "if n > CHUNK_SIZE then CHUNK_SIZE else n"
  obtain ok1 s1 where rd: "read_exact rom FASTBOOT_CHUNK_ADDR ?w s = (ok1, s1)" by fastforce
  then have b: "in_bounds s s1" using 1(2) by (intro read_exact_in_bounds) (auto simp: boot_addrs)
  show ?case
  proof (cases "n \<noteq> 0 \<and> ok1")
    case True
    then have "skip_bytes rom (n - ?w) s1 = (ok, s')" using 1(3) rd by (subst (asm) skip_bytes.simps) simp
    with 1(1) [OF _ refl rd [symmetric]] 1(2) True b in_bounds_trans show ?thesis by blast
  next
    case False
    with 1(3) rd b show ?thesis by (subst (asm) skip_bytes.simps) (auto split: if_splits)
  qed
qed

lemma read_stream_exact_loop_in_bounds:
  "rom_sane rom \<Longrightarrow> read_stream_exact_loop rom dst n s = (ok, s') \<Longrightarrow> BOOT_LO \<le> unat dst \<Longrightarrow>
   unat dst + n \<le> BOOT_HI \<Longrightarrow> in_bounds s s'"
proof (induction rom dst n s arbitrary: ok s' rule: read_stream_exact_loop.induct)
  case (1 rom dst n s)
  let ?w = "if n > CHUNK_SIZE then CHUNK_SIZE else n"
  obtain ok1 s1 where rd: "read_exact rom dst ?w s = (ok1, s1)" by fastforce
  have w: "?w \<le> n" by simp
  then have "unat dst + ?w \<le> BOOT_HI" using 1(5) by linarith
  then have b: "in_bounds s s1" by (rule read_exact_in_bounds [OF 1(2) rd 1(4)])
  have off: "unat (dst + word_of_nat ?w) = unat dst + ?w"
    by (rule unat_offset) (use 1(5) w in \<open>simp add: BOOT_HI_def\<close>)
  show ?case
  proof (cases "n \<noteq> 0 \<and> ok1")
    case True
    then have "read_stream_exact_loop rom (dst + word_of_nat ?w) (n - ?w) s1 = (ok, s')"
      using 1(3) rd by (subst (asm) read_stream_exact_loop.simps) (auto simp: Let_def)
    then have "in_bounds s1 s'"
      using 1(1) [OF _ refl rd [symmetric]] 1(2,4,5) True off w by simp
    with b show ?thesis by (rule in_bounds_trans)
  next
    case False
    with 1(3) rd b show ?thesis by (subst (asm) read_stream_exact_loop.simps) (auto split: if_splits)
  qed
qed

lemma read_stream_bounded_in_bounds:
  "rom_sane rom \<Longrightarrow> read_stream_bounded rom dst m l s = (r, s') \<Longrightarrow> BOOT_LO \<le> unat dst \<Longrightarrow>
   unat dst + m \<le> BOOT_HI \<Longrightarrow> in_bounds s s'"
proof (induction rom dst m l s arbitrary: r s' rule: read_stream_bounded.induct)
  case (1 rom dst m l s)
  let ?room = "m - l" let ?w = "if ?room > CHUNK_SIZE then CHUNK_SIZE else ?room"
  obtain rc got s1 where rd: "rom_f_read rom (dst + word_of_nat l) ?w s = ((rc, got), s1)" by (metis surj_pair)
  show ?case
  proof (cases "?room = 0")
    case True
    with 1(3) show ?thesis by (subst (asm) read_stream_bounded.simps) simp
  next
    case room: False
    have off: "unat (dst + word_of_nat l) = unat dst + l"
      using 1(5) room by (intro unat_offset) (simp add: BOOT_HI_def)
    have "?w \<le> m - l" by simp
    then have "unat (dst + word_of_nat l) + ?w \<le> BOOT_HI" using 1(5) room unfolding off by linarith
    then have b: "in_bounds s s1"
      using rom_f_read_in_bounds [OF 1(2) rd] 1(4) unfolding off by simp
    show ?thesis
    proof (cases "rc \<noteq> 0 \<or> got = 0")
      case True
      with 1(3) rd room b show ?thesis by (subst (asm) read_stream_bounded.simps) (auto split: if_splits)
    next
      case False
      then have "read_stream_bounded rom dst m (l + got) s1 = (r, s')"
        using 1(3) rd room by (subst (asm) read_stream_bounded.simps) simp
      with 1(1) [OF refl room refl rd [symmetric] refl] False 1(2,4,5) b in_bounds_trans show ?thesis by blast
    qed
  qed
qed


lemma read_stream_exact_in_bounds:
  assumes "rom_sane rom" "read_stream_exact rom dst n s = (ok, s')" "BOOT_LO \<le> unat dst" "unat dst + n \<le> BOOT_HI"
  shows "in_bounds s s'"
proof -
  obtain ok1 s1 where "read_stream_exact_loop rom dst n s = (ok1, s1)" by fastforce
  with assms read_stream_exact_loop_in_bounds [OF assms(1) this] show ?thesis
    by (simp add: read_stream_exact_def)
qed

text \<open>The byte loop of \<open>copy_bytes\<close> is one block write when the source lies above the destination.\<close>

lemma copy_bytes_block:
  "unat dst + n \<le> unat src \<Longrightarrow> unat src + n \<le> 2 ^ 32 \<Longrightarrow>
   copy_bytes n dst src m = mem_write dst (mem_read src n m) m"
proof (induction n arbitrary: dst src m)
  case 0
  then show ?case by (simp add: mem_read_def)
next
  case (Suc n)
  let ?m = "mem_write dst [m src] m"
  have m: "m(dst := m src) = ?m" by (auto simp: mem_write_def unat_eq_0)
  have "unat (src + word_of_nat (Suc 0)) = unat src + Suc 0 \<or> n = 0"
    using Suc.prems unat_offset [of src "Suc 0"] by (cases n) simp_all
  moreover have "unat (dst + word_of_nat (Suc 0)) = unat dst + Suc 0"
    by (rule unat_offset) (use Suc.prems u32_bound [of src] in simp)
  moreover have "same_outside (unat dst) (unat dst + 1) m ?m"
    using u32_bound [of dst] by (intro mem_write_outside) auto
  ultimately have "copy_bytes n (dst + 1) (src + 1) ?m = mem_write (dst + 1) (mem_read (src + 1) n m) ?m"
    using Suc.prems Suc.IH [of "dst + 1" "src + 1" ?m] mem_read_frame [of "src + 1" n "unat dst" "unat dst + 1" m ?m]
    by (cases "n = 0") simp_all
  moreover have "mem_read src (Suc n) m = m src # mem_read (src + 1) n m"
    by (simp add: mem_read_def upt_conv_Cons map_Suc_upt [symmetric] add.assoc del: upt_Suc)
  moreover have "unat dst + length ([m src] @ mem_read (src + 1) n m) \<le> 2 ^ 32"
    using Suc.prems u32_bound [of src] by simp
  ultimately show ?case
    using mem_write_append [of dst "[m src]" "mem_read (src + 1) n m" m] by (simp add: m)
qed


lemma copy_asd_in_bounds:
  "asd_size_ok sz \<Longrightarrow>
   same_outside BOOT_LO BOOT_HI m (copy_bytes (unat sz - ASD_SKIP) ASD_LOAD_ADDR ASD_STAGE_ADDR m)"
  by (subst copy_bytes_block) (auto simp: boot_addrs asd_size_ok_def intro!: mem_write_outside)

lemma load_asd_staged_in_bounds:
  assumes "rom_sane rom" "load_asd_staged rom path s = (ok, s')"
  shows "in_bounds s s'"
proof -
  define s0 where "s0 = write_diag 20 0 path (note_trace 16 (trace_path_hash path) ASD_LOAD_ADDR 0 s)"
  define n where "n = unat (rom_size rom path) - ASD_SKIP"
  obtain rc s1 where o1: "rom_f_open rom path s0 = (rc, s1)" by fastforce
  obtain ok2 s2 where o2: "skip_bytes rom ASD_SKIP s1 = (ok2, s2)" by fastforce
  obtain ok3 s3 where o3: "read_stream_exact rom ASD_STAGE_ADDR n s2 = (ok3, s3)" by fastforce
  have b1: "in_bounds s s1"
    by (rule in_bounds_open [OF _ o1]) (simp add: s0_def in_bounds_steps)
  have b2: "in_bounds s s2" using in_bounds_trans [OF b1 skip_bytes_in_bounds [OF assms(1) o2]] .
  show ?thesis
  proof (cases "rc = 0 \<and> asd_size_ok (rom_size rom path) \<and> ok2")
    case True
    then have "in_bounds s2 s3"
      by (intro read_stream_exact_in_bounds [OF assms(1) o3]) (auto simp: n_def boot_addrs asd_size_ok_def)
    then have b3: "in_bounds s s3" using b2 in_bounds_trans by blast
    then have "in_bounds s (s3\<lparr>sg_mem := copy_bytes n ASD_LOAD_ADDR ASD_STAGE_ADDR (sg_mem s3)\<rparr>)"
      using True copy_asd_in_bounds [of "rom_size rom path" "sg_mem s3"] same_outside_trans
      unfolding in_bounds_def stores_ok_def stage_stores_def n_def by fastforce
    then have "in_bounds s (log_stores [At (unat ASD_LOAD_ADDR) n]
        (s3\<lparr>sg_mem := copy_bytes n ASD_LOAD_ADDR ASD_STAGE_ADDR (sg_mem s3)\<rparr>))"
      by (rule in_bounds_log) (use True in \<open>auto simp: n_def boot_addrs asd_size_ok_def\<close>)
    with b3 assms(2) o1 o2 o3 True show ?thesis
      unfolding load_asd_staged_def n_def [symmetric] by (auto simp: Let_def s0_def in_bounds_steps split: if_splits)
  next
    case False
    with b1 b2 assms(2) o1 o2 show ?thesis
      unfolding load_asd_staged_def by (auto simp: Let_def in_bounds_steps s0_def split: if_splits)
  qed
qed

lemma load_file_in_bounds:
  assumes "rom_sane rom" "load_file rom path sk RAW_LOAD_ADDR s = (ok, s')"
  shows "in_bounds s s'"
proof -
  define s0 where "s0 = write_diag 10 0 path (note_trace 14 (trace_path_hash path) (word_of_nat sk) RAW_LOAD_ADDR s)"
  obtain rc s1 where o1: "rom_f_open rom path s0 = (rc, s1)" by fastforce
  obtain ok2 s2 where o2: "(if sk \<noteq> 0 then skip_bytes rom sk s1 else (True, s1)) = (ok2, s2)" by fastforce
  obtain r s3 where o3: "read_stream_bounded rom RAW_LOAD_ADDR (RAW_LOAD_LIMIT - sk) 0 s2 = (r, s3)" by fastforce
  have b1: "in_bounds s s1"
    by (rule in_bounds_open [OF _ o1]) (simp add: s0_def in_bounds_steps)
  have "in_bounds s1 s2" using o2 skip_bytes_in_bounds [OF assms(1)] by (auto split: if_splits)
  then have b2: "in_bounds s s2" using b1 in_bounds_trans by blast
  have "in_bounds s2 s3"
    by (rule read_stream_bounded_in_bounds [OF assms(1) o3]) (auto simp: boot_addrs RAW_LOAD_LIMIT_def)
  then have "in_bounds s s3" using b2 in_bounds_trans by blast
  with b1 b2 assms(2) o1 o2 o3 show ?thesis
    unfolding load_file_def by (auto simp: Let_def in_bounds_steps s0_def split: if_splits prod.splits)
qed


lemma jump_fail_mem [simp]:
  "sg_mem (fst (jump_to_payload p s)) = sg_mem s" "sg_mem (fst (stage1_fail s)) = sg_mem s"
  by (simp_all add: jump_to_payload_def stage1_fail_def Let_def)

text \<open>Trying one image and going on with the next.\<close>

lemma try_image_in_bounds:
  assumes "in_bounds s t" "\<And>ok s'. x = (ok, s') \<Longrightarrow> in_bounds t s'"
    "\<And>s'. in_bounds s s' \<Longrightarrow> in_bounds s (fst (k s'))"
  shows "in_bounds s (fst (case x of (ok, s') \<Rightarrow> if ok then jump_to_payload p s' else k s'))"
proof -
  obtain ok s' where x: "x = (ok, s')" by fastforce
  then have "in_bounds s s'" using assms in_bounds_trans by blast
  with assms(3) x show ?thesis by (simp add: in_bounds_jump)
qed

lemma stage1_stock_in_bounds:
  assumes "rom_sane rom" "in_bounds s t"
  shows "in_bounds s (fst (stage1_stock rom t))"
  unfolding stage1_stock_def Let_def
  by (rule try_image_in_bounds, (assumption | rule assms(2)),
      erule load_file_in_bounds [OF assms(1)] load_asd_staged_in_bounds [OF assms(1)])+
    (erule stage1_fail_in_bounds)

text \<open>The other steps of \<open>stage1_main\<close>.\<close>

lemma scan_in_bounds: "in_bounds s (snd (fastboot_scan_boot_cancel b s))"
  by (rule in_bounds_same [OF in_bounds_refl])
    (auto simp: fastboot_scan_boot_cancel_def fastboot_scan_sf2000_b_key_def fastboot_scan_gb300_b_key_def
      Let_def split: prod.splits)

lemma read_default_in_bounds:
  assumes "rom_sane rom"
  shows "in_bounds s (snd (read_default_asd_path rom s))"
proof -
  obtain rc0 s1 where o1: "rom_f_open rom BOOT_ASD_CFG_PATH s = (rc0, s1)" by fastforce
  obtain rc bs where rd: "rom_read rom (sg_calls s1) BOOT_ASD_CFG_PATH 0 DEFAULT_ASD_CFG_READ_MAX = (rc, bs)" by fastforce
  have bs: "length bs \<le> DEFAULT_ASD_CFG_READ_MAX" using assms rd unfolding rom_sane_def by (metis snd_conv)
  define s2 where "s2 = log_stores [Local (DEFAULT_ASD_CFG_READ_MAX + 1) 0 (length bs)] (s1\<lparr>sg_calls := sg_calls s1 + 1\<rparr>)"
  have b1: "in_bounds s s1" by (rule in_bounds_open [OF in_bounds_refl o1])
  have b2: "in_bounds s s2"
    unfolding s2_def by (intro in_bounds_log in_bounds_same [OF b1]) (use bs in simp_all)
  have b3: "in_bounds s (log_stores [Local (DEFAULT_ASD_CFG_READ_MAX + 1) (length bs) 1] s2)"
    by (rule in_bounds_log [OF b2]) (use bs in simp)
  have b4: "in_bounds s (log_stores [Local FASTBOOT_HANDOFF_PATH_BYTES 0 n, Local FASTBOOT_HANDOFF_PATH_BYTES n 1]
      (log_stores [Local (DEFAULT_ASD_CFG_READ_MAX + 1) (length bs) 1] s2))" if "\<not> n \<ge> FASTBOOT_HANDOFF_PATH_BYTES" for n
    by (rule in_bounds_log [OF b3]) (use that in simp)
  show ?thesis
    unfolding read_default_asd_path_def Let_def o1 prod.case rd s2_def [symmetric]
    using b1 b2 b3 b4 by (simp add: in_bounds_steps)
qed

lemma read_handoff_in_bounds: "in_bounds s (snd (read_handoff_path s))"
proof (cases "ho_magic (sg_handoff s) = FASTBOOT_HANDOFF_MAGIC")
  case True
  define path where "path = c_str (take (FASTBOOT_HANDOFF_PATH_BYTES - 1) (ho_path (sg_handoff s)))"
  define s1 where "s1 = log_stores [Local FASTBOOT_HANDOFF_PATH_BYTES 0 (min (FASTBOOT_HANDOFF_PATH_BYTES - 1) (length path + 1)),
       Local FASTBOOT_HANDOFF_PATH_BYTES (FASTBOOT_HANDOFF_PATH_BYTES - 1) 1,
       At (unat FASTBOOT_HANDOFF_BASE) 4, At (unat FASTBOOT_HANDOFF_BASE + 4) FASTBOOT_HANDOFF_PATH_BYTES]
     (s\<lparr>sg_handoff := \<lparr>ho_magic = 0, ho_path = replicate FASTBOOT_HANDOFF_PATH_BYTES NUL\<rparr>\<rparr>)"
  have len: "length path \<le> 95"
    using length_takeWhile_le [of "\<lambda>c. c \<noteq> NUL" "take 95 (ho_path (sg_handoff s))"]
    by (simp add: path_def c_str_def FASTBOOT_HANDOFF_PATH_BYTES_def)
  have b1: "in_bounds s s1"
    unfolding s1_def by (intro in_bounds_log in_bounds_same [OF in_bounds_refl])
      (simp_all add: FASTBOOT_HANDOFF_PATH_BYTES_def FASTBOOT_HANDOFF_BASE_def)
  have b2: "in_bounds s (log_stores [Local FASTBOOT_HANDOFF_PATH_BYTES n 1] s1)" if "n < length path" for n
    by (rule in_bounds_log [OF b1]) (use that len in \<open>simp add: FASTBOOT_HANDOFF_PATH_BYTES_def\<close>)
  show ?thesis
    unfolding read_handoff_path_def Let_def path_def [symmetric] s1_def [symmetric]
    using True b1 b2 by (simp split: option.split)
qed (simp add: read_handoff_path_def)

lemma stage1_start_in_bounds: "in_bounds s (stage1_start b s)"
proof -
  have bss: "in_bounds s (clear_bss s)"
    unfolding clear_bss_def by (simp add: in_bounds_def stores_ok_def stage_stores_def)
  have scans: "in_bounds s (u\<lparr>sg_scans := n\<rparr>)" "in_bounds s (u\<lparr>sg_board := bd\<rparr>)" if "in_bounds s u" for u n bd
    by (rule in_bounds_same [OF that]; simp)+
  show ?thesis
    unfolding stage1_start_def fastboot_log_passive_hardware_fingerprint_def fastboot_log_key_fingerprint_def
      fastboot_detect_board_def Let_def
    by (auto split: prod.split intro!: in_bounds_steps scans bss)
qed

lemma stage1_default_in_bounds:
  assumes "rom_sane rom" "in_bounds s t"
  shows "in_bounds s (fst (stage1_default b rom t))"
proof -
  obtain keys s1 where sc: "fastboot_scan_boot_cancel b t = (keys, s1)" by fastforce
  obtain r s2 where rd: "read_default_asd_path rom s1 = (r, s2)" by fastforce
  have b1: "in_bounds s s1" using in_bounds_trans [OF assms(2)] scan_in_bounds [of t b] sc by simp
  then have b2: "in_bounds s s2" using in_bounds_trans read_default_in_bounds [OF assms(1), of s1] rd by fastforce
  have asd: "in_bounds s (fst (case load_asd_staged rom p u of (ok, s') \<Rightarrow> if ok then jump_to_payload p s'
      else stage1_stock rom (note_trace e a1 a2 a3 s')))" if "in_bounds s u" for p u e a1 a2 a3
    by (rule try_image_in_bounds [OF that], erule load_asd_staged_in_bounds [OF assms(1)])
      (intro stage1_stock_in_bounds [OF assms(1)] in_bounds_note)
  show ?thesis
    using sc rd b1 b2 by (auto simp: stage1_default_def Let_def simp del: split_paired_All split: option.splits
      intro!: stage1_stock_in_bounds [OF assms(1)] asd in_bounds_note)
qed

text \<open>
  What must survive the boot stage: its own code and data below the zeroed section, and the three
  records in which the firmware left a crash (exception, activity and registers).
\<close>

definition kept_places :: "u32 \<Rightarrow> (nat \<times> nat) list" where
  "kept_places bss_start = [(0x87ff7000, unat bss_start), (0x87fff700, 0x87fff780), (0x87fffdc0, 0x87fffde8),
     (0x87fffe70, 0x87ffff00)]"

fun spares :: "store \<Rightarrow> nat \<times> nat \<Rightarrow> bool" where
  "spares (At a n) (lo, hi) \<longleftrightarrow> a + n \<le> lo \<or> hi \<le> a"
| "spares (Local len i n) place \<longleftrightarrow> True"

lemma in_place_spares:
  assumes "0x87ff7000 \<le> unat (fst bss)" "unat (fst bss) \<le> unat (snd bss)" "unat (snd bss) \<le> 0x87fff000"
    "store_in_place bss x"
  shows "list_all (spares x) (kept_places (fst bss))"
  using assms by (cases x) (auto simp: kept_places_def)

lemma stage1_main_bounded:
  assumes "rom_sane rom"
  shows "in_bounds s (fst (stage1_main b rom s))"
proof -
  define s0 where "s0 = write_diag 2 (rom_mount rom) [] (note_trace 12 (rom_mount rom) 0 0 (stage1_start b s))"
  obtain r s1 where ho: "read_handoff_path s0 = (r, s1)" by fastforce
  have b0: "in_bounds s s0" by (simp add: s0_def in_bounds_steps stage1_start_in_bounds)
  then have b1: "in_bounds s s1" using in_bounds_trans read_handoff_in_bounds [of s0] ho by fastforce
  have jd: "in_bounds s (fst (case load_asd_staged rom p t of (ok, s') \<Rightarrow>
      if ok then jump_to_payload p (write_diag 4 0 p s') else stage1_default b rom s'))" if "in_bounds s t" for t p
  proof -
    obtain ok s' where l: "load_asd_staged rom p t = (ok, s')" by fastforce
    then have "in_bounds s s'" using that load_asd_staged_in_bounds [OF assms] in_bounds_trans by blast
    with l stage1_default_in_bounds [OF assms, of s s' b] show ?thesis by (simp add: in_bounds_steps)
  qed
  show ?thesis
    unfolding stage1_main_def Let_def s0_def [symmetric]
    using ho b0 b1 by (auto simp del: split_paired_All split: option.splits
      intro!: stage1_fail_in_bounds stage1_default_in_bounds [OF assms] jd in_bounds_note in_bounds_diag)
qed



section \<open>Boot paths\<close>

lemma valid_asd_loop_iff:
  "i \<le> DEFAULT_ASD_CFG_READ_MAX \<Longrightarrow>
   valid_asd_loop p i cs = Some False \<longleftrightarrow> i + length p \<le> DEFAULT_ASD_CFG_READ_MAX \<and> boot_path_loop p cs"
  by (induction p i cs rule: valid_asd_loop.induct)
    (auto simp: boot_char_forbidden_def fastboot_ascii_is_space_def)

lemma to_lower_eq:
  "to_lower c = d \<longleftrightarrow>
     c = d \<and> \<not> (65 \<le> (of_char d :: nat) \<and> (of_char d :: nat) \<le> 90) \<or>
     97 \<le> (of_char d :: nat) \<and> (of_char d :: nat) \<le> 122 \<and> c = char_of ((of_char d :: nat) - 32)"
  (is "_ = ?r")
proof (cases "65 \<le> (of_char c :: nat) \<and> (of_char c :: nat) \<le> 90")
  case True
  then have "to_lower c = d \<longleftrightarrow> (of_char c :: nat) + 32 = of_char d"
    by (simp add: to_lower_def char_of_eq_iff take_bit_nat_eq_self)
  moreover have "c = char_of ((of_char d :: nat) - 32) \<longleftrightarrow> (of_char d :: nat) - 32 = of_char c"
    by (subst eq_commute) (simp add: char_of_eq_iff take_bit_nat_eq_self less_imp_diff_less)
  ultimately show ?thesis using True by auto
next
  case False
  then show ?thesis by (auto simp: to_lower_def)
qed

lemma asd_suffix_iff:
  assumes "4 \<le> length p"
  shows "asd_suffix p \<longleftrightarrow> strcase_eq (drop (length p - 4) p) ''.asd''"
proof -
  have "drop (length p - 4) p = map ((!) p) [length p - 4, length p - 3, length p - 2, length p - 1]"
    using assms by (intro nth_equalityI) (auto simp: less_Suc_eq numeral_nat)
  moreover have "map to_lower ''.asd'' = ''.asd''" by (simp add: to_lower_def)
  ultimately have "strcase_eq (drop (length p - 4) p) ''.asd'' \<longleftrightarrow>
      map to_lower [p ! (length p - 4), p ! (length p - 3), p ! (length p - 2), p ! (length p - 1)] = ''.asd''"
    by (simp only: strcase_eq_def list.map)
  moreover have "char_of (65 :: nat) = CHR ''A''" "char_of (83 :: nat) = CHR ''S''" "char_of (68 :: nat) = CHR ''D''"
    by (simp_all add: char_of_eq_iff)
  ultimately show ?thesis by (simp add: to_lower_eq asd_suffix_def Let_def)
qed

text \<open>
   The boot stage and the firmware accept the same boot paths: the check that the boot stage
  makes of the configured default is, on every path, the check that the firmware makes before it
  hands a path over, although the two are written differently.
\<close>

lemma boot_path_checks_agree:
  "fastboot_valid_asd_path path = unifrog_boot_asd_path_supported path"
proof (cases path)
  case (Some p)
  have "valid_asd_loop p 0 True = Some False \<longleftrightarrow> length p < 96 \<and> boot_path_loop p True"
    by (subst valid_asd_loop_iff) (auto simp: DEFAULT_ASD_CFG_READ_MAX_def FASTBOOT_HANDOFF_PATH_BYTES_def)
  moreover have "fastboot_ascii_ends_asd p \<longleftrightarrow> unifrog_text_ends_with_ci (Some p) (Some ''.asd'')"
    if "p \<noteq> []" "hd p \<noteq> CHR ''.''"
  proof (cases "length p = 4")
    case True
    then have "p ! 0 \<noteq> CHR ''.''" using that by (simp add: hd_conv_nth)
    with True asd_suffix_iff [of p] show ?thesis
      by (auto simp: fastboot_ascii_ends_asd_def ends_with_ci_iff asd_suffix_def Let_def)
  next
    case False
    then show ?thesis
      using asd_suffix_iff [of p] by (auto simp: fastboot_ascii_ends_asd_def ends_with_ci_iff eval_nat_numeral)
  qed
  ultimately show ?thesis
    using Some by (auto simp: fastboot_valid_asd_path_def unifrog_boot_asd_path_supported_def hd_conv_nth
      UNIFROG_BOOT_PATH_MAX_def split: option.splits)
qed (simp add: fastboot_valid_asd_path_def unifrog_boot_asd_path_supported_def)


lemma handoff_scan_id:
  "list_all (\<lambda>c. \<not> fastboot_ascii_is_space c \<and> c \<noteq> BACKSLASH \<and> c \<noteq> CHR '':'') p \<Longrightarrow> handoff_scan p = Some p"
  by (induction p) auto

lemma boot_path_loop_chars: "boot_path_loop p cs \<Longrightarrow> list_all (\<lambda>c. \<not> boot_char_forbidden c) p"
  by (induction p cs rule: boot_path_loop.induct) (auto split: if_splits)

lemma c_str_pad: "NUL \<notin> set p \<Longrightarrow> c_str (p @ replicate n NUL) = p"
  by (induction p) (auto simp: c_str_def)

lemma supported_path:
  assumes "unifrog_boot_asd_path_supported (Some p)"
  shows "p \<noteq> [] \<and> hd p \<noteq> SLASH \<and> hd p \<noteq> CHR ''.'' \<and> length p < 96 \<and> handoff_scan p = Some p \<and> hd p \<noteq> BACKSLASH"
proof -
  from assms have p: "p \<noteq> []" "hd p \<noteq> SLASH" "hd p \<noteq> CHR ''.''" "length p < 96" "boot_path_loop p True"
    by (auto simp: unifrog_boot_asd_path_supported_def UNIFROG_BOOT_PATH_MAX_def hd_conv_nth split: if_splits)
  have ok: "list_all (\<lambda>c. \<not> fastboot_ascii_is_space c \<and> c \<noteq> BACKSLASH \<and> c \<noteq> CHR '':'') p"
    using boot_path_loop_chars [OF p(5)]
    by (auto simp: boot_char_forbidden_def fastboot_ascii_is_space_def list_all_iff)
  with p handoff_scan_id show ?thesis by (cases p) auto
qed

text \<open>The firmware's request, and what the boot stage reads back from it.\<close>

lemma requested_handoff:
  assumes "unifrog_boot_asd_path_supported (Some p)" "NUL \<notin> set p"
    "sg_handoff s = \<lparr>ho_magic = FASTBOOT_HANDOFF_MAGIC,
       ho_path = pad_to FASTBOOT_HANDOFF_PATH_BYTES (text_copy FASTBOOT_HANDOFF_PATH_BYTES p)\<rparr>"
  shows "\<exists>s'. read_handoff_path s = (Some p, s')"
proof -
  have p: "length p < 96" and sc: "handoff_scan p = Some p" "p \<noteq> []" "hd p \<noteq> SLASH" "hd p \<noteq> CHR ''.''" "hd p \<noteq> BACKSLASH"
    using supported_path [OF assms(1)] by auto
  have "take 95 (pad_to 96 (text_copy 96 p)) = p @ replicate (95 - length p) NUL"
    using p by (simp add: text_copy_eq pad_to_def)
  then have "c_str (take 95 (pad_to 96 (text_copy 96 p))) = p" using c_str_pad [OF assms(2)] by simp
  with sc assms(3) show ?thesis
    by (simp add: read_handoff_path_def FASTBOOT_HANDOFF_PATH_BYTES_def Let_def)
qed


section \<open>Loading a file that the card serves\<close>

text \<open>The ROM opens the file and delivers its bytes in full, at every call.\<close>

definition rom_serves :: "rom \<Rightarrow> string \<Rightarrow> bytes \<Rightarrow> bool" where
  "rom_serves rom path content \<longleftrightarrow>
     (\<forall>n. rom_open rom n path = 0) \<and> unat (rom_size rom path) = length content \<and>
     (\<forall>n pos len. rom_read rom n path pos len = (0, take len (drop pos content)))"

lemma read_exact_served:
  assumes "rom_serves rom path content" "sg_file s = (path, pos)" "pos + n \<le> length content"
  shows "\<exists>s'. read_exact rom dst n s = (True, s') \<and> sg_file s' = (path, pos + n) \<and>
    sg_mem s' = mem_write dst (take n (drop pos content)) (sg_mem s)"
  using assms by (auto simp: read_exact_def rom_f_read_def rom_serves_def)

lemma skip_bytes_served:
  "rom_serves rom path content \<Longrightarrow> sg_file s = (path, pos) \<Longrightarrow> pos + n \<le> length content \<Longrightarrow>
   \<exists>s'. skip_bytes rom n s = (True, s') \<and> sg_file s' = (path, pos + n)"
proof (induction rom n s arbitrary: pos rule: skip_bytes.induct)
  case (1 rom n s)
  define w where "w = (if n > CHUNK_SIZE then CHUNK_SIZE else n)"
  have w: "w \<le> n" "pos + w + (n - w) = pos + n" by (simp_all add: w_def)
  obtain s1 where s1: "read_exact rom FASTBOOT_CHUNK_ADDR w s = (True, s1)" "sg_file s1 = (path, pos + w)"
    using read_exact_served [OF 1(2,3), of w FASTBOOT_CHUNK_ADDR] 1(4) w by auto
  show ?case
  proof (cases "n = 0")
    case True
    with 1(3) show ?thesis by (simp add: skip_bytes.simps)
  next
    case False
    have "\<exists>s'. skip_bytes rom (n - w) s1 = (True, s') \<and> sg_file s' = (path, pos + w + (n - w))"
      using 1(1) [OF False w_def refl s1(1) [symmetric] _ 1(2) s1(2)] 1(4) w by simp
    with False s1 w show ?thesis by (subst skip_bytes.simps) (simp add: w_def [symmetric] Let_def)
  qed
qed

lemma read_stream_exact_loop_served:
  "rom_serves rom path content \<Longrightarrow> sg_file s = (path, pos) \<Longrightarrow> pos + n \<le> length content \<Longrightarrow>
   unat dst + n < 2 ^ 32 \<Longrightarrow>
   \<exists>s'. read_stream_exact_loop rom dst n s = (True, s') \<and>
     sg_mem s' = mem_write dst (take n (drop pos content)) (sg_mem s)"
proof (induction rom dst n s arbitrary: pos rule: read_stream_exact_loop.induct)
  case (1 rom dst n s)
  define w where "w = (if n > CHUNK_SIZE then CHUNK_SIZE else n)"
  have w: "w \<le> n" by (simp add: w_def)
  obtain s1 where s1: "read_exact rom dst w s = (True, s1)" "sg_file s1 = (path, pos + w)"
      "sg_mem s1 = mem_write dst (take w (drop pos content)) (sg_mem s)"
    using read_exact_served [OF 1(2,3), of w dst] 1(4) w by auto
  show ?case
  proof (cases "n = 0")
    case True
    then show ?thesis by (simp add: read_stream_exact_loop.simps)
  next
    case False
    have off: "unat (dst + word_of_nat w) = unat dst + w" using 1(5) w by (intro unat_offset) simp
    obtain s2 where s2: "read_stream_exact_loop rom (dst + word_of_nat w) (n - w) s1 = (True, s2)"
        "sg_mem s2 = mem_write (dst + word_of_nat w) (take (n - w) (drop (pos + w) content)) (sg_mem s1)"
      using 1(1) [OF False w_def refl s1(1) [symmetric] _ 1(2) s1(2)] 1(4,5) off w by auto
    have "take w (drop pos content) @ take (n - w) (drop (pos + w) content) = take n (drop pos content)"
      using w by (metis drop_drop add.commute le_add_diff_inverse take_add)
    moreover have "length (take w (drop pos content)) = w" using 1(4) w by simp
    ultimately have "sg_mem s2 = mem_write dst (take n (drop pos content)) (sg_mem s)"
      using mem_write_append [of dst "take w (drop pos content)" "take (n - w) (drop (pos + w) content)"] 1(4,5) w s1 s2
      by simp
    with False s1 s2 show ?thesis
      by (subst read_stream_exact_loop.simps) (simp add: w_def [symmetric] Let_def)
  qed
qed

lemma load_asd_staged_served:
  assumes "rom_serves rom path content" "asd_size_ok (rom_size rom path)"
  shows "\<exists>s'. load_asd_staged rom path s = (True, s') \<and>
    mem_read ASD_LOAD_ADDR (length content - ASD_SKIP) (sg_mem s') = drop ASD_SKIP content"
proof -
  define s0 where "s0 = write_diag 20 0 path (note_trace 16 (trace_path_hash path) ASD_LOAD_ADDR 0 s)"
  define n where "n = length content - ASD_SKIP"
  have sz: "unat (rom_size rom path) = length content" "\<And>k. rom_open rom k path = 0"
    using assms(1) by (simp_all add: rom_serves_def)
  have n: "ASD_SKIP + n = length content" "n \<noteq> 0" "n \<le> unat (FASTBOOT_CHUNK_ADDR - ASD_STAGE_ADDR)"
    using assms(2) sz(1) by (auto simp: asd_size_ok_def n_def)
  obtain s1 where s1: "rom_f_open rom path s0 = (0, s1)" "sg_file s1 = (path, 0)"
    using sz by (simp add: rom_f_open_def)
  obtain s2 where s2: "skip_bytes rom ASD_SKIP s1 = (True, s2)" "sg_file s2 = (path, ASD_SKIP)"
    using skip_bytes_served [OF assms(1) s1(2), of ASD_SKIP] n by auto
  obtain s3 where s3: "read_stream_exact_loop rom ASD_STAGE_ADDR n s2 = (True, s3)"
      "sg_mem s3 = mem_write ASD_STAGE_ADDR (take n (drop ASD_SKIP content)) (sg_mem s2)"
    using read_stream_exact_loop_served [OF assms(1) s2(2), of n ASD_STAGE_ADDR] n by (auto simp: boot_addrs)
  let ?bs = "drop ASD_SKIP content"
  have len: "length ?bs = n" by (simp add: n_def)
  have staged: "mem_read ASD_STAGE_ADDR n (sg_mem s3) = ?bs"
    using mem_read_write [of ASD_STAGE_ADDR ?bs "sg_mem s2"] s3(2) n len by (simp add: boot_addrs)
  have "copy_bytes n ASD_LOAD_ADDR ASD_STAGE_ADDR (sg_mem s3) = mem_write ASD_LOAD_ADDR ?bs (sg_mem s3)"
    by (subst copy_bytes_block) (use n staged in \<open>auto simp: boot_addrs\<close>)
  moreover have "mem_read ASD_LOAD_ADDR n (mem_write ASD_LOAD_ADDR ?bs (sg_mem s3)) = ?bs"
    using mem_read_write [of ASD_LOAD_ADDR ?bs "sg_mem s3"] n len by (simp add: boot_addrs)
  ultimately show ?thesis
    using s1 s2 s3 assms(2) n
    unfolding load_asd_staged_def Let_def s0_def [symmetric] n_def [symmetric] sz
    by (simp add: read_stream_exact_def)
qed


lemma read_stream_bounded_served:
  "rom_serves rom path content \<Longrightarrow> sg_file s = (path, l) \<Longrightarrow> l \<le> length content \<Longrightarrow> content \<noteq> [] \<Longrightarrow>
   length content < m \<Longrightarrow> unat dst + m < 2 ^ 32 \<Longrightarrow>
   \<exists>s'. read_stream_bounded rom dst m l s = ((True, length content), s') \<and>
     sg_mem s' = mem_write (dst + word_of_nat l) (drop l content) (sg_mem s)"
proof (induction rom dst m l s rule: read_stream_bounded.induct)
  case (1 rom dst m l s)
  define w where "w = (if m - l > CHUNK_SIZE then CHUNK_SIZE else m - l)"
  define bs where "bs = take w (drop l content)"
  have room: "m - l \<noteq> 0" "0 < w" using 1(4,6) by (auto simp: w_def CHUNK_SIZE_def)
  obtain s1 where s1: "rom_f_read rom (dst + word_of_nat l) w s = ((0, length bs), s1)"
      "sg_file s1 = (path, l + length bs)" "sg_mem s1 = mem_write (dst + word_of_nat l) bs (sg_mem s)"
    using 1(2,3) by (auto simp: rom_f_read_def rom_serves_def bs_def)
  have step: "read_stream_bounded rom dst m l s =
      (if length bs = 0 then ((l \<noteq> 0, l), s1) else read_stream_bounded rom dst m (l + length bs) s1)"
    by (subst read_stream_bounded.simps, unfold Let_def w_def [symmetric]) (use room s1 in simp)
  show ?case
  proof (cases "length bs = 0")
    case True
    then have "l = length content" using 1(4) room by (simp add: bs_def)
    with 1(5) True s1 step show ?thesis by simp
  next
    case False
    have l: "l + length bs \<le> length content" using 1(4) by (simp add: bs_def)
    have split: "bs @ drop (l + length bs) content = drop l content"
      using append_take_drop_id [of "length bs" "drop l content"] by (simp add: bs_def min_def add.commute split: if_splits)
    obtain s2 where s2: "read_stream_bounded rom dst m (l + length bs) s1 = ((True, length content), s2)"
        "sg_mem s2 = mem_write (dst + word_of_nat (l + length bs)) (drop (l + length bs) content) (sg_mem s1)"
      using 1(1) [OF refl room(1) w_def refl s1(1) [symmetric] refl _ _ 1(2) s1(2) l 1(5,6,7)] False by auto
    have "unat (dst + word_of_nat l) = unat dst + l" using 1(4,6,7) by (intro unat_offset) simp
    then have "sg_mem s2 = mem_write (dst + word_of_nat l) (drop l content) (sg_mem s)"
      using mem_write_append [of "dst + word_of_nat l" bs "drop (l + length bs) content" "sg_mem s"] 1(4,6,7) s1 s2 split l
      by (simp add: add.assoc)
    with False s2 step show ?thesis by simp
  qed
qed

lemma load_raw_served:
  assumes "rom_serves rom path content" "content \<noteq> []" "length content < RAW_LOAD_LIMIT"
  shows "\<exists>s'. load_file rom path 0 RAW_LOAD_ADDR s = (True, s') \<and>
    mem_read ENTRY_ADDR (length content) (sg_mem s') = content"
proof -
  define s0 where "s0 = write_diag 10 0 path (note_trace 14 (trace_path_hash path) (word_of_nat 0) RAW_LOAD_ADDR s)"
  obtain s1 where s1: "rom_f_open rom path s0 = (0, s1)" "sg_file s1 = (path, 0)"
    using assms(1) by (simp add: rom_f_open_def rom_serves_def)
  obtain s2 where s2: "read_stream_bounded rom RAW_LOAD_ADDR RAW_LOAD_LIMIT 0 s1 = ((True, length content), s2)"
      "sg_mem s2 = mem_write RAW_LOAD_ADDR content (sg_mem s1)"
    using read_stream_bounded_served [OF assms(1) s1(2) _ assms(2,3), of RAW_LOAD_ADDR]
    by (auto simp: RAW_LOAD_LIMIT_def boot_addrs)
  have "mem_read ENTRY_ADDR (length content) (sg_mem s2) = content"
    using mem_read_write [of RAW_LOAD_ADDR content] assms(3) s2(2) by (simp add: RAW_LOAD_LIMIT_def boot_addrs)
  with s1 s2 assms(3) show ?thesis
    unfolding load_file_def Let_def s0_def [symmetric] by auto
qed

section \<open>A card with the firmware boots\<close>

lemma jump_outcome [simp]: "snd (jump_to_payload p s) = Jumped p"
  by (simp add: jump_to_payload_def Let_def)

lemma stage1_stock_jumps:
  assumes "rom_serves rom ''unifrog/firmware/unifrog.bin'' content" "content \<noteq> []" "length content < RAW_LOAD_LIMIT"
  shows "snd (stage1_stock rom s) = Jumped ''unifrog/firmware/unifrog.bin''"
proof -
  obtain s' where "load_file rom ''unifrog/firmware/unifrog.bin'' 0 RAW_LOAD_ADDR s = (True, s')"
    using load_raw_served [OF assms] by blast
  then show ?thesis by (simp add: stage1_stock_def)
qed

lemma stage1_default_jumps:
  assumes "\<And>s. \<exists>p. snd (stage1_stock rom s) = Jumped p"
  shows "\<exists>p. snd (stage1_default b rom s) = Jumped p"
  using assms by (auto simp: stage1_default_def Let_def split: prod.splits option.splits)



end
