(* ===== verification/UF_Asd.thy ===== *)
theory UF_Asd
  imports UF_Bin UF_Boot
begin

text \<open>
  The tool that packs a firmware image into the \<open>.asd\<close> format (\<open>tools/asdpack.c\<close>): a header with
  the payload size and a CRC, padding up to \<open>0x1000\<close>, then the image.  The theory ends with the
  composition of all parts of the boot chain: an image packed by the tool, requested by the
  firmware and loaded by the boot stage.

  The C library of the host enters as the record \<open>host\<close>: the readable files, whether memory can be
  had, and the failures of writing.
\<close>

section \<open>The checksum\<close>

definition crc_bit :: "u32 \<Rightarrow> u32" where
  "crc_bit c = (if c AND push_bit 31 1 \<noteq> 0 then push_bit 1 c XOR 0x04c11db7 else push_bit 1 c)"

definition crc_table :: "u32 list" where
  "crc_table = map (\<lambda>i. (crc_bit ^^ 8) (push_bit 24 (word_of_nat i))) [0..<256]"

definition crc_update :: "u32 \<Rightarrow> u8 \<Rightarrow> u32" where
  "crc_update c b = push_bit 8 c XOR crc_table ! unat (drop_bit 24 c XOR ucast b)"

definition crc32_mpeg2 :: "bytes \<Rightarrow> u32" where
  "crc32_mpeg2 buf = foldl crc_update 0xffffffff buf"

section \<open>Packing and checking\<close>

definition IMAGE_START :: nat where "IMAGE_START = 0x1000"
definition LCFG_HEADER_SIZE :: nat where "LCFG_HEADER_SIZE = 0x200"
definition LCFG_SIZE_OFF :: nat where "LCFG_SIZE_OFF = 0x184"
definition LCFG_CRC_OFF :: nat where "LCFG_CRC_OFF = 0x18c"
definition LCFG_MAGIC :: bytes where "LCFG_MAGIC = [0x4c, 0x43, 0x46, 0x47]"

definition read_le32 :: "bytes \<Rightarrow> nat \<Rightarrow> u32" where
  "read_le32 buf i = ucast (buf ! i) OR push_bit 8 (ucast (buf ! (i + 1))) OR
     push_bit 16 (ucast (buf ! (i + 2))) OR push_bit 24 (ucast (buf ! (i + 3)))"

definition write_le32 :: "u32 \<Rightarrow> bytes" where
  "write_le32 v = [ucast (v AND 255), ucast (drop_bit 8 v AND 255), ucast (drop_bit 16 v AND 255),
     ucast (drop_bit 24 v AND 255)]"

record host =
  h_files :: "string \<Rightarrow> bytes option"
  h_alloc :: "nat \<Rightarrow> bool"
  h_creates :: "string \<Rightarrow> bool"
  h_room :: nat
  h_closes :: bool

definition read_file :: "host \<Rightarrow> string \<Rightarrow> bytes option" where
  "read_file h path = (case h_files h path of None \<Rightarrow> None
     | Some bs \<Rightarrow> if \<not> h_alloc h (length bs) \<and> length bs \<noteq> 0 then None else Some bs)"

text \<open>The output buffer of \<open>pack_file\<close>, filled in the order of the code.\<close>

definition pack_image :: "bytes \<Rightarrow> bytes" where
  "pack_image img =
     (let out_sz = IMAGE_START + length img; payload_sz = out_sz - LCFG_HEADER_SIZE;
          buf = poke IMAGE_START img (replicate out_sz 0);
          buf = poke 0 LCFG_MAGIC buf;
          buf = poke LCFG_SIZE_OFF (write_le32 (word_of_nat payload_sz)) buf;
          crc = crc32_mpeg2 (take payload_sz (drop LCFG_HEADER_SIZE buf))
      in poke LCFG_CRC_OFF (write_le32 crc) buf)"

definition pack_file :: "host \<Rightarrow> string \<Rightarrow> string \<Rightarrow> bool \<times> host" where
  "pack_file h in_path out_path =
     (case read_file h in_path of None \<Rightarrow> (False, h)
      | Some img \<Rightarrow>
          if \<not> h_alloc h (IMAGE_START + length img) then (False, h)
          else if \<not> h_creates h out_path then (False, h)
          else let out = pack_image img; h' = h\<lparr>h_files := (h_files h)(out_path \<mapsto> take (h_room h) out)\<rparr>
               in if h_room h < length out then (False, h') else (h_closes h, h'))"

definition check_image :: "bytes \<Rightarrow> bool" where
  "check_image buf =
     (if length buf < IMAGE_START then False
      else if take 4 buf \<noteq> LCFG_MAGIC then False
      else let payload_sz = length buf - LCFG_HEADER_SIZE
           in if unat (read_le32 buf LCFG_SIZE_OFF) \<noteq> payload_sz then False
              else \<not> read_le32 buf LCFG_CRC_OFF \<noteq> crc32_mpeg2 (take payload_sz (drop LCFG_HEADER_SIZE buf)))"

definition check_file :: "host \<Rightarrow> string \<Rightarrow> bool" where
  "check_file h path = (case read_file h path of None \<Rightarrow> False | Some buf \<Rightarrow> check_image buf)"

section \<open>The table computes the bitwise checksum\<close>

text \<open>The reference: the register is shifted by one bit, most significant first, for each message bit.\<close>

definition crc_shift_in :: "u32 \<Rightarrow> bool \<Rightarrow> u32" where
  "crc_shift_in c b = push_bit 1 c XOR (if bit c 31 \<noteq> b then 0x04c11db7 else 0)"

definition byte_bits :: "u8 \<Rightarrow> bool list" where
  "byte_bits b = map (\<lambda>k. bit b (7 - k)) [0..<8]"

definition crc32_bitwise :: "bytes \<Rightarrow> u32" where
  "crc32_bitwise buf = foldl crc_shift_in 0xffffffff (concat (map byte_bits buf))"

lemma crc_bit_alt: "crc_bit c = push_bit 1 c XOR (if bit c 31 then 0x04c11db7 else 0)"
proof -
  have "c AND push_bit 31 1 \<noteq> 0 \<longleftrightarrow> bit c 31" by (simp add: bit_iff_and_push_bit_not_eq_0)
  then show ?thesis by (simp add: crc_bit_def)
qed

lemma u32_bit [dest]: "bit (w :: u32) i \<Longrightarrow> i < 32"
  by (drule bit_imp_le_length) simp

lemma u8_bit [dest]: "bit (w :: u8) i \<Longrightarrow> i < 8"
  by (drule bit_imp_le_length) simp

lemma bit_crc_bit:
  "n < 32 \<Longrightarrow> bit (crc_bit c) n \<longleftrightarrow> (0 < n \<and> bit c (n - 1)) \<noteq> (bit c 31 \<and> bit (0x04c11db7 :: u32) n)"
  unfolding crc_bit_alt bit_xor_iff bit_push_bit_iff by auto

lemma crc_bit_xor: "crc_bit (a XOR b) = crc_bit a XOR crc_bit b"
  by (auto simp: crc_bit_alt push_bit_xor bit_simps xor.assoc xor.left_commute)

lemma crc_bits_xor: "(crc_bit ^^ n) (a XOR b) = (crc_bit ^^ n) a XOR (crc_bit ^^ n) b"
  by (induction n) (simp_all add: crc_bit_xor)

lemma crc_bits_low: "(\<And>i. 32 - n \<le> i \<Longrightarrow> \<not> bit (c :: u32) i) \<Longrightarrow> (crc_bit ^^ n) c = push_bit n c"
proof (induction n)
  case (Suc n)
  have "(crc_bit ^^ n) c = push_bit n c" using Suc by simp
  moreover have "\<not> bit (push_bit n c) 31" using Suc.prems [of "31 - n"] by (auto simp: bit_simps)
  ultimately show ?case using crc_bit_alt [of "push_bit n c"] by (simp add: push_bit_push_bit)
qed simp


lemma crc_byte_table: "(crc_bit ^^ 8) c = push_bit 8 c XOR crc_table ! unat (drop_bit 24 c)"
proof -
  define lo hi where "lo = c AND mask 24" and "hi = drop_bit 24 c"
  have c: "c = lo XOR push_bit 24 hi"
    by (rule bit_word_eqI) (auto simp: bit_simps lo_def hi_def)
  have "(crc_bit ^^ 8) lo = push_bit 8 lo" by (rule crc_bits_low) (simp add: lo_def bit_simps)
  moreover have "push_bit 8 lo = push_bit 8 c"
    by (rule bit_word_eqI) (auto simp: bit_simps lo_def)
  moreover have "unat hi < 256" by (simp add: hi_def unat_drop_bit_eq drop_bit_nat_def less_mult_imp_div_less u32_bound [simplified])
  then have "crc_table ! unat hi = (crc_bit ^^ 8) (push_bit 24 hi)"
    by (simp add: crc_table_def del: funpow.simps)
  ultimately show ?thesis unfolding hi_def [symmetric] by (subst c) (simp only: crc_bits_xor)
qed

lemma crc_update_bits: "crc_update c b = (crc_bit ^^ 8) (c XOR push_bit 24 (ucast b))"
proof -
  have "drop_bit 24 (c XOR push_bit 24 (ucast b)) = drop_bit 24 c XOR ucast b"
    by (rule bit_word_eqI) (auto simp: bit_simps dest: u8_bit)
  moreover have "push_bit 8 (c XOR push_bit 24 (ucast b)) = push_bit 8 c"
    by (rule bit_word_eqI) (auto simp: bit_simps)
  ultimately show ?thesis by (simp only: crc_byte_table crc_update_def)
qed

text \<open>
  Up to 32 message bits can be added to the register at once, as one word, before the shifts.
\<close>

definition crc_top :: u32 where "crc_top = push_bit 31 1"

lemma bit_crc_top [simp]: "bit crc_top i \<longleftrightarrow> i = 31"
  unfolding crc_top_def bit_push_bit_iff bit_1_iff by auto

primrec bits_word :: "bool list \<Rightarrow> u32" where
  "bits_word [] = 0"
| "bits_word (x # bs) = (if x then crc_top else 0) XOR drop_bit 1 (bits_word bs)"

lemma bit_bits_word:
  "length bs \<le> 32 \<Longrightarrow> i < 32 \<Longrightarrow> bit (bits_word bs) i \<longleftrightarrow> 31 - i < length bs \<and> bs ! (31 - i)"
proof (induction bs arbitrary: i)
  case (Cons x bs)
  show ?case
  proof (cases "i = 31")
    case True
    then show ?thesis by (auto simp: bit_simps)
  next
    case False
    then have "31 - i = Suc (31 - Suc i)" using Cons.prems by simp
    moreover have "bit (bits_word (x # bs)) i \<longleftrightarrow> bit (bits_word bs) (Suc i)"
      using False Cons.prems by (auto simp: bit_simps)
    ultimately show ?thesis using Cons.IH [of "Suc i"] Cons.prems False by simp
  qed
qed simp

lemma bits_word_inj: "length bs = length cs \<Longrightarrow> length bs \<le> 32 \<Longrightarrow> bits_word bs = bits_word cs \<Longrightarrow> bs = cs"
proof (rule nth_equalityI)
  fix i
  assume a: "length bs = length cs" "length bs \<le> 32" "bits_word bs = bits_word cs" "i < length bs"
  then have "31 - (31 - i) = i" by simp
  then show "bs ! i = cs ! i"
    using bit_bits_word [of bs "31 - i"] bit_bits_word [of cs "31 - i"] a by simp
qed

lemma crc_shift_in_bit: "crc_shift_in c b = crc_bit (c XOR (if b then crc_top else 0))"
proof (rule bit_word_eqI)
  fix n
  assume "n < LENGTH(32)"
  then show "bit (crc_shift_in c b) n = bit (crc_bit (c XOR (if b then crc_top else 0))) n"
    using bit_crc_bit [of n "c XOR (if b then crc_top else 0)"]
    unfolding crc_shift_in_def bit_xor_iff bit_push_bit_iff by (auto simp: bit_xor_iff)
qed

lemma crc_shift_in_bits:
  "length bs \<le> 32 \<Longrightarrow> foldl crc_shift_in c bs = (crc_bit ^^ length bs) (c XOR bits_word bs)"
proof (induction bs arbitrary: c)
  case (Cons x bs)
  have "\<not> bit (bits_word bs) 0" using Cons.prems bit_bits_word [of bs 0] by simp
  moreover have "bit (crc_bit (drop_bit 1 (bits_word bs))) n \<longleftrightarrow> 0 < n \<and> bit (bits_word bs) n" if "n < 32" for n
    using that by (cases n) (auto simp: bit_crc_bit bit_drop_bit_eq)
  ultimately have "crc_bit (drop_bit 1 (bits_word bs)) = bits_word bs"
    by (intro bit_word_eqI) (auto intro: gr0I)
  then have "crc_bit (c XOR bits_word (x # bs)) = crc_shift_in c x XOR bits_word bs"
    by (simp only: crc_shift_in_bit bits_word.simps crc_bit_xor xor.assoc)
  moreover have "foldl crc_shift_in c (x # bs) = (crc_bit ^^ length bs) (crc_shift_in c x XOR bits_word bs)"
    using Cons by simp
  ultimately show ?case by (simp only: list.size add_Suc_right add_0_right funpow_Suc_right comp_apply)
qed simp

lemma bits_word_byte: "bits_word (byte_bits b) = push_bit 24 (ucast b)"
proof (rule bit_word_eqI)
  fix i
  assume "i < LENGTH(32)"
  then show "bit (bits_word (byte_bits b)) i = bit (push_bit 24 (ucast b :: u32)) i"
    using bit_bits_word [of "byte_bits b" i]
    by (auto simp: byte_bits_def bit_simps simp del: bits_word.simps dest: u8_bit)
qed

lemma crc_update_bitwise: "crc_update c b = foldl crc_shift_in c (byte_bits b)"
proof -
  have "length (byte_bits b) = 8" by (simp add: byte_bits_def)
  then show ?thesis
    using crc_shift_in_bits [of "byte_bits b" c] by (simp add: crc_update_bits bits_word_byte)
qed


lemma foldl_crc_update: "foldl crc_update c buf = foldl crc_shift_in c (concat (map byte_bits buf))"
  by (induction buf arbitrary: c) (simp_all add: crc_update_bitwise)

text \<open>
  C28.  The table-driven checksum of the packer is the bit-serial CRC-32/MPEG-2: one shift of the
  register per message bit, most significant bit first, with the polynomial \<open>0x04c11db7\<close>.
\<close>

theorem crc32_mpeg2_bitwise: "crc32_mpeg2 buf = crc32_bitwise buf"
  by (simp add: crc32_mpeg2_def crc32_bitwise_def foldl_crc_update)

section \<open>Errors that the checksum finds\<close>

lemma crc_bit_0: "crc_bit x = 0 \<Longrightarrow> x = 0"
proof (rule bit_word_eqI)
  fix i
  assume x: "crc_bit x = 0" and i: "i < LENGTH(32)"
  have "\<not> bit x 31" using bit_crc_bit [of 0 x] x by simp
  moreover have "\<not> bit x i" if "i < 31" using bit_crc_bit [of "Suc i" x] x that calculation by simp
  ultimately show "bit x i = bit 0 i" using i by (cases "i = 31") auto
qed

lemma xor_cancel: "(c :: u32) XOR a = c XOR b \<Longrightarrow> a = b"
proof -
  assume "c XOR a = c XOR b"
  then have "c XOR (c XOR a) = c XOR (c XOR b)" by (simp only:)
  then show "a = b" unfolding xor.assoc [symmetric] by simp
qed

lemma crc_bit_inj: "inj crc_bit"
proof
  fix a b
  assume "crc_bit a = crc_bit b"
  then have "crc_bit (a XOR b) = 0" by (simp add: crc_bit_xor)
  then have "a XOR b = 0" by (rule crc_bit_0)
  then show "a = b" using xor_cancel [of a a b] by simp
qed

lemma crc_shift_in_inj: "crc_shift_in a x = crc_shift_in b x \<Longrightarrow> a = b"
  unfolding crc_shift_in_bit by (drule injD [OF crc_bit_inj], rule xor_cancel) (simp only: xor.commute)

lemma crc_shift_in_list_inj: "foldl crc_shift_in a bs = foldl crc_shift_in b bs \<Longrightarrow> a = b"
  by (induction bs arbitrary: a b) (auto dest: crc_shift_in_inj)

lemma byte_bits_inj: "byte_bits a = byte_bits b \<Longrightarrow> a = b"
proof (rule bit_word_eqI)
  fix i
  assume "byte_bits a = byte_bits b" "i < LENGTH(8)"
  then show "bit a i = bit b i" by (auto simp: byte_bits_def simp del: upt_Suc dest!: bspec [where x = "7 - i"])
qed

lemma bytes_bits_inj:
  "length us = length vs \<Longrightarrow> concat (map byte_bits us) = concat (map byte_bits vs) \<Longrightarrow> us = vs"
proof (induction us vs rule: list_induct2)
  case (Cons u us v vs)
  then have "byte_bits u = byte_bits v \<and> concat (map byte_bits us) = concat (map byte_bits vs)"
    by (simp add: byte_bits_def append_eq_append_conv)
  with Cons.IH byte_bits_inj show ?case by blast
qed simp

lemma bytes_bits_length: "length (concat (map byte_bits us)) = 8 * length us"
  by (induction us) (simp_all add: byte_bits_def)

lemma crc32_detects_burst:
  assumes "length us = length vs" "length us \<le> 4" "us \<noteq> vs"
  shows "crc32_mpeg2 (xs @ us @ zs) \<noteq> crc32_mpeg2 (xs @ vs @ zs)"
proof
  let ?bu = "concat (map byte_bits us)" and ?bv = "concat (map byte_bits vs)"
  define c where "c = foldl crc_shift_in 0xffffffff (concat (map byte_bits xs))"
  assume "crc32_mpeg2 (xs @ us @ zs) = crc32_mpeg2 (xs @ vs @ zs)"
  then have "foldl crc_shift_in c ?bu = foldl crc_shift_in c ?bv"
    by (simp add: crc32_mpeg2_def foldl_crc_update c_def) (erule crc_shift_in_list_inj)
  then have "(crc_bit ^^ length ?bu) (c XOR bits_word ?bu) = (crc_bit ^^ length ?bu) (c XOR bits_word ?bv)"
    using assms bytes_bits_length [of us] bytes_bits_length [of vs] by (simp add: crc_shift_in_bits)
  moreover have "inj (crc_bit ^^ length ?bu)" using crc_bit_inj by (rule inj_fn)
  ultimately have "c XOR bits_word ?bu = c XOR bits_word ?bv" by (meson injD)
  then have "bits_word ?bu = bits_word ?bv" by (rule xor_cancel)
  then have "?bu = ?bv"
    using assms bytes_bits_length [of us] bytes_bits_length [of vs] by (intro bits_word_inj) simp_all
  with bytes_bits_inj assms show False by blast
qed


section \<open>Packed images\<close>

lemma ucast_and_255: "ucast (v AND 255 :: u32) = (ucast v :: u8)"
proof -
  have "(255 :: u32) = mask 8" by (simp add: mask_eq_exp_minus_1)
  then show ?thesis by (simp add: bit_eq_iff bit_simps)
qed

interpretation asd32: le_field 4 write_le32 read_le32
proof
  fix i :: nat and p :: bytes and v :: u32
  show "i + 4 \<le> length p \<Longrightarrow> read_le32 p i = read_le32 (take 4 (drop i p)) 0"
    by (simp add: read_le32_def take_drop_nth)
  have "write_le32 v = put32 v"
    by (simp add: write_le32_def put32_def ucast_and_255)
  then show "read_le32 (write_le32 v) 0 = v"
    by (simp add: read_le32_def put32_def le32_join)
qed (simp add: write_le32_def)

lemma poke_length [simp]: "i + length bs \<le> length buf \<Longrightarrow> length (poke i bs buf) = length buf"
  by (simp add: poke_def)

lemma drop_poke: "i + length bs \<le> k \<Longrightarrow> i + length bs \<le> length buf \<Longrightarrow> drop k (poke i bs buf) = drop k buf"
  by (simp add: poke_def)

lemma take_poke: "k \<le> i \<Longrightarrow> i \<le> length buf \<Longrightarrow> take k (poke i bs buf) = take k buf"
  by (simp add: poke_def)

lemmas asd_layout = IMAGE_START_def LCFG_HEADER_SIZE_def LCFG_SIZE_OFF_def LCFG_CRC_OFF_def LCFG_MAGIC_def

text \<open>The header fields and the payload of a packed image.\<close>

lemma pack_image_parts:
  fixes img :: bytes
  defines "out \<equiv> pack_image img"
  shows "length out = IMAGE_START + length img" "take 4 out = LCFG_MAGIC"
    "read_le32 out LCFG_SIZE_OFF = word_of_nat (length out - LCFG_HEADER_SIZE)"
    "drop LCFG_HEADER_SIZE out = replicate (IMAGE_START - LCFG_HEADER_SIZE) 0 @ img"
    "read_le32 out LCFG_CRC_OFF = crc32_mpeg2 (drop LCFG_HEADER_SIZE out)"
proof -
  define b0 where "b0 = poke 0 LCFG_MAGIC (poke IMAGE_START img (replicate (IMAGE_START + length img) 0))"
  define b1 where "b1 = poke LCFG_SIZE_OFF (write_le32 (word_of_nat (IMAGE_START + length img - LCFG_HEADER_SIZE))) b0"
  define crc where "crc = crc32_mpeg2 (drop LCFG_HEADER_SIZE b1)"
  have l: "length b0 = IMAGE_START + length img" "length b1 = IMAGE_START + length img"
    by (simp_all add: b0_def b1_def asd_layout)
  have o: "out = poke LCFG_CRC_OFF (write_le32 crc) b1"
    unfolding out_def pack_image_def Let_def b0_def [symmetric] b1_def [symmetric]
    by (simp add: crc_def l)
  show len: "length out = IMAGE_START + length img" by (simp add: o l asd_layout)
  have "take 4 b0 = LCFG_MAGIC" by (simp add: b0_def poke_def asd_layout)
  then show "take 4 out = LCFG_MAGIC" by (simp add: o b1_def take_poke l asd_layout)
  show "read_le32 out LCFG_SIZE_OFF = word_of_nat (length out - LCFG_HEADER_SIZE)"
    unfolding len unfolding o
    by (subst asd32.get_poke_other) (simp_all add: l asd_layout b1_def asd32.get_poke_same)
  have p: "drop LCFG_HEADER_SIZE b1 = replicate (IMAGE_START - LCFG_HEADER_SIZE) 0 @ img"
    by (simp add: b1_def b0_def drop_poke asd_layout) (simp add: poke_def)
  have d: "drop LCFG_HEADER_SIZE out = drop LCFG_HEADER_SIZE b1" by (simp add: o drop_poke l asd_layout)
  with p show "drop LCFG_HEADER_SIZE out = replicate (IMAGE_START - LCFG_HEADER_SIZE) 0 @ img" by simp
  show "read_le32 out LCFG_CRC_OFF = crc32_mpeg2 (drop LCFG_HEADER_SIZE out)"
    unfolding d crc_def [symmetric] unfolding o by (rule asd32.get_poke_same) (simp add: l asd_layout)
qed

lemma pack_image_checks:
  assumes "IMAGE_START + length img < 2 ^ 32"
  shows "check_image (pack_image img)"
proof -
  have "unat (word_of_nat (IMAGE_START + length img - LCFG_HEADER_SIZE) :: u32) =
      IMAGE_START + length img - LCFG_HEADER_SIZE"
    using assms by (simp add: unsigned_of_nat take_bit_nat_eq_self)
  then show ?thesis
    unfolding check_image_def Let_def pack_image_parts by (simp add: pack_image_parts asd_layout)
qed

text \<open>
  C27.  The check of the packer finds every burst of damage of up to 32 bits in whole bytes: from an
  image that passes, changing up to four consecutive bytes behind the header gives one that does
  not pass.
\<close>

theorem asd_check_detects:
  assumes "check_image (hdr @ xs @ us @ zs)" "length hdr = LCFG_HEADER_SIZE"
    "length us = length vs" "length us \<le> 4" "us \<noteq> vs"
  shows "\<not> check_image (hdr @ xs @ vs @ zs)"
proof -
  have "read_le32 (hdr @ t) LCFG_CRC_OFF = read_le32 hdr LCFG_CRC_OFF" for t
    using assms(2) by (intro asd32.get_front) (simp add: asd_layout)
  then show ?thesis
    using assms crc32_detects_burst [OF assms(3-5), of xs zs]
    by (auto simp: check_image_def Let_def split: if_splits)
qed

theorem asd_check_detects_witness:
  "\<not> check_image (take LCFG_HEADER_SIZE (pack_image [7]) @ replicate 0xe00 0 @ [6] @ [])"
proof (rule asd_check_detects [of _ _ "[7]"])
  have "take LCFG_HEADER_SIZE (pack_image [7]) @ replicate 0xe00 0 @ [7] @ [] = pack_image [7]"
    by (rule trans [OF _ append_take_drop_id], subst pack_image_parts(4)) (simp add: asd_layout)
  then show "check_image (take LCFG_HEADER_SIZE (pack_image [7]) @ replicate 0xe00 0 @ [7] @ [])"
    using pack_image_checks [of "[7]"] by (simp only:) (simp add: asd_layout)
qed (simp_all add: pack_image_parts asd_layout)

section \<open>The whole boot chain\<close>

lemma stage1_start_handoff: "sg_handoff (stage1_start b s) = sg_handoff s"
  by (simp add: stage1_start_def clear_bss_def note_trace_def write_diag_def fastboot_backlight_off_def
      fastboot_log_passive_hardware_fingerprint_def fastboot_log_key_fingerprint_def fastboot_detect_board_def
      Let_def split: prod.splits)

lemma handoff_boots:
  assumes "rom_mount rom = 0" "unifrog_boot_asd_path_supported (Some p)" "NUL \<notin> set p"
    "sg_handoff s = \<lparr>ho_magic = FASTBOOT_HANDOFF_MAGIC,
       ho_path = pad_to FASTBOOT_HANDOFF_PATH_BYTES (text_copy FASTBOOT_HANDOFF_PATH_BYTES p)\<rparr>"
    "\<And>t. \<exists>t'. load_asd_staged rom p t = (True, t') \<and> Q (sg_mem t')"
  shows "\<exists>s'. stage1_main b rom s = (s', Jumped p) \<and> Q (sg_mem s')"
proof -
  define s0 where "s0 = write_diag 2 (rom_mount rom) [] (note_trace 12 (rom_mount rom) 0 0 (stage1_start b s))"
  have "sg_handoff s0 = sg_handoff s"
    by (simp add: s0_def stage1_start_handoff write_diag_def note_trace_def)
  then have ho: "\<exists>s1. read_handoff_path s0 = (Some p, s1)"
    using requested_handoff [OF assms(2,3), of s0] assms(4) by simp
  then obtain s1 where s1: "read_handoff_path s0 = (Some p, s1)" by blast
  obtain s2 where s2: "load_asd_staged rom p (write_diag 3 0 p (note_trace 13 0 (trace_path_hash p) 0 s1)) = (True, s2)"
      "Q (sg_mem s2)"
    using assms(5) by blast
  have "stage1_main b rom s = jump_to_payload p (write_diag 4 0 p s2)"
    unfolding stage1_main_def Let_def s0_def [symmetric] using assms(1) s1 s2 by simp
  moreover have "jump_to_payload p t = (fst (jump_to_payload p t), Jumped p)" for t
    by (metis jump_outcome prod.collapse)
  ultimately show ?thesis using s2(2) by (metis jump_fail_mem(1) sg_mem_simps(2))
qed

lemma load_packed_image:
  assumes "rom_serves rom p (pack_image img)"
    "IMAGE_START - LCFG_HEADER_SIZE + length img \<le> unat (FASTBOOT_CHUNK_ADDR - ASD_STAGE_ADDR)"
  shows "\<exists>t'. load_asd_staged rom p t = (True, t') \<and> mem_read ENTRY_ADDR (length img) (sg_mem t') = img"
proof -
  have sz: "unat (rom_size rom p) = IMAGE_START + length img"
    using assms(1) by (simp add: rom_serves_def pack_image_parts)
  then have ok: "asd_size_ok (rom_size rom p)"
    using assms(2) by (simp add: asd_size_ok_def asd_layout boot_addrs)
  obtain t' where t': "load_asd_staged rom p t = (True, t')"
      "mem_read ASD_LOAD_ADDR (IMAGE_START + length img - ASD_SKIP) (sg_mem t') = drop ASD_SKIP (pack_image img)"
    using load_asd_staged_served [OF assms(1) ok, of t] by (auto simp: pack_image_parts)
  have "ASD_SKIP = LCFG_HEADER_SIZE" by (simp add: boot_addrs asd_layout)
  then have "drop (IMAGE_START - LCFG_HEADER_SIZE)
      (mem_read ASD_LOAD_ADDR (IMAGE_START + length img - LCFG_HEADER_SIZE) (sg_mem t')) = img"
    using t'(2) by (simp add: pack_image_parts del: drop_drop)
  then have "mem_read ENTRY_ADDR (length img) (sg_mem t') = img"
    by (subst (asm) mem_read_drop) (simp_all add: asd_layout boot_addrs)
  with t'(1) show ?thesis by blast
qed

text \<open>
  C4.  The boot chain as a whole.  An image that the tool packed and that lies on a readable card
  under a path the firmware supports: the firmware's request succeeds, the boot stage enters that
  very path, and at the entry address the memory holds the image byte for byte.  The image must fit
  the staging area; the boot stage linked into the firmware must fit below its stack.
\<close>

theorem boot_chain_loads_packed_image:
  assumes "unifrog_boot_asd_path_supported (Some p)" "NUL \<notin> set p"
    "stage_image \<noteq> []" "length stage_image \<le> unat (FASTBOOT_STACK_ADDR - FASTBOOT_STAGE1_ADDR)"
    "rom_mount rom = 0" "rom_serves rom p (pack_image img)"
    "IMAGE_START - LCFG_HEADER_SIZE + length img \<le> unat (FASTBOOT_CHUNK_ADDR - ASD_STAGE_ADDR)"
  shows "\<exists>s1 s2. unifrog_boot_asd_path stage_image (Some p) s = Some s1 \<and>
    stage1_main b rom s1 = (s2, Jumped p) \<and> mem_read ENTRY_ADDR (length img) (sg_mem s2) = img"
proof -
  obtain s1 where s1: "unifrog_boot_asd_path stage_image (Some p) s = Some s1"
      "sg_handoff s1 = \<lparr>ho_magic = FASTBOOT_HANDOFF_MAGIC,
         ho_path = pad_to FASTBOOT_HANDOFF_PATH_BYTES (text_copy FASTBOOT_HANDOFF_PATH_BYTES p)\<rparr>"
    using assms(1,3,4) by (simp add: unifrog_boot_asd_path_def boot_via_stage1_path_def Let_def)
  then show ?thesis
    using handoff_boots [OF assms(5,1,2) s1(2), where Q = "\<lambda>m. mem_read ENTRY_ADDR (length img) m = img", of b]
      load_packed_image [OF assms(6,7)] by blast
qed

theorem boot_chain_loads_packed_image_witness:
  "\<exists>s1 s2. unifrog_boot_asd_path [1] (Some ''a/b.asd'') cold_stage = Some s1 \<and>
    stage1_main idle_board (serving (\<lambda>path. pack_image [42])) s1 = (s2, Jumped ''a/b.asd'') \<and>
    mem_read ENTRY_ADDR (length [42 :: u8]) (sg_mem s2) = [42]"
proof (rule boot_chain_loads_packed_image)
  have "pack_image [42] \<noteq> []" using pack_image_parts(1) [of "[42]"] by (auto simp: asd_layout)
  then show "rom_serves (serving (\<lambda>path. pack_image [42])) ''a/b.asd'' (pack_image [42])"
    by (simp add: rom_serves_def serving_def pack_image_parts asd_layout unsigned_of_nat)
  show "unifrog_boot_asd_path_supported (Some ''a/b.asd'')" by code_simp
qed (simp_all add: boot_addrs asd_layout serving_def)

end
