(* ===== verification/UF_Abi.thy ===== *)
theory UF_Abi
  imports UF_Prelude
begin

text \<open>
  The binary interface between the firmware and the core modules
  (\<open>foundation/src/abi/unifrog_abi.c\<close>): its version check, and the application memory, from whose
  top one block can be reserved.  The device tree is a parameter: for a path, the two cells of the
  \<open>reg\<close> property, or \<open>None\<close> when the node or a cell is missing.
\<close>

section \<open>Versions\<close>

definition UNIFROG_ABI_MAGIC :: u32 where "UNIFROG_ABI_MAGIC = 0x55464142"
definition UNIFROG_ABI_VERSION_MAJOR_VALUE :: u32 where "UNIFROG_ABI_VERSION_MAJOR_VALUE = 0"
definition UNIFROG_ABI_VERSION_MINOR_VALUE :: u32 where "UNIFROG_ABI_VERSION_MINOR_VALUE = 5"
definition UNIFROG_ABI_VERSION_PATCH_VALUE :: u32 where "UNIFROG_ABI_VERSION_PATCH_VALUE = 0"

definition UNIFROG_ABI_VERSION_ENCODE :: "u32 \<Rightarrow> u32 \<Rightarrow> u32 \<Rightarrow> u32" where
  "UNIFROG_ABI_VERSION_ENCODE major minor patch =
     push_bit 16 (major AND 0xff) OR push_bit 8 (minor AND 0xff) OR (patch AND 0xff)"

definition UNIFROG_ABI_VERSION_GET_MAJOR :: "u32 \<Rightarrow> u32" where
  "UNIFROG_ABI_VERSION_GET_MAJOR version = drop_bit 16 version AND 0xff"

definition UNIFROG_ABI_VERSION_GET_MINOR :: "u32 \<Rightarrow> u32" where
  "UNIFROG_ABI_VERSION_GET_MINOR version = drop_bit 8 version AND 0xff"

definition UNIFROG_ABI_VERSION :: u32 where
  "UNIFROG_ABI_VERSION = UNIFROG_ABI_VERSION_ENCODE UNIFROG_ABI_VERSION_MAJOR_VALUE
     UNIFROG_ABI_VERSION_MINOR_VALUE UNIFROG_ABI_VERSION_PATCH_VALUE"

text \<open>Of the table of callbacks, what the checks read: \<open>magic\<close>, \<open>size\<close> and \<open>version\<close>.\<close>

record unifrog_abi =
  abi_magic :: u32
  abi_size :: u32
  abi_version :: u32

text \<open>Four words, then 48 callbacks of which the first 39 are the base every core may use.\<close>

definition UNIFROG_ABI_CORE_MIN_SIZE :: u32 where "UNIFROG_ABI_CORE_MIN_SIZE = 16 + 39 * 4"

definition unifrog_abi_table :: unifrog_abi where
  "unifrog_abi_table = \<lparr>abi_magic = UNIFROG_ABI_MAGIC, abi_size = 16 + 48 * 4, abi_version = UNIFROG_ABI_VERSION\<rparr>"

definition unifrog_abi_compatible :: "u32 \<Rightarrow> bool" where
  "unifrog_abi_compatible required_version =
     (if UNIFROG_ABI_VERSION_GET_MAJOR required_version \<noteq> UNIFROG_ABI_VERSION_MAJOR_VALUE then False
      else if UNIFROG_ABI_VERSION_GET_MINOR required_version > UNIFROG_ABI_VERSION_MINOR_VALUE then False
      else True)"

definition unifrog_abi_table_compatible :: "unifrog_abi option \<Rightarrow> u32 \<Rightarrow> u32 \<Rightarrow> bool" where
  "unifrog_abi_table_compatible abi required_version required_size =
     (case abi of None \<Rightarrow> False
      | Some abi \<Rightarrow>
          if abi_magic abi \<noteq> UNIFROG_ABI_MAGIC then False
          else if abi_size abi < required_size then False
          else if UNIFROG_ABI_VERSION_GET_MAJOR (abi_version abi) \<noteq> UNIFROG_ABI_VERSION_GET_MAJOR required_version
          then False
          else if UNIFROG_ABI_VERSION_GET_MINOR (abi_version abi) < UNIFROG_ABI_VERSION_GET_MINOR required_version
          then False
          else True)"

section \<open>Application memory\<close>

definition UNIFROG_APP_ARENA_MIN_BYTES :: u32 where "UNIFROG_APP_ARENA_MIN_BYTES = 2 * 1024 * 1024"

definition UNIFROG_MIPS_CACHED_ADDR :: "u32 \<Rightarrow> u32" where
  "UNIFROG_MIPS_CACHED_ADDR addr = (addr OR 0x80000000) AND 0x9fffffff"

datatype fdt_path = UNIFROG_APPMEM_PATH | UNIFROG_SYSMEM_PATH | UNIFROG_MMZ0_PATH

type_synonym fdt = "fdt_path \<Rightarrow> (u32 \<times> u32) option"

definition UNIFROG_ABI_MEMORY_EXECUTABLE :: u32 where "UNIFROG_ABI_MEMORY_EXECUTABLE = 1"
definition UNIFROG_ABI_MEMORY_CACHEABLE :: u32 where "UNIFROG_ABI_MEMORY_CACHEABLE = 2"
definition UNIFROG_ABI_MEMORY_RESERVED :: u32 where "UNIFROG_ABI_MEMORY_RESERVED = 4"
definition UNIFROG_ABI_MEMORY_RECLAIMABLE :: u32 where "UNIFROG_ABI_MEMORY_RECLAIMABLE = 8"
definition UNIFROG_ABI_MEMORY_RUNTIME :: u32 where "UNIFROG_ABI_MEMORY_RUNTIME = 16"
definition UNIFROG_ABI_MEMORY_MEDIA :: u32 where "UNIFROG_ABI_MEMORY_MEDIA = 32"
definition UNIFROG_ABI_MEMORY_APPLICATION :: u32 where "UNIFROG_ABI_MEMORY_APPLICATION = 64"

record memory_slot =
  slot_base :: u32
  slot_bytes :: u32
  slot_flags :: u32

record memory_region =
  region_cached :: u32
  region_physical :: u32
  region_bytes :: u32
  region_flags :: u32

record memory_layout =
  ly_version :: u32
  ly_region_count :: u32
  ly_runtime :: memory_region
  ly_external :: memory_region
  ly_media :: memory_region

text \<open>The two static variables: the start and the size of the reserved block; size 0 is none.\<close>

record appmem =
  reserved_top :: u32
  reserved_bytes :: u32

definition fdt_read_region :: "fdt \<Rightarrow> fdt_path \<Rightarrow> (u32 \<times> u32 \<times> u32) option" where
  "fdt_read_region fdt path = (case fdt path of None \<Rightarrow> None
     | Some (reg_base, reg_size) \<Rightarrow> Some (UNIFROG_MIPS_CACHED_ADDR reg_base, reg_base, reg_size))"

definition is_power_of_two_size :: "u32 \<Rightarrow> bool" where
  "is_power_of_two_size value \<longleftrightarrow> value \<noteq> 0 \<and> value AND (value - 1) = 0"

definition align_down_uintptr :: "u32 \<Rightarrow> u32 \<Rightarrow> u32" where
  "align_down_uintptr value alignment = value AND NOT (alignment - 1)"

definition read_app_region :: "fdt \<Rightarrow> (u32 \<times> u32 \<times> u32) option" where
  "read_app_region fdt = (case fdt_read_region fdt UNIFROG_APPMEM_PATH of None \<Rightarrow> None
     | Some (base, phys, bytes) \<Rightarrow>
         if bytes < UNIFROG_APP_ARENA_MIN_BYTES then None else Some (base, phys, bytes))"

definition app_flags :: u32 where
  "app_flags = UNIFROG_ABI_MEMORY_EXECUTABLE OR UNIFROG_ABI_MEMORY_CACHEABLE OR UNIFROG_ABI_MEMORY_RESERVED OR
     UNIFROG_ABI_MEMORY_RECLAIMABLE OR UNIFROG_ABI_MEMORY_APPLICATION"

definition read_app_arena :: "fdt \<Rightarrow> appmem \<Rightarrow> memory_slot option" where
  "read_app_arena fdt am = (case read_app_region fdt of None \<Rightarrow> None
     | Some (base, phys, bytes) \<Rightarrow>
         if reserved_bytes am \<noteq> 0
         then (if reserved_bytes am \<ge> bytes then None
               else let bytes = bytes - reserved_bytes am
                    in if bytes < UNIFROG_APP_ARENA_MIN_BYTES then None
                       else Some \<lparr>slot_base = base, slot_bytes = bytes, slot_flags = app_flags\<rparr>)
         else Some \<lparr>slot_base = base, slot_bytes = bytes, slot_flags = app_flags\<rparr>)"

definition unifrog_abi_application_memory_slot :: "fdt \<Rightarrow> appmem \<Rightarrow> memory_slot option" where
  "unifrog_abi_application_memory_slot fdt am = read_app_arena fdt am"

definition unifrog_abi_application_memory_reserve_top :: "fdt \<Rightarrow> u32 \<Rightarrow> u32 \<Rightarrow> appmem \<Rightarrow> u32 option \<times> appmem" where
  "unifrog_abi_application_memory_reserve_top fdt bytes alignment am =
     (if bytes = 0 then (None, am)
      else if reserved_bytes am \<noteq> 0 then (None, am)
      else let alignment = (if alignment < 32 then 32 else alignment)
      in if \<not> is_power_of_two_size alignment then (None, am)
      else case read_app_region fdt of None \<Rightarrow> (None, am)
      | Some (base, phys, arena_bytes) \<Rightarrow>
          if bytes > arena_bytes - UNIFROG_APP_ARENA_MIN_BYTES then (None, am)
          else let arena_end = base + arena_bytes;
                   reserve_end = align_down_uintptr arena_end alignment
          in if reserve_end < base \<or> bytes > reserve_end - base then (None, am)
          else let reserve_start = align_down_uintptr (reserve_end - bytes) alignment
          in if reserve_start < base \<or> reserve_start - base < UNIFROG_APP_ARENA_MIN_BYTES then (None, am)
          else (Some reserve_start, \<lparr>reserved_top = reserve_start, reserved_bytes = arena_end - reserve_start\<rparr>))"

definition unifrog_abi_application_memory_release_top :: "u32 \<Rightarrow> appmem \<Rightarrow> appmem" where
  "unifrog_abi_application_memory_release_top ptr am =
     (if reserved_bytes am = 0 then am
      else if ptr \<noteq> 0 \<and> ptr \<noteq> reserved_top am then am
      else \<lparr>reserved_top = 0, reserved_bytes = 0\<rparr>)"

definition fill_region :: "u32 \<times> u32 \<times> u32 \<Rightarrow> u32 \<Rightarrow> memory_region" where
  "fill_region r flags = (case r of (cached, physical, bytes) \<Rightarrow>
     \<lparr>region_cached = cached, region_physical = physical, region_bytes = bytes, region_flags = flags\<rparr>)"

definition zero_region :: memory_region where
  "zero_region = \<lparr>region_cached = 0, region_physical = 0, region_bytes = 0, region_flags = 0\<rparr>"

definition unifrog_abi_memory_layout :: "fdt \<Rightarrow> appmem \<Rightarrow> bool \<times> memory_layout" where
  "unifrog_abi_memory_layout fdt am =
     (let ly = \<lparr>ly_version = UNIFROG_ABI_VERSION, ly_region_count = 0, ly_runtime = zero_region,
            ly_external = zero_region, ly_media = zero_region\<rparr>;
          ly = (case fdt_read_region fdt UNIFROG_SYSMEM_PATH of None \<Rightarrow> ly
            | Some r \<Rightarrow> ly\<lparr>ly_runtime := fill_region r (UNIFROG_ABI_MEMORY_CACHEABLE OR UNIFROG_ABI_MEMORY_RUNTIME),
                ly_region_count := ly_region_count ly + 1\<rparr>);
          ly = (case read_app_region fdt of None \<Rightarrow> ly
            | Some (cached, physical, bytes) \<Rightarrow>
                let bytes = (if reserved_bytes am \<noteq> 0 \<and> reserved_bytes am < bytes
                             then bytes - reserved_bytes am else bytes)
                in ly\<lparr>ly_external := fill_region (cached, physical, bytes) app_flags,
                      ly_region_count := ly_region_count ly + 1\<rparr>);
          ly = (case fdt_read_region fdt UNIFROG_MMZ0_PATH of None \<Rightarrow> ly
            | Some (cached, physical, bytes) \<Rightarrow>
                if bytes > 0
                then ly\<lparr>ly_media := fill_region (cached, physical, bytes)
                         (UNIFROG_ABI_MEMORY_CACHEABLE OR UNIFROG_ABI_MEMORY_MEDIA),
                       ly_region_count := ly_region_count ly + 1\<rparr>
                else ly)
      in (region_bytes (ly_external ly) \<ge> UNIFROG_APP_ARENA_MIN_BYTES, ly))"

section \<open>Alignment\<close>


lemma top_bit_set: "2 ^ k \<le> n \<Longrightarrow> n < 2 ^ Suc k \<Longrightarrow> bit (n :: nat) k"
proof -
  assume "2 ^ k \<le> n" "n < 2 ^ Suc k"
  then have "n div 2 ^ k = 1" by (intro div_nat_eqI) simp_all
  then show "bit n k" by (simp add: bit_iff_odd)
qed

lemma is_power_of_two_sizeD:
  assumes p: "is_power_of_two_size v"
  shows "\<exists>k < 32. unat v = 2 ^ k"
proof -
  from p have "v \<noteq> 0" and a: "v AND (v - 1) = 0" by (simp_all add: is_power_of_two_size_def)
  then have v: "0 < unat v" by (simp add: unat_gt_0)
  obtain k where k: "2 ^ k \<le> unat v" "unat v < 2 ^ Suc k"
    using ex_power_ivl1 [of 2 "unat v"] v by auto
  have "unat v < 2 ^ 32" using unsigned_less [of v] by simp
  then have "2 ^ k < (2 :: nat) ^ 32" using k(1) by linarith
  then have k32: "k < 32" by (rule power_less_imp_less_exp [rotated]) simp
  have "unat v = 2 ^ k"
  proof (rule ccontr)
    assume "unat v \<noteq> 2 ^ k"
    then have "2 ^ k \<le> unat v - 1" "unat v - 1 < 2 ^ Suc k" using k by linarith+
    then have "bit (unat v - 1) k" by (rule top_bit_set)
    moreover have "unat (v - 1) = unat v - 1" using v by (simp add: unat_sub_if' word_le_nat_alt)
    moreover have "bit (unat v) k" using k by (rule top_bit_set)
    ultimately have "bit (v AND (v - 1)) k" by (metis bit_and_iff bit_unsigned_iff)
    with a show False by simp
  qed
  with k32 show "\<exists>k < 32. unat v = 2 ^ k" by blast
qed

lemma align_down_nat:
  assumes "k < 32" "unat a = 2 ^ k"
  shows "unat (align_down_uintptr x a) = 2 ^ k * (unat x div 2 ^ k)"
proof -
  have "a = word_of_nat (unat a)" by simp
  then have "a - 1 = mask k" by (simp add: assms(2) mask_eq_exp_minus_1)
  then have "align_down_uintptr x a = push_bit k (drop_bit k x)"
    unfolding align_down_uintptr_def by (intro bit_word_eqI) (auto simp: bit_simps)
  moreover have "2 ^ k * (unat x div 2 ^ k) < 2 ^ 32"
    by (rule le_less_trans [OF times_div_less_eq_dividend]) (use unsigned_less [of x] in simp)
  moreover have "unat (drop_bit k x) = unat x div 2 ^ k" by (simp only: unat_drop_bit_eq) (simp add: drop_bit_eq_div)
  ultimately show ?thesis
    by (simp only: unsigned_push_bit_eq) (simp add: push_bit_eq_mult take_bit_nat_eq_self mult.commute)
qed


lemma align_down_aligned:
  assumes "is_power_of_two_size a"
  shows "unat (align_down_uintptr x a) \<le> unat x \<and> unat a dvd unat (align_down_uintptr x a)"
proof -
  obtain k where "k < 32" "unat a = 2 ^ k" using is_power_of_two_sizeD [OF assms] by blast
  then show ?thesis by (simp add: align_down_nat)
qed

lemma read_app_region_min:
  "read_app_region fdt = Some (base, phys, bytes) \<Longrightarrow> UNIFROG_APP_ARENA_MIN_BYTES \<le> bytes"
  by (auto simp: read_app_region_def split: option.splits if_splits)

lemma unat_sub_le: "(a :: u32) \<le> b \<Longrightarrow> unat (b - a) = unat b - unat a"
  by (simp add: unat_sub)

text \<open>A sum that wrapped around is below both summands.\<close>

lemma unat_add_nowrap: "(a :: u32) \<le> a + b \<Longrightarrow> unat (a + b) = unat a + unat b"
  using unsigned_less [of b, where ?'a = nat]
  by (simp add: unat_plus_if_size word_le_nat_alt word_size not_less split: if_splits)

text \<open>
  C18.  The block that \<open>unifrog_abi_application_memory_reserve_top\<close> hands out and the slot that
  modules are loaded into afterwards never overlap: the slot ends exactly where the block begins
  and keeps at least the minimal arena, the block ends inside the application memory as the device
  tree describes it, and its start is aligned as requested (to 32 bytes at least).
\<close>

theorem reserve_top_disjoint:
  assumes "unifrog_abi_application_memory_reserve_top fdt bytes alignment am = (Some p, am')"
  shows "\<exists>base phys arena sl. read_app_region fdt = Some (base, phys, arena) \<and>
    unifrog_abi_application_memory_slot fdt am' = Some sl \<and> slot_base sl = base \<and>
    unat base + unat (slot_bytes sl) = unat p \<and> unat p + unat bytes \<le> unat base + unat arena \<and>
    UNIFROG_APP_ARENA_MIN_BYTES \<le> slot_bytes sl \<and> unat (max 32 alignment) dvd unat p"
proof -
  define al where "al = max 32 alignment"
  have al: "al = (if alignment < 32 then 32 else alignment)" by (auto simp: al_def max_def)
  obtain base phys arena where r: "read_app_region fdt = Some (base, phys, arena)"
    using assms by (auto simp: unifrog_abi_application_memory_reserve_top_def Let_def split: if_splits option.splits)
  define e where "e = align_down_uintptr (base + arena) al"
  have g: "is_power_of_two_size al" "\<not> e < base" "\<not> e - base < bytes"
      "p = align_down_uintptr (e - bytes) al" "\<not> p < base" "\<not> p - base < UNIFROG_APP_ARENA_MIN_BYTES"
      "am' = \<lparr>reserved_top = p, reserved_bytes = base + arena - p\<rparr>"
    using assms r unfolding unifrog_abi_application_memory_reserve_top_def Let_def al [symmetric]
    by (auto simp: e_def split: if_splits)
  have e: "unat e \<le> unat (base + arena)" using align_down_aligned [OF g(1)] by (simp add: e_def)
  have nw: "unat (base + arena) = unat base + unat arena"
    by (rule unat_add_nowrap) (use e g(2) in \<open>simp add: word_le_nat_alt not_less\<close>)
  have be: "bytes \<le> e" using g(2,3) unat_sub_le [of base e] by (simp add: word_le_nat_alt word_less_nat_alt not_less)
  have p: "unat p \<le> unat e - unat bytes" "unat al dvd unat p"
    using align_down_aligned [OF g(1), of "e - bytes"] g(4) unat_sub_le [OF be] by simp_all
  have b0: "0 < unat bytes"
    using assms by (cases "bytes = 0") (auto simp: unifrog_abi_application_memory_reserve_top_def unat_gt_0)
  let ?rb = "base + arena - p"
  have ple: "p \<le> base + arena" using p(1) e by (simp add: word_le_nat_alt)
  have rb: "unat ?rb = unat base + unat arena - unat p" using unat_sub_le [OF ple] nw by simp
  have pb: "unat base \<le> unat p" using g(5) by (simp add: word_less_nat_alt not_less)
  have min: "unat UNIFROG_APP_ARENA_MIN_BYTES \<le> unat p - unat base"
    using g(5,6) unat_sub_le [of base p] by (simp add: word_less_nat_alt word_le_nat_alt not_less)
  have m0: "0 < unat UNIFROG_APP_ARENA_MIN_BYTES" by (simp add: UNIFROG_APP_ARENA_MIN_BYTES_def)
  have eb: "unat bytes \<le> unat e" using be by (simp add: word_le_nat_alt)
  have sl: "unat (arena - ?rb) = unat p - unat base"
    using unat_sub_le [of ?rb arena] rb pb p(1) e nw by (simp add: word_le_nat_alt)
  have "?rb \<noteq> 0" using rb p(1) e nw b0 eb by (auto simp: unat_eq_0 [symmetric])
  moreover have "\<not> arena \<le> ?rb" using rb pb min m0 p(1) e nw by (simp add: word_le_nat_alt)
  moreover have "\<not> arena - ?rb < UNIFROG_APP_ARENA_MIN_BYTES" using sl min by (simp add: word_less_nat_alt)
  ultimately have "unifrog_abi_application_memory_slot fdt am' =
      Some \<lparr>slot_base = base, slot_bytes = arena - ?rb, slot_flags = app_flags\<rparr>"
    using r g(7) by (simp add: unifrog_abi_application_memory_slot_def read_app_arena_def Let_def)
  with r sl min pb p e nw eb show ?thesis
    by - (rule exI [of _ base], rule exI [of _ phys], rule exI [of _ arena],
      rule exI [of _ "\<lparr>slot_base = base, slot_bytes = arena - ?rb, slot_flags = app_flags\<rparr>"],
      simp add: word_le_nat_alt al_def)
qed

theorem reserve_top_disjoint_witness:
  "\<exists>base phys arena sl. read_app_region (\<lambda>p. Some (0x1000000, 0x800000)) = Some (base, phys, arena) \<and>
    unifrog_abi_application_memory_slot (\<lambda>p. Some (0x1000000, 0x800000))
      \<lparr>reserved_top = 0x816fff00, reserved_bytes = 0x100100\<rparr> = Some sl \<and> slot_base sl = base \<and>
    unat base + unat (slot_bytes sl) = unat (0x816fff00 :: u32) \<and>
    unat (0x816fff00 :: u32) + unat (0x100001 :: u32) \<le> unat base + unat arena \<and>
    UNIFROG_APP_ARENA_MIN_BYTES \<le> slot_bytes sl \<and> unat (max 32 256 :: u32) dvd unat (0x816fff00 :: u32)"
  by (rule reserve_top_disjoint [where am = "\<lparr>reserved_top = 0, reserved_bytes = 0\<rparr>"]) code_simp

end
