(* ===== verification/UF_Loader.thy ===== *)
theory UF_Loader
  imports UF_Bin UF_Mem UF_Abi
begin

text \<open>
  The loader of core modules (\<open>foundation/src/modules/unifrog_core_module_loader.c\<close>) and the check of
  their header (\<open>include/unifrog/core_module.h\<close>).

  The file is a function that gives for the number of a \<open>read\<close> call, the position and the size asked
  for the bytes delivered, or \<open>None\<close> for an error; reads may be short.  The code of the module, entered at the end
  of loading, is a parameter: it may change the memory and returns the exports it wants the loader
  to see.  Log lines, times and the cache operations are not part of the state.
\<close>

section \<open>Data\<close>

definition UNIFROG_CORE_MODULE_MAGIC :: u32 where "UNIFROG_CORE_MODULE_MAGIC = 0x5546434f"
definition UNIFROG_CORE_MODULE_EXPORTS_MAGIC :: u32 where "UNIFROG_CORE_MODULE_EXPORTS_MAGIC = 0x55464345"
definition UNIFROG_CORE_MODULE_FORMAT_VERSION :: u32 where "UNIFROG_CORE_MODULE_FORMAT_VERSION = 1"
definition UNIFROG_CORE_MODULE_ENDIAN_MARK :: u32 where "UNIFROG_CORE_MODULE_ENDIAN_MARK = 0x12345678"
definition UNIFROG_CORE_MODULE_FLAG_FIXED_ADDRESS :: u32 where "UNIFROG_CORE_MODULE_FLAG_FIXED_ADDRESS = 1"
definition UNIFROG_CORE_MODULE_ID_MAX :: nat where "UNIFROG_CORE_MODULE_ID_MAX = 32"
definition UNIFROG_CORE_MODULE_EXTENSIONS_MAX :: nat where "UNIFROG_CORE_MODULE_EXTENSIONS_MAX = 128"
definition CORE_MODULE_READ_CHUNK :: nat where "CORE_MODULE_READ_CHUNK = 256 * 1024"
definition CORE_MODULE_TRAILING_PAD_MAX :: nat where "CORE_MODULE_TRAILING_PAD_MAX = 64"

text \<open>Six words, seven addresses, the two names, four words and four reserved words.\<close>

definition HEADER_BYTES :: nat where "HEADER_BYTES = 24 + 28 + 32 + 128 + 16 + 16"

text \<open>Five words and the 23 functions up to \<open>retro_cheat_set\<close>.\<close>

definition UNIFROG_CORE_MODULE_EXPORTS_LIBRETRO_SIZE :: u32 where
  "UNIFROG_CORE_MODULE_EXPORTS_LIBRETRO_SIZE = 20 + 23 * 4"

datatype load_error = LOAD_OK | LOAD_ARGUMENT | LOAD_NO_APP_MEMORY | LOAD_IO | LOAD_FORMAT | LOAD_ABI
  | LOAD_ID | LOAD_RANGE | LOAD_EXPORTS

record module_header =
  mh_magic :: u32
  mh_header_size :: u32
  mh_format_version :: u32
  mh_endian_mark :: u32
  mh_required_abi_version :: u32
  mh_flags :: u32
  mh_load_addr :: u32
  mh_file_end_addr :: u32
  mh_memory_end_addr :: u32
  mh_bss_addr :: u32
  mh_bss_end_addr :: u32
  mh_entry_addr :: u32
  mh_gp_addr :: u32
  mh_core_id :: bytes
  mh_extensions :: bytes
  mh_built_abi_version :: u32
  mh_required_abi_size :: u32
  mh_built_abi_size :: u32
  mh_exports_size :: u32

record module_exports =
  me_magic :: u32
  me_size :: u32
  me_required_abi_version :: u32
  me_core_id :: "string option"

record module_loaded =
  ml_header :: "module_header option"
  ml_exports :: "module_exports option"
  ml_error :: load_error
  ml_load_addr :: u32
  ml_image_size :: nat
  ml_memory_size :: nat
  ml_gp_addr :: u32

definition zero_loaded :: module_loaded where
  "zero_loaded = \<lparr>ml_header = None, ml_exports = None, ml_error = LOAD_OK, ml_load_addr = 0, ml_image_size = 0,
     ml_memory_size = 0, ml_gp_addr = 0\<rparr>"

text \<open>The struct in memory: little-endian words at their offsets.\<close>

definition header_of_bytes :: "bytes \<Rightarrow> module_header" where
  "header_of_bytes b = (let w = zip_read_le32 b in
     \<lparr>mh_magic = w 0, mh_header_size = w 4, mh_format_version = w 8, mh_endian_mark = w 12,
      mh_required_abi_version = w 16, mh_flags = w 20, mh_load_addr = w 24, mh_file_end_addr = w 28,
      mh_memory_end_addr = w 32, mh_bss_addr = w 36, mh_bss_end_addr = w 40, mh_entry_addr = w 44,
      mh_gp_addr = w 48, mh_core_id = take 32 (drop 52 b), mh_extensions = take 128 (drop 84 b),
      mh_built_abi_version = w 212, mh_required_abi_size = w 216, mh_built_abi_size = w 220,
      mh_exports_size = w 224\<rparr>)"

definition byte_str :: "bytes \<Rightarrow> string" where
  "byte_str b = map (\<lambda>x. char_of (unat x)) (takeWhile (\<lambda>x. x \<noteq> 0) b)"

section \<open>Operations\<close>

definition range_valid :: "u32 \<Rightarrow> u32 \<Rightarrow> u32 \<Rightarrow> u32 \<Rightarrow> bool" where
  "range_valid start finish base bytes =
     (if base > - 1 - bytes then False
      else let slot_end = base + bytes
           in if finish < start then False
              else if start < base then False
              else if finish > slot_end then False
              else True)"

definition unifrog_core_module_load_error_name :: "load_error \<Rightarrow> string" where
  "unifrog_core_module_load_error_name e = (case e of
     LOAD_OK \<Rightarrow> ''ok'' | LOAD_ARGUMENT \<Rightarrow> ''argument'' | LOAD_NO_APP_MEMORY \<Rightarrow> ''no_app_memory''
   | LOAD_IO \<Rightarrow> ''io'' | LOAD_FORMAT \<Rightarrow> ''format'' | LOAD_ABI \<Rightarrow> ''abi'' | LOAD_ID \<Rightarrow> ''id''
   | LOAD_RANGE \<Rightarrow> ''range'' | LOAD_EXPORTS \<Rightarrow> ''exports'')"

definition unifrog_core_module_header_layout_valid :: "module_header option \<Rightarrow> bool" where
  "unifrog_core_module_header_layout_valid header = (case header of None \<Rightarrow> False | Some h \<Rightarrow>
     mh_magic h = UNIFROG_CORE_MODULE_MAGIC \<and>
     unat (mh_header_size h) \<ge> HEADER_BYTES \<and>
     mh_format_version h = UNIFROG_CORE_MODULE_FORMAT_VERSION \<and>
     mh_endian_mark h = UNIFROG_CORE_MODULE_ENDIAN_MARK \<and>
     mh_flags h AND UNIFROG_CORE_MODULE_FLAG_FIXED_ADDRESS \<noteq> 0 \<and>
     mh_core_id h ! 0 \<noteq> 0 \<and> list_ex (\<lambda>c. c = 0) (mh_core_id h) \<and> list_ex (\<lambda>c. c = 0) (mh_extensions h) \<and>
     mh_file_end_addr h > mh_load_addr h \<and>
     unat (mh_file_end_addr h - mh_load_addr h) \<ge> HEADER_BYTES \<and>
     mh_memory_end_addr h \<ge> mh_file_end_addr h \<and>
     mh_bss_addr h \<ge> mh_file_end_addr h \<and>
     mh_bss_end_addr h \<ge> mh_bss_addr h \<and>
     mh_bss_end_addr h \<le> mh_memory_end_addr h \<and>
     mh_entry_addr h \<ge> mh_load_addr h \<and>
     mh_entry_addr h < mh_file_end_addr h \<and>
     mh_entry_addr h AND 3 = 0 \<and>
     mh_file_end_addr h - mh_entry_addr h \<ge> 4 \<and>
     mh_gp_addr h \<ge> mh_load_addr h)"

text \<open>
  The bytes read are collected; with the result comes the number of calls made.  The second
  component is what was stored at the destination, also when a later call failed.
\<close>

type_synonym fd = "nat \<Rightarrow> nat \<Rightarrow> nat \<Rightarrow> bytes option"

function read_available_fd :: "fd \<Rightarrow> nat \<Rightarrow> nat \<Rightarrow> bytes \<Rightarrow> nat \<Rightarrow> bool \<times> bytes \<times> nat" where
  "read_available_fd fd pos n acc k =
     (if length acc < n
      then let chunk = n - length acc;
               chunk = (if chunk > CORE_MODULE_READ_CHUNK then CORE_MODULE_READ_CHUNK else chunk)
           in case fd k (pos + length acc) chunk of
                None \<Rightarrow> (False, acc, k + 1)
              | Some got \<Rightarrow> if got = [] then (True, acc, k + 1) else read_available_fd fd pos n (acc @ got) (k + 1)
      else (True, acc, k))"
  by pat_completeness auto
termination
  by (relation "measure (\<lambda>(fd, pos, n, acc, k). n - length acc)") (auto intro!: diff_less_mono2)

declare read_available_fd.simps [simp del]

definition load_image_payload_fd :: "fd \<Rightarrow> u32 \<Rightarrow> nat \<Rightarrow> nat \<Rightarrow> memory \<Rightarrow> bool \<times> memory" where
  "load_image_payload_fd fd load_addr image_size k m =
     (let payload_size = image_size - HEADER_BYTES;
          dst = load_addr + word_of_nat HEADER_BYTES;
          (ok, bs, k') = read_available_fd fd HEADER_BYTES payload_size [] k;
          m = mem_write dst bs m
      in if \<not> ok then (False, m)
         else if length bs < payload_size
         then (let missing = payload_size - length bs
               in if missing > CORE_MODULE_TRAILING_PAD_MAX then (False, m)
                  else (True, mem_write (dst + word_of_nat (length bs)) (replicate missing 0) m))
         else (True, m))"

record load_world =
  lw_fdt :: fdt
  lw_appmem :: appmem
  lw_open :: "string \<Rightarrow> fd option"
  lw_entry :: "u32 \<Rightarrow> u32 \<Rightarrow> memory \<Rightarrow> module_exports option \<times> memory"

definition required_size :: "module_header \<Rightarrow> u32" where
  "required_size h = (if mh_required_abi_size h \<noteq> 0 then mh_required_abi_size h else UNIFROG_ABI_CORE_MIN_SIZE)"

definition header_ranges_ok :: "module_header \<Rightarrow> memory_slot \<Rightarrow> bool" where
  "header_ranges_ok h slot \<longleftrightarrow> \<not> (
     \<not> range_valid (mh_load_addr h) (mh_file_end_addr h) (slot_base slot) (slot_bytes slot) \<or>
     \<not> range_valid (mh_load_addr h) (mh_memory_end_addr h) (slot_base slot) (slot_bytes slot) \<or>
     \<not> range_valid (mh_bss_addr h) (mh_bss_end_addr h) (slot_base slot) (slot_bytes slot) \<or>
     \<not> range_valid (mh_entry_addr h) (mh_entry_addr h + 4) (slot_base slot) (slot_bytes slot) \<or>
     \<not> range_valid (mh_gp_addr h) (mh_gp_addr h + 4) (slot_base slot) (slot_bytes slot))"

text \<open>The header with its identifier cut at the last byte, as the bytes of the struct.\<close>

definition terminate_id :: "bytes \<Rightarrow> bytes" where
  "terminate_id b = b[83 := 0]"

definition load_fail :: "load_error \<Rightarrow> memory \<Rightarrow> bool \<times> module_loaded \<times> memory" where
  "load_fail e m = (False, zero_loaded\<lparr>ml_error := (if e = LOAD_OK then LOAD_IO else e)\<rparr>, m)"

definition exports_ok :: "module_exports option \<Rightarrow> module_header \<Rightarrow> bool" where
  "exports_ok ex h = (case ex of None \<Rightarrow> False | Some ex \<Rightarrow>
     \<not> (me_magic ex \<noteq> UNIFROG_CORE_MODULE_EXPORTS_MAGIC \<or>
        me_size ex < UNIFROG_CORE_MODULE_EXPORTS_LIBRETRO_SIZE \<or>
        \<not> unifrog_abi_table_compatible (Some unifrog_abi_table) (me_required_abi_version ex) (required_size h) \<or>
        me_core_id ex = None) \<and>
     \<not> the (me_core_id ex) \<noteq> byte_str (mh_core_id h))"

text \<open>The part after the header was read: its checks, the image, the zeroed section, the entry call.\<close>

definition load_module :: "load_world \<Rightarrow> string option \<Rightarrow> memory_slot \<Rightarrow> fd \<Rightarrow> bytes \<Rightarrow> nat \<Rightarrow> memory
    \<Rightarrow> bool \<times> module_loaded \<times> memory" where
  "load_module w expected_id slot fd hb k m =
     (if \<not> unifrog_core_module_header_layout_valid (Some (header_of_bytes hb)) then load_fail LOAD_FORMAT m
      else if \<not> unifrog_abi_table_compatible (Some unifrog_abi_table)
          (mh_required_abi_version (header_of_bytes hb)) (required_size (header_of_bytes hb))
      then load_fail LOAD_ABI m
      else let hb = terminate_id hb; h = header_of_bytes hb
      in if (case expected_id of None \<Rightarrow> False | Some e \<Rightarrow> e \<noteq> [] \<and> byte_str (mh_core_id h) \<noteq> e)
      then load_fail LOAD_ID m
      else if mh_load_addr h \<noteq> slot_base slot then load_fail LOAD_RANGE m
      else if \<not> header_ranges_ok h slot then load_fail LOAD_RANGE m
      else let image_size = unat (mh_file_end_addr h - mh_load_addr h);
               memory_size = unat (mh_memory_end_addr h - mh_load_addr h);
               bss_size = unat (mh_bss_end_addr h - mh_bss_addr h)
      in if image_size = 0 \<or> memory_size < image_size \<or> image_size < HEADER_BYTES then load_fail LOAD_RANGE m
      else let m = mem_write (mh_load_addr h) hb m;
               (ok, m) = load_image_payload_fd fd (mh_load_addr h) image_size k m
      in if \<not> ok then load_fail LOAD_IO m
      else let m = mem_write (mh_bss_addr h) (replicate bss_size 0) m;
               (ex, m) = lw_entry w (mh_gp_addr h) (mh_entry_addr h) m
      in if \<not> exports_ok ex h then load_fail LOAD_EXPORTS m
      else (True, \<lparr>ml_header = Some h, ml_exports = ex, ml_error = LOAD_OK, ml_load_addr = mh_load_addr h,
              ml_image_size = image_size, ml_memory_size = memory_size, ml_gp_addr = mh_gp_addr h\<rparr>, m))"

definition unifrog_core_module_load_file ::
  "load_world \<Rightarrow> string option \<Rightarrow> string option \<Rightarrow> memory \<Rightarrow> bool \<times> module_loaded \<times> memory"
where
  "unifrog_core_module_load_file w path expected_id m =
     (case path of None \<Rightarrow> load_fail LOAD_ARGUMENT m
      | Some p \<Rightarrow>
          if p = [] then load_fail LOAD_ARGUMENT m
          else case unifrog_abi_application_memory_slot (lw_fdt w) (lw_appmem w) of
            None \<Rightarrow> load_fail LOAD_NO_APP_MEMORY m
          | Some slot \<Rightarrow>
              case lw_open w p of None \<Rightarrow> load_fail LOAD_IO m
              | Some fd \<Rightarrow>
                  let (ok, hb, k) = read_available_fd fd 0 HEADER_BYTES [] 0
                  in if \<not> ok \<or> length hb \<noteq> HEADER_BYTES then load_fail LOAD_IO m
                     else load_module w expected_id slot fd hb k m)"

definition unifrog_core_module_unload :: "module_loaded option \<Rightarrow> module_loaded option" where
  "unifrog_core_module_unload loaded = (case loaded of None \<Rightarrow> None
     | Some l \<Rightarrow> if ml_load_addr l = 0 then loaded else Some zero_loaded)"


section \<open>Reading\<close>

text \<open>\<open>read\<close> delivers at most what is asked for.\<close>

definition fd_sane :: "fd \<Rightarrow> bool" where
  "fd_sane fd \<longleftrightarrow> (\<forall>k pos n bs. fd k pos n = Some bs \<longrightarrow> length bs \<le> n)"

text \<open>A file whose reads give its bytes, without errors but possibly in pieces.\<close>

definition fd_serves :: "fd \<Rightarrow> bytes \<Rightarrow> bool" where
  "fd_serves fd content \<longleftrightarrow> (\<forall>k pos n. \<exists>bs. fd k pos n = Some bs \<and> length bs \<le> n \<and>
     prefix bs (drop pos content) \<and> (bs = [] \<longrightarrow> n = 0 \<or> length content \<le> pos))"

lemma fd_serves_sane: "fd_serves fd content \<Longrightarrow> fd_sane fd"
  unfolding fd_serves_def fd_sane_def by (metis option.inject)

lemma read_available_fd_length:
  "fd_sane fd \<Longrightarrow> read_available_fd fd pos n acc k = (ok, bs, k') \<Longrightarrow> length acc \<le> n \<Longrightarrow> length bs \<le> n"
proof (induction fd pos n acc k rule: read_available_fd.induct)
  case (1 fd pos n acc k)
  define c where "c = (if n - length acc > CORE_MODULE_READ_CHUNK then CORE_MODULE_READ_CHUNK else n - length acc)"
  show ?case
  proof (cases "length acc < n")
    case False
    with 1(3,4) show ?thesis by (simp add: read_available_fd.simps)
  next
    case less: True
    show ?thesis
    proof (cases "fd k (pos + length acc) c")
      case None
      with 1(3,4) less show ?thesis by (subst (asm) read_available_fd.simps, unfold Let_def c_def [symmetric]) simp
    next
      case (Some got)
      have "length got \<le> c" using 1(2) Some by (auto simp: fd_sane_def)
      then have l: "length (acc @ got) \<le> n" using less by (simp add: c_def split: if_splits)
      have "read_available_fd fd pos n acc k =
          (if got = [] then (True, acc, k + 1) else read_available_fd fd pos n (acc @ got) (k + 1))"
        by (subst read_available_fd.simps, unfold Let_def c_def [symmetric]) (use less Some in simp)
      with 1(1) [OF less refl c_def Some _ 1(2) _ l] 1(3,4) show ?thesis by (auto split: if_splits)
    qed
  qed
qed

lemma read_available_fd_served:
  "fd_serves fd content \<Longrightarrow> prefix acc (drop pos content) \<Longrightarrow> length acc \<le> n \<Longrightarrow>
   \<exists>k'. read_available_fd fd pos n acc k = (True, take n (drop pos content), k')"
proof (induction fd pos n acc k rule: read_available_fd.induct)
  case (1 fd pos n acc k)
  define c where "c = (if n - length acc > CORE_MODULE_READ_CHUNK then CORE_MODULE_READ_CHUNK else n - length acc)"
  have acc: "acc = take (length acc) (drop pos content)" using 1(3) by (auto simp: prefix_def)
  show ?case
  proof (cases "length acc < n")
    case False
    with 1(4) acc show ?thesis by (subst read_available_fd.simps) simp
  next
    case less: True
    then have "c \<noteq> 0" by (simp add: c_def CORE_MODULE_READ_CHUNK_def)
    obtain got where got: "fd k (pos + length acc) c = Some got" "length got \<le> c"
        "prefix got (drop (pos + length acc) content)" "got = [] \<longrightarrow> length content \<le> pos + length acc"
      using 1(2) \<open>c \<noteq> 0\<close> unfolding fd_serves_def by blast
    have step: "read_available_fd fd pos n acc k =
        (if got = [] then (True, acc, k + 1) else read_available_fd fd pos n (acc @ got) (k + 1))"
      by (subst read_available_fd.simps, unfold Let_def c_def [symmetric]) (use less got(1) in simp)
    show ?thesis
    proof (cases "got = []")
      case True
      then have "length (drop pos content) \<le> length acc" using got(4) by simp
      then have "take n (drop pos content) = acc" using acc less by (metis le_less_trans less_imp_le take_all)
      with True step show ?thesis by simp
    next
      case False
      have "prefix (acc @ got) (drop pos content)"
        using got(3) 1(3) by (auto simp: prefix_def) (metis add.commute append_eq_conv_conj append_assoc drop_drop)
      moreover have "length (acc @ got) \<le> n" using got(2) less by (simp add: c_def split: if_splits)
      ultimately show ?thesis using 1(1) [OF less refl c_def got(1) False 1(2)] False step by simp
    qed
  qed
qed


section \<open>Ranges\<close>

lemma range_valid_iff:
  "range_valid a b base n \<longleftrightarrow> unat base + unat n < 2 ^ 32 \<and> unat base \<le> unat a \<and> unat a \<le> unat b \<and>
     unat b \<le> unat base + unat n"
proof -
  have "unat (- 1 - n) = 2 ^ 32 - 1 - unat n"
    using u32_bound [of n] by (simp add: unat_sub word_le_nat_alt unsigned_minus_1_eq_mask mask_eq_exp_minus_1)
  then have nw: "\<not> base > - 1 - n \<longleftrightarrow> unat base + unat n < 2 ^ 32"
    using u32_bound [of n] by (auto simp: word_less_nat_alt not_less)
  show ?thesis
  proof (cases "unat base + unat n < 2 ^ 32")
    case True
    then have "unat (base + n) = unat base + unat n" by (simp add: unat_word_ariths)
    with True nw show ?thesis
      by (auto simp: range_valid_def Let_def word_less_nat_alt)
  next
    case False
    with nw show ?thesis by (simp add: range_valid_def)
  qed
qed

lemma le32_update: "j < i \<or> i + 3 < j \<Longrightarrow> zip_read_le32 (b[j := v]) i = zip_read_le32 b i"
  by (auto simp: zip_read_le32_def)

text \<open>Cutting the identifier leaves the addresses of the header alone.\<close>

lemma header_terminate_id:
  "mh_load_addr (header_of_bytes (terminate_id hb)) = mh_load_addr (header_of_bytes hb)"
  "mh_file_end_addr (header_of_bytes (terminate_id hb)) = mh_file_end_addr (header_of_bytes hb)"
  "mh_memory_end_addr (header_of_bytes (terminate_id hb)) = mh_memory_end_addr (header_of_bytes hb)"
  "mh_bss_addr (header_of_bytes (terminate_id hb)) = mh_bss_addr (header_of_bytes hb)"
  "mh_bss_end_addr (header_of_bytes (terminate_id hb)) = mh_bss_end_addr (header_of_bytes hb)"
  "mh_entry_addr (header_of_bytes (terminate_id hb)) = mh_entry_addr (header_of_bytes hb)"
  "mh_gp_addr (header_of_bytes (terminate_id hb)) = mh_gp_addr (header_of_bytes hb)"
  by (simp_all add: header_of_bytes_def terminate_id_def Let_def le32_update)

text \<open>What a header that passed all checks says about its addresses, as numbers.\<close>

definition header_fits :: "module_header \<Rightarrow> memory_slot \<Rightarrow> bool" where
  "header_fits h slot \<longleftrightarrow>
     unat (slot_base slot) + unat (slot_bytes slot) < 2 ^ 32 \<and>
     mh_load_addr h = slot_base slot \<and>
     unat (slot_base slot) + HEADER_BYTES \<le> unat (mh_file_end_addr h) \<and>
     unat (mh_file_end_addr h) \<le> unat (mh_bss_addr h) \<and>
     unat (mh_bss_addr h) \<le> unat (mh_bss_end_addr h) \<and>
     unat (mh_bss_end_addr h) \<le> unat (slot_base slot) + unat (slot_bytes slot) \<and>
     unat (slot_base slot) \<le> unat (mh_entry_addr h) \<and>
     unat (mh_entry_addr h) + 4 \<le> unat (mh_file_end_addr h) \<and>
     mh_entry_addr h AND 3 = 0"

lemma header_checks_fit:
  assumes "unifrog_core_module_header_layout_valid (Some h)" "mh_load_addr h = slot_base slot" "header_ranges_ok h slot"
  shows "header_fits h slot"
proof -
  have r: "range_valid (mh_load_addr h) (mh_file_end_addr h) (slot_base slot) (slot_bytes slot)"
      "range_valid (mh_bss_addr h) (mh_bss_end_addr h) (slot_base slot) (slot_bytes slot)"
    using assms(3) by (simp_all add: header_ranges_ok_def)
  have l: "mh_load_addr h < mh_file_end_addr h" "HEADER_BYTES \<le> unat (mh_file_end_addr h - mh_load_addr h)"
      "mh_file_end_addr h \<le> mh_bss_addr h" "mh_load_addr h \<le> mh_entry_addr h" "mh_entry_addr h < mh_file_end_addr h"
      "4 \<le> mh_file_end_addr h - mh_entry_addr h" "mh_entry_addr h AND 3 = 0"
    using assms(1) by (auto simp: unifrog_core_module_header_layout_valid_def)
  have "unat (mh_file_end_addr h - mh_load_addr h) = unat (mh_file_end_addr h) - unat (mh_load_addr h)"
      "unat (mh_file_end_addr h - mh_entry_addr h) = unat (mh_file_end_addr h) - unat (mh_entry_addr h)"
    using l(1,5) by (simp_all add: unat_sub_le)
  with l r assms(2) show ?thesis
    unfolding header_fits_def range_valid_iff word_le_nat_alt word_less_nat_alt by auto
qed

lemma load_image_payload_outside:
  assumes "fd_sane fd" "load_image_payload_fd fd a n k m = (ok, m')" "HEADER_BYTES \<le> n" "unat a + n < 2 ^ 32"
  shows "same_outside (unat a) (unat a + n) m m'"
proof -
  obtain ok1 bs k1 where rd: "read_available_fd fd HEADER_BYTES (n - HEADER_BYTES) [] k = (ok1, bs, k1)"
    by (metis surj_pair)
  have len: "length bs \<le> n - HEADER_BYTES" using read_available_fd_length [OF assms(1) rd] by simp
  let ?d = "a + word_of_nat HEADER_BYTES" and ?z = "replicate (n - HEADER_BYTES - length bs) 0"
  have d: "unat ?d = unat a + HEADER_BYTES" using assms(3,4) by (intro unat_offset) simp
  have w: "same_outside (unat a) (unat a + n) m (mem_write ?d xs m)" if "length xs \<le> n - HEADER_BYTES" for xs
    using that assms(3,4) d by (intro mem_write_outside) auto
  have "mem_write (?d + word_of_nat (length bs)) ?z (mem_write ?d bs m) = mem_write ?d (bs @ ?z) m"
    using assms(3,4) d len by (intro mem_write_append) simp
  with assms(2) rd w [of bs] w [of "bs @ ?z"] len show ?thesis
    by (auto simp: load_image_payload_fd_def Let_def split: if_splits)
qed


section \<open>Loading\<close>

definition in_slot :: "memory_slot \<Rightarrow> memory \<Rightarrow> memory \<Rightarrow> bool" where
  "in_slot slot = same_outside (unat (slot_base slot)) (unat (slot_base slot) + unat (slot_bytes slot))"

lemma in_slot_refl [simp]: "in_slot slot m m"
  by (simp add: in_slot_def)

lemma in_slot_trans: "in_slot slot m m' \<Longrightarrow> in_slot slot m' m'' \<Longrightarrow> in_slot slot m m''"
  unfolding in_slot_def by (rule same_outside_trans)

text \<open>
  The two ways a load can end: before the entry call, with an error, or after it, the header
  checked, the image and the zeroed section in place.
\<close>

lemma load_module_cases:
  fixes hb :: bytes
  defines "h \<equiv> header_of_bytes (terminate_id hb)"
  assumes "load_module w expected slot fd hb k m = (ok, l, m')"
  obtains e where "(ok, l, m') = load_fail e m" "e \<in> {LOAD_FORMAT, LOAD_ABI, LOAD_ID, LOAD_RANGE}"
  | m1 where "header_fits h slot" "(ok, l, m') = load_fail LOAD_IO m1"
      "load_image_payload_fd fd (mh_load_addr h) (unat (mh_file_end_addr h - mh_load_addr h)) k
         (mem_write (mh_load_addr h) (terminate_id hb) m) = (False, m1)"
  | m1 m2 where "header_fits h slot"
      "load_image_payload_fd fd (mh_load_addr h) (unat (mh_file_end_addr h - mh_load_addr h)) k
         (mem_write (mh_load_addr h) (terminate_id hb) m) = (True, m1)"
      "m2 = mem_write (mh_bss_addr h) (replicate (unat (mh_bss_end_addr h - mh_bss_addr h)) 0) m1"
      "m' = snd (lw_entry w (mh_gp_addr h) (mh_entry_addr h) m2)"
      "ok \<longleftrightarrow> exports_ok (fst (lw_entry w (mh_gp_addr h) (mh_entry_addr h) m2)) h"
      "ml_error l = (if ok then LOAD_OK else LOAD_EXPORTS)"
proof -
  obtain ok1 m1 where pl: "load_image_payload_fd fd (mh_load_addr h) (unat (mh_file_end_addr h - mh_load_addr h)) k
      (mem_write (mh_load_addr h) (terminate_id hb) m) = (ok1, m1)" by fastforce
  let ?early = "\<not> unifrog_core_module_header_layout_valid (Some (header_of_bytes hb)) \<or>
    \<not> unifrog_abi_table_compatible (Some unifrog_abi_table) (mh_required_abi_version (header_of_bytes hb))
       (required_size (header_of_bytes hb)) \<or>
    (case expected of None \<Rightarrow> False | Some e \<Rightarrow> e \<noteq> [] \<and> byte_str (mh_core_id h) \<noteq> e) \<or>
    mh_load_addr h \<noteq> slot_base slot \<or> \<not> header_ranges_ok h slot \<or>
    unat (mh_file_end_addr h - mh_load_addr h) = 0 \<or>
    unat (mh_memory_end_addr h - mh_load_addr h) < unat (mh_file_end_addr h - mh_load_addr h) \<or>
    unat (mh_file_end_addr h - mh_load_addr h) < HEADER_BYTES"
  show ?thesis
  proof (cases ?early)
    case True
    have "\<exists>r. load_module w expected slot fd hb k m = (if \<not> unifrog_core_module_header_layout_valid (Some (header_of_bytes hb))
        then load_fail LOAD_FORMAT m
      else if \<not> unifrog_abi_table_compatible (Some unifrog_abi_table) (mh_required_abi_version (header_of_bytes hb))
       (required_size (header_of_bytes hb)) then load_fail LOAD_ABI m
      else if (case expected of None \<Rightarrow> False | Some e \<Rightarrow> e \<noteq> [] \<and> byte_str (mh_core_id h) \<noteq> e)
        then load_fail LOAD_ID m
      else if mh_load_addr h \<noteq> slot_base slot then load_fail LOAD_RANGE m
      else if \<not> header_ranges_ok h slot then load_fail LOAD_RANGE m
      else if unat (mh_file_end_addr h - mh_load_addr h) = 0 \<or>
        unat (mh_memory_end_addr h - mh_load_addr h) < unat (mh_file_end_addr h - mh_load_addr h) \<or>
        unat (mh_file_end_addr h - mh_load_addr h) < HEADER_BYTES then load_fail LOAD_RANGE m else r)"
      unfolding load_module_def Let_def h_def [symmetric] by (rule exI, rule refl)
    with True assms(2) have "\<exists>e. (ok, l, m') = load_fail e m \<and> e \<in> {LOAD_FORMAT, LOAD_ABI, LOAD_ID, LOAD_RANGE}"
      by (auto split: if_splits)
    with that(1) show ?thesis by blast
  next
    case False
    have "header_fits (header_of_bytes hb) slot"
      using False by (intro header_checks_fit) (auto simp: h_def header_terminate_id header_ranges_ok_def)
    then have fits: "header_fits h slot" by (simp add: header_fits_def h_def header_terminate_id)
    have eq: "(ok, l, m') = (if \<not> ok1 then load_fail LOAD_IO m1 else
        let m = mem_write (mh_bss_addr h) (replicate (unat (mh_bss_end_addr h - mh_bss_addr h)) 0) m1;
            (ex, m) = lw_entry w (mh_gp_addr h) (mh_entry_addr h) m
        in if \<not> exports_ok ex h then load_fail LOAD_EXPORTS m
           else (True, \<lparr>ml_header = Some h, ml_exports = ex, ml_error = LOAD_OK, ml_load_addr = mh_load_addr h,
              ml_image_size = unat (mh_file_end_addr h - mh_load_addr h),
              ml_memory_size = unat (mh_memory_end_addr h - mh_load_addr h), ml_gp_addr = mh_gp_addr h\<rparr>, m))"
      using assms(2) False unfolding load_module_def Let_def h_def [symmetric] pl by simp
    show ?thesis
    proof (cases ok1)
      case True
      with eq fits pl show ?thesis
        by (intro that(3)) (auto simp: Let_def load_fail_def split: prod.splits if_splits)
    next
      case False
      with eq fits pl that(2) show ?thesis by simp
    qed
  qed
qed

lemma header_image_in_slot:
  assumes "header_fits h slot" "fd_sane fd" "length hb = HEADER_BYTES"
    "load_image_payload_fd fd (mh_load_addr h) (unat (mh_file_end_addr h - mh_load_addr h)) k
       (mem_write (mh_load_addr h) hb m) = (ok, m1)"
  shows "in_slot slot m m1"
    "in_slot slot m (mem_write (mh_bss_addr h) (replicate (unat (mh_bss_end_addr h - mh_bss_addr h)) 0) m1)"
proof -
  have n: "unat (mh_file_end_addr h - mh_load_addr h) = unat (mh_file_end_addr h) - unat (slot_base slot)"
      "unat (mh_bss_end_addr h - mh_bss_addr h) = unat (mh_bss_end_addr h) - unat (mh_bss_addr h)"
    using assms(1) by (auto simp: header_fits_def word_le_nat_alt intro!: unat_sub_le)
  have f: "mh_load_addr h = slot_base slot" using assms(1) by (simp add: header_fits_def)
  have "in_slot slot m (mem_write (mh_load_addr h) hb m)"
    unfolding in_slot_def using assms(1,3) by (intro mem_write_outside) (auto simp: header_fits_def)
  moreover have "same_outside (unat (mh_load_addr h)) (unat (mh_load_addr h) + unat (mh_file_end_addr h - mh_load_addr h))
      (mem_write (mh_load_addr h) hb m) m1"
    using assms(1) n f u32_bound [of "mh_file_end_addr h"]
    by (intro load_image_payload_outside [OF assms(2,4)]) (auto simp: header_fits_def)
  then have "in_slot slot (mem_write (mh_load_addr h) hb m) m1"
    unfolding in_slot_def by (rule same_outside_weaken) (use assms(1) n f in \<open>auto simp: header_fits_def\<close>)
  ultimately show m1: "in_slot slot m m1" by (rule in_slot_trans)
  have "in_slot slot m1 (mem_write (mh_bss_addr h) (replicate (unat (mh_bss_end_addr h - mh_bss_addr h)) 0) m1)"
    unfolding in_slot_def using assms(1) n u32_bound [of "mh_bss_end_addr h"]
    by (intro mem_write_outside) (auto simp: header_fits_def)
  with m1 show "in_slot slot m (mem_write (mh_bss_addr h) (replicate (unat (mh_bss_end_addr h - mh_bss_addr h)) 0) m1)"
    by (rule in_slot_trans)
qed


lemma read_header_length:
  "read_available_fd fd 0 HEADER_BYTES [] 0 = (ok, hb, k) \<Longrightarrow> \<not> (\<not> ok \<or> length hb \<noteq> HEADER_BYTES) \<Longrightarrow>
   length (terminate_id hb) = HEADER_BYTES"
  by (simp add: terminate_id_def)

text \<open>The ways to reach \<open>load_module\<close>, or to fail before it.\<close>

lemma load_file_cases:
  assumes "unifrog_core_module_load_file w path expected m = (ok, l, m')"
  obtains e where "(ok, l, m') = load_fail e m" "e \<in> {LOAD_ARGUMENT, LOAD_NO_APP_MEMORY}"
  | "(ok, l, m') = load_fail LOAD_IO m" "lw_open w (the path) = None"
  | fd ok1 hb k where "(ok, l, m') = load_fail LOAD_IO m" "lw_open w (the path) = Some fd"
      "read_available_fd fd 0 HEADER_BYTES [] 0 = (ok1, hb, k)" "\<not> ok1 \<or> length hb \<noteq> HEADER_BYTES"
  | slot fd hb k where "unifrog_abi_application_memory_slot (lw_fdt w) (lw_appmem w) = Some slot"
      "lw_open w (the path) = Some fd" "read_available_fd fd 0 HEADER_BYTES [] 0 = (True, hb, k)"
      "length hb = HEADER_BYTES" "load_module w expected slot fd hb k m = (ok, l, m')"
proof (cases path)
  case None
  with assms that(1) [of LOAD_ARGUMENT] show ?thesis by (simp add: unifrog_core_module_load_file_def)
next
  case path: (Some p)
  show ?thesis
  proof (cases "p = [] \<or> unifrog_abi_application_memory_slot (lw_fdt w) (lw_appmem w) = None")
    case True
    with assms path that(1) [of LOAD_ARGUMENT] that(1) [of LOAD_NO_APP_MEMORY] show ?thesis
      by (cases "p = []") (simp_all add: unifrog_core_module_load_file_def)
  next
    case False
    then obtain slot where slot: "unifrog_abi_application_memory_slot (lw_fdt w) (lw_appmem w) = Some slot" by auto
    show ?thesis
    proof (cases "lw_open w p")
      case None
      with assms path False slot that(2) show ?thesis by (simp add: unifrog_core_module_load_file_def)
    next
      case fd: (Some fd)
      obtain ok1 hb k where rd: "read_available_fd fd 0 HEADER_BYTES [] 0 = (ok1, hb, k)" by (metis surj_pair)
      with assms path False slot fd that(3,4) show ?thesis
        by (simp add: unifrog_core_module_load_file_def split: if_splits)
    qed
  qed
qed

text \<open>
  C3.  Loading a module is confined to the application memory, whatever the file contains and
  however its reads fail or come back short: either nothing is written, or only bytes of the slot
  change before the module's own code runs; and code is entered only at a word-aligned address
  whose first instruction lies in the slot.
\<close>

theorem core_module_load_confined:
  assumes "\<And>p fd. lw_open w p = Some fd \<Longrightarrow> fd_sane fd"
    "unifrog_core_module_load_file w path expected m = (ok, l, m')"
  shows "m' = m \<or> (\<exists>slot m1. unifrog_abi_application_memory_slot (lw_fdt w) (lw_appmem w) = Some slot \<and>
    in_slot slot m m1 \<and> (m' = m1 \<and> \<not> ok \<or> (\<exists>gp entry. m' = snd (lw_entry w gp entry m1) \<and> entry AND 3 = 0 \<and>
      unat (slot_base slot) \<le> unat entry \<and>
      unat entry + 4 \<le> unat (slot_base slot) + unat (slot_bytes slot))))"
  using assms(2)
proof (cases rule: load_file_cases)
  case (4 slot fd hb k)
  have sane: "fd_sane fd" using assms(1) 4(2) by blast
  have len: "length (terminate_id hb) = HEADER_BYTES" using 4(4) by (simp add: terminate_id_def)
  from 4(5) show ?thesis
  proof (cases rule: load_module_cases)
    case (2 m1)
    with header_image_in_slot(1) [OF 2(1) sane len 2(3)] 4(1) show ?thesis by (auto simp: load_fail_def)
  next
    case (3 m1 m2)
    have "in_slot slot m m2" using header_image_in_slot(2) [OF 3(1) sane len 3(2)] 3(3) by simp
    moreover have "mh_entry_addr (header_of_bytes (terminate_id hb)) AND 3 = 0"
        "unat (slot_base slot) \<le> unat (mh_entry_addr (header_of_bytes (terminate_id hb)))"
        "unat (mh_entry_addr (header_of_bytes (terminate_id hb))) + 4 \<le> unat (slot_base slot) + unat (slot_bytes slot)"
      using 3(1) by (auto simp: header_fits_def)
    ultimately show ?thesis using 3(4) 4(1) by blast
  qed (auto simp: load_fail_def)
qed (auto simp: load_fail_def)

section \<open>Errors\<close>

lemma load_ok_iff:
  assumes "unifrog_core_module_load_file w path expected m = (ok, l, m')"
  shows "ok \<longleftrightarrow> ml_error l = LOAD_OK"
  using assms
proof (cases rule: load_file_cases)
  case (4 slot fd hb k)
  from 4(5) show ?thesis
    by (cases rule: load_module_cases) (auto simp: load_fail_def)
qed (auto simp: load_fail_def)

lemma load_image_payload_served:
  assumes "fd_serves fd content" "n - HEADER_BYTES \<le> length content - HEADER_BYTES + CORE_MODULE_TRAILING_PAD_MAX"
  shows "fst (load_image_payload_fd fd a n k m)"
proof -
  obtain k' where "read_available_fd fd HEADER_BYTES (n - HEADER_BYTES) [] k =
      (True, take (n - HEADER_BYTES) (drop HEADER_BYTES content), k')"
    using read_available_fd_served [OF assms(1), of "[]" HEADER_BYTES] by auto
  then show ?thesis using assms(2) by (auto simp: load_image_payload_fd_def Let_def split: if_splits)
qed

text \<open>
  C17.  Permanent failures are told apart from card errors: for a file that reads without errors (in
  pieces of any size), that has a whole header and is at most 64 bytes shorter than its header
  declares, the loader never reports the retryable I/O error.
\<close>

theorem core_module_io_error_is_io:
  assumes "lw_open w p = Some fd" "fd_serves fd content" "HEADER_BYTES \<le> length content"
    "unat (mh_file_end_addr (header_of_bytes (take HEADER_BYTES content)) -
       mh_load_addr (header_of_bytes (take HEADER_BYTES content))) \<le> length content + CORE_MODULE_TRAILING_PAD_MAX"
    "unifrog_core_module_load_file w (Some p) expected m = (ok, l, m')"
  shows "ml_error l \<noteq> LOAD_IO"
proof -
  obtain k where rd: "read_available_fd fd 0 HEADER_BYTES [] 0 = (True, take HEADER_BYTES content, k)"
    using read_available_fd_served [OF assms(2), of "[]" 0] by auto
  from assms(5) show ?thesis
  proof (cases rule: load_file_cases)
    case (4 slot fd' hb k')
    have hb: "fd' = fd" "hb = take HEADER_BYTES content" "k' = k" using 4(2,3) assms(1) rd by auto
    have "fst (load_image_payload_fd fd a
        (unat (mh_file_end_addr (header_of_bytes hb) - mh_load_addr (header_of_bytes hb))) k m0)" for a m0
      using assms(3,4) hb(2) by (intro load_image_payload_served [OF assms(2)]) simp
    with 4(5) show ?thesis
      by (cases rule: load_module_cases) (auto simp: load_fail_def header_terminate_id hb dest!: arg_cong [where f = fst])
  qed (use assms(1,3) rd in \<open>auto simp: load_fail_def\<close>)
qed


section \<open>The loaded image\<close>

lemma payload_in_memory:
  assumes "fd_serves fd content" "load_image_payload_fd fd a n k (mem_write a hb m) = (True, m1)"
    "length hb = HEADER_BYTES" "HEADER_BYTES \<le> n" "unat a + n < 2 ^ 32"
  shows "m1 = mem_write a (take n (hb @ drop HEADER_BYTES content @ replicate CORE_MODULE_TRAILING_PAD_MAX 0)) m"
    "n - HEADER_BYTES \<le> length content - HEADER_BYTES + CORE_MODULE_TRAILING_PAD_MAX"
proof -
  define p where "p = take (n - HEADER_BYTES) (drop HEADER_BYTES content)"
  define z :: bytes where "z = replicate (n - HEADER_BYTES - length p) 0"
  obtain k' where rd: "read_available_fd fd HEADER_BYTES (n - HEADER_BYTES) [] k = (True, p, k')"
    using read_available_fd_served [OF assms(1), of "[]" HEADER_BYTES] by (auto simp: p_def)
  have short: "length z \<le> CORE_MODULE_TRAILING_PAD_MAX"
    using assms(2) rd by (auto simp: load_image_payload_fd_def Let_def z_def split: if_splits)
  have d: "unat (a + word_of_nat HEADER_BYTES) = unat a + HEADER_BYTES" using assms(4,5) by (intro unat_offset) simp
  have lp: "length p + length z = n - HEADER_BYTES" by (simp add: p_def z_def)
  let ?d = "a + word_of_nat HEADER_BYTES"
  have "m1 = mem_write (?d + word_of_nat (length p)) z (mem_write ?d p (mem_write a hb m))"
    using assms(2) rd by (auto simp: load_image_payload_fd_def Let_def z_def split: if_splits)
  also have "\<dots> = mem_write ?d (p @ z) (mem_write a hb m)"
    using assms(4,5) d lp by (intro mem_write_append) simp
  also have "\<dots> = mem_write a (hb @ p @ z) m"
    using mem_write_append [of a hb "p @ z" m] assms(3-5) lp by simp
  also have "hb @ p @ z = take n (hb @ drop HEADER_BYTES content @ replicate CORE_MODULE_TRAILING_PAD_MAX 0)"
  proof -
    have "take (n - HEADER_BYTES - (length content - HEADER_BYTES)) (replicate CORE_MODULE_TRAILING_PAD_MAX (0 :: u8)) = z"
      using short by (auto simp: z_def p_def min_def)
    then show ?thesis using assms(3,4) by (simp add: p_def)
  qed
  finally show "m1 = mem_write a (take n (hb @ drop HEADER_BYTES content @ replicate CORE_MODULE_TRAILING_PAD_MAX 0)) m" .
  show "n - HEADER_BYTES \<le> length content - HEADER_BYTES + CORE_MODULE_TRAILING_PAD_MAX"
    using short by (simp add: z_def p_def)
qed

text \<open>
  C16.  A load that succeeds has put the module in place: when its code is entered, the memory holds at
  the load address the file (with the identifier cut at its last byte, and at most 64 bytes of
  missing tail as zeros) and zeros in the whole uninitialised section.
\<close>

theorem core_module_image_in_place:
  fixes content :: bytes
  defines "h \<equiv> header_of_bytes (take HEADER_BYTES content)"
  assumes "lw_open w p = Some fd" "fd_serves fd content" "fst (unifrog_core_module_load_file w (Some p) expected m)"
  shows "\<exists>m1. snd (snd (unifrog_core_module_load_file w (Some p) expected m)) =
      snd (lw_entry w (mh_gp_addr h) (mh_entry_addr h) m1) \<and>
    mem_read (mh_load_addr h) (unat (mh_file_end_addr h - mh_load_addr h)) m1 =
      take (unat (mh_file_end_addr h - mh_load_addr h))
        (terminate_id content @ replicate CORE_MODULE_TRAILING_PAD_MAX 0) \<and>
    mem_read (mh_bss_addr h) (unat (mh_bss_end_addr h - mh_bss_addr h)) m1 =
      replicate (unat (mh_bss_end_addr h - mh_bss_addr h)) 0"
proof -
  obtain l m' where ld: "unifrog_core_module_load_file w (Some p) expected m = (True, l, m')"
    using assms(4) by (metis (full_types) prod.collapse)
  from ld show ?thesis
  proof (cases rule: load_file_cases)
    case (4 slot fd' hb k)
    obtain k0 where "read_available_fd fd 0 HEADER_BYTES [] 0 = (True, take HEADER_BYTES content, k0)"
      using read_available_fd_served [OF assms(3), of "[]" 0] by auto
    then have hb: "fd' = fd" "hb = take HEADER_BYTES content" using 4(2,3) assms(2) by auto
    from 4(5) show ?thesis
    proof (cases rule: load_module_cases)
      case (3 m1 m2)
      define img where "img = take (unat (mh_file_end_addr h - mh_load_addr h))
        (terminate_id content @ replicate CORE_MODULE_TRAILING_PAD_MAX 0)"
      have h: "mh_load_addr (header_of_bytes (terminate_id hb)) = mh_load_addr h"
          "mh_file_end_addr (header_of_bytes (terminate_id hb)) = mh_file_end_addr h"
          "mh_bss_addr (header_of_bytes (terminate_id hb)) = mh_bss_addr h"
          "mh_bss_end_addr (header_of_bytes (terminate_id hb)) = mh_bss_end_addr h"
          "mh_gp_addr (header_of_bytes (terminate_id hb)) = mh_gp_addr h"
          "mh_entry_addr (header_of_bytes (terminate_id hb)) = mh_entry_addr h"
        by (simp_all add: header_terminate_id h_def hb)
      have f: "header_fits h slot" using 3(1) by (simp add: header_fits_def h)
      have n: "unat (mh_file_end_addr h - mh_load_addr h) = unat (mh_file_end_addr h) - unat (mh_load_addr h)"
          "unat (mh_bss_end_addr h - mh_bss_addr h) = unat (mh_bss_end_addr h) - unat (mh_bss_addr h)"
        using f by (auto simp: header_fits_def word_le_nat_alt intro!: unat_sub_le)
      have tid: "terminate_id hb @ drop HEADER_BYTES content = terminate_id content"
        using list_update_append1 [of 83 "take HEADER_BYTES content" "drop HEADER_BYTES content" 0] 4(4) hb(2)
        by (simp add: terminate_id_def HEADER_BYTES_def)
      have len: "length (terminate_id hb) = HEADER_BYTES" using 4(4) by (simp add: terminate_id_def)
      have b: "HEADER_BYTES \<le> unat (mh_file_end_addr h - mh_load_addr h)"
          "unat (mh_load_addr h) + unat (mh_file_end_addr h - mh_load_addr h) < 2 ^ 32"
        using f n(1) u32_bound [of "mh_file_end_addr h"] by (auto simp: header_fits_def)
      note pl = payload_in_memory [OF assms(3) 3(2) [unfolded h hb(1)] len b]
      have m1: "m1 = mem_write (mh_load_addr h) img m"
        using pl(1) tid by (simp add: img_def append.assoc [symmetric] del: append.assoc)
      have li: "length img = unat (mh_file_end_addr h - mh_load_addr h)"
        using pl(2) b(1) 4(4) hb(2) by (simp add: img_def terminate_id_def)
      have m2: "m2 = mem_write (mh_bss_addr h) (replicate (unat (mh_bss_end_addr h - mh_bss_addr h)) 0) m1"
        using 3(3) by (simp only: h)
      have out: "same_outside (unat (mh_bss_addr h)) (unat (mh_bss_end_addr h)) m1 m2"
        unfolding m2 using f n(2) u32_bound [of "mh_bss_end_addr h"]
        by (intro mem_write_outside) (auto simp: header_fits_def)
      have "mem_read (mh_load_addr h) (length img) m2 = mem_read (mh_load_addr h) (length img) m1"
        by (rule mem_read_frame [OF _ out]) (use b f n(1) li in \<open>auto simp: header_fits_def\<close>)
      also have "\<dots> = img" unfolding m1 using b(2) li by (intro mem_read_write) simp
      finally have "mem_read (mh_load_addr h) (unat (mh_file_end_addr h - mh_load_addr h)) m2 = img" unfolding li .
      moreover have "mem_read (mh_bss_addr h) (unat (mh_bss_end_addr h - mh_bss_addr h)) m2 =
          replicate (unat (mh_bss_end_addr h - mh_bss_addr h)) 0"
        using mem_read_write [of "mh_bss_addr h" "replicate (unat (mh_bss_end_addr h - mh_bss_addr h)) 0" m1]
          f n(2) u32_bound [of "mh_bss_end_addr h"] by (simp add: m2 header_fits_def)
      ultimately show ?thesis
        unfolding img_def [symmetric] using ld 3(4) by (intro exI [of _ m2]) (simp add: h)
    qed (auto simp: load_fail_def)
  qed (auto simp: load_fail_def)
qed


lemma load_module_succeeds:
  fixes hb :: bytes
  defines "h \<equiv> header_of_bytes (terminate_id hb)"
  assumes "unifrog_core_module_header_layout_valid (Some (header_of_bytes hb))"
    "unifrog_abi_table_compatible (Some unifrog_abi_table) (mh_required_abi_version (header_of_bytes hb))
       (required_size (header_of_bytes hb))"
    "expected = Some (byte_str (mh_core_id h))" "mh_load_addr h = slot_base slot" "header_ranges_ok h slot"
    "\<And>m. fst (load_image_payload_fd fd (mh_load_addr h) (unat (mh_file_end_addr h - mh_load_addr h)) k m)"
    "\<And>m. exports_ok (fst (lw_entry w (mh_gp_addr h) (mh_entry_addr h) m)) h"
    "mh_file_end_addr h - mh_load_addr h \<le> mh_memory_end_addr h - mh_load_addr h"
  shows "fst (load_module w expected slot fd hb k m)"
proof -
  let ?m = "mem_write (mh_load_addr h) (terminate_id hb) m"
  obtain m1 where pl: "load_image_payload_fd fd (mh_load_addr h) (unat (mh_file_end_addr h - mh_load_addr h)) k ?m = (True, m1)"
    using assms(7) [of ?m] by (metis (full_types) prod.collapse)
  let ?b = "mem_write (mh_bss_addr h) (replicate (unat (mh_bss_end_addr h - mh_bss_addr h)) 0) m1"
  obtain ex m2 where en: "lw_entry w (mh_gp_addr h) (mh_entry_addr h) ?b = (ex, m2)" by fastforce
  have ex: "exports_ok ex h" using assms(8) [of ?b] en by simp
  have n: "\<not> (unat (mh_file_end_addr h - mh_load_addr h) = 0 \<or>
      unat (mh_memory_end_addr h - mh_load_addr h) < unat (mh_file_end_addr h - mh_load_addr h) \<or>
      unat (mh_file_end_addr h - mh_load_addr h) < HEADER_BYTES)"
    using assms(2,9) by (auto simp: unifrog_core_module_header_layout_valid_def h_def header_terminate_id
        word_le_nat_alt HEADER_BYTES_def)
  show ?thesis
    unfolding load_module_def Let_def h_def [symmetric] pl prod.case en
    using assms(2-6) n ex by simp
qed

section \<open>A small module\<close>

definition whole_fd :: "bytes \<Rightarrow> fd" where
  "whole_fd content = (\<lambda>k pos n. Some (take n (drop pos content)))"

definition sample_module :: bytes where
  "sample_module = concat (map put32 [UNIFROG_CORE_MODULE_MAGIC, 244, 1, 0x12345678, 0x500, 1, 0x81000000, 0x810000f8,
      0x81000100, 0x810000f8, 0x81000100, 0x810000f4, 0x81000000]) @
     map of_char ''demo'' @ replicate 28 0 @ replicate 128 0 @ replicate 32 0 @ [1, 2, 3, 4]"

definition sample_exports :: module_exports where
  "sample_exports = \<lparr>me_magic = UNIFROG_CORE_MODULE_EXPORTS_MAGIC, me_size = 112, me_required_abi_version = 0x500,
     me_core_id = Some ''demo''\<rparr>"

definition sample_world :: load_world where
  "sample_world = \<lparr>lw_fdt = (\<lambda>p. Some (0x1000000, 0x800000)), lw_appmem = \<lparr>reserved_top = 0, reserved_bytes = 0\<rparr>,
     lw_open = (\<lambda>p. Some (whole_fd sample_module)), lw_entry = (\<lambda>gp entry m. (Some sample_exports, m))\<rparr>"

lemma whole_fd_serves: "fd_serves (whole_fd content) content"
  by (auto simp: fd_serves_def whole_fd_def take_is_prefix)

lemma sample_module_open: "lw_open sample_world ''demo.core'' = Some (whole_fd sample_module)"
  by (simp add: sample_world_def)

lemma sample_header:
  "header_of_bytes (take HEADER_BYTES sample_module) =
     \<lparr>mh_magic = UNIFROG_CORE_MODULE_MAGIC, mh_header_size = 244, mh_format_version = 1, mh_endian_mark = 0x12345678,
      mh_required_abi_version = 0x500, mh_flags = 1, mh_load_addr = 0x81000000, mh_file_end_addr = 0x810000f8,
      mh_memory_end_addr = 0x81000100, mh_bss_addr = 0x810000f8, mh_bss_end_addr = 0x81000100,
      mh_entry_addr = 0x810000f4, mh_gp_addr = 0x81000000, mh_core_id = map of_char ''demo'' @ replicate 28 0,
      mh_extensions = replicate 128 0, mh_built_abi_version = 0, mh_required_abi_size = 0, mh_built_abi_size = 0,
      mh_exports_size = 0\<rparr>"
  by code_simp


lemma triple: "r = (fst r, fst (snd r), snd (snd r))"
  by simp

lemma sample_sane: "lw_open sample_world p = Some fd \<Longrightarrow> fd_sane fd"
  by (auto simp: sample_world_def intro: fd_serves_sane whole_fd_serves)

lemma sample_terminated: "terminate_id (take HEADER_BYTES sample_module) = take HEADER_BYTES sample_module"
proof -
  have "take HEADER_BYTES sample_module ! 83 = 0" by code_simp
  then show ?thesis by (metis list_update_id terminate_id_def)
qed

lemma sample_checks:
  defines "h \<equiv> header_of_bytes (take HEADER_BYTES sample_module)"
  shows "unifrog_core_module_header_layout_valid (Some h)"
    "unifrog_abi_table_compatible (Some unifrog_abi_table) (mh_required_abi_version h) (required_size h)"
    "byte_str (mh_core_id h) = ''demo''" "exports_ok (Some sample_exports) h"
    "unifrog_abi_application_memory_slot (lw_fdt sample_world) (lw_appmem sample_world) =
       Some \<lparr>slot_base = 0x81000000, slot_bytes = 0x800000, slot_flags = app_flags\<rparr>"
    "header_ranges_ok h \<lparr>slot_base = 0x81000000, slot_bytes = 0x800000, slot_flags = app_flags\<rparr>"
  unfolding h_def sample_header by code_simp+

lemma sample_loads: "fst (unifrog_core_module_load_file sample_world (Some ''demo.core'') (Some ''demo'') m)"
proof -
  let ?h = "header_of_bytes (take HEADER_BYTES sample_module)"
  have len: "length sample_module = HEADER_BYTES + 4" by code_simp
  obtain k where rd: "read_available_fd (whole_fd sample_module) 0 HEADER_BYTES [] 0 =
      (True, take HEADER_BYTES sample_module, k)"
    using read_available_fd_served [OF whole_fd_serves, of "[]" 0 sample_module] by auto
  have pay: "fst (load_image_payload_fd (whole_fd sample_module) 0x81000000 0xf8 k m0)" for m0
    by (rule load_image_payload_served [OF whole_fd_serves]) (simp add: len HEADER_BYTES_def)
  have ld: "mh_load_addr ?h = 0x81000000" "unat (mh_file_end_addr ?h - mh_load_addr ?h) = 0xf8"
      "unat (mh_memory_end_addr ?h - mh_load_addr ?h) = 0x100"
    unfolding sample_header by simp_all
  have "fst (load_module sample_world (Some ''demo'')
      \<lparr>slot_base = 0x81000000, slot_bytes = 0x800000, slot_flags = app_flags\<rparr> (whole_fd sample_module)
      (take HEADER_BYTES sample_module) k m)"
    by (rule load_module_succeeds, unfold sample_terminated ld)
      (use sample_checks ld pay in \<open>simp_all add: sample_world_def word_le_nat_alt\<close>)
  then show ?thesis
    using rd len sample_checks(5) by (simp add: unifrog_core_module_load_file_def sample_module_open)
qed

theorem core_module_load_confined_witness:
  "\<forall>m. let r = unifrog_core_module_load_file sample_world (Some ''demo.core'') (Some ''demo'') m; m' = snd (snd r) in
    m' = m \<or> (\<exists>slot m1. unifrog_abi_application_memory_slot (lw_fdt sample_world) (lw_appmem sample_world) = Some slot \<and>
    in_slot slot m m1 \<and> (m' = m1 \<and> \<not> fst r \<or> (\<exists>gp entry. m' = snd (lw_entry sample_world gp entry m1) \<and>
      entry AND 3 = 0 \<and> unat (slot_base slot) \<le> unat entry \<and>
      unat entry + 4 \<le> unat (slot_base slot) + unat (slot_bytes slot))))"
  unfolding Let_def
  by (intro allI, rule core_module_load_confined [OF sample_sane triple])

theorem core_module_io_error_is_io_witness:
  "ml_error (fst (snd (unifrog_core_module_load_file sample_world (Some ''demo.core'') (Some ''other'') (\<lambda>a. 0)))) \<noteq> LOAD_IO"
proof (rule core_module_io_error_is_io [OF sample_module_open whole_fd_serves _ _ triple])
  show "HEADER_BYTES \<le> length sample_module" by code_simp
  show "unat (mh_file_end_addr (header_of_bytes (take HEADER_BYTES sample_module)) -
       mh_load_addr (header_of_bytes (take HEADER_BYTES sample_module))) \<le> length sample_module + CORE_MODULE_TRAILING_PAD_MAX"
    unfolding sample_header by code_simp
qed

theorem core_module_image_in_place_witness:
  "\<exists>m1. snd (snd (unifrog_core_module_load_file sample_world (Some ''demo.core'') (Some ''demo'') (\<lambda>a. 7))) =
      snd (lw_entry sample_world 0x81000000 0x810000f4 m1) \<and>
    mem_read 0x81000000 0xf8 m1 = sample_module \<and> mem_read 0x810000f8 8 m1 = replicate 8 0"
proof -
  have "terminate_id sample_module = sample_module" by code_simp
  moreover have "length sample_module = 0xf8" by code_simp
  ultimately show ?thesis
    using core_module_image_in_place [OF sample_module_open whole_fd_serves sample_loads, of "\<lambda>a. 7"]
    unfolding sample_header by simp
qed

end
