(* ===== verification/UF_Storage.thy ===== *)
theory UF_Storage
  imports UF_Config
begin

text \<open>
  Storage operations that survive card errors (\<open>foundation/src/storage/unifrog_storage_io.c\<close>): one
  retry after a successful recovery for opening and inspecting files, and the replacement of a file
  by way of a temporary file and \<open>unifrog_config_commit\<close>, with several attempts.

  The recovery of the card belongs to the platform; it is a parameter that gives a result and the
  file system afterwards.  \<open>opendir\<close> and \<open>stat\<close> are parameters too: what they return is not used
  here.
\<close>

section \<open>Operations\<close>

definition UNIFROG_SD_ROOT :: string where "UNIFROG_SD_ROOT = ''/media/mmcblk0''"

definition unifrog_storage_path_is_storage :: "string option \<Rightarrow> bool" where
  "unifrog_storage_path_is_storage path = (case path of None \<Rightarrow> False | Some p \<Rightarrow>
     if p = [] then False
     else let root_len = length UNIFROG_SD_ROOT
     in if take root_len p = UNIFROG_SD_ROOT \<and> (length p = root_len \<or> p ! root_len = SLASH) then True
        else take 7 p = ''/media/'')"

type_synonym recovery = "string \<Rightarrow> u32 \<Rightarrow> u32 \<Rightarrow> fsys \<Rightarrow> int \<times> fsys"

definition unifrog_storage_recover_after_io_error ::
  "recovery \<Rightarrow> string option \<Rightarrow> u32 \<Rightarrow> u32 \<Rightarrow> fsys \<Rightarrow> int \<times> fsys"
where
  "unifrog_storage_recover_after_io_error rec tag attempts delay_ms fs =
     rec (case tag of None \<Rightarrow> ''storage_io'' | Some t \<Rightarrow> if t \<noteq> [] then t else ''storage_io'') attempts delay_ms fs"

text \<open>The common shape of the three functions that retry an operation once.\<close>

definition resilient :: "(fsys \<Rightarrow> 'a option \<times> fsys) \<Rightarrow> string \<Rightarrow> (fsys \<Rightarrow> int \<times> fsys) \<Rightarrow> fsys \<Rightarrow> 'a option \<times> fsys" where
  "resilient op path recover fs =
     (let (r, fs) = op (fs\<lparr>errno := 0\<rparr>); open_errno = errno fs
      in if r \<noteq> None \<or> \<not> unifrog_storage_path_is_storage (Some path) then (r, fs)
         else if open_errno = ENOENT \<or> open_errno = ENOTDIR then (None, fs)
         else let (ok, fs) = recover fs
              in if ok \<noteq> 0 then (None, fs\<lparr>errno := open_errno\<rparr>)
                 else op (fs\<lparr>errno := 0\<rparr>))"

definition tag_or :: "string \<Rightarrow> string option \<Rightarrow> string option" where
  "tag_or d tag = Some (case tag of None \<Rightarrow> d | Some t \<Rightarrow> t)"

definition unifrog_storage_opendir_resilient ::
  "recovery \<Rightarrow> (string \<Rightarrow> fsys \<Rightarrow> 'd option \<times> fsys) \<Rightarrow> string option \<Rightarrow> string option \<Rightarrow> u32 \<Rightarrow> u32 \<Rightarrow> fsys \<Rightarrow> 'd option \<times> fsys"
where
  "unifrog_storage_opendir_resilient rec opendir path tag attempts delay_ms fs =
     (case path of None \<Rightarrow> (None, fs\<lparr>errno := EINVAL\<rparr>)
      | Some p \<Rightarrow> resilient (opendir p) p
          (unifrog_storage_recover_after_io_error rec (tag_or ''opendir'' tag) attempts delay_ms) fs)"

definition unifrog_storage_stat_resilient ::
  "recovery \<Rightarrow> (string \<Rightarrow> fsys \<Rightarrow> 's option \<times> fsys) \<Rightarrow> string option \<Rightarrow> string option \<Rightarrow> u32 \<Rightarrow> u32 \<Rightarrow> fsys \<Rightarrow> 's option \<times> fsys"
where
  "unifrog_storage_stat_resilient rec stat path tag attempts delay_ms fs =
     (case path of None \<Rightarrow> (None, fs\<lparr>errno := EINVAL\<rparr>)
      | Some p \<Rightarrow> resilient (stat p) p
          (unifrog_storage_recover_after_io_error rec (tag_or ''stat'' tag) attempts delay_ms) fs)"

text \<open>Opening for reading or for writing, by the mode string.\<close>

definition c_fopen :: "string \<Rightarrow> string \<Rightarrow> fsys \<Rightarrow> string option \<times> fsys" where
  "c_fopen p mode fs =
     (if mode = ''wb'' then (case c_fopen_wb p fs of (ok, fs) \<Rightarrow> (if ok then Some [] else None, fs))
      else c_fopen_rb p fs)"

definition unifrog_storage_fopen_resilient ::
  "recovery \<Rightarrow> string option \<Rightarrow> string option \<Rightarrow> string option \<Rightarrow> u32 \<Rightarrow> u32 \<Rightarrow> fsys \<Rightarrow> string option \<times> fsys"
where
  "unifrog_storage_fopen_resilient rec path mode tag attempts delay_ms fs =
     (case (path, mode) of
        (Some p, Some m) \<Rightarrow> resilient (c_fopen p m) p
          (unifrog_storage_recover_after_io_error rec (tag_or ''fopen'' tag) attempts delay_ms) fs
      | _ \<Rightarrow> (None, fs\<lparr>errno := EINVAL\<rparr>))"

text \<open>A file open for reading is its contents and the position; \<open>None\<close> is the null pointer.\<close>

type_synonym rfile = "(string \<times> nat) option"

definition unifrog_storage_reopen_file_after_io_error ::
  "recovery \<Rightarrow> string option \<Rightarrow> int \<Rightarrow> string option \<Rightarrow> u32 \<Rightarrow> u32 \<Rightarrow> rfile \<Rightarrow> fsys \<Rightarrow> int \<times> rfile \<times> fsys"
where
  "unifrog_storage_reopen_file_after_io_error rec path pos tag attempts delay_ms file fs =
     (case path of None \<Rightarrow> (-1, file, fs)
      | Some p \<Rightarrow>
          if p = [] \<or> pos < 0 then (-1, file, fs)
          else let fs = (if file \<noteq> None then snd (c_sync fs) else fs);
                   (ok, fs) = unifrog_storage_recover_after_io_error rec (tag_or ''reopen'' tag) attempts delay_ms fs
               in if ok \<noteq> 0 then (-1, None, fs)
                  else let (f, fs) = c_fopen_rb p fs
                       in case f of None \<Rightarrow> (-1, None, fs)
                          | Some d \<Rightarrow> let (sk, fs) = c_sync fs
                                      in if \<not> sk then (-1, None, snd (c_sync fs)) else (0, Some (d, nat pos), fs))"

text \<open>
  One attempt: writing the temporary file, then the commit.  The results are the flag of success,
  the saved error number and the file system.
\<close>

definition write_temporary :: "string \<Rightarrow> string \<Rightarrow> fsys \<Rightarrow> bool \<times> int \<times> fsys" where
  "write_temporary tmp data fs =
     (let (opened, fs) = c_fopen_wb tmp (fs\<lparr>errno := 0\<rparr>)
      in if \<not> opened then (False, errno fs, fs)
         else let fs = fs\<lparr>errno := 0\<rparr>;
                  (ok, fs) = (if data = [] then (True, fs) else c_fwrite tmp data fs);
                  (ok, fs) = (if ok then c_sync fs else (False, fs));
                  saved_errno = errno fs;
                  (closed, fs) = c_sync fs
              in if \<not> closed then (False, if saved_errno = 0 then errno fs else saved_errno, fs)
                 else (ok, saved_errno, fs))"

definition write_attempt :: "string \<Rightarrow> string \<Rightarrow> string \<Rightarrow> fsys \<Rightarrow> bool \<times> int \<times> fsys" where
  "write_attempt tmp path data fs =
     (let (ok, saved_errno, fs) = write_temporary tmp data fs
      in if \<not> ok then (False, saved_errno, fs)
         else let (r, fs) = unifrog_config_commit (Some tmp) (Some path) (fs\<lparr>errno := 0\<rparr>)
              in (r = 0, errno fs, fs))"

fun write_attempts :: "(fsys \<Rightarrow> int \<times> fsys) \<Rightarrow> string \<Rightarrow> string \<Rightarrow> string \<Rightarrow> nat \<Rightarrow> fsys \<Rightarrow> int \<times> fsys" where
  "write_attempts recover tmp path data 0 fs = (-1, fs)"
| "write_attempts recover tmp path data (Suc left) fs =
     (let (ok, saved_errno, fs) = write_attempt tmp path data fs
      in if ok then (0, fs)
         else let fs = snd (c_unlink tmp fs)
              in if saved_errno = ENOENT \<or> saved_errno = ENOTDIR then (-1, fs\<lparr>errno := saved_errno\<rparr>)
                 else let fs = (if left \<noteq> 0 then snd (recover fs) else fs)
                      in write_attempts recover tmp path data left fs)"

definition unifrog_storage_write_atomic ::
  "recovery \<Rightarrow> string option \<Rightarrow> string option \<Rightarrow> string option \<Rightarrow> nat \<Rightarrow> string option \<Rightarrow> u32 \<Rightarrow> u32 \<Rightarrow> fsys
    \<Rightarrow> int \<times> fsys"
where
  "unifrog_storage_write_atomic rec path tmp_path data sz tag attempts delay_ms fs =
     (case path of None \<Rightarrow> (-1, fs)
      | Some p \<Rightarrow>
          if p = [] \<or> data = None \<and> sz > 0 then (-1, fs)
          else let no_tmp = (case tmp_path of None \<Rightarrow> True | Some t \<Rightarrow> t = []);
                   tmp = (if no_tmp then p @ ''.tmp'' else the tmp_path)
          in if no_tmp \<and> length tmp \<ge> 288 then (-1, fs)
          else let attempts = (if attempts = 0 then 1 else attempts);
                   recover_attempts = (if attempts < 8 then 24 else attempts)
          in write_attempts (unifrog_storage_recover_after_io_error rec (tag_or ''write'' tag) recover_attempts delay_ms)
               tmp p (case data of None \<Rightarrow> [] | Some d \<Rightarrow> take sz d) (unat attempts) fs)"


section \<open>Faults\<close>

text \<open>The faults that are still to come, and the file system calls that use them up.\<close>

definition pending :: "fsys \<Rightarrow> nat" where
  "pending fs = length (filter (\<lambda>e. e \<noteq> 0) (faults fs))"

definition uses :: "fsys \<Rightarrow> fsys \<Rightarrow> bool" where
  "uses fs fs' \<longleftrightarrow> pending fs' \<le> pending fs \<and> set (faults fs') \<subseteq> set (faults fs) \<and> replace_ok fs' = replace_ok fs"

definition faulted :: "fsys \<Rightarrow> fsys \<Rightarrow> bool" where
  "faulted fs fs' \<longleftrightarrow> pending fs' < pending fs \<and> errno fs' \<in> set (faults fs) \<and> errno fs' \<noteq> 0"

lemma uses_refl [simp]: "uses fs fs"
  by (simp add: uses_def)

lemma uses_trans [trans]: "uses a b \<Longrightarrow> uses b c \<Longrightarrow> uses a c"
  by (auto simp: uses_def)

lemma uses_errno [simp]: "uses fs (fs'\<lparr>errno := e\<rparr>) = uses fs fs'" "uses (fs\<lparr>errno := e\<rparr>) fs' = uses fs fs'"
  "uses (put_file p d fs) fs' = uses fs fs'" "uses fs (put_file p d fs') = uses fs fs'"
  by (simp_all add: uses_def pending_def)

lemma next_fault_uses:
  assumes "next_fault fs = (e, fs')"
  shows "uses fs fs'" "e \<noteq> 0 \<Longrightarrow> pending fs' < pending fs \<and> e \<in> set (faults fs)" "errno fs' = errno fs"
proof -
  have "uses fs fs' \<and> (e \<noteq> 0 \<longrightarrow> pending fs' < pending fs \<and> e \<in> set (faults fs)) \<and> errno fs' = errno fs"
  proof (cases "faults fs")
    case Nil
    with assms show ?thesis by (simp add: next_fault_def)
  next
    case (Cons x xs)
    with assms have "e = x" "fs' = fs\<lparr>faults := xs\<rparr>" by (simp_all add: next_fault_def)
    with Cons show ?thesis by (auto simp: uses_def pending_def)
  qed
  then show "uses fs fs'" "e \<noteq> 0 \<Longrightarrow> pending fs' < pending fs \<and> e \<in> set (faults fs)" "errno fs' = errno fs"
    by blast+
qed

lemma c_rename_uses:
  assumes "c_rename a b fs = (r, fs')"
  shows "uses fs fs'" "r = 0 \<Longrightarrow> errno fs' = errno fs"
    "r \<noteq> 0 \<Longrightarrow> faulted fs fs' \<or> files fs a = None \<and> errno fs' = ENOENT \<or>
       files fs b \<noteq> None \<and> \<not> replace_ok fs \<and> errno fs' = EEXIST"
proof -
  obtain e f where n: "next_fault fs = (e, f)" by fastforce
  note u = next_fault_uses [OF n] next_fault_files [OF n]
  consider (fault) "e \<noteq> 0" "r = -1" "fs' = f\<lparr>errno := e\<rparr>"
    | (missing) "e = 0" "files fs a = None" "r = -1" "fs' = f\<lparr>errno := ENOENT\<rparr>"
    | (exists) "e = 0" "files fs b \<noteq> None" "\<not> replace_ok fs" "r = -1" "fs' = f\<lparr>errno := EEXIST\<rparr>"
    | (ok) d where "e = 0" "r = 0" "fs' = f\<lparr>files := (files f)(a := None, b \<mapsto> d)\<rparr>"
  proof (cases "e \<noteq> 0")
    case True
    with assms n fault show ?thesis by (simp add: c_rename_def)
  next
    case e: False
    show ?thesis
    proof (cases "files fs a")
      case None
      with assms n e u(4) missing show ?thesis by (simp add: c_rename_def)
    next
      case (Some d)
      with assms n e u(4,5) exists ok [of d] show ?thesis by (simp add: c_rename_def split: if_splits)
    qed
  qed
  then have "uses fs fs' \<and> (r = 0 \<longrightarrow> errno fs' = errno fs) \<and>
    (r \<noteq> 0 \<longrightarrow> faulted fs fs' \<or> files fs a = None \<and> errno fs' = ENOENT \<or>
       files fs b \<noteq> None \<and> \<not> replace_ok fs \<and> errno fs' = EEXIST)"
    by cases (use u(1-3) in \<open>simp_all add: faulted_def uses_def pending_def\<close>)
  then show "uses fs fs'" "r = 0 \<Longrightarrow> errno fs' = errno fs"
    "r \<noteq> 0 \<Longrightarrow> faulted fs fs' \<or> files fs a = None \<and> errno fs' = ENOENT \<or>
       files fs b \<noteq> None \<and> \<not> replace_ok fs \<and> errno fs' = EEXIST"
    by blast+
qed

lemma c_unlink_uses:
  assumes "c_unlink p fs = (r, fs')"
  shows "uses fs fs'" "r \<noteq> 0 \<Longrightarrow> pending fs' < pending fs \<or> files fs p = None"
proof -
  obtain e f where n: "next_fault fs = (e, f)" by fastforce
  note u = next_fault_uses [OF n] next_fault_files [OF n]
  show "uses fs fs'" "r \<noteq> 0 \<Longrightarrow> pending fs' < pending fs \<or> files fs p = None"
    using assms n u by (auto simp: c_unlink_def uses_def pending_def split: if_splits)
qed

lemma c_fopen_wb_uses:
  assumes "c_fopen_wb p fs = (ok, fs')"
  shows "uses fs fs'" "\<not> ok \<Longrightarrow> faulted fs fs' \<and> files fs' = files fs"
    "ok \<Longrightarrow> files fs' = (files fs)(p \<mapsto> [])"
proof -
  obtain e f where n: "next_fault fs = (e, f)" by fastforce
  note u = next_fault_uses [OF n] next_fault_files [OF n]
  show "uses fs fs'" "\<not> ok \<Longrightarrow> faulted fs fs' \<and> files fs' = files fs" "ok \<Longrightarrow> files fs' = (files fs)(p \<mapsto> [])"
    using assms n u by (auto simp: c_fopen_wb_def faulted_def uses_def pending_def split: if_splits)
qed

lemma c_sync_uses:
  assumes "c_sync fs = (ok, fs')"
  shows "uses fs fs'" "\<not> ok \<Longrightarrow> faulted fs fs'" "files fs' = files fs" "ok \<Longrightarrow> errno fs' = errno fs"
proof -
  obtain e f where n: "next_fault fs = (e, f)" by fastforce
  note u = next_fault_uses [OF n] next_fault_files [OF n]
  show "uses fs fs'" "\<not> ok \<Longrightarrow> faulted fs fs'" "files fs' = files fs" "ok \<Longrightarrow> errno fs' = errno fs"
    using assms n u by (auto simp: c_sync_def faulted_def uses_def pending_def split: if_splits)
qed

lemma c_fwrite_uses:
  assumes "c_fwrite p d fs = (ok, fs')" "files fs p = Some old"
  shows "uses fs fs'" "\<not> ok \<Longrightarrow> faulted fs fs' \<and> files fs' = files fs"
    "ok \<Longrightarrow> files fs' = (files fs)(p \<mapsto> old @ d) \<and> errno fs' = errno fs"
proof -
  obtain e f where n: "next_fault fs = (e, f)" by fastforce
  note u = next_fault_uses [OF n] next_fault_files [OF n]
  show "uses fs fs'" "\<not> ok \<Longrightarrow> faulted fs fs' \<and> files fs' = files fs"
    "ok \<Longrightarrow> files fs' = (files fs)(p \<mapsto> old @ d) \<and> errno fs' = errno fs"
    using assms n u by (auto simp: c_fwrite_def faulted_def uses_def pending_def split: if_splits)
qed

text \<open>A commit that fails has met at least one fault, and reports an error number of a fault.\<close>

lemma commit_fails_by_fault:
  assumes run: "unifrog_config_commit (Some tmp) (Some p) fs = (r, fs')"
    and len: "length p + 4 < CONFIG_SECTION_MAX" and ne: "tmp \<noteq> p" "tmp \<noteq> config_backup_name p"
    and new: "files fs tmp = Some d" and io: "ENOENT \<notin> set (faults fs)"
  shows "uses fs fs'"
    and "r \<noteq> 0 \<Longrightarrow> pending fs' < pending fs \<and> (errno fs' \<in> set (faults fs) \<or> errno fs' = EEXIST)"
proof -
  let ?b = "config_backup_name p"
  obtain r0 f0 r1 f1 r2 f2 r3 f3 r4 f4 r5 f5 where
    s0: "c_rename tmp p fs = (r0, f0)" and s1: "c_unlink ?b f0 = (r1, f1)" and s2: "c_rename p ?b f1 = (r2, f2)"
    and s3: "c_rename tmp p f2 = (r3, f3)" and s4: "c_rename ?b p f3 = (r4, f4)" and s5: "c_unlink ?b f3 = (r5, f5)"
    and "def": "(r, fs') =
      (if r0 = 0 then (0, f0)
       else if r2 \<noteq> 0 \<and> errno f2 \<noteq> ENOENT then (-1, f2)
       else if r3 \<noteq> 0 then (-1, if r2 = 0 then f4 else f3) else (0, if r2 = 0 then f5 else f3))"
    using run len by (rule config_commit_steps)
  have u: "uses fs f0" "uses f0 f1" "uses f1 f2" "uses f2 f3" "uses f3 f4" "uses f3 f5"
    using c_rename_uses(1) c_unlink_uses(1) s0 s1 s2 s3 s4 s5 by blast+
  have v: "uses fs f2" "uses fs f3" using u uses_trans by blast+
  then have "uses fs f4" "uses fs f5" using u uses_trans by blast+
  then show "uses fs fs'" using "def" u(1) v by (auto split: if_splits)
  assume "r \<noteq> 0"
  then have r0: "r0 \<noteq> 0" using "def" by auto
  have pb: "p \<noteq> ?b" by (simp add: config_backup_name_def)
  have m0: "files f0 = files fs" using s0 r0 by (cases rule: c_rename_cases) auto
  have m1: "files f1 = (if r1 = 0 then (files fs)(?b := None) else files fs)"
    using s1 m0 by (cases rule: c_unlink_cases) auto
  have sub: "set (faults f1) \<subseteq> set (faults fs)" "set (faults f2) \<subseteq> set (faults fs)" "set (faults f3) \<subseteq> set (faults fs)"
    using u by (auto simp: uses_def)
  have le: "pending f0 \<le> pending fs" "pending f1 \<le> pending f0" "pending f2 \<le> pending f1" "pending f3 \<le> pending f2"
      "pending f4 \<le> pending f3"
    using u by (auto simp: uses_def)
  show "pending fs' < pending fs \<and> (errno fs' \<in> set (faults fs) \<or> errno fs' = EEXIST)"
  proof (cases "r2 \<noteq> 0 \<and> errno f2 \<noteq> ENOENT")
    case True
    then have fs': "fs' = f2" using "def" r0 by simp
    have "faulted f1 f2 \<or> files f1 ?b \<noteq> None \<and> errno f2 = EEXIST" using c_rename_uses(3) [OF s2] True by auto
    moreover have "pending f1 < pending f0" if "files f1 ?b \<noteq> None"
      using that m0 m1 c_unlink_uses(2) [OF s1] by (auto split: if_splits)
    ultimately show ?thesis using fs' le sub by (auto simp: faulted_def)
  next
    case False
    then have r3: "r3 \<noteq> 0" using "def" r0 \<open>r \<noteq> 0\<close> by (auto split: if_splits)
    have m2: "r2 = 0 \<Longrightarrow> files f2 = (files f1)(p := None, ?b := files f1 p)" "r2 \<noteq> 0 \<Longrightarrow> files f2 = files f1"
      using s2 by (cases rule: c_rename_cases; simp)+
    have m3: "files f3 = files f2" using s3 r3 by (cases rule: c_rename_cases) auto
    have p1: "files f1 p = None" if "r2 \<noteq> 0"
      using that False c_rename_uses(3) [OF s2] io sub(1) by (auto simp: faulted_def ENOENT_def EEXIST_def)
    have "files f2 tmp \<noteq> None" using m1 m2 ne new by (cases "r2 = 0") auto
    moreover have p2: "files f2 p = None" using m2 p1 pb by (cases "r2 = 0") auto
    ultimately have f3: "faulted f2 f3" using c_rename_uses(3) [OF s3] r3 by auto
    show ?thesis
    proof (cases "r2 = 0")
      case True
      then have fs': "fs' = f4" using "def" r0 r3 False by simp
      have "files f1 p \<noteq> None" using s2 True by (cases rule: c_rename_cases) auto
      then have "files f3 ?b \<noteq> None" "files f3 p = None" using m2 m3 True pb p2 by auto
      then have "r4 = 0 \<and> errno f4 = errno f3 \<or> faulted f3 f4"
        using c_rename_uses(2,3) [OF s4] by (cases "r4 = 0") auto
      with f3 fs' le sub show ?thesis by (auto simp: faulted_def)
    next
      case r2: False
      then have "fs' = f3" using "def" r0 r3 False by simp
      with f3 le sub show ?thesis by (auto simp: faulted_def)
    qed
  qed
qed


section \<open>One attempt\<close>

lemma write_temporary_uses:
  assumes "write_temporary tmp d fs = (ok, e, fs')"
  shows "uses fs fs'" "ok \<Longrightarrow> files fs' = (files fs)(tmp \<mapsto> d)"
    "\<not> ok \<Longrightarrow> pending fs' < pending fs \<and> e \<in> set (faults fs) \<and> (\<forall>q. q \<noteq> tmp \<longrightarrow> files fs' q = files fs q)"
proof -
  obtain o1 f1 where s1: "c_fopen_wb tmp (fs\<lparr>errno := 0\<rparr>) = (o1, f1)" by fastforce
  define g where "g = f1\<lparr>errno := 0\<rparr>"
  obtain o2 f2 where s2: "(if d = [] then (True, g) else c_fwrite tmp d g) = (o2, f2)" by fastforce
  obtain o3 f3 where s3: "(if o2 then c_sync f2 else (False, f2)) = (o3, f3)" by fastforce
  obtain o4 f4 where s4: "c_sync f3 = (o4, f4)" by fastforce
  have "def": "(ok, e, fs') = (if \<not> o1 then (False, errno f1, f1)
      else if \<not> o4 then (False, if errno f3 = 0 then errno f4 else errno f3, f4) else (o3, errno f3, f4))"
    using assms unfolding write_temporary_def Let_def s1 prod.case g_def [symmetric] s2 s3 s4 by auto
  note u1 = c_fopen_wb_uses [OF s1] and u4 = c_sync_uses [OF s4]
  have "uses fs fs' \<and> (ok \<longrightarrow> files fs' = (files fs)(tmp \<mapsto> d)) \<and>
    (\<not> ok \<longrightarrow> pending fs' < pending fs \<and> e \<in> set (faults fs) \<and> (\<forall>q. q \<noteq> tmp \<longrightarrow> files fs' q = files fs q))"
  proof (cases o1)
    case False
    with "def" u1 show ?thesis by (auto simp: faulted_def pending_def)
  next
    case True
    have g: "files g = (files fs)(tmp \<mapsto> [])" "uses fs g" "errno g = 0" using u1 True by (auto simp: g_def)
    have w: "uses g f2 \<and> (o2 \<longrightarrow> files f2 = (files fs)(tmp \<mapsto> d) \<and> errno f2 = 0) \<and>
        (\<not> o2 \<longrightarrow> faulted g f2 \<and> files f2 = files g)"
    proof (cases "d = []")
      case True
      with s2 g show ?thesis by auto
    next
      case False
      with s2 have "c_fwrite tmp d g = (o2, f2)" by simp
      from c_fwrite_uses [OF this, of "[]"] g show ?thesis by auto
    qed
    have y: "uses f2 f3 \<and> files f3 = files f2 \<and> (o3 \<longrightarrow> o2 \<and> errno f3 = errno f2) \<and> (o2 \<and> \<not> o3 \<longrightarrow> faulted f2 f3) \<and>
        (\<not> o2 \<longrightarrow> f3 = f2 \<and> \<not> o3)"
    proof (cases o2)
      case True
      with s3 have "c_sync f2 = (o3, f3)" by simp
      from c_sync_uses [OF this] True show ?thesis by auto
    qed (use s3 in auto)
    have le: "pending g \<le> pending fs" "pending f2 \<le> pending g" "pending f3 \<le> pending f2" "pending f4 \<le> pending f3"
        "set (faults g) \<subseteq> set (faults fs)" "set (faults f2) \<subseteq> set (faults fs)" "set (faults f3) \<subseteq> set (faults fs)"
      using g(2) w y u4(1) by (auto simp: uses_def)
    have e3: "\<not> o3 \<longrightarrow> pending f3 < pending fs \<and> errno f3 \<in> set (faults fs) \<and> errno f3 \<noteq> 0"
      using w y le by (cases o2) (auto simp: faulted_def)
    have "uses fs f4" using g(2) w y u4(1) uses_trans by meson
    moreover have "\<forall>q. q \<noteq> tmp \<longrightarrow> files f4 q = files fs q" using u4(3) w y g(1) by (cases o2) auto
    moreover have "o3 \<longrightarrow> files f4 = (files fs)(tmp \<mapsto> d) \<and> errno f3 = 0" using u4(3) w y by auto
    ultimately show ?thesis using "def" True e3 u4(2) le by (auto simp: faulted_def split: if_splits)
  qed
  then show "uses fs fs'" "ok \<Longrightarrow> files fs' = (files fs)(tmp \<mapsto> d)"
    "\<not> ok \<Longrightarrow> pending fs' < pending fs \<and> e \<in> set (faults fs) \<and> (\<forall>q. q \<noteq> tmp \<longrightarrow> files fs' q = files fs q)"
    by blast+
qed

text \<open>
  What an attempt does to the files: it replaces the target, or leaves the target alone or moved to
  the backup; in either case only the temporary file, the target and its backup are touched.
\<close>

lemma write_attempt_uses:
  assumes run: "write_attempt tmp p d fs = (ok, e, fs')"
    and len: "length p + 4 < CONFIG_SECTION_MAX" and ne: "tmp \<noteq> p" "tmp \<noteq> config_backup_name p"
  shows "ok \<Longrightarrow> files fs' p = Some d \<and> files fs' tmp = None"
    and "\<not> ok \<Longrightarrow> files fs' p = files fs p \<or> files fs' p = None \<and> files fs' (config_backup_name p) = files fs p"
    and "q \<notin> {tmp, p, config_backup_name p} \<Longrightarrow> files fs' q = files fs q"
    and "ENOENT \<notin> set (faults fs) \<Longrightarrow> uses fs fs' \<and>
      (ok \<or> pending fs' < pending fs \<and> (e \<in> set (faults fs) \<or> e = EEXIST))"
proof -
  let ?b = "config_backup_name p"
  obtain o1 e1 f1 where s1: "write_temporary tmp d fs = (o1, e1, f1)" by (metis surj_pair)
  obtain r f2 where s2: "unifrog_config_commit (Some tmp) (Some p) (f1\<lparr>errno := 0\<rparr>) = (r, f2)" by fastforce
  have "def": "(ok, e, fs') = (if \<not> o1 then (False, e1, f1) else (r = 0, errno f2, f2))"
    using run s1 s2 by (auto simp: write_attempt_def Let_def)
  note u1 = write_temporary_uses [OF s1]
  have "(ok \<longrightarrow> files fs' p = Some d \<and> files fs' tmp = None) \<and>
    (\<not> ok \<longrightarrow> files fs' p = files fs p \<or> files fs' p = None \<and> files fs' ?b = files fs p) \<and>
    (q \<notin> {tmp, p, ?b} \<longrightarrow> files fs' q = files fs q) \<and>
    (ENOENT \<notin> set (faults fs) \<longrightarrow> uses fs fs' \<and>
      (ok \<or> pending fs' < pending fs \<and> (e \<in> set (faults fs) \<or> e = EEXIST)))"
  proof (cases o1)
    case False
    with "def" u1 ne show ?thesis by auto
  next
    case True
    let ?g = "f1\<lparr>errno := 0\<rparr>"
    have g: "files ?g = (files fs)(tmp \<mapsto> d)" "files ?g tmp = Some d" using u1(2) True by auto
    have fs': "fs' = f2" "ok \<longleftrightarrow> r = 0" "e = errno f2" using "def" True by auto
    note c = config_commit_cases [OF s2 len ne g(2)] and f = commit_fails_by_fault [OF s2 len ne g(2)]
    have io_ok: "uses fs fs' \<and> (ok \<or> pending fs' < pending fs \<and> (e \<in> set (faults fs) \<or> e = EEXIST))"
      if "ENOENT \<notin> set (faults fs)"
    proof -
      have io: "ENOENT \<notin> set (faults ?g)" using that u1(1) by (auto simp: uses_def)
      have "pending ?g \<le> pending fs" "set (faults ?g) \<subseteq> set (faults fs)" using u1(1) by (simp_all add: uses_def pending_def)
      moreover have "uses fs f2" using f(1) [OF io] u1(1) uses_trans [of fs f1 f2] by simp
      ultimately show ?thesis using f(2) [OF io] fs' by (cases "r = 0") auto
    qed
    have other: "q \<notin> {tmp, p, ?b} \<Longrightarrow> files fs' q = files fs q" using c(2) [of q] g(1) fs' by simp
    have "files ?g p = files fs p" using g(1) ne(1) by simp
    moreover have "(0 :: int) \<noteq> -1" by simp
    ultimately have "(r = 0 \<longrightarrow> files f2 p = Some d \<and> files f2 tmp = None) \<and>
        (r \<noteq> 0 \<longrightarrow> files f2 p = files fs p \<or> files f2 p = None \<and> files f2 ?b = files fs p)"
      using c(1) by metis
    moreover have "uses fs fs' \<and> (ok \<or> pending fs' < pending fs \<and> (e \<in> set (faults fs) \<or> e = EEXIST))"
      if "ENOENT \<notin> set (faults fs)"
      using io_ok that by blast
    moreover have "q \<notin> {tmp, p, ?b} \<Longrightarrow> files fs' q = files fs q" by (rule other)
    ultimately show ?thesis unfolding fs' by blast
  qed
  then show "ok \<Longrightarrow> files fs' p = Some d \<and> files fs' tmp = None"
    "\<not> ok \<Longrightarrow> files fs' p = files fs p \<or> files fs' p = None \<and> files fs' ?b = files fs p"
    "q \<notin> {tmp, p, ?b} \<Longrightarrow> files fs' q = files fs q"
    "ENOENT \<notin> set (faults fs) \<Longrightarrow> uses fs fs' \<and> (ok \<or> pending fs' < pending fs \<and> (e \<in> set (faults fs) \<or> e = EEXIST))"
    by blast+
qed


section \<open>All attempts\<close>

text \<open>What the code relies on of the recovery: it keeps the files and brings no new faults.\<close>

definition recovers :: "(fsys \<Rightarrow> int \<times> fsys) \<Rightarrow> bool" where
  "recovers recover \<longleftrightarrow> (\<forall>fs. files (snd (recover fs)) = files fs \<and> uses fs (snd (recover fs)))"

lemma c_unlink_tmp:
  "files (snd (c_unlink tmp fs)) q = (if q = tmp then files (snd (c_unlink tmp fs)) tmp else files fs q)"
proof -
  obtain r f where u: "c_unlink tmp fs = (r, f)" by fastforce
  then have "q = tmp \<or> files f q = files fs q" by (cases rule: c_unlink_cases) auto
  with u show ?thesis by auto
qed

lemma write_attempts_files:
  assumes "recovers recover" "length p + 4 < CONFIG_SECTION_MAX" "tmp \<noteq> p" "tmp \<noteq> config_backup_name p"
    "write_attempts recover tmp p d n fs = (r, fs')"
  shows "(r = 0 \<and> files fs' p = Some d \<or> r = -1 \<and> (files fs' p = files fs p \<or> files fs' p = None)) \<and>
    (\<forall>q. q \<notin> {tmp, p, config_backup_name p} \<longrightarrow> files fs' q = files fs q)"
  using assms(5)
proof (induction n arbitrary: fs)
  case (Suc n)
  let ?b = "config_backup_name p"
  obtain ok e f where at: "write_attempt tmp p d fs = (ok, e, f)" by (metis surj_pair)
  note a = write_attempt_uses [OF at assms(2-4)]
  show ?case
  proof (cases ok)
    case True
    with Suc.prems at a show ?thesis by auto
  next
    case False
    define g where "g = snd (c_unlink tmp f)"
    have g: "files g q = files f q" if "q \<noteq> tmp" for q using that c_unlink_tmp [of tmp f q] by (simp add: g_def)
    define h where "h = (if n \<noteq> 0 then snd (recover g) else g)"
    have h: "files h = files g" using assms(1) by (simp add: h_def recovers_def)
    have p: "files g p = files fs p \<or> files g p = None" using a(2) False g assms(3) by auto
    have q: "\<forall>q. q \<notin> {tmp, p, ?b} \<longrightarrow> files g q = files fs q" using a(3) g by auto
    have "write_attempts recover tmp p d (Suc n) fs =
        (if e = ENOENT \<or> e = ENOTDIR then (-1, g\<lparr>errno := e\<rparr>) else write_attempts recover tmp p d n h)"
      unfolding write_attempts.simps Let_def at prod.case g_def [symmetric] h_def [symmetric] using False by simp
    with Suc.prems have eq: "(if e = ENOENT \<or> e = ENOTDIR then (-1, g\<lparr>errno := e\<rparr>)
        else write_attempts recover tmp p d n h) = (r, fs')"
      by simp
    show ?thesis
    proof (cases "e = ENOENT \<or> e = ENOTDIR")
      case True
      with eq p q show ?thesis by auto
    next
      case False
      with eq have "write_attempts recover tmp p d n h = (r, fs')" by simp
      from Suc.IH [OF this] h p q show ?thesis by auto
    qed
  qed
qed simp

lemma storage_write_attempts:
  assumes "\<And>t a m. recovers (rec t a m)" "p \<noteq> []" "tmp \<noteq> []"
  obtains recover where "recovers recover"
    "unifrog_storage_write_atomic rec (Some p) (Some tmp) (Some d) (length d) tag attempts delay fs =
       write_attempts recover tmp p d (unat (if attempts = 0 then 1 else attempts)) fs"
proof -
  define recover where "recover = unifrog_storage_recover_after_io_error rec (tag_or ''write'' tag)
    (if (if attempts = 0 then 1 else attempts) < 8 then 24 else if attempts = 0 then 1 else attempts) delay"
  have "recovers recover"
    using assms(1) by (simp add: recover_def recovers_def unifrog_storage_recover_after_io_error_def)
  moreover have "unifrog_storage_write_atomic rec (Some p) (Some tmp) (Some d) (length d) tag attempts delay fs =
      write_attempts recover tmp p d (unat (if attempts = 0 then 1 else attempts)) fs"
    using assms(2,3) by (simp add: unifrog_storage_write_atomic_def Let_def recover_def)
  ultimately show thesis by (rule that)
qed

text \<open>
  C31.  Replacing a file is all or nothing: whatever faults the calls run into and however many
  attempts are made, either 0 is returned and the path holds the complete new contents, or -1 is
  returned and the path holds the old contents or does not exist; it never holds a part of the new
  contents.  Files other than the path, its temporary file and its backup keep their contents.
\<close>

theorem storage_write_all_or_nothing:
  assumes "\<And>t a m. recovers (rec t a m)" "length p + 4 < CONFIG_SECTION_MAX" "tmp \<notin> {[], p, config_backup_name p}"
    "unifrog_storage_write_atomic rec (Some p) (Some tmp) (Some d) (length d) tag attempts delay fs = (r, fs')"
  shows "(r = 0 \<and> files fs' p = Some d \<or> r = -1 \<and> (files fs' p = files fs p \<or> files fs' p = None)) \<and>
    (\<forall>q. q \<notin> {tmp, p, config_backup_name p} \<longrightarrow> files fs' q = files fs q)"
proof (cases "p = []")
  case True
  with assms(4) show ?thesis by (auto simp: unifrog_storage_write_atomic_def)
next
  case False
  have ne: "tmp \<noteq> []" "tmp \<noteq> p" "tmp \<noteq> config_backup_name p" using assms(3) by simp_all
  obtain recover where rc: "recovers recover"
    and eq: "unifrog_storage_write_atomic rec (Some p) (Some tmp) (Some d) (length d) tag attempts delay fs =
      write_attempts recover tmp p d (unat (if attempts = 0 then 1 else attempts)) fs"
    by (rule storage_write_attempts [OF assms(1) False ne(1)])
  show ?thesis by (rule write_attempts_files [OF rc assms(2) ne(2,3) assms(4) [unfolded eq]])
qed

theorem storage_write_all_or_nothing_witness:
  "\<exists>r fs'. unifrog_storage_write_atomic (\<lambda>t a m fs. (0, fs)) (Some ''a'') (Some ''a.tmp'') (Some ''new'')
      (length ''new'') None 2 100 (commit_fs [0, 0, 5]) = (r, fs') \<and>
    (r = 0 \<and> files fs' ''a'' = Some ''new'' \<or> r = -1 \<and> (files fs' ''a'' = Some ''old'' \<or> files fs' ''a'' = None))"
proof -
  obtain r fs' where run: "unifrog_storage_write_atomic (\<lambda>t a m fs. (0, fs)) (Some ''a'') (Some ''a.tmp'')
      (Some ''new'') (length ''new'') None 2 100 (commit_fs [0, 0, 5]) = (r, fs')" by fastforce
  have "files (commit_fs [0, 0, 5]) ''a'' = Some ''old''" by (simp add: commit_fs_def)
  then show ?thesis
    using storage_write_all_or_nothing [OF _ _ _ run] run
    by (simp add: recovers_def config_backup_name_def CONFIG_SECTION_MAX_def)
qed

lemma write_attempts_succeed:
  assumes "recovers recover" "length p + 4 < CONFIG_SECTION_MAX" "tmp \<noteq> p" "tmp \<noteq> config_backup_name p"
  shows "pending fs < n \<Longrightarrow> ENOENT \<notin> set (faults fs) \<Longrightarrow> ENOTDIR \<notin> set (faults fs) \<Longrightarrow>
    fst (write_attempts recover tmp p d n fs) = 0"
proof (induction n arbitrary: fs)
  case (Suc n)
  obtain ok e f where at: "write_attempt tmp p d fs = (ok, e, f)" by (metis surj_pair)
  note a = write_attempt_uses(4) [OF at assms(2-4) Suc.prems(2)]
  show ?case
  proof (cases ok)
    case True
    with at show ?thesis by simp
  next
    case False
    define g where "g = snd (c_unlink tmp f)"
    define h where "h = (if n \<noteq> 0 then snd (recover g) else g)"
    have "uses f g" unfolding g_def by (rule c_unlink_uses(1) [OF surjective_pairing])
    then have fh: "uses f h" using assms(1) uses_trans by (auto simp: h_def recovers_def)
    have e: "\<not> (e = ENOENT \<or> e = ENOTDIR)"
      using a False Suc.prems(2,3) by (auto simp: ENOENT_def ENOTDIR_def EEXIST_def)
    have "write_attempts recover tmp p d (Suc n) fs = write_attempts recover tmp p d n h"
      unfolding write_attempts.simps Let_def at prod.case g_def [symmetric] h_def [symmetric] using False e by simp
    moreover have "pending h < n" "ENOENT \<notin> set (faults h)" "ENOTDIR \<notin> set (faults h)"
      using a fh False Suc.prems by (auto simp: uses_def)
    ultimately show ?thesis using Suc.IH by simp
  qed
qed simp

lemma storage_write_succeeds:
  assumes "\<And>t a m. recovers (rec t a m)" "length p + 4 < CONFIG_SECTION_MAX" "tmp \<notin> {[], p, config_backup_name p}"
    "p \<noteq> []" "pending fs < unat attempts" "ENOENT \<notin> set (faults fs)" "ENOTDIR \<notin> set (faults fs)"
  obtains fs' where "unifrog_storage_write_atomic rec (Some p) (Some tmp) (Some d) (length d) tag attempts delay fs = (0, fs')"
    "files fs' p = Some d"
proof -
  have ne: "tmp \<noteq> []" "tmp \<noteq> p" "tmp \<noteq> config_backup_name p" using assms(3) by simp_all
  have a0: "attempts \<noteq> 0" using assms(5) by auto
  obtain recover where rc: "recovers recover"
    and eq: "unifrog_storage_write_atomic rec (Some p) (Some tmp) (Some d) (length d) tag attempts delay fs =
      write_attempts recover tmp p d (unat (if attempts = 0 then 1 else attempts)) fs"
    by (rule storage_write_attempts [OF assms(1,4) ne(1)])
  obtain r fs' where run: "write_attempts recover tmp p d (unat attempts) fs = (r, fs')" by fastforce
  have "r = 0" using write_attempts_succeed [OF rc assms(2) ne(2,3) assms(5-7), of d] run by simp
  with write_attempts_files [OF rc assms(2) ne(2,3) run] eq run that a0 show thesis by simp
qed

text \<open>
  C32.  A write outlasts transient errors: if the calls meet fewer faults than there are attempts, and
  none of them says that the file or directory is missing, the write succeeds and the path holds
  the new contents.
\<close>

theorem storage_write_outlasts_faults:
  assumes "\<And>t a m. recovers (rec t a m)" "length p + 4 < CONFIG_SECTION_MAX" "tmp \<notin> {[], p, config_backup_name p}"
    "p \<noteq> []" "pending fs < unat attempts" "ENOENT \<notin> set (faults fs)" "ENOTDIR \<notin> set (faults fs)"
  shows "\<exists>fs'. unifrog_storage_write_atomic rec (Some p) (Some tmp) (Some d) (length d) tag attempts delay fs = (0, fs') \<and>
    files fs' p = Some d"
  by (rule storage_write_succeeds [OF assms]) (rule exI, rule conjI)

theorem storage_write_outlasts_faults_witness:
  "\<exists>fs'. unifrog_storage_write_atomic (\<lambda>t a m fs. (0, fs)) (Some ''a'') (Some ''a.tmp'') (Some ''new'') (length ''new'')
      None 3 100 (commit_fs [0, 5, 0, 0, 0, 0, 5]) = (0, fs') \<and> files fs' ''a'' = Some ''new''"
  by (rule storage_write_outlasts_faults)
    (simp_all add: recovers_def config_backup_name_def CONFIG_SECTION_MAX_def pending_def commit_fs_def
      ENOENT_def ENOTDIR_def)

text \<open>
  A run that loses the file: the first attempt leaves the old contents only in the backup, and the
  second one deletes the backup, then fails as well and deletes the new contents.
\<close>

lemma storage_write_loses_file:
  defines "s \<equiv> commit_fs [0, 0, 0, 0, 0, 0, 0, 5, 5, 0, 0, 0, 0, 0, 5, 0, 0, 5, 0]"
  shows "let fs' = snd (unifrog_storage_write_atomic (\<lambda>t a m fs. (0, fs)) (Some ''a'') (Some ''a.tmp'')
      (Some ''new'') 3 None 2 100 s)
    in files s ''a'' = Some ''old'' \<and> files fs' ''a'' = None \<and> files fs' ''a.bak'' = None \<and> files fs' ''a.tmp'' = None"
  unfolding s_def by code_simp

end
