(* ===== verification/UF_Clock.thy ===== *)
theory UF_Clock
  imports UF_Storage
begin

text \<open>
  The clock of a device without a real-time clock (\<open>foundation/src/runtime/unifrog_clock.c\<close>): an
  epoch that is read from \<open>clock.ini\<close> at the start, advanced by the millisecond counter and
  written back when the date is set and at shutdown.

  The millisecond counter is a function of the number of its reads; the modification time of the
  release manifest, the setting of the system time and the recovery of the card are parameters.
  The time zone is UTC, as nothing sets another; \<open>time_t\<close> is unbounded.  Of the C library the theory
  defines \<open>strtoll\<close>, the conversion \<open>%lld\<close>, and \<open>mktime\<close> and \<open>localtime_r\<close> for the Gregorian calendar.
\<close>

section \<open>Numbers and dates of the C library\<close>

definition digit_char :: "nat \<Rightarrow> char" where
  "digit_char n = char_of (48 + n)"

definition digit_value :: "char \<Rightarrow> nat" where
  "digit_value c = of_char c - 48"

definition is_digit :: "char \<Rightarrow> bool" where
  "is_digit c \<longleftrightarrow> 48 \<le> (of_char c :: nat) \<and> (of_char c :: nat) \<le> 57"

fun dec_nat :: "nat \<Rightarrow> string" where
  "dec_nat n = (if n < 10 then [digit_char n] else dec_nat (n div 10) @ [digit_char (n mod 10)])"

declare dec_nat.simps [simp del]

definition dec_int :: "int \<Rightarrow> string" where
  "dec_int i = (if i < 0 then CHR ''-'' # dec_nat (nat (- i)) else dec_nat (nat i))"

definition digits_value :: "string \<Rightarrow> nat" where
  "digits_value ds = foldl (\<lambda>a c. a * 10 + digit_value c) 0 ds"

definition clamp64 :: "int \<Rightarrow> int" where
  "clamp64 i = max (- (2 ^ 63)) (min (2 ^ 63 - 1) i)"

text \<open>The value and what follows the number; without digits nothing is consumed.\<close>

definition c_strtoll :: "string \<Rightarrow> int \<times> string" where
  "c_strtoll s =
     (let s1 = dropWhile (\<lambda>c. c \<in> {CHR '' '', TAB, LF, CR, CHR 0x0B, CHR 0x0C}) s;
          (neg, s2) = (if s1 \<noteq> [] \<and> hd s1 = CHR ''-'' then (True, tl s1)
                       else if s1 \<noteq> [] \<and> hd s1 = CHR ''+'' then (False, tl s1) else (False, s1));
          ds = takeWhile is_digit s2
      in if ds = [] then (0, s)
         else (clamp64 (if neg then - int (digits_value ds) else int (digits_value ds)), dropWhile is_digit s2))"

lemma is_digit_code: "is_digit c \<Longrightarrow> (of_char c :: nat) \<in> {48..57}"
  by (simp add: is_digit_def)

lemma digit_char:
  assumes "n < 10"
  shows "is_digit (digit_char n)" "digit_value (digit_char n) = n"
  using assms by (simp_all add: digit_char_def is_digit_def digit_value_def)

lemma digits_value_snoc: "digits_value (ds @ [c]) = digits_value ds * 10 + digit_value c"
  by (simp add: digits_value_def)

lemma dec_nat_digits: "dec_nat n \<noteq> [] \<and> list_all is_digit (dec_nat n) \<and> digits_value (dec_nat n) = n"
proof (induction n rule: dec_nat.induct)
  case (1 n)
  show ?case
  proof (cases "n < 10")
    case True
    with digit_char [of n] show ?thesis by (simp add: dec_nat.simps [of n] digits_value_def)
  next
    case False
    with 1 digit_char [of "n mod 10"] show ?thesis by (simp add: dec_nat.simps [of n] digits_value_snoc)
  qed
qed

lemma length_dec_nat: "n < 10 ^ Suc k \<Longrightarrow> length (dec_nat n) \<le> Suc k"
proof (induction k arbitrary: n)
  case (Suc k)
  have "n div 10 < 10 ^ Suc k" using Suc.prems by (simp add: less_mult_imp_div_less mult.commute)
  with Suc.IH [of "n div 10"] show ?case by (subst dec_nat.simps) simp
qed (simp add: dec_nat.simps)

text \<open>Digits are neither white space nor any of the characters the configuration reader treats apart.\<close>

lemma digit_not:
  assumes "is_digit c"
  shows "c \<notin> {NUL, CHR '' '', TAB, LF, CR, CHR 0x0B, CHR 0x0C, CHR ''-'', CHR ''+'', CHR ''#'', CHR '';'', APOS, QUOT}"
  using assms by (auto simp: is_digit_def)

lemma strtoll_dec_int:
  assumes "0 \<le> i" "i < 2 ^ 63"
  shows "c_strtoll (dec_int i) = (i, [])"
proof -
  let ?d = "dec_nat (nat i)"
  note d = dec_nat_digits [of "nat i"]
  then obtain c s where cs: "?d = c # s" "is_digit c" by (cases ?d) auto
  have all: "takeWhile is_digit ?d = ?d" "dropWhile is_digit ?d = []"
    using d by (simp_all add: list_all_iff)
  have "dropWhile (\<lambda>c. c \<in> {CHR '' '', TAB, LF, CR, CHR 0x0B, CHR 0x0C}) ?d = ?d"
    using digit_not [OF cs(2)] by (simp add: cs(1))
  moreover have "hd ?d \<noteq> CHR ''-''" "hd ?d \<noteq> CHR ''+''" using digit_not [OF cs(2)] by (simp_all add: cs(1))
  moreover have "clamp64 (int (digits_value ?d)) = i" using d assms by (simp add: clamp64_def)
  ultimately show ?thesis using assms(1) d by (simp add: c_strtoll_def dec_int_def Let_def all)
qed

lemma print_digits:
  assumes "list_all is_digit s"
  shows "print_value s = s" "cstr_ok s"
proof -
  have "plain_value b s" for b using assms
  proof (induction s arbitrary: b)
    case (Cons c s)
    then show ?case using digit_not [of c] by simp
  qed simp
  moreover have "trimmed s \<and> LF \<notin> set s \<and> cstr_ok s \<and> (s = [] \<or> hd s \<noteq> APOS \<and> hd s \<noteq> QUOT)"
    using assms digit_not
    by (cases "s = []") (auto simp: trimmed_def is_blank_def is_trailing_def cstr_ok_def list_all_iff dest: hd_in_set last_in_set)
  ultimately show "print_value s = s" "cstr_ok s" by (simp_all add: print_value_def)
qed

record tm =
  tm_year :: int
  tm_mon :: int
  tm_mday :: int
  tm_hour :: int
  tm_min :: int
  tm_sec :: int

definition leap :: "int \<Rightarrow> bool" where
  "leap y \<longleftrightarrow> y mod 4 = 0 \<and> (y mod 100 \<noteq> 0 \<or> y mod 400 = 0)"

definition year_days :: "int \<Rightarrow> int" where
  "year_days y = (if leap y then 366 else 365)"

definition month_days :: "int \<Rightarrow> int list" where
  "month_days y = [31, if leap y then 29 else 28, 31, 30, 31, 30, 31, 31, 30, 31, 30, 31]"

definition leaps_before :: "int \<Rightarrow> int" where
  "leaps_before y = (y - 1) div 4 - (y - 1) div 100 + (y - 1) div 400"

definition days_before_year :: "int \<Rightarrow> int" where
  "days_before_year y = 365 * (y - 1970) + leaps_before y - leaps_before 1970"

definition c_mktime :: "tm \<Rightarrow> int" where
  "c_mktime t =
     (let y = 1900 + tm_year t + tm_mon t div 12; m = nat (tm_mon t mod 12);
          days = days_before_year y + sum_list (take m (month_days y)) + tm_mday t - 1
      in days * 86400 + tm_hour t * 3600 + tm_min t * 60 + tm_sec t)"

function year_of :: "int \<Rightarrow> int \<Rightarrow> int \<times> int" where
  "year_of d y = (if d < year_days y then (y, d) else year_of (d - year_days y) (y + 1))"
  by pat_completeness auto
termination
  by (relation "measure (\<lambda>(d, y). nat d)") (auto simp: year_days_def split: if_splits)

declare year_of.simps [simp del]

fun month_of :: "int list \<Rightarrow> int \<Rightarrow> nat \<Rightarrow> nat \<times> int" where
  "month_of [] d m = (m, d)"
| "month_of (n # ns) d m = (if d < n then (m, d) else month_of ns (d - n) (Suc m))"

definition c_localtime :: "int \<Rightarrow> tm" where
  "c_localtime t =
     (let (y, dy) = year_of (t div 86400) 1970; (m, dm) = month_of (month_days y) dy 0; s = t mod 86400
      in \<lparr>tm_year = y - 1900, tm_mon = int m, tm_mday = dm + 1, tm_hour = s div 3600, tm_min = s mod 3600 div 60,
          tm_sec = s mod 60\<rparr>)"

text \<open>The two conversions are inverse to each other on the times since 1970.\<close>

lemma div_step:
  fixes y k :: int
  assumes "0 < k"
  shows "y div k = (y - 1) div k + (if y mod k = 0 then 1 else 0)"
proof (cases "y mod k = 0")
  case True
  have "y = k * (y div k)" using True mult_div_mod_eq [of k y] by simp
  then have "y - 1 = k * (y div k - 1) + (k - 1)" by (simp add: right_diff_distrib)
  from int_div_pos_eq [OF this] assms True show ?thesis by simp
next
  case False
  have "y - 1 = k * (y div k) + (y mod k - 1)" using mult_div_mod_eq [of k y] by simp
  moreover have "0 \<le> y mod k - 1" "y mod k - 1 < k"
    using False pos_mod_sign [OF assms, of y] pos_mod_bound [OF assms, of y] by linarith+
  ultimately show ?thesis using int_div_pos_eq [of "y - 1" k "y div k" "y mod k - 1"] False by simp
qed

lemma days_before_next_year: "days_before_year (y + 1) = days_before_year y + year_days y"
proof -
  have "y mod 400 mod 100 = y mod 100" "y mod 100 mod 4 = y mod 4" by (simp_all add: mod_mod_cancel)
  then have m: "y mod 400 = 0 \<Longrightarrow> y mod 100 = 0" "y mod 100 = 0 \<Longrightarrow> y mod 4 = 0" by simp_all
  have "leaps_before (y + 1) = leaps_before y + (if leap y then 1 else 0)"
    unfolding leaps_before_def leap_def add_diff_cancel_right'
      div_step [of 4 y, simplified] div_step [of 100 y, simplified] div_step [of 400 y, simplified]
    using m by (cases "y mod 400 = 0"; cases "y mod 100 = 0"; cases "y mod 4 = 0") simp_all
  then show ?thesis by (simp add: days_before_year_def year_days_def)
qed

lemma sum_month_days: "sum_list (month_days y) = year_days y"
  by (simp add: month_days_def year_days_def)

lemma length_month_days: "length (month_days y) = 12"
  by (simp add: month_days_def)

lemma year_of_days:
  "year_of d y = (y', d') \<Longrightarrow> 0 \<le> d \<Longrightarrow>
    days_before_year y' + d' = days_before_year y + d \<and> 0 \<le> d' \<and> d' < year_days y'"
proof (induction d y rule: year_of.induct)
  case (1 d y)
  show ?case
  proof (cases "d < year_days y")
    case True
    with "1.prems" show ?thesis by (simp add: year_of.simps)
  next
    case False
    with "1.prems" have "year_of (d - year_days y) (y + 1) = (y', d')" by (simp add: year_of.simps)
    with "1.IH" [OF False this] False show ?thesis by (simp add: days_before_next_year)
  qed
qed

lemma month_of_days:
  "month_of ns d m = (m', d') \<Longrightarrow> 0 \<le> d \<Longrightarrow> d < sum_list ns \<Longrightarrow>
    m \<le> m' \<and> m' < m + length ns \<and> sum_list (take (m' - m) ns) + d' = d \<and> 0 \<le> d'"
proof (induction ns d m rule: month_of.induct)
  case (2 n ns d m)
  show ?case
  proof (cases "d < n")
    case True
    with "2.prems" show ?thesis by simp
  next
    case False
    with "2.IH" "2.prems" have "Suc m \<le> m'" "m' < Suc m + length ns" "sum_list (take (m' - Suc m) ns) + d' = d - n" "0 \<le> d'"
      by simp_all
    moreover from this have "m' - m = Suc (m' - Suc m)" by simp
    ultimately show ?thesis by simp
  qed
qed simp

theorem mktime_localtime:
  assumes "0 \<le> t"
  shows "c_mktime (c_localtime t) = t"
proof -
  obtain y dy where y: "year_of (t div 86400) 1970 = (y, dy)" by fastforce
  obtain m dm where m: "month_of (month_days y) dy 0 = (m, dm)" by fastforce
  have "days_before_year 1970 = 0" by (simp add: days_before_year_def)
  with year_of_days [OF y] assms have d: "days_before_year y + dy = t div 86400" "0 \<le> dy" "dy < year_days y"
    by (simp_all add: pos_imp_zdiv_nonneg_iff)
  then have mm: "m < 12" "sum_list (take m (month_days y)) + dm = dy"
    using month_of_days [OF m] by (simp_all add: sum_month_days length_month_days)
  define s where "s = t mod 86400"
  have lt: "c_localtime t = \<lparr>tm_year = y - 1900, tm_mon = int m, tm_mday = dm + 1, tm_hour = s div 3600,
      tm_min = s mod 3600 div 60, tm_sec = s mod 60\<rparr>"
    by (simp add: c_localtime_def y m s_def Let_def)
  have "int m div 12 = 0" "nat (int m mod 12) = m" using mm(1) by simp_all
  then have "c_mktime (c_localtime t) = (days_before_year y + dy) * 86400 +
      s div 3600 * 3600 + s mod 3600 div 60 * 60 + s mod 60"
    unfolding lt c_mktime_def Let_def mm(2) [symmetric] by simp
  also have "s mod 60 = s mod 3600 mod 60" by (simp add: mod_mod_cancel)
  finally show ?thesis unfolding add.assoc div_mult_mod_eq d(1) s_def .
qed

section \<open>The clock\<close>

definition CLOCK_MIN_EPOCH :: int where "CLOCK_MIN_EPOCH = 1577836800"
definition CLOCK_MAX_EPOCH :: int where "CLOCK_MAX_EPOCH = 2145916800"
definition CLOCK_OFFSET_LIMIT_MINUTES :: int where "CLOCK_OFFSET_LIMIT_MINUTES = 10 * 366 * 24 * 60"
definition UNIFROG_CLOCK_STATE_PATH :: string where
  "UNIFROG_CLOCK_STATE_PATH = UNIFROG_SD_ROOT @ ''/unifrog_data/clock.ini''"

record clock_env =
  ce_ms :: "nat \<Rightarrow> u32"
  ce_manifest_mtime :: "int option"
  ce_build_epoch :: int
  ce_settime :: "int \<Rightarrow> int"
  ce_recovery :: recovery

record clock =
  ck_epoch :: int
  ck_ms :: u32
  ck_initialized :: bool
  ck_offset :: int
  ck_reads :: nat
  ck_fs :: fsys

definition unifrog_perf_time_ms :: "clock_env \<Rightarrow> clock \<Rightarrow> u32 \<times> clock" where
  "unifrog_perf_time_ms env ck = (ce_ms env (ck_reads ck), ck\<lparr>ck_reads := ck_reads ck + 1\<rparr>)"

definition clock_state_entry :: "int config_cb" where
  "clock_state_entry epoch sec key value line_number =
     (if sec \<noteq> [] \<or> key \<noteq> ''epoch'' then (epoch, 0)
      else let (parsed, after) = c_strtoll value
           in if after = [] \<and> parsed \<ge> CLOCK_MIN_EPOCH \<and> parsed \<le> CLOCK_MAX_EPOCH then (parsed, 0) else (epoch, 0))"

definition clock_release_epoch :: "clock_env \<Rightarrow> int" where
  "clock_release_epoch env = (case ce_manifest_mtime env of
     Some t \<Rightarrow> if t \<ge> CLOCK_MIN_EPOCH \<and> t \<le> CLOCK_MAX_EPOCH then t else ce_build_epoch env
   | None \<Rightarrow> ce_build_epoch env)"

text \<open>The value of the clock when it is initialised.\<close>

definition clock_value :: "clock_env \<Rightarrow> clock \<Rightarrow> int \<times> clock" where
  "clock_value env ck =
     (let (ms, ck) = unifrog_perf_time_ms env ck in (ck_epoch ck + int (unat (ms - ck_ms ck) div 1000), ck))"

definition clock_sync_system :: "clock_env \<Rightarrow> clock \<Rightarrow> int \<times> clock" where
  "clock_sync_system env ck =
     (let (now, ck) = clock_value env ck in (ce_settime env (now + ck_offset ck * 60), ck))"

definition unifrog_clock_init :: "clock_env \<Rightarrow> clock \<Rightarrow> clock" where
  "unifrog_clock_init env ck =
     (if ck_initialized ck then ck
      else let ((ret, epoch, errors), fs) = unifrog_config_read (ck_fs ck) (Some UNIFROG_CLOCK_STATE_PATH)
                 (Some clock_state_entry) 0;
               base = (if epoch \<noteq> 0 then epoch else clock_release_epoch env);
               base = (if base < CLOCK_MIN_EPOCH \<or> base > CLOCK_MAX_EPOCH then CLOCK_MIN_EPOCH else base);
               (ms, ck) = unifrog_perf_time_ms env (ck\<lparr>ck_fs := fs\<rparr>)
           in snd (clock_sync_system env
                (ck\<lparr>ck_epoch := base, ck_ms := ms, ck_initialized := True, ck_offset := 0\<rparr>)))"

definition unifrog_clock_now :: "clock_env \<Rightarrow> clock \<Rightarrow> int \<times> clock" where
  "unifrog_clock_now env ck =
     (let ck = (if \<not> ck_initialized ck then unifrog_clock_init env ck else ck) in clock_value env ck)"

definition unifrog_clock_get_local :: "clock_env \<Rightarrow> clock \<Rightarrow> tm \<times> clock" where
  "unifrog_clock_get_local env ck = (let (now, ck) = unifrog_clock_now env ck in (c_localtime now, ck))"

definition clock_text :: "int \<Rightarrow> string" where
  "clock_text now =
     ''# UniFrog pseudo-clock state. This is updated by Set Date/Time and Safe'' @ [LF] @
     ''# Shutdown. Deleting it resets time to the release file timestamp.'' @ [LF] @
     ''epoch='' @ dec_int now @ [LF]"

definition unifrog_clock_persist :: "clock_env \<Rightarrow> clock \<Rightarrow> int \<times> clock" where
  "unifrog_clock_persist env ck =
     (let (now, ck) = unifrog_clock_now env ck; t = clock_text now
      in if length t \<ge> 256 then (-1, ck)
         else let (r, fs) = unifrog_storage_write_atomic (ce_recovery env) (Some UNIFROG_CLOCK_STATE_PATH)
                (Some (UNIFROG_CLOCK_STATE_PATH @ ''.tmp'')) (Some t) (length t) (Some ''clock'') 4 100 (ck_fs ck)
              in (r, ck\<lparr>ck_fs := fs\<rparr>))"

definition unifrog_clock_set_local :: "clock_env \<Rightarrow> tm \<Rightarrow> clock \<Rightarrow> int \<times> clock" where
  "unifrog_clock_set_local env value ck =
     (let epoch = c_mktime value
      in if epoch < CLOCK_MIN_EPOCH \<or> epoch > CLOCK_MAX_EPOCH then (-1, ck)
         else let (ms, ck) = unifrog_perf_time_ms env ck;
                  ck = ck\<lparr>ck_epoch := epoch, ck_ms := ms, ck_initialized := True\<rparr>;
                  (r, ck) = clock_sync_system env ck
              in if r \<noteq> 0 then (-1, ck) else unifrog_clock_persist env ck)"

datatype clock_field = UNIFROG_CLOCK_YEAR | UNIFROG_CLOCK_MONTH | UNIFROG_CLOCK_DAY | UNIFROG_CLOCK_HOUR
  | UNIFROG_CLOCK_MINUTE

definition clock_shift :: "clock_field \<Rightarrow> int \<Rightarrow> tm \<Rightarrow> tm" where
  "clock_shift field amount value = (case field of
     UNIFROG_CLOCK_YEAR \<Rightarrow> value\<lparr>tm_year := tm_year value + amount\<rparr>
   | UNIFROG_CLOCK_MONTH \<Rightarrow> value\<lparr>tm_mon := tm_mon value + amount\<rparr>
   | UNIFROG_CLOCK_DAY \<Rightarrow> value\<lparr>tm_mday := tm_mday value + amount\<rparr>
   | UNIFROG_CLOCK_HOUR \<Rightarrow> value\<lparr>tm_hour := tm_hour value + amount\<rparr>
   | UNIFROG_CLOCK_MINUTE \<Rightarrow> value\<lparr>tm_min := tm_min value + amount\<rparr>)"

definition unifrog_clock_adjust :: "clock_env \<Rightarrow> clock_field \<Rightarrow> int \<Rightarrow> clock \<Rightarrow> int \<times> clock" where
  "unifrog_clock_adjust env field amount ck =
     (let (value, ck) = unifrog_clock_get_local env ck
      in unifrog_clock_set_local env (clock_shift field amount value) ck)"

text \<open>\<open>%0<w>d\<close>; the text is cut to the buffer, and a cut one is an error.\<close>

definition pad0 :: "nat \<Rightarrow> int \<Rightarrow> string" where
  "pad0 w i = (let d = dec_nat (nat \<bar>i\<bar>); sign = (if i < 0 then ''-'' else [])
     in sign @ replicate (w - length sign - length d) (CHR ''0'') @ d)"

definition unifrog_clock_format :: "clock_env \<Rightarrow> nat \<Rightarrow> clock \<Rightarrow> int \<times> string option \<times> clock" where
  "unifrog_clock_format env sz ck =
     (if sz = 0 then (-1, None, ck)
      else let (v, ck) = unifrog_clock_get_local env ck;
               t = pad0 4 (tm_year v + 1900) @ ''-'' @ pad0 2 (tm_mon v + 1) @ ''-'' @ pad0 2 (tm_mday v) @ '' '' @
                 pad0 2 (tm_hour v) @ '':'' @ pad0 2 (tm_min v) @ '':'' @ pad0 2 (tm_sec v)
           in (if length t < sz then 0 else -1, Some (take (sz - 1) t), ck))"

definition unifrog_clock_set_runtime_offset_minutes :: "clock_env \<Rightarrow> int \<Rightarrow> clock \<Rightarrow> int \<times> clock" where
  "unifrog_clock_set_runtime_offset_minutes env minutes ck =
     (if minutes < - CLOCK_OFFSET_LIMIT_MINUTES \<or> minutes > CLOCK_OFFSET_LIMIT_MINUTES then (-1, ck)
      else let (now, ck) = unifrog_clock_now env ck; adjusted = now + minutes * 60
           in if adjusted < CLOCK_MIN_EPOCH \<or> adjusted > CLOCK_MAX_EPOCH then (-1, ck)
              else clock_sync_system env (ck\<lparr>ck_offset := minutes\<rparr>))"

definition unifrog_clock_runtime_offset_minutes :: "clock \<Rightarrow> int" where
  "unifrog_clock_runtime_offset_minutes ck = ck_offset ck"


section \<open>The state file\<close>

definition clock_items :: "int \<Rightarrow> cfg_item list" where
  "clock_items now =
     [Comment '' UniFrog pseudo-clock state. This is updated by Set Date/Time and Safe'',
      Comment '' Shutdown. Deleting it resets time to the release file timestamp.'',
      Assign ''epoch'' (dec_int now)]"

lemma clock_text_items:
  assumes "0 \<le> now" "now < 10 ^ 10"
  shows "clock_text now = render_items (clock_items now)" "list_all item_ok (clock_items now)" "length (clock_text now) < 256"
proof -
  have d: "dec_int now = dec_nat (nat now)" using assms(1) by (simp add: dec_int_def)
  note p = print_digits [of "dec_nat (nat now)"]
  have l: "length (dec_nat (nat now)) \<le> 10" using length_dec_nat [of "nat now" 9] assms by simp
  show "clock_text now = render_items (clock_items now)"
    using p dec_nat_digits by (simp add: clock_text_def clock_items_def d)
  show "list_all item_ok (clock_items now)"
    using p dec_nat_digits [of "nat now"] l
    by (simp add: clock_items_def d key_ok_def cstr_ok_def trimmed_def is_blank_def is_trailing_def utf8_bom_def CONFIG_LINE_MAX_def)
  show "length (clock_text now) < 256" using l by (simp add: clock_text_def d)
qed

lemma clock_init_reads:
  assumes "CLOCK_MIN_EPOCH \<le> now" "now \<le> CLOCK_MAX_EPOCH" "\<not> ck_initialized ck"
    "faults (ck_fs ck) = []" "files (ck_fs ck) UNIFROG_CLOCK_STATE_PATH = Some (clock_text now)"
  shows "ck_epoch (unifrog_clock_init env ck) = now \<and> ck_initialized (unifrog_clock_init env ck)"
proof -
  have b: "0 \<le> now" "now < 10 ^ 10" "now < 2 ^ 63" "now \<noteq> 0"
    using assms(1,2) by (simp_all add: CLOCK_MIN_EPOCH_def CLOCK_MAX_EPOCH_def)
  note t = clock_text_items [OF b(1,2)]
  define g where "g u e = fst (clock_state_entry u (fst e) (fst (snd e)) (snd (snd e)) 0)" for u and e :: "string \<times> string \<times> string"
  have g: "clock_state_entry u sec k v n = (g u (sec, k, v), 0)" for u sec k v n
    by (simp add: g_def clock_state_entry_def split: prod.split)
  have "files (ck_fs ck) UNIFROG_CLOCK_STATE_PATH = Some (render_items (clock_items now))" using assms(5) t(1) by simp
  then have "unifrog_config_read (ck_fs ck) (Some UNIFROG_CLOCK_STATE_PATH) (Some clock_state_entry) 0 =
      ((0, foldl g 0 (item_entries [] (clock_items now)), 0), ck_fs ck)"
    by (rule config_read_items_cb [OF t(2) assms(4)]) (rule g)
  moreover have "foldl g 0 (item_entries [] (clock_items now)) = now"
    using assms(1,2) by (simp add: clock_items_def g_def clock_state_entry_def strtoll_dec_int [OF b(1,3)])
  ultimately show ?thesis
    using assms(1-3) b(4)
    by (simp add: unifrog_clock_init_def clock_sync_system_def clock_value_def unifrog_perf_time_ms_def Let_def)
qed

lemma clock_path_facts:
  "length UNIFROG_CLOCK_STATE_PATH + 4 < CONFIG_SECTION_MAX" "UNIFROG_CLOCK_STATE_PATH \<noteq> []"
  "UNIFROG_CLOCK_STATE_PATH @ ''.tmp'' \<notin> {[], UNIFROG_CLOCK_STATE_PATH, config_backup_name UNIFROG_CLOCK_STATE_PATH}"
  by (simp_all add: UNIFROG_CLOCK_STATE_PATH_def UNIFROG_SD_ROOT_def CONFIG_SECTION_MAX_def config_backup_name_def)

lemma clock_persist_writes:
  assumes "\<And>t a m. recovers (ce_recovery env t a m)" "ck_initialized ck"
    "unifrog_clock_now env ck = (now, ck1)" "0 \<le> now" "now < 10 ^ 10"
    "pending (ck_fs ck) < 4" "ENOENT \<notin> set (faults (ck_fs ck))" "ENOTDIR \<notin> set (faults (ck_fs ck))"
  obtains fs' where "unifrog_clock_persist env ck = (0, ck1\<lparr>ck_fs := fs'\<rparr>)"
    "files fs' UNIFROG_CLOCK_STATE_PATH = Some (clock_text now)"
proof -
  have f: "ck_fs ck1 = ck_fs ck"
    using assms(2,3) by (auto simp: unifrog_clock_now_def clock_value_def unifrog_perf_time_ms_def Let_def)
  have "pending (ck_fs ck) < unat (4 :: u32)" using assms(6) by simp
  from storage_write_succeeds [OF assms(1) clock_path_facts(1,3,2) this assms(7,8)]
  obtain fs' where w: "unifrog_storage_write_atomic (ce_recovery env) (Some UNIFROG_CLOCK_STATE_PATH)
      (Some (UNIFROG_CLOCK_STATE_PATH @ ''.tmp'')) (Some (clock_text now)) (length (clock_text now)) (Some ''clock'') 4 100
      (ck_fs ck) = (0, fs')" "files fs' UNIFROG_CLOCK_STATE_PATH = Some (clock_text now)" .
  have "unifrog_clock_persist env ck = (0, ck1\<lparr>ck_fs := fs'\<rparr>)"
    using clock_text_items(3) [OF assms(4,5)] by (simp add: unifrog_clock_persist_def assms(3) f w(1) Let_def)
  with w(2) that show thesis by blast
qed


definition clock_example :: clock where
  "clock_example = \<lparr>ck_epoch = 1700000000, ck_ms = 4294967000, ck_initialized = True, ck_offset = 0, ck_reads = 0,
     ck_fs = \<lparr>files = Map.empty, replace_ok = False, faults = [0, 5, 0, 5], errno = 0\<rparr>\<rparr>"

definition clock_env_example :: clock_env where
  "clock_env_example = \<lparr>ce_ms = (\<lambda>n. 4704), ce_manifest_mtime = None, ce_build_epoch = 1704067200,
     ce_settime = (\<lambda>t. 0), ce_recovery = (\<lambda>t a m fs. (0, fs))\<rparr>"


section \<open>Adjusting the time\<close>

fun clock_unit :: "clock_field \<Rightarrow> int" where
  "clock_unit UNIFROG_CLOCK_DAY = 86400"
| "clock_unit UNIFROG_CLOCK_HOUR = 3600"
| "clock_unit UNIFROG_CLOCK_MINUTE = 60"
| "clock_unit _ = 0"

lemma mktime_shift:
  "clock_unit field \<noteq> 0 \<Longrightarrow> c_mktime (clock_shift field n value) = c_mktime value + n * clock_unit field"
  by (cases field) (simp_all add: clock_shift_def c_mktime_def Let_def algebra_simps)

text \<open>What setting the clock leaves: the base, the system time, and the file on the card.\<close>

lemma persist_runs:
  assumes "ck_initialized ck" "now = ck_epoch ck + int (unat (ce_ms env (ck_reads ck) - ck_ms ck) div 1000)" "0 \<le> now" "now < 10 ^ 10"
  shows "unifrog_clock_persist env ck =
    (let w = unifrog_storage_write_atomic (ce_recovery env) (Some UNIFROG_CLOCK_STATE_PATH)
          (Some (UNIFROG_CLOCK_STATE_PATH @ ''.tmp'')) (Some (clock_text now)) (length (clock_text now)) (Some ''clock'') 4 100 (ck_fs ck)
     in (fst w, ck\<lparr>ck_reads := ck_reads ck + 1, ck_fs := snd w\<rparr>))"
  using assms clock_text_items(3) [OF assms(3,4)]
  by (simp add: unifrog_clock_persist_def unifrog_clock_now_def clock_value_def unifrog_perf_time_ms_def Let_def case_prod_beta)

lemma elapsed_less: "int (unat (d :: u32) div 1000) < 5000000"
proof -
  have "unat d < 2 ^ 32" using unsigned_less [of d] by simp
  then have "unat d div 1000 < 5000000" by (simp add: less_mult_imp_div_less)
  then show ?thesis by simp
qed

lemma set_local_runs:
  assumes "CLOCK_MIN_EPOCH \<le> c_mktime v" "c_mktime v \<le> CLOCK_MAX_EPOCH" "unifrog_clock_set_local env v ck = (ret, ck')"
  defines "at \<equiv> \<lambda>k. c_mktime v + int (unat (ce_ms env k - ce_ms env (ck_reads ck)) div 1000)"
  shows "ck_initialized ck'" "ck_epoch ck' = c_mktime v" "ck_ms ck' = ce_ms env (ck_reads ck)"
    "ce_settime env (at (ck_reads ck + 1) + ck_offset ck * 60) \<noteq> 0 \<Longrightarrow> ret = -1 \<and> ck_fs ck' = ck_fs ck"
    "ce_settime env (at (ck_reads ck + 1) + ck_offset ck * 60) = 0 \<Longrightarrow>
      (ret, ck_fs ck') = unifrog_storage_write_atomic (ce_recovery env) (Some UNIFROG_CLOCK_STATE_PATH)
        (Some (UNIFROG_CLOCK_STATE_PATH @ ''.tmp'')) (Some (clock_text (at (ck_reads ck + 2))))
        (length (clock_text (at (ck_reads ck + 2)))) (Some ''clock'') 4 100 (ck_fs ck)"
proof -
  define ck1 where "ck1 = ck\<lparr>ck_epoch := c_mktime v, ck_ms := ce_ms env (ck_reads ck), ck_initialized := True,
      ck_reads := Suc (Suc (ck_reads ck))\<rparr>"
  let ?r = "ce_settime env (at (ck_reads ck + 1) + ck_offset ck * 60)"
  have run: "(ret, ck') = (if ?r \<noteq> 0 then (-1, ck1) else unifrog_clock_persist env ck1)"
    using assms(1,2) assms(3) [symmetric]
    by (simp add: unifrog_clock_set_local_def unifrog_perf_time_ms_def clock_sync_system_def clock_value_def ck1_def at_def Let_def)
  have "0 \<le> at (ck_reads ck + 2)" "at (ck_reads ck + 2) < 10 ^ 10"
    using assms(1,2) elapsed_less [of "ce_ms env (ck_reads ck + 2) - ce_ms env (ck_reads ck)"]
    by (simp_all add: at_def CLOCK_MIN_EPOCH_def CLOCK_MAX_EPOCH_def)
  note p = persist_runs [of ck1 "at (ck_reads ck + 2)" env, OF _ _ this]
  show "ck_initialized ck'" "ck_epoch ck' = c_mktime v" "ck_ms ck' = ce_ms env (ck_reads ck)"
    using run p by (auto simp: ck1_def at_def Let_def split: if_splits)
  show "ret = -1 \<and> ck_fs ck' = ck_fs ck" if "?r \<noteq> 0" using run that by (simp add: ck1_def)
  show "(ret, ck_fs ck') = unifrog_storage_write_atomic (ce_recovery env) (Some UNIFROG_CLOCK_STATE_PATH)
        (Some (UNIFROG_CLOCK_STATE_PATH @ ''.tmp'')) (Some (clock_text (at (ck_reads ck + 2))))
        (length (clock_text (at (ck_reads ck + 2)))) (Some ''clock'') 4 100 (ck_fs ck)" if "?r = 0"
    using run p that by (auto simp: ck1_def at_def Let_def)
qed

text \<open>
  C34.  Moving the day, hour or minute by any amount, also across the ends of months and years, moves the
  clock by exactly that many seconds when the result is a time the clock can hold: every later reading shows
  the moved time plus the whole seconds that passed on the millisecond counter since.  The system time is
  then set; if that fails the result is -1 and the card is not written, and otherwise the result is the one
  of writing the new time to the card.  A time the clock cannot hold is refused with -1 without changing the
  clock or the card.
\<close>

theorem clock_adjust_exact:
  assumes "ck_initialized ck" "unifrog_clock_now env ck = (now, ck1)" "0 \<le> now" "clock_unit field \<noteq> 0"
    "target = now + n * clock_unit field" "unifrog_clock_adjust env field n ck = (ret, ck')"
    "at = (\<lambda>k. target + int (unat (ce_ms env k - ce_ms env (ck_reads ck + 1)) div 1000))"
  shows "if CLOCK_MIN_EPOCH \<le> target \<and> target \<le> CLOCK_MAX_EPOCH
    then (\<forall>k. fst (unifrog_clock_now env (ck'\<lparr>ck_reads := k\<rparr>)) = at k) \<and>
      (if ce_settime env (at (ck_reads ck + 2) + ck_offset ck * 60) \<noteq> 0
       then ret = -1 \<and> ck_fs ck' = ck_fs ck
       else (ret, ck_fs ck') = unifrog_storage_write_atomic (ce_recovery env) (Some UNIFROG_CLOCK_STATE_PATH)
         (Some (UNIFROG_CLOCK_STATE_PATH @ ''.tmp'')) (Some (clock_text (at (ck_reads ck + 3))))
         (length (clock_text (at (ck_reads ck + 3)))) (Some ''clock'') 4 100 (ck_fs ck))
    else ret = -1 \<and> ck' = ck\<lparr>ck_reads := ck_reads ck + 1\<rparr>"
proof -
  let ?v = "clock_shift field n (c_localtime now)"
  have t: "c_mktime ?v = target" using assms(3,4) by (simp add: mktime_shift mktime_localtime assms(5))
  have ck1: "ck1 = ck\<lparr>ck_reads := ck_reads ck + 1\<rparr>"
    using assms(1,2) by (auto simp: unifrog_clock_now_def clock_value_def unifrog_perf_time_ms_def Let_def)
  have a: "unifrog_clock_set_local env ?v ck1 = (ret, ck')"
    using assms(6) by (simp add: unifrog_clock_adjust_def unifrog_clock_get_local_def assms(2))
  show ?thesis
  proof (cases "CLOCK_MIN_EPOCH \<le> target \<and> target \<le> CLOCK_MAX_EPOCH")
    case True
    then have b: "CLOCK_MIN_EPOCH \<le> c_mktime ?v" "c_mktime ?v \<le> CLOCK_MAX_EPOCH" by (simp_all add: t)
    have e: "ck_reads ck1 = ck_reads ck + 1" "ck_reads ck + 1 + 1 = ck_reads ck + 2" "ck_reads ck + 1 + 2 = ck_reads ck + 3"
      "ck_fs ck1 = ck_fs ck" "ck_offset ck1 = ck_offset ck" by (simp_all add: ck1)
    note q = set_local_runs [OF b a, unfolded t e]
    have "fst (unifrog_clock_now env (ck'\<lparr>ck_reads := k\<rparr>)) = at k" for k
      using q(1-3) by (simp add: unifrog_clock_now_def clock_value_def unifrog_perf_time_ms_def assms(7))
    moreover have "if ce_settime env (at (ck_reads ck + 2) + ck_offset ck * 60) \<noteq> 0
       then ret = -1 \<and> ck_fs ck' = ck_fs ck
       else (ret, ck_fs ck') = unifrog_storage_write_atomic (ce_recovery env) (Some UNIFROG_CLOCK_STATE_PATH)
         (Some (UNIFROG_CLOCK_STATE_PATH @ ''.tmp'')) (Some (clock_text (at (ck_reads ck + 3))))
         (length (clock_text (at (ck_reads ck + 3)))) (Some ''clock'') 4 100 (ck_fs ck)"
      unfolding assms(7) using q(4,5) by (split if_split) satx
    ultimately show ?thesis unfolding if_P [OF True] by blast
  next
    case False
    then have "unifrog_clock_set_local env ?v ck1 = (-1, ck1)" using t by (auto simp: unifrog_clock_set_local_def Let_def)
    with False a ck1 show ?thesis by (simp only: if_False simp_thms prod.inject)
  qed
qed

theorem clock_adjust_exact_witness:
  "fst (unifrog_clock_now clock_env_example
     (snd (unifrog_clock_adjust clock_env_example UNIFROG_CLOCK_DAY 30 clock_example))) = 1702592005 \<and>
   unifrog_clock_adjust clock_env_example UNIFROG_CLOCK_DAY (-3000) clock_example =
     (-1, clock_example\<lparr>ck_reads := 1\<rparr>)"
proof -
  have now: "unifrog_clock_now clock_env_example clock_example = (1700000005, clock_example\<lparr>ck_reads := 1\<rparr>)"
    by (simp add: unifrog_clock_now_def clock_value_def unifrog_perf_time_ms_def clock_example_def clock_env_example_def)
  have i: "ck_initialized clock_example" "ck_reads clock_example = 0" by (simp_all add: clock_example_def)
  obtain ret ck' where r: "unifrog_clock_adjust clock_env_example UNIFROG_CLOCK_DAY 30 clock_example = (ret, ck')" by fastforce
  have "\<forall>k. fst (unifrog_clock_now clock_env_example (ck'\<lparr>ck_reads := k\<rparr>)) = 1702592005"
    using clock_adjust_exact [OF i(1) now _ _ refl r refl]
    by (simp add: CLOCK_MIN_EPOCH_def CLOCK_MAX_EPOCH_def clock_env_example_def)
  from spec [OF this, of "ck_reads ck'"] have "fst (unifrog_clock_now clock_env_example ck') = 1702592005" by simp
  moreover obtain ret2 ck2 where r2: "unifrog_clock_adjust clock_env_example UNIFROG_CLOCK_DAY (-3000) clock_example = (ret2, ck2)"
    by fastforce
  ultimately show ?thesis
    using clock_adjust_exact [OF i(1) now _ _ refl r2 refl] i r
    by (simp add: CLOCK_MIN_EPOCH_def CLOCK_MAX_EPOCH_def)
qed

end
