(* ===== verification/UF_Run.thy ===== *)
theory UF_Run
  imports UF_Prelude
begin

text \<open>
  Computations on buffers in which undefined behaviour is visible.  A computation returns a value,
  reports an error (the code's own error return), or traps: an access outside a buffer, a read of
  memory that was never written, or an overflow of a signed addition.  A theorem \<open>runs m Q\<close> says that
  the computation does not trap and that a returned value satisfies \<open>Q\<close>; the rules for it follow the
  structure of the code.
\<close>

section \<open>Computations\<close>

datatype 'a run = Ret 'a | Err | Trap

fun run_bind :: "'a run \<Rightarrow> ('a \<Rightarrow> 'b run) \<Rightarrow> 'b run" where
  "run_bind (Ret x) f = f x"
| "run_bind Err f = Err"
| "run_bind Trap f = Trap"

text \<open>An error return guarded by a condition, and a condition without which the behaviour is undefined.\<close>

definition require :: "bool \<Rightarrow> 'a run \<Rightarrow> 'a run" where
  "require b m = (if b then m else Err)"

definition defined :: "bool \<Rightarrow> 'a run \<Rightarrow> 'a run" where
  "defined b m = (if b then m else Trap)"

definition rd :: "'a list \<Rightarrow> nat \<Rightarrow> 'a run" where
  "rd xs i = defined (i < length xs) (Ret (xs ! i))"

definition rd_range :: "'a list \<Rightarrow> nat \<Rightarrow> nat \<Rightarrow> 'a list run" where
  "rd_range xs i n = defined (i + n \<le> length xs) (Ret (take n (drop i xs)))"

definition wr :: "'a list \<Rightarrow> nat \<Rightarrow> 'a \<Rightarrow> 'a list run" where
  "wr xs i v = defined (i < length xs) (Ret (xs[i := v]))"

text \<open>A counting loop: the body is run for every element of the list of counters.\<close>

fun run_for :: "'i list \<Rightarrow> ('i \<Rightarrow> 's \<Rightarrow> 's run) \<Rightarrow> 's \<Rightarrow> 's run" where
  "run_for [] f s = Ret s"
| "run_for (i # is) f s = run_bind (f i s) (run_for is f)"

section \<open>Rules\<close>

definition runs :: "'a run \<Rightarrow> ('a \<Rightarrow> bool) \<Rightarrow> bool" where
  "runs m Q = (case m of Ret x \<Rightarrow> Q x | Err \<Rightarrow> True | Trap \<Rightarrow> False)"

lemma runs_simps [simp]: "runs (Ret x) Q = Q x" "runs Err Q" "\<not> runs Trap Q"
  by (simp_all add: runs_def)

lemma runs_not_trap: "runs m Q \<Longrightarrow> m \<noteq> Trap"
  by auto

lemma runs_Ret: "runs m Q \<Longrightarrow> m = Ret x \<Longrightarrow> Q x"
  by simp

lemma runs_weaken: "runs m P \<Longrightarrow> (\<And>x. P x \<Longrightarrow> Q x) \<Longrightarrow> runs m Q"
  by (cases m) auto

lemma runs_bind [simp]: "runs (run_bind m f) Q = runs m (\<lambda>x. runs (f x) Q)"
  by (cases m) auto

lemma runs_bindI: "runs m P \<Longrightarrow> (\<And>x. P x \<Longrightarrow> runs (f x) Q) \<Longrightarrow> runs (run_bind m f) Q"
  by (cases m) auto

lemma runs_require [simp]: "runs (require b m) Q = (b \<longrightarrow> runs m Q)"
  by (simp add: require_def)

lemma runs_defined [simp]: "runs (defined b m) Q = (b \<and> runs m Q)"
  by (simp add: defined_def)

lemma runs_access [simp]:
  "runs (rd xs i) Q = (i < length xs \<and> Q (xs ! i))"
  "runs (rd_range xs i n) R = (i + n \<le> length xs \<and> R (take n (drop i xs)))"
  "runs (wr xs i v) R = (i < length xs \<and> R (xs[i := v]))"
  by (simp_all add: rd_def rd_range_def wr_def)

lemma bind_access [simp]:
  "i < length xs \<Longrightarrow> rd xs i = Ret (xs ! i)"
  "i + n \<le> length xs \<Longrightarrow> rd_range xs i n = Ret (take n (drop i xs))"
  "i < length xs \<Longrightarrow> wr xs i v = Ret (xs[i := v])"
  by (simp_all add: rd_def rd_range_def wr_def defined_def)

lemma run_bind_assoc: "run_bind (run_bind m f) g = run_bind m (\<lambda>x. run_bind (f x) g)"
  by (cases m) simp_all

lemma run_for_append: "run_for (is @ js) f s = run_bind (run_for is f s) (run_for js f)"
proof (induction "is" arbitrary: s)
  case (Cons i "is")
  then have "run_for (is @ js) f = (\<lambda>x. run_bind (run_for is f x) (run_for js f))" by blast
  then show ?case by (simp add: run_bind_assoc)
qed simp

text \<open>The loop rule, with an invariant that depends on the counters already done.\<close>

lemma runs_for:
  assumes "I [] s"
    and "\<And>is i js t. ks = is @ i # js \<Longrightarrow> I is t \<Longrightarrow> runs (f i t) (I (is @ [i]))"
  shows "runs (run_for ks f s) (I ks)"
proof -
  have "runs (run_for js f t) (I ks)" if "ks = is @ js" "I is t" for "is" js t
    using that
  proof (induction js arbitrary: "is" t)
    case Nil
    then show ?case by simp
  next
    case (Cons j js)
    have "runs (f j t) (I (is @ [j]))" using Cons.prems assms(2) by simp
    then show ?case using Cons.IH [of "is @ [j]"] Cons.prems(1)
      by (auto intro: runs_weaken)
  qed
  from this [of "[]" ks s] assms(1) show ?thesis by simp
qed

text \<open>The common case: the counters run from 0, and the invariant depends on their number.\<close>

lemma runs_for_upt:
  assumes "I 0 s" and "\<And>i t. i < n \<Longrightarrow> I i t \<Longrightarrow> runs (f i t) (I (Suc i))"
  shows "runs (run_for [0..<n] f s) (I n)"
proof -
  have "runs (run_for [0..<n] f s) (\<lambda>t. I (length [0..<n]) t)"
  proof (rule runs_for [where I = "\<lambda>is t. I (length is) t"])
    fix "is" i js t assume *: "[0..<n] = is @ i # js" and "I (length is) t"
    have "length is < n" using arg_cong [OF *, of length] by simp
    moreover have "i = [0..<n] ! length is" unfolding * by simp
    ultimately have "i = length is" by simp
    with \<open>length is < n\<close> \<open>I (length is) t\<close> assms(2) show "runs (f i t) (I (length (is @ [i])))" by simp
  qed (use assms(1) in simp)
  then show ?thesis by simp
qed

text \<open>A loop of total bodies is total.\<close>

lemma run_for_total:
  assumes "\<And>i t. i \<in> set is \<Longrightarrow> P t \<Longrightarrow> f i t = Ret (g i t) \<and> P (g i t)" "P s"
  shows "run_for is f s = Ret (fold g is s) \<and> P (fold g is s)"
  using assms
proof (induction "is" arbitrary: s)
  case (Cons i "is")
  from Cons.prems have "f i s = Ret (g i s)" "P (g i s)" by simp_all
  with Cons.IH [of "g i s"] Cons.prems(1) show ?case by simp
qed simp

end
