(* ===== verification/UF_Png.thy ===== *)
theory UF_Png
  imports UF_Run UF_Bin
begin

text \<open>
  The PNG decoder (\<open>foundation/src/display/unifrog_png.c\<close>): reading the file, the chunks, undoing the
  filters, the passes of interlaced images, and the conversion to 16 bit colour and alpha.

  Buffers are lists with checked accesses, and memory that \<open>malloc\<close> or the stack provides holds
  \<open>None\<close> until it is written, so that reading too far or too early is a trap.  \<open>uncompress\<close> of
  zlib is a parameter that gives the bytes it wrote, or \<open>None\<close> if it fails; \<open>alloc n\<close> says whether the
  \<open>n\<close>-th allocation succeeds (0 is the file, 1 to 3 the buffers of the image, 4 to 10 the passes, from 11
  on the \<open>IDAT\<close> buffer).  Sizes are natural numbers: the checks of the code keep them below
  $2^{32}$ (a file has at most 4 MB and an image at most 640 by 480 pixels).
\<close>

section \<open>Reading and collecting\<close>

definition PNG_MAX_FILE_BYTES :: nat where "PNG_MAX_FILE_BYTES = 4 * 1024 * 1024"
definition PNG_MAX_PIXELS :: nat where "PNG_MAX_PIXELS = 640 * 480"

definition be32 :: "bytes \<Rightarrow> nat \<Rightarrow> u32 run" where
  "be32 p i =
     run_bind (rd p i) (\<lambda>a. run_bind (rd p (i + 1)) (\<lambda>b. run_bind (rd p (i + 2)) (\<lambda>c. run_bind (rd p (i + 3)) (\<lambda>d.
       Ret (push_bit 24 (ucast a) OR push_bit 16 (ucast b) OR push_bit 8 (ucast c) OR ucast d)))))"

definition read_file :: "(nat \<Rightarrow> bool) \<Rightarrow> cfile option \<Rightarrow> bytes run" where
  "read_file alloc file = (case file of None \<Rightarrow> Err | Some f \<Rightarrow>
     (case f_seek_end f of (None, _) \<Rightarrow> Err | (Some _, f) \<Rightarrow>
     (case f_tell f of (None, _) \<Rightarrow> Err | (Some sz, f) \<Rightarrow>
       require (0 < sz \<and> sz \<le> PNG_MAX_FILE_BYTES)
       (case f_seek_set 0 f of (None, _) \<Rightarrow> Err | (Some _, f) \<Rightarrow>
         require (alloc 0)
         (case f_read sz f of (data, f) \<Rightarrow> require (length data = sz) (Ret data))))))"

text \<open>
  The allocation is asked for only when there is something to append; the copy behind the old data must
  fit in the size that \<open>realloc\<close> is asked for.
\<close>

definition append_idat :: "bool \<Rightarrow> bytes \<Rightarrow> bytes \<Rightarrow> nat \<Rightarrow> nat \<Rightarrow> bytes run" where
  "append_idat ok data chunk i chunk_size =
     (if chunk_size = 0 then Ret data
      else let next_size = length data + chunk_size
           in require ok (run_bind (rd_range chunk i chunk_size) (\<lambda>bs.
                defined (length data + length bs \<le> next_size) (Ret (data @ bs)))))"

section \<open>Filters\<close>

definition paeth :: "u8 \<Rightarrow> u8 \<Rightarrow> u8 \<Rightarrow> u8" where
  "paeth a b c =
     (let p = uint a + uint b - uint c; pa = \<bar>p - uint a\<bar>; pb = \<bar>p - uint b\<bar>; pc = \<bar>p - uint c\<bar>
      in if pa \<le> pb \<and> pa \<le> pc then a else if pb \<le> pc then b else c)"

definition unfilter_byte :: "nat \<Rightarrow> u8 \<Rightarrow> u8 \<Rightarrow> u8 \<Rightarrow> u8 \<Rightarrow> u8 run" where
  "unfilter_byte filt v left up up_left =
     (if filt = 1 then Ret (v + left)
      else if filt = 2 then Ret (v + up)
      else if filt = 3 then Ret (v + word_of_nat ((unat left + unat up) div 2))
      else if filt = 4 then Ret (v + paeth left up up_left)
      else if filt \<noteq> 0 then Err else Ret v)"

text \<open>The body of the loop over the bytes of a row, which is changed in place.\<close>

definition unfilter_step :: "nat \<Rightarrow> nat \<Rightarrow> bytes option \<Rightarrow> nat \<Rightarrow> bytes \<Rightarrow> bytes run" where
  "unfilter_step filt filter_bpp prev x row =
     run_bind (if x \<ge> filter_bpp then rd row (x - filter_bpp) else Ret 0) (\<lambda>left.
     run_bind (case prev of None \<Rightarrow> Ret 0 | Some p \<Rightarrow> rd p x) (\<lambda>up.
     run_bind (case prev of None \<Rightarrow> Ret 0 | Some p \<Rightarrow> if x \<ge> filter_bpp then rd p (x - filter_bpp) else Ret 0) (\<lambda>up_left.
     run_bind (rd row x) (\<lambda>v.
     run_bind (unfilter_byte filt v left up up_left) (wr row x)))))"

definition unfilter_row :: "nat \<Rightarrow> nat \<Rightarrow> bytes option \<Rightarrow> bytes \<Rightarrow> bytes run" where
  "unfilter_row filt filter_bpp prev row = run_for [0..<length row] (unfilter_step filt filter_bpp prev) row"

text \<open>
  The body of the loop over the rows; the destination is the list of the rows done so far, and row \<open>y\<close>
  must end inside the \<open>dst_size\<close> bytes that were allocated for it.
\<close>

definition unfilter_line :: "nat \<Rightarrow> bytes \<Rightarrow> nat \<Rightarrow> nat \<Rightarrow> nat \<Rightarrow> nat \<Rightarrow> bytes list \<Rightarrow> bytes list run" where
  "unfilter_line dst_size src pos row_bytes filter_bpp y rows =
     run_bind (rd src (pos + y * (row_bytes + 1))) (\<lambda>filt.
     run_bind (rd_range src (pos + y * (row_bytes + 1) + 1) row_bytes) (\<lambda>row.
     run_bind (if y = 0 then Ret None else run_bind (rd rows (y - 1)) (\<lambda>p. Ret (Some p))) (\<lambda>prev.
     defined (y * row_bytes + row_bytes \<le> dst_size)
       (run_bind (unfilter_row (unat filt) filter_bpp prev row) (\<lambda>row. Ret (rows @ [row]))))))"

definition unfilter_png :: "nat \<Rightarrow> bytes \<Rightarrow> nat \<Rightarrow> nat \<Rightarrow> nat \<Rightarrow> nat \<Rightarrow> bytes list run" where
  "unfilter_png dst_size src pos row_bytes height filter_bpp =
     run_for [0..<height] (unfilter_line dst_size src pos row_bytes filter_bpp) []"

section \<open>Samples\<close>

definition png_channels :: "nat \<Rightarrow> nat" where
  "png_channels color_type =
     (if color_type = 0 \<or> color_type = 3 then 1 else if color_type = 2 then 3
      else if color_type = 4 then 2 else if color_type = 6 then 4 else 0)"

definition png_filter_bpp :: "nat \<Rightarrow> nat \<Rightarrow> nat" where
  "png_filter_bpp color_type bit_depth =
     (let bits = png_channels color_type * bit_depth in if bits \<le> 8 then 1 else (bits + 7) div 8)"

definition png_row_bytes :: "nat \<Rightarrow> nat \<Rightarrow> nat \<Rightarrow> nat" where
  "png_row_bytes width color_type bit_depth = (width * png_channels color_type * bit_depth + 7) div 8"

definition packed_sample :: "bytes \<Rightarrow> nat \<Rightarrow> nat \<Rightarrow> nat run" where
  "packed_sample row x bit_depth =
     (if bit_depth = 8 then run_bind (rd row x) (\<lambda>v. Ret (unat v))
      else let bit = x * bit_depth
           in defined (bit_depth + bit mod 8 \<le> 8)
              (run_bind (rd row (bit div 8)) (\<lambda>v. Ret (unat v div 2 ^ (8 - bit_depth - bit mod 8) mod 2 ^ bit_depth))))"

definition scale_sample :: "nat \<Rightarrow> nat \<Rightarrow> u8" where
  "scale_sample sample bit_depth =
     (if bit_depth = 8 then word_of_nat sample
      else word_of_nat ((sample * 255 + (2 ^ bit_depth - 1) div 2) div (2 ^ bit_depth - 1)))"

definition UNIFROG_RGB565 :: "u8 \<Rightarrow> u8 \<Rightarrow> u8 \<Rightarrow> u16" where
  "UNIFROG_RGB565 r g b = push_bit 11 (drop_bit 3 (ucast r)) OR push_bit 5 (drop_bit 2 (ucast g)) OR drop_bit 3 (ucast b)"

text \<open>Memory that may not have been written yet, and \<open>memcpy\<close> to its start.\<close>

definition rd_known :: "'a option list \<Rightarrow> nat \<Rightarrow> 'a run" where
  "rd_known xs i = run_bind (rd xs i) (\<lambda>v. case v of None \<Rightarrow> Trap | Some x \<Rightarrow> Ret x)"

definition copy_to :: "'a option list \<Rightarrow> 'a list \<Rightarrow> 'a option list run" where
  "copy_to xs ys = defined (length ys \<le> length xs) (Ret (map Some ys @ drop (length ys) xs))"

record png_image =
  im_width :: nat
  im_height :: nat
  im_pixels :: "u16 option list"
  im_alpha :: "u8 option list"

definition png_empty :: png_image where
  "png_empty = \<lparr>im_width = 0, im_height = 0, im_pixels = [], im_alpha = []\<rparr>"

text \<open>What the chunks have given so far; the arrays are the ones on the stack.\<close>

record png_chunks =
  pc_width :: nat
  pc_height :: nat
  pc_depth :: nat
  pc_color :: nat
  pc_interlace :: nat
  pc_palette :: "u8 option list"
  pc_palette_entries :: nat
  pc_trns :: "u8 option list"
  pc_trns_entries :: nat
  pc_idat :: bytes
  pc_appends :: nat

definition png_start :: png_chunks where
  "png_start = \<lparr>pc_width = 0, pc_height = 0, pc_depth = 0, pc_color = 0, pc_interlace = 0,
     pc_palette = replicate 768 None, pc_palette_entries = 0, pc_trns = replicate 256 None, pc_trns_entries = 0,
     pc_idat = [], pc_appends = 0\<rparr>"

text \<open>The colour and alpha of sample \<open>x\<close> of a row.\<close>

definition png_color :: "png_chunks \<Rightarrow> bytes \<Rightarrow> nat \<Rightarrow> (u8 \<times> u8 \<times> u8 \<times> u8) run" where
  "png_color pc row x =
     (if pc_color pc = 0 then
        run_bind (packed_sample row x (pc_depth pc)) (\<lambda>sample.
          let v = scale_sample sample (pc_depth pc)
          in if pc_trns_entries pc \<ge> 2
             then run_bind (rd_known (pc_trns pc) 0) (\<lambda>hi. run_bind (rd_known (pc_trns pc) 1) (\<lambda>lo.
                    Ret (v, v, v, if sample = unat hi * 256 + unat lo then 0 else 255)))
             else Ret (v, v, v, 255))
      else if pc_color pc = 2 then
        run_bind (rd row (x * 3)) (\<lambda>r. run_bind (rd row (x * 3 + 1)) (\<lambda>g. run_bind (rd row (x * 3 + 2)) (\<lambda>b.
          if pc_trns_entries pc \<ge> 6
          then run_bind (rd_known (pc_trns pc) 1) (\<lambda>tr. run_bind (rd_known (pc_trns pc) 3) (\<lambda>tg.
                 run_bind (rd_known (pc_trns pc) 5) (\<lambda>tb.
                   Ret (r, g, b, if r = tr \<and> g = tg \<and> b = tb then 0 else 255))))
          else Ret (r, g, b, 255))))
      else if pc_color pc = 3 then
        run_bind (packed_sample row x (pc_depth pc)) (\<lambda>idx.
          if idx < pc_palette_entries pc
          then run_bind (rd_known (pc_palette pc) (idx * 3)) (\<lambda>r. run_bind (rd_known (pc_palette pc) (idx * 3 + 1)) (\<lambda>g.
                 run_bind (rd_known (pc_palette pc) (idx * 3 + 2)) (\<lambda>b.
                   if idx < pc_trns_entries pc
                   then run_bind (rd_known (pc_trns pc) idx) (\<lambda>a. Ret (r, g, b, a)) else Ret (r, g, b, 255))))
          else Ret (0, 0, 0, 255))
      else if pc_color pc = 4 then
        run_bind (rd row (x * 2)) (\<lambda>v. run_bind (rd row (x * 2 + 1)) (\<lambda>a. Ret (v, v, v, a)))
      else if pc_color pc = 6 then
        run_bind (rd row (x * 4)) (\<lambda>r. run_bind (rd row (x * 4 + 1)) (\<lambda>g. run_bind (rd row (x * 4 + 2)) (\<lambda>b.
          run_bind (rd row (x * 4 + 3)) (\<lambda>a. Ret (r, g, b, a)))))
      else Ret (0, 0, 0, 255))"

definition png_store_pixel :: "png_chunks \<Rightarrow> nat \<Rightarrow> bytes \<Rightarrow> nat \<Rightarrow> png_image \<Rightarrow> png_image run" where
  "png_store_pixel pc dst row x im =
     run_bind (png_color pc row x) (\<lambda>(r, g, b, a).
     run_bind (wr (im_pixels im) dst (Some (UNIFROG_RGB565 r g b))) (\<lambda>px.
     run_bind (wr (im_alpha im) dst (Some a)) (\<lambda>al. Ret (im\<lparr>im_pixels := px, im_alpha := al\<rparr>))))"

section \<open>Passes\<close>

type_synonym png_pass = "nat \<times> nat \<times> nat \<times> nat"

definition adam7 :: "png_pass list" where
  "adam7 = [(0, 0, 8, 8), (4, 0, 8, 8), (0, 4, 4, 8), (2, 0, 4, 4), (0, 2, 2, 4), (1, 0, 2, 2), (0, 1, 1, 2)]"

definition pass_count :: "nat \<Rightarrow> nat \<Rightarrow> nat \<Rightarrow> nat" where
  "pass_count n start step = (n - start + step - 1) div step"

text \<open>One row of a pass: its samples go to the pixels of the pass.\<close>

definition store_line :: "png_chunks \<Rightarrow> nat \<Rightarrow> png_pass \<Rightarrow> bytes list \<Rightarrow> nat \<Rightarrow> png_image \<Rightarrow> png_image run" where
  "store_line pc n = (\<lambda>(x0, y0, xs, ys) rows py im. run_bind (rd rows py) (\<lambda>row.
     run_for [0..<n] (\<lambda>px im. png_store_pixel pc ((y0 + py * ys) * pc_width pc + (x0 + px * xs)) row px im) im))"

definition png_decode_pass :: "(nat \<Rightarrow> bool) \<Rightarrow> png_chunks \<Rightarrow> bytes \<Rightarrow> nat \<times> png_pass \<Rightarrow> png_image \<times> nat \<Rightarrow> (png_image \<times> nat) run"
where
  "png_decode_pass alloc pc src = (\<lambda>(i, x_start, y_start, x_step, y_step) (im, src_pos).
     let width = pc_width pc; height = pc_height pc
     in if x_start \<ge> width \<or> y_start \<ge> height then Ret (im, src_pos)
        else let pass_w = pass_count width x_start x_step; pass_h = pass_count height y_start y_step
        in if pass_w = 0 \<or> pass_h = 0 then Ret (im, src_pos)
        else let row_bytes = png_row_bytes pass_w (pc_color pc) (pc_depth pc)
        in require (row_bytes \<noteq> 0 \<and> alloc (4 + i))
           (run_bind (unfilter_png (row_bytes * pass_h) src src_pos row_bytes pass_h (png_filter_bpp (pc_color pc) (pc_depth pc))) (\<lambda>rows.
            run_bind (run_for [0..<pass_h] (store_line pc pass_w (x_start, y_start, x_step, y_step) rows) im) (\<lambda>im.
            Ret (im, src_pos + (row_bytes + 1) * pass_h)))))"

definition png_passes :: "nat \<Rightarrow> png_pass list" where
  "png_passes interlace = (if interlace = 0 then [(0, 0, 1, 1)] else adam7)"

definition pass_bytes :: "png_chunks \<Rightarrow> png_pass \<Rightarrow> nat" where
  "pass_bytes pc = (\<lambda>(x0, y0, xs, ys).
     if x0 \<ge> pc_width pc \<or> y0 \<ge> pc_height pc then 0
     else (png_row_bytes (pass_count (pc_width pc) x0 xs) (pc_color pc) (pc_depth pc) + 1) * pass_count (pc_height pc) y0 ys)"

definition png_inflated_size :: "png_chunks \<Rightarrow> nat" where
  "png_inflated_size pc =
     (if pc_interlace pc = 0 then (png_row_bytes (pc_width pc) (pc_color pc) (pc_depth pc) + 1) * pc_height pc
      else sum_list (map (pass_bytes pc) adam7))"

section \<open>The file\<close>

definition tag :: "string \<Rightarrow> bytes" where
  "tag s = map of_char s"

definition png_header :: "bytes \<Rightarrow> nat \<Rightarrow> png_chunks \<Rightarrow> png_chunks run" where
  "png_header data chunk pc =
     run_bind (be32 data chunk) (\<lambda>w. run_bind (be32 data (chunk + 4)) (\<lambda>h.
     run_bind (rd data (chunk + 8)) (\<lambda>depth. run_bind (rd data (chunk + 9)) (\<lambda>color.
     run_bind (rd data (chunk + 10)) (\<lambda>method. run_bind (rd data (chunk + 11)) (\<lambda>filt.
     run_bind (rd data (chunk + 12)) (\<lambda>interlace.
     let width = unat w; height = unat h; bit_depth = unat depth; color_type = unat color
     in require (\<not> (width = 0 \<or> height = 0 \<or> width * height > PNG_MAX_PIXELS \<or> method \<noteq> 0 \<or> filt \<noteq> 0 \<or> unat interlace > 1))
       (require (png_channels color_type \<noteq> 0)
       (require (\<not> ((color_type = 0 \<or> color_type = 3) \<and> bit_depth \<noteq> 1 \<and> bit_depth \<noteq> 2 \<and> bit_depth \<noteq> 4 \<and> bit_depth \<noteq> 8))
       (require (\<not> ((color_type = 2 \<or> color_type = 4 \<or> color_type = 6) \<and> bit_depth \<noteq> 8))
         (Ret (pc\<lparr>pc_width := width, pc_height := height, pc_depth := bit_depth, pc_color := color_type,
                  pc_interlace := unat interlace\<rparr>))))))))))))"

text \<open>One chunk: whether it ends the file, the length by which the position moves on, and what it adds.\<close>

definition png_chunk :: "(nat \<Rightarrow> bool) \<Rightarrow> bytes \<Rightarrow> bytes \<Rightarrow> nat \<Rightarrow> nat \<Rightarrow> png_chunks \<Rightarrow> (bool \<times> nat \<times> png_chunks) run" where
  "png_chunk alloc data kind chunk len pc =
     (if kind = tag ''IHDR'' then
        require (len = 13) (run_bind (png_header data chunk pc) (\<lambda>pc. Ret (False, len, pc)))
      else if kind = tag ''IDAT'' then
        run_bind (append_idat (alloc (11 + pc_appends pc)) (pc_idat pc) data chunk len)
          (\<lambda>d. Ret (False, len, pc\<lparr>pc_idat := d, pc_appends := pc_appends pc + 1\<rparr>))
      else if kind = tag ''PLTE'' then
        require (\<not> (len = 0 \<or> len > 768 \<or> len mod 3 \<noteq> 0))
          (run_bind (rd_range data chunk len) (\<lambda>bs. run_bind (copy_to (pc_palette pc) bs) (\<lambda>p.
            Ret (False, len, pc\<lparr>pc_palette := p, pc_palette_entries := len div 3\<rparr>))))
      else if kind = tag ''tRNS'' then
        let len = min len 256
        in run_bind (rd_range data chunk len) (\<lambda>bs. run_bind (copy_to (pc_trns pc) bs) (\<lambda>t.
             Ret (False, len, pc\<lparr>pc_trns := t, pc_trns_entries := len\<rparr>)))
      else Ret (kind = tag ''IEND'', len, pc))"

lemma run_bind_cong [fundef_cong]:
  "m = m' \<Longrightarrow> (\<And>x. m' = Ret x \<Longrightarrow> f x = f' x) \<Longrightarrow> run_bind m f = run_bind m' f'"
  by (cases m') simp_all

lemma require_cong [fundef_cong]: "b = b' \<Longrightarrow> (b' \<Longrightarrow> m = m') \<Longrightarrow> require b m = require b' m'"
  by (simp add: require_def)

function png_chunk_loop :: "(nat \<Rightarrow> bool) \<Rightarrow> bytes \<Rightarrow> nat \<Rightarrow> png_chunks \<Rightarrow> png_chunks run" where
  "png_chunk_loop alloc data pos pc =
     (if pos + 12 \<le> length data then
        run_bind (be32 data pos) (\<lambda>len.
        run_bind (rd_range data (pos + 4) 4) (\<lambda>kind.
        require (unat len \<le> length data - (pos + 8) \<and> unat len \<le> PNG_MAX_FILE_BYTES)
          (run_bind (png_chunk alloc data kind (pos + 8) (unat len) pc) (\<lambda>(stop, n, pc).
            if stop then Ret pc else png_chunk_loop alloc data (pos + 8 + (n + 4)) pc))))
      else Ret pc)"
  by pat_completeness auto
termination
  by (relation "measure (\<lambda>(alloc, data, pos, pc). length data - pos)") auto

declare png_chunk_loop.simps [simp del]

definition png_signature :: bytes where
  "png_signature = [0x89, 0x50, 0x4E, 0x47, 0x0D, 0x0A, 0x1A, 0x0A]"

definition png_decode_image :: "(bytes \<Rightarrow> nat \<Rightarrow> bytes option) \<Rightarrow> (nat \<Rightarrow> bool) \<Rightarrow> png_chunks \<Rightarrow> png_image run" where
  "png_decode_image uncompress alloc pc =
     require (\<not> (pc_width pc = 0 \<or> pc_height pc = 0 \<or> png_channels (pc_color pc) = 0 \<or> pc_idat pc = [] \<or>
       (pc_color pc = 3 \<and> pc_palette_entries pc = 0)))
     (let expected = png_inflated_size pc; n = pc_width pc * pc_height pc
      in require (alloc 1 \<and> alloc 2 \<and> alloc 3)
        (case uncompress (pc_idat pc) expected of None \<Rightarrow> Err | Some inflated \<Rightarrow>
          require (length inflated = expected)
          (run_bind (run_for (zip [0..<length (png_passes (pc_interlace pc))] (png_passes (pc_interlace pc)))
              (png_decode_pass alloc pc inflated)
              (\<lparr>im_width = 0, im_height = 0, im_pixels = replicate n None, im_alpha = replicate n None\<rparr>, 0)) (\<lambda>(im, src_pos).
           require (src_pos = expected) (Ret (im\<lparr>im_width := pc_width pc, im_height := pc_height pc\<rparr>))))))"

definition png_load :: "(bytes \<Rightarrow> nat \<Rightarrow> bytes option) \<Rightarrow> (nat \<Rightarrow> bool) \<Rightarrow> cfile option \<Rightarrow> png_image run" where
  "png_load uncompress alloc file =
     run_bind (read_file alloc file) (\<lambda>data.
     require (\<not> length data < 33)
     (run_bind (rd_range data 0 8) (\<lambda>sig. require (sig = png_signature)
     (run_bind (png_chunk_loop alloc data 8 png_start) (png_decode_image uncompress alloc)))))"

text \<open>An image of a failed load is emptied by \<open>unifrog_png_free\<close>.\<close>

definition unifrog_png_free :: "png_image \<Rightarrow> png_image" where
  "unifrog_png_free im = png_empty"

definition unifrog_png_load_file ::
  "(bytes \<Rightarrow> nat \<Rightarrow> bytes option) \<Rightarrow> (nat \<Rightarrow> bool) \<Rightarrow> cfile option \<Rightarrow> (int \<times> png_image) run"
where
  "unifrog_png_load_file uncompress alloc file = (case png_load uncompress alloc file of
     Ret im \<Rightarrow> Ret (0, im) | Err \<Rightarrow> Ret (-1, unifrog_png_free png_empty) | Trap \<Rightarrow> Trap)"

definition unifrog_png_is_opaque :: "png_image \<Rightarrow> int" where
  "unifrog_png_is_opaque im =
     (if im_alpha im = [] \<or> im_width im = 0 \<or> im_height im = 0 then 0
      else if list_all (\<lambda>a. a = Some 255) (take (im_width im * im_height im) (im_alpha im)) then 1 else 0)"

definition unifrog_png_alpha_coverage :: "png_image \<Rightarrow> nat" where
  "unifrog_png_alpha_coverage im =
     (if im_alpha im = [] \<or> im_width im = 0 \<or> im_height im = 0 then 0
      else let pixels = im_width im * im_height im;
               covered = length (filter (\<lambda>a. a \<noteq> Some 0) (take pixels (im_alpha im)))
           in (covered * 100 + pixels div 2) div pixels)"

end
