(* ===== verification/UF_PngSpec.thy ===== *)
theory UF_PngSpec
  imports UF_Png
begin

text \<open>
  What the PNG decoder does: it never reads or writes outside its buffers, whatever the file holds,
  and for a file that an encoder wrote it gives the encoder's pixels.
\<close>

section \<open>Filters\<close>

text \<open>
  The filters of the PNG standard: a byte is replaced by its difference from a prediction, which is
  computed from the bytes to the left, above, and above left.
\<close>

text \<open>The Paeth prediction: of the three neighbours the one nearest to their linear estimate, the first of several.\<close>

definition nearest :: "u8 \<Rightarrow> u8 \<Rightarrow> u8 \<Rightarrow> u8" where
  "nearest left up up_left =
     (let d = (\<lambda>v. \<bar>uint left + uint up - uint up_left - uint v\<bar>); vs = [left, up, up_left]
      in hd (filter (\<lambda>v. list_all (\<lambda>u. d v \<le> d u) vs) vs))"

lemma paeth_nearest: "paeth left up up_left = nearest left up up_left"
  by (auto simp: paeth_def nearest_def Let_def)

definition predictor :: "nat \<Rightarrow> u8 \<Rightarrow> u8 \<Rightarrow> u8 \<Rightarrow> u8" where
  "predictor filt left up up_left =
     (if filt = 1 then left else if filt = 2 then up
      else if filt = 3 then word_of_nat ((unat left + unat up) div 2)
      else if filt = 4 then nearest left up up_left else 0)"

definition predict :: "nat \<Rightarrow> nat \<Rightarrow> bytes option \<Rightarrow> bytes \<Rightarrow> nat \<Rightarrow> u8" where
  "predict filt bpp prev row x =
     predictor filt (if x \<ge> bpp then row ! (x - bpp) else 0)
       (case prev of None \<Rightarrow> 0 | Some p \<Rightarrow> p ! x)
       (case prev of None \<Rightarrow> 0 | Some p \<Rightarrow> if x \<ge> bpp then p ! (x - bpp) else 0)"

definition filter_row :: "nat \<Rightarrow> nat \<Rightarrow> bytes option \<Rightarrow> bytes \<Rightarrow> bytes" where
  "filter_row filt bpp prev row = map (\<lambda>x. row ! x - predict filt bpp prev row x) [0..<length row]"

abbreviation prev_ok :: "bytes option \<Rightarrow> nat \<Rightarrow> bool" where
  "prev_ok prev n \<equiv> (\<forall>p. prev = Some p \<longrightarrow> length p = n)"

lemma unfilter_byte_predictor:
  "unfilter_byte filt v left up up_left = (if filt \<le> 4 then Ret (v + predictor filt left up up_left) else Err)"
  by (auto simp: unfilter_byte_def predictor_def paeth_nearest)

lemma unfilter_step_predict:
  assumes "x < length row" "prev_ok prev (length row)"
  shows "unfilter_step filt bpp prev x row =
    (if filt \<le> 4 then Ret (row[x := row ! x + predict filt bpp prev row x]) else Err)"
proof -
  have l: "(if x \<ge> bpp then rd row (x - bpp) else Ret 0) = Ret (if x \<ge> bpp then row ! (x - bpp) else 0)"
    using assms(1) by simp
  have u: "(case prev of None \<Rightarrow> Ret 0 | Some p \<Rightarrow> rd p x) = Ret (case prev of None \<Rightarrow> 0 | Some p \<Rightarrow> p ! x)"
    using assms by (cases prev) simp_all
  have ul: "(case prev of None \<Rightarrow> Ret 0 | Some p \<Rightarrow> if x \<ge> bpp then rd p (x - bpp) else Ret 0) =
      Ret (case prev of None \<Rightarrow> 0 | Some p \<Rightarrow> if x \<ge> bpp then p ! (x - bpp) else 0)"
    using assms by (cases prev) simp_all
  show ?thesis
    unfolding unfilter_step_def l u ul run_bind.simps unfilter_byte_predictor predict_def using assms(1) by simp
qed

lemma unfilter_row_runs:
  assumes "prev_ok prev (length row)"
  shows "runs (unfilter_row filt bpp prev row) (\<lambda>r. length r = length row)"
  unfolding unfilter_row_def
  by (rule runs_for_upt [where I = "\<lambda>_ r. length r = length row"]) (use assms in \<open>auto simp: unfilter_step_predict\<close>)

lemma predict_prefix:
  assumes "0 < bpp" "x < length row"
  shows "predict filt bpp prev (take x row @ ys) x = predict filt bpp prev row x"
  using assms by (simp add: predict_def nth_append)

lemma unfilter_filter_row:
  assumes "0 < bpp" "filt \<le> 4" "prev_ok prev (length row)"
  shows "unfilter_row filt bpp prev (filter_row filt bpp prev row) = Ret row"
proof -
  let ?f = "filter_row filt bpp prev row"
  have len: "length ?f = length row" by (simp add: filter_row_def)
  have "run_for [0..<n] (unfilter_step filt bpp prev) ?f = Ret (take n row @ drop n ?f)" if "n \<le> length row" for n
    using that
  proof (induction n)
    case (Suc n)
    let ?s = "take n row @ drop n ?f"
    have s: "length ?s = length row" "?s ! n = ?f ! n" using Suc.prems len by (simp_all add: nth_append)
    have v: "?f ! n + predict filt bpp prev ?s n = row ! n"
      using Suc.prems predict_prefix [OF assms(1), of n row] by (simp add: filter_row_def)
    have "n < length ?s" "prev_ok prev (length ?s)" unfolding s(1) using Suc.prems assms(3) by simp_all
    from unfilter_step_predict [OF this, of filt bpp]
    have "unfilter_step filt bpp prev n ?s = Ret (?s[n := row ! n])" unfolding s(2) v using assms(2) by simp
    moreover have "?s[n := row ! n] = take (Suc n) row @ drop (Suc n) ?f"
      using Suc.prems len by (simp add: list_update_append take_Suc_conv_app_nth Cons_nth_drop_Suc [symmetric])
    ultimately show ?case using Suc by (simp add: run_for_append)
  qed simp
  from this [of "length row"] len show ?thesis by (simp add: unfilter_row_def)
qed

text \<open>The bytes of a pass: every row has a filter type of its own, which stands before the row.\<close>

definition filtered_row :: "(nat \<Rightarrow> nat) \<Rightarrow> nat \<Rightarrow> bytes list \<Rightarrow> nat \<Rightarrow> bytes" where
  "filtered_row filts bpp rows y =
     word_of_nat (filts y) # filter_row (filts y) bpp (if y = 0 then None else Some (rows ! (y - 1))) (rows ! y)"

definition filtered_rows :: "(nat \<Rightarrow> nat) \<Rightarrow> nat \<Rightarrow> bytes list \<Rightarrow> bytes" where
  "filtered_rows filts bpp rows = concat (map (filtered_row filts bpp rows) [0..<length rows])"

definition rows_ok :: "nat \<Rightarrow> bytes list \<Rightarrow> bool" where
  "rows_ok n rows \<longleftrightarrow> (\<forall>r \<in> set rows. length r = n)"

lemma rows_ok_nth: "rows_ok n rows \<Longrightarrow> i < length rows \<Longrightarrow> length (rows ! i) = n"
  by (simp add: rows_ok_def)

lemma length_filtered_row: "rows_ok n rows \<Longrightarrow> y < length rows \<Longrightarrow> length (filtered_row filts bpp rows y) = n + 1"
  by (simp add: filtered_row_def filter_row_def rows_ok_nth)

lemma length_concat_upt: "(\<And>y. y < h \<Longrightarrow> length (f y) = n) \<Longrightarrow> length (concat (map f [0..<h])) = h * n"
  by (induction h) simp_all

lemma drop_concat_upt:
  assumes "\<And>y. y < h \<Longrightarrow> length (f y) = n" "y < h"
  shows "drop (y * n) (concat (map f [0..<h])) = f y @ drop (Suc y * n) (concat (map f [0..<h]))"
proof -
  have "[0..<h] = [0..<y] @ y # [Suc y..<h]" using assms(2) by (metis le0 less_imp_le_nat upt_add_eq_append upt_conv_Cons le_add_diff_inverse)
  then have c: "concat (map f [0..<h]) = concat (map f [0..<y]) @ f y @ concat (map f [Suc y..<h])" by simp
  have l: "length (concat (map f [0..<y])) = y * n" by (rule length_concat_upt) (use assms in simp)
  show ?thesis unfolding c using l assms by simp
qed

lemma length_filtered_rows: "rows_ok n rows \<Longrightarrow> length (filtered_rows filts bpp rows) = length rows * (n + 1)"
  unfolding filtered_rows_def by (rule length_concat_upt) (rule length_filtered_row)

lemma unfilter_png_runs:
  assumes "pos + height * (n + 1) \<le> length src"
  shows "runs (unfilter_png (n * height) src pos n height bpp) (\<lambda>rows. length rows = height \<and> rows_ok n rows)"
  unfolding unfilter_png_def
proof (rule runs_for_upt [where I = "\<lambda>y rows. length rows = y \<and> rows_ok n rows"])
  fix y rows assume y: "y < height" and r: "length rows = y \<and> rows_ok n rows"
  have "Suc y * (n + 1) \<le> height * (n + 1)" using y by (intro mult_le_mono1) simp
  then have b: "pos + y * (n + 1) + 1 + n \<le> length src" using assms by simp
  have cap: "y * n + n \<le> n * height" using mult_le_mono1 [of "Suc y" height n] y by (simp add: ac_simps)
  define prev where "prev = (if y = 0 then None else Some (rows ! (y - 1)))"
  have p: "(if y = 0 then Ret None else run_bind (rd rows (y - 1)) (\<lambda>p. Ret (Some p))) = Ret prev"
    using r by (simp add: prev_def)
  have "prev_ok prev n" using r by (simp add: prev_def rows_ok_nth)
  then have "runs (unfilter_row filt bpp prev row) (\<lambda>row. runs (Ret (rows @ [row])) (\<lambda>rows. length rows = Suc y \<and> rows_ok n rows))"
    if "length row = n" for filt row
    by (intro runs_weaken [OF unfilter_row_runs]) (use that r in \<open>auto simp: rows_ok_def\<close>)
  then show "runs (unfilter_line (n * height) src pos n bpp y rows) (\<lambda>rows. length rows = Suc y \<and> rows_ok n rows)"
    unfolding unfilter_line_def p runs_bind runs_simps runs_access runs_defined using b cap by simp
qed (simp add: rows_ok_def)

lemma unfilter_filtered_rows:
  assumes "0 < bpp" "\<And>y. y < length rows \<Longrightarrow> filts y \<le> 4" "rows_ok n rows"
    "drop pos src = filtered_rows filts bpp rows @ rest"
  shows "unfilter_png (n * length rows) src pos n (length rows) bpp = Ret rows"
proof -
  let ?h = "length rows" and ?c = "filtered_rows filts bpp rows"
  have at: "\<exists>s. drop (pos + y * (n + 1)) src = filtered_row filts bpp rows y @ s" if "y < ?h" for y
  proof -
    have l: "length (filtered_row filts bpp rows y) = n + 1" if "y < ?h" for y
      using length_filtered_row [OF assms(3) that] .
    have "y * (n + 1) \<le> length ?c" using that by (simp only: length_filtered_rows [OF assms(3)] mult_le_mono1 less_imp_le)
    then have "drop (y * (n + 1)) (drop pos src) = drop (y * (n + 1)) ?c @ rest"
      unfolding assms(4) by simp
    then have "drop (pos + y * (n + 1)) src = drop (y * (n + 1)) ?c @ rest"
      unfolding drop_drop by (simp add: add.commute)
    then show ?thesis using drop_concat_upt [of ?h "filtered_row filts bpp rows" "n + 1" y, OF l that]
      by (simp add: filtered_rows_def)
  qed
  have "run_for [0..<y] (unfilter_line (n * ?h) src pos n bpp) [] = Ret (take y rows)" if "y \<le> ?h" for y
    using that
  proof (induction y)
    case (Suc y)
    let ?prev = "if y = 0 then None else Some (rows ! (y - 1))"
    have y: "y < ?h" using Suc.prems by simp
    obtain s where s: "drop (pos + y * (n + 1)) src = filtered_row filts bpp rows y @ s" using at [OF y] by blast
    have ln: "length (filtered_row filts bpp rows y) = n + 1" using length_filtered_row [OF assms(3) y] .
    have b: "pos + y * (n + 1) + 1 + n \<le> length src"
      using arg_cong [OF s, of length] ln by simp
    have filt: "src ! (pos + y * (n + 1)) = word_of_nat (filts y)"
      using arg_cong [OF s, of "\<lambda>l. l ! 0"] b by (simp add: filtered_row_def)
    have "drop (pos + y * (n + 1) + 1) src = filter_row (filts y) bpp ?prev (rows ! y) @ s"
      using arg_cong [OF s, of tl] by (simp add: filtered_row_def tl_drop drop_Suc [symmetric])
    moreover have "length (filter_row (filts y) bpp ?prev (rows ! y)) = n" using assms(3) y by (simp add: filter_row_def rows_ok_nth)
    ultimately have row: "take n (drop (pos + y * (n + 1) + 1) src) = filter_row (filts y) bpp ?prev (rows ! y)" by simp
    have f4: "unat (word_of_nat (filts y) :: u8) = filts y" using assms(2) [OF y] by (simp add: unat_of_nat)
    have "prev_ok ?prev (length (rows ! y))" using assms(3) y by (simp add: rows_ok_nth)
    from unfilter_filter_row [OF assms(1) assms(2) [OF y] this]
    have u: "unfilter_row (filts y) bpp ?prev (filter_row (filts y) bpp ?prev (rows ! y)) = Ret (rows ! y)" .
    have p: "(if y = 0 then Ret None else run_bind (rd (take y rows) (y - 1)) (\<lambda>p. Ret (Some p))) = Ret ?prev"
      using y by simp
    have "rd src (pos + y * (n + 1)) = Ret (word_of_nat (filts y))"
      "rd_range src (pos + y * (n + 1) + 1) n = Ret (filter_row (filts y) bpp ?prev (rows ! y))"
      using b filt row by (simp_all del: take_drop)
    moreover have "y * n + n \<le> n * ?h" using mult_le_mono1 [of "Suc y" ?h n] y by (simp add: ac_simps)
    ultimately have "unfilter_line (n * ?h) src pos n bpp y (take y rows) = Ret (take y rows @ [rows ! y])"
      unfolding unfilter_line_def p defined_def by (simp only: run_bind.simps f4 u if_True)
    moreover have "run_for [0..<y] (unfilter_line (n * ?h) src pos n bpp) [] = Ret (take y rows)" using Suc by simp
    ultimately show ?case using y by (simp add: run_for_append take_Suc_conv_app_nth)
  qed simp
  then show ?thesis unfolding unfilter_png_def by simp
qed

section \<open>Samples\<close>

text \<open>
  A row is a sequence of samples of a fixed number of bits, the first sample in the highest bits: read
  the row as a number in base 256, and its samples are the digits of that number in base \<open>2 ^ d\<close>.
\<close>

definition row_number :: "bytes \<Rightarrow> nat" where
  "row_number row = foldl (\<lambda>a b. 256 * a + unat b) 0 row"

definition sample :: "bytes \<Rightarrow> nat \<Rightarrow> nat \<Rightarrow> nat" where
  "sample row d i = row_number row div 2 ^ (8 * length row - (i + 1) * d) mod 2 ^ d"

lemma row_number_byte: "k < length row \<Longrightarrow> row_number row div 256 ^ (length row - 1 - k) mod 256 = unat (row ! k)"
proof (induction row rule: rev_induct)
  case (snoc b row)
  have b: "unat b < 256" using unsigned_less [of b] by simp
  have n: "row_number (row @ [b]) = 256 * row_number row + unat b" by (simp add: row_number_def)
  show ?case
  proof (cases "k = length row")
    case True
    then show ?thesis using b by (simp add: n)
  next
    case False
    with snoc.prems have k: "k < length row" by simp
    then have "length (row @ [b]) - 1 - k = Suc (length row - 1 - k)" by simp
    then have "row_number (row @ [b]) div 256 ^ (length (row @ [b]) - 1 - k) =
        (256 * row_number row + unat b) div 256 div 256 ^ (length row - 1 - k)"
      by (simp only: n power_Suc div_mult2_eq)
    also have "(256 * row_number row + unat b) div 256 = row_number row" using b by simp
    finally show ?thesis using snoc.IH [OF k] k by (simp add: nth_append)
  qed
qed simp

lemma div_mod_byte:
  fixes n :: nat
  assumes "s + d \<le> 8"
  shows "n div 2 ^ s mod 2 ^ d = n mod 256 div 2 ^ s mod 2 ^ d"
proof -
  have "take_bit d (drop_bit s (take_bit 8 n)) = take_bit d (drop_bit s n)"
    using assms by (simp add: drop_bit_take_bit)
  then show ?thesis by (simp add: take_bit_eq_mod drop_bit_eq_div)
qed

lemma sample_byte:
  assumes "d dvd 8" "(i + 1) * d \<le> 8 * length row"
  shows "d + i * d mod 8 \<le> 8" "i * d div 8 < length row"
    "sample row d i = unat (row ! (i * d div 8)) div 2 ^ (8 - d - i * d mod 8) mod 2 ^ d"
proof -
  let ?k = "i * d div 8" and ?r = "i * d mod 8"
  have d0: "0 < d" using assms(1) by (auto intro: Nat.gr0I)
  have kr: "8 * ?k + ?r = i * d" by simp
  have "d dvd ?r" using assms(1) by (simp add: dvd_mod)
  then obtain q where q: "?r = d * q" by blast
  from assms(1) obtain e where e: "8 = d * e" by blast
  have "d * q < d * e" using q e by (metis mod_less_divisor zero_less_numeral)
  then have "q + 1 \<le> e" using d0 by simp
  then have "d * (q + 1) \<le> d * e" by (rule mult_le_mono2)
  then show r: "d + ?r \<le> 8" unfolding q by (simp only: e [symmetric] mult_Suc_right Suc_eq_plus1 [symmetric])
  have "8 * ?k < 8 * length row" using kr assms(2) d0 by simp
  then show k: "?k < length row" by simp
  have "8 * length row - (i + 1) * d = 8 * (length row - 1 - ?k) + (8 - d - ?r)"
    using kr r k by (simp add: algebra_simps)
  then have "sample row d i = row_number row div 2 ^ (8 * (length row - 1 - ?k) + (8 - d - ?r)) mod 2 ^ d"
    by (simp only: sample_def)
  also have "\<dots> = row_number row div 256 ^ (length row - 1 - ?k) div 2 ^ (8 - d - ?r) mod 2 ^ d"
    by (simp add: power_add power_mult div_mult2_eq)
  also have "\<dots> = unat (row ! ?k) div 2 ^ (8 - d - ?r) mod 2 ^ d"
    using r div_mod_byte [of "8 - d - ?r" d "row_number row div 256 ^ (length row - 1 - ?k)"] row_number_byte [OF k] by simp
  finally show "sample row d i = unat (row ! ?k) div 2 ^ (8 - d - ?r) mod 2 ^ d" .
qed

lemma sample_8: "i < length row \<Longrightarrow> sample row 8 i = unat (row ! i)"
proof -
  assume "i < length row"
  moreover have "unat (row ! i) < 256" using unsigned_less [of "row ! i"] by simp
  ultimately show ?thesis using sample_byte [of 8 i row] by simp
qed

lemma packed_sample_sample:
  assumes "d dvd 8" "x < w" "length row = (w * d + 7) div 8"
  shows "packed_sample row x d = Ret (sample row d x)"
proof -
  have "(x + 1) * d \<le> w * d" using assms(2) by (intro mult_le_mono1) simp
  also have "\<dots> \<le> 8 * length row" using assms(3) by simp
  finally have b: "(x + 1) * d \<le> 8 * length row" .
  note s = sample_byte [OF assms(1) b]
  show ?thesis
  proof (cases "d = 8")
    case True
    with s(2) show ?thesis by (simp add: packed_sample_def sample_8)
  next
    case False
    with s show ?thesis by (simp add: packed_sample_def defined_def Let_def)
  qed
qed

section \<open>Colours\<close>

definition depth_ok :: "nat \<Rightarrow> nat \<Rightarrow> bool" where
  "depth_ok color d \<longleftrightarrow> color \<in> {0, 3} \<and> d \<in> {1, 2, 4, 8} \<or> color \<in> {2, 4, 6} \<and> d = 8"

definition known :: "'a option list \<Rightarrow> nat \<Rightarrow> bool" where
  "known xs n \<longleftrightarrow> n \<le> length xs \<and> (\<forall>i < n. xs ! i \<noteq> None)"

lemma rd_known_known: "known xs n \<Longrightarrow> i < n \<Longrightarrow> rd_known xs i = Ret (the (xs ! i))"
  by (auto simp: known_def rd_known_def split: option.split)

text \<open>What the chunk reader guarantees about its results.\<close>

definition chunks_ok :: "png_chunks \<Rightarrow> bool" where
  "chunks_ok pc \<longleftrightarrow> length (pc_palette pc) = 768 \<and> known (pc_palette pc) (3 * pc_palette_entries pc) \<and>
     length (pc_trns pc) = 256 \<and> known (pc_trns pc) (pc_trns_entries pc) \<and>
     (pc_width pc \<noteq> 0 \<longrightarrow> pc_height pc \<noteq> 0 \<and> pc_width pc * pc_height pc \<le> PNG_MAX_PIXELS \<and>
        depth_ok (pc_color pc) (pc_depth pc) \<and> pc_interlace pc \<le> 1)"

text \<open>
  The value of \<open>png_color\<close>, in terms of the samples of the row: an expression without checks, used
  only inside the proofs.
\<close>

definition row_color :: "png_chunks \<Rightarrow> bytes \<Rightarrow> nat \<Rightarrow> u8 \<times> u8 \<times> u8 \<times> u8" where
  "row_color pc row x =
     (let s = (\<lambda>k. sample row (pc_depth pc) (x * png_channels (pc_color pc) + k));
          v = (\<lambda>k. word_of_nat (s k) :: u8); t = (\<lambda>i. the (pc_trns pc ! i)); p = (\<lambda>i. the (pc_palette pc ! i))
      in if pc_color pc = 0 then
           (let g = scale_sample (s 0) (pc_depth pc)
            in (g, g, g, if pc_trns_entries pc \<ge> 2 \<and> s 0 = unat (t 0) * 256 + unat (t 1) then 0 else 255))
         else if pc_color pc = 2 then
           (v 0, v 1, v 2, if pc_trns_entries pc \<ge> 6 \<and> v 0 = t 1 \<and> v 1 = t 3 \<and> v 2 = t 5 then 0 else 255)
         else if pc_color pc = 3 then
           (if s 0 < pc_palette_entries pc
            then (p (s 0 * 3), p (s 0 * 3 + 1), p (s 0 * 3 + 2), if s 0 < pc_trns_entries pc then t (s 0) else 255)
            else (0, 0, 0, 255))
         else if pc_color pc = 4 then (v 0, v 0, v 0, v 1)
         else (v 0, v 1, v 2, v 3))"

lemma row_bytes_8: "png_row_bytes w c 8 = w * png_channels c"
  by (simp add: png_row_bytes_def)

lemma word_sample_8: "i < length row \<Longrightarrow> (word_of_nat (sample row 8 i) :: u8) = row ! i"
  by (simp add: sample_8)

lemma png_color_sample:
  assumes "chunks_ok pc" "depth_ok (pc_color pc) (pc_depth pc)" "x < w"
    "length row = png_row_bytes w (pc_color pc) (pc_depth pc)"
  shows "png_color pc row x = Ret (row_color pc row x)"
proof -
  have k: "known (pc_trns pc) (pc_trns_entries pc)" "known (pc_palette pc) (3 * pc_palette_entries pc)"
    using assms(1) by (simp_all add: chunks_ok_def)
  note kn = rd_known_known [OF k(1)] rd_known_known [OF k(2)]
  consider (packed) "pc_color pc \<in> {0, 3}" "pc_depth pc dvd 8" | (bytes) "pc_color pc \<in> {2, 4, 6}" "pc_depth pc = 8"
    using assms(2) by (auto simp: depth_ok_def)
  then show ?thesis
  proof cases
    case packed
    then have c: "png_channels (pc_color pc) = 1" by (auto simp: png_channels_def)
    have s: "packed_sample row x (pc_depth pc) = Ret (sample row (pc_depth pc) x)"
      by (rule packed_sample_sample [OF packed(2) assms(3)]) (simp add: assms(4) png_row_bytes_def c)
    show ?thesis
    proof (cases "pc_color pc = 0")
      case True
      with c show ?thesis by (simp add: png_color_def row_color_def s kn Let_def)
    next
      case False
      with packed(1) have "pc_color pc = 3" by simp
      with c show ?thesis by (simp add: png_color_def row_color_def s kn Let_def)
    qed
  next
    case bytes
    let ?c = "png_channels (pc_color pc)"
    have "x * ?c + ?c \<le> w * ?c" using mult_le_mono1 [of "Suc x" w ?c] assms(3) by simp
    then have b: "x * ?c + k < length row" if "k < ?c" for k
      using that assms(4) bytes(2) by (simp add: row_bytes_8)
    have r: "rd row (x * ?c + k) = Ret (row ! (x * ?c + k))" "(word_of_nat (sample row 8 (x * ?c + k)) :: u8) = row ! (x * ?c + k)"
      if "k < ?c" for k
      using b [OF that] by (simp_all add: word_sample_8)
    consider "pc_color pc = 2" | "pc_color pc = 4" | "pc_color pc = 6" using bytes(1) by auto
    then show ?thesis
    proof cases
      case 1
      then show ?thesis using r [of 0] r [of 1] r [of 2]
        by (simp add: png_color_def row_color_def png_channels_def bytes(2) kn Let_def)
    next
      case 2
      then show ?thesis using r [of 0] r [of 1]
        by (simp add: png_color_def row_color_def png_channels_def bytes(2) Let_def)
    next
      case 3
      then show ?thesis using r [of 0] r [of 1] r [of 2] r [of 3]
        by (simp add: png_color_def row_color_def png_channels_def bytes(2) Let_def)
    qed
  qed
qed

section \<open>Passes\<close>

definition dims :: "nat \<Rightarrow> nat \<Rightarrow> png_image \<Rightarrow> bool" where
  "dims w h im \<longleftrightarrow> length (im_pixels im) = w * h \<and> length (im_alpha im) = w * h"

definition pixel_at :: "nat \<Rightarrow> png_image \<Rightarrow> nat \<Rightarrow> nat \<Rightarrow> u16 option \<times> u8 option" where
  "pixel_at w im x y = (im_pixels im ! (y * w + x), im_alpha im ! (y * w + x))"

text \<open>A 16 bit pixel has five bits of red in front, six of green, and five of blue at the end.\<close>

definition rgb565 :: "u8 \<Rightarrow> u8 \<Rightarrow> u8 \<Rightarrow> u16" where
  "rgb565 r g b = word_of_nat (unat r div 8 * 2048 + unat g div 4 * 32 + unat b div 8)"

fun shade :: "u8 \<times> u8 \<times> u8 \<times> u8 \<Rightarrow> u16 option \<times> u8 option" where
  "shade (r, g, b, a) = (Some (rgb565 r g b), Some a)"

text \<open>Three channels that fit their fields do not disturb each other.\<close>

lemma bit_small: "b < 2 ^ k \<Longrightarrow> bit (b :: nat) n \<Longrightarrow> n < k"
proof (rule ccontr)
  assume b: "b < 2 ^ k" "bit b n" "\<not> n < k"
  then have "(2 :: nat) ^ k \<le> 2 ^ n" by (intro power_increasing) simp_all
  with b(1) have "b < 2 ^ n" by linarith
  then have "b div 2 ^ n = 0" by simp
  with b(2) show False by (simp add: bit_iff_odd)
qed

lemma or_shifted: "b < 2 ^ k \<Longrightarrow> push_bit k a OR b = push_bit k a + (b :: nat)"
  by (rule disjunctive_add [symmetric]) (auto simp: bit_push_bit_iff dest: bit_small)

lemma pack_565:
  assumes "g < 64" "b < 32"
  shows "(push_bit 11 (word_of_nat r) OR push_bit 5 (word_of_nat g) OR word_of_nat b :: u16) =
    word_of_nat (r * 2048 + g * 32 + b)"
proof -
  have "push_bit 5 g OR b = push_bit 5 g + b" using or_shifted [of b 5 g] assms(2) by simp
  moreover have "push_bit 11 r OR (push_bit 5 g + b) = push_bit 11 r + (push_bit 5 g + b)"
    by (rule or_shifted) (use assms in \<open>simp add: push_bit_eq_mult\<close>)
  ultimately have n: "push_bit 11 r OR (push_bit 5 g OR b) = r * 2048 + g * 32 + b" by (simp add: push_bit_eq_mult)
  have "(push_bit 11 (word_of_nat r) OR push_bit 5 (word_of_nat g) OR word_of_nat b :: u16) =
      word_of_nat (push_bit 11 r OR (push_bit 5 g OR b))" by (simp add: of_nat_or_eq push_bit_of_nat)
  then show ?thesis by (simp only: n)
qed

lemma drop_bit_ucast: "(drop_bit k (ucast (v :: u8)) :: u16) = word_of_nat (unat v div 2 ^ k)"
proof -
  have v: "unat v < 256" using unsigned_less [of v] by simp
  then have "unat v div 2 ^ k < 65536" using div_le_dividend [of "unat v" "2 ^ k"] by linarith
  moreover have "unat (ucast v :: u16) = unat v" using v by (simp add: unsigned_ucast_eq unsigned_take_bit_eq take_bit_nat_eq_self)
  then have "unat (drop_bit k (ucast v) :: u16) = unat v div 2 ^ k"
    by (simp only: unat_drop_bit_eq) (simp add: drop_bit_eq_div)
  ultimately have "unat (drop_bit k (ucast v) :: u16) = unat (word_of_nat (unat v div 2 ^ k) :: u16)"
    by (simp add: unat_of_nat)
  then show ?thesis by (simp only: word_unat_eq_iff)
qed

lemma UNIFROG_RGB565_fields: "UNIFROG_RGB565 r g b = rgb565 r g b"
proof -
  have "unat g < 256" "unat b < 256" using unsigned_less [of g] unsigned_less [of b] by simp_all
  then have "unat g div 4 < 64" "unat b div 8 < 32" by simp_all
  then show ?thesis by (simp add: UNIFROG_RGB565_def rgb565_def drop_bit_ucast pack_565)
qed

lemma index_less: "x < w \<Longrightarrow> y < h \<Longrightarrow> y * w + x < w * (h :: nat)"
proof -
  assume "x < w" "y < h"
  then have "y * w + x < Suc y * w" "Suc y * w \<le> h * w" by (simp, intro mult_le_mono1) simp
  then show ?thesis by (simp add: mult.commute)
qed

lemma index_inj: "x < w \<Longrightarrow> x' < w \<Longrightarrow> y * w + x = y' * w + x' \<longleftrightarrow> x = x' \<and> y = (y' :: nat)"
proof
  assume a: "x < w" "x' < w" "y * w + x = y' * w + x'"
  from a(1,2) have "(y * w + x) div w = y" "(y * w + x) mod w = x" "(y' * w + x') div w = y'" "(y' * w + x') mod w = x'"
    by simp_all
  with a(3) show "x = x' \<and> y = y'" by metis
qed simp

text \<open>What changes in an image: the pixels of a region get the colours of a function.\<close>

definition painted ::
  "nat \<Rightarrow> nat \<Rightarrow> png_image \<Rightarrow> (nat \<Rightarrow> nat \<Rightarrow> bool) \<Rightarrow> (nat \<Rightarrow> nat \<Rightarrow> u8 \<times> u8 \<times> u8 \<times> u8) \<Rightarrow> png_image \<Rightarrow> bool"
where
  "painted w h im P c im' \<longleftrightarrow> dims w h im' \<and>
     (\<forall>x y. x < w \<longrightarrow> y < h \<longrightarrow> pixel_at w im' x y = (if P x y then shade (c x y) else pixel_at w im x y))"

lemma painted_none: "dims w h im \<Longrightarrow> (\<And>x y. x < w \<Longrightarrow> y < h \<Longrightarrow> \<not> P x y) \<Longrightarrow> painted w h im P c im"
  by (simp add: painted_def)

lemma painted_trans:
  assumes "painted w h im P c im1" "painted w h im1 Q d im2"
    and "\<And>x y. x < w \<Longrightarrow> y < h \<Longrightarrow> R x y \<longleftrightarrow> P x y \<or> Q x y"
    and "\<And>x y. x < w \<Longrightarrow> y < h \<Longrightarrow> Q x y \<Longrightarrow> e x y = d x y"
    and "\<And>x y. x < w \<Longrightarrow> y < h \<Longrightarrow> P x y \<Longrightarrow> \<not> Q x y \<Longrightarrow> e x y = c x y"
  shows "painted w h im R e im2"
  unfolding painted_def
proof (intro conjI allI impI)
  show "dims w h im2" using assms(2) by (simp add: painted_def)
  fix x y assume xy: "x < w" "y < h"
  have "pixel_at w im2 x y = (if Q x y then shade (d x y) else pixel_at w im1 x y)"
    "pixel_at w im1 x y = (if P x y then shade (c x y) else pixel_at w im x y)"
    using assms(1,2) xy by (simp_all add: painted_def)
  then show "pixel_at w im2 x y = (if R x y then shade (e x y) else pixel_at w im x y)"
    using assms(3-5) [OF xy] by auto
qed

lemma painted_cong:
  assumes "painted w h im P c im'" "\<And>x y. x < w \<Longrightarrow> y < h \<Longrightarrow> P x y \<longleftrightarrow> Q x y"
    and "\<And>x y. x < w \<Longrightarrow> y < h \<Longrightarrow> Q x y \<Longrightarrow> c x y = d x y"
  shows "painted w h im Q d im'"
  using assms by (simp add: painted_def)

lemma painted_dims: "painted w h im P c im' \<Longrightarrow> dims w h im'"
  by (simp add: painted_def)

lemma store_pixel:
  assumes "dims w h im" "X < w" "Y < h" "png_color pc row p = Ret c"
  shows "\<exists>im'. png_store_pixel pc (Y * w + X) row p im = Ret im' \<and>
    painted w h im (\<lambda>x y. x = X \<and> y = Y) (\<lambda>x y. c) im'"
proof -
  obtain r g b a where c: "c = (r, g, b, a)" by (metis surj_pair)
  let ?i = "Y * w + X"
  let ?im = "im\<lparr>im_pixels := (im_pixels im)[?i := Some (rgb565 r g b)], im_alpha := (im_alpha im)[?i := Some a]\<rparr>"
  have i: "?i < length (im_pixels im)" "?i < length (im_alpha im)"
    using index_less [OF assms(2,3)] assms(1) by (simp_all add: dims_def)
  have "png_store_pixel pc ?i row p im = Ret ?im" using assms(4) i by (simp add: png_store_pixel_def c UNIFROG_RGB565_fields)
  moreover have "pixel_at w ?im x y = (if x = X \<and> y = Y then shade c else pixel_at w im x y)" if "x < w" for x y
    using index_inj [OF assms(2) that, of Y y] i by (auto simp: pixel_at_def c nth_list_update)
  ultimately show ?thesis using assms(1) by (auto simp: painted_def dims_def)
qed

lemma pass_count_less: "0 < s \<Longrightarrow> x0 < n \<Longrightarrow> p < pass_count n x0 s \<longleftrightarrow> x0 + p * s < n"
proof -
  assume "0 < s" "x0 < n"
  have "p < pass_count n x0 s \<longleftrightarrow> Suc p * s \<le> n - x0 + s - 1"
    using \<open>0 < s\<close> by (simp only: pass_count_def less_eq_Suc_le less_eq_div_iff_mult_less_eq)
  also have "\<dots> \<longleftrightarrow> x0 + p * s < n" using \<open>0 < s\<close> \<open>x0 < n\<close> by auto
  finally show ?thesis .
qed

lemma mod_div_step: "x0 < s \<Longrightarrow> x mod s = x0 \<and> x div s = n \<longleftrightarrow> x = x0 + n * (s :: nat)"
  by (metis add.commute add_cancel_right_right div_mult_mod_eq div_mult_self1 div_less mod_mult_self1 mod_less add_0 less_nat_zero_code)

lemma store_row:
  assumes "dims w h im" "Y < h" "x0 < xs" "x0 < w" "n \<le> pass_count w x0 xs"
    and col: "\<And>p. p < pass_count w x0 xs \<Longrightarrow> png_color pc row p = Ret (col p)"
  shows "\<exists>im'. run_for [0..<n] (\<lambda>px. png_store_pixel pc (Y * w + (x0 + px * xs)) row px) im = Ret im' \<and>
    painted w h im (\<lambda>x y. y = Y \<and> x mod xs = x0 \<and> x div xs < n) (\<lambda>x y. col (x div xs)) im'"
  using assms(5)
proof (induction n)
  case 0
  show ?case by (simp add: painted_none assms(1))
next
  case (Suc n)
  from Suc.prems have n: "n < pass_count w x0 xs" by simp
  then have X: "x0 + n * xs < w" using pass_count_less [of xs x0 w n] assms(3,4) by simp
  obtain im1 where i1: "run_for [0..<n] (\<lambda>px. png_store_pixel pc (Y * w + (x0 + px * xs)) row px) im = Ret im1"
    "painted w h im (\<lambda>x y. y = Y \<and> x mod xs = x0 \<and> x div xs < n) (\<lambda>x y. col (x div xs)) im1"
    using Suc.IH less_imp_le_nat [OF n] by blast
  obtain im2 where i2: "png_store_pixel pc (Y * w + (x0 + n * xs)) row n im1 = Ret im2"
    "painted w h im1 (\<lambda>x y. x = x0 + n * xs \<and> y = Y) (\<lambda>x y. col n) im2"
    using store_pixel [OF painted_dims [OF i1(2)] X assms(2) col [OF n]] by blast
  have "painted w h im (\<lambda>x y. y = Y \<and> x mod xs = x0 \<and> x div xs < Suc n) (\<lambda>x y. col (x div xs)) im2"
    by (rule painted_trans [OF i1(2) i2(2)]) (use mod_div_step [OF assms(3), of _ n] assms(3) in \<open>auto simp: less_Suc_eq\<close>)
  then show ?case using i1(1) i2(1) by (simp add: run_for_append)
qed

lemma store_rows:
  fixes pc w h
  defines "w \<equiv> pc_width pc"
  assumes "dims w h im" "x0 < xs" "x0 < w" "y0 < ys" "y0 < h" "n \<le> pass_count h y0 ys" "length rows = pass_count h y0 ys"
    and col: "\<And>p r. p < pass_count w x0 xs \<Longrightarrow> r \<in> set rows \<Longrightarrow> png_color pc r p = Ret (col r p)"
  shows "\<exists>im'. run_for [0..<n] (store_line pc (pass_count w x0 xs) (x0, y0, xs, ys) rows) im = Ret im' \<and>
    painted w h im (\<lambda>x y. x mod xs = x0 \<and> y mod ys = y0 \<and> y div ys < n) (\<lambda>x y. col (rows ! (y div ys)) (x div xs)) im'"
  using assms(7)
proof (induction n)
  case 0
  show ?case by (simp add: painted_none assms(2))
next
  case (Suc n)
  from Suc.prems have n: "n < pass_count h y0 ys" by simp
  then have Y: "y0 + n * ys < h" using pass_count_less [of ys y0 h n] assms(5,6) by simp
  obtain im1 where i1: "run_for [0..<n] (store_line pc (pass_count w x0 xs) (x0, y0, xs, ys) rows) im = Ret im1"
    "painted w h im (\<lambda>x y. x mod xs = x0 \<and> y mod ys = y0 \<and> y div ys < n) (\<lambda>x y. col (rows ! (y div ys)) (x div xs)) im1"
    using Suc.IH less_imp_le_nat [OF n] by blast
  have c: "png_color pc (rows ! n) p = Ret (col (rows ! n) p)" if "p < pass_count w x0 xs" for p
    using col [OF that] n assms(8) by simp
  obtain im2 where i2: "run_for [0..<pass_count w x0 xs] (\<lambda>px. png_store_pixel pc ((y0 + n * ys) * w + (x0 + px * xs)) (rows ! n) px) im1 = Ret im2"
    "painted w h im1 (\<lambda>x y. y = y0 + n * ys \<and> x mod xs = x0 \<and> x div xs < pass_count w x0 xs) (\<lambda>x y. col (rows ! n) (x div xs)) im2"
    using store_row [OF painted_dims [OF i1(2)] Y assms(3,4) order_refl c] by blast
  have p: "x div xs < pass_count w x0 xs" if "x mod xs = x0" "x < w" for x
    using that mod_div_step [OF assms(3), of x "x div xs"] pass_count_less [of xs x0 w "x div xs"] assms(3,4) by simp
  have "painted w h im (\<lambda>x y. x mod xs = x0 \<and> y mod ys = y0 \<and> y div ys < Suc n) (\<lambda>x y. col (rows ! (y div ys)) (x div xs)) im2"
    by (rule painted_trans [OF i1(2) i2(2)]) (use mod_div_step [OF assms(5), of _ n] assms(5) p in \<open>auto simp: less_Suc_eq\<close>)
  moreover have "store_line pc (pass_count w x0 xs) (x0, y0, xs, ys) rows n im1 = Ret im2"
    using i2(1) n assms(8) by (simp add: store_line_def w_def)
  ultimately show ?case using i1(1) by (simp add: run_for_append)
qed

fun on_pass :: "png_pass \<Rightarrow> nat \<Rightarrow> nat \<Rightarrow> bool" where
  "on_pass (x0, y0, xs, ys) x y \<longleftrightarrow> x mod xs = x0 \<and> y mod ys = y0"

fun pass_ok :: "png_pass \<Rightarrow> bool" where
  "pass_ok (x0, y0, xs, ys) \<longleftrightarrow> x0 < xs \<and> y0 < ys"

fun pass_color :: "png_chunks \<Rightarrow> bytes list \<Rightarrow> png_pass \<Rightarrow> nat \<Rightarrow> nat \<Rightarrow> u8 \<times> u8 \<times> u8 \<times> u8" where
  "pass_color pc rows (x0, y0, xs, ys) x y = row_color pc (rows ! (y div ys)) (x div xs)"

text \<open>The number of rows of a pass and of bytes in a row; a pass outside the image has none.\<close>

fun pass_rows :: "png_chunks \<Rightarrow> png_pass \<Rightarrow> nat" where
  "pass_rows pc (x0, y0, xs, ys) =
     (if x0 \<ge> pc_width pc \<or> y0 \<ge> pc_height pc then 0 else pass_count (pc_height pc) y0 ys)"

fun pass_row_bytes :: "png_chunks \<Rightarrow> png_pass \<Rightarrow> nat" where
  "pass_row_bytes pc (x0, y0, xs, ys) = png_row_bytes (pass_count (pc_width pc) x0 xs) (pc_color pc) (pc_depth pc)"

lemma pass_bytes_rows: "pass_bytes pc p = pass_rows pc p * (pass_row_bytes pc p + 1)"
  by (cases p) (simp add: pass_bytes_def)

abbreviation bpp :: "png_chunks \<Rightarrow> nat" where
  "bpp pc \<equiv> png_filter_bpp (pc_color pc) (pc_depth pc)"

definition ready :: "png_chunks \<Rightarrow> bool" where
  "ready pc \<longleftrightarrow> chunks_ok pc \<and> pc_width pc \<noteq> 0"

lemma ready_depth: "ready pc \<Longrightarrow> depth_ok (pc_color pc) (pc_depth pc)"
  by (simp add: ready_def chunks_ok_def)

lemma row_bytes_pos: "depth_ok c d \<Longrightarrow> 0 < w \<Longrightarrow> png_row_bytes w c d \<noteq> 0"
  by (auto simp: depth_ok_def png_row_bytes_def png_channels_def)

lemma pass_unused: "on_pass (x0, y0, xs, ys) x y \<Longrightarrow> x < w \<Longrightarrow> y < h \<Longrightarrow> x0 < w \<and> y0 < h"
  by (metis on_pass.simps mod_less_eq_dividend order_le_less_trans)

text \<open>A pass asks for one allocation, undoes the filters, and paints its pixels.\<close>

lemma decode_pass:
  assumes "ready pc" "pass_ok p" "dims (pc_width pc) (pc_height pc) im"
  shows "pass_rows pc p = 0 \<Longrightarrow> png_decode_pass alloc pc src (i, p) (im, pos) = Ret (im, pos)"
    "pass_rows pc p \<noteq> 0 \<Longrightarrow> png_decode_pass alloc pc src (i, p) (im, pos) =
      require (alloc (4 + i)) (run_bind (unfilter_png (pass_row_bytes pc p * pass_rows pc p) src pos (pass_row_bytes pc p) (pass_rows pc p) (bpp pc)) (\<lambda>rows.
        run_bind (run_for [0..<pass_rows pc p] (store_line pc (pass_count (pc_width pc) (fst p) (fst (snd (snd p)))) p rows) im)
          (\<lambda>im. Ret (im, pos + pass_bytes pc p))))"
    "length rows = pass_rows pc p \<Longrightarrow> rows_ok (pass_row_bytes pc p) rows \<Longrightarrow>
      \<exists>im'. run_for [0..<pass_rows pc p] (store_line pc (pass_count (pc_width pc) (fst p) (fst (snd (snd p)))) p rows) im = Ret im' \<and>
        painted (pc_width pc) (pc_height pc) im (on_pass p) (pass_color pc rows p) im'"
proof -
  obtain x0 y0 xs ys where p: "p = (x0, y0, xs, ys)" by (metis surj_pair)
  let ?w = "pc_width pc" and ?h = "pc_height pc"
  have s: "x0 < xs" "y0 < ys" using assms(2) p by simp_all
  have c: "pass_count ?w x0 xs \<noteq> 0" "pass_count ?h y0 ys \<noteq> 0" if "x0 < ?w" "y0 < ?h"
    using that pass_count_less [of xs x0 ?w 0] pass_count_less [of ys y0 ?h 0] s by simp_all
  show "png_decode_pass alloc pc src (i, p) (im, pos) = Ret (im, pos)" if "pass_rows pc p = 0"
    using that c by (auto simp: png_decode_pass_def p split: if_splits)
  show "png_decode_pass alloc pc src (i, p) (im, pos) =
      require (alloc (4 + i)) (run_bind (unfilter_png (pass_row_bytes pc p * pass_rows pc p) src pos (pass_row_bytes pc p) (pass_rows pc p) (bpp pc)) (\<lambda>rows.
        run_bind (run_for [0..<pass_rows pc p] (store_line pc (pass_count (pc_width pc) (fst p) (fst (snd (snd p)))) p rows) im)
          (\<lambda>im. Ret (im, pos + pass_bytes pc p))))" if "pass_rows pc p \<noteq> 0"
  proof -
    have b: "x0 < ?w" "y0 < ?h" using that by (auto simp: p split: if_splits)
    have "png_row_bytes (pass_count ?w x0 xs) (pc_color pc) (pc_depth pc) \<noteq> 0"
      using row_bytes_pos [OF ready_depth [OF assms(1)]] c(1) [OF b] by simp
    with b c [OF b] show ?thesis by (simp add: png_decode_pass_def p pass_bytes_def Let_def)
  qed
  assume len: "length rows = pass_rows pc p" and ok: "rows_ok (pass_row_bytes pc p) rows"
  show "\<exists>im'. run_for [0..<pass_rows pc p] (store_line pc (pass_count (pc_width pc) (fst p) (fst (snd (snd p)))) p rows) im = Ret im' \<and>
      painted ?w ?h im (on_pass p) (pass_color pc rows p) im'"
  proof (cases "pass_rows pc p = 0")
    case True
    have "\<not> (x0 < ?w \<and> y0 < ?h)" using True c by (auto simp: p)
    then have "\<not> on_pass p x y" if "x < ?w" "y < ?h" for x y
      unfolding p using pass_unused that by blast
    then have "painted ?w ?h im (on_pass p) (pass_color pc rows p) im" by (rule painted_none [OF assms(3)])
    with True show ?thesis by auto
  next
    case False
    have b: "x0 < ?w" "y0 < ?h" using False by (auto simp: p split: if_splits)
    have r: "pass_rows pc p = pass_count ?h y0 ys" using b by (simp add: p)
    have col: "png_color pc row k = Ret (row_color pc row k)"
      if "k < pass_count ?w x0 xs" "row \<in> set rows" for k row
      using png_color_sample [OF _ ready_depth [OF assms(1)] that(1)] assms(1) ok that(2) by (simp add: ready_def rows_ok_def p)
    obtain im' where im': "run_for [0..<pass_rows pc p] (store_line pc (pass_count ?w x0 xs) (x0, y0, xs, ys) rows) im = Ret im'"
      "painted ?w ?h im (\<lambda>x y. x mod xs = x0 \<and> y mod ys = y0 \<and> y div ys < pass_rows pc p)
        (\<lambda>x y. row_color pc (rows ! (y div ys)) (x div xs)) im'"
      using store_rows [OF assms(3) s(1) b(1) s(2) b(2) _ _ col, of "pass_rows pc p"] r len by auto
    have "y div ys < pass_rows pc p" if "y mod ys = y0" "y < ?h" for y
      using that mod_div_step [OF s(2), of y "y div ys"] pass_count_less [of ys y0 ?h "y div ys"] s(2) b(2) r by simp
    then have "painted ?w ?h im (on_pass p) (pass_color pc rows p) im'"
      by (intro painted_cong [OF im'(2)]) (auto simp: p simp del: pass_rows.simps)
    with im'(1) show ?thesis by (auto simp: p)
  qed
qed

lemma decode_pass_runs:
  assumes "ready pc" "pass_ok p" "dims (pc_width pc) (pc_height pc) im" "pos + pass_bytes pc p \<le> length src"
  shows "runs (png_decode_pass alloc pc src (i, p) (im, pos)) (\<lambda>(im', pos'). pos' = pos + pass_bytes pc p \<and>
    (\<exists>c. painted (pc_width pc) (pc_height pc) im (on_pass p) c im'))"
proof (cases "pass_rows pc p = 0")
  case True
  obtain im' where "painted (pc_width pc) (pc_height pc) im (on_pass p) (pass_color pc [] p) im'" "im' = im"
    using decode_pass(3) [OF assms(1-3), of "[]"] True by (auto simp: rows_ok_def)
  with True show ?thesis using decode_pass(1) [OF assms(1-3) True] by (auto simp: pass_bytes_rows)
next
  case False
  have "runs (unfilter_png (pass_row_bytes pc p * pass_rows pc p) src pos (pass_row_bytes pc p) (pass_rows pc p) (bpp pc))
      (\<lambda>rows. length rows = pass_rows pc p \<and> rows_ok (pass_row_bytes pc p) rows)"
    by (rule unfilter_png_runs) (use assms(4) in \<open>simp add: pass_bytes_rows\<close>)
  then show ?thesis
    unfolding decode_pass(2) [OF assms(1-3) False] runs_require runs_bind
    by (intro impI) (erule runs_weaken, use decode_pass(3) [OF assms(1-3)] in fastforce)
qed

section \<open>All passes\<close>

text \<open>Every pixel belongs to exactly one pass.\<close>

lemma adam7_table:
  "list_all (\<lambda>a. list_all (\<lambda>b. length (filter (\<lambda>p. on_pass p a b) adam7) = 1) [0..<8]) [0..<8]"
  by code_simp

lemma on_pass_mod8: "p \<in> set adam7 \<Longrightarrow> on_pass p (x mod 8) (y mod 8) = on_pass p x y"
  by (auto simp: adam7_def mod_mod_cancel)

lemma one_pass: "length (filter (\<lambda>p. on_pass p x y) (png_passes i)) = 1"
proof (cases "i = 0")
  case False
  have "filter (\<lambda>p. on_pass p x y) adam7 = filter (\<lambda>p. on_pass p (x mod 8) (y mod 8)) adam7"
    by (rule filter_cong [OF refl]) (simp add: on_pass_mod8)
  then show ?thesis using adam7_table False by (simp add: png_passes_def list_all_iff)
qed (simp add: png_passes_def)

definition pass_of :: "nat \<Rightarrow> nat \<Rightarrow> nat \<Rightarrow> png_pass" where
  "pass_of i x y = hd (filter (\<lambda>p. on_pass p x y) (png_passes i))"

lemma pass_of:
  "pass_of i x y \<in> set (png_passes i)" "on_pass (pass_of i x y) x y"
  "p \<in> set (png_passes i) \<Longrightarrow> on_pass p x y \<Longrightarrow> p = pass_of i x y"
proof -
  let ?f = "filter (\<lambda>p. on_pass p x y) (png_passes i)"
  obtain q where q: "?f = [q]" using one_pass [of x y i] by (auto simp: length_Suc_conv)
  then have s: "{p \<in> set (png_passes i). on_pass p x y} = {q}" by (metis set_filter list.set(1,2))
  have e: "pass_of i x y = q" using q by (simp add: pass_of_def)
  show "pass_of i x y \<in> set (png_passes i)" "on_pass (pass_of i x y) x y" using s e by blast+
  show "p = pass_of i x y" if "p \<in> set (png_passes i)" "on_pass p x y" using s e that by blast
qed

lemma png_passes_ok: "p \<in> set (png_passes i) \<Longrightarrow> pass_ok p"
  by (auto simp: png_passes_def adam7_def split: if_splits)

lemma inflated_size: "ready pc \<Longrightarrow> png_inflated_size pc = sum_list (map (pass_bytes pc) (png_passes (pc_interlace pc)))"
  by (auto simp: png_inflated_size_def png_passes_def pass_bytes_def pass_count_def ready_def chunks_ok_def)

lemma passes_runs:
  assumes "ready pc" "\<forall>p \<in> set ps. pass_ok p"
  shows "dims (pc_width pc) (pc_height pc) im \<Longrightarrow> pos + sum_list (map (pass_bytes pc) ps) \<le> length src \<Longrightarrow>
    length ks = length ps \<Longrightarrow>
    runs (run_for (zip ks ps) (png_decode_pass alloc pc src) (im, pos)) (\<lambda>(im', pos').
      pos' = pos + sum_list (map (pass_bytes pc) ps) \<and>
      (\<exists>c. painted (pc_width pc) (pc_height pc) im (\<lambda>x y. \<exists>p \<in> set ps. on_pass p x y) c im'))"
  using assms(2)
proof (induction ps arbitrary: im pos ks)
  case Nil
  then show ?case by (auto intro: painted_none)
next
  case (Cons p ps)
  let ?w = "pc_width pc" and ?h = "pc_height pc"
  obtain k ks' where ks: "ks = k # ks'" using Cons.prems(3) by (cases ks) auto
  have "runs (png_decode_pass alloc pc src (k, p) (im, pos)) (\<lambda>(im', pos'). pos' = pos + pass_bytes pc p \<and>
      (\<exists>c. painted ?w ?h im (on_pass p) c im'))"
    by (rule decode_pass_runs [OF assms(1)]) (use Cons.prems in auto)
  then show ?case
    unfolding ks zip_Cons_Cons run_for.simps
  proof (rule runs_bindI)
    fix s assume s: "case s of (im', pos') \<Rightarrow> pos' = pos + pass_bytes pc p \<and> (\<exists>c. painted ?w ?h im (on_pass p) c im')"
    obtain im1 c1 where s1: "s = (im1, pos + pass_bytes pc p)" and p1: "painted ?w ?h im (on_pass p) c1 im1"
      using s by (cases s) auto
    have "runs (run_for (zip ks' ps) (png_decode_pass alloc pc src) s) (\<lambda>(im', pos').
        pos' = pos + pass_bytes pc p + sum_list (map (pass_bytes pc) ps) \<and>
        (\<exists>c. painted ?w ?h im1 (\<lambda>x y. \<exists>p \<in> set ps. on_pass p x y) c im'))"
      unfolding s1 by (rule Cons.IH) (use Cons.prems painted_dims [OF p1] ks in auto)
    then show "runs (run_for (zip ks' ps) (png_decode_pass alloc pc src) s) (\<lambda>(im', pos').
        pos' = pos + sum_list (map (pass_bytes pc) (p # ps)) \<and>
        (\<exists>c. painted ?w ?h im (\<lambda>x y. \<exists>p \<in> set (p # ps). on_pass p x y) c im'))"
    proof (rule runs_weaken, clarify)
      fix im2 c2 assume p2: "painted ?w ?h im1 (\<lambda>x y. \<exists>p \<in> set ps. on_pass p x y) c2 im2"
      have "painted ?w ?h im (\<lambda>x y. \<exists>p \<in> set (p # ps). on_pass p x y)
          (\<lambda>x y. if \<exists>p \<in> set ps. on_pass p x y then c2 x y else c1 x y) im2"
        by (rule painted_trans [OF p1 p2]) auto
      then show "pos + pass_bytes pc p + sum_list (map (pass_bytes pc) ps) = pos + sum_list (map (pass_bytes pc) (p # ps)) \<and>
          (\<exists>c. painted ?w ?h im (\<lambda>x y. \<exists>p \<in> set (p # ps). on_pass p x y) c im2)"
        by auto
    qed
  qed
qed

text \<open>Rows and filter types that fit the passes of the decoder.\<close>

definition raw_ok :: "png_chunks \<Rightarrow> (png_pass \<Rightarrow> nat \<Rightarrow> nat) \<Rightarrow> (png_pass \<Rightarrow> bytes list) \<Rightarrow> png_pass \<Rightarrow> bool" where
  "raw_ok pc filts raw p \<longleftrightarrow> length (raw p) = pass_rows pc p \<and> rows_ok (pass_row_bytes pc p) (raw p) \<and>
     (\<forall>y < pass_rows pc p. filts p y \<le> 4)"

lemma bpp_pos: "0 < bpp pc"
  by (auto simp: png_filter_bpp_def Let_def div_greater_zero_iff Suc_le_eq intro: Nat.gr0I)

lemma passes_exact:
  assumes "ready pc" "\<And>n. alloc n" "\<forall>p \<in> set ps. pass_ok p \<and> raw_ok pc filts raw p"
    and "\<And>p x y. p \<in> set ps \<Longrightarrow> on_pass p x y \<Longrightarrow> c x y = pass_color pc (raw p) p x y"
  shows "dims (pc_width pc) (pc_height pc) im \<Longrightarrow> drop pos src = concat (map (\<lambda>p. filtered_rows (filts p) (bpp pc) (raw p)) ps) @ rest \<Longrightarrow>
    length ks = length ps \<Longrightarrow>
    \<exists>im'. run_for (zip ks ps) (png_decode_pass alloc pc src) (im, pos) =
        Ret (im', pos + sum_list (map (pass_bytes pc) ps)) \<and>
      painted (pc_width pc) (pc_height pc) im (\<lambda>x y. \<exists>p \<in> set ps. on_pass p x y) c im'"
  using assms(3,4)
proof (induction ps arbitrary: im pos ks)
  case Nil
  then show ?case by (auto intro: painted_none)
next
  case (Cons p ps)
  let ?w = "pc_width pc" and ?h = "pc_height pc" and ?n = "pass_row_bytes pc p"
  obtain k ks' where ks: "ks = k # ks'" using Cons.prems(3) by (cases ks) auto
  have p: "pass_ok p" "length (raw p) = pass_rows pc p" "rows_ok ?n (raw p)" "\<And>y. y < length (raw p) \<Longrightarrow> filts p y \<le> 4"
    using Cons.prems(4) by (simp_all add: raw_ok_def)
  have at: "drop pos src = filtered_rows (filts p) (bpp pc) (raw p) @ concat (map (\<lambda>p. filtered_rows (filts p) (bpp pc) (raw p)) ps) @ rest"
    using Cons.prems(2) by (simp only: list.map concat.simps append_assoc)
  note dp = decode_pass [OF assms(1) p(1) Cons.prems(1)]
  obtain im1 where st: "run_for [0..<pass_rows pc p] (store_line pc (pass_count ?w (fst p) (fst (snd (snd p)))) p (raw p)) im = Ret im1"
    and p1: "painted ?w ?h im (on_pass p) (pass_color pc (raw p) p) im1"
    using dp(3) [OF p(2,3)] by blast
  have d1: "png_decode_pass alloc pc src (k, p) (im, pos) = Ret (im1, pos + pass_bytes pc p)"
  proof (cases "pass_rows pc p = 0")
    case True
    with st dp(1) show ?thesis by (simp add: pass_bytes_rows)
  next
    case False
    have "unfilter_png (?n * pass_rows pc p) src pos ?n (pass_rows pc p) (bpp pc) = Ret (raw p)"
      using unfilter_filtered_rows [OF bpp_pos p(4,3) at] p(2) by simp
    with False show ?thesis by (simp add: dp(2) assms(2) require_def st)
  qed
  have "length (filtered_rows (filts p) (bpp pc) (raw p)) = pass_bytes pc p"
    by (simp add: length_filtered_rows [OF p(3)] p(2) pass_bytes_rows)
  then have "drop (pos + pass_bytes pc p) src = concat (map (\<lambda>p. filtered_rows (filts p) (bpp pc) (raw p)) ps) @ rest"
    using arg_cong [OF at, of "drop (pass_bytes pc p)"] by (simp add: add.commute)
  from Cons.IH [OF painted_dims [OF p1] this, of ks'] Cons.prems(3-5) ks
  obtain im2 where r2: "run_for (zip ks' ps) (png_decode_pass alloc pc src) (im1, pos + pass_bytes pc p) =
      Ret (im2, pos + pass_bytes pc p + sum_list (map (pass_bytes pc) ps))"
    and p2: "painted ?w ?h im1 (\<lambda>x y. \<exists>p \<in> set ps. on_pass p x y) c im2"
    by (auto simp: ac_simps)
  have "painted ?w ?h im (\<lambda>x y. \<exists>p \<in> set (p # ps). on_pass p x y) c im2"
    by (rule painted_trans [OF p1 p2]) (use Cons.prems(5) in auto)
  with d1 r2 show ?case by (simp add: ks add.assoc)
qed

section \<open>Chunks\<close>

definition be32_value :: "bytes \<Rightarrow> nat \<Rightarrow> u32" where
  "be32_value p i =
     push_bit 24 (ucast (p ! i)) OR push_bit 16 (ucast (p ! (i + 1))) OR push_bit 8 (ucast (p ! (i + 2))) OR ucast (p ! (i + 3))"

definition put_be32 :: "u32 \<Rightarrow> bytes" where
  "put_be32 v = [ucast (drop_bit 24 v), ucast (drop_bit 16 v), ucast (drop_bit 8 v), ucast v]"

lemma be32_Ret: "i + 4 \<le> length p \<Longrightarrow> be32 p i = Ret (be32_value p i)"
  by (simp add: be32_def be32_value_def)

interpretation png32: le_field 4 put_be32 be32_value
proof
  fix i :: nat and p :: bytes and v :: u32
  show "i + 4 \<le> length p \<Longrightarrow> be32_value p i = be32_value (take 4 (drop i p)) 0"
    by (simp add: be32_value_def take_drop_nth)
  show "be32_value (put_be32 v) 0 = v"
    using le32_join [of v] by (simp add: be32_value_def put_be32_def ac_simps)
qed (simp add: put_be32_def)

lemma known_copy: "length ys \<le> length xs \<Longrightarrow> n \<le> length ys \<Longrightarrow> known (map Some ys @ drop (length ys) xs) n"
  by (auto simp: known_def nth_append)

lemma png_start_ok: "chunks_ok png_start"
  by (simp add: chunks_ok_def png_start_def known_def)

lemma png_header_runs:
  assumes "chunk + 13 \<le> length data" "chunks_ok pc"
  shows "runs (png_header data chunk pc) chunks_ok"
  using assms
  by (auto simp: png_header_def be32_Ret Let_def chunks_ok_def depth_ok_def png_channels_def split: if_splits)

lemma png_chunk_runs:
  assumes "chunks_ok pc" "chunk + len \<le> length data"
  shows "runs (png_chunk alloc data kind chunk len pc) (\<lambda>(stop, n, pc'). chunks_ok pc')"
proof -
  consider (hdr) "kind = tag ''IHDR''" | (dat) "kind = tag ''IDAT''" | (pal) "kind = tag ''PLTE''" | (trns) "kind = tag ''tRNS''"
    | (other) "kind \<noteq> tag ''IHDR''" "kind \<noteq> tag ''IDAT''" "kind \<noteq> tag ''PLTE''" "kind \<noteq> tag ''tRNS''"
    by blast
  then show ?thesis
  proof cases
    case hdr
    have "runs (png_header data chunk pc) (\<lambda>pc. runs (Ret (False, len, pc)) (\<lambda>(stop, n, pc'). chunks_ok pc'))" if "len = 13"
      by (rule runs_weaken [OF png_header_runs]) (use assms that in auto)
    with hdr show ?thesis by (simp add: png_chunk_def)
  next
    case dat
    with assms show ?thesis by (auto simp: png_chunk_def tag_def append_idat_def chunks_ok_def)
  next
    case pal
    have "chunks_ok (pc\<lparr>pc_palette := map Some (take len (drop chunk data)) @ drop len (pc_palette pc), pc_palette_entries := len div 3\<rparr>)"
      if "len \<le> 768"
      using known_copy [of "take len (drop chunk data)" "pc_palette pc" "3 * (len div 3)"] assms that
      by (simp add: chunks_ok_def)
    with pal assms show ?thesis by (auto simp: png_chunk_def tag_def copy_to_def chunks_ok_def [of pc])
  next
    case trns
    let ?n = "min len 256"
    have l: "length (take ?n (drop chunk data)) = ?n" using assms(2) by simp
    have "chunks_ok (pc\<lparr>pc_trns := map Some (take ?n (drop chunk data)) @ drop ?n (pc_trns pc), pc_trns_entries := ?n\<rparr>)"
      using known_copy [of "take ?n (drop chunk data)" "pc_trns pc" ?n, unfolded l] assms
      by (simp add: chunks_ok_def)
    with trns assms l show ?thesis by (simp add: png_chunk_def tag_def copy_to_def chunks_ok_def [of pc] Let_def)
  next
    case other
    with assms show ?thesis by (simp add: png_chunk_def)
  qed
qed

lemma png_chunk_loop_runs: "chunks_ok pc \<Longrightarrow> runs (png_chunk_loop alloc data pos pc) chunks_ok"
proof (induction alloc data pos pc rule: png_chunk_loop.induct)
  case (1 alloc data pos pc)
  show ?case
  proof (cases "pos + 12 \<le> length data")
    case True
    let ?len = "unat (be32_value data pos)" and ?kind = "take 4 (drop (pos + 4) data)"
    have b: "be32 data pos = Ret (be32_value data pos)" "rd_range data (pos + 4) 4 = Ret ?kind"
      using True by (simp_all add: be32_Ret del: take_drop)
    have "runs (png_chunk alloc data ?kind (pos + 8) ?len pc) (\<lambda>x. runs (case x of (stop, n, pc') \<Rightarrow>
        if stop then Ret pc' else png_chunk_loop alloc data (pos + 8 + (n + 4)) pc') chunks_ok)"
      if g: "?len \<le> length data - (pos + 8) \<and> ?len \<le> PNG_MAX_FILE_BYTES"
    proof -
      have "pos + 8 + ?len \<le> length data" using g True by linarith
      from png_chunk_runs [OF "1.prems" this, of alloc ?kind]
      show ?thesis
      proof (cases "png_chunk alloc data ?kind (pos + 8) ?len pc")
        case (Ret r)
        obtain stop n pc' where r: "r = (stop, n, pc')" by (metis surj_pair)
        have "chunks_ok pc'" using png_chunk_runs [OF "1.prems" \<open>pos + 8 + ?len \<le> length data\<close>, of alloc ?kind] Ret r by simp
        then show ?thesis using Ret r "1.IH" [OF True b g Ret r [symmetric]] by simp
      qed auto
    qed
    then show ?thesis
      unfolding png_chunk_loop.simps [of alloc data pos] b run_bind.simps if_P [OF True] runs_require runs_bind
      by (intro impI)
  next
    case False
    with "1.prems" show ?thesis by (simp add: png_chunk_loop.simps)
  qed
qed

section \<open>Safety\<close>

definition image_ok :: "png_image \<Rightarrow> bool" where
  "image_ok im \<longleftrightarrow> 0 < im_width im \<and> 0 < im_height im \<and> im_width im * im_height im \<le> PNG_MAX_PIXELS \<and>
     dims (im_width im) (im_height im) im \<and> None \<notin> set (im_pixels im) \<and> None \<notin> set (im_alpha im)"

lemma painted_all:
  assumes "painted w h im P c im'" "\<And>x y. P x y"
  shows "None \<notin> set (im_pixels im')" "None \<notin> set (im_alpha im')"
proof -
  have d: "length (im_pixels im') = w * h" "length (im_alpha im') = w * h"
    using painted_dims [OF assms(1)] by (simp_all add: dims_def)
  have "im_pixels im' ! j \<noteq> None \<and> im_alpha im' ! j \<noteq> None" if "j < w * h" for j
  proof -
    have w: "0 < w" using that by (cases w) auto
    have "j mod w < w" "j div w < h" using w that by (simp_all add: less_mult_imp_div_less mult.commute)
    then have "pixel_at w im' (j mod w) (j div w) = shade (c (j mod w) (j div w))"
      using assms by (simp add: painted_def)
    then show ?thesis by (cases "c (j mod w) (j div w)") (simp add: pixel_at_def)
  qed
  then show "None \<notin> set (im_pixels im')" "None \<notin> set (im_alpha im')" using d by (metis in_set_conv_nth)+
qed

lemma png_decode_image_runs:
  assumes "chunks_ok pc"
  shows "runs (png_decode_image uncompress alloc pc) image_ok"
proof (cases "pc_width pc = 0")
  case True
  then show ?thesis by (simp add: png_decode_image_def)
next
  case False
  let ?w = "pc_width pc" and ?h = "pc_height pc" and ?i = "pc_interlace pc"
  let ?n = "?w * ?h"
  let ?im = "\<lparr>im_width = 0, im_height = 0, im_pixels = replicate ?n None, im_alpha = replicate ?n None\<rparr>"
  have r: "ready pc" using assms False by (simp add: ready_def)
  have "runs (run_for (zip [0..<length (png_passes ?i)] (png_passes ?i)) (png_decode_pass alloc pc inflated) (?im, 0))
      (\<lambda>x. runs (case x of (im, src_pos) \<Rightarrow> require (src_pos = png_inflated_size pc)
        (Ret (im\<lparr>im_width := ?w, im_height := ?h\<rparr>))) image_ok)"
    if len: "length inflated = png_inflated_size pc" for inflated
  proof (rule runs_weaken [OF passes_runs [OF r]])
    show "\<forall>p \<in> set (png_passes ?i). pass_ok p" using png_passes_ok by blast
    show "dims ?w ?h ?im" by (simp add: dims_def)
    show "0 + sum_list (map (pass_bytes pc) (png_passes ?i)) \<le> length inflated" using len by (simp add: inflated_size [OF r])
    fix x assume x: "case x of (im', pos') \<Rightarrow> pos' = 0 + sum_list (map (pass_bytes pc) (png_passes ?i)) \<and>
        (\<exists>c. painted ?w ?h ?im (\<lambda>x y. \<exists>p \<in> set (png_passes ?i). on_pass p x y) c im')"
    obtain im' pos' c where x': "x = (im', pos')"
      and p: "painted ?w ?h ?im (\<lambda>x y. \<exists>p \<in> set (png_passes ?i). on_pass p x y) c im'"
      using x by (cases x) auto
    have "\<exists>p \<in> set (png_passes ?i). on_pass p x y" for x y using pass_of(1,2) [of ?i x y] by blast
    with painted_all [OF p] painted_dims [OF p] r
    have "image_ok (im'\<lparr>im_width := ?w, im_height := ?h\<rparr>)"
      by (simp add: image_ok_def dims_def ready_def chunks_ok_def)
    then show "runs (case x of (im, src_pos) \<Rightarrow> require (src_pos = png_inflated_size pc)
        (Ret (im\<lparr>im_width := ?w, im_height := ?h\<rparr>))) image_ok" by (simp add: x')
  qed simp
  then show ?thesis by (auto simp: png_decode_image_def Let_def split: option.split)
qed

lemma read_file_runs: "runs (read_file alloc file) (\<lambda>data. length data \<le> PNG_MAX_FILE_BYTES)"
  by (auto simp: read_file_def split: option.split prod.split)

lemma png_load_runs: "runs (png_load uncompress alloc fp) image_ok"
proof -
  have "runs (png_chunk_loop alloc data 8 png_start) (\<lambda>pc. runs (png_decode_image uncompress alloc pc) image_ok)" for data
    by (rule runs_weaken [OF png_chunk_loop_runs [OF png_start_ok]]) (rule png_decode_image_runs)
  then show ?thesis
    unfolding png_load_def runs_bind by (intro runs_weaken [OF read_file_runs]) simp
qed

text \<open>
  C8.  Loading a picture is safe for every file: whatever bytes it has, whatever \<open>uncompress\<close> returns and
  whichever calls and allocations fail, the decoder stays inside its buffers and never uses memory
  that was not written.  It either reports success with an image of a permitted size in which every pixel
  has a colour and an alpha value, or reports failure with an empty image.
\<close>

theorem png_load_safe:
  "runs (unifrog_png_load_file uncompress alloc fp)
     (\<lambda>(ret, im). ret = 0 \<and> image_ok im \<or> ret = -1 \<and> im = png_empty)"
  using png_load_runs [of uncompress alloc fp]
  by (cases "png_load uncompress alloc fp") (simp_all add: unifrog_png_load_file_def unifrog_png_free_def)

section \<open>Files of an encoder\<close>

text \<open>A file as the PNG standard describes it; the check sums are arbitrary, as the decoder skips them.\<close>

record picture =
  pic_width :: nat
  pic_height :: nat
  pic_depth :: nat
  pic_color :: nat
  pic_interlace :: nat
  pic_palette :: bytes
  pic_trns :: bytes
  pic_idat :: "bytes list"

definition chunk :: "(bytes \<Rightarrow> bytes) \<Rightarrow> string \<Rightarrow> bytes \<Rightarrow> bytes" where
  "chunk crc kind d = put_be32 (word_of_nat (length d)) @ tag kind @ d @ crc d"

definition header_data :: "picture \<Rightarrow> bytes" where
  "header_data pic = put_be32 (word_of_nat (pic_width pic)) @ put_be32 (word_of_nat (pic_height pic)) @
     [word_of_nat (pic_depth pic), word_of_nat (pic_color pic), 0, 0, word_of_nat (pic_interlace pic)]"

definition png_file :: "(bytes \<Rightarrow> bytes) \<Rightarrow> picture \<Rightarrow> bytes" where
  "png_file crc pic = [137, 80, 78, 71, 13, 10, 26, 10] @ chunk crc ''IHDR'' (header_data pic) @
     (if pic_palette pic = [] then [] else chunk crc ''PLTE'' (pic_palette pic)) @
     (if pic_trns pic = [] then [] else chunk crc ''tRNS'' (pic_trns pic)) @
     concat (map (chunk crc ''IDAT'') (pic_idat pic)) @ chunk crc ''IEND'' []"

definition picture_ok :: "picture \<Rightarrow> bool" where
  "picture_ok pic \<longleftrightarrow> pic_width pic \<noteq> 0 \<and> pic_height pic \<noteq> 0 \<and> pic_width pic * pic_height pic \<le> 640 * 480 \<and>
     depth_ok (pic_color pic) (pic_depth pic) \<and> pic_interlace pic \<le> 1 \<and>
     length (pic_palette pic) \<le> 768 \<and> length (pic_palette pic) mod 3 = 0 \<and> (pic_color pic = 3 \<longrightarrow> pic_palette pic \<noteq> []) \<and>
     length (pic_trns pic) \<le> 256 \<and> concat (pic_idat pic) \<noteq> []"

text \<open>What the decoder knows after reading the chunks.\<close>

definition described :: "picture \<Rightarrow> png_chunks" where
  "described pic = \<lparr>pc_width = pic_width pic, pc_height = pic_height pic, pc_depth = pic_depth pic, pc_color = pic_color pic,
     pc_interlace = pic_interlace pic,
     pc_palette = map Some (pic_palette pic) @ replicate (768 - length (pic_palette pic)) None,
     pc_palette_entries = length (pic_palette pic) div 3,
     pc_trns = map Some (pic_trns pic) @ replicate (256 - length (pic_trns pic)) None,
     pc_trns_entries = length (pic_trns pic), pc_idat = concat (pic_idat pic), pc_appends = length (pic_idat pic)\<rparr>"

lemma length_chunk: "length kind = 4 \<Longrightarrow> length (crc d) = 4 \<Longrightarrow> length (chunk crc kind d) = length d + 12"
  by (simp add: chunk_def tag_def)

lemma chunk_loop_step:
  assumes data: "data = pre @ chunk crc kind d @ rest" and "length kind = 4" "length (crc d) = 4" "length d \<le> PNG_MAX_FILE_BYTES"
  shows "png_chunk_loop alloc data (length pre) pc =
    run_bind (png_chunk alloc data (tag kind) (length pre + 8) (length d) pc) (\<lambda>(stop, n, pc).
      if stop then Ret pc else png_chunk_loop alloc data (length pre + 8 + (n + 4)) pc)"
proof -
  have l: "length data = length pre + length d + 12 + length rest" using assms by (simp add: length_chunk)
  have "length d < 2 ^ 32" using assms(4) by (simp add: PNG_MAX_FILE_BYTES_def)
  then have u: "unat (word_of_nat (length d) :: u32) = length d" by (simp add: unat_of_nat)
  have "be32_value data (length pre) = word_of_nat (length d)"
    unfolding data chunk_def append_assoc by (rule png32.get_at) simp
  then have b: "be32 data (length pre) = Ret (word_of_nat (length d))" using l by (simp add: be32_Ret)
  have "take 4 (drop (length pre + 4) data) = tag kind"
    using assms(2) by (simp add: data chunk_def tag_def)
  then have k: "rd_range data (length pre + 4) 4 = Ret (tag kind)" using l by (simp del: take_drop)
  have g: "length pre + 12 \<le> length data" "length d \<le> length data - (length pre + 8)" using l by simp_all
  show ?thesis
    by (subst png_chunk_loop.simps) (simp add: g b k u assms(4) require_def)
qed

lemma chunk_data: "data = pre @ chunk crc kind d @ rest \<Longrightarrow> length kind = 4 \<Longrightarrow> length (crc d) = 4 \<Longrightarrow>
    length pre + 8 + length d \<le> length data \<and> take (length d) (drop (length pre + 8) data) = d"
  by (simp add: chunk_def tag_def)

definition with_header :: "picture \<Rightarrow> png_chunks \<Rightarrow> png_chunks" where
  "with_header pic pc = pc\<lparr>pc_width := pic_width pic, pc_height := pic_height pic, pc_depth := pic_depth pic,
     pc_color := pic_color pic, pc_interlace := pic_interlace pic\<rparr>"

lemma picture_fits:
  assumes "picture_ok pic"
  shows "unat (word_of_nat (pic_width pic) :: u32) = pic_width pic" "unat (word_of_nat (pic_height pic) :: u32) = pic_height pic"
    "unat (word_of_nat (pic_depth pic) :: u8) = pic_depth pic" "unat (word_of_nat (pic_color pic) :: u8) = pic_color pic"
    "unat (word_of_nat (pic_interlace pic) :: u8) = pic_interlace pic"
proof -
  have "pic_width pic * 1 \<le> pic_width pic * pic_height pic" "1 * pic_height pic \<le> pic_width pic * pic_height pic"
    using assms by (intro mult_le_mono; simp add: picture_ok_def)+
  moreover have "pic_width pic * pic_height pic \<le> 307200" using assms by (simp add: picture_ok_def PNG_MAX_PIXELS_def)
  ultimately have m: "pic_width pic \<le> 307200" "pic_height pic \<le> 307200" by linarith+
  then have "pic_width pic < 2 ^ 32" "pic_height pic < 2 ^ 32"
    using m by simp_all
  then show "unat (word_of_nat (pic_width pic) :: u32) = pic_width pic" "unat (word_of_nat (pic_height pic) :: u32) = pic_height pic"
    by (simp_all add: unat_of_nat)
  show "unat (word_of_nat (pic_depth pic) :: u8) = pic_depth pic" "unat (word_of_nat (pic_color pic) :: u8) = pic_color pic"
    "unat (word_of_nat (pic_interlace pic) :: u8) = pic_interlace pic"
    using assms by (auto simp: picture_ok_def depth_ok_def unat_of_nat)
qed

lemma header_read:
  assumes "picture_ok pic" "take 13 (drop i data) = header_data pic" "i + 13 \<le> length data"
  shows "png_header data i pc = Ret (with_header pic pc)"
proof -
  have at: "data ! (i + k) = header_data pic ! k" if "k < 13" for k
    using arg_cong [OF assms(2), of "\<lambda>l. l ! k"] that assms(3) by simp
  have v: "be32_value data i = be32_value (header_data pic) 0" "be32_value data (i + 4) = be32_value (header_data pic) 4"
    using at [of 0] at [of 1] at [of 2] at [of 3] at [of 4] at [of 5] at [of 6] at [of 7]
    by (simp_all add: be32_value_def eval_nat_numeral)
  have w: "be32_value (header_data pic) 0 = word_of_nat (pic_width pic)"
    unfolding header_data_def by (rule png32.get_here)
  have h: "be32_value (header_data pic) 4 = word_of_nat (pic_height pic)"
    unfolding header_data_def by (rule png32.get_at) simp
  have b: "data ! (i + 8) = word_of_nat (pic_depth pic)" "data ! (i + 9) = word_of_nat (pic_color pic)"
    "data ! (i + 10) = 0" "data ! (i + 11) = 0" "data ! (i + 12) = word_of_nat (pic_interlace pic)"
    by (simp_all add: at header_data_def nth_append)
  have c: "png_channels (pic_color pic) \<noteq> 0" using assms(1) by (auto simp: picture_ok_def depth_ok_def png_channels_def)
  have d: "\<not> ((pic_color pic = 0 \<or> pic_color pic = 3) \<and> pic_depth pic \<noteq> 1 \<and> pic_depth pic \<noteq> 2 \<and> pic_depth pic \<noteq> 4 \<and> pic_depth pic \<noteq> 8)"
    "\<not> ((pic_color pic = 2 \<or> pic_color pic = 4 \<or> pic_color pic = 6) \<and> pic_depth pic \<noteq> 8)"
    using assms(1) by (auto simp: picture_ok_def depth_ok_def)
  have g: "\<not> (pic_width pic = 0 \<or> pic_height pic = 0 \<or> pic_width pic * pic_height pic > PNG_MAX_PIXELS \<or> (0 :: u8) \<noteq> 0 \<or>
      (0 :: u8) \<noteq> 0 \<or> pic_interlace pic > 1)"
    using assms(1) by (auto simp: picture_ok_def PNG_MAX_PIXELS_def)
  have r: "be32 data i = Ret (word_of_nat (pic_width pic))" "be32 data (i + 4) = Ret (word_of_nat (pic_height pic))"
    "rd data (i + 8) = Ret (word_of_nat (pic_depth pic))" "rd data (i + 9) = Ret (word_of_nat (pic_color pic))"
    "rd data (i + 10) = Ret 0" "rd data (i + 11) = Ret 0" "rd data (i + 12) = Ret (word_of_nat (pic_interlace pic))"
    using assms(3) v w h b by (simp_all add: be32_Ret)
  show ?thesis
    unfolding png_header_def r run_bind.simps picture_fits [OF assms(1)] Let_def require_def if_P [OF g] if_P [OF c] if_P [OF d(1)]
      if_P [OF d(2)] with_header_def ..
qed

lemma loop_header:
  assumes "picture_ok pic" "data = pre @ chunk crc ''IHDR'' (header_data pic) @ rest" "\<And>d. length (crc d) = 4"
  shows "png_chunk_loop alloc data (length pre) pc =
    png_chunk_loop alloc data (length (pre @ chunk crc ''IHDR'' (header_data pic))) (with_header pic pc)"
proof -
  have l: "length (header_data pic) = 13" by (simp add: header_data_def)
  have m: "length (header_data pic) \<le> PNG_MAX_FILE_BYTES" by (simp add: l PNG_MAX_FILE_BYTES_def)
  note cd = chunk_data [OF assms(2) _ assms(3), unfolded l, simplified]
  have "png_header data (length pre + 8) pc = Ret (with_header pic pc)"
    by (rule header_read [OF assms(1)]) (use cd in simp_all)
  then have "png_chunk alloc data (tag ''IHDR'') (length pre + 8) (length (header_data pic)) pc = Ret (False, 13, with_header pic pc)"
    by (simp add: png_chunk_def l require_def)
  then show ?thesis
    using chunk_loop_step [OF assms(2) _ assms(3) m, of alloc pc] assms(3) by (simp add: length_chunk l add.commute)
qed

lemma loop_palette:
  assumes "data = pre @ chunk crc ''PLTE'' d @ rest" "\<And>d. length (crc d) = 4" "d \<noteq> []" "length d \<le> 768" "length d mod 3 = 0"
    "length (pc_palette pc) = 768"
  shows "png_chunk_loop alloc data (length pre) pc =
    png_chunk_loop alloc data (length (pre @ chunk crc ''PLTE'' d))
      (pc\<lparr>pc_palette := map Some d @ drop (length d) (pc_palette pc), pc_palette_entries := length d div 3\<rparr>)"
proof -
  have m: "length d \<le> PNG_MAX_FILE_BYTES" using assms(4) by (simp add: PNG_MAX_FILE_BYTES_def)
  note cd = chunk_data [OF assms(1) _ assms(2), simplified]
  have "rd_range data (length pre + 8) (length d) = Ret d" using cd by simp
  then have "png_chunk alloc data (tag ''PLTE'') (length pre + 8) (length d) pc = Ret (False, length d,
      pc\<lparr>pc_palette := map Some d @ drop (length d) (pc_palette pc), pc_palette_entries := length d div 3\<rparr>)"
    using assms(3-6) by (simp add: png_chunk_def tag_def require_def copy_to_def defined_def)
  then show ?thesis
    using chunk_loop_step [OF assms(1) _ assms(2) m, of alloc pc] assms(2) by (simp add: length_chunk ac_simps)
qed

lemma loop_trns:
  assumes "data = pre @ chunk crc ''tRNS'' d @ rest" "\<And>d. length (crc d) = 4" "length d \<le> 256" "length (pc_trns pc) = 256"
  shows "png_chunk_loop alloc data (length pre) pc =
    png_chunk_loop alloc data (length (pre @ chunk crc ''tRNS'' d))
      (pc\<lparr>pc_trns := map Some d @ drop (length d) (pc_trns pc), pc_trns_entries := length d\<rparr>)"
proof -
  have m: "length d \<le> PNG_MAX_FILE_BYTES" "min (length d) 256 = length d" using assms(3) by (simp_all add: PNG_MAX_FILE_BYTES_def)
  note cd = chunk_data [OF assms(1) _ assms(2), simplified]
  have "rd_range data (length pre + 8) (length d) = Ret d" using cd by simp
  then have "png_chunk alloc data (tag ''tRNS'') (length pre + 8) (length d) pc = Ret (False, length d,
      pc\<lparr>pc_trns := map Some d @ drop (length d) (pc_trns pc), pc_trns_entries := length d\<rparr>)"
    using assms(3,4) by (simp add: png_chunk_def tag_def copy_to_def defined_def m(2) Let_def)
  then show ?thesis
    using chunk_loop_step [OF assms(1) _ assms(2) m(1), of alloc pc] assms(2) by (simp add: length_chunk ac_simps)
qed

lemma loop_idats:
  assumes "\<And>d. length (crc d) = 4" "\<And>n. alloc n"
  shows "data = pre @ concat (map (chunk crc ''IDAT'') ds) @ rest \<Longrightarrow> length (concat ds) \<le> PNG_MAX_FILE_BYTES \<Longrightarrow>
    png_chunk_loop alloc data (length pre) pc = png_chunk_loop alloc data (length (pre @ concat (map (chunk crc ''IDAT'') ds)))
      (pc\<lparr>pc_idat := pc_idat pc @ concat ds, pc_appends := pc_appends pc + length ds\<rparr>)"
proof (induction ds arbitrary: pre pc)
  case (Cons d ds)
  have data: "data = pre @ chunk crc ''IDAT'' d @ (concat (map (chunk crc ''IDAT'') ds) @ rest)" using Cons.prems(1) by simp
  have m: "length d \<le> PNG_MAX_FILE_BYTES" using Cons.prems(2) by simp
  note cd = chunk_data [OF data _ assms(1), simplified]
  have "rd_range data (length pre + 8) (length d) = Ret d" using cd by simp
  then have "png_chunk alloc data (tag ''IDAT'') (length pre + 8) (length d) pc = Ret (False, length d,
      pc\<lparr>pc_idat := pc_idat pc @ d, pc_appends := pc_appends pc + 1\<rparr>)"
    by (simp add: png_chunk_def tag_def append_idat_def require_def defined_def assms(2))
  then have "png_chunk_loop alloc data (length pre) pc = png_chunk_loop alloc data (length (pre @ chunk crc ''IDAT'' d))
      (pc\<lparr>pc_idat := pc_idat pc @ d, pc_appends := pc_appends pc + 1\<rparr>)"
    using chunk_loop_step [OF data _ assms(1) m, of alloc pc] assms(1) by (simp add: length_chunk ac_simps)
  also have "\<dots> = png_chunk_loop alloc data (length ((pre @ chunk crc ''IDAT'' d) @ concat (map (chunk crc ''IDAT'') ds)))
      (pc\<lparr>pc_idat := pc_idat pc @ concat (d # ds), pc_appends := pc_appends pc + length (d # ds)\<rparr>)"
    using Cons.IH [of "pre @ chunk crc ''IDAT'' d" "pc\<lparr>pc_idat := pc_idat pc @ d, pc_appends := pc_appends pc + 1\<rparr>"] Cons.prems
    by (simp add: ac_simps)
  finally show ?case by simp
qed simp

lemma loop_end:
  assumes "data = pre @ chunk crc ''IEND'' [] @ rest" "\<And>d. length (crc d) = 4"
  shows "png_chunk_loop alloc data (length pre) pc = Ret pc"
proof -
  have "png_chunk alloc data (tag ''IEND'') (length pre + 8) 0 pc = Ret (True, 0, pc)" by (simp add: png_chunk_def tag_def)
  then show ?thesis using chunk_loop_step [OF assms(1) _ assms(2), of alloc pc] by simp
qed

lemma loop_file:
  assumes "picture_ok pic" "\<And>d. length (crc d) = 4" "\<And>n. alloc n" "length (png_file crc pic) \<le> PNG_MAX_FILE_BYTES"
  shows "png_chunk_loop alloc (png_file crc pic) 8 png_start = Ret (described pic)"
proof -
  let ?d = "png_file crc pic"
  define pal where "pal = (if pic_palette pic = [] then [] else chunk crc ''PLTE'' (pic_palette pic))"
  define tr where "tr = (if pic_trns pic = [] then [] else chunk crc ''tRNS'' (pic_trns pic))"
  define ids where "ids = concat (map (chunk crc ''IDAT'') (pic_idat pic))"
  define h where "h = png_signature @ chunk crc ''IHDR'' (header_data pic)"
  have d: "?d = h @ pal @ tr @ ids @ chunk crc ''IEND'' [] @ []" by (simp add: png_file_def h_def pal_def tr_def ids_def png_signature_def)
  have e0: "?d = png_signature @ chunk crc ''IHDR'' (header_data pic) @ (pal @ tr @ ids @ chunk crc ''IEND'' [])"
    using d by (simp add: h_def)
  have sig: "length png_signature = 8" by (simp add: png_signature_def)
  let ?p0 = "with_header pic png_start"
  let ?p1 = "?p0\<lparr>pc_palette := map Some (pic_palette pic) @ replicate (768 - length (pic_palette pic)) None,
    pc_palette_entries := length (pic_palette pic) div 3\<rparr>"
  let ?p2 = "?p1\<lparr>pc_trns := map Some (pic_trns pic) @ replicate (256 - length (pic_trns pic)) None,
    pc_trns_entries := length (pic_trns pic)\<rparr>"
  have "png_chunk_loop alloc ?d 8 png_start = png_chunk_loop alloc ?d (length h) ?p0"
    using loop_header [OF assms(1) e0 assms(2), of alloc png_start] unfolding h_def sig .
  also have "\<dots> = png_chunk_loop alloc ?d (length (h @ pal)) ?p1"
  proof (cases "pic_palette pic = []")
    case True
    then show ?thesis by (simp add: pal_def with_header_def png_start_def)
  next
    case False
    have "?d = h @ chunk crc ''PLTE'' (pic_palette pic) @ (tr @ ids @ chunk crc ''IEND'' [])" using d False by (simp add: pal_def)
    from loop_palette [OF this assms(2) False, of ?p0 alloc] assms(1) False show ?thesis
      by (simp add: pal_def picture_ok_def with_header_def png_start_def)
  qed
  also have "\<dots> = png_chunk_loop alloc ?d (length (h @ pal @ tr)) ?p2"
  proof (cases "pic_trns pic = []")
    case True
    then show ?thesis by (simp add: tr_def with_header_def png_start_def)
  next
    case False
    have "?d = (h @ pal) @ chunk crc ''tRNS'' (pic_trns pic) @ (ids @ chunk crc ''IEND'' [])" using d False by (simp add: tr_def)
    from loop_trns [OF this assms(2), of ?p1 alloc] assms(1) False show ?thesis
      by (simp add: tr_def picture_ok_def with_header_def png_start_def)
  qed
  also have "\<dots> = png_chunk_loop alloc ?d (length (h @ pal @ tr @ ids)) (described pic)"
  proof -
    have e: "?d = (h @ pal @ tr) @ concat (map (chunk crc ''IDAT'') (pic_idat pic)) @ chunk crc ''IEND'' []"
      using d by (simp add: ids_def)
    have "length (concat ds) \<le> length (concat (map (chunk crc ''IDAT'') ds))" for ds
      by (induction ds) (simp_all add: length_chunk assms(2))
    from this [of "pic_idat pic"] have "length (concat (pic_idat pic)) \<le> PNG_MAX_FILE_BYTES" using assms(4) d ids_def by simp
    from loop_idats [where alloc = alloc and crc = crc and pc = ?p2, OF assms(2,3) e this] show ?thesis
      by (simp add: ids_def described_def with_header_def png_start_def)
  qed
  also have "\<dots> = Ret (described pic)"
    using loop_end [of ?d "h @ pal @ tr @ ids" crc "[]" alloc "described pic"] d assms(2) by simp
  finally show ?thesis .
qed

lemma described_ready: "picture_ok pic \<Longrightarrow> ready (described pic)"
  by (auto simp: ready_def chunks_ok_def described_def picture_ok_def known_def nth_append PNG_MAX_PIXELS_def)

lemma read_healthy:
  assumes "0 < length d" "length d \<le> PNG_MAX_FILE_BYTES" "\<And>n. alloc n"
  shows "read_file alloc (Some (healthy d 0)) = Ret d"
  using assms by (simp add: read_file_def require_def PNG_MAX_FILE_BYTES_def LONG_MAX_def)

section \<open>The encoder\<close>

text \<open>
  The encoder of the PNG standard, written from the standard's own tables and formulas.  A picture is
  given by its samples: \<open>px x y k\<close> is sample \<open>k\<close> of the pixel in column \<open>x\<close> and row \<open>y\<close>.  An
  interlaced picture is sent in seven passes; the pattern says which pass holds a pixel and is repeated
  every eight columns and rows.
\<close>

definition adam7_pattern :: "nat list list" where
  "adam7_pattern =
     [[1, 6, 4, 6, 2, 6, 4, 6],
      [7, 7, 7, 7, 7, 7, 7, 7],
      [5, 6, 5, 6, 5, 6, 5, 6],
      [7, 7, 7, 7, 7, 7, 7, 7],
      [3, 6, 4, 6, 3, 6, 4, 6],
      [7, 7, 7, 7, 7, 7, 7, 7],
      [5, 6, 5, 6, 5, 6, 5, 6],
      [7, 7, 7, 7, 7, 7, 7, 7]]"

definition pass_number :: "nat \<Rightarrow> nat \<Rightarrow> nat \<Rightarrow> nat" where
  "pass_number interlace x y = (if interlace = 0 then 1 else adam7_pattern ! (y mod 8) ! (x mod 8))"

definition pass_columns :: "picture \<Rightarrow> nat \<Rightarrow> nat \<Rightarrow> nat list" where
  "pass_columns pic k y = filter (\<lambda>x. pass_number (pic_interlace pic) x y = k) [0..<pic_width pic]"

definition pass_lines :: "picture \<Rightarrow> nat \<Rightarrow> nat list" where
  "pass_lines pic k = filter (\<lambda>y. pass_columns pic k y \<noteq> []) [0..<pic_height pic]"

text \<open>
  Samples of a pixel by colour type, and the distance of a byte to its left neighbour in a filter: the
  number of whole bytes of a pixel, at least one.
\<close>

definition samples_per_pixel :: "picture \<Rightarrow> nat" where
  "samples_per_pixel pic = the (map_of [(0, 1), (2, 3), (3, 1), (4, 2), (6, 4)] (pic_color pic))"

definition filter_distance :: "picture \<Rightarrow> nat" where
  "filter_distance pic = max 1 (samples_per_pixel pic * pic_depth pic div 8)"

text \<open>
  The row \<open>y\<close> of a pass: the samples of its pixels one after the other, in as few bytes as hold them.
  The bits that are left over are arbitrary.
\<close>

definition row_encodes :: "picture \<Rightarrow> (nat \<Rightarrow> nat \<Rightarrow> nat \<Rightarrow> nat) \<Rightarrow> nat list \<Rightarrow> nat \<Rightarrow> bytes \<Rightarrow> bool" where
  "row_encodes pic px columns y row \<longleftrightarrow>
     length row = (length columns * samples_per_pixel pic * pic_depth pic + 7) div 8 \<and>
     (\<forall>j < length columns. \<forall>k < samples_per_pixel pic.
        sample row (pic_depth pic) (j * samples_per_pixel pic + k) = px (columns ! j) y k)"

definition encodes ::
  "picture \<Rightarrow> (nat \<Rightarrow> nat \<Rightarrow> nat \<Rightarrow> nat) \<Rightarrow> (nat \<Rightarrow> nat \<Rightarrow> nat) \<Rightarrow> (nat \<Rightarrow> bytes list) \<Rightarrow> bool" where
  "encodes pic px filts raw \<longleftrightarrow>
     (\<forall>k \<in> {1..7}. list_all2 (\<lambda>y row. row_encodes pic px (pass_columns pic k y) y row) (pass_lines pic k) (raw k)) \<and>
     (\<forall>k y. filts k y \<le> 4)"

definition picture_stream :: "picture \<Rightarrow> (nat \<Rightarrow> nat \<Rightarrow> nat) \<Rightarrow> (nat \<Rightarrow> bytes list) \<Rightarrow> bytes" where
  "picture_stream pic filts raw = concat (map (\<lambda>k. filtered_rows (filts k) (filter_distance pic) (raw k)) [1..<8])"

text \<open>
  The colour and alpha of a pixel with the samples \<open>s\<close>.  A grey value is stretched to eight bits; a grey
  value or colour that equals the one in \<open>tRNS\<close> (two bytes for each sample) is transparent; an index
  selects three bytes of the palette and a byte of \<open>tRNS\<close>, and one without entry is black.
\<close>

definition picture_color :: "picture \<Rightarrow> (nat \<Rightarrow> nat) \<Rightarrow> u8 \<times> u8 \<times> u8 \<times> u8" where
  "picture_color pic s =
     (let v = (\<lambda>k. word_of_nat (s k)); t = pic_trns pic; pal = pic_palette pic
      in if pic_color pic = 0 then
           (let g = word_of_nat (s 0 * 255 div (2 ^ pic_depth pic - 1))
            in (g, g, g, if 2 \<le> length t \<and> s 0 = 256 * unat (t ! 0) + unat (t ! 1) then 0 else 255))
         else if pic_color pic = 2 then
           (v 0, v 1, v 2,
            if 6 \<le> length t \<and> s 0 = unat (t ! 1) \<and> s 1 = unat (t ! 3) \<and> s 2 = unat (t ! 5) then 0 else 255)
         else if pic_color pic = 3 then
           (if 3 * s 0 + 2 < length pal
            then (pal ! (3 * s 0), pal ! (3 * s 0 + 1), pal ! (3 * s 0 + 2), if s 0 < length t then t ! s 0 else 255)
            else (0, 0, 0, 255))
         else if pic_color pic = 4 then (v 0, v 0, v 0, v 1)
         else (v 0, v 1, v 2, v 3))"

text \<open>The decoder's parameters are those of the standard.\<close>

lemma channels_standard:
  assumes "picture_ok pic"
  shows "png_channels (pic_color pic) = samples_per_pixel pic"
  using assms by (auto simp: picture_ok_def depth_ok_def png_channels_def samples_per_pixel_def)

lemma distance_standard: "picture_ok pic \<Longrightarrow> png_filter_bpp (pic_color pic) (pic_depth pic) = filter_distance pic"
  by (auto simp: picture_ok_def depth_ok_def png_filter_bpp_def png_channels_def filter_distance_def samples_per_pixel_def)

lemma scale_standard:
  assumes "d \<in> {1, 2, 4, 8}" "s < 2 ^ d"
  shows "scale_sample s d = word_of_nat (s * 255 div (2 ^ d - 1))"
proof -
  have "(3 * (85 * s) + 1) div 3 = 85 * s" "(15 * (17 * s) + 7) div 15 = 17 * s" by simp_all
  moreover have "s * 255 = 3 * (85 * s)" "s * 255 = 15 * (17 * s)" by simp_all
  ultimately have "(s * 255 + 1) div 3 = s * 255 div 3" "(s * 255 + 7) div 15 = s * 255 div 15"
    by (metis nonzero_mult_div_cancel_left zero_neq_numeral)+
  with assms show ?thesis by (auto simp: scale_sample_def)
qed

lemma row_color_picture:
  assumes ok: "picture_ok pic"
    and px: "\<And>k. k < samples_per_pixel pic \<Longrightarrow> sample row (pic_depth pic) (j * samples_per_pixel pic + k) = s k"
  shows "row_color (described pic) row j = picture_color pic s"
proof -
  have c: "pic_color pic \<in> {0, 2, 3, 4, 6}" "pic_depth pic \<in> {1, 2, 4, 8}" "pic_color pic \<notin> {0, 3} \<Longrightarrow> pic_depth pic = 8"
    using ok by (auto simp: picture_ok_def depth_ok_def)
  have lt: "s k < 2 ^ pic_depth pic" if "k < samples_per_pixel pic" for k
    using px [OF that] by (metis mod_less_divisor sample_def zero_less_numeral zero_less_power)
  have t: "the (pc_trns (described pic) ! i) = pic_trns pic ! i" if "i < length (pic_trns pic)" for i
    using that by (simp add: described_def nth_append)
  have p: "the (pc_palette (described pic) ! i) = pic_palette pic ! i" if "i < length (pic_palette pic)" for i
    using that by (simp add: described_def nth_append)
  have m: "length (pic_palette pic) mod 3 = 0" using ok by (simp add: picture_ok_def)
  then have e: "i < length (pic_palette pic) div 3 \<longleftrightarrow> 3 * i + 2 < length (pic_palette pic)" for i by presburger
  have f: "pc_color (described pic) = pic_color pic" "pc_depth (described pic) = pic_depth pic"
    "pc_palette_entries (described pic) = length (pic_palette pic) div 3" "pc_trns_entries (described pic) = length (pic_trns pic)"
    by (simp_all add: described_def)
  have u: "v = unat b \<longleftrightarrow> word_of_nat v = b" if "v < 256" for v and b :: u8
    using that by (auto simp: unat_of_nat)
  show ?thesis
  proof (cases "pic_color pic \<in> {0, 3}")
    case True
    then have one: "samples_per_pixel pic = 1" by (auto simp: samples_per_pixel_def)
    then have s0: "sample row (pic_depth pic) j = s 0" using px [of 0] by simp
    show ?thesis
    proof (cases "pic_color pic = 0")
      case True
      then show ?thesis
        using scale_standard [OF c(2) lt [of 0]] one
        by (cases "2 \<le> length (pic_trns pic)")
          (simp_all add: row_color_def picture_color_def f png_channels_def s0 t [of 0, OF less_le_trans [of 0 2]] t Let_def mult.commute)
    next
      case False
      with True have "pic_color pic = 3" by simp
      then show ?thesis
        by (simp add: row_color_def picture_color_def f png_channels_def s0 t p e Let_def mult.commute)
    qed
  next
    case False
    then have d8: "pic_depth pic = 8" using c(3) by simp
    consider "pic_color pic = 2" "samples_per_pixel pic = 3" | "pic_color pic = 4" "samples_per_pixel pic = 2"
      | "pic_color pic = 6" "samples_per_pixel pic = 4"
      using False c(1) by (auto simp: samples_per_pixel_def)
    then show ?thesis
    proof cases
      case 1
      then show ?thesis using px [of 0] px [of 1] px [of 2] u [OF lt [of 0, unfolded d8, simplified]]
          u [OF lt [of 1, unfolded d8, simplified]] u [OF lt [of 2, unfolded d8, simplified]]
        by (simp add: row_color_def picture_color_def f png_channels_def d8 t Let_def)
    next
      case 2
      then show ?thesis using px [of 0] px [of 1]
        by (simp add: row_color_def picture_color_def f png_channels_def d8 Let_def)
    next
      case 3
      then show ?thesis using px [of 0] px [of 1] px [of 2] px [of 3]
        by (simp add: row_color_def picture_color_def f png_channels_def d8 Let_def)
    qed
  qed
qed

text \<open>The passes of the decoder are those of the pattern, in the same order.\<close>

definition number_of :: "nat \<Rightarrow> png_pass \<Rightarrow> nat" where
  "number_of i p = pass_number i (fst p) (fst (snd p))"

lemma adam7_pattern_table:
  "list_all (\<lambda>p. list_all (\<lambda>x. list_all (\<lambda>y. on_pass p x y = (pass_number 1 x y = number_of 1 p)) [0..<8]) [0..<8]) adam7"
  by code_simp

lemma pass_number_mod: "pass_number i (x mod 8) (y mod 8) = pass_number i x y"
  by (simp add: pass_number_def)

lemma on_pass_number:
  assumes "p \<in> set (png_passes i)"
  shows "on_pass p x y \<longleftrightarrow> pass_number i x y = number_of i p"
proof (cases "i = 0")
  case True
  with assms show ?thesis by (simp add: png_passes_def pass_number_def number_of_def)
next
  case False
  then have p: "p \<in> set adam7" and i: "pass_number i = pass_number 1" "number_of i = number_of 1"
    using assms by (auto simp: png_passes_def pass_number_def number_of_def fun_eq_iff)
  have "x mod 8 \<in> set [0..<8]" "y mod 8 \<in> set [0..<8]" by simp_all
  with adam7_pattern_table p have "on_pass p (x mod 8) (y mod 8) = (pass_number 1 (x mod 8) (y mod 8) = number_of 1 p)"
    unfolding list_all_iff by blast
  then show ?thesis using p by (simp only: i pass_number_mod on_pass_mod8)
qed

lemma number_of_passes: "map (number_of i) (png_passes i) = (if i = 0 then [1] else [1..<8])"
proof -
  have "map (number_of 1) adam7 = [1..<8]" by code_simp
  moreover have "number_of i = number_of 1" if "i \<noteq> 0"
    using that by (simp add: fun_eq_iff number_of_def pass_number_def)
  ultimately show ?thesis by (auto simp: png_passes_def number_of_def pass_number_def)
qed

lemma filter_mod:
  assumes "x0 < s"
  shows "filter (\<lambda>x. x mod s = x0) [0..<n] = map (\<lambda>j. x0 + j * s) [0..<pass_count n x0 s]"
proof (rule sorted_distinct_set_unique)
  have s: "0 < s" using assms by simp
  show "sorted (map (\<lambda>j. x0 + j * s) [0..<pass_count n x0 s])" by (simp add: sorted_iff_nth_mono)
  show "distinct (map (\<lambda>j. x0 + j * s) [0..<pass_count n x0 s])"
    using s by (simp add: distinct_map inj_on_def)
  have "x \<in> set (map (\<lambda>j. x0 + j * s) [0..<pass_count n x0 s]) \<longleftrightarrow> x < n \<and> x mod s = x0" for x
  proof (cases "x0 < n")
    case True
    show ?thesis
    proof
      assume "x \<in> set (map (\<lambda>j. x0 + j * s) [0..<pass_count n x0 s])"
      then obtain j where "j < pass_count n x0 s" "x = x0 + j * s" by auto
      then show "x < n \<and> x mod s = x0" using pass_count_less [OF s True, of j] assms by simp
    next
      assume x: "x < n \<and> x mod s = x0"
      then have "x = x0 + x div s * s" by (metis add.commute div_mult_mod_eq)
      moreover from this x have "x div s < pass_count n x0 s" using pass_count_less [OF s True] by metis
      ultimately show "x \<in> set (map (\<lambda>j. x0 + j * s) [0..<pass_count n x0 s])" by auto
    qed
  next
    case False
    then have "pass_count n x0 s = 0" using assms by (simp add: pass_count_def)
    moreover have "\<not> (x < n \<and> x mod s = x0)" using False mod_less_eq_dividend [of x s] by linarith
    ultimately show ?thesis by simp
  qed
  then show "set (filter (\<lambda>x. x mod s = x0) [0..<n]) = set (map (\<lambda>j. x0 + j * s) [0..<pass_count n x0 s])"
    by auto
qed (simp_all add: sorted_wrt_filter)

lemma columns_of_pass:
  assumes "p \<in> set (png_passes (pic_interlace pic))" "p = (x0, y0, xs, ys)"
  shows "pass_columns pic (number_of (pic_interlace pic) p) y =
    (if y mod ys = y0 then map (\<lambda>j. x0 + j * xs) [0..<pass_count (pic_width pic) x0 xs] else [])"
proof -
  have "x0 < xs" using png_passes_ok [OF assms(1)] assms(2) by simp
  moreover have "(pass_number (pic_interlace pic) x y = number_of (pic_interlace pic) p) = (x mod xs = x0 \<and> y mod ys = y0)" for x
    using on_pass_number [OF assms(1), of x y] assms(2) by simp
  ultimately show ?thesis using filter_mod [of x0 xs "pic_width pic"] by (simp add: pass_columns_def)
qed

lemma lines_of_pass:
  assumes "p \<in> set (png_passes (pic_interlace pic))" "p = (x0, y0, xs, ys)"
  shows "pass_lines pic (number_of (pic_interlace pic) p) =
    map (\<lambda>j. y0 + j * ys) [0..<pass_rows (described pic) p]"
proof -
  have ok: "x0 < xs" "y0 < ys" using png_passes_ok [OF assms(1)] assms(2) by simp_all
  have c: "pass_count (pic_width pic) x0 xs \<noteq> 0 \<longleftrightarrow> x0 < pic_width pic"
    using pass_count_less [of xs x0 "pic_width pic" 0] ok(1) by (cases "x0 < pic_width pic") (auto simp: pass_count_def)
  have "pass_columns pic (number_of (pic_interlace pic) p) y \<noteq> [] \<longleftrightarrow> y mod ys = y0 \<and> x0 < pic_width pic" for y
    unfolding columns_of_pass [OF assms] c [symmetric] by simp
  then have l: "pass_lines pic (number_of (pic_interlace pic) p) =
      (if x0 < pic_width pic then map (\<lambda>j. y0 + j * ys) [0..<pass_count (pic_height pic) y0 ys] else [])"
    using filter_mod [OF ok(2)] by (simp add: pass_lines_def)
  have "pass_count (pic_height pic) y0 ys = 0" if "pic_height pic \<le> y0"
    using that ok(2) by (simp add: pass_count_def)
  then show ?thesis unfolding l by (auto simp: assms(2) described_def)
qed

lemma number_range: "p \<in> set (png_passes i) \<Longrightarrow> number_of i p \<in> {1..7}"
proof -
  assume "p \<in> set (png_passes i)"
  then have "number_of i p \<in> set (map (number_of i) (png_passes i))" by simp
  then show ?thesis unfolding number_of_passes by (auto split: if_splits)
qed

text \<open>The rows of the encoder are rows of the decoder's pass, with the samples of its pixels.\<close>

lemma encoded_row:
  assumes "picture_ok pic" "encodes pic px filts raw" "p \<in> set (png_passes (pic_interlace pic))" "p = (x0, y0, xs, ys)"
    "n < pass_rows (described pic) p"
  shows "row_encodes pic px (map (\<lambda>j. x0 + j * xs) [0..<pass_count (pic_width pic) x0 xs]) (y0 + n * ys)
    (raw (number_of (pic_interlace pic) p) ! n)"
proof -
  have "y0 < ys" using png_passes_ok [OF assms(3)] assms(4) by simp
  then have "(y0 + n * ys) mod ys = y0" by simp
  moreover have "row_encodes pic px (pass_columns pic (number_of (pic_interlace pic) p) (y0 + n * ys)) (y0 + n * ys)
      (raw (number_of (pic_interlace pic) p) ! n)"
  proof -
    let ?k = "number_of (pic_interlace pic) p"
    have "list_all2 (\<lambda>y row. row_encodes pic px (pass_columns pic ?k y) y row) (pass_lines pic ?k) (raw ?k)"
      using assms(2) number_range [OF assms(3)] by (simp add: encodes_def)
    from list_all2_nthD [OF this, of n] assms(5) show ?thesis by (simp add: lines_of_pass [OF assms(3,4)])
  qed
  ultimately show ?thesis by (simp add: columns_of_pass [OF assms(3,4)])
qed

lemma encodes_raw_ok:
  assumes "picture_ok pic" "encodes pic px filts raw" "p \<in> set (png_passes (pic_interlace pic))"
  defines "k \<equiv> number_of (pic_interlace pic)"
  shows "raw_ok (described pic) (\<lambda>p. filts (k p)) (\<lambda>p. raw (k p)) p"
proof -
  obtain x0 y0 xs ys where p: "p = (x0, y0, xs, ys)" by (metis surj_pair)
  have "list_all2 (\<lambda>y row. row_encodes pic px (pass_columns pic (k p) y) y row) (pass_lines pic (k p)) (raw (k p))"
    using assms(2) number_range [OF assms(3)] by (simp add: encodes_def k_def)
  then have len: "length (raw (k p)) = pass_rows (described pic) p"
    using list_all2_lengthD lines_of_pass [OF assms(3) p] k_def by fastforce
  have "length (raw (k p) ! n) = pass_row_bytes (described pic) p" if "n < pass_rows (described pic) p" for n
    using encoded_row [OF assms(1-3) p that] channels_standard [OF assms(1)]
    by (simp add: row_encodes_def k_def p png_row_bytes_def described_def)
  with len have "rows_ok (pass_row_bytes (described pic) p) (raw (k p))"
    by (auto simp: rows_ok_def in_set_conv_nth)
  with len assms(2) show ?thesis by (simp add: raw_ok_def encodes_def)
qed

lemma encodes_color:
  assumes "picture_ok pic" "encodes pic px filts raw" "p \<in> set (png_passes (pic_interlace pic))" "on_pass p x y"
    "x < pic_width pic" "y < pic_height pic"
  shows "pass_color (described pic) (raw (number_of (pic_interlace pic) p)) p x y = picture_color pic (px x y)"
proof -
  obtain x0 y0 xs ys where p: "p = (x0, y0, xs, ys)" by (metis surj_pair)
  have ok: "x0 < xs" "y0 < ys" using png_passes_ok [OF assms(3)] p by simp_all
  have xy: "x = x0 + x div xs * xs" "y = y0 + y div ys * ys"
    using assms(4) mod_div_mult_eq [of x xs] mod_div_mult_eq [of y ys] by (simp_all add: p)
  have b: "x0 < pic_width pic" "y0 < pic_height pic" using pass_unused assms(4-6) p by blast+
  have cx: "x div xs < pass_count (pic_width pic) x0 xs"
    using pass_count_less [of xs x0 "pic_width pic" "x div xs"] ok(1) b(1) assms(5) xy(1) by simp
  have cy: "y div ys < pass_rows (described pic) p"
    using pass_count_less [of ys y0 "pic_height pic" "y div ys"] ok(2) b assms(6) xy(2) by (simp add: p described_def)
  show ?thesis
    using encoded_row [OF assms(1-3) p cy] cx xy unfolding p pass_color.simps row_encodes_def
    by (intro row_color_picture [OF assms(1)]) auto
qed

lemma stream_of_passes:
  assumes "picture_ok pic" "encodes pic px filts raw"
  defines "k \<equiv> number_of (pic_interlace pic)"
  shows "picture_stream pic filts raw =
    concat (map (\<lambda>p. filtered_rows (filts (k p)) (bpp (described pic)) (raw (k p))) (png_passes (pic_interlace pic)))"
proof -
  let ?f = "\<lambda>k. filtered_rows (filts k) (filter_distance pic) (raw k)"
  have "bpp (described pic) = filter_distance pic" using distance_standard [OF assms(1)] by (simp add: described_def)
  then have "concat (map (\<lambda>p. filtered_rows (filts (k p)) (bpp (described pic)) (raw (k p))) (png_passes (pic_interlace pic)))
      = concat (map ?f (map k (png_passes (pic_interlace pic))))" by (simp add: comp_def)
  moreover have none: "?f n = []" if "pic_interlace pic = 0" "n \<in> {2..<8}" for n
  proof -
    have l: "pass_lines pic n = []" using that by (simp add: pass_lines_def pass_columns_def pass_number_def)
    have "n \<in> {1..7}" using that(2) by auto
    then have "list_all2 (\<lambda>y row. row_encodes pic px (pass_columns pic n y) y row) (pass_lines pic n) (raw n)"
      using assms(2) unfolding encodes_def by blast
    then have "raw n = []" unfolding l by simp
    then show ?thesis by (simp add: filtered_rows_def)
  qed
  moreover have "concat (map ?f [2..<8]) = []" if "pic_interlace pic = 0"
    using none [OF that] by (simp only: concat_eq_Nil_conv set_map set_upt) blast
  moreover have "[1..<8] = 1 # [2..<8 :: nat]" by code_simp
  ultimately show ?thesis unfolding picture_stream_def k_def number_of_passes by simp
qed

text \<open>
  C9.  A picture of a PNG encoder is decoded to the encoder's pixels: for every colour type, bit depth, palette
  and transparency that the decoder supports, with or without interlacing, however the rows were filtered and
  the compressed data was split into chunks, the pixel at column \<open>x\<close> and row \<open>y\<close> gets the colour and alpha
  of the samples that the encoder was given for it.  The encoder is the standard's own: its interlace pattern,
  row sizes, filter distance, scaling of samples and 16 bit colours are stated without those of the decoder.
  The file is read without errors, allocations succeed, and \<open>uncompress\<close> undoes the compression.
\<close>

theorem png_load_encoded:
  assumes "picture_ok pic" "\<And>d. length (crc d) = 4" "\<And>n. alloc n" "length (png_file crc pic) \<le> 4 * 1024 * 1024"
    and "encodes pic px filts raw"
    and "uncompress (concat (pic_idat pic)) (length (picture_stream pic filts raw)) = Some (picture_stream pic filts raw)"
  shows "\<exists>im. unifrog_png_load_file uncompress alloc (Some (healthy (png_file crc pic) 0)) = Ret (0, im) \<and>
    im_width im = pic_width pic \<and> im_height im = pic_height pic \<and>
    (\<forall>x y. x < pic_width pic \<longrightarrow> y < pic_height pic \<longrightarrow>
      pixel_at (pic_width pic) im x y = shade (picture_color pic (px x y)))"
proof -
  let ?pc = "described pic" and ?i = "pic_interlace pic" and ?w = "pic_width pic" and ?h = "pic_height pic"
  let ?ps = "png_passes ?i" and ?n = "?w * ?h"
  let ?im = "\<lparr>im_width = 0, im_height = 0, im_pixels = replicate ?n None, im_alpha = replicate ?n None\<rparr>"
  let ?raw = "\<lambda>p. raw (number_of ?i p)" and ?filts = "\<lambda>p. filts (number_of ?i p)"
  let ?src = "picture_stream pic filts raw"
  define c where "c x y = (let p = pass_of ?i x y in pass_color ?pc (?raw p) p x y)" for x y
  have size: "length (png_file crc pic) \<le> PNG_MAX_FILE_BYTES" using assms(4) by (simp add: PNG_MAX_FILE_BYTES_def)
  have r: "ready ?pc" by (rule described_ready [OF assms(1)])
  have pc: "pc_width ?pc = ?w" "pc_height ?pc = ?h" "pc_interlace ?pc = ?i" "pc_idat ?pc = concat (pic_idat pic)"
    by (simp_all add: described_def)
  have raw: "raw_ok ?pc ?filts ?raw p" if "p \<in> set ?ps" for p by (rule encodes_raw_ok [OF assms(1,5) that])
  have ok: "\<forall>p \<in> set ?ps. pass_ok p \<and> raw_ok ?pc ?filts ?raw p" using png_passes_ok raw by blast
  have col: "c x y = pass_color ?pc (?raw p) p x y" if "p \<in> set ?ps" "on_pass p x y" for p x y
    using pass_of(3) [OF that] by (simp add: c_def Let_def)
  note src = stream_of_passes [OF assms(1,5)]
  have "dims (pc_width ?pc) (pc_height ?pc) ?im" by (simp add: dims_def pc)
  from passes_exact [where alloc = alloc and filts = ?filts and raw = ?raw, OF r assms(3) ok col this, of 0 ?src "[]" "[0..<length ?ps]"]
  obtain im where im: "run_for (zip [0..<length ?ps] ?ps) (png_decode_pass alloc ?pc ?src) (?im, 0) =
      Ret (im, png_inflated_size ?pc)"
    and p: "painted ?w ?h ?im (\<lambda>x y. \<exists>p \<in> set ?ps. on_pass p x y) c im"
    by (auto simp: inflated_size [OF r] pc src)
  have len: "length ?src = png_inflated_size ?pc"
  proof -
    have "length (filtered_rows (?filts p) (bpp ?pc) (?raw p)) = pass_bytes ?pc p" if "p \<in> set ?ps" for p
      using raw [OF that] length_filtered_rows [of "pass_row_bytes ?pc p" "?raw p"]
      by (simp add: raw_ok_def pass_bytes_rows)
    then show ?thesis by (simp add: src inflated_size [OF r] pc length_concat comp_def cong: map_cong)
  qed
  have "png_channels (pc_color ?pc) \<noteq> 0" using ready_depth [OF r] by (auto simp: depth_ok_def png_channels_def)
  moreover have "?w \<noteq> 0" "?h \<noteq> 0" "concat (pic_idat pic) \<noteq> []" "\<not> (pc_color ?pc = 3 \<and> pc_palette_entries ?pc = 0)"
    using assms(1) by (auto simp: picture_ok_def described_def div_greater_zero_iff mod_eq_0_iff_dvd dvd_imp_le)
  ultimately have "png_decode_image uncompress alloc ?pc = Ret (im\<lparr>im_width := ?w, im_height := ?h\<rparr>)"
    by (simp add: png_decode_image_def require_def assms(3) assms(6) [unfolded len] pc im len Let_def del: concat_eq_Nil_conv)
  moreover have "33 \<le> length (png_file crc pic)" "rd_range (png_file crc pic) 0 8 = Ret png_signature"
    by (simp_all add: png_file_def png_signature_def header_data_def length_chunk assms(2))
  moreover have "read_file alloc (Some (healthy (png_file crc pic) 0)) = Ret (png_file crc pic)"
    by (rule read_healthy) (use assms(3) size calculation(2) in auto)
  ultimately have "png_load uncompress alloc (Some (healthy (png_file crc pic) 0)) = Ret (im\<lparr>im_width := ?w, im_height := ?h\<rparr>)"
    by (simp add: png_load_def require_def loop_file [OF assms(1-3) size])
  then have "unifrog_png_load_file uncompress alloc (Some (healthy (png_file crc pic) 0)) = Ret (0, im\<lparr>im_width := ?w, im_height := ?h\<rparr>)"
    by (simp add: unifrog_png_load_file_def)
  moreover have "pixel_at ?w (im\<lparr>im_width := ?w, im_height := ?h\<rparr>) x y = shade (c x y)" if "x < ?w" "y < ?h" for x y
    using p that pass_of(1,2) [of ?i x y] by (auto simp: painted_def pixel_at_def)
  moreover have "c x y = picture_color pic (px x y)" if "x < ?w" "y < ?h" for x y
    using encodes_color [OF assms(1,5) pass_of(1,2) that] by (simp add: c_def Let_def)
  ultimately show ?thesis by simp
qed

text \<open>
  An interlaced picture of three by two pixels with a palette of four colours and two bits per pixel; its
  samples are 1, 3, 2 in the first row and 0, 1, 2 in the second.
\<close>

definition picture_example :: picture where
  "picture_example = \<lparr>pic_width = 3, pic_height = 2, pic_depth = 2, pic_color = 3, pic_interlace = 1,
     pic_palette = [0, 0, 0, 255, 0, 0, 0, 255, 0, 0, 0, 255], pic_trns = [0], pic_idat = [[1, 2], [], [3]]\<rparr>"

definition samples_example :: "nat \<Rightarrow> nat \<Rightarrow> nat \<Rightarrow> nat" where
  "samples_example x y k = [[1, 3, 2], [0, 1, 2]] ! y ! x"

definition raw_example :: "nat \<Rightarrow> bytes list" where
  "raw_example k = (if k = 1 then [[0x40]] else if k = 4 then [[0x80]] else if k = 6 then [[0xC0]]
     else if k = 7 then [[0x1B]] else [])"

definition filts_example :: "nat \<Rightarrow> nat \<Rightarrow> nat" where
  "filts_example k y = (if k = 7 then 4 else 1)"

lemma encodes_example: "encodes picture_example samples_example filts_example raw_example"
proof -
  have "list_all (\<lambda>k. list_all2 (\<lambda>y row. length row = (length (pass_columns picture_example k y) * 1 * 2 + 7) div 8 \<and>
      list_all (\<lambda>j. sample row 2 j = samples_example (pass_columns picture_example k y ! j) y 0)
        [0..<length (pass_columns picture_example k y)]) (pass_lines picture_example k) (raw_example k)) [1..<8]"
    by code_simp
  moreover have "samples_per_pixel picture_example = 1" "pic_depth picture_example = 2"
    by (simp_all add: samples_per_pixel_def picture_example_def)
  ultimately show ?thesis
    by (auto simp: encodes_def row_encodes_def list_all_iff filts_example_def list_all2_conv_all_nth)
qed

theorem png_load_encoded_witness:
  "\<exists>im. unifrog_png_load_file (\<lambda>d n. Some (picture_stream picture_example filts_example raw_example)) (\<lambda>n. True)
      (Some (healthy (png_file (\<lambda>d. [0, 0, 0, 0]) picture_example) 0)) = Ret (0, im) \<and>
    pixel_at 3 im 0 0 = (Some 0xF800, Some 255) \<and> pixel_at 3 im 2 1 = (Some 0x07E0, Some 255) \<and>
    pixel_at 3 im 0 1 = (Some 0, Some 0)"
proof -
  have "picture_ok picture_example"
    by (simp add: picture_ok_def picture_example_def depth_ok_def)
  moreover have "length (png_file (\<lambda>d. [0, 0, 0, 0]) picture_example) \<le> 4 * 1024 * 1024"
    by (simp add: png_file_def chunk_def picture_example_def header_data_def tag_def)
  ultimately obtain im where im: "unifrog_png_load_file
      (\<lambda>d n. Some (picture_stream picture_example filts_example raw_example)) (\<lambda>n. True)
      (Some (healthy (png_file (\<lambda>d. [0, 0, 0, 0]) picture_example) 0)) = Ret (0, im)"
    and px: "\<And>x y. x < pic_width picture_example \<Longrightarrow> y < pic_height picture_example \<Longrightarrow>
      pixel_at (pic_width picture_example) im x y = shade (picture_color picture_example (samples_example x y))"
    using png_load_encoded [where pic = picture_example and crc = "\<lambda>d. [0, 0, 0, 0]" and alloc = "\<lambda>n. True" and
        uncompress = "\<lambda>d n. Some (picture_stream picture_example filts_example raw_example)", OF _ _ _ _ encodes_example]
    by auto
  have d: "pic_width picture_example = 3" "pic_height picture_example = 2" by (simp_all add: picture_example_def)
  have c: "shade (picture_color picture_example (samples_example 0 0)) = (Some 0xF800, Some 255)"
    "shade (picture_color picture_example (samples_example 2 1)) = (Some 0x07E0, Some 255)"
    "shade (picture_color picture_example (samples_example 0 1)) = (Some 0, Some 0)"
    by (simp_all add: picture_color_def picture_example_def samples_example_def rgb565_def)
  show ?thesis using im px [of 0 0] px [of 2 1] px [of 0 1] c unfolding d by auto
qed

text \<open>
  A transparency chunk of more than 256 bytes is cut, and the reader then moves on by the cut length:
  the next chunk is looked for inside the chunk.
\<close>

lemma long_trns_misplaces_next:
  assumes "256 < len" "i + len \<le> length data" "length (pc_trns pc) = 256"
  shows "\<exists>pc'. png_chunk alloc data (tag ''tRNS'') i len pc = Ret (False, 256, pc')"
  using assms by (simp add: png_chunk_def tag_def copy_to_def defined_def Let_def)

end
