(* ===== verification/UF_Gfx.thy ===== *)
theory UF_Gfx
  imports UF_PngSpec UF_Text
begin

text \<open>
  Drawing on a surface of 16 bit pixels (\<open>foundation/src/display/unifrog_gfx.c\<close>): pixels, rectangles,
  and text in the built-in font of five by seven dots, whose glyphs a file can replace.  The TrueType and
  LVGL fonts call libraries and are left out.

  A surface is a buffer with checked accesses.  Coordinates are C's \<open>int\<close>: a sum or product out of its
  range is a trap.  The font state is the table of replaced glyphs.
\<close>

section \<open>Surfaces\<close>

record surface =
  sf_pixels :: "u16 list"
  sf_width :: nat
  sf_height :: nat
  sf_stride :: nat

definition c_int :: "int \<Rightarrow> int run" where
  "c_int v = defined (- (2 ^ 31) \<le> v \<and> v < 2 ^ 31) (Ret v)"

definition surface_is_valid :: "surface \<Rightarrow> bool" where
  "surface_is_valid s \<longleftrightarrow> sf_width s > 0 \<and> sf_height s > 0 \<and> sf_stride s \<ge> sf_width s"

definition store :: "surface \<Rightarrow> nat \<Rightarrow> u16 \<Rightarrow> surface run" where
  "store s i v = run_bind (wr (sf_pixels s) i v) (\<lambda>px. Ret (s\<lparr>sf_pixels := px\<rparr>))"

definition unifrog_gfx_put_pixel :: "surface \<Rightarrow> int \<Rightarrow> int \<Rightarrow> u16 \<Rightarrow> surface run" where
  "unifrog_gfx_put_pixel s x y color =
     (if \<not> surface_is_valid s then Ret s
      else if x < 0 \<or> y < 0 \<or> x \<ge> int (sf_width s) \<or> y \<ge> int (sf_height s) then Ret s
      else store s (nat y * sf_stride s + nat x) color)"

definition unifrog_gfx_fill_rect :: "surface \<Rightarrow> int \<Rightarrow> int \<Rightarrow> int \<Rightarrow> int \<Rightarrow> u16 \<Rightarrow> surface run" where
  "unifrog_gfx_fill_rect s x y w h color =
     (if \<not> surface_is_valid s \<or> w \<le> 0 \<or> h \<le> 0 then Ret s
      else run_bind (c_int (x + w)) (\<lambda>x2. run_bind (c_int (y + h)) (\<lambda>y2.
        let x = (if x < 0 then 0 else x); y = (if y < 0 then 0 else y);
            x2 = (if x2 > int (sf_width s) then int (sf_width s) else x2);
            y2 = (if y2 > int (sf_height s) then int (sf_height s) else y2)
        in if x \<ge> x2 \<or> y \<ge> y2 then Ret s
           else run_for [nat y..<nat y2] (\<lambda>yy. run_for [nat x..<nat x2] (\<lambda>xx s. store s (yy * sf_stride s + xx) color)) s)))"

definition unifrog_gfx_draw_hline :: "surface \<Rightarrow> int \<Rightarrow> int \<Rightarrow> int \<Rightarrow> u16 \<Rightarrow> surface run" where
  "unifrog_gfx_draw_hline s x y w color = unifrog_gfx_fill_rect s x y w 1 color"

definition unifrog_gfx_draw_vline :: "surface \<Rightarrow> int \<Rightarrow> int \<Rightarrow> int \<Rightarrow> u16 \<Rightarrow> surface run" where
  "unifrog_gfx_draw_vline s x y h color = unifrog_gfx_fill_rect s x y 1 h color"

section \<open>The built-in font\<close>

definition font5x7_alnum :: "bytes list" where
  "font5x7_alnum =
    [[0x3E, 0x51, 0x49, 0x45, 0x3E], [0x00, 0x42, 0x7F, 0x40, 0x00], [0x42, 0x61, 0x51, 0x49, 0x46],
     [0x21, 0x41, 0x45, 0x4B, 0x31], [0x18, 0x14, 0x12, 0x7F, 0x10], [0x27, 0x45, 0x45, 0x45, 0x39],
     [0x3C, 0x4A, 0x49, 0x49, 0x30], [0x01, 0x71, 0x09, 0x05, 0x03], [0x36, 0x49, 0x49, 0x49, 0x36],
     [0x06, 0x49, 0x49, 0x29, 0x1E], [0x7E, 0x11, 0x11, 0x11, 0x7E], [0x7F, 0x49, 0x49, 0x49, 0x36],
     [0x3E, 0x41, 0x41, 0x41, 0x22], [0x7F, 0x41, 0x41, 0x22, 0x1C], [0x7F, 0x49, 0x49, 0x49, 0x41],
     [0x7F, 0x09, 0x09, 0x09, 0x01], [0x3E, 0x41, 0x49, 0x49, 0x7A], [0x7F, 0x08, 0x08, 0x08, 0x7F],
     [0x00, 0x41, 0x7F, 0x41, 0x00], [0x20, 0x40, 0x41, 0x3F, 0x01], [0x7F, 0x08, 0x14, 0x22, 0x41],
     [0x7F, 0x40, 0x40, 0x40, 0x40], [0x7F, 0x02, 0x0C, 0x02, 0x7F], [0x7F, 0x04, 0x08, 0x10, 0x7F],
     [0x3E, 0x41, 0x41, 0x41, 0x3E], [0x7F, 0x09, 0x09, 0x09, 0x06], [0x3E, 0x41, 0x51, 0x21, 0x5E],
     [0x7F, 0x09, 0x19, 0x29, 0x46], [0x46, 0x49, 0x49, 0x49, 0x31], [0x01, 0x01, 0x7F, 0x01, 0x01],
     [0x3F, 0x40, 0x40, 0x40, 0x3F], [0x1F, 0x20, 0x40, 0x20, 0x1F], [0x3F, 0x40, 0x38, 0x40, 0x3F],
     [0x63, 0x14, 0x08, 0x14, 0x63], [0x07, 0x08, 0x70, 0x08, 0x07], [0x61, 0x51, 0x49, 0x45, 0x43]]"

definition font5x7_lower :: "bytes list" where
  "font5x7_lower =
    [[0x20, 0x54, 0x54, 0x54, 0x78], [0x7F, 0x48, 0x44, 0x44, 0x38], [0x38, 0x44, 0x44, 0x44, 0x20],
     [0x38, 0x44, 0x44, 0x48, 0x7F], [0x38, 0x54, 0x54, 0x54, 0x18], [0x08, 0x7E, 0x09, 0x01, 0x02],
     [0x0C, 0x52, 0x52, 0x52, 0x3E], [0x7F, 0x08, 0x04, 0x04, 0x78], [0x00, 0x44, 0x7D, 0x40, 0x00],
     [0x20, 0x40, 0x44, 0x3D, 0x00], [0x7F, 0x10, 0x28, 0x44, 0x00], [0x00, 0x41, 0x7F, 0x40, 0x00],
     [0x7C, 0x04, 0x18, 0x04, 0x78], [0x7C, 0x08, 0x04, 0x04, 0x78], [0x38, 0x44, 0x44, 0x44, 0x38],
     [0x7C, 0x14, 0x14, 0x14, 0x08], [0x08, 0x14, 0x14, 0x18, 0x7C], [0x7C, 0x08, 0x04, 0x04, 0x08],
     [0x48, 0x54, 0x54, 0x54, 0x20], [0x04, 0x3F, 0x44, 0x40, 0x20], [0x3C, 0x40, 0x40, 0x20, 0x7C],
     [0x1C, 0x20, 0x40, 0x20, 0x1C], [0x3C, 0x40, 0x30, 0x40, 0x3C], [0x44, 0x28, 0x10, 0x28, 0x44],
     [0x0C, 0x50, 0x50, 0x50, 0x3C], [0x44, 0x64, 0x54, 0x4C, 0x44]]"

definition font5x7_punctuation :: "(char \<times> bytes) list" where
  "font5x7_punctuation =
    [(CHR 0x21, [0x00, 0x00, 0x5F, 0x00, 0x00]), (CHR 0x22, [0x00, 0x07, 0x00, 0x07, 0x00]),
     (CHR 0x23, [0x14, 0x7F, 0x14, 0x7F, 0x14]), (CHR 0x24, [0x24, 0x2A, 0x7F, 0x2A, 0x12]),
     (CHR 0x25, [0x23, 0x13, 0x08, 0x64, 0x62]), (CHR 0x26, [0x36, 0x49, 0x55, 0x22, 0x50]),
     (CHR 0x27, [0x00, 0x05, 0x03, 0x00, 0x00]), (CHR 0x28, [0x00, 0x1C, 0x22, 0x41, 0x00]),
     (CHR 0x29, [0x00, 0x41, 0x22, 0x1C, 0x00]), (CHR 0x2A, [0x14, 0x08, 0x3E, 0x08, 0x14]),
     (CHR 0x2B, [0x08, 0x08, 0x3E, 0x08, 0x08]), (CHR 0x2C, [0x00, 0x50, 0x30, 0x00, 0x00]),
     (CHR 0x2D, [0x08, 0x08, 0x08, 0x08, 0x08]), (CHR 0x2E, [0x00, 0x60, 0x60, 0x00, 0x00]),
     (CHR 0x2F, [0x20, 0x10, 0x08, 0x04, 0x02]), (CHR 0x3A, [0x00, 0x36, 0x36, 0x00, 0x00]),
     (CHR 0x3B, [0x00, 0x56, 0x36, 0x00, 0x00]), (CHR 0x3C, [0x08, 0x14, 0x22, 0x41, 0x00]),
     (CHR 0x3D, [0x14, 0x14, 0x14, 0x14, 0x14]), (CHR 0x3E, [0x00, 0x41, 0x22, 0x14, 0x08]),
     (CHR 0x3F, [0x02, 0x01, 0x51, 0x09, 0x06]), (CHR 0x40, [0x32, 0x49, 0x79, 0x41, 0x3E]),
     (CHR 0x5B, [0x00, 0x7F, 0x41, 0x41, 0x00]), (CHR 0x5C, [0x02, 0x04, 0x08, 0x10, 0x20]),
     (CHR 0x5D, [0x00, 0x41, 0x41, 0x7F, 0x00]), (CHR 0x5E, [0x04, 0x02, 0x01, 0x02, 0x04]),
     (CHR 0x5F, [0x40, 0x40, 0x40, 0x40, 0x40]), (CHR 0x60, [0x00, 0x01, 0x02, 0x04, 0x00]),
     (CHR 0x7B, [0x00, 0x08, 0x36, 0x41, 0x00]), (CHR 0x7C, [0x00, 0x00, 0x7F, 0x00, 0x00]),
     (CHR 0x7D, [0x00, 0x41, 0x36, 0x08, 0x00]), (CHR 0x7E, [0x08, 0x04, 0x08, 0x10, 0x08])]"

text \<open>The replaced glyphs, by character code minus 32.\<close>

type_synonym font = "bytes option list"

definition font5x7_none :: font where
  "font5x7_none = replicate 95 None"

definition glyph_for :: "font \<Rightarrow> char \<Rightarrow> bytes option" where
  "glyph_for font c =
     (let uc = (of_char c :: nat)
      in if 32 \<le> uc \<and> uc \<le> 126 \<and> font ! (uc - 32) \<noteq> None then font ! (uc - 32)
         else if 48 \<le> uc \<and> uc \<le> 57 then Some (font5x7_alnum ! (uc - 48))
         else if 65 \<le> uc \<and> uc \<le> 90 then Some (font5x7_alnum ! (10 + (uc - 65)))
         else if 97 \<le> uc \<and> uc \<le> 122 then Some (font5x7_lower ! (uc - 97))
         else map_option snd (find (\<lambda>g. fst g = c) font5x7_punctuation))"

definition draw_dot :: "int \<Rightarrow> int \<Rightarrow> u16 \<Rightarrow> int \<Rightarrow> nat \<Rightarrow> nat \<Rightarrow> surface \<Rightarrow> surface run" where
  "draw_dot x y color scale col row s =
     run_bind (c_int (int col * scale)) (\<lambda>dx. run_bind (c_int (x + dx)) (\<lambda>px.
     run_bind (c_int (int row * scale)) (\<lambda>dy. run_bind (c_int (y + dy)) (\<lambda>py.
       unifrog_gfx_fill_rect s px py scale scale color))))"

definition unifrog_gfx_draw_char :: "font \<Rightarrow> surface \<Rightarrow> int \<Rightarrow> int \<Rightarrow> char \<Rightarrow> u16 \<Rightarrow> int \<Rightarrow> surface run" where
  "unifrog_gfx_draw_char font s x y c color scale =
     (if scale \<le> 0 \<or> c = CHR '' '' then Ret s
      else (case glyph_for font c of
        None \<Rightarrow>
          run_bind (c_int (1 * scale)) (\<lambda>dx. run_bind (c_int (x + dx)) (\<lambda>px.
          run_bind (c_int (6 * scale)) (\<lambda>dy. run_bind (c_int (y + dy)) (\<lambda>py.
          run_bind (c_int (3 * scale)) (\<lambda>w. unifrog_gfx_fill_rect s px py w scale color)))))
      | Some glyph \<Rightarrow>
          run_for [0..<5] (\<lambda>col s. run_bind (rd glyph col) (\<lambda>bits.
            run_for [0..<7] (\<lambda>row s. if bit bits row then draw_dot x y color scale col row s else Ret s) s)) s))"

fun draw_chars :: "font \<Rightarrow> int \<Rightarrow> u16 \<Rightarrow> int \<Rightarrow> string \<Rightarrow> int \<Rightarrow> surface \<Rightarrow> surface run" where
  "draw_chars font y color scale [] x s = Ret s"
| "draw_chars font y color scale (c # cs) x s =
     run_bind (unifrog_gfx_draw_char font s x y c color scale) (\<lambda>s.
     run_bind (c_int (6 * scale)) (\<lambda>dx. run_bind (c_int (x + dx)) (\<lambda>x. draw_chars font y color scale cs x s)))"

definition unifrog_gfx_draw_text_bitmap :: "font \<Rightarrow> surface \<Rightarrow> int \<Rightarrow> int \<Rightarrow> string option \<Rightarrow> u16 \<Rightarrow> int \<Rightarrow> surface run" where
  "unifrog_gfx_draw_text_bitmap font s x y text_ptr color scale = (case text_ptr of None \<Rightarrow> Ret s
     | Some t \<Rightarrow> if scale \<le> 0 then Ret s else draw_chars font y color scale t x s)"

section \<open>Changes of a surface\<close>

definition surface_ok :: "surface \<Rightarrow> bool" where
  "surface_ok s \<longleftrightarrow> surface_is_valid s \<and> (sf_height s - 1) * sf_stride s + sf_width s \<le> length (sf_pixels s)"

definition pixel :: "surface \<Rightarrow> nat \<Rightarrow> nat \<Rightarrow> u16" where
  "pixel s x y = sf_pixels s ! (y * sf_stride s + x)"

text \<open>
  \<open>recolored s f t\<close>: the surface \<open>t\<close> has the shape of \<open>s\<close>, each visible pixel is changed by \<open>f\<close>, and
  the rest of the buffer is as before.
\<close>

definition same_shape :: "surface \<Rightarrow> surface \<Rightarrow> bool" where
  "same_shape s t \<longleftrightarrow> sf_width t = sf_width s \<and> sf_height t = sf_height s \<and> sf_stride t = sf_stride s \<and>
     length (sf_pixels t) = length (sf_pixels s)"

definition recolored :: "surface \<Rightarrow> (nat \<Rightarrow> nat \<Rightarrow> u16 \<Rightarrow> u16) \<Rightarrow> surface \<Rightarrow> bool" where
  "recolored s f t \<longleftrightarrow> same_shape s t \<and>
     (\<forall>x < sf_width s. \<forall>y < sf_height s. pixel t x y = f x y (pixel s x y)) \<and>
     (\<forall>i. (\<forall>x < sf_width s. \<forall>y < sf_height s. i \<noteq> y * sf_stride s + x) \<longrightarrow> sf_pixels t ! i = sf_pixels s ! i)"

lemma same_shape_refl [simp]: "same_shape s s"
  by (simp add: same_shape_def)

lemma same_shape_trans: "same_shape s t \<Longrightarrow> same_shape t u \<Longrightarrow> same_shape s u"
  by (simp add: same_shape_def)

lemma same_shape_ok: "same_shape s t \<Longrightarrow> surface_ok t = surface_ok s"
  by (simp add: same_shape_def surface_ok_def surface_is_valid_def)

lemma recolored_shape: "recolored s f t \<Longrightarrow> same_shape s t"
  by (simp add: recolored_def)

lemma recolored_id: "(\<And>x y p. x < sf_width s \<Longrightarrow> y < sf_height s \<Longrightarrow> f x y p = p) \<Longrightarrow> recolored s f s"
  by (simp add: recolored_def)

lemma recolored_cong:
  assumes "recolored s f t" "\<And>x y p. x < sf_width s \<Longrightarrow> y < sf_height s \<Longrightarrow> f x y p = g x y p"
  shows "recolored s g t"
  using assms by (simp add: recolored_def)

lemma recolored_comp:
  assumes "recolored s f t" "recolored t g u"
  shows "recolored s (\<lambda>x y p. g x y (f x y p)) u"
proof -
  have t: "sf_width t = sf_width s" "sf_height t = sf_height s" "sf_stride t = sf_stride s"
    using recolored_shape [OF assms(1)] by (simp_all add: same_shape_def)
  show ?thesis
    unfolding recolored_def
  proof (intro conjI allI impI)
    show "same_shape s u" using same_shape_trans assms recolored_shape by blast
    show "pixel u x y = g x y (f x y (pixel s x y))" if "x < sf_width s" "y < sf_height s" for x y
      using assms that by (simp add: recolored_def t)
    show "sf_pixels u ! i = sf_pixels s ! i" if "\<forall>x < sf_width s. \<forall>y < sf_height s. i \<noteq> y * sf_stride s + x" for i
      using assms that by (simp add: recolored_def t)
  qed
qed

lemma surface_index:
  assumes "surface_ok s" "x < sf_width s" "y < sf_height s"
  shows "y * sf_stride s + x < length (sf_pixels s)"
proof -
  have "y * sf_stride s \<le> (sf_height s - 1) * sf_stride s" using assms(3) by (intro mult_le_mono1) simp
  moreover have "(sf_height s - 1) * sf_stride s + sf_width s \<le> length (sf_pixels s)" using assms(1) by (simp add: surface_ok_def)
  ultimately show ?thesis using assms(2) by linarith
qed

lemma stride_inj:
  assumes "surface_ok s" "x < sf_width s" "x' < sf_width s"
  shows "y * sf_stride s + x = y' * sf_stride s + x' \<longleftrightarrow> x = x' \<and> y = y'"
proof -
  have "x < sf_stride s" "x' < sf_stride s" using assms by (simp_all add: surface_ok_def surface_is_valid_def)
  from index_inj [OF this] show ?thesis .
qed

lemma store_recolored:
  assumes "surface_ok s" "X < sf_width s" "Y < sf_height s"
  shows "\<exists>t. store s (Y * sf_stride s + X) v = Ret t \<and> recolored s (\<lambda>x y p. if x = X \<and> y = Y then v else p) t"
proof -
  let ?i = "Y * sf_stride s + X"
  let ?t = "s\<lparr>sf_pixels := (sf_pixels s)[?i := v]\<rparr>"
  have i: "?i < length (sf_pixels s)" by (rule surface_index [OF assms])
  have "store s ?i v = Ret ?t" using i by (simp add: store_def)
  moreover have "pixel ?t x y = (if x = X \<and> y = Y then v else pixel s x y)" if "x < sf_width s" for x y
    using stride_inj [OF assms(1,2) that, of Y y] i by (auto simp: pixel_def nth_list_update)
  ultimately show ?thesis using assms(2,3) i
    by (auto simp: recolored_def same_shape_def nth_list_update)
qed

text \<open>A loop of changes is the change by all of them in order.\<close>

lemma run_for_recolored:
  assumes "\<And>i t. i \<in> set is \<Longrightarrow> same_shape s t \<Longrightarrow> \<exists>u. body i t = Ret u \<and> recolored t (f i) u"
  shows "same_shape s t \<Longrightarrow> \<exists>u. run_for is body t = Ret u \<and> recolored t (\<lambda>x y. fold (\<lambda>i. f i x y) is) u"
  using assms
proof (induction "is" arbitrary: t)
  case Nil
  then show ?case by (simp add: recolored_id)
next
  case (Cons i "is")
  obtain u where u: "body i t = Ret u" "recolored t (f i) u" using Cons.prems by (metis list.set_intros(1))
  have "same_shape s u" using same_shape_trans [OF Cons.prems(1) recolored_shape [OF u(2)]] .
  then obtain v where v: "run_for is body u = Ret v" "recolored u (\<lambda>x y. fold (\<lambda>i. f i x y) is) v"
    using Cons.IH Cons.prems(2) by (metis list.set_intros(2))
  have "recolored t (\<lambda>x y. fold (\<lambda>i. f i x y) (i # is)) v"
    by (rule recolored_cong [OF recolored_comp [OF u(2) v(2)]]) simp
  moreover have "run_for (i # is) body t = Ret v" using u(1) v(1) by simp
  ultimately show ?case by blast
qed

lemma fold_upt_single:
  "fold (\<lambda>i p. if P \<and> x = i then g i p else p) [a..<b] p = (if P \<and> a \<le> x \<and> x < b then g x p else p)"
  by (induction b) (auto simp: less_Suc_eq)

lemma fill_loop:
  assumes "surface_ok s" "b \<le> sf_width s" "d \<le> sf_height s"
  shows "\<exists>t. run_for [c..<d] (\<lambda>yy. run_for [a..<b] (\<lambda>xx s. store s (yy * sf_stride s + xx) v)) s = Ret t \<and>
    recolored s (\<lambda>x y p. if a \<le> x \<and> x < b \<and> c \<le> y \<and> y < d then v else p) t"
proof -
  have row: "\<exists>u. run_for [a..<b] (\<lambda>xx s. store s (yy * sf_stride s + xx) v) t = Ret u \<and>
      recolored t (\<lambda>x y p. if y = yy \<and> a \<le> x \<and> x < b then v else p) u" if "yy \<in> set [c..<d]" "same_shape s t" for yy t
  proof -
    have "\<exists>u. store r (yy * sf_stride r + xx) v = Ret u \<and> recolored r (\<lambda>x y p. if y = yy \<and> x = xx then v else p) u"
      if xx: "xx \<in> set [a..<b]" and r: "same_shape t r" for xx r
    proof -
      have sr: "same_shape s r" using same_shape_trans [OF \<open>same_shape s t\<close> r] .
      then have "surface_ok r" "xx < sf_width r" "yy < sf_height r"
        using assms xx \<open>yy \<in> set [c..<d]\<close> same_shape_ok [OF sr] by (auto simp: same_shape_def)
      from store_recolored [OF this, of v] show ?thesis by (simp add: conj_commute)
    qed
    from run_for_recolored [of "[a..<b]" t "\<lambda>xx s. store s (yy * sf_stride s + xx) v" "\<lambda>xx x y p. if y = yy \<and> x = xx then v else p",
        OF this same_shape_refl]
    obtain u where u: "run_for [a..<b] (\<lambda>xx s. store s (yy * sf_stride s + xx) v) t = Ret u"
      "recolored t (\<lambda>x y. fold (\<lambda>xx p. if y = yy \<and> x = xx then v else p) [a..<b]) u" by blast
    have "recolored t (\<lambda>x y p. if y = yy \<and> a \<le> x \<and> x < b then v else p) u"
      by (rule recolored_cong [OF u(2)]) (rule fold_upt_single)
    with u(1) show ?thesis by blast
  qed
  from run_for_recolored [of "[c..<d]" s "\<lambda>yy. run_for [a..<b] (\<lambda>xx s. store s (yy * sf_stride s + xx) v)"
      "\<lambda>yy x y p. if y = yy \<and> a \<le> x \<and> x < b then v else p", OF row same_shape_refl]
  obtain t where t: "run_for [c..<d] (\<lambda>yy. run_for [a..<b] (\<lambda>xx s. store s (yy * sf_stride s + xx) v)) s = Ret t"
    "recolored s (\<lambda>x y. fold (\<lambda>yy p. if y = yy \<and> a \<le> x \<and> x < b then v else p) [c..<d]) t" by blast
  have "recolored s (\<lambda>x y p. if a \<le> x \<and> x < b \<and> c \<le> y \<and> y < d then v else p) t"
  proof (rule recolored_cong [OF t(2)])
    show "fold (\<lambda>yy p. if y = yy \<and> a \<le> x \<and> x < b then v else p) [c..<d] p =
        (if a \<le> x \<and> x < b \<and> c \<le> y \<and> y < d then v else p)" for x y p
      using fold_upt_single [of "a \<le> x \<and> x < b" y "\<lambda>_ _. v" c d p] by (simp add: conj_ac)
  qed
  with t(1) show ?thesis by blast
qed

lemma c_int_ok: "- (2 ^ 31) \<le> v \<Longrightarrow> v < 2 ^ 31 \<Longrightarrow> c_int v = Ret v"
  by (simp add: c_int_def defined_def)

definition in_rect :: "int \<Rightarrow> int \<Rightarrow> int \<Rightarrow> int \<Rightarrow> nat \<Rightarrow> nat \<Rightarrow> bool" where
  "in_rect x y w h px py \<longleftrightarrow> x \<le> int px \<and> int px < x + w \<and> y \<le> int py \<and> int py < y + h"

definition coords_ok :: "int \<Rightarrow> int \<Rightarrow> bool" where
  "coords_ok x w \<longleftrightarrow> - (2 ^ 31) \<le> x \<and> x < 2 ^ 31 \<and> 0 \<le> w \<and> x + w < 2 ^ 31"

lemma fill_rect_recolored:
  assumes "surface_ok s" "coords_ok x w" "coords_ok y h"
  shows "\<exists>t. unifrog_gfx_fill_rect s x y w h color = Ret t \<and>
    recolored s (\<lambda>px py p. if in_rect x y w h px py then color else p) t"
proof (cases "w = 0 \<or> h = 0")
  case True
  then have "recolored s (\<lambda>px py p. if in_rect x y w h px py then color else p) s"
    by (intro recolored_id) (auto simp: in_rect_def)
  with True show ?thesis using assms by (auto simp: unifrog_gfx_fill_rect_def coords_ok_def)
next
  case False
  define a where "a = (if x < 0 then 0 else x)"
  define b where "b = (if x + w > int (sf_width s) then int (sf_width s) else x + w)"
  define c where "c = (if y < 0 then 0 else y)"
  define d where "d = (if y + h > int (sf_height s) then int (sf_height s) else y + h)"
  have v: "surface_is_valid s" using assms(1) by (simp add: surface_ok_def)
  have pos: "0 < w" "0 < h" using False assms(2,3) by (auto simp: coords_ok_def)
  have "c_int (x + w) = Ret (x + w)" "c_int (y + h) = Ret (y + h)"
    using assms(2,3) by (auto intro!: c_int_ok simp: coords_ok_def)
  then have run: "unifrog_gfx_fill_rect s x y w h color = (if a \<ge> b \<or> c \<ge> d then Ret s
      else run_for [nat c..<nat d] (\<lambda>yy. run_for [nat a..<nat b] (\<lambda>xx s. store s (yy * sf_stride s + xx) color)) s)"
    using v pos by (simp add: unifrog_gfx_fill_rect_def Let_def a_def b_def c_def d_def)
  have rect: "in_rect x y w h px py \<longleftrightarrow> a \<le> int px \<and> int px < b \<and> c \<le> int py \<and> int py < d"
    if "px < sf_width s" "py < sf_height s" for px py
    using that by (auto simp: in_rect_def a_def b_def c_def d_def)
  show ?thesis
  proof (cases "a \<ge> b \<or> c \<ge> d")
    case True
    have "recolored s (\<lambda>px py p. if in_rect x y w h px py then color else p) s"
      by (rule recolored_id) (use rect True in auto)
    with True run show ?thesis by auto
  next
    case False
    have "0 \<le> a" "0 \<le> c" "nat b \<le> sf_width s" "nat d \<le> sf_height s" by (simp_all add: a_def b_def c_def d_def nat_le_iff)
    from fill_loop [OF assms(1) this(3,4), of "nat c" "nat a" color] obtain t
      where t: "run_for [nat c..<nat d] (\<lambda>yy. run_for [nat a..<nat b] (\<lambda>xx s. store s (yy * sf_stride s + xx) color)) s = Ret t"
        "recolored s (\<lambda>x y p. if nat a \<le> x \<and> x < nat b \<and> nat c \<le> y \<and> y < nat d then color else p) t" by blast
    have "recolored s (\<lambda>px py p. if in_rect x y w h px py then color else p) t"
      by (rule recolored_cong [OF t(2)]) (use \<open>0 \<le> a\<close> \<open>0 \<le> c\<close> in \<open>auto simp: rect\<close>)
    with t(1) False run show ?thesis by auto
  qed
qed

text \<open>
   Filling a rectangle changes exactly the pixels of the surface that lie in it, wherever the rectangle
  lies, and nothing else of the buffer: not the padding of the rows, and nothing behind the last row.
\<close>

lemma fill_rect_exact:
  assumes "surface_ok s" "coords_ok x w" "coords_ok y h"
  shows "\<exists>t. unifrog_gfx_fill_rect s x y w h color = Ret t \<and> same_shape s t \<and>
    (\<forall>px < sf_width s. \<forall>py < sf_height s. pixel t px py =
      (if x \<le> int px \<and> int px < x + w \<and> y \<le> int py \<and> int py < y + h then color else pixel s px py)) \<and>
    (\<forall>i. (\<forall>px < sf_width s. \<forall>py < sf_height s. i \<noteq> py * sf_stride s + px) \<longrightarrow> sf_pixels t ! i = sf_pixels s ! i)"
  using fill_rect_recolored [OF assms, of color] by (simp add: recolored_def in_rect_def)

definition surface_example :: surface where
  "surface_example = \<lparr>sf_pixels = replicate 11 0, sf_width = 3, sf_height = 2, sf_stride = 5\<rparr>"

lemma fill_rect_exact_witness:
  "\<exists>t. unifrog_gfx_fill_rect surface_example (-1) 1 3 100 7 = Ret t \<and> pixel t 1 1 = 7 \<and> pixel t 2 1 = 0 \<and> pixel t 0 0 = 0 \<and>
    sf_pixels t ! 10 = 0"
proof -
  have "surface_ok surface_example" by (simp add: surface_ok_def surface_is_valid_def surface_example_def)
  from fill_rect_exact [OF this, of "-1" 3 1 100 7] obtain t where t: "unifrog_gfx_fill_rect surface_example (-1) 1 3 100 7 = Ret t"
    "\<forall>px < sf_width surface_example. \<forall>py < sf_height surface_example. pixel t px py =
      (if -1 \<le> int px \<and> int px < -1 + 3 \<and> 1 \<le> int py \<and> int py < 1 + 100 then 7 else pixel surface_example px py)"
    "\<forall>i. (\<forall>px < sf_width surface_example. \<forall>py < sf_height surface_example. i \<noteq> py * sf_stride surface_example + px) \<longrightarrow>
      sf_pixels t ! i = sf_pixels surface_example ! i"
    by (auto simp: coords_ok_def)
  have s: "sf_width surface_example = 3" "sf_height surface_example = 2" "sf_stride surface_example = 5"
    by (simp_all add: surface_example_def)
  have "pixel surface_example 2 1 = 0" "pixel surface_example 0 0 = 0" "sf_pixels surface_example ! 10 = 0"
    by (simp_all add: pixel_def surface_example_def)
  moreover have "sf_pixels t ! 10 = sf_pixels surface_example ! 10" using t(3) unfolding s by auto
  moreover have "pixel t 1 1 = 7" "pixel t 2 1 = pixel surface_example 2 1" "pixel t 0 0 = pixel surface_example 0 0"
    using t(2) unfolding s by auto
  ultimately show ?thesis using t(1) by auto
qed

section \<open>Text\<close>

definition font_ok :: "font \<Rightarrow> bool" where
  "font_ok font \<longleftrightarrow> length font = 95 \<and> (\<forall>g. Some g \<in> set font \<longrightarrow> length g = 5)"

lemma font_tables:
  "length font5x7_alnum = 36" "length font5x7_lower = 26" "\<forall>g \<in> set font5x7_alnum. length g = 5"
  "\<forall>g \<in> set font5x7_lower. length g = 5" "\<forall>g \<in> snd ` set font5x7_punctuation. length g = 5"
  by (simp_all add: font5x7_alnum_def font5x7_lower_def font5x7_punctuation_def)

lemma glyph_length:
  assumes "font_ok font" "glyph_for font c = Some g"
  shows "length g = 5"
proof -
  let ?n = "of_char c :: nat"
  consider "32 \<le> ?n" "?n \<le> 126" "font ! (?n - 32) = Some g"
    | "48 \<le> ?n" "?n \<le> 57" "g = font5x7_alnum ! (?n - 48)"
    | "65 \<le> ?n" "?n \<le> 90" "g = font5x7_alnum ! (10 + (?n - 65))"
    | "97 \<le> ?n" "?n \<le> 122" "g = font5x7_lower ! (?n - 97)"
    | h where "find (\<lambda>g. fst g = c) font5x7_punctuation = Some h" "g = snd h"
    using assms(2) by (auto simp: glyph_for_def Let_def split: if_splits)
  then show ?thesis
  proof cases
    case 1
    then have "Some g \<in> set font" using assms(1) nth_mem [of "?n - 32" font] by (simp add: font_ok_def)
    with assms(1) show ?thesis by (simp add: font_ok_def)
  next
    case 5
    then have "h \<in> set font5x7_punctuation" by (auto simp: find_Some_iff)
    with 5(2) font_tables(5) show ?thesis by auto
  qed (use font_tables in auto)
qed

text \<open>The dots of a character: its glyph, none for a blank, and an underscore for a character without glyph.\<close>

definition dot :: "font \<Rightarrow> char \<Rightarrow> int \<Rightarrow> int \<Rightarrow> bool" where
  "dot font c col row \<longleftrightarrow> c \<noteq> CHR '' '' \<and> 0 \<le> col \<and> 0 \<le> row \<and> (case glyph_for font c of
     None \<Rightarrow> row = 6 \<and> 1 \<le> col \<and> col \<le> 3
   | Some g \<Rightarrow> col < 5 \<and> row < 7 \<and> bit (g ! nat col) (nat row))"

definition char_covers :: "font \<Rightarrow> int \<Rightarrow> int \<Rightarrow> int \<Rightarrow> char \<Rightarrow> nat \<Rightarrow> nat \<Rightarrow> bool" where
  "char_covers font x y scale c px py \<longleftrightarrow> dot font c ((int px - x) div scale) ((int py - y) div scale)"

lemma fold_const: "fold (\<lambda>i p. if Q i then v else p) is p = (if \<exists>i \<in> set is. Q i then v else p)"
  by (induction "is" arbitrary: p) auto

lemma run_for_marks:
  assumes "\<And>i t. i \<in> set is \<Longrightarrow> same_shape s t \<Longrightarrow>
      \<exists>u. body i t = Ret u \<and> recolored t (\<lambda>px py p. if Q i px py then v else p) u"
    and "same_shape s t"
  shows "\<exists>u. run_for is body t = Ret u \<and> recolored t (\<lambda>px py p. if \<exists>i \<in> set is. Q i px py then v else p) u"
proof -
  obtain u where u: "run_for is body t = Ret u" "recolored t (\<lambda>px py. fold (\<lambda>i p. if Q i px py then v else p) is) u"
    using run_for_recolored [of "is" s body "\<lambda>i px py p. if Q i px py then v else p", OF assms] by blast
  have "recolored t (\<lambda>px py p. if \<exists>i \<in> set is. Q i px py then v else p) u"
    by (rule recolored_cong [OF u(2)]) (rule fold_const)
  with u(1) show ?thesis by blast
qed

lemma div_cell: "0 < s \<Longrightarrow> x + k * s \<le> p \<and> p < x + k * s + s \<longleftrightarrow> (p - x) div s = (k :: int)"
proof
  assume s: "0 < s" and "x + k * s \<le> p \<and> p < x + k * s + s"
  then have "p - x = s * k + (p - x - k * s)" "0 \<le> p - x - k * s" "p - x - k * s < s" by (simp_all add: algebra_simps)
  then show "(p - x) div s = k" by (rule int_div_pos_eq)
next
  assume s: "0 < s" and k: "(p - x) div s = k"
  have "s * ((p - x) div s) + (p - x) mod s = p - x" by simp
  moreover have "0 \<le> (p - x) mod s" "(p - x) mod s < s" using s by simp_all
  ultimately show "x + k * s \<le> p \<and> p < x + k * s + s" unfolding k by (simp add: mult.commute)
qed

definition place_ok :: "int \<Rightarrow> int \<Rightarrow> int \<Rightarrow> bool" where
  "place_ok x y scale \<longleftrightarrow> 0 < scale \<and> 7 * scale < 2 ^ 31 \<and> - (2 ^ 31) \<le> x \<and> x + 6 * scale < 2 ^ 31 \<and>
     - (2 ^ 31) \<le> y \<and> y + 7 * scale < 2 ^ 31"

lemma draw_dot_marks:
  assumes "surface_ok s" "place_ok x y scale" "col < 5" "row < 7"
  shows "\<exists>t. draw_dot x y color scale col row s = Ret t \<and>
    recolored s (\<lambda>px py p. if (int px - x) div scale = int col \<and> (int py - y) div scale = int row then color else p) t"
proof -
  have sc: "0 < scale" using assms(2) by (simp add: place_ok_def)
  have in_range: "c_int k = Ret k \<and> c_int (z + k) = Ret (z + k) \<and> coords_ok (z + k) scale"
    if "0 \<le> k" "k \<le> m * scale" "m * scale < 2 ^ 31" "- (2 ^ 31) \<le> z" "z + (m * scale + scale) < 2 ^ 31" for k m z
    using that sc by (auto intro!: c_int_ok simp: coords_ok_def)
  have x: "c_int (int col * scale) = Ret (int col * scale) \<and> c_int (x + int col * scale) = Ret (x + int col * scale) \<and>
      coords_ok (x + int col * scale) scale"
    by (rule in_range [of _ 4]) (use assms(2,3) sc in \<open>auto simp: place_ok_def intro!: mult_right_mono\<close>)
  have y: "c_int (int row * scale) = Ret (int row * scale) \<and> c_int (y + int row * scale) = Ret (y + int row * scale) \<and>
      coords_ok (y + int row * scale) scale"
    by (rule in_range [of _ 6]) (use assms(2,4) sc in \<open>auto simp: place_ok_def intro!: mult_right_mono\<close>)
  note r = x [THEN conjunct1] y [THEN conjunct1] x [THEN conjunct2, THEN conjunct1] y [THEN conjunct2, THEN conjunct1]
    and k = x [THEN conjunct2, THEN conjunct2] y [THEN conjunct2, THEN conjunct2]
  have run: "draw_dot x y color scale col row s =
      unifrog_gfx_fill_rect s (x + int col * scale) (y + int row * scale) scale scale color"
    by (simp add: draw_dot_def r)
  obtain t where t: "draw_dot x y color scale col row s = Ret t"
    "recolored s (\<lambda>px py p. if in_rect (x + int col * scale) (y + int row * scale) scale scale px py then color else p) t"
    using fill_rect_recolored [OF assms(1) k, of color] run by auto
  have "recolored s (\<lambda>px py p. if (int px - x) div scale = int col \<and> (int py - y) div scale = int row then color else p) t"
    by (rule recolored_cong [OF t(2)]) (use div_cell [OF sc] in \<open>simp add: in_rect_def flip: div_cell [OF sc]\<close>)
  with t(1) show ?thesis by blast
qed

lemma draw_char_marks:
  assumes "font_ok font" "surface_ok s" "place_ok x y scale"
  shows "\<exists>t. unifrog_gfx_draw_char font s x y c color scale = Ret t \<and>
    recolored s (\<lambda>px py p. if char_covers font x y scale c px py then color else p) t"
proof (cases "c = CHR '' ''")
  case True
  have "recolored s (\<lambda>px py p. if char_covers font x y scale c px py then color else p) s"
    by (rule recolored_id) (simp add: char_covers_def dot_def True)
  then show ?thesis using True by (auto simp: unifrog_gfx_draw_char_def)
next
  case False
  have sc: "0 < scale" using assms(3) by (simp add: place_ok_def)
  show ?thesis
  proof (cases "glyph_for font c")
    case None
    have r: "c_int (1 * scale) = Ret scale" "c_int (6 * scale) = Ret (6 * scale)" "c_int (3 * scale) = Ret (3 * scale)"
      "c_int (x + scale) = Ret (x + scale)" "c_int (y + 6 * scale) = Ret (y + 6 * scale)"
      and k: "coords_ok (x + scale) (3 * scale)" "coords_ok (y + 6 * scale) scale"
      using assms(3) by (auto intro!: c_int_ok simp: place_ok_def coords_ok_def)
    have "unifrog_gfx_draw_char font s x y c color scale =
        unifrog_gfx_fill_rect s (x + scale) (y + 6 * scale) (3 * scale) scale color"
      using False sc None r by (simp add: unifrog_gfx_draw_char_def)
    then obtain t where t: "unifrog_gfx_draw_char font s x y c color scale = Ret t"
      "recolored s (\<lambda>px py p. if in_rect (x + scale) (y + 6 * scale) (3 * scale) scale px py then color else p) t"
      using fill_rect_recolored [OF assms(2) k, of color] by auto
    have cov: "in_rect (x + scale) (y + 6 * scale) (3 * scale) scale px py = char_covers font x y scale c px py" for px py
    proof -
      have "x + scale \<le> int px \<and> int px < x + scale + 3 * scale \<longleftrightarrow> 1 \<le> (int px - x) div scale \<and> (int px - x) div scale \<le> 3"
        using div_cell [OF sc, of x 1 "int px"] div_cell [OF sc, of x 2 "int px"] div_cell [OF sc, of x 3 "int px"] sc by auto
      then show ?thesis
        using False None div_cell [OF sc, of y 6 "int py"] by (auto simp: in_rect_def char_covers_def dot_def)
    qed
    from t show ?thesis unfolding cov by blast
  next
    case (Some g)
    let ?dot = "\<lambda>col row px py. bit (g ! col) row \<and> (int px - x) div scale = int col \<and> (int py - y) div scale = int row"
    have g5: "length g = 5" by (rule glyph_length [OF assms(1) Some])
    have cell: "\<exists>u. (if bit (g ! col) row then draw_dot x y color scale col row t else Ret t) = Ret u \<and>
        recolored t (\<lambda>px py p. if ?dot col row px py then color else p) u"
      if "col < 5" "row \<in> set [0..<7]" "same_shape s t" for col row t
      using draw_dot_marks [OF _ assms(3) that(1), of t row color] that(2) same_shape_ok [OF that(3)] assms(2)
      by (cases "bit (g ! col) row") (auto intro!: recolored_id)
    have line: "\<exists>u. run_bind (rd g col) (\<lambda>bits. run_for [0..<7] (\<lambda>row s. if bit bits row then draw_dot x y color scale col row s else Ret s) t) = Ret u \<and>
        recolored t (\<lambda>px py p. if \<exists>row \<in> set [0..<7]. ?dot col row px py then color else p) u"
      if "col \<in> set [0..<5]" "same_shape s t" for col t
      using run_for_marks [of "[0..<7]" s "\<lambda>row s. if bit (g ! col) row then draw_dot x y color scale col row s else Ret s"
          "?dot col" color t] cell [of col] that g5 by simp
    obtain t where t: "unifrog_gfx_draw_char font s x y c color scale = Ret t"
      "recolored s (\<lambda>px py p. if \<exists>col \<in> set [0..<5]. \<exists>row \<in> set [0..<7]. ?dot col row px py then color else p) t"
      using run_for_marks [of "[0..<5]" s _ "\<lambda>col px py. \<exists>row \<in> set [0..<7]. ?dot col row px py" color s, OF line same_shape_refl]
        False sc Some by (auto simp: unifrog_gfx_draw_char_def)
    have "recolored s (\<lambda>px py p. if char_covers font x y scale c px py then color else p) t"
    proof (rule recolored_cong [OF t(2)])
      fix px py p
      have "(\<exists>col \<in> set [0..<5]. \<exists>row \<in> set [0..<7]. ?dot col row px py) \<longleftrightarrow> char_covers font x y scale c px py"
      proof
        assume "char_covers font x y scale c px py"
        then have "nat ((int px - x) div scale) \<in> set [0..<5]" "nat ((int py - y) div scale) \<in> set [0..<7]"
          "?dot (nat ((int px - x) div scale)) (nat ((int py - y) div scale)) px py"
          using False Some by (auto simp: char_covers_def dot_def)
        then show "\<exists>col \<in> set [0..<5]. \<exists>row \<in> set [0..<7]. ?dot col row px py" by blast
      qed (use False Some in \<open>auto simp: char_covers_def dot_def\<close>)
      then show "(if \<exists>col \<in> set [0..<5]. \<exists>row \<in> set [0..<7]. ?dot col row px py then color else p) =
          (if char_covers font x y scale c px py then color else p)" by simp
    qed
    with t(1) show ?thesis by blast
  qed
qed

definition text_covers :: "font \<Rightarrow> int \<Rightarrow> int \<Rightarrow> int \<Rightarrow> string \<Rightarrow> nat \<Rightarrow> nat \<Rightarrow> bool" where
  "text_covers font x y scale t px py \<longleftrightarrow>
     (\<exists>i < length t. char_covers font (x + 6 * scale * int i) y scale (t ! i) px py)"

lemma text_covers_Cons:
  "text_covers font x y scale (c # t) px py \<longleftrightarrow>
    char_covers font x y scale c px py \<or> text_covers font (x + 6 * scale) y scale t px py"
proof
  assume "text_covers font x y scale (c # t) px py"
  then obtain i where i: "i < Suc (length t)" "char_covers font (x + 6 * scale * int i) y scale ((c # t) ! i) px py"
    by (auto simp: text_covers_def)
  then show "char_covers font x y scale c px py \<or> text_covers font (x + 6 * scale) y scale t px py"
    by (cases i) (auto simp: text_covers_def algebra_simps)
next
  assume "char_covers font x y scale c px py \<or> text_covers font (x + 6 * scale) y scale t px py"
  then show "text_covers font x y scale (c # t) px py"
  proof
    assume "char_covers font x y scale c px py"
    then show ?thesis by (auto simp: text_covers_def intro!: exI [of _ 0])
  next
    assume "text_covers font (x + 6 * scale) y scale t px py"
    then obtain i where "i < length t" "char_covers font (x + 6 * scale + 6 * scale * int i) y scale (t ! i) px py"
      by (auto simp: text_covers_def)
    then show ?thesis by (auto simp: text_covers_def algebra_simps intro!: exI [of _ "Suc i"])
  qed
qed

lemma draw_chars_marks:
  assumes "font_ok font" "0 < scale" "7 * scale < 2 ^ 31" "- (2 ^ 31) \<le> y" "y + 7 * scale < 2 ^ 31"
  shows "surface_ok s \<Longrightarrow> - (2 ^ 31) \<le> x \<Longrightarrow> x + 6 * scale * int (length t) < 2 ^ 31 \<Longrightarrow>
    \<exists>u. draw_chars font y color scale t x s = Ret u \<and>
      recolored s (\<lambda>px py p. if text_covers font x y scale t px py then color else p) u"
proof (induction t arbitrary: x s)
  case Nil
  then show ?case by (auto simp: text_covers_def intro!: recolored_id)
next
  case (Cons c t)
  have r: "x + 6 * scale + 6 * scale * int (length t) < 2 ^ 31" using Cons.prems(3) by (simp add: algebra_simps)
  have "0 \<le> 6 * scale * int (length t)" using assms(2) by simp
  then have x6: "x + 6 * scale < 2 ^ 31" using r by linarith
  then have "place_ok x y scale" using Cons.prems(2) assms by (simp add: place_ok_def)
  from draw_char_marks [OF assms(1) Cons.prems(1) this, of c color]
  obtain u where u: "unifrog_gfx_draw_char font s x y c color scale = Ret u"
    "recolored s (\<lambda>px py p. if char_covers font x y scale c px py then color else p) u" by blast
  have "surface_ok u" using same_shape_ok [OF recolored_shape [OF u(2)]] Cons.prems(1) by simp
  moreover have "- (2 ^ 31) \<le> x + 6 * scale" using Cons.prems(2) assms(2) by linarith
  ultimately obtain v where v: "draw_chars font y color scale t (x + 6 * scale) u = Ret v"
    "recolored u (\<lambda>px py p. if text_covers font (x + 6 * scale) y scale t px py then color else p) v"
    using Cons.IH r by blast
  have "c_int (6 * scale) = Ret (6 * scale)" "c_int (x + 6 * scale) = Ret (x + 6 * scale)"
    using assms(2,3) x6 Cons.prems(2) by (auto intro!: c_int_ok)
  then have "draw_chars font y color scale (c # t) x s = Ret v" using u(1) v(1) by simp
  moreover have "recolored s (\<lambda>px py p. if text_covers font x y scale (c # t) px py then color else p) v"
    by (rule recolored_cong [OF recolored_comp [OF u(2) v(2)]]) (simp add: text_covers_Cons)
  ultimately show ?case by blast
qed

text \<open>
  C25.  Text is drawn exactly: a pixel of the surface gets the text colour if and only if the dot of the glyph
  at its place is set, enlarged by the scale, with the characters six dots apart; the text may lie
  partly or completely outside the surface, and nothing else of the buffer changes.
\<close>

theorem draw_text_exact:
  assumes "font_ok font" "surface_ok s" "0 < scale" "7 * scale < 2 ^ 31" "- (2 ^ 31) \<le> x" "- (2 ^ 31) \<le> y"
    "x + 6 * scale * int (length t) < 2 ^ 31" "y + 7 * scale < 2 ^ 31"
  shows "\<exists>u. unifrog_gfx_draw_text_bitmap font s x y (Some t) color scale = Ret u \<and>
    recolored s (\<lambda>px py p. if \<exists>i < length t. dot font (t ! i)
        ((int px - (x + 6 * scale * int i)) div scale) ((int py - y) div scale) then color else p) u"
  using draw_chars_marks [OF assms(1,3,4,6,8,2,5,7), of color] assms(3)
  by (simp add: unifrog_gfx_draw_text_bitmap_def text_covers_def char_covers_def)

definition screen_example :: surface where
  "screen_example = \<lparr>sf_pixels = replicate 40 0, sf_width = 9, sf_height = 4, sf_stride = 10\<rparr>"

theorem draw_text_exact_witness:
  "\<exists>u. unifrog_gfx_draw_text_bitmap font5x7_none screen_example (-2) (-2) (Some ''I-'') 9 1 = Ret u \<and>
    pixel u 0 0 = 9 \<and> pixel u 1 0 = 0 \<and> pixel u 4 1 = 9 \<and> pixel u 8 3 = 0"
proof -
  have ok: "font_ok font5x7_none" "surface_ok screen_example"
    by (auto simp: font_ok_def font5x7_none_def surface_ok_def surface_is_valid_def screen_example_def)
  define P where "P px py \<longleftrightarrow> (\<exists>i < length ''I-''. dot font5x7_none (''I-'' ! i)
    ((int px - (-2 + 6 * 1 * int i)) div 1) ((int py - (-2)) div 1))" for px py
  obtain u where u: "unifrog_gfx_draw_text_bitmap font5x7_none screen_example (-2) (-2) (Some ''I-'') 9 1 = Ret u"
    "recolored screen_example (\<lambda>px py p. if P px py then 9 else p) u"
    using draw_text_exact [OF ok, of 1 "-2" "-2" "''I-''" 9] unfolding P_def by auto
  have d: "sf_width screen_example = 9" "sf_height screen_example = 4" by (simp_all add: screen_example_def)
  have p: "pixel u px py = (if P px py then 9 else pixel screen_example px py)" if "px < 9" "py < 4" for px py
    using u(2) that unfolding recolored_def d by blast
  have e: "P 0 0 = True" "P 1 0 = False" "P 4 1 = True" "P 8 3 = False" unfolding P_def by code_simp+
  have z: "pixel screen_example 1 0 = 0" "pixel screen_example 8 3 = 0" by (simp_all add: pixel_def screen_example_def)
  show ?thesis using u(1) p [of 0 0] p [of 1 0] p [of 4 1] p [of 8 3] e z by auto
qed

end
