(* ===== verification/UF_PngDraw.thy ===== *)
theory UF_PngDraw
  imports UF_Gfx
begin

text \<open>
  Drawing a decoded picture on a surface (\<open>unifrog_png_draw\<close> of \<open>foundation/src/display/unifrog_png.c\<close>):
  the picture is scaled to a rectangle by taking the source pixel at the same proportion, clipped to the surface, and
  blended by its alpha channel.  The last lemma composes loading and drawing.
\<close>

section \<open>Blending\<close>

definition red :: "u16 \<Rightarrow> nat" where "red c = unat c div 2048 mod 32"
definition green :: "u16 \<Rightarrow> nat" where "green c = unat c div 32 mod 64"
definition blue :: "u16 \<Rightarrow> nat" where "blue c = unat c mod 32"

definition blend_rgb565 :: "u16 \<Rightarrow> u16 \<Rightarrow> nat \<Rightarrow> u16" where
  "blend_rgb565 dst src alpha =
     (let inv = 255 - alpha;
          r = (red src * alpha + red dst * inv + 127) div 255;
          g = (green src * alpha + green dst * inv + 127) div 255;
          b = (blue src * alpha + blue dst * inv + 127) div 255
      in push_bit 11 (word_of_nat r) OR push_bit 5 (word_of_nat g) OR word_of_nat b)"

lemma blend_channel:
  fixes s d m :: nat
  assumes "a \<le> 255" "s \<le> m" "d \<le> m"
  shows "(s * a + d * (255 - a) + 127) div 255 \<le> m"
proof -
  have "s * a + d * (255 - a) \<le> m * a + m * (255 - a)" using assms by (intro add_mono mult_right_mono) simp_all
  also have "\<dots> = m * 255" using assms(1) by (simp flip: distrib_left)
  finally have "s * a + d * (255 - a) + 127 < (m + 1) * 255" by simp
  then show ?thesis by (simp add: less_mult_imp_div_less Suc_leI less_Suc_eq_le)
qed

lemma blend_channels:
  assumes "a \<le> 255"
  shows "red (blend_rgb565 d s a) = (red s * a + red d * (255 - a) + 127) div 255"
    "green (blend_rgb565 d s a) = (green s * a + green d * (255 - a) + 127) div 255"
    "blue (blend_rgb565 d s a) = (blue s * a + blue d * (255 - a) + 127) div 255"
proof -
  let ?r = "(red s * a + red d * (255 - a) + 127) div 255" and ?g = "(green s * a + green d * (255 - a) + 127) div 255"
    and ?b = "(blue s * a + blue d * (255 - a) + 127) div 255"
  have "red c \<le> 31" "green c \<le> 63" "blue c \<le> 31" for c by (simp_all add: red_def green_def blue_def less_Suc_eq_le [symmetric])
  then have lt: "?r < 32" "?g < 64" "?b < 32"
    using blend_channel [OF assms, of "red s" 31 "red d"] blend_channel [OF assms, of "green s" 63 "green d"]
      blend_channel [OF assms, of "blue s" 31 "blue d"] by simp_all
  have "?r * 2048 + ?g * 32 + ?b < 2 ^ 16" using lt by simp
  then have u: "unat (blend_rgb565 d s a) = ?r * 2048 + ?g * 32 + ?b"
    unfolding blend_rgb565_def Let_def pack_565 [OF lt(2,3)] unat_of_nat by simp
  define r g b where "r = ?r" "g = ?g" "b = ?b"
  have l: "r < 32" "g < 64" "b < 32" using lt by (simp_all add: r_g_b_def)
  have q: "(k * 32 + b) div 32 = k" "(k * 32 + b) mod 32 = b" for k using l(3) by simp_all
  have e: "r * 2048 + g * 32 + b = (r * 64 + g) * 32 + b" and "g * 32 + b < 2048" using l by simp_all
  then have "(r * 2048 + (g * 32 + b)) div 2048 = r" by simp
  moreover have "(r * 2048 + g * 32 + b) div 32 = r * 64 + g" "(r * 2048 + g * 32 + b) mod 32 = b"
    unfolding e by (rule q)+
  ultimately have "(r * 2048 + g * 32 + b) div 2048 mod 32 = r" "(r * 2048 + g * 32 + b) div 32 mod 64 = g" "(r * 2048 + g * 32 + b) mod 32 = b"
    using l by (simp_all add: add.assoc)
  then show "red (blend_rgb565 d s a) = ?r" "green (blend_rgb565 d s a) = ?g" "blue (blend_rgb565 d s a) = ?b"
    unfolding red_def [of "blend_rgb565 d s a"] green_def [of "blend_rgb565 d s a"] blue_def [of "blend_rgb565 d s a"] u
      r_g_b_def [symmetric] .
qed

section \<open>Drawing\<close>

definition source_index :: "nat \<Rightarrow> nat \<Rightarrow> int \<Rightarrow> nat" where
  "source_index d n w = (let s = d * n div nat w in if s \<ge> n then n - 1 else s)"

definition png_draw_pixel :: "png_image \<Rightarrow> nat \<Rightarrow> nat \<Rightarrow> nat \<Rightarrow> surface \<Rightarrow> surface run" where
  "png_draw_pixel im idx px py s =
     run_bind (rd_known (im_alpha im) idx) (\<lambda>alpha.
       if alpha = 0 then Ret s
       else run_bind (rd_known (im_pixels im) idx) (\<lambda>c.
         if unat alpha \<ge> 255 then store s (py * sf_stride s + px) c
         else run_bind (rd (sf_pixels s) (py * sf_stride s + px)) (\<lambda>old.
           store s (py * sf_stride s + px) (blend_rgb565 old c (unat alpha)))))"

definition png_draw_row :: "png_image \<Rightarrow> int \<Rightarrow> int \<Rightarrow> nat \<Rightarrow> nat \<Rightarrow> surface \<Rightarrow> surface run" where
  "png_draw_row im x w sy py = run_for [0..<nat w] (\<lambda>dx s.
     run_bind (c_int (x + int dx)) (\<lambda>px.
       if px < 0 \<or> px \<ge> int (sf_width s) then Ret s
       else png_draw_pixel im (sy * im_width im + source_index dx (im_width im) w) (nat px) py s))"

definition unifrog_png_draw :: "surface \<Rightarrow> png_image \<Rightarrow> int \<Rightarrow> int \<Rightarrow> int \<Rightarrow> int \<Rightarrow> surface run" where
  "unifrog_png_draw s im x y w h =
     (if im_pixels im = [] \<or> im_alpha im = [] \<or> im_width im = 0 \<or> im_height im = 0 then Ret s
      else let w = (if w \<le> 0 then int (im_width im) else w); h = (if h \<le> 0 then int (im_height im) else h)
      in if w \<le> 0 \<or> h \<le> 0 then Ret s
      else run_for [0..<nat h] (\<lambda>dy s.
        run_bind (c_int (y + int dy)) (\<lambda>py.
          if py < 0 \<or> py \<ge> int (sf_height s) then Ret s
          else png_draw_row im x w (source_index dy (im_height im) h) (nat py) s)) s)"

text \<open>The colour a source pixel gives over an old one.\<close>

definition over :: "png_image \<Rightarrow> nat \<Rightarrow> u16 \<Rightarrow> u16" where
  "over im idx old =
     (let a = the (im_alpha im ! idx); c = the (im_pixels im ! idx)
      in if a = 0 then old else if a = 255 then c else blend_rgb565 old c (unat a))"

definition source_of :: "png_image \<Rightarrow> int \<Rightarrow> int \<Rightarrow> int \<Rightarrow> int \<Rightarrow> nat \<Rightarrow> nat \<Rightarrow> nat" where
  "source_of im x y w h px py =
     source_index (nat (int py - y)) (im_height im) h * im_width im + source_index (nat (int px - x)) (im_width im) w"

lemma source_index_less: "0 < n \<Longrightarrow> source_index d n w < n"
  by (simp add: source_index_def Let_def)

lemma draw_pixel_recolored:
  assumes "image_ok im" "surface_ok s" "idx < im_width im * im_height im" "X < sf_width s" "Y < sf_height s"
  shows "\<exists>t. png_draw_pixel im idx X Y s = Ret t \<and> recolored s (\<lambda>x y p. if x = X \<and> y = Y then over im idx p else p) t"
proof -
  have l: "idx < length (im_alpha im)" "idx < length (im_pixels im)" using assms(1,3) by (simp_all add: image_ok_def dims_def)
  then have "im_alpha im ! idx \<noteq> None" "im_pixels im ! idx \<noteq> None" using assms(1) nth_mem by (metis image_ok_def)+
  then obtain a c where ac: "im_alpha im ! idx = Some a" "im_pixels im ! idx = Some c" by auto
  have r: "rd_known (im_alpha im) idx = Ret a" "rd_known (im_pixels im) idx = Ret c" using l ac by (simp_all add: rd_known_def)
  have a255: "unat a \<ge> 255 \<longleftrightarrow> a = 255"
  proof -
    have "unat a < 256" using unsigned_less [of a] by simp
    then have "unat a \<ge> 255 \<longleftrightarrow> unat a = unat (255 :: u8)" by auto
    then show ?thesis by (simp only: word_unat_eq_iff)
  qed
  have old: "rd (sf_pixels s) (Y * sf_stride s + X) = Ret (pixel s X Y)"
    using surface_index [OF assms(2,4,5)] by (simp add: pixel_def)
  define v where "v = over im idx (pixel s X Y)"
  have eq: "(\<lambda>x y p. if x = X \<and> y = Y then v else p) x y (pixel s x y) =
      (\<lambda>x y p. if x = X \<and> y = Y then over im idx p else p) x y (pixel s x y)" for x y by (simp add: v_def)
  show ?thesis
  proof (cases "a = 0")
    case True
    have "recolored s (\<lambda>x y p. if x = X \<and> y = Y then over im idx p else p) s"
      by (rule recolored_id) (simp add: over_def ac True)
    then show ?thesis using True by (auto simp: png_draw_pixel_def r)
  next
    case False
    have "png_draw_pixel im idx X Y s = store s (Y * sf_stride s + X) v"
      using False by (simp add: png_draw_pixel_def r a255 old v_def over_def ac)
    moreover obtain t where t: "store s (Y * sf_stride s + X) v = Ret t" "recolored s (\<lambda>x y p. if x = X \<and> y = Y then v else p) t"
      using store_recolored [OF assms(2,4,5)] by blast
    moreover have "recolored s (\<lambda>x y p. if x = X \<and> y = Y then over im idx p else p) t"
      using t(2) unfolding recolored_def eq by blast
    ultimately show ?thesis by auto
  qed
qed

lemma fold_upt_shift:
  "fold (\<lambda>i p. if P \<and> int x = z + int i then g i p else p) [0..<n] p =
    (if P \<and> z \<le> int x \<and> int x < z + int n then g (nat (int x - z)) p else p)"
proof (induction n)
  case (Suc n)
  have "int x = z + int n \<Longrightarrow> nat (int x - z) = n" by simp
  with Suc show ?case by auto
qed auto

lemma draw_row_recolored:
  assumes "image_ok im" "surface_ok s" "sy < im_height im" "Y < sf_height s" "coords_ok x w" "0 < w"
  shows "\<exists>t. png_draw_row im x w sy Y s = Ret t \<and>
    recolored s (\<lambda>px py p. if py = Y \<and> x \<le> int px \<and> int px < x + w
      then over im (sy * im_width im + source_index (nat (int px - x)) (im_width im) w) p else p) t"
proof -
  let ?idx = "\<lambda>dx. sy * im_width im + source_index dx (im_width im) w"
  let ?body = "\<lambda>dx s. run_bind (c_int (x + int dx)) (\<lambda>px. if px < 0 \<or> px \<ge> int (sf_width s) then Ret s
       else png_draw_pixel im (?idx dx) (nat px) Y s)"
  have idx: "?idx dx < im_width im * im_height im" for dx
    using index_less [OF source_index_less assms(3)] assms(1) by (simp add: image_ok_def)
  have step: "\<exists>u. ?body dx t = Ret u \<and> recolored t (\<lambda>px py p. if py = Y \<and> int px = x + int dx then over im (?idx dx) p else p) u"
    if "dx \<in> set [0..<nat w]" "same_shape s t" for dx t
  proof -
    have c: "c_int (x + int dx) = Ret (x + int dx)" by (rule c_int_ok) (use that(1) assms(5) in \<open>auto simp: coords_ok_def\<close>)
    have ok: "surface_ok t" "Y < sf_height t" using same_shape_ok [OF that(2)] assms(2,4) that(2) by (simp_all add: same_shape_def)
    show ?thesis
    proof (cases "x + int dx < 0 \<or> x + int dx \<ge> int (sf_width t)")
      case True
      have "recolored t (\<lambda>px py p. if py = Y \<and> int px = x + int dx then over im (?idx dx) p else p) t"
        by (rule recolored_id) (use True in auto)
      with True c show ?thesis by auto
    next
      case False
      then have X: "nat (x + int dx) < sf_width t" "\<And>px. px = nat (x + int dx) \<longleftrightarrow> int px = x + int dx" by auto
      from draw_pixel_recolored [OF assms(1) ok(1) idx [of dx] X(1) ok(2)] obtain u
        where u: "png_draw_pixel im (?idx dx) (nat (x + int dx)) Y t = Ret u"
          "recolored t (\<lambda>px py p. if px = nat (x + int dx) \<and> py = Y then over im (?idx dx) p else p) u" by blast
      have "recolored t (\<lambda>px py p. if py = Y \<and> int px = x + int dx then over im (?idx dx) p else p) u"
        by (rule recolored_cong [OF u(2)]) (auto simp: X(2))
      moreover have "?body dx t = Ret u" using False c u(1) by simp
      ultimately show ?thesis by blast
    qed
  qed
  from run_for_recolored [of "[0..<nat w]" s ?body "\<lambda>dx px py p. if py = Y \<and> int px = x + int dx then over im (?idx dx) p else p",
      OF step same_shape_refl]
  obtain t where t: "run_for [0..<nat w] ?body s = Ret t"
    "recolored s (\<lambda>px py. fold (\<lambda>dx p. if py = Y \<and> int px = x + int dx then over im (?idx dx) p else p) [0..<nat w]) t" by blast
  have "recolored s (\<lambda>px py p. if py = Y \<and> x \<le> int px \<and> int px < x + w then over im (?idx (nat (int px - x))) p else p) t"
    by (rule recolored_cong [OF t(2)]) (use assms(6) in \<open>simp add: fold_upt_shift\<close>)
  with t(1) show ?thesis unfolding png_draw_row_def by blast
qed

lemma png_draw_recolored:
  assumes "image_ok im" "surface_ok s" "coords_ok x w'" "coords_ok y h'"
    "w' = (if w \<le> 0 then int (im_width im) else w)" "h' = (if h \<le> 0 then int (im_height im) else h)"
  shows "\<exists>t. unifrog_png_draw s im x y w h = Ret t \<and>
    recolored s (\<lambda>px py p. if in_rect x y w' h' px py then over im (source_of im x y w' h' px py) p else p) t"
proof -
  have im: "0 < im_width im" "0 < im_height im" "im_pixels im \<noteq> []" "im_alpha im \<noteq> []"
    using assms(1) by (auto simp: image_ok_def dims_def)
  have pos: "0 < w'" "0 < h'" using assms(5,6) im by (auto split: if_splits)
  let ?row = "\<lambda>dy. source_index dy (im_height im) h'"
  let ?c = "\<lambda>dy px. over im (?row dy * im_width im + source_index (nat (int px - x)) (im_width im) w')"
  let ?body = "\<lambda>dy s. run_bind (c_int (y + int dy)) (\<lambda>py. if py < 0 \<or> py \<ge> int (sf_height s) then Ret s
    else png_draw_row im x w' (?row dy) (nat py) s)"
  let ?f = "\<lambda>dy px py p. if (x \<le> int px \<and> int px < x + w') \<and> int py = y + int dy then ?c dy px p else p"
  have step: "\<exists>u. ?body dy t = Ret u \<and> recolored t (?f dy) u" if "dy \<in> set [0..<nat h']" "same_shape s t" for dy t
  proof -
    have c: "c_int (y + int dy) = Ret (y + int dy)" by (rule c_int_ok) (use that(1) assms(4) in \<open>auto simp: coords_ok_def\<close>)
    have ok: "surface_ok t" using same_shape_ok [OF that(2)] assms(2) by simp
    show ?thesis
    proof (cases "y + int dy < 0 \<or> y + int dy \<ge> int (sf_height t)")
      case True
      have "recolored t (?f dy) t" by (rule recolored_id) (use True in auto)
      with True c show ?thesis by auto
    next
      case False
      then have Y: "nat (y + int dy) < sf_height t" "\<And>py. py = nat (y + int dy) \<longleftrightarrow> int py = y + int dy" by auto
      from draw_row_recolored [OF assms(1) ok source_index_less [OF im(2)] Y(1) assms(3) pos(1), of dy h'] obtain u
        where u: "png_draw_row im x w' (?row dy) (nat (y + int dy)) t = Ret u"
          "recolored t (\<lambda>px py p. if py = nat (y + int dy) \<and> x \<le> int px \<and> int px < x + w' then ?c dy px p else p) u" by blast
      have "recolored t (?f dy) u" by (rule recolored_cong [OF u(2)]) (auto simp: Y(2))
      moreover have "?body dy t = Ret u" using False c u(1) by simp
      ultimately show ?thesis by blast
    qed
  qed
  from run_for_recolored [of "[0..<nat h']" s ?body ?f, OF step same_shape_refl]
  obtain t where t: "run_for [0..<nat h'] ?body s = Ret t" "recolored s (\<lambda>px py. fold (\<lambda>dy. ?f dy px py) [0..<nat h']) t" by blast
  have "recolored s (\<lambda>px py p. if in_rect x y w' h' px py then over im (source_of im x y w' h' px py) p else p) t"
  proof (rule recolored_cong [OF t(2)])
    fix px py p
    have "int (nat h') = h'" using pos(2) by simp
    then show "fold (\<lambda>dy. ?f dy px py) [0..<nat h'] p =
        (if in_rect x y w' h' px py then over im (source_of im x y w' h' px py) p else p)"
      unfolding fold_upt_shift [of "x \<le> int px \<and> int px < x + w'" py y "\<lambda>dy. ?c dy px"] in_rect_def source_of_def by simp
  qed
  moreover have "unifrog_png_draw s im x y w h = run_for [0..<nat h'] ?body s"
    unfolding unifrog_png_draw_def Let_def assms(5,6) [symmetric] using im pos by simp
  ultimately show ?thesis using t(1) by auto
qed

section \<open>What is drawn\<close>

text \<open>
  Mixing two 16 bit colours, stated on the bits of the colours: in each of the three fields (five, six and
  five bits, from bit 11, 5 and 0) the new value is the integer nearest to the mean of the two old values
  with the weights \<open>a\<close> and \<open>255 - a\<close> out of 255.  Halves do not occur, so the new colour is unique.
\<close>

definition color_fields :: "(nat \<times> nat) list" where
  "color_fields = [(11, 5), (5, 6), (0, 5)]"

definition color_field :: "nat \<times> nat \<Rightarrow> u16 \<Rightarrow> int" where
  "color_field = (\<lambda>(lo, n) c. int (unat c div 2 ^ lo mod 2 ^ n))"

definition mixed :: "u8 \<Rightarrow> u16 \<Rightarrow> u16 \<Rightarrow> u16 \<Rightarrow> bool" where
  "mixed a src old new \<longleftrightarrow> list_all (\<lambda>f.
     2 * \<bar>255 * color_field f new - (color_field f src * uint a + color_field f old * (255 - uint a))\<bar> < 255) color_fields"

lemma color_field_channels:
  "color_field (11, 5) c = int (red c)" "color_field (5, 6) c = int (green c)" "color_field (0, 5) c = int (blue c)"
  by (simp_all add: color_field_def red_def green_def blue_def)

lemma fields_inject:
  assumes "red a = red b" "green a = green b" "blue a = blue b"
  shows "a = b"
proof -
  have v: "unat c = (unat c div 2048 mod 32) * 2048 + (unat c div 32 mod 64) * 32 + unat c mod 32" for c :: u16
  proof -
    have "unat c < 2048 * 32" using unsigned_less [of c] by simp
    then have "unat c div 2048 mod 32 = unat c div 2048" by (intro mod_less) (simp add: less_mult_imp_div_less)
    moreover have "unat c div 2048 = unat c div 32 div 64" by (simp flip: div_mult2_eq)
    moreover have "unat c div 32 * 32 + unat c mod 32 = unat c"
      "unat c div 32 div 64 * 64 + unat c div 32 mod 64 = unat c div 32" by (rule div_mult_mod_eq)+
    ultimately show ?thesis by linarith
  qed
  have "unat a = unat b" using assms v [of a] v [of b] by (simp add: red_def green_def blue_def)
  then show ?thesis by (simp only: word_unat_eq_iff)
qed

lemma half_abs: "2 * \<bar>x\<bar> < 255 \<longleftrightarrow> - 127 \<le> x \<and> x \<le> (127 :: int)"
  by (cases "0 \<le> x") auto

lemma nearest_unique:
  fixes m n v :: int
  assumes "2 * \<bar>255 * m - v\<bar> < 255" "2 * \<bar>255 * n - v\<bar> < 255"
  shows "m = n"
  using assms unfolding half_abs by linarith

lemma mixed_unique:
  assumes "mixed a src old c" "mixed a src old d"
  shows "c = d"
proof -
  have "color_field f c = color_field f d" if "f \<in> set color_fields" for f
    using assms that unfolding mixed_def list_all_iff by (blast intro: nearest_unique)
  then show ?thesis
    using color_field_channels [of c] color_field_channels [of d]
    by (intro fields_inject) (simp_all add: color_fields_def)
qed

lemma rounded_mean: "2 * \<bar>255 * int ((v + 127) div 255) - int v\<bar> < 255"
proof -
  define q r where "q = (v + 127) div 255" and "r = (v + 127) mod 255"
  have "255 * q + r = v + 127" "r < 255" by (simp_all add: q_def r_def)
  then have "255 * int q - int v = 127 - int r" "int r < 255" "0 \<le> int r" by linarith+
  then show ?thesis unfolding q_def [symmetric] half_abs by linarith
qed

lemma blend_mixed: "mixed a src old (blend_rgb565 old src (unat a))"
proof -
  have "unat a < 256" using unsigned_less [of a] by simp
  then have a: "unat a \<le> 255" by simp
  have m: "2 * \<bar>255 * int ((s * unat a + d * (255 - unat a) + 127) div 255) - (int s * uint a + int d * (255 - uint a))\<bar> < 255" for s d
  proof -
    have "int (s * unat a + d * (255 - unat a)) = int s * uint a + int d * (255 - uint a)"
      using a by (simp add: of_nat_diff)
    with rounded_mean [of "s * unat a + d * (255 - unat a)"] show ?thesis by (simp only:)
  qed
  show ?thesis
    unfolding mixed_def color_fields_def
    by (simp only: list.pred_inject color_field_channels blend_channels [OF a] m simp_thms)
qed

lemma over_mixed:
  assumes "im_alpha im ! idx = Some a" "im_pixels im ! idx = Some c"
  shows "mixed a c old (over im idx old)"
proof -
  have "mixed 0 c old old" "mixed 255 c old c" by (simp_all add: mixed_def color_fields_def)
  then show ?thesis by (simp add: over_def assms blend_mixed)
qed

lemma source_index_floor:
  assumes "0 \<le> d" "d < w" "0 < n"
  shows "source_index (nat d) n w = nat (d * int n div w)" "nat (d * int n div w) < n"
proof -
  have e: "nat d * n div nat w = nat (d * int n div w)"
    using assms by (simp add: nat_div_distrib nat_mult_distrib)
  have "nat d * n < n * nat w" using assms by (simp add: mult.commute)
  then show l: "nat (d * int n div w) < n" unfolding e [symmetric] by (rule less_mult_imp_div_less)
  show "source_index (nat d) n w = nat (d * int n div w)" using l by (simp add: source_index_def e Let_def)
qed

text \<open>
  C24.  Drawing a picture changes exactly the pixels of the surface inside the target rectangle.  The pixel at
  an offset \<open>d\<close> from the left edge takes the picture's column \<open>d * width / w\<close>, rounded down, the row likewise,
  and becomes the mean of that pixel and of the old colour with the weight of the alpha value, rounded to the
  nearest value in each colour field.  The rectangle may lie partly or completely outside the surface, and a
  width or height that is not positive means the size of the picture.
\<close>

theorem png_draw_exact:
  assumes "image_ok im" "surface_ok s" "coords_ok x w'" "coords_ok y h'"
    "w' = (if w \<le> 0 then int (im_width im) else w)" "h' = (if h \<le> 0 then int (im_height im) else h)"
  shows "\<exists>t. unifrog_png_draw s im x y w h = Ret t \<and> same_shape s t \<and>
    (\<forall>px < sf_width s. \<forall>py < sf_height s.
      if x \<le> int px \<and> int px < x + w' \<and> y \<le> int py \<and> int py < y + h'
      then \<exists>sx sy a c. sx < im_width im \<and> sy < im_height im \<and>
        int sx = (int px - x) * int (im_width im) div w' \<and> int sy = (int py - y) * int (im_height im) div h' \<and>
        im_alpha im ! (sy * im_width im + sx) = Some a \<and> im_pixels im ! (sy * im_width im + sx) = Some c \<and>
        mixed a c (pixel s px py) (pixel t px py)
      else pixel t px py = pixel s px py) \<and>
    (\<forall>i. (\<forall>px < sf_width s. \<forall>py < sf_height s. i \<noteq> py * sf_stride s + px) \<longrightarrow> sf_pixels t ! i = sf_pixels s ! i)"
proof -
  obtain t where t: "unifrog_png_draw s im x y w h = Ret t" and
    r: "recolored s (\<lambda>px py p. if in_rect x y w' h' px py then over im (source_of im x y w' h' px py) p else p) t"
    using png_draw_recolored [OF assms] by blast
  have "\<exists>sx sy a c. sx < im_width im \<and> sy < im_height im \<and>
      int sx = (int px - x) * int (im_width im) div w' \<and> int sy = (int py - y) * int (im_height im) div h' \<and>
      im_alpha im ! (sy * im_width im + sx) = Some a \<and> im_pixels im ! (sy * im_width im + sx) = Some c \<and>
      mixed a c (pixel s px py) (pixel t px py)"
    if b: "px < sf_width s" "py < sf_height s" and i: "in_rect x y w' h' px py" for px py
  proof -
    let ?sx = "source_index (nat (int px - x)) (im_width im) w'" and ?sy = "source_index (nat (int py - y)) (im_height im) h'"
    let ?i = "?sy * im_width im + ?sx"
    have im: "0 < im_width im" "0 < im_height im" using assms(1) by (simp_all add: image_ok_def)
    have f: "int ?sx = (int px - x) * int (im_width im) div w'" "int ?sy = (int py - y) * int (im_height im) div h'"
      using source_index_floor(1) [of "int px - x" w' "im_width im"] source_index_floor(1) [of "int py - y" h' "im_height im"] i im
      by (auto simp: in_rect_def pos_imp_zdiv_nonneg_iff)
    have "?i < im_width im * im_height im" using index_less source_index_less im by simp
    then have "?i < length (im_alpha im)" "?i < length (im_pixels im)" using assms(1) by (simp_all add: image_ok_def dims_def)
    then have "im_alpha im ! ?i \<noteq> None" "im_pixels im ! ?i \<noteq> None" using assms(1) nth_mem by (metis image_ok_def)+
    then obtain a c where ac: "im_alpha im ! ?i = Some a" "im_pixels im ! ?i = Some c" by auto
    have "pixel t px py = over im ?i (pixel s px py)" using r b i by (simp add: recolored_def source_of_def)
    with over_mixed [OF ac] ac f source_index_less im show ?thesis by metis
  qed
  with t r show ?thesis by (auto simp: recolored_def in_rect_def)
qed

text \<open>Two by two pixels, of which one is transparent and one half transparent, drawn larger and over the edge.\<close>

definition image_example :: png_image where
  "image_example = \<lparr>im_width = 2, im_height = 2, im_pixels = [Some 0xF800, Some 0x07E0, Some 0x001F, Some 0xFFFF],
     im_alpha = [Some 255, Some 0, Some 128, Some 255]\<rparr>"

theorem png_draw_exact_witness:
  "\<exists>t. unifrog_png_draw surface_example image_example (-1) 0 4 (-1) = Ret t \<and>
    pixel t 0 0 = 0xF800 \<and> pixel t 1 0 = 0 \<and> pixel t 0 1 = 0x0010 \<and> pixel t 2 1 = 0xFFFF"
proof -
  have ok: "image_ok image_example" "surface_ok surface_example"
    by (simp_all add: image_ok_def dims_def image_example_def PNG_MAX_PIXELS_def surface_ok_def surface_is_valid_def surface_example_def)
  have co: "coords_ok (-1) 4" "coords_ok 0 2" by (simp_all add: coords_ok_def)
  have "4 = (if (4 :: int) \<le> 0 then int (im_width image_example) else 4)" "2 = (if (-1 :: int) \<le> 0 then int (im_height image_example) else -1)"
    by (simp_all add: image_example_def)
  from png_draw_exact [OF ok co this] obtain t
    where t: "unifrog_png_draw surface_example image_example (-1) 0 4 (-1) = Ret t"
      "\<forall>px < sf_width surface_example. \<forall>py < sf_height surface_example.
        if -1 \<le> int px \<and> int px < -1 + 4 \<and> 0 \<le> int py \<and> int py < 0 + 2
        then \<exists>sx sy a c. sx < im_width image_example \<and> sy < im_height image_example \<and>
          int sx = (int px - -1) * int (im_width image_example) div 4 \<and>
          int sy = (int py - 0) * int (im_height image_example) div 2 \<and>
          im_alpha image_example ! (sy * im_width image_example + sx) = Some a \<and>
          im_pixels image_example ! (sy * im_width image_example + sx) = Some c \<and>
          mixed a c (pixel surface_example px py) (pixel t px py)
        else pixel t px py = pixel surface_example px py"
    by blast
  have d: "sf_width surface_example = 3" "sf_height surface_example = 2" "im_width image_example = 2" "im_height image_example = 2"
    by (simp_all add: surface_example_def image_example_def)
  have m: "pixel t px py = v"
    if "px < 3" "py < 2" "sx = (px + 1) * 2 div 4" "im_alpha image_example ! (py * 2 + sx) = Some a"
      "im_pixels image_example ! (py * 2 + sx) = Some c" "mixed a c (pixel surface_example px py) v" for px py sx a c v
  proof -
    obtain sx' sy a' c' where q: "int sx' = (int px - -1) * 2 div 4" "int sy = (int py - 0) * 2 div 2"
      "im_alpha image_example ! (sy * 2 + sx') = Some a'" "im_pixels image_example ! (sy * 2 + sx') = Some c'"
      "mixed a' c' (pixel surface_example px py) (pixel t px py)"
      using t(2) [rule_format, of px py] \<open>px < 3\<close> \<open>py < 2\<close> unfolding d by fastforce
    have "int sx' = int sx" unfolding q(1) that(3) by (simp add: zdiv_int)
    then have "sx' = sx" "sy = py" using q(2) by simp_all
    with q(3,4) that(4,5) have "a' = a" "c' = c" by simp_all
    with q(5) that(6) show ?thesis using mixed_unique by blast
  qed
  have "mixed 255 0xF800 (pixel surface_example 0 0) 0xF800" "mixed 0 0x07E0 (pixel surface_example 1 0) 0"
    "mixed 128 0x001F (pixel surface_example 0 1) 0x0010" "mixed 255 0xFFFF (pixel surface_example 2 1) 0xFFFF"
    by (simp_all add: mixed_def color_fields_def color_field_def surface_example_def pixel_def)
  then show ?thesis
    using t(1) m [of 0 0 0] m [of 1 0 1] m [of 0 1 0] m [of 2 1 1] by (auto simp: image_example_def)
qed

text \<open>Loading any file and drawing the result is safe.\<close>

lemma png_load_and_draw:
  assumes "surface_ok s" "coords_ok x w" "coords_ok y h" "0 < w" "0 < h"
  shows "runs (run_bind (unifrog_png_load_file uncompress alloc fp) (\<lambda>(ret, im).
    if ret = 0 then unifrog_png_draw s im x y w h else Ret s)) (same_shape s)"
proof (cases "png_load uncompress alloc fp")
  case (Ret im)
  then have "image_ok im" using png_load_runs [of uncompress alloc fp] by simp
  then obtain t where "unifrog_png_draw s im x y w h = Ret t" "same_shape s t"
    using png_draw_recolored [OF _ assms(1-3), of im w h] assms(4,5) by (auto dest: recolored_shape)
  with Ret show ?thesis by (simp add: unifrog_png_load_file_def)
next
  case Trap
  then show ?thesis using png_load_runs [of uncompress alloc fp] by simp
qed (simp add: unifrog_png_load_file_def)

end
