(* ===== verification/UF_Readahead.thy ===== *)
theory UF_Readahead
  imports UF_Media UF_Fs "HOL-Library.Sublist"
begin

text \<open>
  The file input of the media player
  (\<open>components/media/src/platform/sf2000/unifrog_media_buffered_io.c\<close>): a reader with a cache of
  read-ahead slots, which reopens its file after an error of the card.

  The card is a value of type \<open>disk\<close>: the bytes of the file, the offset of the open descriptor, and
  the outcomes of the calls to come.  A call takes the next outcome; it fails with an error number, or
  it works and a \<open>read\<close> gives at most the number of bytes of the outcome.  A \<open>read\<close> that fails may have
  written anything into the buffer and moved the offset of the descriptor.  When the list is empty, calls work.  Theorems quantify over all
  outcomes.  Clock readings and the exit button are lists in the same way.  The pointer to the input
  is never null in this file's calls, and \<open>off_t\<close> holds every position.

  The counters of \<open>struct media_buffered_input\<close> that nothing reads but the log are grouped in
  \<open>io_stats\<close>.  Log output is not modelled.
\<close>

section \<open>The card\<close>

datatype outcome = Fails nat "u8 list" nat | Gives nat

record disk =
  dbytes :: "u8 list"
  doffset :: int
  doutcomes :: "outcome list"
  derrno :: nat
  dticks :: "u32 list"
  dexits :: "bool list"
  dfd :: nat

definition EIO :: int where "EIO = 5"
definition ENOMEM :: int where "ENOMEM = 12"
definition ENOSYS :: int where "ENOSYS = 88"

definition AVERROR :: "int \<Rightarrow> int" where "AVERROR e = - e"
definition AVERROR_EOF :: int where "AVERROR_EOF = - 541478725"
definition AVSEEK_SIZE :: int where "AVSEEK_SIZE = 0x10000"
definition AVSEEK_FORCE :: int where "AVSEEK_FORCE = 0x20000"
definition SEEK_SET :: int where "SEEK_SET = 0"
definition SEEK_CUR :: int where "SEEK_CUR = 1"
definition SEEK_END :: int where "SEEK_END = 2"

text \<open>\<open>errno ? errno : EIO\<close>.\<close>

definition errno_or_eio :: "disk \<Rightarrow> int" where
  "errno_or_eio d = (if derrno d = 0 then EIO else int (derrno d))"

definition next_outcome :: "disk \<Rightarrow> outcome \<times> disk" where
  "next_outcome d = (case doutcomes d of [] \<Rightarrow> (Gives (length (dbytes d)), d)
     | x # xs \<Rightarrow> (x, d\<lparr>doutcomes := xs\<rparr>))"

definition sys_open :: "disk \<Rightarrow> int \<times> disk" where
  "sys_open d = (case next_outcome d of
     (Fails e _ _, d) \<Rightarrow> (-1, d\<lparr>derrno := e\<rparr>) | (Gives _, d) \<Rightarrow> (int (dfd d), d\<lparr>doffset := 0\<rparr>))"

definition sys_fstat :: "disk \<Rightarrow> int option \<times> disk" where
  "sys_fstat d = (case next_outcome d of
     (Fails e _ _, d) \<Rightarrow> (None, d\<lparr>derrno := e\<rparr>) | (Gives _, d) \<Rightarrow> (Some (int (length (dbytes d))), d))"

definition sys_lseek :: "int \<Rightarrow> int \<Rightarrow> disk \<Rightarrow> int \<times> disk" where
  "sys_lseek off whence d = (case next_outcome d of
     (Fails e _ _, d) \<Rightarrow> (-1, d\<lparr>derrno := e\<rparr>)
   | (Gives _, d) \<Rightarrow>
       let pos = off + (if whence = SEEK_SET then 0 else if whence = SEEK_CUR then doffset d
                        else int (length (dbytes d)))
       in if pos < 0 then (-1, d\<lparr>derrno := nat EINVAL\<rparr>) else (pos, d\<lparr>doffset := pos\<rparr>))"

text \<open>The number of bytes, and what is written from the start of the buffer of \<open>n\<close> bytes.\<close>

definition sys_read :: "nat \<Rightarrow> disk \<Rightarrow> int \<times> u8 list \<times> disk" where
  "sys_read n d = (case next_outcome d of
     (Fails e junk moved, d) \<Rightarrow> (-1, take n junk, d\<lparr>derrno := e, doffset := doffset d + int moved\<rparr>)
   | (Gives k, d) \<Rightarrow>
       let bytes = take (max 1 k) (take n (drop (nat (doffset d)) (dbytes d)))
       in (int (length bytes), bytes, d\<lparr>doffset := doffset d + int (length bytes)\<rparr>))"

definition storage_recover :: "disk \<Rightarrow> int \<times> disk" where
  "storage_recover d = (case next_outcome d of
     (Fails e _ _, d) \<Rightarrow> (-1, d\<lparr>derrno := e\<rparr>) | (Gives _, d) \<Rightarrow> (0, d))"

definition unifrog_perf_time_ms :: "disk \<Rightarrow> u32 \<times> disk" where
  "unifrog_perf_time_ms d = (case dticks d of [] \<Rightarrow> (0, d) | t # ts \<Rightarrow> (t, d\<lparr>dticks := ts\<rparr>))"

definition media_exit_down :: "disk \<Rightarrow> bool \<times> disk" where
  "media_exit_down d = (case dexits d of [] \<Rightarrow> (False, d) | b # bs \<Rightarrow> (b, d\<lparr>dexits := bs\<rparr>))"

section \<open>The input\<close>

record io_stats =
  read_calls :: u64
  read_bytes :: u64
  read_requested :: u64
  disk_read_calls :: u64
  disk_read_bytes :: u64
  readahead_hits :: u64
  readahead_hit_bytes :: u64
  readahead_fills :: u64
  readahead_misses :: u64
  readahead_evictions :: u64
  readahead_seek_hits :: u64
  slow_disk_reads :: u64
  disk_read_ms_total :: u64
  short_reads :: u32
  seek_calls :: u32
  max_request :: int
  max_read :: int
  max_disk_read :: int
  max_disk_read_ms :: u32
  max_disk_read_pos :: int

record media_buffered_input =
  fd :: int
  avio :: bool
  tag :: "string option"
  path :: "string option"
  buffer_size :: u32
  readahead :: "u8 list option"
  readahead_size :: u32
  readahead_total_size :: u32
  readahead_slot_count :: nat
  readahead_slots :: "readahead_slot list"
  readahead_clock :: u32
  logical_pos :: int
  fd_pos :: int
  file_size :: int
  readahead_enabled :: bool
  readahead_preload :: bool
  storage_recoveries :: u32
  last_errno :: nat
  stats :: io_stats

text \<open>The fields of \<open>struct unifrog_media_tuning\<close> that the input reads.\<close>

record media_tuning =
  file_buffer_size :: u32
  file_buffer_min_size :: u32
  file_readahead_size :: u32
  file_readahead_min_size :: u32
  file_readahead_slots :: nat
  video_readahead_size :: u32
  video_readahead_min_size :: u32
  video_readahead_slots :: nat
  video_prefill_target_ms :: u32
  video_prefill_min_bytes :: u32
  video_prefill_max_bytes :: u32
  video_preload_max_bytes :: u32
  file_slow_read_log_ms :: u32

definition MEDIA_READAHEAD_MAX_SLOTS :: nat where "MEDIA_READAHEAD_MAX_SLOTS = 16"

text \<open>Storing bytes into a buffer from a position on.\<close>

definition overwrite :: "nat \<Rightarrow> 'a list \<Rightarrow> 'a list \<Rightarrow> 'a list" where
  "overwrite p bytes buf = take p buf @ bytes @ drop (p + length bytes) buf"

section \<open>Allocation\<close>

text \<open>
  \<open>av_malloc\<close> gives the memory, with whatever it holds, or the null pointer.  The loop that halves the
  size until the allocation works is the same in both functions; for the file buffer, one slot, the
  test of the product never fails.
\<close>

type_synonym allocator = "nat \<Rightarrow> u8 list option"

fun alloc_halving :: "allocator \<Rightarrow> u32 \<Rightarrow> nat \<Rightarrow> nat \<Rightarrow> (u8 list \<times> nat) option" where
  "alloc_halving av_malloc slots min_size sz =
     (if sz \<ge> min_size \<and> sz > 0
      then let total = (word_of_nat sz :: u32) * slots
           in if total div word_of_nat sz \<noteq> slots then None
              else case av_malloc (unat total) of
                     Some buffer \<Rightarrow> Some (buffer, sz)
                   | None \<Rightarrow> alloc_halving av_malloc slots min_size (sz div 2)
      else None)"

definition media_alloc_file_buffer :: "allocator \<Rightarrow> media_tuning \<Rightarrow> (u8 list \<times> nat) option" where
  "media_alloc_file_buffer av_malloc T =
     alloc_halving av_malloc 1 (min (unat (file_buffer_min_size T)) (unat (file_buffer_size T)))
       (unat (file_buffer_size T))"

fun alloc_slots_loop :: "allocator \<Rightarrow> nat \<Rightarrow> nat \<Rightarrow> nat \<Rightarrow> (u8 list \<times> nat \<times> nat) option" where
  "alloc_slots_loop av_malloc want min_size slots =
     (if slots > 0
      then case alloc_halving av_malloc (word_of_nat slots) min_size want of
             Some (buffer, sz) \<Rightarrow> Some (buffer, sz, slots)
           | None \<Rightarrow> alloc_slots_loop av_malloc want min_size (slots div 2)
      else None)"

definition media_alloc_readahead_buffer ::
  "allocator \<Rightarrow> u32 \<Rightarrow> u32 \<Rightarrow> nat \<Rightarrow> (u8 list \<times> nat \<times> nat) option"
where
  "media_alloc_readahead_buffer av_malloc want min_size want_slots =
     (if want = 0 then None
      else alloc_slots_loop av_malloc (unat want) (min (unat min_size) (unat want))
        (min MEDIA_READAHEAD_MAX_SLOTS (if want_slots = 0 then 1 else want_slots)))"

definition media_buffered_tag_is_video :: "string option \<Rightarrow> bool" where
  "media_buffered_tag_is_video t = (case t of None \<Rightarrow> False | Some s \<Rightarrow> sublist ''video'' s)"

section \<open>Recovery and the slots\<close>

definition media_buffered_record_disk_read ::
  "media_tuning \<Rightarrow> int \<Rightarrow> int \<Rightarrow> u32 \<Rightarrow> media_buffered_input \<Rightarrow> media_buffered_input"
where
  "media_buffered_record_disk_read T pos got elapsed_ms =
     stats_update (\<lambda>s.
       let s = s\<lparr>disk_read_calls := disk_read_calls s + 1,
                 disk_read_ms_total := disk_read_ms_total s + ucast elapsed_ms\<rparr>;
           s = (if got > max_disk_read s then s\<lparr>max_disk_read := got\<rparr> else s);
           s = (if elapsed_ms > max_disk_read_ms s
                then s\<lparr>max_disk_read_ms := elapsed_ms, max_disk_read_pos := pos\<rparr> else s)
       in if elapsed_ms \<ge> file_slow_read_log_ms T then s\<lparr>slow_disk_reads := slow_disk_reads s + 1\<rparr> else s)"

definition media_buffered_input_invalidate_cache :: "media_buffered_input \<Rightarrow> media_buffered_input" where
  "media_buffered_input_invalidate_cache inp = inp\<lparr>
     readahead_slots := map (\<lambda>s. s\<lparr>rsize := 0, rstart := 0, rlast_used := 0\<rparr>) (readahead_slots inp),
     readahead_clock := 0\<rparr>"

definition note_size :: "int option \<Rightarrow> media_buffered_input \<Rightarrow> media_buffered_input" where
  "note_size st inp = (case st of None \<Rightarrow> inp | Some n \<Rightarrow> inp\<lparr>file_size := n\<rparr>)"

text \<open>What happens to the input before the card is recovered: it is counted, closed and emptied.\<close>

definition recover_begin :: "media_buffered_input \<Rightarrow> media_buffered_input" where
  "recover_begin inp =
     (let inp = inp\<lparr>storage_recoveries := storage_recoveries inp + 1\<rparr>;
          inp = (if fd inp \<ge> 0 then inp\<lparr>fd := -1\<rparr> else inp)
      in media_buffered_input_invalidate_cache inp)"

definition media_buffered_recover_fd ::
  "int \<Rightarrow> media_buffered_input \<Rightarrow> disk \<Rightarrow> int \<times> media_buffered_input \<times> disk"
where
  "media_buffered_recover_fd pos inp d =
     (if path inp = None \<or> path inp = Some [] \<or> pos < 0 then (AVERROR EINVAL, inp, d)
      else if storage_recoveries inp \<ge> 3 then (AVERROR EIO, inp, d)
      else let inp = recover_begin inp;
               (ok, d) = storage_recover d
           in if ok \<noteq> 0 then (AVERROR EIO, inp, d)
              else let (f, d) = sys_open (d\<lparr>derrno := 0\<rparr>)
                   in if f < 0 then (AVERROR (errno_or_eio d), inp\<lparr>last_errno := derrno d\<rparr>, d)
                      else let inp = inp\<lparr>fd := f\<rparr>;
                               (st, d) = sys_fstat d;
                               inp = note_size st inp;
                               (p, d) = sys_lseek pos SEEK_SET (d\<lparr>derrno := 0\<rparr>)
                           in if p < 0 then (AVERROR (errno_or_eio d), inp\<lparr>last_errno := derrno d, fd := -1\<rparr>, d)
                              else (0, inp\<lparr>logical_pos := pos, fd_pos := pos\<rparr>, d))"

text \<open>The slots in use, and a pointer to the data of one as a position in the buffer.\<close>

definition used_slots :: "media_buffered_input \<Rightarrow> readahead_slot list" where
  "used_slots inp = take (readahead_slot_count inp) (readahead_slots inp)"

definition media_buffered_readahead_slot_data :: "media_buffered_input \<Rightarrow> nat \<Rightarrow> nat option" where
  "media_buffered_readahead_slot_data inp slot =
     (if readahead inp = None \<or> readahead_size inp = 0 \<or> slot \<ge> readahead_slot_count inp then None
      else Some (slot * unat (readahead_size inp)))"

definition media_buffered_readahead_choose_slot :: "media_buffered_input \<Rightarrow> nat \<times> media_buffered_input" where
  "media_buffered_readahead_choose_slot inp =
     (if readahead_slot_count inp = 0 then (0, inp)
      else let (best, evicted) = unifrog_media_policy_choose_slot (Some (used_slots inp))
           in (best, if evicted
                     then stats_update (\<lambda>s. s\<lparr>readahead_evictions := readahead_evictions s + 1\<rparr>) inp else inp))"

definition media_buffered_readahead_touch :: "nat \<Rightarrow> media_buffered_input \<Rightarrow> media_buffered_input" where
  "media_buffered_readahead_touch slot inp =
     (if slot \<ge> readahead_slot_count inp then inp
      else case unifrog_media_policy_touch (Some (used_slots inp)) (readahead_clock inp) slot of
             (clock, Some ss) \<Rightarrow> inp\<lparr>readahead_slots := ss @ drop (readahead_slot_count inp) (readahead_slots inp),
                                    readahead_clock := clock\<rparr>
           | (clock, None) \<Rightarrow> inp\<lparr>readahead_clock := clock\<rparr>)"

definition media_buffered_sync_fd ::
  "media_buffered_input \<Rightarrow> disk \<Rightarrow> int \<times> media_buffered_input \<times> disk"
where
  "media_buffered_sync_fd inp d =
     (if fd inp < 0 then (AVERROR EINVAL, inp, d)
      else if fd_pos inp = logical_pos inp then (0, inp, d)
      else let (pos, d) = sys_lseek (logical_pos inp) SEEK_SET (d\<lparr>derrno := 0\<rparr>)
           in if pos < 0
              then let (r, inp, d) = media_buffered_recover_fd (logical_pos inp) (inp\<lparr>last_errno := derrno d\<rparr>) d
                   in (if r = 0 then 0 else AVERROR (errno_or_eio d), inp, d)
              else (0, inp\<lparr>fd_pos := pos\<rparr>, d))"

section \<open>Reading\<close>

text \<open>One \<open>read\<close> with its measurement; \<open>start_ms\<close> is the time before the first attempt.\<close>

definition timed_read ::
  "media_tuning \<Rightarrow> nat \<Rightarrow> int \<Rightarrow> u32 \<Rightarrow> media_buffered_input \<Rightarrow> disk \<Rightarrow> int \<times> u8 list \<times> media_buffered_input \<times> disk"
where
  "timed_read T n pos start_ms inp d =
     (let (got, bytes, d) = sys_read n (d\<lparr>derrno := 0\<rparr>);
          (now, d) = unifrog_perf_time_ms d
      in (got, bytes, media_buffered_record_disk_read T pos got (now - start_ms) inp, d))"

text \<open>The code after \<open>read_ok\<close>.\<close>

definition direct_ok :: "int \<Rightarrow> media_buffered_input \<Rightarrow> media_buffered_input" where
  "direct_ok got inp = (stats_update (\<lambda>s. s\<lparr>disk_read_bytes := disk_read_bytes s + of_int got\<rparr>) inp)
     \<lparr>logical_pos := logical_pos inp + got, fd_pos := fd_pos inp + got\<rparr>"

definition media_buffered_read_direct ::
  "media_tuning \<Rightarrow> int \<Rightarrow> media_buffered_input \<Rightarrow> disk \<Rightarrow> int \<times> u8 list \<times> media_buffered_input \<times> disk"
where
  "media_buffered_read_direct T buf_size inp d =
     (let (ret, inp, d) = media_buffered_sync_fd inp d
      in if ret < 0 then (ret, [], inp, d)
         else let pos = logical_pos inp;
                  (start_ms, d) = unifrog_perf_time_ms d;
                  (got, bytes, inp, d) = timed_read T (nat buf_size) pos start_ms inp d
              in if got < 0
                 then let inp = inp\<lparr>last_errno := derrno d\<rparr>;
                          (r, inp, d) = media_buffered_recover_fd pos inp d
                      in if r = 0
                         then let (got, bytes, inp, d) = timed_read T (nat buf_size) pos start_ms inp d
                              in if got > 0 then (got, bytes, direct_ok got inp, d)
                                 else (AVERROR (errno_or_eio d), bytes, inp\<lparr>last_errno := derrno d\<rparr>, d)
                         else (AVERROR (errno_or_eio d), bytes, inp, d)
                 else if got = 0 then (AVERROR_EOF, bytes, inp, d)
                 else (got, bytes, direct_ok got inp, d))"

text \<open>A \<open>read\<close> into the data of a slot; the slot is empty afterwards.\<close>

definition set_slot :: "nat \<Rightarrow> int \<Rightarrow> u32 \<Rightarrow> media_buffered_input \<Rightarrow> media_buffered_input" where
  "set_slot i start sz inp = inp\<lparr>readahead_slots :=
     (readahead_slots inp)[i := (readahead_slots inp ! i)\<lparr>rstart := start, rsize := sz\<rparr>]\<rparr>"

definition slot_read ::
  "media_tuning \<Rightarrow> nat \<Rightarrow> nat \<Rightarrow> int \<Rightarrow> u32 \<Rightarrow> media_buffered_input \<Rightarrow> disk \<Rightarrow> int \<times> media_buffered_input \<times> disk"
where
  "slot_read T slot_index slot_data pos start_ms inp d =
     (let (got, bytes, inp, d) = timed_read T (unat (readahead_size inp)) pos start_ms inp d;
          inp = inp\<lparr>readahead := map_option (overwrite slot_data bytes) (readahead inp)\<rparr>
      in (got, set_slot slot_index (logical_pos inp) 0 inp, d))"

text \<open>The code after \<open>readahead_ok\<close>; the start of the slot is set already.\<close>

definition readahead_ok :: "nat \<Rightarrow> int \<Rightarrow> media_buffered_input \<Rightarrow> media_buffered_input" where
  "readahead_ok slot_index got inp =
     (let inp = stats_update (\<lambda>s. s\<lparr>disk_read_bytes := disk_read_bytes s + of_int got\<rparr>) inp;
          inp = inp\<lparr>fd_pos := fd_pos inp + got\<rparr>;
          inp = set_slot slot_index (rstart (readahead_slots inp ! slot_index)) (of_int got) inp;
          inp = media_buffered_readahead_touch slot_index inp
      in stats_update (\<lambda>s. s\<lparr>readahead_fills := readahead_fills s + 1\<rparr>) inp)"

text \<open>
  The second half of a fill, from the first \<open>read\<close> on, with the descriptor at the position.
\<close>

definition fill_slot ::
  "media_tuning \<Rightarrow> nat \<Rightarrow> nat \<Rightarrow> u32 \<Rightarrow> media_buffered_input \<Rightarrow> disk \<Rightarrow> int \<times> media_buffered_input \<times> disk"
where
  "fill_slot T slot_index slot_data start_ms inp d =
     (let pos = logical_pos inp; (got, inp, d) = slot_read T slot_index slot_data pos start_ms inp d
      in if got < 0
         then let inp = inp\<lparr>last_errno := derrno d\<rparr>;
                  (r, inp, d) = media_buffered_recover_fd pos inp d
              in if r = 0
                 then let (got, inp, d) = slot_read T slot_index slot_data pos start_ms inp d
                      in if got > 0 then (0, readahead_ok slot_index got inp, d)
                         else (AVERROR (errno_or_eio d), inp\<lparr>last_errno := derrno d\<rparr>, d)
                 else (AVERROR (errno_or_eio d), inp, d)
         else if got = 0 then (AVERROR_EOF, inp, d)
         else (0, readahead_ok slot_index got inp, d))"

definition media_buffered_fill_readahead ::
  "media_tuning \<Rightarrow> media_buffered_input \<Rightarrow> disk \<Rightarrow> int \<times> media_buffered_input \<times> disk"
where
  "media_buffered_fill_readahead T inp d =
     (if readahead inp = None \<or> readahead_size inp = 0 \<or> readahead_slot_count inp = 0 then (AVERROR EINVAL, inp, d)
      else let (slot_index, inp) = media_buffered_readahead_choose_slot inp
           in case media_buffered_readahead_slot_data inp slot_index of
                None \<Rightarrow> (AVERROR EINVAL, inp, d)
              | Some slot_data \<Rightarrow>
                let (ret, inp, d) = media_buffered_sync_fd inp d
                in if ret < 0 then (ret, inp, d)
                   else let (start_ms, d) = unifrog_perf_time_ms d
                        in fill_slot T slot_index slot_data start_ms inp d)"

definition find_slot :: "media_buffered_input \<Rightarrow> int \<Rightarrow> bool \<Rightarrow> int" where
  "find_slot inp pos allow_end = unifrog_media_policy_find_slot (Some (used_slots inp)) pos allow_end"

definition slot_end :: "readahead_slot \<Rightarrow> int" where
  "slot_end s = rstart s + int (unat (rsize s))"

text \<open>The results are the return value and \<open>*got_out\<close>.\<close>

definition media_buffered_fill_readahead_at ::
  "media_tuning \<Rightarrow> int \<Rightarrow> media_buffered_input \<Rightarrow> disk \<Rightarrow> int \<times> nat \<times> media_buffered_input \<times> disk"
where
  "media_buffered_fill_readahead_at T pos inp d =
     (if pos < 0 then (AVERROR EINVAL, 0, inp, d)
      else let slot_index = find_slot inp pos False
      in if slot_index \<ge> 0
         then let end_pos = slot_end (readahead_slots inp ! nat slot_index);
                  inp = media_buffered_readahead_touch (nat slot_index) inp
              in (0, if end_pos > pos then nat (end_pos - pos) else 0, inp, d)
         else let saved_logical = logical_pos inp;
                  (ret, inp, d) = media_buffered_fill_readahead T (inp\<lparr>logical_pos := pos\<rparr>) d;
                  inp = inp\<lparr>logical_pos := saved_logical\<rparr>
              in if ret < 0 then (ret, 0, inp, d)
                 else let slot_index = find_slot inp pos False
                      in (0, if slot_index \<ge> 0 then unat (rsize (readahead_slots inp ! nat slot_index)) else 0, inp, d))"

function prefill_loop ::
  "media_tuning \<Rightarrow> nat \<Rightarrow> nat \<Rightarrow> int \<Rightarrow> media_buffered_input \<Rightarrow> disk \<Rightarrow> nat \<times> media_buffered_input \<times> disk"
where
  "prefill_loop T target_bytes filled pos inp d =
     (case media_exit_down d of (stop, d) \<Rightarrow>
      if stop \<or> filled \<ge> target_bytes then (filled, inp, d)
      else if file_size inp \<ge> 0 \<and> pos \<ge> file_size inp then (filled, inp, d)
      else case media_buffered_fill_readahead_at T pos inp d of (ret, got, inp, d) \<Rightarrow>
        if ret < 0 \<or> got = 0 then (filled, inp, d)
        else prefill_loop T target_bytes (filled + min got (target_bytes - filled)) (pos + int got) inp d)"
  by pat_completeness auto
termination by (relation "measure (\<lambda>(T, target_bytes, filled, pos, inp, d). target_bytes - filled)") auto

definition media_buffered_prefill_readahead ::
  "media_tuning \<Rightarrow> int \<Rightarrow> nat \<Rightarrow> media_buffered_input \<Rightarrow> disk \<Rightarrow> nat \<times> media_buffered_input \<times> disk"
where
  "media_buffered_prefill_readahead T start target_bytes inp d =
     (if \<not> readahead_enabled inp \<or> target_bytes = 0 \<or> start < 0 then (0, inp, d)
      else prefill_loop T target_bytes 0 start inp d)"

text \<open>
  The loop of \<open>media_buffered_read\<close>: the bytes stored so far, then the result of a \<open>return\<close> inside the
  loop if there was one.
\<close>

partial_function (option) read_loop ::
  "media_tuning \<Rightarrow> int \<Rightarrow> int \<Rightarrow> u8 list \<Rightarrow> media_buffered_input \<Rightarrow> disk
    \<Rightarrow> (int option \<times> int \<times> u8 list \<times> media_buffered_input \<times> disk) option"
where
  "read_loop T buf_size stored buf inp d =
     (if stored < buf_size
      then (let slot_index = find_slot inp (logical_pos inp) False
            in if slot_index \<ge> 0
               then (let s = readahead_slots inp ! nat slot_index;
                         available = nat (slot_end s - logical_pos inp);
                         to_copy = min (nat (buf_size - stored)) available;
                         from = (case media_buffered_readahead_slot_data inp (nat slot_index) of
                                   None \<Rightarrow> 0 | Some p \<Rightarrow> p) + nat (logical_pos inp - rstart s);
                         bytes = take to_copy (drop from (case readahead inp of None \<Rightarrow> [] | Some b \<Rightarrow> b));
                         inp = inp\<lparr>logical_pos := logical_pos inp + int to_copy\<rparr>;
                         inp = media_buffered_readahead_touch (nat slot_index) inp;
                         inp = stats_update (\<lambda>st. st\<lparr>readahead_hits := readahead_hits st + 1,
                                 readahead_hit_bytes := readahead_hit_bytes st + of_nat to_copy\<rparr>) inp
                     in read_loop T buf_size (stored + int to_copy) (buf @ bytes) inp d)
               else (let inp = stats_update (\<lambda>st. st\<lparr>readahead_misses := readahead_misses st + 1\<rparr>) inp;
                         r = media_buffered_fill_readahead T inp d
                     in if fst r < 0
                        then Some (if stored > 0 then None else Some (fst r), stored, buf, fst (snd r), snd (snd r))
                        else read_loop T buf_size stored buf (fst (snd r)) (snd (snd r))))
      else Some (None, stored, buf, inp, d))"

declare read_loop.simps [code]

text \<open>The counters of a new and of a finished read.\<close>

definition count_request :: "int \<Rightarrow> media_buffered_input \<Rightarrow> media_buffered_input" where
  "count_request buf_size = stats_update (\<lambda>s.
     let s = s\<lparr>read_calls := read_calls s + 1, read_requested := read_requested s + of_int buf_size\<rparr>
     in if buf_size > max_request s then s\<lparr>max_request := buf_size\<rparr> else s)"

definition count_read :: "int \<Rightarrow> int \<Rightarrow> media_buffered_input \<Rightarrow> media_buffered_input" where
  "count_read got buf_size = stats_update (\<lambda>s.
     let s = s\<lparr>read_bytes := read_bytes s + of_int got\<rparr>;
         s = (if got > max_read s then s\<lparr>max_read := got\<rparr> else s)
     in if got < buf_size then s\<lparr>short_reads := short_reads s + 1\<rparr> else s)"

text \<open>
  The result is \<open>None\<close> when the read does not end; otherwise the return value and the bytes stored
  from the start of the caller's buffer.
\<close>

definition media_buffered_read ::
  "media_tuning \<Rightarrow> int \<Rightarrow> media_buffered_input \<Rightarrow> disk \<Rightarrow> (int \<times> u8 list \<times> media_buffered_input \<times> disk) option"
where
  "media_buffered_read T buf_size inp d =
     (if fd inp < 0 \<or> buf_size \<le> 0 then Some (AVERROR EINVAL, [], inp, d)
      else let inp = count_request buf_size inp
           in if \<not> readahead_enabled inp \<or> readahead inp = None \<or> readahead_size inp = 0 \<or> readahead_slot_count inp = 0
              then Some (case media_buffered_read_direct T buf_size inp d of (got, bytes, inp, d) \<Rightarrow>
                           if got < 0 then (got, bytes, inp, d) else (got, bytes, count_read got buf_size inp, d))
              else map_option (\<lambda>(early, stored, bytes, inp, d).
                     case early of Some r \<Rightarrow> (r, bytes, inp, d)
                     | None \<Rightarrow> if stored \<le> 0 then (AVERROR_EOF, bytes, inp, d)
                               else (stored, bytes, count_read stored buf_size inp, d))
                   (read_loop T buf_size 0 [] inp d))"

definition seek_whence_of :: "int \<Rightarrow> int" where
  "seek_whence_of whence = and whence (not AVSEEK_FORCE)"

text \<open>The second half of a seek, once the position is known.\<close>

definition seek_to :: "int \<Rightarrow> media_buffered_input \<Rightarrow> disk \<Rightarrow> int \<times> media_buffered_input \<times> disk" where
  "seek_to target inp d =
     (if target < 0 then (AVERROR EINVAL, inp, d)
      else let slot_index = find_slot inp target True
      in if slot_index \<ge> 0
         then (target,
           (stats_update (\<lambda>s. s\<lparr>readahead_seek_hits := readahead_seek_hits s + 1\<rparr>)
             (media_buffered_readahead_touch (nat slot_index) inp))\<lparr>logical_pos := target\<rparr>, d)
         else let inp = inp\<lparr>logical_pos := target\<rparr>
         in if readahead_enabled inp then (target, inp, d)
         else case sys_lseek target SEEK_SET (d\<lparr>derrno := 0\<rparr>) of (pos, d) \<Rightarrow>
           if pos < 0 then (AVERROR (errno_or_eio d), inp\<lparr>last_errno := derrno d\<rparr>, d)
           else (pos, inp\<lparr>fd_pos := pos, logical_pos := pos\<rparr>, d))"

definition media_buffered_seek ::
  "int \<Rightarrow> int \<Rightarrow> media_buffered_input \<Rightarrow> disk \<Rightarrow> int \<times> media_buffered_input \<times> disk"
where
  "media_buffered_seek off whence inp d =
     (if fd inp < 0 then (AVERROR EINVAL, inp, d)
      else if whence = AVSEEK_SIZE then (if file_size inp \<ge> 0 then file_size inp else AVERROR ENOSYS, inp, d)
      else let seek_whence = seek_whence_of whence
      in if seek_whence \<noteq> SEEK_SET \<and> seek_whence \<noteq> SEEK_CUR \<and> seek_whence \<noteq> SEEK_END then (AVERROR EINVAL, inp, d)
      else let inp = stats_update (\<lambda>s. s\<lparr>seek_calls := seek_calls s + 1\<rparr>) inp
      in if seek_whence = SEEK_END \<and> file_size inp < 0
         then (case sys_lseek off seek_whence (d\<lparr>derrno := 0\<rparr>) of (pos, d) \<Rightarrow>
                 if pos < 0 then (AVERROR (errno_or_eio d), inp\<lparr>last_errno := derrno d\<rparr>, d)
                 else (pos, inp\<lparr>logical_pos := pos, fd_pos := pos\<rparr>, d))
         else let target = (if seek_whence = SEEK_SET then off
                            else if seek_whence = SEEK_CUR then logical_pos inp + off
                            else file_size inp + off)
         in seek_to target inp d)"

section \<open>Configuration\<close>

definition clamp_slots :: "nat \<Rightarrow> nat" where
  "clamp_slots slots = min MEDIA_READAHEAD_MAX_SLOTS (if slots = 0 then 1 else slots)"

definition media_buffered_readahead_choose_size :: "u32 \<Rightarrow> u32 \<Rightarrow> nat \<Rightarrow> u32" where
  "media_buffered_readahead_choose_size want min_size slots =
     (if want = 0 then 0
      else let slots = clamp_slots slots; min_total = min_size * word_of_nat slots
           in if min_size \<noteq> 0 \<and> min_total div min_size \<noteq> word_of_nat slots then want
              else if want < min_size then min_size else want)"

text \<open>The bit rate is the field of FFmpeg's format context, 0 without one.\<close>

definition media_video_startup_prefill_bytes :: "media_tuning \<Rightarrow> int \<Rightarrow> media_buffered_input \<Rightarrow> u32" where
  "media_video_startup_prefill_bytes T bit_rate inp =
     (if video_prefill_max_bytes T = 0 then 0
      else let by_time = (if video_prefill_target_ms T > 0 \<and> bit_rate > 0
                          then (of_int bit_rate * ucast (video_prefill_target_ms T) + 7999 :: u64) div 8000 else 0);
               target = video_prefill_min_bytes T;
               target = (if by_time > ucast target
                         then if by_time > 0xffffffff then 0xffffffff else ucast by_time else target);
               target = (if target > video_prefill_max_bytes T then video_prefill_max_bytes T else target);
               target = (if target > readahead_total_size inp then readahead_total_size inp else target);
               target = (if file_size inp \<ge> 0 \<and> target > of_int (file_size inp) then of_int (file_size inp) else target);
               target = (if readahead_size inp > 0 \<and> target > 0
                         then let rounded = (target + readahead_size inp - 1) div readahead_size inp * readahead_size inp
                              in if rounded > target \<and> rounded \<le> readahead_total_size inp then rounded else target
                         else target)
           in if file_size inp \<ge> 0 \<and> target > of_int (file_size inp) then of_int (file_size inp) else target)"

text \<open>The values of \<open>*want_out\<close>, \<open>*min_out\<close> and \<open>*slots_out\<close>; the return value is the test of the tag.\<close>

definition media_buffered_readahead_mode_values :: "media_tuning \<Rightarrow> string option \<Rightarrow> u32 \<times> u32 \<times> nat" where
  "media_buffered_readahead_mode_values T t =
     (if media_buffered_tag_is_video t
      then (video_readahead_size T, video_readahead_min_size T, video_readahead_slots T)
      else (file_readahead_size T, file_readahead_min_size T, file_readahead_slots T))"

definition media_buffered_readahead_sane_config :: "u32 \<Rightarrow> u32 \<Rightarrow> nat \<Rightarrow> (u32 \<times> u32 \<times> nat) option" where
  "media_buffered_readahead_sane_config want min_size slots =
     (if want = 0 then None
      else let slots = clamp_slots slots;
               want = media_buffered_readahead_choose_size want min_size slots
           in Some (want, if min_size = 0 \<or> min_size > want then want else min_size, slots))"

text \<open>Storing the results of an allocation; without memory the sizes are 0.\<close>

definition set_readahead :: "(u8 list \<times> nat \<times> nat) option \<Rightarrow> media_buffered_input \<Rightarrow> media_buffered_input" where
  "set_readahead r inp = (case r of
     None \<Rightarrow> inp\<lparr>readahead := None, readahead_size := 0, readahead_slot_count := 0\<rparr>
   | Some (buf, sz, slots) \<Rightarrow>
       inp\<lparr>readahead := Some buf, readahead_size := word_of_nat sz, readahead_slot_count := slots\<rparr>)"

definition media_buffered_input_enable_readahead ::
  "allocator \<Rightarrow> media_tuning \<Rightarrow> string option \<Rightarrow> media_buffered_input \<Rightarrow> int \<times> media_buffered_input"
where
  "media_buffered_input_enable_readahead av_malloc T t inp =
     (let (want, min_size, slots) = media_buffered_readahead_mode_values T t
      in if fd inp < 0 then (-1, inp)
      else if readahead_enabled inp then (0, inp)
      else case media_buffered_readahead_sane_config want min_size slots of
        None \<Rightarrow> (-1, inp)
      | Some (want, min_size, slots) \<Rightarrow>
          let preload = media_buffered_tag_is_video t \<and> video_preload_max_bytes T > 0 \<and> file_size inp > 0 \<and>
                file_size inp \<le> int (unat (video_preload_max_bytes T));
              whole = of_int (file_size inp);
              inp = set_readahead (if preload then media_alloc_readahead_buffer av_malloc whole whole 1
                                   else media_alloc_readahead_buffer av_malloc want min_size slots) inp;
              fallback = (readahead inp = None \<and> preload);
              inp = (if fallback then set_readahead (media_alloc_readahead_buffer av_malloc want min_size slots) inp else inp)
          in if readahead inp = None then (-1, inp)
             else let inp = inp\<lparr>readahead_total_size := readahead_size inp * word_of_nat (readahead_slot_count inp),
                                readahead_enabled := True, readahead_preload := preload \<and> \<not> fallback\<rparr>
                  in (0, media_buffered_input_invalidate_cache inp))"

definition media_buffered_input_enable_video_readahead ::
  "allocator \<Rightarrow> media_tuning \<Rightarrow> int \<Rightarrow> media_buffered_input \<Rightarrow> disk \<Rightarrow> media_buffered_input \<times> disk"
where
  "media_buffered_input_enable_video_readahead av_malloc T bit_rate inp d =
     (if readahead_enabled inp then (inp, d)
      else let inp = snd (media_buffered_input_enable_readahead av_malloc T (Some ''native_video'') inp)
      in if \<not> readahead_enabled inp then (inp, d)
      else if readahead_preload inp \<and> file_size inp > 0
           then snd (media_buffered_prefill_readahead T 0 (unat (of_int (file_size inp) :: u32)) inp d)
           else let prefill = media_video_startup_prefill_bytes T bit_rate inp
                in if prefill > 0 then snd (media_buffered_prefill_readahead T (logical_pos inp) (unat prefill) inp d)
                   else (inp, d))"

section \<open>Opening and closing\<close>

definition zero_stats :: io_stats where
  "zero_stats = \<lparr>read_calls = 0, read_bytes = 0, read_requested = 0, disk_read_calls = 0, disk_read_bytes = 0,
     readahead_hits = 0, readahead_hit_bytes = 0, readahead_fills = 0, readahead_misses = 0,
     readahead_evictions = 0, readahead_seek_hits = 0, slow_disk_reads = 0, disk_read_ms_total = 0,
     short_reads = 0, seek_calls = 0, max_request = 0, max_read = 0, max_disk_read = 0,
     max_disk_read_ms = 0, max_disk_read_pos = 0\<rparr>"

text \<open>The structure after \<open>memset\<close>, with the descriptor and the size of a closed input.\<close>

definition closed_input :: media_buffered_input where
  "closed_input = \<lparr>fd = -1, avio = False, tag = None, path = None, buffer_size = 0, readahead = None,
     readahead_size = 0, readahead_total_size = 0, readahead_slot_count = 0,
     readahead_slots = replicate MEDIA_READAHEAD_MAX_SLOTS \<lparr>rsize = 0, rstart = 0, rlast_used = 0\<rparr>,
     readahead_clock = 0, logical_pos = 0, fd_pos = 0, file_size = -1, readahead_enabled = False,
     readahead_preload = False, storage_recoveries = 0, last_errno = 0, stats = zero_stats\<rparr>"

text \<open>
  The first half of \<open>media_buffered_input_open\<close>, up to the result of \<open>fstat\<close>, and the second, which
  builds the FFmpeg objects.  The library's calls are parameters: whether its two allocations work, and
  \<open>avformat_open_input\<close>, which calls back into the input.
\<close>

definition open_descriptor ::
  "string \<Rightarrow> string option \<Rightarrow> disk \<Rightarrow> int \<times> media_buffered_input \<times> disk"
where
  "open_descriptor p t d =
     (let inp = closed_input\<lparr>tag := t, path := Some p\<rparr>;
          (f, d) = sys_open (d\<lparr>derrno := 0\<rparr>);
          inp = inp\<lparr>fd := f\<rparr>;
          (inp, d) = (if f < 0
                      then let inp = inp\<lparr>last_errno := derrno d\<rparr>;
                               (ok, d) = storage_recover d
                           in if ok = 0 then (case sys_open (d\<lparr>derrno := 0\<rparr>) of (f, d) \<Rightarrow> (inp\<lparr>fd := f\<rparr>, d))
                              else (inp, d)
                      else (inp, d))
      in if fd inp < 0 then (AVERROR (errno_or_eio d), inp\<lparr>last_errno := derrno d\<rparr>, d)
         else let inp = (if f < 0 then inp\<lparr>storage_recoveries := 1\<rparr> else inp);
                  (st, d) = sys_fstat d
              in (0, note_size st inp, d))"

definition media_buffered_input_open ::
  "allocator \<Rightarrow> bool \<Rightarrow> bool \<Rightarrow> (media_buffered_input \<Rightarrow> disk \<Rightarrow> int \<times> media_buffered_input \<times> disk) \<Rightarrow>
    media_tuning \<Rightarrow> string \<Rightarrow> string option \<Rightarrow> disk \<Rightarrow> int \<times> media_buffered_input \<times> disk"
where
  "media_buffered_input_open av_malloc avio_ok format_ok avformat_open_input T p t d =
     (let (ret, inp, d) = open_descriptor p t d
      in if ret < 0 then (ret, inp, d)
      else case media_alloc_file_buffer av_malloc T of
        None \<Rightarrow> (AVERROR ENOMEM, inp\<lparr>fd := -1\<rparr>, d)
      | Some (_, sz) \<Rightarrow>
          let inp = inp\<lparr>buffer_size := word_of_nat sz\<rparr>
          in if \<not> avio_ok then (AVERROR ENOMEM, inp\<lparr>fd := -1\<rparr>, d)
          else if \<not> format_ok then (AVERROR ENOMEM, inp\<lparr>avio := False, fd := -1\<rparr>, d)
          else let (ret, inp, d) = avformat_open_input (inp\<lparr>avio := True\<rparr>) d
               in (if ret < 0 then ret else 0, inp, d))"

definition media_buffered_input_close :: "media_buffered_input \<Rightarrow> media_buffered_input" where
  "media_buffered_input_close inp = (if fd inp < 0 \<and> \<not> avio inp then inp else closed_input)"

end
