(* ===== verification/UF_ReadaheadSpec.thy ===== *)
theory UF_ReadaheadSpec
  imports UF_Readahead
begin

text \<open>
  Correctness of the media player's file input: whatever the card does, a read returns the bytes of
  the file at the position of the input.  The invariant says that every slot holds the bytes of the
  file it stands for.
\<close>

section \<open>The cache holds what the file holds\<close>

definition slot_holds :: "u8 list \<Rightarrow> nat \<Rightarrow> u8 list \<Rightarrow> nat \<Rightarrow> readahead_slot \<Rightarrow> bool" where
  "slot_holds buf rs bytes i s \<longleftrightarrow> rsize s \<noteq> 0 \<longrightarrow>
     0 \<le> rstart s \<and> unat (rsize s) \<le> rs \<and> slot_end s \<le> int (length bytes) \<and>
     take (unat (rsize s)) (drop (i * rs) buf) = take (unat (rsize s)) (drop (nat (rstart s)) bytes)"

definition cache_ok :: "u8 list option \<Rightarrow> nat \<Rightarrow> nat \<Rightarrow> readahead_slot list \<Rightarrow> u8 list \<Rightarrow> bool" where
  "cache_ok ra rs n ss bytes \<longleftrightarrow> length ss = MEDIA_READAHEAD_MAX_SLOTS \<and> n \<le> MEDIA_READAHEAD_MAX_SLOTS \<and>
     (n > 0 \<longrightarrow> (\<exists>buf. ra = Some buf \<and> length buf = n * rs \<and> (\<forall>i<n. slot_holds buf rs bytes i (ss ! i))))"

text \<open>
  The invariant of an input: the slots hold bytes of the file, a known size is the file's size, and
  the position the code believes the descriptor to have is its position.
\<close>

definition cached :: "media_buffered_input \<Rightarrow> disk \<Rightarrow> bool" where
  "cached inp d \<longleftrightarrow>
     cache_ok (readahead inp) (unat (readahead_size inp)) (readahead_slot_count inp) (readahead_slots inp) (dbytes d) \<and>
     0 \<le> doffset d \<and> 0 \<le> logical_pos inp \<and>
     (file_size inp \<ge> 0 \<longrightarrow> file_size inp = int (length (dbytes d))) \<and>
     path inp \<noteq> None \<and> path inp \<noteq> Some []"

definition coherent :: "media_buffered_input \<Rightarrow> disk \<Rightarrow> bool" where
  "coherent inp d \<longleftrightarrow> cached inp d \<and> (fd inp \<ge> 0 \<longrightarrow> fd_pos inp = doffset d)"

text \<open>Changes of the cache.\<close>

lemma cache_ok_slots:
  assumes ok: "cache_ok ra rs n ss bytes" and len: "length ss' = length ss"
    and same: "\<And>i. i < n \<Longrightarrow> rsize (ss' ! i) = 0 \<or> rsize (ss' ! i) = rsize (ss ! i) \<and> rstart (ss' ! i) = rstart (ss ! i)"
  shows "cache_ok ra rs n ss' bytes"
proof -
  have "slot_holds buf rs bytes i (ss' ! i)" if "i < n" "slot_holds buf rs bytes i (ss ! i)" for buf i
    using that same [of i] by (auto simp: slot_holds_def slot_end_def)
  with ok len show ?thesis by (auto simp: cache_ok_def)
qed

lemma overwrite_length [simp]: "p + length bs \<le> length buf \<Longrightarrow> length (overwrite p bs buf) = length buf"
  by (simp add: overwrite_def)

lemma overwrite_same: "p + length bs \<le> length buf \<Longrightarrow> take (length bs) (drop p (overwrite p bs buf)) = bs"
  by (simp add: overwrite_def)

lemma overwrite_before:
  assumes "q + m \<le> p" "p + length bs \<le> length buf"
  shows "take m (drop q (overwrite p bs buf)) = take m (drop q buf)"
  using assms by (simp add: overwrite_def take_drop min_def)

lemma overwrite_after:
  assumes "p + length bs \<le> q" "p + length bs \<le> length buf"
  shows "drop q (overwrite p bs buf) = drop q buf"
  using assms by (simp add: overwrite_def)

lemma slots_apart: "j \<noteq> i \<Longrightarrow> m \<le> rs \<Longrightarrow> k \<le> rs \<Longrightarrow> (j::nat) * rs + m \<le> i * rs \<or> i * rs + k \<le> j * rs"
proof -
  assume *: "j \<noteq> i" "m \<le> rs" "k \<le> rs"
  then have "Suc j \<le> i \<or> Suc i \<le> j" by linarith
  then have "Suc j * rs \<le> i * rs \<or> Suc i * rs \<le> j * rs" by (metis mult_le_mono1)
  with * show ?thesis by auto
qed

lemma slot_fits: "i < n \<Longrightarrow> m \<le> rs \<Longrightarrow> i * rs + m \<le> n * (rs::nat)"
  using mult_le_mono1 [of "Suc i" n rs] by simp

lemma cache_ok_store:
  assumes ok: "cache_ok ra rs n ss bytes" and i: "i < n" and len: "length bs \<le> rs"
  shows "cache_ok (map_option (overwrite (i * rs) bs) ra) rs n (ss[i := s\<lparr>rsize := 0\<rparr>]) bytes"
proof -
  from ok i obtain buf where buf: "ra = Some buf" "length buf = n * rs" "\<forall>j<n. slot_holds buf rs bytes j (ss ! j)"
    "length ss = MEDIA_READAHEAD_MAX_SLOTS" "n \<le> MEDIA_READAHEAD_MAX_SLOTS"
    by (auto simp: cache_ok_def)
  have fit: "i * rs + length bs \<le> length buf" using slot_fits [OF i len] buf(2) by simp
  have "slot_holds (overwrite (i * rs) bs buf) rs bytes j (ss[i := s\<lparr>rsize := 0\<rparr>] ! j)" if j: "j < n" for j
  proof (cases "j = i")
    case False
    show ?thesis unfolding slot_holds_def
    proof (intro impI)
      assume nz: "rsize (ss[i := s\<lparr>rsize := 0\<rparr>] ! j) \<noteq> 0"
      let ?m = "unat (rsize (ss ! j))"
      from buf(3) j False nz have h: "0 \<le> rstart (ss ! j)" "?m \<le> rs" "slot_end (ss ! j) \<le> int (length bytes)"
        "take ?m (drop (j * rs) buf) = take ?m (drop (nat (rstart (ss ! j))) bytes)"
        by (auto simp: slot_holds_def)
      from slots_apart [OF False h(2) len]
      have "take ?m (drop (j * rs) (overwrite (i * rs) bs buf)) = take ?m (drop (j * rs) buf)"
        using overwrite_before [of "j * rs" ?m "i * rs" bs buf] overwrite_after [of "i * rs" bs "j * rs" buf] fit by auto
      with h False show "0 \<le> rstart (ss[i := s\<lparr>rsize := 0\<rparr>] ! j) \<and> unat (rsize (ss[i := s\<lparr>rsize := 0\<rparr>] ! j)) \<le> rs \<and>
        slot_end (ss[i := s\<lparr>rsize := 0\<rparr>] ! j) \<le> int (length bytes) \<and>
        take (unat (rsize (ss[i := s\<lparr>rsize := 0\<rparr>] ! j))) (drop (j * rs) (overwrite (i * rs) bs buf)) =
        take (unat (rsize (ss[i := s\<lparr>rsize := 0\<rparr>] ! j))) (drop (nat (rstart (ss[i := s\<lparr>rsize := 0\<rparr>] ! j))) bytes)"
        by simp
    qed
  qed (use i buf(4,5) in \<open>simp add: slot_holds_def\<close>)
  with buf fit show ?thesis by (simp add: cache_ok_def)
qed

lemma cache_ok_fill:
  assumes ok: "cache_ok (Some buf) rs n ss bytes" and i: "i < n"
    and s: "slot_holds buf rs bytes i s"
  shows "cache_ok (Some buf) rs n (ss[i := s]) bytes"
  using assms by (auto simp: cache_ok_def nth_list_update)

section \<open>What the calls change\<close>

text \<open>The file is the same and the outcomes are those still to come.\<close>

definition later :: "disk \<Rightarrow> disk \<Rightarrow> bool" where
  "later d d' \<longleftrightarrow> dbytes d' = dbytes d \<and> set (doutcomes d') \<subseteq> set (doutcomes d)"

text \<open>No call fails; no failing \<open>read\<close> moves the offset.\<close>

fun gives :: "outcome \<Rightarrow> bool" where
  "gives (Fails e junk moved) = False"
| "gives (Gives k) = True"

fun stays :: "outcome \<Rightarrow> bool" where
  "stays (Fails e junk moved) = (moved = 0)"
| "stays (Gives k) = True"

definition calm :: "disk \<Rightarrow> bool" where
  "calm d \<longleftrightarrow> list_all gives (doutcomes d)"

definition steady :: "disk \<Rightarrow> bool" where
  "steady d \<longleftrightarrow> list_all stays (doutcomes d)"

text \<open>What every operation but a seek keeps of an input, the position apart.\<close>

definition alike :: "media_buffered_input \<Rightarrow> media_buffered_input \<Rightarrow> bool" where
  "alike inp inp' \<longleftrightarrow> readahead_size inp' = readahead_size inp \<and>
     readahead_slot_count inp' = readahead_slot_count inp \<and> readahead_enabled inp' = readahead_enabled inp \<and>
     (readahead inp' = None) = (readahead inp = None)"

lemma later_refl [simp]: "later d d" by (simp add: later_def)
lemma alike_refl [simp]: "alike inp inp" by (simp add: alike_def)

lemma later_trans [trans]: "later a b \<Longrightarrow> later b c \<Longrightarrow> later a c"
  by (auto simp: later_def)

lemma alike_trans [trans]: "alike a b \<Longrightarrow> alike b c \<Longrightarrow> alike a c"
  by (auto simp: alike_def)

lemma later_calm: "later d d' \<Longrightarrow> calm d \<Longrightarrow> calm d'"
  by (auto simp: later_def calm_def list_all_iff)

lemma later_steady: "later d d' \<Longrightarrow> steady d \<Longrightarrow> steady d'"
  by (auto simp: later_def steady_def list_all_iff)

lemma calm_steady: "calm d \<Longrightarrow> steady d"
proof -
  have "gives x \<Longrightarrow> stays x" for x by (cases x) auto
  then show "calm d \<Longrightarrow> steady d" by (simp add: calm_def steady_def list_all_iff)
qed

lemma next_outcome_later:
  assumes "next_outcome d = (x, d')"
  shows "later d d' \<and> doffset d' = doffset d \<and> derrno d' = derrno d \<and> (calm d \<longrightarrow> gives x) \<and> (steady d \<longrightarrow> stays x)"
  using assms by (auto simp: next_outcome_def later_def calm_def steady_def split: list.splits)

lemma later_derrno [simp]: "later d (d'\<lparr>derrno := e\<rparr>) = later d d'" "later (d\<lparr>derrno := e\<rparr>) d' = later d d'"
  "later d (d'\<lparr>doffset := p\<rparr>) = later d d'"
  by (simp_all add: later_def)

lemma calm_derrno [simp]: "calm (d\<lparr>derrno := e\<rparr>) = calm d" "steady (d\<lparr>derrno := e\<rparr>) = steady d"
  by (simp_all add: calm_def steady_def)

lemma errno_or_eio_pos: "AVERROR (errno_or_eio d) < 0"
  by (simp add: AVERROR_def errno_or_eio_def EIO_def)

lemma sys_open_cases:
  assumes "sys_open d = (f, d')"
  shows "later d d' \<and> (f < 0 \<or> f \<ge> 0 \<and> doffset d' = 0) \<and> (f < 0 \<longrightarrow> doffset d' = doffset d) \<and> (calm d \<longrightarrow> f \<ge> 0)"
  using assms next_outcome_later [of d]
  by (auto simp: sys_open_def split: prod.splits outcome.splits)

lemma sys_fstat_cases:
  assumes "sys_fstat d = (r, d')"
  shows "later d d' \<and> doffset d' = doffset d \<and> (r = None \<or> r = Some (int (length (dbytes d))))"
  using assms next_outcome_later [of d]
  by (auto simp: sys_fstat_def later_def split: prod.splits outcome.splits)

lemma sys_lseek_cases:
  assumes "sys_lseek off SEEK_SET d = (p, d')" "0 \<le> off" "0 \<le> doffset d"
  shows "later d d' \<and> (p < 0 \<and> doffset d' = doffset d \<or> p = off \<and> doffset d' = off) \<and> (calm d \<longrightarrow> p = off)"
  using assms next_outcome_later [of d]
  by (auto simp: sys_lseek_def Let_def split: prod.splits outcome.splits if_splits)

lemma storage_recover_cases:
  assumes "storage_recover d = (r, d')"
  shows "later d d' \<and> doffset d' = doffset d \<and> r \<le> 0"
  using assms next_outcome_later [of d]
  by (auto simp: storage_recover_def split: prod.splits outcome.splits)

lemma perf_time_cases:
  assumes "unifrog_perf_time_ms d = (t, d')"
  shows "later d d' \<and> doffset d' = doffset d \<and> doutcomes d' = doutcomes d \<and> derrno d' = derrno d"
  using assms by (auto simp: unifrog_perf_time_ms_def later_def split: list.splits)

text \<open>A \<open>read\<close> gives the bytes at the offset, none only at the end of the file.\<close>

lemma sys_read_cases:
  assumes "sys_read n d = (got, bs, d')" "0 < n" "0 \<le> doffset d"
  shows "later d d' \<and> length bs \<le> n \<and> 0 \<le> doffset d' \<and>
     (got < 0 \<and> \<not> calm d \<and> (steady d \<longrightarrow> doffset d' = doffset d) \<or>
      got = int (length bs) \<and> doffset d' = doffset d + got \<and>
      bs = take (length bs) (drop (nat (doffset d)) (dbytes d)) \<and>
      length bs \<le> length (dbytes d) - nat (doffset d) \<and>
      (got = 0 \<longleftrightarrow> int (length (dbytes d)) \<le> doffset d))"
proof -
  obtain x e where x: "next_outcome d = (x, e)" by (cases "next_outcome d")
  note e = next_outcome_later [OF x]
  show ?thesis
  proof (cases x)
    case (Fails c junk moved)
    with assms(1) x have r: "got = -1" "bs = take n junk" "d' = e\<lparr>derrno := c, doffset := doffset e + int moved\<rparr>"
      by (auto simp: sys_read_def)
    from Fails e have "\<not> calm d" "steady d \<longrightarrow> moved = 0" by auto
    with r e assms(3) show ?thesis by simp
  next
    case (Gives k)
    define all m where "all = drop (nat (doffset d)) (dbytes d)" and "m = max 1 k"
    from e have same: "doffset e = doffset d" "dbytes e = dbytes d" "later d e" by (auto simp: later_def)
    have "sys_read n d = (let bs = take m (take n all)
        in (int (length bs), bs, e\<lparr>doffset := doffset e + int (length bs)\<rparr>))"
      using Gives x same by (simp add: sys_read_def all_def m_def)
    with assms(1) have bs: "bs = take (min m n) all" and got: "got = int (length bs)"
      and "d' = e\<lparr>doffset := doffset e + got\<rparr>"
      by (auto simp: Let_def)
    with same have d': "doffset d' = doffset d + got" "later d d'" by simp_all
    have "min m n \<noteq> 0" using assms(2) by (simp add: m_def)
    then have "got = 0 \<longleftrightarrow> all = []" unfolding got bs by (auto simp: min_def)
    also have "\<dots> \<longleftrightarrow> int (length (dbytes d)) \<le> doffset d"
      using assms(3) by (auto simp: all_def)
    finally have zero: "got = 0 \<longleftrightarrow> int (length (dbytes d)) \<le> doffset d" .
    have "length bs \<le> n" "length bs \<le> length all" "bs = take (length bs) all"
      unfolding bs by (simp, simp, simp add: min_def)
    then have "length bs \<le> n" "0 \<le> doffset d'" "length bs \<le> length (dbytes d) - nat (doffset d)"
      "bs = take (length bs) (drop (nat (doffset d)) (dbytes d))"
      using d'(1) got assms(3) by (simp_all add: all_def)
    with got d' zero show ?thesis by blast
  qed
qed

section \<open>Every operation keeps the invariant\<close>

lemma cached_disk:
  assumes "cached inp d" "dbytes d' = dbytes d" "0 \<le> doffset d'"
  shows "cached inp d'"
  using assms by (simp add: cached_def)

lemma cached_stats [simp]: "cached (stats_update f inp) d = cached inp d" "cached (inp\<lparr>last_errno := e\<rparr>) d = cached inp d"
  "cached (inp\<lparr>fd := f1\<rparr>) d = cached inp d" "cached (inp\<lparr>fd_pos := p\<rparr>) d = cached inp d"
  "cached (inp\<lparr>storage_recoveries := r\<rparr>) d = cached inp d"
  by (simp_all add: cached_def)

lemma alike_updates [simp]: "alike inp (stats_update f inp') = alike inp inp'" "alike inp (inp'\<lparr>last_errno := e\<rparr>) = alike inp inp'"
  "alike inp (inp'\<lparr>fd := f1\<rparr>) = alike inp inp'" "alike inp (inp'\<lparr>fd_pos := p\<rparr>) = alike inp inp'"
  "alike inp (inp'\<lparr>storage_recoveries := r\<rparr>) = alike inp inp'" "alike inp (inp'\<lparr>logical_pos := p\<rparr>) = alike inp inp'"
  "alike inp (inp'\<lparr>readahead_slots := ss\<rparr>) = alike inp inp'" "alike inp (inp'\<lparr>readahead_clock := c\<rparr>) = alike inp inp'"
  "alike inp (inp'\<lparr>file_size := n\<rparr>) = alike inp inp'"
  by (simp_all add: alike_def)

lemma invalidate_cached:
  assumes "cached inp d"
  shows "cached (media_buffered_input_invalidate_cache inp) d"
proof -
  have "cache_ok ra rs n ss bytes \<Longrightarrow>
    cache_ok ra rs n (map (\<lambda>s. s\<lparr>rsize := 0, rstart := 0, rlast_used := 0\<rparr>) ss) bytes" for ra rs n ss bytes
    by (rule cache_ok_slots) (auto simp: cache_ok_def)
  with assms show ?thesis by (simp add: cached_def media_buffered_input_invalidate_cache_def)
qed

lemma recover_begin_keeps:
  assumes "cached inp d"
  shows "cached (recover_begin inp) d" "fd (recover_begin inp) < 0" "alike inp (recover_begin inp)"
    "logical_pos (recover_begin inp) = logical_pos inp"
  unfolding recover_begin_def Let_def using assms
  by (auto intro!: invalidate_cached) (auto simp: media_buffered_input_invalidate_cache_def)

lemma recover_fd_keeps:
  assumes c: "cached inp d" and r: "media_buffered_recover_fd (logical_pos inp) inp d = (r, inp', d')"
  shows "later d d' \<and> alike inp inp' \<and> cached inp' d' \<and> logical_pos inp' = logical_pos inp \<and> r \<le> 0 \<and>
    (r = 0 \<longrightarrow> coherent inp' d' \<and> fd inp' \<ge> 0 \<and> fd_pos inp' = logical_pos inp) \<and>
    (r < 0 \<longrightarrow> fd inp' < 0 \<or> inp' = inp \<and> d' = d \<and> 3 \<le> storage_recoveries inp)"
proof -
  let ?pos = "logical_pos inp"
  let ?inp = "recover_begin inp"
  have q: "path inp \<noteq> None" "path inp \<noteq> Some []" "0 \<le> ?pos" "0 \<le> doffset d"
    using c by (simp_all add: cached_def)
  have inp: "cached ?inp d" "fd ?inp < 0" "alike inp ?inp" "logical_pos ?inp = ?pos"
    using recover_begin_keeps [OF c] by simp_all
  obtain ok d1 where rec: "storage_recover d = (ok, d1)" by (cases "storage_recover d")
  obtain f d2 where op: "sys_open (d1\<lparr>derrno := 0\<rparr>) = (f, d2)" by (cases "sys_open (d1\<lparr>derrno := 0\<rparr>)")
  obtain st d3 where fs: "sys_fstat d2 = (st, d3)" by (cases "sys_fstat d2")
  obtain p d4 where ls: "sys_lseek ?pos SEEK_SET (d3\<lparr>derrno := 0\<rparr>) = (p, d4)"
    by (cases "sys_lseek ?pos SEEK_SET (d3\<lparr>derrno := 0\<rparr>)")
  from storage_recover_cases [OF rec] q(4) have l1: "later d d1" "0 \<le> doffset d1" "ok \<le> 0" by auto
  from sys_open_cases [OF op] l1 have l2: "later d d2" "0 \<le> doffset d2" by (auto intro: later_trans)
  from sys_fstat_cases [OF fs] l2 have l3: "later d d3" "0 \<le> doffset d3"
    "st = None \<or> st = Some (int (length (dbytes d)))" by (auto intro: later_trans simp: later_def)
  from sys_lseek_cases [OF ls q(3)] l3 have l4: "later d d4" "0 \<le> doffset d4" "p < 0 \<or> p = ?pos \<and> doffset d4 = ?pos"
    using q(3) by (auto intro: later_trans)
  let ?inp3 = "note_size st (?inp\<lparr>fd := f\<rparr>)"
  have i3: "cached ?inp3 d" "alike inp ?inp3" "logical_pos ?inp3 = ?pos" "fd ?inp3 = f"
    using l3(3) inp by (auto simp: cached_def note_size_def)
  have at: "cached i d4" if "cached i d" for i
    using cached_disk [OF that] l4 by (simp add: later_def)
  consider (refused) "3 \<le> storage_recoveries inp" | (dead) "\<not> 3 \<le> storage_recoveries inp" "ok \<noteq> 0"
    | (closed) "\<not> 3 \<le> storage_recoveries inp" "ok = 0" "f < 0"
    | (unseekable) "\<not> 3 \<le> storage_recoveries inp" "ok = 0" "f \<ge> 0" "p < 0"
    | (fine) "\<not> 3 \<le> storage_recoveries inp" "ok = 0" "f \<ge> 0" "p \<ge> 0" by linarith
  then show ?thesis
  proof cases
    case refused
    with r q c show ?thesis by (auto simp: media_buffered_recover_fd_def AVERROR_def EIO_def)
  next
    case dead
    with r q rec have "r = AVERROR EIO" "inp' = ?inp" "d' = d1"
      by (auto simp: media_buffered_recover_fd_def Let_def)
    with inp l1 cached_disk [OF inp(1), of d1] show ?thesis by (simp add: AVERROR_def EIO_def later_def)
  next
    case closed
    with r q rec op have "r = AVERROR (errno_or_eio d2)" "inp' = ?inp\<lparr>last_errno := derrno d2\<rparr>" "d' = d2"
      by (auto simp: media_buffered_recover_fd_def Let_def)
    with inp l2 cached_disk [OF inp(1), of d2] errno_or_eio_pos [of d2] show ?thesis by (simp add: later_def)
  next
    case unseekable
    with r q rec op fs ls have "r = AVERROR (errno_or_eio d4)" "d' = d4" "inp' = ?inp3\<lparr>last_errno := derrno d4, fd := -1\<rparr>"
      by (auto simp: media_buffered_recover_fd_def Let_def)
    with i3 l4 at [OF i3(1)] errno_or_eio_pos [of d4] show ?thesis by simp
  next
    case fine
    with r q rec op fs ls have "r = 0" "d' = d4" "inp' = ?inp3\<lparr>logical_pos := ?pos, fd_pos := ?pos\<rparr>"
      by (auto simp: media_buffered_recover_fd_def Let_def)
    moreover have "?inp3\<lparr>logical_pos := ?pos, fd_pos := ?pos\<rparr> = ?inp3\<lparr>fd_pos := ?pos\<rparr>" using i3(3) by simp
    ultimately show ?thesis using i3 l4 fine at [OF i3(1)] by (auto simp: coherent_def)
  qed
qed

lemma sync_fd_keeps:
  assumes c: "coherent inp d" and r: "media_buffered_sync_fd inp d = (r, inp', d')"
  shows "later d d' \<and> alike inp inp' \<and> coherent inp' d' \<and> logical_pos inp' = logical_pos inp \<and> r \<le> 0 \<and>
    (r = 0 \<longrightarrow> fd inp' \<ge> 0 \<and> fd_pos inp' = logical_pos inp) \<and> (calm d \<and> fd inp \<ge> 0 \<longrightarrow> r = 0)"
proof (cases "fd inp < 0 \<or> fd_pos inp = logical_pos inp")
  case True
  with r c show ?thesis
    by (auto simp: media_buffered_sync_fd_def AVERROR_def EINVAL_def split: if_splits)
next
  case False
  let ?pos = "logical_pos inp"
  obtain p d1 where ls: "sys_lseek ?pos SEEK_SET (d\<lparr>derrno := 0\<rparr>) = (p, d1)"
    by (cases "sys_lseek ?pos SEEK_SET (d\<lparr>derrno := 0\<rparr>)")
  have q: "0 \<le> ?pos" "0 \<le> doffset d" "cached inp d" using c by (simp_all add: coherent_def cached_def)
  from sys_lseek_cases [OF ls q(1)] q(2) have l: "later d d1" "calm d \<longrightarrow> p = ?pos"
    "p < 0 \<and> doffset d1 = doffset d \<or> p = ?pos \<and> doffset d1 = ?pos" by auto
  from l q have c1: "cached inp d1" by (auto intro: cached_disk [OF q(3)] simp: later_def)
  show ?thesis
  proof (cases "p < 0")
    case True
    let ?i = "inp\<lparr>last_errno := derrno d1\<rparr>"
    obtain r1 i1 d2 where rc: "media_buffered_recover_fd (logical_pos ?i) ?i d1 = (r1, i1, d2)"
      by (cases "media_buffered_recover_fd (logical_pos ?i) ?i d1") auto
    from r ls rc True False have *: "r = (if r1 = 0 then 0 else AVERROR (errno_or_eio d2))" "inp' = i1" "d' = d2"
      by (auto simp: media_buffered_sync_fd_def)
    have "cached ?i d1" using c1 by simp
    from recover_fd_keeps [OF this rc] have k: "later d1 d2" "alike ?i i1" "cached i1 d2" "logical_pos i1 = ?pos"
      "r1 \<le> 0" "r1 = 0 \<Longrightarrow> coherent i1 d2 \<and> fd i1 \<ge> 0 \<and> fd_pos i1 = ?pos"
      "r1 < 0 \<Longrightarrow> fd i1 < 0 \<or> i1 = ?i \<and> d2 = d1" by auto
    have "coherent i1 d2"
    proof (cases "r1 = 0")
      case False
      with k(5,7) have "fd i1 < 0 \<or> i1 = ?i \<and> d2 = d1" by simp
      with k(3) c l(3) True q(1) show ?thesis by (auto simp: coherent_def)
    qed (use k(6) in simp)
    moreover have "alike inp i1" using k(2) by (simp add: alike_def)
    moreover have "later d d2" using l(1) k(1) by (rule later_trans)
    ultimately show ?thesis using * k(4,6) l(2) True q(1) errno_or_eio_pos [of d2] by auto
  next
    case p: False
    with r ls False l have "r = 0" "inp' = inp\<lparr>fd_pos := ?pos\<rparr>" "d' = d1"
      by (auto simp: media_buffered_sync_fd_def)
    with l c1 False p show ?thesis by (auto simp: coherent_def)
  qed
qed

lemma touch_length: "unifrog_media_policy_touch (Some ss) clock i = (c, Some ss') \<Longrightarrow> length ss' = length ss \<and>
   (\<forall>j < length ss. rsize (ss' ! j) = rsize (ss ! j) \<and> rstart (ss' ! j) = rstart (ss ! j))"
  by (auto simp: unifrog_media_policy_touch_def Let_def nth_list_update split: if_splits)

lemma touch_Some: "\<exists>c ss'. unifrog_media_policy_touch (Some ss) clock i = (c, Some ss')"
  by (simp add: unifrog_media_policy_touch_def Let_def)

text \<open>Touching a slot changes only the counters of its use.\<close>

lemma touch_shape:
  assumes "length (readahead_slots inp) = MEDIA_READAHEAD_MAX_SLOTS" "readahead_slot_count inp \<le> MEDIA_READAHEAD_MAX_SLOTS"
  shows "\<exists>c ss. media_buffered_readahead_touch i inp = inp\<lparr>readahead_slots := ss, readahead_clock := c\<rparr> \<and>
    length ss = MEDIA_READAHEAD_MAX_SLOTS \<and>
    (\<forall>j < MEDIA_READAHEAD_MAX_SLOTS. rsize (ss ! j) = rsize (readahead_slots inp ! j) \<and> rstart (ss ! j) = rstart (readahead_slots inp ! j))"
proof (cases "i \<ge> readahead_slot_count inp")
  case True
  then show ?thesis using assms
    by (intro exI [of _ "readahead_clock inp"] exI [of _ "readahead_slots inp"]) (simp add: media_buffered_readahead_touch_def)
next
  case False
  obtain c ss where t: "unifrog_media_policy_touch (Some (used_slots inp)) (readahead_clock inp) i = (c, Some ss)"
    using touch_Some by blast
  from touch_length [OF t] assms have ss: "length ss = readahead_slot_count inp"
    "\<forall>j < length ss. rsize (ss ! j) = rsize (readahead_slots inp ! j) \<and> rstart (ss ! j) = rstart (readahead_slots inp ! j)"
    by (auto simp: used_slots_def)
  with t False assms show ?thesis
    by (intro exI [of _ c] exI [of _ "ss @ drop (readahead_slot_count inp) (readahead_slots inp)"])
      (auto simp: media_buffered_readahead_touch_def nth_append)
qed

lemma cached_sizes: "cached inp d \<Longrightarrow> length (readahead_slots inp) = MEDIA_READAHEAD_MAX_SLOTS \<and>
   readahead_slot_count inp \<le> MEDIA_READAHEAD_MAX_SLOTS"
  by (simp add: cached_def cache_ok_def)

lemma touch_keeps:
  assumes "cached inp d"
  shows "cached (media_buffered_readahead_touch i inp) d \<and> alike inp (media_buffered_readahead_touch i inp) \<and>
    logical_pos (media_buffered_readahead_touch i inp) = logical_pos inp \<and>
    fd (media_buffered_readahead_touch i inp) = fd inp \<and> fd_pos (media_buffered_readahead_touch i inp) = fd_pos inp \<and>
    storage_recoveries (media_buffered_readahead_touch i inp) = storage_recoveries inp"
proof -
  from cached_sizes [OF assms] touch_shape [of inp i] obtain c ss where t:
    "media_buffered_readahead_touch i inp = inp\<lparr>readahead_slots := ss, readahead_clock := c\<rparr>"
    "length ss = MEDIA_READAHEAD_MAX_SLOTS"
    "\<forall>j < MEDIA_READAHEAD_MAX_SLOTS. rsize (ss ! j) = rsize (readahead_slots inp ! j) \<and> rstart (ss ! j) = rstart (readahead_slots inp ! j)"
    by blast
  have "cache_ok (readahead inp) (unat (readahead_size inp)) (readahead_slot_count inp) ss (dbytes d)"
  proof (rule cache_ok_slots [where ss = "readahead_slots inp"])
    fix j assume "j < readahead_slot_count inp"
    with t(3) cached_sizes [OF assms] show "rsize (ss ! j) = 0 \<or>
      rsize (ss ! j) = rsize (readahead_slots inp ! j) \<and> rstart (ss ! j) = rstart (readahead_slots inp ! j)" by simp
  qed (use assms t(2) cached_sizes [OF assms] in \<open>simp_all add: cached_def\<close>)
  with assms t(1) show ?thesis by (simp add: cached_def)
qed

text \<open>A slot that holds a position is found.\<close>

lemma find_slot_found:
  assumes c: "cached inp d" and len: "length (dbytes d) < 2 ^ 32" and f: "find_slot inp pos e \<ge> 0"
  defines "i \<equiv> nat (find_slot inp pos e)"
  shows "i < readahead_slot_count inp \<and> rsize (readahead_slots inp ! i) \<noteq> 0 \<and> rstart (readahead_slots inp ! i) \<le> pos \<and>
    (pos < slot_end (readahead_slots inp ! i) \<or> e \<and> pos = slot_end (readahead_slots inp ! i))"
proof -
  have n: "length (used_slots inp) = readahead_slot_count inp" using cached_sizes [OF c] by (simp add: used_slots_def)
  have pos: "0 \<le> pos" using f by (auto simp: find_slot_def unifrog_media_policy_find_slot_def split: if_splits)
  from find_slot_loop_cases [of "used_slots inp" pos e 0] f pos n
  have i: "i < readahead_slot_count inp" "slot_hit (used_slots inp ! i) pos e"
    unfolding i_def by (auto simp: find_slot_def unifrog_media_policy_find_slot_def)
  then have "slot_hit (readahead_slots inp ! i) pos e" by (simp add: used_slots_def)
  then show ?thesis using i(1) by (auto simp: slot_hit_def Let_def slot_end_def split: if_splits)
qed

lemma find_slot_finds:
  assumes c: "cached inp d" and len: "length (dbytes d) < 2 ^ 32" and i: "i < readahead_slot_count inp"
    and s: "rsize (readahead_slots inp ! i) \<noteq> 0" "rstart (readahead_slots inp ! i) \<le> pos"
      "pos < slot_end (readahead_slots inp ! i)" and pos: "0 \<le> pos"
  shows "find_slot inp pos e \<ge> 0"
proof -
  have n: "length (used_slots inp) = readahead_slot_count inp" using cached_sizes [OF c] by (simp add: used_slots_def)
  from c i s(1) have h: "0 \<le> rstart (readahead_slots inp ! i)" "slot_end (readahead_slots inp ! i) < 2 ^ 32"
    using len by (auto simp: cached_def cache_ok_def slot_holds_def)
  with s have "slot_hit (used_slots inp ! i) pos e"
    using i by (simp add: used_slots_def slot_hit_below_4G slot_end_def)
  with find_slot_loop_cases [of "used_slots inp" pos e 0] n i pos show ?thesis
    by (auto simp: find_slot_def unifrog_media_policy_find_slot_def list_all_length)
qed

lemma choose_loop_bound: "choose_loop ss i best bu = (b, ev) \<Longrightarrow> b = best \<or> i \<le> b \<and> b < i + length ss"
  by (induction ss i best bu rule: choose_loop.induct) (fastforce split: if_splits)+

lemma choose_slot_keeps:
  assumes c: "cached inp d" and n: "readahead_slot_count inp \<noteq> 0"
    and r: "media_buffered_readahead_choose_slot inp = (i, inp')"
  shows "i < readahead_slot_count inp \<and> alike inp inp' \<and> readahead inp' = readahead inp \<and> logical_pos inp' = logical_pos inp \<and>
    fd inp' = fd inp \<and> storage_recoveries inp' = storage_recoveries inp \<and> (coherent inp d \<longrightarrow> coherent inp' d)"
proof -
  obtain b ev where ch: "unifrog_media_policy_choose_slot (Some (used_slots inp)) = (b, ev)"
    by (cases "unifrog_media_policy_choose_slot (Some (used_slots inp))")
  have len: "length (used_slots inp) = readahead_slot_count inp" using cached_sizes [OF c] by (simp add: used_slots_def)
  then have "used_slots inp \<noteq> []" using n by auto
  then have "b < length (used_slots inp)" using ch choose_loop_bound [of "used_slots inp" 0 0 "0xffffffff" b ev]
    by (auto simp: unifrog_media_policy_choose_slot_def)
  then show ?thesis using r n ch len
    by (cases ev) (auto simp: media_buffered_readahead_choose_slot_def coherent_def)
qed

text \<open>
  A read into a slot: the data of the slot are the bytes of the file at the position, as many as were
  read, and no other slot is affected.
\<close>

lemma slot_read_keeps:
  assumes c: "cached inp d" and i: "i < readahead_slot_count inp" and rs: "readahead_size inp \<noteq> 0"
    and at: "doffset d = logical_pos inp"
    and r: "slot_read T i (i * unat (readahead_size inp)) pos start_ms inp d = (got, inp', d')"
  shows "later d d' \<and> alike inp inp' \<and> cached inp' d' \<and> logical_pos inp' = logical_pos inp \<and> fd inp' = fd inp \<and>
    fd_pos inp' = fd_pos inp \<and> storage_recoveries inp' = storage_recoveries inp \<and>
    (got < 0 \<and> \<not> calm d \<and> (steady d \<longrightarrow> doffset d' = doffset d) \<or>
     0 \<le> got \<and> doffset d' = doffset d + got \<and> (got = 0 \<longleftrightarrow> int (length (dbytes d)) \<le> logical_pos inp) \<and>
     nat got \<le> unat (readahead_size inp) \<and> rstart (readahead_slots inp' ! i) = logical_pos inp \<and>
     (\<exists>buf. readahead inp' = Some buf \<and>
       slot_holds buf (unat (readahead_size inp)) (dbytes d) i
         ((readahead_slots inp' ! i)\<lparr>rstart := logical_pos inp, rsize := of_int got\<rparr>)))"
proof -
  let ?rs = "unat (readahead_size inp)" and ?pos = "logical_pos inp"
  obtain bs d1 where rd: "sys_read ?rs (d\<lparr>derrno := 0\<rparr>) = (got, bs, d1)" and d': "snd (unifrog_perf_time_ms d1) = d'"
    and inp': "\<exists>el. inp' = set_slot i ?pos 0 ((media_buffered_record_disk_read T pos got el inp)
       \<lparr>readahead := map_option (overwrite (i * ?rs) bs) (readahead inp)\<rparr>)"
    using r by (auto simp: slot_read_def timed_read_def Let_def media_buffered_record_disk_read_def split: prod.splits)
  have n: "0 < ?rs" using rs by (simp add: unat_gt_0)
  have pos: "0 \<le> ?pos" "0 \<le> doffset d" "i < length (readahead_slots inp)"
    using c i by (auto simp: cached_def cache_ok_def)
  obtain t where "unifrog_perf_time_ms d1 = (t, d')" using d' by (cases "unifrog_perf_time_ms d1") simp
  note dd = perf_time_cases [OF this]
  note rc = sys_read_cases [OF rd n, simplified, OF pos(2)]
  define ss where "ss = (readahead_slots inp)[i := (readahead_slots inp ! i)\<lparr>rstart := ?pos, rsize := 0\<rparr>]"
  from inp' obtain f where inp': "inp' = stats_update f inp
      \<lparr>readahead := map_option (overwrite (i * ?rs) bs) (readahead inp), readahead_slots := ss\<rparr>"
    by (auto simp: set_slot_def media_buffered_record_disk_read_def ss_def)
  have l: "later d d'" using rc dd by (auto intro: later_trans)
  have "ss = (readahead_slots inp)[i := ((readahead_slots inp ! i)\<lparr>rstart := ?pos\<rparr>)\<lparr>rsize := 0\<rparr>]" by (simp add: ss_def)
  then have co: "cache_ok (map_option (overwrite (i * ?rs) bs) (readahead inp)) ?rs (readahead_slot_count inp) ss (dbytes d)"
    using c i rc cache_ok_store [of "readahead inp" ?rs "readahead_slot_count inp" "readahead_slots inp" "dbytes d" i bs]
    by (simp add: cached_def)
  have cd: "cached inp' d'" using c co l rc dd unfolding inp' by (simp add: cached_def later_def)
  obtain buf where buf: "readahead inp = Some buf" "length buf = readahead_slot_count inp * ?rs"
    using c i by (auto simp: cached_def cache_ok_def)
  have fit: "i * ?rs + length bs \<le> length buf" using slot_fits [OF i, of "length bs" ?rs] rc buf(2) by simp
  have holds: "slot_holds (overwrite (i * ?rs) bs buf) ?rs (dbytes d) i (s\<lparr>rstart := ?pos, rsize := of_int got\<rparr>)"
    if "got = int (length bs)" "bs = take (length bs) (drop (nat (doffset d)) (dbytes d))"
      "length bs \<le> length (dbytes d) - nat (doffset d)" for s
  proof -
    have "length bs < 2 ^ 32" using rc unsigned_less [of "readahead_size inp", where 'a = nat] by simp
    then have sz: "unat (of_int got :: u32) = length bs" using that(1) by (simp add: unsigned_of_nat take_bit_nat_eq_self)
    have "0 < length bs \<longrightarrow> ?pos + int (length bs) \<le> int (length (dbytes d))" using that(3) at pos(1) by arith
    moreover have "rsize (s\<lparr>rstart := ?pos, rsize := of_int got\<rparr>) \<noteq> 0 \<longrightarrow> 0 < length bs" using that(1) by auto
    ultimately show ?thesis using sz overwrite_same [OF fit] that(2) at rc pos
      by (simp add: slot_holds_def slot_end_def)
  qed
  have cases: "got < 0 \<and> \<not> calm d \<and> (steady d \<longrightarrow> doffset d' = doffset d) \<or>
     0 \<le> got \<and> doffset d' = doffset d + got \<and> (got = 0 \<longleftrightarrow> int (length (dbytes d)) \<le> ?pos) \<and> nat got \<le> ?rs \<and>
     (\<forall>s. slot_holds (overwrite (i * ?rs) bs buf) ?rs (dbytes d) i (s\<lparr>rstart := ?pos, rsize := of_int got\<rparr>))"
    using rc dd at holds by auto
  have al: "alike inp inp'" "logical_pos inp' = ?pos" "fd inp' = fd inp" "fd_pos inp' = fd_pos inp"
    "storage_recoveries inp' = storage_recoveries inp" "readahead inp' = Some (overwrite (i * ?rs) bs buf)"
    "rstart (readahead_slots inp' ! i) = ?pos"
    unfolding inp' using buf(1) pos(3) by (simp_all add: alike_def ss_def)
  show ?thesis using cases l cd al by blast
qed

text \<open>The slot that a fill leaves behind: it starts at the position and is not empty.\<close>

definition starts_at :: "media_buffered_input \<Rightarrow> nat \<Rightarrow> int \<Rightarrow> bool" where
  "starts_at inp i pos \<longleftrightarrow> i < readahead_slot_count inp \<and> rsize (readahead_slots inp ! i) \<noteq> 0 \<and>
     rstart (readahead_slots inp ! i) = pos"

lemma starts_at_slot_end: "starts_at inp i pos \<Longrightarrow> pos < slot_end (readahead_slots inp ! i)"
proof -
  assume s: "starts_at inp i pos"
  then have "0 < unat (rsize (readahead_slots inp ! i))" by (simp add: starts_at_def unat_gt_0)
  with s show ?thesis unfolding starts_at_def slot_end_def by linarith
qed

lemma readahead_ok_keeps:
  assumes c: "cached inp d" and i: "i < readahead_slot_count inp"
    and f: "fd_pos inp = logical_pos inp" "doffset d = logical_pos inp + got"
    and got: "0 < got" "nat got \<le> unat (readahead_size inp)"
    and s: "rstart (readahead_slots inp ! i) = logical_pos inp" "readahead inp = Some buf"
      "slot_holds buf (unat (readahead_size inp)) (dbytes d) i
         ((readahead_slots inp ! i)\<lparr>rstart := logical_pos inp, rsize := of_int got\<rparr>)"
  shows "coherent (readahead_ok i got inp) d \<and> alike inp (readahead_ok i got inp) \<and>
    logical_pos (readahead_ok i got inp) = logical_pos inp \<and> fd (readahead_ok i got inp) = fd inp \<and>
    starts_at (readahead_ok i got inp) i (logical_pos inp)"
proof -
  let ?n = "(readahead_slots inp)[i := (readahead_slots inp ! i)\<lparr>rstart := logical_pos inp, rsize := of_int got\<rparr>]"
  let ?g = "\<lambda>st. st\<lparr>disk_read_bytes := disk_read_bytes st + of_int got\<rparr>"
  define inp1 where "inp1 = (stats_update ?g inp)\<lparr>fd_pos := fd_pos inp + got, readahead_slots := ?n\<rparr>"
  have "(readahead_slots inp ! i)\<lparr>rstart := logical_pos inp, rsize := w\<rparr> = (readahead_slots inp ! i)\<lparr>rsize := w\<rparr>" for w
    by (simp add: s(1) [symmetric])
  then have eq: "readahead_ok i got inp =
      stats_update (\<lambda>s. s\<lparr>readahead_fills := readahead_fills s + 1\<rparr>) (media_buffered_readahead_touch i inp1)"
    by (simp add: readahead_ok_def Let_def set_slot_def inp1_def)
  have c1: "cached inp1 d"
    using c i s(2,3) cache_ok_fill [of buf "unat (readahead_size inp)" "readahead_slot_count inp" "readahead_slots inp" "dbytes d" i
       "(readahead_slots inp ! i)\<lparr>rstart := logical_pos inp, rsize := of_int got\<rparr>"]
    by (simp add: cached_def inp1_def)
  have len: "i < length (readahead_slots inp)" using cached_sizes [OF c] i by simp
  have "nat got < 2 ^ 32" using got(2) unsigned_less [of "readahead_size inp", where 'a = nat] by simp
  then have "unat (word_of_nat (nat got) :: u32) = nat got" by (simp add: unsigned_of_nat take_bit_nat_eq_self)
  then have nz: "of_int got \<noteq> (0 :: u32)" using got(1) by auto
  from cached_sizes [OF c1] touch_shape [of inp1 i] obtain cl ss where t:
    "media_buffered_readahead_touch i inp1 = inp1\<lparr>readahead_slots := ss, readahead_clock := cl\<rparr>"
    "\<forall>j < MEDIA_READAHEAD_MAX_SLOTS. rsize (ss ! j) = rsize (readahead_slots inp1 ! j) \<and> rstart (ss ! j) = rstart (readahead_slots inp1 ! j)"
    by blast
  have "starts_at (readahead_ok i got inp) i (logical_pos inp)"
    using t i len nz cached_sizes [OF c] by (simp add: starts_at_def eq) (simp add: inp1_def)
  moreover have "coherent (readahead_ok i got inp) d"
    using touch_keeps [OF c1, of i] f unfolding eq by (auto simp: coherent_def inp1_def)
  moreover have "alike inp inp1" by (simp add: inp1_def)
  then have "alike inp (readahead_ok i got inp)"
    using touch_keeps [OF c1, of i] unfolding eq by (auto intro: alike_trans)
  ultimately show ?thesis using touch_keeps [OF c1, of i] unfolding eq by (simp add: inp1_def)
qed

definition configured :: "media_buffered_input \<Rightarrow> bool" where
  "configured inp \<longleftrightarrow> readahead inp \<noteq> None \<and> readahead_size inp \<noteq> 0 \<and> readahead_slot_count inp \<noteq> 0"

lemma alike_configured: "alike inp inp' \<Longrightarrow> configured inp' = configured inp"
  by (simp add: alike_def configured_def)

text \<open>What a fill guarantees: the new slot when it works, the invariant unless a failing read moved the offset.\<close>

definition fill_post :: "media_buffered_input \<Rightarrow> disk \<Rightarrow> int \<Rightarrow> media_buffered_input \<Rightarrow> disk \<Rightarrow> bool" where
  "fill_post inp d r inp' d' \<longleftrightarrow> later d d' \<and> alike inp inp' \<and> cached inp' d' \<and> logical_pos inp' = logical_pos inp \<and> r \<le> 0 \<and>
     (r = 0 \<longrightarrow> coherent inp' d' \<and> fd inp' \<ge> 0 \<and> logical_pos inp < int (length (dbytes d)) \<and>
        (\<exists>i. starts_at inp' i (logical_pos inp))) \<and>
     (steady d \<longrightarrow> coherent inp' d')"

lemma fill_post_after:
  assumes "fill_post inp d r inp' d'" "later d0 d" "alike inp0 inp" "logical_pos inp = logical_pos inp0"
  shows "fill_post inp0 d0 r inp' d'"
  using assms later_steady [OF assms(2)] unfolding fill_post_def
  by (auto intro: later_trans alike_trans simp: later_def)

lemma fill_post_errno [simp]: "r < 0 \<Longrightarrow> fill_post inp d r (inp'\<lparr>last_errno := e\<rparr>) d' = fill_post inp d r inp' d'"
  by (simp add: fill_post_def coherent_def)

lemma slot_read_post:
  assumes c: "cached inp d" and i: "i < readahead_slot_count inp" and rs: "readahead_size inp \<noteq> 0"
    and f: "doffset d = logical_pos inp" "fd inp \<ge> 0" "fd_pos inp = logical_pos inp"
    and r: "slot_read T i (i * unat (readahead_size inp)) pos t inp d = (got, inp', d')"
  shows "(0 < got \<longrightarrow> fill_post inp d 0 (readahead_ok i got inp') d') \<and>
    (got \<le> 0 \<longrightarrow> e < 0 \<longrightarrow> fill_post inp d e inp' d') \<and> cached inp' d' \<and> later d d' \<and> alike inp inp' \<and>
    logical_pos inp' = logical_pos inp \<and>
    (calm d \<longrightarrow> got \<ge> 0) \<and> (got \<ge> 0 \<longrightarrow> (got = 0 \<longleftrightarrow> int (length (dbytes d)) \<le> logical_pos inp)) \<and>
    (steady d \<longrightarrow> got < 0 \<longrightarrow> coherent inp' d')"
proof -
  note k = slot_read_keeps [OF c i rs f(1) r]
  then have k1: "later d d'" "alike inp inp'" "cached inp' d'" "logical_pos inp' = logical_pos inp" "fd inp' = fd inp"
    "fd_pos inp' = fd_pos inp" by auto
  have b: "dbytes d' = dbytes d" "readahead_size inp' = readahead_size inp" "readahead_slot_count inp' = readahead_slot_count inp"
    using k1(1,2) by (simp_all add: later_def alike_def)
  have "fill_post inp d 0 (readahead_ok i got inp') d'" if "0 < got"
  proof -
    from k that obtain buf where g: "doffset d' = logical_pos inp + got" "\<not> int (length (dbytes d)) \<le> logical_pos inp"
      "nat got \<le> unat (readahead_size inp)" "rstart (readahead_slots inp' ! i) = logical_pos inp"
      "readahead inp' = Some buf" "slot_holds buf (unat (readahead_size inp)) (dbytes d) i
         ((readahead_slots inp' ! i)\<lparr>rstart := logical_pos inp, rsize := of_int got\<rparr>)" using f(1) by auto
    have "coherent (readahead_ok i got inp') d' \<and> alike inp' (readahead_ok i got inp') \<and>
      logical_pos (readahead_ok i got inp') = logical_pos inp' \<and> fd (readahead_ok i got inp') = fd inp' \<and>
      starts_at (readahead_ok i got inp') i (logical_pos inp')"
      using readahead_ok_keeps [of inp' d' i got buf] k1 b i f g that by simp
    with k1 g f show ?thesis by (auto simp: fill_post_def coherent_def intro: alike_trans)
  qed
  moreover have "steady d \<longrightarrow> got \<le> 0 \<longrightarrow> coherent inp' d'" using k k1 f by (auto simp: coherent_def)
  moreover from this have "fill_post inp d e inp' d'" if "got \<le> 0" "e < 0"
    using that k1 by (simp add: fill_post_def)
  ultimately show ?thesis using k k1 by auto
qed

lemma fill_slot_keeps:
  assumes c: "coherent inp d" and i: "i < readahead_slot_count inp" and rs: "readahead_size inp \<noteq> 0"
    and f: "fd inp \<ge> 0" "fd_pos inp = logical_pos inp"
    and r: "fill_slot T i (i * unat (readahead_size inp)) t inp d = (r, inp', d')"
  shows "fill_post inp d r inp' d' \<and>
    (calm d \<longrightarrow> r = (if int (length (dbytes d)) \<le> logical_pos inp then AVERROR_EOF else 0))"
proof -
  let ?p = "i * unat (readahead_size inp)" and ?pos = "logical_pos inp"
  have cd: "cached inp d" and at: "doffset d = ?pos" using c f by (simp_all add: coherent_def)
  obtain got i1 d1 where sr: "slot_read T i ?p ?pos t inp d = (got, i1, d1)"
    by (cases "slot_read T i ?p ?pos t inp d") auto
  note k = slot_read_post [OF cd i rs at f sr]
  show ?thesis
  proof (cases "got < 0")
    case False
    with r sr have "got = 0 \<and> r = AVERROR_EOF \<and> inp' = i1 \<and> d' = d1 \<or>
        0 < got \<and> r = 0 \<and> inp' = readahead_ok i got i1 \<and> d' = d1" by (cases "got = 0") (simp_all add: fill_slot_def)
    with k [of AVERROR_EOF] False show ?thesis by (auto simp: AVERROR_EOF_def)
  next
    case True
    let ?i = "i1\<lparr>last_errno := derrno d1\<rparr>"
    obtain r1 i2 d2 where rc: "media_buffered_recover_fd (logical_pos ?i) ?i d1 = (r1, i2, d2)"
      by (cases "media_buffered_recover_fd (logical_pos ?i) ?i d1") auto
    have "cached ?i d1" using k by simp
    from recover_fd_keeps [OF this rc] have k2: "later d1 d2" "alike i1 i2" "cached i2 d2" "logical_pos i2 = ?pos"
      "r1 \<le> 0" "r1 = 0 \<Longrightarrow> coherent i2 d2 \<and> fd i2 \<ge> 0 \<and> fd_pos i2 = ?pos" "r1 < 0 \<Longrightarrow> fd i2 < 0 \<or> i2 = ?i \<and> d2 = d1"
      using k by (auto simp: alike_def)
    have l2: "later d d2" "alike inp i2" using k k2(1,2) by (auto intro: later_trans alike_trans)
    show ?thesis
    proof (cases "r1 = 0")
      case False
      with True r sr rc k have e: "r = AVERROR (errno_or_eio d2)" "inp' = i2" "d' = d2" by (auto simp: fill_slot_def)
      have "steady d \<longrightarrow> coherent i2 d2" using False k2(3,5,7) k True by (auto simp: coherent_def)
      then show ?thesis using e k2 l2 k True errno_or_eio_pos [of d2] by (auto simp: fill_post_def)
    next
      case ok: True
      with k2(6) have c2: "coherent i2 d2" "fd i2 \<ge> 0" "fd_pos i2 = logical_pos i2" "doffset d2 = logical_pos i2"
        using k2(4) by (auto simp: coherent_def)
      have b2: "readahead_size i2 = readahead_size inp" "readahead_slot_count i2 = readahead_slot_count inp"
        using l2 by (simp_all add: alike_def)
      obtain got2 i3 d3 where sr2: "slot_read T i (i * unat (readahead_size i2)) ?pos t i2 d2 = (got2, i3, d3)"
        by (cases "slot_read T i (i * unat (readahead_size i2)) ?pos t i2 d2") auto
      note k3 = slot_read_post [OF k2(3) _ _ c2(4,2,3) sr2, of "AVERROR (errno_or_eio d3)"]
      have "got2 > 0 \<and> r = 0 \<and> inp' = readahead_ok i got2 i3 \<and> d' = d3 \<or>
          got2 \<le> 0 \<and> r = AVERROR (errno_or_eio d3) \<and> inp' = i3\<lparr>last_errno := derrno d3\<rparr> \<and> d' = d3"
        using True ok r sr rc sr2 k b2 by (cases "got2 > 0") (auto simp: fill_slot_def)
      then have "fill_post i2 d2 r inp' d'" using k3 i rs b2 errno_or_eio_pos [of d3] by auto
      then show ?thesis using fill_post_after l2 k2(4) k True by auto
    qed
  qed
qed

lemma fill_readahead_keeps:
  assumes c: "coherent inp d" and r: "media_buffered_fill_readahead T inp d = (r, inp', d')"
  shows "fill_post inp d r inp' d' \<and> (calm d \<and> fd inp \<ge> 0 \<and> configured inp \<longrightarrow>
    r = (if int (length (dbytes d)) \<le> logical_pos inp then AVERROR_EOF else 0))"
proof (cases "configured inp")
  case False
  with r c show ?thesis
    by (auto simp: media_buffered_fill_readahead_def configured_def fill_post_def coherent_def AVERROR_def EINVAL_def)
next
  case True
  obtain i i0 where ch: "media_buffered_readahead_choose_slot inp = (i, i0)"
    by (cases "media_buffered_readahead_choose_slot inp")
  have "cached inp d" using c by (simp add: coherent_def)
  from choose_slot_keeps [OF this _ ch] True c
  have k0: "i < readahead_slot_count inp" "alike inp i0" "logical_pos i0 = logical_pos inp" "fd i0 = fd inp" "coherent i0 d"
    by (auto simp: configured_def)
  then have data: "media_buffered_readahead_slot_data i0 i = Some (i * unat (readahead_size inp))"
    using True by (auto simp: media_buffered_readahead_slot_data_def configured_def alike_def)
  obtain r1 i1 d1 where sy: "media_buffered_sync_fd i0 d = (r1, i1, d1)" by (cases "media_buffered_sync_fd i0 d") auto
  note k1 = sync_fd_keeps [OF k0(5) sy]
  have l1: "later d d1" "alike inp i1" "logical_pos i1 = logical_pos inp" using k1 k0 by (auto intro: alike_trans)
  show ?thesis
  proof (cases "r1 < 0")
    case neg: True
    with r True ch data sy have "r = r1" "inp' = i1" "d' = d1"
      by (auto simp: media_buffered_fill_readahead_def configured_def)
    with neg k1 l1 k0(4) show ?thesis by (auto simp: fill_post_def coherent_def)
  next
    case False
    obtain t d2 where tm: "unifrog_perf_time_ms d1 = (t, d2)" by (cases "unifrog_perf_time_ms d1")
    note pt = perf_time_cases [OF tm]
    have c2: "coherent i1 d2" using k1 pt by (auto simp: coherent_def cached_def later_def)
    have b: "readahead_size i1 = readahead_size inp" "readahead_slot_count i1 = readahead_slot_count inp"
      "readahead_size i1 \<noteq> 0" "dbytes d2 = dbytes d" "later d d2"
      using l1 True pt by (auto simp: alike_def configured_def later_def)
    have "fill_slot T i (i * unat (readahead_size i1)) t i1 d2 = (r, inp', d')"
      using r True ch data sy tm False b(1)
      by (auto simp: media_buffered_fill_readahead_def configured_def)
    from fill_slot_keeps [OF c2 _ b(3) _ _ this] k0(1) k1 b False l1
    have "fill_post i1 d2 r inp' d' \<and> (calm d2 \<longrightarrow> r = (if int (length (dbytes d2)) \<le> logical_pos i1 then AVERROR_EOF else 0))"
      by simp
    then show ?thesis using fill_post_after [of i1 d2 r inp' d' d inp] l1 b later_calm [OF b(5)] by auto
  qed
qed

section \<open>A read returns the bytes of the file\<close>

text \<open>Bytes of the file from a position on.\<close>

definition from_file :: "disk \<Rightarrow> int \<Rightarrow> u8 list \<Rightarrow> bool" where
  "from_file d pos bs \<longleftrightarrow> bs = take (length bs) (drop (nat pos) (dbytes d))"

lemma from_file_append:
  assumes "from_file d pos bs" "from_file d (pos + int (length bs)) cs" "0 \<le> pos"
  shows "from_file d pos (bs @ cs)"
proof -
  have "nat (pos + int (length bs)) = length bs + nat pos" using assms(3) by (simp add: nat_add_distrib)
  then have "cs = take (length cs) (drop (length bs) (drop (nat pos) (dbytes d)))"
    using assms(2) by (simp add: from_file_def)
  then have "bs @ cs = take (length bs + length cs) (drop (nat pos) (dbytes d))"
    using assms(1) unfolding take_add from_file_def by simp
  then show ?thesis unfolding from_file_def length_append .
qed

lemma from_file_later: "later d d' \<Longrightarrow> from_file d' pos bs = from_file d pos bs"
  by (simp add: from_file_def later_def)

lemma from_file_Nil [simp]: "from_file d pos []"
  by (simp add: from_file_def)

text \<open>Copying from a slot that holds the position.\<close>

lemma slot_copy:
  assumes c: "cached inp d" and i: "i < readahead_slot_count inp" and rs: "readahead_size inp \<noteq> 0"
    and s: "rsize (readahead_slots inp ! i) \<noteq> 0" "rstart (readahead_slots inp ! i) \<le> pos"
      "pos + int k \<le> slot_end (readahead_slots inp ! i)"
    and bs: "bs = take k (drop ((case media_buffered_readahead_slot_data inp i of None \<Rightarrow> 0 | Some p \<Rightarrow> p) +
       nat (pos - rstart (readahead_slots inp ! i))) (case readahead inp of None \<Rightarrow> [] | Some b \<Rightarrow> b))"
  shows "length bs = k \<and> from_file d pos bs"
proof -
  let ?s = "readahead_slots inp ! i" and ?rs = "unat (readahead_size inp)"
  define q m where "q = nat (pos - rstart ?s)" and "m = unat (rsize ?s)"
  from c i s(1) obtain buf where buf: "readahead inp = Some buf" "length buf = readahead_slot_count inp * ?rs"
    "0 \<le> rstart ?s" "m \<le> ?rs" "slot_end ?s \<le> int (length (dbytes d))"
    "take m (drop (i * ?rs) buf) = take m (drop (nat (rstart ?s)) (dbytes d))"
    by (auto simp: cached_def cache_ok_def slot_holds_def m_def)
  have b: "bs = take k (drop (i * ?rs + q) buf)"
    using bs buf(1) i rs by (simp add: media_buffered_readahead_slot_data_def q_def)
  have qk: "q + k \<le> m" using s(2,3) unfolding slot_end_def m_def q_def by linarith
  have "bs = take k (drop q (take m (drop (i * ?rs) buf)))"
    using qk unfolding b by (simp add: drop_take min_def add.commute)
  also have "\<dots> = take k (drop q (drop (nat (rstart ?s)) (dbytes d)))"
    unfolding buf(6) using qk by (simp add: drop_take min_def)
  also have "\<dots> = take k (drop (nat pos) (dbytes d))"
    using s(2) buf(3) by (simp add: q_def nat_diff_distrib)
  finally have "bs = take k (drop (nat pos) (dbytes d))" .
  moreover have "nat pos + k \<le> length (dbytes d)" using s(2,3) buf(3,5) by linarith
  ultimately show ?thesis by (simp add: from_file_def)
qed

lemma read_loop_hit:
  assumes c: "coherent inp d" and len: "length (dbytes d) < 2 ^ 32" and rs: "readahead_size inp \<noteq> 0"
    and f: "find_slot inp (logical_pos inp) False \<ge> 0" and n: "stored < n"
  shows "\<exists>bs inp'. read_loop T n stored buf inp d = read_loop T n (stored + int (length bs)) (buf @ bs) inp' d \<and>
    0 < length bs \<and> stored + int (length bs) \<le> n \<and> from_file d (logical_pos inp) bs \<and> coherent inp' d \<and> alike inp inp' \<and>
    logical_pos inp' = logical_pos inp + int (length bs) \<and> fd inp' = fd inp"
proof -
  define i where "i = nat (find_slot inp (logical_pos inp) False)"
  have cd: "cached inp d" using c by (simp add: coherent_def)
  from find_slot_found [OF cd len f] have s: "i < readahead_slot_count inp" "rsize (readahead_slots inp ! i) \<noteq> 0"
    "rstart (readahead_slots inp ! i) \<le> logical_pos inp" "logical_pos inp < slot_end (readahead_slots inp ! i)"
    by (simp_all add: i_def)
  define k where "k = min (nat (n - stored)) (nat (slot_end (readahead_slots inp ! i) - logical_pos inp))"
  define bs where "bs = take k (drop ((case media_buffered_readahead_slot_data inp i of None \<Rightarrow> 0 | Some p \<Rightarrow> p) +
       nat (logical_pos inp - rstart (readahead_slots inp ! i))) (case readahead inp of None \<Rightarrow> [] | Some b \<Rightarrow> b))"
  have k: "0 < k" "stored + int k \<le> n" "logical_pos inp + int k \<le> slot_end (readahead_slots inp ! i)"
    using n s(4) by (auto simp: k_def)
  from slot_copy [OF cd s(1) rs s(2,3) k(3) bs_def] have b: "length bs = k" "from_file d (logical_pos inp) bs" by simp_all
  define inp1 where "inp1 = inp\<lparr>logical_pos := logical_pos inp + int k\<rparr>"
  define inp' where "inp' = stats_update (\<lambda>st. st\<lparr>readahead_hits := readahead_hits st + 1,
      readahead_hit_bytes := readahead_hit_bytes st + of_nat k\<rparr>) (media_buffered_readahead_touch i inp1)"
  have eq: "read_loop T n stored buf inp d = read_loop T n (stored + int k) (buf @ bs) inp' d"
    using n f by (subst read_loop.simps) (simp add: Let_def k_def bs_def inp'_def inp1_def i_def)
  have "cached inp1 d" using cd by (simp add: cached_def inp1_def)
  from touch_keeps [OF this, of i] c have k1: "coherent inp' d" "alike inp1 inp'" "logical_pos inp' = logical_pos inp1" "fd inp' = fd inp1"
    by (auto simp: inp'_def coherent_def inp1_def)
  have "alike inp inp1" by (simp add: inp1_def)
  then have al: "alike inp inp'" using k1(2) by (rule alike_trans)
  show ?thesis using eq k b k1 al by (intro exI [of _ bs] exI [of _ inp']) (simp add: inp1_def)
qed

text \<open>What the loop leaves behind when it has stored the bytes \<open>bs\<close>.\<close>

definition loop_post ::
  "int \<Rightarrow> int \<Rightarrow> media_buffered_input \<Rightarrow> disk \<Rightarrow> int option \<Rightarrow> u8 list \<Rightarrow> media_buffered_input \<Rightarrow> disk \<Rightarrow> bool"
where
  "loop_post n stored inp d early bs inp' d' \<longleftrightarrow>
     stored + int (length bs) \<le> n \<and> later d d' \<and> alike inp inp' \<and> cached inp' d' \<and> from_file d (logical_pos inp) bs \<and>
     logical_pos inp' = logical_pos inp + int (length bs) \<and>
     (case early of Some r \<Rightarrow> r < 0 \<and> stored + int (length bs) \<le> 0 | None \<Rightarrow> 0 < stored + int (length bs)) \<and>
     (steady d \<longrightarrow> coherent inp' d') \<and>
     (calm d \<and> fd inp \<ge> 0 \<longrightarrow>
       (stored + int (length bs) = n \<or> int (length (dbytes d)) \<le> logical_pos inp + int (length bs)) \<and>
       (\<forall>r. early = Some r \<longrightarrow> r = AVERROR_EOF))"

lemma loop_post_more:
  assumes "loop_post n (stored + int (length bs)) inp' d1 early cs inp'' d'" "from_file d (logical_pos inp) bs"
    "later d d1" "alike inp inp'" "logical_pos inp' = logical_pos inp + int (length bs)" "0 \<le> logical_pos inp"
    "fd inp \<ge> 0 \<longrightarrow> fd inp' \<ge> 0"
  shows "loop_post n stored inp d early (bs @ cs) inp'' d'"
proof -
  have b: "dbytes d1 = dbytes d" using assms(3) by (simp add: later_def)
  have "from_file d (logical_pos inp) (bs @ cs)"
    using assms(1,2,5,6) from_file_later [OF assms(3)] by (intro from_file_append) (simp_all add: loop_post_def)
  then show ?thesis using assms later_calm [OF assms(3)] later_steady [OF assms(3)] b unfolding loop_post_def
    by (auto intro: later_trans alike_trans simp: add.assoc split: option.splits)
qed

text \<open>The loop ends, and its result is right.\<close>

lemma read_loop_ends:
  assumes "coherent inp d" "length (dbytes d) < 2 ^ 32" "configured inp" "0 \<le> stored" "stored \<le> n" "0 < n"
  shows "\<exists>early bs inp' d'. read_loop T n stored buf inp d = Some (early, stored + int (length bs), buf @ bs, inp', d') \<and>
    loop_post n stored inp d early bs inp' d'"
  using assms
proof (induction "nat (n - stored)" arbitrary: stored buf inp d rule: less_induct)
  case less
  note c = less.prems(1) and len = less.prems(2) and conf = less.prems(3)
  have cd: "cached inp d" and pos: "0 \<le> logical_pos inp" and rs: "readahead_size inp \<noteq> 0"
    using c conf by (simp_all add: coherent_def cached_def configured_def)
  have hit: "\<exists>early cs inp' d'. read_loop T n stored buf i e = Some (early, stored + int (length cs), buf @ cs, inp', d') \<and>
      loop_post n stored i e early cs inp' d'"
    if h: "coherent i e" "length (dbytes e) < 2 ^ 32" "configured i" "stored < n" "find_slot i (logical_pos i) False \<ge> 0" for i e
  proof -
    have "readahead_size i \<noteq> 0" "0 \<le> logical_pos i" using h by (simp_all add: configured_def coherent_def cached_def)
    from read_loop_hit [OF h(1,2) this(1) h(5,4), of T buf] obtain bs inp1 where 1:
      "read_loop T n stored buf i e = read_loop T n (stored + int (length bs)) (buf @ bs) inp1 e"
      "0 < length bs" "stored + int (length bs) \<le> n" "from_file e (logical_pos i) bs" "coherent inp1 e" "alike i inp1"
      "logical_pos inp1 = logical_pos i + int (length bs)" "fd inp1 = fd i" by blast
    have "configured inp1" using alike_configured [OF 1(6)] h(3) by simp
    then obtain early cs inp' d' where
      "read_loop T n (stored + int (length bs)) (buf @ bs) inp1 e =
         Some (early, stored + int (length bs) + int (length cs), (buf @ bs) @ cs, inp', d')"
      "loop_post n (stored + int (length bs)) inp1 e early cs inp' d'"
      using less.hyps [of "stored + int (length bs)" inp1 e "buf @ bs"] 1 h less.prems(4,6) by force
    with 1 loop_post_more [OF this(2) 1(4) later_refl 1(6,7) \<open>0 \<le> logical_pos i\<close>] show ?thesis
      by (intro exI [of _ early] exI [of _ "bs @ cs"] exI [of _ inp'] exI [of _ d']) (simp add: add.assoc)
  qed
  show ?case
  proof (cases "stored < n")
    case False
    then have "read_loop T n stored buf inp d = Some (None, stored, buf, inp, d)" by (subst read_loop.simps) simp
    moreover have "loop_post n stored inp d None [] inp d"
      using False less.prems by (simp add: loop_post_def coherent_def)
    ultimately show ?thesis by (intro exI [of _ None] exI [of _ "[]"] exI [of _ inp] exI [of _ d]) simp
  next
    case True
    show ?thesis
    proof (cases "find_slot inp (logical_pos inp) False \<ge> 0")
      case found: True
      from hit [OF c len conf True found] show ?thesis .
    next
      case miss: False
      define inp0 where "inp0 = stats_update (\<lambda>st. st\<lparr>readahead_misses := readahead_misses st + 1\<rparr>) inp"
      obtain r i1 d1 where fr: "media_buffered_fill_readahead T inp0 d = (r, i1, d1)"
        by (cases "media_buffered_fill_readahead T inp0 d") auto
      have i0: "coherent inp0 d" "alike inp inp0" "logical_pos inp0 = logical_pos inp" "fd inp0 = fd inp" "configured inp0"
        using c conf by (simp_all add: inp0_def coherent_def configured_def)
      from fill_readahead_keeps [OF i0(1) fr] i0
      have k: "fill_post inp0 d r i1 d1"
        "calm d \<and> fd inp \<ge> 0 \<longrightarrow> r = (if int (length (dbytes d)) \<le> logical_pos inp then AVERROR_EOF else 0)" by auto
      have "fill_post inp d r i1 d1" using fill_post_after [OF k(1) later_refl i0(2)] i0(3) by simp
      then have p: "later d d1" "alike inp i1" "cached i1 d1" "logical_pos i1 = logical_pos inp" "r \<le> 0"
        "r = 0 \<Longrightarrow> coherent i1 d1 \<and> fd i1 \<ge> 0 \<and> logical_pos inp < int (length (dbytes d)) \<and> (\<exists>i. starts_at i1 i (logical_pos inp))"
        "steady d \<longrightarrow> coherent i1 d1" by (auto simp: fill_post_def)
      have step: "read_loop T n stored buf inp d = (if r < 0
          then Some (if stored > 0 then None else Some r, stored, buf, i1, d1) else read_loop T n stored buf i1 d1)"
        using True miss fr by (subst read_loop.simps) (simp add: Let_def inp0_def)
      show ?thesis
      proof (cases "r < 0")
        case neg: True
        have "loop_post n stored inp d (if stored > 0 then None else Some r) [] i1 d1"
          using p neg k(2) True less.prems(4) unfolding loop_post_def
          by (auto simp: AVERROR_EOF_def split: if_splits)
        then show ?thesis using step neg
          by (intro exI [of _ "if stored > 0 then None else Some r"] exI [of _ "[]"] exI [of _ i1] exI [of _ d1]) simp
      next
        case False
        then have "r = 0" using p(5) by simp
        with p(6) obtain i where s: "coherent i1 d1" "fd i1 \<ge> 0" "starts_at i1 i (logical_pos inp)" by blast
        have l1: "length (dbytes d1) < 2 ^ 32" "configured i1" using len p(1,2) conf alike_configured by (auto simp: later_def)
        have "find_slot i1 (logical_pos i1) False \<ge> 0"
          using find_slot_finds [OF p(3) l1(1)] s(3) starts_at_slot_end [OF s(3)] pos p(4) by (auto simp: starts_at_def)
        from hit [OF s(1) l1 True this] obtain early cs inp' d' where
          e: "read_loop T n stored buf i1 d1 = Some (early, stored + int (length cs), buf @ cs, inp', d')"
          "loop_post n stored i1 d1 early cs inp' d'" by blast
        have "loop_post n stored inp d early ([] @ cs) inp' d'"
          using e(2) p s(2) pos by (intro loop_post_more [where inp' = i1 and ?d1.0 = d1]) simp_all
        with e(1) step False show ?thesis by auto
      qed
    qed
  qed
qed

text \<open>What a read promises: the bytes of the file, an unchanged position when there are none.\<close>

definition read_post ::
  "int \<Rightarrow> media_buffered_input \<Rightarrow> disk \<Rightarrow> int \<Rightarrow> u8 list \<Rightarrow> media_buffered_input \<Rightarrow> disk \<Rightarrow> bool"
where
  "read_post n inp d r bs inp' d' \<longleftrightarrow>
     later d d' \<and> alike inp inp' \<and> cached inp' d' \<and> r \<noteq> 0 \<and> r \<le> n \<and>
     (r > 0 \<longrightarrow> bs = take (nat r) (drop (nat (logical_pos inp)) (dbytes d)) \<and> length bs = nat r) \<and>
     logical_pos inp' = logical_pos inp + max 0 r \<and> (steady d \<longrightarrow> coherent inp' d')"

lemma direct_read_post:
  assumes c: "cached inp d" and f: "doffset d = logical_pos inp" "fd inp \<ge> 0" "fd_pos inp = logical_pos inp" and n: "0 < n"
    and r: "timed_read T (nat n) pos t inp d = (got, bs, inp', d')"
  shows "(0 < got \<longrightarrow> read_post n inp d got bs (direct_ok got inp') d') \<and>
    cached inp' d' \<and> later d d' \<and> alike inp inp' \<and> logical_pos inp' = logical_pos inp \<and>
    (got \<le> 0 \<longrightarrow> steady d \<longrightarrow> coherent inp' d') \<and>
    (calm d \<longrightarrow> got \<ge> 0) \<and> (got \<ge> 0 \<longrightarrow> (got = 0 \<longleftrightarrow> int (length (dbytes d)) \<le> logical_pos inp))"
proof -
  obtain d1 where rd: "sys_read (nat n) (d\<lparr>derrno := 0\<rparr>) = (got, bs, d1)" and d': "snd (unifrog_perf_time_ms d1) = d'"
    and inp': "\<exists>el. inp' = media_buffered_record_disk_read T pos got el inp"
    using r by (auto simp: timed_read_def Let_def split: prod.splits)
  then obtain g where g: "inp' = stats_update g inp" by (auto simp: media_buffered_record_disk_read_def)
  obtain tm where "unifrog_perf_time_ms d1 = (tm, d')" using d' by (cases "unifrog_perf_time_ms d1") simp
  note dd = perf_time_cases [OF this]
  have pos: "0 \<le> doffset d" "0 < nat n" using c n by (simp_all add: cached_def)
  note rc = sys_read_cases [OF rd pos(2), simplified, OF pos(1)]
  have l: "later d d'" using rc dd by (auto intro: later_trans)
  have k: "cached inp' d'" using c l rc dd unfolding g by (auto intro: cached_disk simp: later_def)
  have "read_post n inp d got bs (direct_ok got inp') d'" if "0 < got"
  proof -
    have "cached (direct_ok got inp') d'" using k c that g by (simp add: cached_def direct_ok_def)
    moreover have "fd_pos (direct_ok got inp') = fd_pos inp + got" "logical_pos (direct_ok got inp') = logical_pos inp + got"
      "alike inp (direct_ok got inp')" by (simp_all add: direct_ok_def g)
    ultimately show ?thesis using that rc dd f n l by (auto simp: read_post_def coherent_def)
  qed
  then show ?thesis using k l rc dd f g by (auto simp: coherent_def)
qed

text \<open>The reading half of \<open>media_buffered_read_direct\<close>, with the descriptor at the position.\<close>

lemma read_direct_post:
  assumes c: "coherent inp d" and n: "0 < n" and r: "media_buffered_read_direct T n inp d = (r, bs, inp', d')"
  shows "read_post n inp d r bs inp' d' \<and> (calm d \<and> fd inp \<ge> 0 \<longrightarrow>
    (if int (length (dbytes d)) \<le> logical_pos inp then r = AVERROR_EOF else r > 0))"
proof -
  obtain r1 i1 d1 where sy: "media_buffered_sync_fd inp d = (r1, i1, d1)" by (cases "media_buffered_sync_fd inp d") auto
  note k1 = sync_fd_keeps [OF c sy]
  show ?thesis
  proof (cases "r1 < 0")
    case True
    with r sy have "r = r1" "inp' = i1" "d' = d1" by (auto simp: media_buffered_read_direct_def)
    with True k1 n show ?thesis by (auto simp: read_post_def coherent_def)
  next
    case False
    obtain t d2 where tm: "unifrog_perf_time_ms d1 = (t, d2)" by (cases "unifrog_perf_time_ms d1")
    note pt = perf_time_cases [OF tm]
    have l2: "later d d2" using k1 pt by (auto intro: later_trans)
    have c2: "cached i1 d2" "doffset d2 = logical_pos i1" "fd i1 \<ge> 0" "fd_pos i1 = logical_pos i1"
      using k1 pt False by (auto simp: coherent_def cached_def later_def)
    obtain got b3 i3 d3 where tr: "timed_read T (nat n) (logical_pos i1) t i1 d2 = (got, b3, i3, d3)"
      by (cases "timed_read T (nat n) (logical_pos i1) t i1 d2") auto
    note k3 = direct_read_post [OF c2 n tr]
    have ext: "read_post n inp d r bs inp' d'" if "read_post n i r0 r bs inp' d'" "later d r0" "alike inp i"
      "logical_pos i = logical_pos inp" for i r0
      using that later_steady [OF that(2)] by (auto simp: read_post_def intro: alike_trans later_trans) (simp_all add: later_def)
    have l3: "later d d3" "alike inp i3" "logical_pos i3 = logical_pos inp"
      using k3 k1 l2 by (auto intro: later_trans alike_trans)
    show ?thesis
    proof (cases "got < 0")
      case nonneg: False
      with r sy False tm tr have "got = 0 \<and> r = AVERROR_EOF \<and> inp' = i3 \<and> d' = d3 \<or>
          0 < got \<and> r = got \<and> bs = b3 \<and> inp' = direct_ok got i3 \<and> d' = d3"
        by (cases "got = 0") (auto simp: media_buffered_read_direct_def)
      then show ?thesis
      proof
        assume z: "got = 0 \<and> r = AVERROR_EOF \<and> inp' = i3 \<and> d' = d3"
        then have "int (length (dbytes d)) \<le> logical_pos inp" using k3 k1 l2 by (auto simp: later_def)
        with z l3 k3 later_steady [OF l2] n show ?thesis by (auto simp: read_post_def AVERROR_EOF_def later_def)
      next
        assume g: "0 < got \<and> r = got \<and> bs = b3 \<and> inp' = direct_ok got i3 \<and> d' = d3"
        then have "\<not> int (length (dbytes d)) \<le> logical_pos inp" using k3 k1 l2 by (auto simp: later_def)
        with g k3 ext [of i1 d2] k1 l2 show ?thesis by auto
      qed
    next
      case True
      let ?i = "i3\<lparr>last_errno := derrno d3\<rparr>"
      obtain r4 i4 d4 where rc: "media_buffered_recover_fd (logical_pos ?i) ?i d3 = (r4, i4, d4)"
        by (cases "media_buffered_recover_fd (logical_pos ?i) ?i d3") auto
      have "cached ?i d3" using k3 by simp
      from recover_fd_keeps [OF this rc] have k4: "later d3 d4" "alike i3 i4" "cached i4 d4" "logical_pos i4 = logical_pos inp"
        "r4 \<le> 0" "r4 = 0 \<Longrightarrow> coherent i4 d4 \<and> fd i4 \<ge> 0 \<and> fd_pos i4 = logical_pos i4" "r4 < 0 \<Longrightarrow> fd i4 < 0 \<or> i4 = ?i \<and> d4 = d3"
        using l3 by (auto simp: alike_def)
      have l4: "later d d4" "alike inp i4" using l3 k4 by (auto intro: later_trans alike_trans)
      have nc: "\<not> calm d" using k3 True later_calm [OF l2] by auto
      have e3: "logical_pos i1 = logical_pos i3" using l3 k1 by simp
      show ?thesis
      proof (cases "r4 = 0")
        case no: False
        with r sy False tm tr True rc e3 have e: "r = AVERROR (errno_or_eio d4)" "inp' = i4" "d' = d4"
          by (auto simp: media_buffered_read_direct_def)
        have "steady d \<longrightarrow> coherent i4 d4" using no k4(3,5,7) k3 True later_steady [OF l2] by (auto simp: coherent_def)
        with e l4 k4 nc n errno_or_eio_pos [of d4] show ?thesis by (auto simp: read_post_def later_def)
      next
        case ok: True
        with k4 have c4: "cached i4 d4" "doffset d4 = logical_pos i4" "fd i4 \<ge> 0" "fd_pos i4 = logical_pos i4"
          by (auto simp: coherent_def)
        obtain got2 b5 i5 d5 where tr2: "timed_read T (nat n) (logical_pos i1) t i4 d4 = (got2, b5, i5, d5)"
          by (cases "timed_read T (nat n) (logical_pos i1) t i4 d4") auto
        note k5 = direct_read_post [OF c4 n tr2]
        have "got2 > 0 \<and> r = got2 \<and> bs = b5 \<and> inp' = direct_ok got2 i5 \<and> d' = d5 \<or>
            got2 \<le> 0 \<and> r = AVERROR (errno_or_eio d5) \<and> inp' = i5\<lparr>last_errno := derrno d5\<rparr> \<and> d' = d5"
          using r sy False tm tr True ok rc tr2 e3 by (cases "got2 > 0") (auto simp: media_buffered_read_direct_def)
        moreover have "read_post n inp d r bs inp' d'"
          if "got2 \<le> 0 \<and> r = AVERROR (errno_or_eio d5) \<and> inp' = i5\<lparr>last_errno := derrno d5\<rparr> \<and> d' = d5"
          using that k5 l4 k4(4) n errno_or_eio_pos [of d5] later_steady [OF l4(1)]
          by (auto simp: read_post_def later_def coherent_def intro: alike_trans)
        ultimately show ?thesis using k5 ext [of i4 d4] l4 k4(4) nc by auto
      qed
    qed
  qed
qed

lemma read_post_stats:
  "read_post n (stats_update f inp) d r bs inp' d' = read_post n inp d r bs inp' d'"
  "read_post n inp d r bs (stats_update f inp') d' = read_post n inp d r bs inp' d'"
  by (simp_all add: read_post_def coherent_def alike_def)

text \<open>Reading by either path.\<close>

lemma media_read_post:
  assumes c: "coherent inp d" and len: "length (dbytes d) < 2 ^ 32" and f: "fd inp \<ge> 0" and n: "0 < n"
  shows "\<exists>r bs inp' d'. media_buffered_read T n inp d = Some (r, bs, inp', d') \<and> read_post n inp d r bs inp' d' \<and>
    (calm d \<longrightarrow> (if int (length (dbytes d)) \<le> logical_pos inp then r = AVERROR_EOF else r > 0)) \<and>
    (calm d \<and> readahead_enabled inp \<and> configured inp \<and> logical_pos inp < int (length (dbytes d)) \<longrightarrow>
      r = min n (int (length (dbytes d)) - logical_pos inp))"
proof -
  define inp0 where "inp0 = count_request n inp"
  have i0: "coherent inp0 d" "logical_pos inp0 = logical_pos inp" "fd inp0 = fd inp" "readahead_enabled inp0 = readahead_enabled inp"
    "configured inp0 = configured inp" "readahead inp0 = readahead inp" "readahead_size inp0 = readahead_size inp"
    "readahead_slot_count inp0 = readahead_slot_count inp"
    using c by (simp_all add: inp0_def count_request_def coherent_def configured_def)
  show ?thesis
  proof (cases "readahead_enabled inp \<and> configured inp")
    case False
    obtain r bs i1 d1 where rd: "media_buffered_read_direct T n inp0 d = (r, bs, i1, d1)"
      by (cases "media_buffered_read_direct T n inp0 d") auto
    have "media_buffered_read T n inp d = Some (r, bs, if r < 0 then i1 else count_read r n i1, d1)"
      using False f n rd by (auto simp: media_buffered_read_def configured_def inp0_def [symmetric] i0)
    moreover have "read_post n inp d r bs (if r < 0 then i1 else count_read r n i1) d1"
      using read_direct_post [OF i0(1) n rd] by (simp add: count_read_def count_request_def read_post_stats inp0_def)
    ultimately show ?thesis using read_direct_post [OF i0(1) n rd] False f i0 by auto
  next
    case True
    then have "configured inp0" using i0 by simp
    from read_loop_ends [OF i0(1) len this, of 0 n T "[]"] n obtain early bs i1 d1 where
      lp: "read_loop T n 0 [] inp0 d = Some (early, int (length bs), bs, i1, d1)" "loop_post n 0 inp0 d early bs i1 d1" by auto
    define r where "r = (case early of Some e \<Rightarrow> e | None \<Rightarrow> int (length bs))"
    define i2 where "i2 = (case early of Some e \<Rightarrow> i1 | None \<Rightarrow> count_read r n i1)"
    have rel: "media_buffered_read T n inp d = Some (r, bs, i2, d1)"
      using True f n lp by (auto simp: media_buffered_read_def configured_def inp0_def [symmetric] i0 loop_post_def r_def i2_def split: option.splits)
    have bs: "bs = take (length bs) (drop (nat (logical_pos inp)) (dbytes d))"
      "length bs \<le> length (dbytes d) - nat (logical_pos inp)" "0 \<le> logical_pos inp"
    proof -
      from lp(2) i0 show b: "bs = take (length bs) (drop (nat (logical_pos inp)) (dbytes d))"
        by (simp add: loop_post_def from_file_def)
      show "length bs \<le> length (dbytes d) - nat (logical_pos inp)" using arg_cong [OF b, of length] by simp
      show "0 \<le> logical_pos inp" using c by (simp add: coherent_def cached_def)
    qed
    have "read_post n inp0 d r bs i2 d1"
      using lp(2) bs i0 n by (auto simp: loop_post_def read_post_def r_def i2_def count_read_def coherent_def split: option.splits)
    then have post: "read_post n inp d r bs i2 d1" unfolding inp0_def count_request_def by (simp only: read_post_stats)
    have len_le: "int (length bs) \<le> n" and early: "early = None \<Longrightarrow> bs \<noteq> []" "\<And>e. early = Some e \<Longrightarrow> bs = []"
      and ends: "calm d \<Longrightarrow> int (length bs) = n \<or> int (length (dbytes d)) \<le> logical_pos inp + int (length bs)"
      "\<And>e. calm d \<Longrightarrow> early = Some e \<Longrightarrow> e = AVERROR_EOF"
      using lp(2) i0(2,3) f by (auto simp: loop_post_def)
    have full: "r = min n (int (length (dbytes d)) - logical_pos inp)" if "calm d" "logical_pos inp < int (length (dbytes d))"
    proof -
      have "early = None" using ends(1) [OF that(1)] early(2) n that(2) by (cases early) auto
      then have "r = int (length bs)" by (simp add: r_def)
      then show ?thesis using ends(1) [OF that(1)] len_le bs(2,3) that(2) by linarith
    qed
    have "r = AVERROR_EOF" if "int (length (dbytes d)) \<le> logical_pos inp" "calm d"
    proof -
      have "bs = []" using bs(2,3) that(1) by (auto simp: nat_le_iff)
      then have "early \<noteq> None" using early(1) by auto
      then show ?thesis using ends(2) [OF that(2)] by (auto simp: r_def)
    qed
    with full n rel post show ?thesis
      by (intro exI [of _ r] exI [of _ bs] exI [of _ i2] exI [of _ d1]) auto
  qed
qed

section \<open>Seeking, filling ahead and opening\<close>

text \<open>The position a seek asks for, in a file of a given length.\<close>

definition seek_target :: "int \<Rightarrow> int \<Rightarrow> int \<Rightarrow> nat \<Rightarrow> int" where
  "seek_target off whence pos len = off + (if seek_whence_of whence = SEEK_SET then 0
     else if seek_whence_of whence = SEEK_CUR then pos else int len)"

lemma sys_lseek_end_cases:
  assumes "sys_lseek off SEEK_END d = (p, d')"
  shows "later d d' \<and> (p < 0 \<and> doffset d' = doffset d \<or> 0 \<le> p \<and> p = off + int (length (dbytes d)) \<and> doffset d' = p)"
  using assms next_outcome_later [of d]
  by (auto simp: sys_lseek_def SEEK_END_def SEEK_SET_def SEEK_CUR_def Let_def later_def split: prod.splits outcome.splits if_splits)

definition seek_post :: "int \<Rightarrow> int \<Rightarrow> media_buffered_input \<Rightarrow> disk \<Rightarrow> int \<Rightarrow> media_buffered_input \<Rightarrow> disk \<Rightarrow> bool" where
  "seek_post off whence inp d r inp' d' \<longleftrightarrow> later d d' \<and> alike inp inp' \<and> coherent inp' d' \<and>
     (let target = seek_target off whence (logical_pos inp) (length (dbytes d))
      in if whence = AVSEEK_SIZE then logical_pos inp' = logical_pos inp \<and> (r < 0 \<or> r = int (length (dbytes d)))
         else if r < 0 then logical_pos inp' = logical_pos inp \<or> \<not> readahead_enabled inp \<and> logical_pos inp' = target
         else r = target \<and> logical_pos inp' = target)"

lemma media_seek_post:
  assumes c: "coherent inp d" and r: "media_buffered_seek off whence inp d = (r, inp', d')"
  shows "seek_post off whence inp d r inp' d'"
proof -
  let ?w = "seek_whence_of whence" and ?target = "seek_target off whence (logical_pos inp) (length (dbytes d))"
  define inp0 where "inp0 = stats_update (\<lambda>s. s\<lparr>seek_calls := seek_calls s + 1\<rparr>) inp"
  have i0: "coherent inp0 d" "alike inp inp0" "logical_pos inp0 = logical_pos inp" "file_size inp0 = file_size inp"
    "readahead_enabled inp0 = readahead_enabled inp" "fd inp0 = fd inp"
    using c by (simp_all add: inp0_def coherent_def)
  have q: "0 \<le> doffset d" "cached inp0 d" "file_size inp \<ge> 0 \<longrightarrow> file_size inp = int (length (dbytes d))"
    using i0 by (simp_all add: coherent_def cached_def)
  have neg: "AVERROR EINVAL < 0" "AVERROR ENOSYS < 0" by (simp_all add: AVERROR_def EINVAL_def ENOSYS_def)
  consider (early) "fd inp < 0 \<or> whence = AVSEEK_SIZE \<or> ?w \<notin> {SEEK_SET, SEEK_CUR, SEEK_END}"
    | (unknown) "\<not> fd inp < 0" "whence \<noteq> AVSEEK_SIZE" "?w = SEEK_END" "file_size inp < 0"
    | (known) "\<not> fd inp < 0" "whence \<noteq> AVSEEK_SIZE" "?w \<in> {SEEK_SET, SEEK_CUR, SEEK_END}" "\<not> (?w = SEEK_END \<and> file_size inp < 0)"
    by auto
  then show ?thesis
  proof cases
    case early
    with r c q neg show ?thesis by (auto simp: media_buffered_seek_def seek_post_def Let_def split: if_splits)
  next
    case unknown
    obtain p d1 where ls: "sys_lseek off SEEK_END (d\<lparr>derrno := 0\<rparr>) = (p, d1)" by (cases "sys_lseek off SEEK_END (d\<lparr>derrno := 0\<rparr>)")
    note l = sys_lseek_end_cases [OF ls, simplified]
    have tg: "?target = off + int (length (dbytes d))" using unknown(3)
      by (simp add: seek_target_def SEEK_SET_def SEEK_CUR_def SEEK_END_def)
    have "media_buffered_seek off whence inp d = (if p < 0 then (AVERROR (errno_or_eio d1), inp0\<lparr>last_errno := derrno d1\<rparr>, d1)
        else (p, inp0\<lparr>logical_pos := p, fd_pos := p\<rparr>, d1))"
      using unknown ls by (simp add: media_buffered_seek_def Let_def inp0_def SEEK_SET_def SEEK_CUR_def SEEK_END_def)
    with r l tg i0 unknown errno_or_eio_pos [of d1] q(1) show ?thesis
      by (auto simp: seek_post_def Let_def coherent_def cached_def later_def alike_def split: if_splits)
  next
    case known
    have tg: "(if ?w = SEEK_SET then off else if ?w = SEEK_CUR then logical_pos inp + off else file_size inp + off) = ?target"
      using known q(3) by (auto simp: seek_target_def)
    define i where "i = nat (find_slot inp0 ?target True)"
    obtain p d1 where ls: "sys_lseek ?target SEEK_SET (d\<lparr>derrno := 0\<rparr>) = (p, d1)" by (cases "sys_lseek ?target SEEK_SET (d\<lparr>derrno := 0\<rparr>)")
    let ?t = "media_buffered_readahead_touch i inp0"
    have "media_buffered_seek off whence inp d = seek_to ?target inp0 d"
      using known by (auto simp: media_buffered_seek_def Let_def inp0_def [symmetric] i0 tg [symmetric])
    then have eq: "(r, inp', d') = (if ?target < 0 then (AVERROR EINVAL, inp0, d)
        else if find_slot inp0 ?target True \<ge> 0 then (?target, (stats_update (\<lambda>s. s\<lparr>readahead_seek_hits := readahead_seek_hits s + 1\<rparr>) ?t)\<lparr>logical_pos := ?target\<rparr>, d)
        else if readahead_enabled inp then (?target, inp0\<lparr>logical_pos := ?target\<rparr>, d)
        else if p < 0 then (AVERROR (errno_or_eio d1), inp0\<lparr>logical_pos := ?target, last_errno := derrno d1\<rparr>, d1)
        else (p, inp0\<lparr>logical_pos := ?target, fd_pos := p, logical_pos := p\<rparr>, d1))"
      using r ls by (simp add: seek_to_def Let_def i0(5) i_def)
    show ?thesis
    proof (cases "?target < 0")
      case True
      with eq i0 known neg show ?thesis by (simp add: seek_post_def)
    next
      case nn: False
      have ct: "cached ?t d" "alike inp ?t" "fd ?t = fd inp0" "fd_pos ?t = fd_pos inp0" using touch_keeps [OF q(2), of i] i0 by (auto intro: alike_trans)
      note l = sys_lseek_cases [OF ls, simplified, OF _ q(1)]
      show ?thesis
      proof (cases "find_slot inp0 ?target True \<ge> 0 \<or> readahead_enabled inp")
        case True
        with eq nn known ct i0 show ?thesis
          by (auto simp: seek_post_def Let_def coherent_def cached_def alike_def split: if_splits)
      next
        case False
        with eq nn l i0 known errno_or_eio_pos [of d1] q(1) show ?thesis
          by (auto simp: seek_post_def Let_def coherent_def cached_def later_def alike_def split: if_splits)
      qed
    qed
  qed
qed

end
