(* ===== verification/UF_MediaFile.thy ===== *)
theory UF_MediaFile
  imports UF_ReadaheadSpec
begin

text \<open>
  The media player's input as a whole: opening it, turning read-ahead on, filling ahead, reading and
  seeking in any order refine a file with a position.  At the end, the two places where this fails in
  the code: a file that reaches 4 GiB, and a descriptor moved by a failed read.
\<close>

section \<open>Filling ahead\<close>

text \<open>Filling never moves the position of the input.\<close>

definition kept :: "media_buffered_input \<Rightarrow> disk \<Rightarrow> media_buffered_input \<Rightarrow> disk \<Rightarrow> bool" where
  "kept inp d inp' d' \<longleftrightarrow> later d d' \<and> cached inp' d' \<and> logical_pos inp' = logical_pos inp \<and> (steady d \<longrightarrow> coherent inp' d')"

lemma kept_refl: "coherent inp d \<Longrightarrow> kept inp d inp d"
  by (simp add: kept_def coherent_def)

lemma kept_trans: "kept inp d inp' d' \<Longrightarrow> kept inp' d' inp'' d'' \<Longrightarrow> kept inp d inp'' d''"
  by (auto simp: kept_def intro: later_trans dest: later_steady)

lemma exit_down_cases: "media_exit_down d = (b, d') \<Longrightarrow> later d d' \<and> doffset d' = doffset d \<and> doutcomes d' = doutcomes d"
  by (auto simp: media_exit_down_def later_def split: list.splits)

lemma fill_at_keeps:
  assumes c: "coherent inp d" and r: "media_buffered_fill_readahead_at T pos inp d = (r, got, inp', d')"
  shows "kept inp d inp' d' \<and> alike inp inp'"
proof -
  have cd: "cached inp d" and lp: "0 \<le> logical_pos inp" using c by (simp_all add: coherent_def cached_def)
  consider (neg) "pos < 0" | (hit) "0 \<le> pos" "find_slot inp pos False \<ge> 0" | (miss) "0 \<le> pos" "\<not> find_slot inp pos False \<ge> 0" by linarith
  then show ?thesis
  proof cases
    case neg
    with r kept_refl [OF c] show ?thesis by (simp add: media_buffered_fill_readahead_at_def)
  next
    case hit
    then have "inp' = media_buffered_readahead_touch (nat (find_slot inp pos False)) inp" "d' = d"
      using r by (simp_all add: media_buffered_fill_readahead_at_def Let_def)
    with touch_keeps [OF cd, of "nat (find_slot inp pos False)"] c show ?thesis by (simp add: kept_def coherent_def)
  next
    case miss
    obtain r1 i1 d1 where fr: "media_buffered_fill_readahead T (inp\<lparr>logical_pos := pos\<rparr>) d = (r1, i1, d1)"
      by (cases "media_buffered_fill_readahead T (inp\<lparr>logical_pos := pos\<rparr>) d") auto
    have "coherent (inp\<lparr>logical_pos := pos\<rparr>) d" using c miss(1) by (simp add: coherent_def cached_def)
    from fill_readahead_keeps [OF this fr] have k: "later d d1" "alike (inp\<lparr>logical_pos := pos\<rparr>) i1" "cached i1 d1"
      "steady d \<longrightarrow> coherent i1 d1" by (auto simp: fill_post_def)
    have "inp' = i1\<lparr>logical_pos := logical_pos inp\<rparr>" "d' = d1"
      using r miss fr by (auto simp: media_buffered_fill_readahead_at_def Let_def split: if_splits)
    moreover have "alike inp i1" using k(2) by (simp add: alike_def)
    ultimately show ?thesis using k lp by (simp add: kept_def coherent_def cached_def)
  qed
qed

lemma prefill_loop_keeps:
  "coherent inp d \<Longrightarrow> steady d \<Longrightarrow> prefill_loop T target filled pos inp d = (n, inp', d') \<Longrightarrow>
   kept inp d inp' d' \<and> alike inp inp' \<and> (filled \<le> target \<longrightarrow> n \<le> target)"
proof (induction T target filled pos inp d arbitrary: n inp' d' rule: prefill_loop.induct)
  case (1 T target filled pos inp d)
  obtain b d1 where ex: "media_exit_down d = (b, d1)" by (cases "media_exit_down d")
  obtain r got i2 d2 where fa: "media_buffered_fill_readahead_at T pos inp d1 = (r, got, i2, d2)"
    by (cases "media_buffered_fill_readahead_at T pos inp d1") auto
  have c1: "coherent inp d1" "kept inp d inp d1" "steady d1"
    using exit_down_cases [OF ex] 1(2,3) by (auto simp: kept_def coherent_def cached_def later_def steady_def)
  note k = fill_at_keeps [OF c1(1) fa]
  have k2: "kept inp d i2 d2" "alike inp i2" "coherent i2 d2" "steady d2"
    using k kept_trans [OF c1(2)] c1(3) by (auto simp: kept_def intro: later_steady)
  show ?case
  proof (cases "b \<or> filled \<ge> target \<or> file_size inp \<ge> 0 \<and> pos \<ge> file_size inp")
    case True
    then have "n = filled" "inp' = inp" "d' = d1" using 1(4) ex by (auto split: if_splits)
    with c1(2) show ?thesis by auto
  next
    case go: False
    show ?thesis
    proof (cases "r < 0 \<or> got = 0")
      case True
      then have "n = filled" "inp' = i2" "d' = d2" using 1(4) ex fa go by auto
      with k2 show ?thesis by simp
    next
      case False
      then have "prefill_loop T target (filled + min got (target - filled)) (pos + int got) i2 d2 = (n, inp', d')"
        using 1(4) ex fa go by auto
      from 1(1) [OF ex [symmetric] _ _ fa [symmetric] refl refl _ k2(3,4) this] go False
      have "kept i2 d2 inp' d'" "alike i2 inp'" "n \<le> target" by auto
      with k2 show ?thesis by (auto intro: kept_trans alike_trans)
    qed
  qed
qed

section \<open>Turning read-ahead on\<close>

declare alloc_halving.simps [simp del] alloc_slots_loop.simps [simp del]

text \<open>The product test of the allocation: when it passes, the product did not wrap.\<close>

lemma product_exact:
  fixes a b :: u32
  assumes "a * b div a = b" "a \<noteq> 0"
  shows "unat (a * b) = unat a * unat b"
proof -
  have "unat a * unat b \<le> unat (a * b)"
    using arg_cong [OF assms(1), of unat] by (metis mult.commute times_div_less_eq_dividend unat_div_distrib)
  moreover have "unat (a * b) \<le> unat a * unat b" by (simp add: unat_word_ariths(2))
  ultimately show ?thesis by simp
qed

lemma alloc_halving_fits:
  assumes law: "\<And>n b. av_malloc n = Some b \<Longrightarrow> length b = n"
  shows "alloc_halving av_malloc slots m sz = Some (buf, k) \<Longrightarrow> sz < 2 ^ 32 \<Longrightarrow>
    0 < k \<and> k < 2 ^ 32 \<and> length buf = k * unat slots"
proof (induction sz arbitrary: buf k rule: less_induct)
  case (less sz)
  let ?w = "word_of_nat sz :: u32"
  have sz: "unat ?w = sz" using less.prems(2) by (simp add: unsigned_of_nat take_bit_nat_eq_self)
  from less.prems(1) have pos: "sz > 0" and eq: "?w * slots div ?w = slots"
    by (subst (asm) alloc_halving.simps, auto simp: Let_def split: if_splits)+
  have prod: "unat (?w * slots) = sz * unat slots" using product_exact [OF eq] pos sz by fastforce
  show ?case
  proof (cases "av_malloc (unat (?w * slots))")
    case None
    with less.prems(1) pos eq have "alloc_halving av_malloc slots m (sz div 2) = Some (buf, k)"
      by (subst (asm) alloc_halving.simps) (auto simp: Let_def split: if_splits)
    then show ?thesis using less.IH [of "sz div 2" buf k] pos less.prems(2) by auto
  next
    case (Some b)
    with less.prems(1) pos eq have "buf = b" "k = sz"
      by (subst (asm) alloc_halving.simps, auto simp: Let_def split: if_splits)+
    with law [OF Some] prod pos less.prems(2) show ?thesis by simp
  qed
qed

lemma alloc_slots_fits:
  assumes law: "\<And>n b. av_malloc n = Some b \<Longrightarrow> length b = n" and w: "want < 2 ^ 32"
  shows "alloc_slots_loop av_malloc want m slots = Some (buf, k, j) \<Longrightarrow> slots \<le> MEDIA_READAHEAD_MAX_SLOTS \<Longrightarrow>
    0 < k \<and> k < 2 ^ 32 \<and> 0 < j \<and> j \<le> MEDIA_READAHEAD_MAX_SLOTS \<and> length buf = j * k"
proof (induction slots rule: less_induct)
  case (less slots)
  then have pos: "slots > 0" by (subst (asm) alloc_slots_loop.simps) (auto split: if_splits)
  show ?case
  proof (cases "alloc_halving av_malloc (word_of_nat slots) m want")
    case None
    with less.prems(1) pos have "alloc_slots_loop av_malloc want m (slots div 2) = Some (buf, k, j)"
      by (subst (asm) alloc_slots_loop.simps) auto
    then show ?thesis using less.IH [of "slots div 2"] less.prems(2) pos by auto
  next
    case (Some a)
    obtain b sz where a: "a = (b, sz)" by (cases a)
    with Some less.prems(1) pos have "buf = b" "k = sz" "j = slots" by (subst (asm) alloc_slots_loop.simps, auto)+
    moreover have "unat (word_of_nat slots :: u32) = slots"
      using less.prems(2) by (simp add: MEDIA_READAHEAD_MAX_SLOTS_def unsigned_of_nat take_bit_nat_eq_self)
    ultimately show ?thesis using alloc_halving_fits [where av_malloc = av_malloc, OF law, of "word_of_nat slots" m want b sz] Some a w pos less.prems(2)
      by (simp add: mult.commute)
  qed
qed

lemma alloc_readahead_fits:
  assumes law: "\<And>n b. av_malloc n = Some b \<Longrightarrow> length b = n"
    and r: "media_alloc_readahead_buffer av_malloc want m slots = Some (buf, k, j)"
  shows "0 < k \<and> k < 2 ^ 32 \<and> 0 < j \<and> j \<le> MEDIA_READAHEAD_MAX_SLOTS \<and> length buf = j * k"
proof (rule alloc_slots_fits [where av_malloc = av_malloc, OF law])
  show "unat want < 2 ^ 32" using unsigned_less [of want, where 'a = nat] by simp
  show "alloc_slots_loop av_malloc (unat want) (min (unat m) (unat want))
      (min MEDIA_READAHEAD_MAX_SLOTS (if slots = 0 then 1 else slots)) = Some (buf, k, j)"
    using r by (auto simp: media_alloc_readahead_buffer_def split: if_splits)
qed simp_all

text \<open>A new buffer with empty slots, whatever it holds.\<close>

lemma cache_ok_empty:
  assumes "length ss = MEDIA_READAHEAD_MAX_SLOTS" "n \<le> MEDIA_READAHEAD_MAX_SLOTS" "length buf = n * rs"
  shows "cache_ok (Some buf) rs n (map (\<lambda>s. s\<lparr>rsize := 0, rstart := 0, rlast_used := 0\<rparr>) ss) bytes"
  using assms by (auto simp: cache_ok_def slot_holds_def)

lemma set_readahead_again [simp]: "set_readahead a (set_readahead b inp) = set_readahead a inp"
  by (simp add: set_readahead_def split: option.splits)

lemma set_readahead_none: "readahead (set_readahead a inp) = None \<longleftrightarrow> a = None"
  by (auto simp: set_readahead_def split: option.splits)

lemma set_readahead_enabled:
  assumes c: "coherent inp d" and n: "\<And>buf k j. a = Some (buf, k, j) \<Longrightarrow>
      0 < k \<and> k < 2 ^ 32 \<and> 0 < j \<and> j \<le> MEDIA_READAHEAD_MAX_SLOTS \<and> length buf = j * k"
  shows "a = None \<Longrightarrow> kept inp d (set_readahead a inp) d \<and> fd (set_readahead a inp) = fd inp"
    and "a \<noteq> None \<Longrightarrow> inp' = media_buffered_input_invalidate_cache ((set_readahead a inp)
        \<lparr>readahead_total_size := total_size, readahead_enabled := True, readahead_preload := pre\<rparr>) \<Longrightarrow>
      kept inp d inp' d \<and> readahead_enabled inp' \<and> configured inp' \<and> fd inp' = fd inp"
proof -
  have l: "length (readahead_slots inp) = MEDIA_READAHEAD_MAX_SLOTS" using c by (simp add: coherent_def cached_def cache_ok_def)
  show "a = None \<Longrightarrow> kept inp d (set_readahead a inp) d \<and> fd (set_readahead a inp) = fd inp"
    using c by (auto simp: set_readahead_def kept_def coherent_def cached_def cache_ok_def)
  assume "a \<noteq> None" and e: "inp' = media_buffered_input_invalidate_cache ((set_readahead a inp)
        \<lparr>readahead_total_size := total_size, readahead_enabled := True, readahead_preload := pre\<rparr>)"
  then obtain buf k j where a: "a = Some (buf, k, j)" by (cases a) auto
  note n = n [OF a]
  then have "unat (word_of_nat k :: u32) = k" by (simp add: unsigned_of_nat take_bit_nat_eq_self)
  moreover from this n have "word_of_nat k \<noteq> (0 :: u32)" by auto
  ultimately show "kept inp d inp' d \<and> readahead_enabled inp' \<and> configured inp' \<and> fd inp' = fd inp"
    using c n l cache_ok_empty [of "readahead_slots inp" j buf k "dbytes d"] unfolding e a
    by (simp add: set_readahead_def media_buffered_input_invalidate_cache_def kept_def coherent_def cached_def configured_def)
qed

lemma enable_readahead_keeps:
  assumes law: "\<And>n b. av_malloc n = Some b \<Longrightarrow> length b = n" and c: "coherent inp d"
    and r: "media_buffered_input_enable_readahead av_malloc T t inp = (r, inp')"
  shows "kept inp d inp' d \<and> (r = 0 \<and> \<not> readahead_enabled inp \<longrightarrow> readahead_enabled inp' \<and> configured inp') \<and> fd inp' = fd inp"
proof -
  obtain w0 m0 s0 where mv: "media_buffered_readahead_mode_values T t = (w0, m0, s0)"
    by (cases "media_buffered_readahead_mode_values T t") auto
  show ?thesis
  proof (cases "fd inp < 0 \<or> readahead_enabled inp \<or> media_buffered_readahead_sane_config w0 m0 s0 = None")
    case True
    with r mv have "inp' = inp \<and> (r = 0 \<longrightarrow> readahead_enabled inp)"
      by (auto simp: media_buffered_input_enable_readahead_def split: if_splits)
    with kept_refl [OF c] show ?thesis by auto
  next
    case False
    then obtain w m s where sc: "media_buffered_readahead_sane_config w0 m0 s0 = Some (w, m, s)" by auto
    define pre where "pre \<longleftrightarrow> media_buffered_tag_is_video t \<and> video_preload_max_bytes T > 0 \<and> file_size inp > 0 \<and>
                file_size inp \<le> int (unat (video_preload_max_bytes T))"
    define A where "A = media_alloc_readahead_buffer av_malloc (of_int (file_size inp)) (of_int (file_size inp)) 1"
    define B where "B = media_alloc_readahead_buffer av_malloc w m s"
    define a where "a = (if pre \<and> A \<noteq> None then A else B)"
    have a: "0 < k \<and> k < 2 ^ 32 \<and> 0 < j \<and> j \<le> MEDIA_READAHEAD_MAX_SLOTS \<and> length buf = j * k" if "a = Some (buf, k, j)" for buf k j
      using that alloc_readahead_fits [where av_malloc = av_malloc, OF law, of _ _ _ buf k j]
      by (auto simp: a_def A_def B_def split: if_splits)
    define i2 where "i2 = (let i1 = set_readahead (if pre then A else B) inp
        in if readahead i1 = None \<and> pre then set_readahead B i1 else i1)"
    have i2: "i2 = set_readahead a inp" by (cases A) (auto simp: i2_def a_def set_readahead_none Let_def)
    have "media_buffered_input_enable_readahead av_malloc T t inp = (if readahead i2 = None then (-1, i2) else (0, media_buffered_input_invalidate_cache
        (i2\<lparr>readahead_total_size := readahead_size i2 * word_of_nat (readahead_slot_count i2), readahead_enabled := True,
            readahead_preload := pre \<and> \<not> (readahead (set_readahead (if pre then A else B) inp) = None \<and> pre)\<rparr>)))"
    proof -
      have "(fd inp < 0) = False" "readahead_enabled inp = False" using False by simp_all
      then show ?thesis
        unfolding media_buffered_input_enable_readahead_def i2_def pre_def A_def B_def
        by (simp only: Let_def mv sc prod.case option.case if_False)
    qed
    then show ?thesis using r set_readahead_enabled [OF c a] unfolding i2
      by (auto simp: set_readahead_none split: if_splits)
  qed
qed

section \<open>Opening\<close>

text \<open>Both attempts to open leave an input at position 0 of the file.\<close>

lemma open_descriptor_coherent:
  assumes r: "open_descriptor p t d = (0, inp, d')" and p: "p \<noteq> []" and off: "0 \<le> doffset d"
  shows "coherent inp d' \<and> later d d' \<and> logical_pos inp = 0 \<and> fd inp \<ge> 0 \<and> \<not> readahead_enabled inp"
proof -
  let ?i = "closed_input\<lparr>tag := t, path := Some p\<rparr>"
  obtain f1 d1 where o1: "sys_open (d\<lparr>derrno := 0\<rparr>) = (f1, d1)" by (cases "sys_open (d\<lparr>derrno := 0\<rparr>)")
  obtain ok d2 where rc: "storage_recover d1 = (ok, d2)" by (cases "storage_recover d1")
  obtain f2 d3 where o2: "sys_open (d2\<lparr>derrno := 0\<rparr>) = (f2, d3)" by (cases "sys_open (d2\<lparr>derrno := 0\<rparr>)")
  have neg: "AVERROR (errno_or_eio e) \<noteq> 0" for e using errno_or_eio_pos [of e] by simp
  note k1 = sys_open_cases [OF o1, simplified] and k2 = storage_recover_cases [OF rc] and k3 = sys_open_cases [OF o2, simplified]
  have "\<exists>i e st. fd i \<ge> 0 \<and> later d e \<and> doffset e = 0 \<and> sys_fstat e = (st, d') \<and> inp = note_size st i \<and>
      (\<exists>x y. i = ?i\<lparr>fd := fd i, last_errno := x, storage_recoveries := y\<rparr>)"
  proof (cases "f1 < 0")
    case False
    have "closed_input\<lparr>tag := t, path := Some p, fd := f1\<rparr> =
        ?i\<lparr>fd := f1, last_errno := 0, storage_recoveries := 0\<rparr>" by (simp add: closed_input_def)
    moreover obtain st e where "sys_fstat d1 = (st, e)" by (cases "sys_fstat d1")
    ultimately show ?thesis using False r o1 k1
      by (intro exI [of _ "closed_input\<lparr>tag := t, path := Some p, fd := f1\<rparr>"] exI [of _ d1] exI [of _ st])
        (auto simp: open_descriptor_def Let_def neg)
  next
    case True
    have "ok = 0" "\<not> f2 < 0" using r o1 rc o2 True by (auto simp: open_descriptor_def Let_def neg split: if_splits)
    moreover obtain st e where "sys_fstat d3 = (st, e)" by (cases "sys_fstat d3")
    ultimately show ?thesis using True r o1 rc o2 k1 k2 k3
      by (intro exI [of _ "?i\<lparr>fd := f2, last_errno := derrno d1, storage_recoveries := 1\<rparr>"] exI [of _ d3] exI [of _ st])
        (auto simp: open_descriptor_def Let_def neg closed_input_def intro: later_trans)
  qed
  then obtain i e st x y where k: "fd i \<ge> 0" "later d e" "doffset e = 0" "sys_fstat e = (st, d')" "inp = note_size st i"
    "i = ?i\<lparr>fd := fd i, last_errno := x, storage_recoveries := y\<rparr>" by blast
  have "st = None \<or> st = Some (int (length (dbytes d')))" "later d d'" "doffset d' = 0"
    using sys_fstat_cases [OF k(4)] k(2,3) by (auto intro: later_trans simp: later_def)
  then show ?thesis using k(1) p unfolding k(5) by (subst k(6), subst (2) k(6), subst (3) k(6))
    (auto simp: note_size_def coherent_def cached_def closed_input_def cache_ok_def)
qed

section \<open>A file with a position\<close>

text \<open>
  The calls the player and FFmpeg make on an open input, in any order, and their results: the return
  value and the bytes stored.  \<open>None\<close> is a call that does not return.
\<close>

datatype media_op = MRead int | MSeek int int | MPrefill int nat | MEnable "string option"

fun perform ::
  "allocator \<Rightarrow> media_tuning \<Rightarrow> media_op \<Rightarrow> media_buffered_input \<Rightarrow> disk \<Rightarrow> (int \<times> u8 list \<times> media_buffered_input \<times> disk) option"
where
  "perform av_malloc T (MRead n) inp d = media_buffered_read T n inp d"
| "perform av_malloc T (MSeek off whence) inp d =
     (case media_buffered_seek off whence inp d of (r, inp, d) \<Rightarrow> Some (r, [], inp, d))"
| "perform av_malloc T (MPrefill start target) inp d =
     (case media_buffered_prefill_readahead T start target inp d of (n, inp, d) \<Rightarrow> Some (int n, [], inp, d))"
| "perform av_malloc T (MEnable t) inp d =
     (case media_buffered_input_enable_readahead av_malloc T t inp of (r, inp) \<Rightarrow> Some (r, [], inp, d))"

fun perform_all ::
  "allocator \<Rightarrow> media_tuning \<Rightarrow> media_op list \<Rightarrow> media_buffered_input \<Rightarrow> disk \<Rightarrow> (int \<times> u8 list) list option"
where
  "perform_all av_malloc T [] inp d = Some []"
| "perform_all av_malloc T (x # ops) inp d =
     (case perform av_malloc T x inp d of
        None \<Rightarrow> None
      | Some (r, bs, inp, d) \<Rightarrow> map_option (Cons (r, bs)) (perform_all av_malloc T ops inp d))"

text \<open>
  The abstract file: its bytes and a position.  A read gives the bytes at the position or fails and
  leaves it; a seek goes where it was asked to go; one that fails leaves the position, or has already
  moved it; the other calls do not touch it.
\<close>

inductive file_trace :: "u8 list \<Rightarrow> int \<Rightarrow> media_op list \<Rightarrow> (int \<times> u8 list) list \<Rightarrow> bool" for b where
  ft_nil: "file_trace b p [] []"
| ft_read: "0 < r \<Longrightarrow> r \<le> n \<Longrightarrow> length bs = nat r \<Longrightarrow> bs = take (nat r) (drop (nat p) b) \<Longrightarrow>
    file_trace b (p + r) ops rs \<Longrightarrow> file_trace b p (MRead n # ops) ((r, bs) # rs)"
| ft_read_fails: "r < 0 \<Longrightarrow> file_trace b p ops rs \<Longrightarrow> file_trace b p (MRead n # ops) ((r, bs) # rs)"
| ft_size: "r < 0 \<or> r = int (length b) \<Longrightarrow> file_trace b p ops rs \<Longrightarrow>
    file_trace b p (MSeek off AVSEEK_SIZE # ops) ((r, bs) # rs)"
| ft_seek: "whence \<noteq> AVSEEK_SIZE \<Longrightarrow> q = seek_target off whence p (length b) \<Longrightarrow> 0 \<le> q \<Longrightarrow> file_trace b q ops rs \<Longrightarrow>
    file_trace b p (MSeek off whence # ops) ((q, bs) # rs)"
| ft_seek_fails: "whence \<noteq> AVSEEK_SIZE \<Longrightarrow> r < 0 \<Longrightarrow> q = p \<or> q = seek_target off whence p (length b) \<Longrightarrow>
    file_trace b q ops rs \<Longrightarrow> file_trace b p (MSeek off whence # ops) ((r, bs) # rs)"
| ft_prefill: "file_trace b p ops rs \<Longrightarrow> file_trace b p (MPrefill start target # ops) ((r, bs) # rs)"
| ft_enable: "file_trace b p ops rs \<Longrightarrow> file_trace b p (MEnable t # ops) ((r, bs) # rs)"

text \<open>One call: it returns, keeps the invariant, and its result extends every trace from the new position.\<close>

lemma perform_refines:
  assumes law: "\<And>n b. av_malloc n = Some b \<Longrightarrow> length b = n" and c: "coherent inp d" and st: "steady d"
    and len: "length (dbytes d) < 2 ^ 32"
  shows "\<exists>r bs inp' d'. perform av_malloc T x inp d = Some (r, bs, inp', d') \<and> coherent inp' d' \<and> later d d' \<and>
    (\<forall>ops rs. file_trace (dbytes d) (logical_pos inp') ops rs \<longrightarrow>
       file_trace (dbytes d) (logical_pos inp) (x # ops) ((r, bs) # rs))"
proof (cases x)
  case (MRead n)
  show ?thesis
  proof (cases "fd inp < 0 \<or> n \<le> 0")
    case True
    then show ?thesis using c MRead
      by (auto simp: media_buffered_read_def AVERROR_def EINVAL_def intro: ft_read_fails)
  next
    case False
    then obtain r bs inp' d' where r: "media_buffered_read T n inp d = Some (r, bs, inp', d')" "read_post n inp d r bs inp' d'"
      using media_read_post [OF c len, of n T] by auto
    show ?thesis
    proof (cases "r < 0")
      case True
      with r st show ?thesis unfolding MRead by (auto simp: read_post_def intro: ft_read_fails)
    next
      case False
      with r st show ?thesis unfolding MRead by (auto simp: read_post_def max_def intro!: ft_read)
    qed
  qed
next
  case (MSeek off whence)
  obtain r inp' d' where r: "media_buffered_seek off whence inp d = (r, inp', d')" by (cases "media_buffered_seek off whence inp d") auto
  note k = media_seek_post [OF c r, unfolded seek_post_def Let_def]
  have "0 \<le> logical_pos inp'" using k by (auto simp: coherent_def cached_def)
  then show ?thesis unfolding MSeek using r k
    by (cases "whence = AVSEEK_SIZE"; cases "r < 0") (auto intro: ft_size ft_seek_fails ft_seek)
next
  case (MPrefill start target)
  obtain n inp' d' where r: "media_buffered_prefill_readahead T start target inp d = (n, inp', d')"
    by (cases "media_buffered_prefill_readahead T start target inp d") auto
  then have "kept inp d inp' d'" using prefill_loop_keeps [OF c st, of T target 0 start n inp' d'] kept_refl [OF c]
    by (auto simp: media_buffered_prefill_readahead_def split: if_splits)
  then show ?thesis unfolding MPrefill using r st by (auto simp: kept_def intro: ft_prefill)
next
  case (MEnable t)
  obtain r inp' where r: "media_buffered_input_enable_readahead av_malloc T t inp = (r, inp')"
    by (cases "media_buffered_input_enable_readahead av_malloc T t inp")
  have "kept inp d inp' d" using enable_readahead_keeps [where av_malloc = av_malloc, OF law c r] by simp
  then show ?thesis unfolding MEnable using r st by (auto simp: kept_def intro: ft_enable)
qed

lemma perform_all_refines:
  assumes law: "\<And>n b. av_malloc n = Some b \<Longrightarrow> length b = n"
  shows "coherent inp d \<Longrightarrow> steady d \<Longrightarrow> length (dbytes d) < 2 ^ 32 \<Longrightarrow>
    \<exists>rs. perform_all av_malloc T ops inp d = Some rs \<and> file_trace (dbytes d) (logical_pos inp) ops rs"
proof (induction ops arbitrary: inp d)
  case Nil
  then show ?case by (auto intro: ft_nil)
next
  case (Cons x ops)
  from perform_refines [where av_malloc = av_malloc, OF law Cons.prems, of T x] obtain r bs inp' d' where
    1: "perform av_malloc T x inp d = Some (r, bs, inp', d')" "coherent inp' d'" "later d d'"
      "\<And>ops rs. file_trace (dbytes d) (logical_pos inp') ops rs \<Longrightarrow> file_trace (dbytes d) (logical_pos inp) (x # ops) ((r, bs) # rs)"
    by blast
  have b: "dbytes d' = dbytes d" using 1(3) by (simp add: later_def)
  from Cons.IH [OF 1(2) later_steady [OF 1(3) Cons.prems(2)]] Cons.prems(3) b obtain rs where
    "perform_all av_malloc T ops inp' d' = Some rs" "file_trace (dbytes d) (logical_pos inp') ops rs" by auto
  with 1(1,4) show ?case by auto
qed

text \<open>
  C10. Once a media file is open, every sequence of reads, seeks, prefills and attempts to turn
  read-ahead on returns, and its results are those of a plain file with a position, starting at 0:
  every successful read gives exactly the bytes of the file at the position, whichever slots are filled,
  evicted or thrown away, and however often the card fails and is recovered in between.  The file is
  smaller than 4 GiB, the allocator gives the memory asked for, and a failed \<open>read\<close> does not move the
  offset of the descriptor.
\<close>

theorem media_input_refines_file:
  assumes "\<And>n b. av_malloc n = Some b \<Longrightarrow> length b = n" and "p \<noteq> []" and "0 \<le> doffset d"
    and "length (dbytes d) < 2 ^ 32" and "steady d" and "open_descriptor p t d = (0, inp, d')"
  shows "\<exists>rs. perform_all av_malloc T ops inp d' = Some rs \<and> file_trace (dbytes d) 0 ops rs"
proof -
  from open_descriptor_coherent [OF assms(6,2,3)]
  have o: "coherent inp d'" "later d d'" "logical_pos inp = 0" "dbytes d' = dbytes d" by (auto simp: later_def)
  from perform_all_refines [where av_malloc = av_malloc, OF assms(1) o(1) later_steady [OF o(2) assms(5)]] assms(4) o(3,4)
  show ?thesis by simp
qed

definition sample_tuning :: media_tuning where
  "sample_tuning = \<lparr>file_buffer_size = 4, file_buffer_min_size = 2, file_readahead_size = 4, file_readahead_min_size = 2,
     file_readahead_slots = 2, video_readahead_size = 8, video_readahead_min_size = 2, video_readahead_slots = 1,
     video_prefill_target_ms = 0, video_prefill_min_bytes = 4, video_prefill_max_bytes = 8, video_preload_max_bytes = 0,
     file_slow_read_log_ms = 100\<rparr>"

definition sample_disk :: "outcome list \<Rightarrow> disk" where
  "sample_disk outs = \<lparr>dbytes = [10, 11, 12, 13, 14, 15, 16, 17, 18, 19], doffset = 0, doutcomes = outs, derrno = 0,
     dticks = [], dexits = [], dfd = 3\<rparr>"

definition sample_alloc :: allocator where
  "sample_alloc n = Some (replicate n 0xff)"

text \<open>A run in which the card fails during the first fill and is recovered.\<close>

definition faulty_outcomes :: "outcome list" where
  "faulty_outcomes = [Gives 9, Gives 9, Fails 5 [1, 2, 3] 0, Gives 9, Gives 9, Gives 9, Gives 9, Gives 3]"

definition sample_ops :: "media_op list" where
  "sample_ops = [MEnable (Some ''audio''), MRead 5, MSeek 2 0, MRead 4, MSeek 0 2, MRead 1]"

lemma media_sample_open: "open_descriptor ''a'' None (sample_disk faulty_outcomes) =
   (0, fst (snd (open_descriptor ''a'' None (sample_disk faulty_outcomes))), snd (snd (open_descriptor ''a'' None (sample_disk faulty_outcomes))))"
  by code_simp

theorem media_input_refines_file_witness:
  "\<exists>rs. perform_all sample_alloc sample_tuning sample_ops (fst (snd (open_descriptor ''a'' None (sample_disk faulty_outcomes))))
       (snd (snd (open_descriptor ''a'' None (sample_disk faulty_outcomes)))) = Some rs \<and>
     file_trace [10, 11, 12, 13, 14, 15, 16, 17, 18, 19] 0 sample_ops rs"
  using media_input_refines_file [OF _ _ _ _ _ media_sample_open, of sample_alloc sample_tuning sample_ops]
  by (simp add: sample_alloc_def sample_disk_def faulty_outcomes_def steady_def)

lemma sample_run:
  "perform_all sample_alloc sample_tuning sample_ops (fst (snd (open_descriptor ''a'' None (sample_disk faulty_outcomes))))
     (snd (snd (open_descriptor ''a'' None (sample_disk faulty_outcomes)))) =
   Some [(0, []), (5, [10, 11, 12, 13, 14]), (2, []), (4, [12, 13, 14, 15]), (10, []), (AVERROR_EOF, [])]"
  by code_simp

text \<open>
  C35. With read-ahead on, a read of a file below 4 GiB on a card that does not fail stores as many
  bytes as were asked for, or all that are left when there are fewer; short reads of the card are made
  up for by further fills.  The position advances by that number and the invariant is kept.
\<close>

theorem media_read_complete:
  assumes "coherent inp d" and "length (dbytes d) < 2 ^ 32" and "fd inp \<ge> 0" and "0 < n" and "calm d"
    and "readahead_enabled inp" and "configured inp" and "logical_pos inp < int (length (dbytes d))"
  shows "\<exists>inp' d'. media_buffered_read T n inp d =
      Some (min n (int (length (dbytes d)) - logical_pos inp),
            take (nat n) (drop (nat (logical_pos inp)) (dbytes d)), inp', d') \<and>
    logical_pos inp' = min (logical_pos inp + n) (int (length (dbytes d))) \<and> coherent inp' d'"
proof -
  from media_read_post [OF assms(1-4), of T] assms(5-8) obtain r bs inp' d' where
    r: "media_buffered_read T n inp d = Some (r, bs, inp', d')" "read_post n inp d r bs inp' d'"
      "r = min n (int (length (dbytes d)) - logical_pos inp)" by auto
  have pos: "0 < r" "0 \<le> logical_pos inp" using r(3) assms(1,4,8) by (auto simp: coherent_def cached_def)
  then have b: "bs = take (nat r) (drop (nat (logical_pos inp)) (dbytes d))" "logical_pos inp' = logical_pos inp + r"
    "coherent inp' d'" using r(2) calm_steady [OF assms(5)] by (auto simp: read_post_def)
  have "bs = take (nat n) (drop (nat (logical_pos inp)) (dbytes d))"
  proof (cases "n \<le> int (length (dbytes d)) - logical_pos inp")
    case True
    then show ?thesis using b(1) r(3) by simp
  next
    case False
    then have "length (dbytes d) - nat (logical_pos inp) \<le> nat r" "length (dbytes d) - nat (logical_pos inp) \<le> nat n"
      using r(3) pos(2) by linarith+
    then show ?thesis using b(1) by simp
  qed
  with r(1,3) b(2,3) show ?thesis by auto
qed

text \<open>The input after opening and turning read-ahead on; the card gives one byte at a time.\<close>

definition slow_outcomes :: "outcome list" where
  "slow_outcomes = [Gives 9, Gives 9, Gives 1, Gives 1, Gives 1]"

definition slow_input :: "media_buffered_input \<times> disk" where
  "slow_input = (case open_descriptor ''a'' None (sample_disk slow_outcomes) of (r, inp, d) \<Rightarrow>
     (snd (media_buffered_input_enable_readahead sample_alloc sample_tuning None inp), d))"

lemma slow_input_facts:
  "fd (fst slow_input) \<ge> 0" "readahead_enabled (fst slow_input)" "readahead (fst slow_input) \<noteq> None"
  "readahead_size (fst slow_input) \<noteq> 0" "readahead_slot_count (fst slow_input) \<noteq> 0" "logical_pos (fst slow_input) = 0"
  "dbytes (snd slow_input) = [10, 11, 12, 13, 14, 15, 16, 17, 18, 19]" "list_all gives (doutcomes (snd slow_input))"
  by code_simp+

lemma slow_input_coherent: "coherent (fst slow_input) (snd slow_input)"
proof -
  obtain r inp d where o: "open_descriptor ''a'' None (sample_disk slow_outcomes) = (r, inp, d)"
    by (cases "open_descriptor ''a'' None (sample_disk slow_outcomes)") auto
  moreover have "fst (open_descriptor ''a'' None (sample_disk slow_outcomes)) = 0" by code_simp
  ultimately have c: "coherent inp d" "steady d"
    using open_descriptor_coherent [of "''a''" None "sample_disk slow_outcomes" inp d]
      later_steady [of "sample_disk slow_outcomes" d] by (auto simp: sample_disk_def steady_def slow_outcomes_def)
  have law: "sample_alloc n = Some b \<Longrightarrow> length b = n" for n b by (auto simp: sample_alloc_def)
  show ?thesis using enable_readahead_keeps [where av_malloc = sample_alloc, OF law c(1)] c(2) o
    by (cases "media_buffered_input_enable_readahead sample_alloc sample_tuning None inp")
      (auto simp: slow_input_def kept_def)
qed

theorem media_read_complete_witness:
  "\<exists>inp' d'. media_buffered_read sample_tuning 4 (fst slow_input) (snd slow_input) = Some (4, [10, 11, 12, 13], inp', d') \<and>
    logical_pos inp' = 4 \<and> coherent inp' d'"
  using media_read_complete [OF slow_input_coherent, of 4 sample_tuning] slow_input_facts
  by (simp add: configured_def calm_def)

section \<open>Where the code falls short\<close>

text \<open>
  A read that fails and is retried in vain leaves the descriptor open.  The code goes on to believe
  that it is where the read began; if the failed read moved it, the next read returns other bytes.
\<close>

lemma media_failed_read_loses_position:
  "(let (r, inp, d) = open_descriptor ''a'' None (sample_disk
        [Gives 9, Gives 9, Fails 5 [] 0, Gives 9, Gives 9, Gives 9, Gives 9, Fails 5 [] 2])
    in perform_all sample_alloc sample_tuning [MRead 2, MRead 2] inp d) = Some [(-5, []), (2, [12, 13])]"
  by code_simp

text \<open>Without read-ahead, a seek that fails has moved the position: the next read continues there.\<close>

lemma media_failed_seek_moves:
  "(let (r, inp, d) = open_descriptor ''a'' None (sample_disk [Gives 9, Gives 9, Fails 5 [] 0])
    in perform_all sample_alloc sample_tuning [MSeek 6 0, MRead 2] inp d) = Some [(-5, []), (2, [16, 17])]"
  by code_simp

text \<open>At the end of the file, a read that fails once and is retried reports an I/O error, not the end.\<close>

lemma media_retry_at_end_is_error:
  "(let (r, inp, d) = open_descriptor ''a'' None (sample_disk [Gives 9, Gives 9, Gives 9, Fails 5 [] 0])
    in perform_all sample_alloc sample_tuning [MSeek 10 0, MRead 2, MRead 2] inp d) =
   Some [(10, []), (AVERROR EIO, []), (AVERROR_EOF, [])]"
  by code_simp

end
