(* ===== verification/UF_Paths.thy ===== *)
theory UF_Paths
  imports UF_Frontend UF_Storage "HOL-Library.Sublist"
begin

text \<open>
  Paths of the frontend (\<open>components/frontend/src/app/frontend_paths.c\<close>) and the list of directories
  in which games are looked for (\<open>frontend_rom_roots.c\<close>).

  A function that fills a buffer gives its return value and the string left in the buffer.  Pointers
  are not null unless the type says so.
\<close>

section \<open>Paths\<close>

definition FRONTEND_ROOT :: string where "FRONTEND_ROOT = UNIFROG_SD_ROOT"
definition FRONTEND_ROMS_ROOT :: string where "FRONTEND_ROMS_ROOT = UNIFROG_SD_ROOT @ ''/ROMS''"
definition FRONTEND_ROM_ROOT_LABEL_MAX :: nat where "FRONTEND_ROM_ROOT_LABEL_MAX = 48"
definition FRONTEND_ROM_ROOT_MAX :: nat where "FRONTEND_ROM_ROOT_MAX = 8"

definition frontend_basename :: "string option \<Rightarrow> string" where
  "frontend_basename path = (case path of None \<Rightarrow> []
     | Some p \<Rightarrow> (case str_rchr p SLASH of None \<Rightarrow> p | Some i \<Rightarrow> drop (Suc i) p))"

text \<open>The result of an \<open>snprintf\<close> that has to fit and to write something.\<close>

definition print_fits :: "nat \<Rightarrow> string \<Rightarrow> int \<times> string" where
  "print_fits dst_size s = (if 0 < length s \<and> length s < dst_size then 0 else -1, snprintf_s dst_size s)"

definition frontend_path_join :: "nat \<Rightarrow> string \<Rightarrow> string \<Rightarrow> int \<times> string" where
  "frontend_path_join dst_size base name =
     (let need_slash = (length base > 0 \<and> base ! (length base - 1) \<noteq> SLASH)
      in print_fits dst_size (base @ (if need_slash then [SLASH] else []) @ name))"

definition frontend_path_join_ini :: "nat \<Rightarrow> string \<Rightarrow> string \<Rightarrow> (int \<times> string) option" where
  "frontend_path_join_ini dst_size base name =
     (if name = [] then None else Some (print_fits dst_size (base @ [SLASH] @ name @ ''.ini'')))"

definition frontend_sd_relative_path :: "nat \<Rightarrow> string \<Rightarrow> int \<times> string" where
  "frontend_sd_relative_path dst_size path =
     (let root_len = length FRONTEND_ROOT
      in if take root_len path \<noteq> FRONTEND_ROOT then (-1, [])
         else if length path = root_len then (-1, [])
         else if path ! root_len \<noteq> SLASH then (-1, [])
         else let dst = text_copy dst_size (drop (root_len + 1) path)
              in (if dst \<noteq> [] then 0 else -1, dst))"

definition char_printable :: "char \<Rightarrow> bool" where
  "char_printable c = (let n = (of_char c :: nat) in \<not> (n < 32 \<or> n = 127))"

definition frontend_path_is_valid :: "string option \<Rightarrow> bool" where
  "frontend_path_is_valid path = (case path of None \<Rightarrow> False | Some p \<Rightarrow>
     if p = [] then False
     else if length p \<ge> FRONTEND_MAX_PATH then False
     else if \<not> list_all char_printable p then False
     else if sublist ''/../'' p \<or> p = ''..'' \<or> unifrog_text_ends_with_ci (Some p) (Some ''/..'') then False
     else True)"

definition frontend_path_has_dir_prefix :: "string option \<Rightarrow> string option \<Rightarrow> bool" where
  "frontend_path_has_dir_prefix path root = (case (path, root) of
     (Some p, Some r) \<Rightarrow> take (length r) p = r \<and> (length p = length r \<or> p ! length r = SLASH)
   | _ \<Rightarrow> False)"

text \<open>
  \<open>frontend_trim_ascii\<close> on a buffer: the number of blanks skipped at the front, and the buffer with the
  trailing blanks cut off.  The string begins after the skipped blanks.
\<close>

definition is_pad :: "char \<Rightarrow> bool" where
  "is_pad c \<longleftrightarrow> c = CHR '' '' \<or> c = CHR 0x09"

definition trim_buffer :: "string \<Rightarrow> nat \<times> string" where
  "trim_buffer s =
     (let k = length (takeWhile is_pad s)
      in (k, take k s @ rev (dropWhile is_pad (rev (drop k s)))))"

definition frontend_trim_ascii :: "string \<Rightarrow> string" where
  "frontend_trim_ascii s = (case trim_buffer s of (k, b) \<Rightarrow> drop k b)"

text \<open>
  The loop that cuts trailing slashes: \<open>tmp\<close> is the buffer with its final NUL, the string starts at
  offset \<open>k\<close>, but the NUL is stored relative to the start of the buffer.
\<close>

fun cut_slashes :: "nat \<Rightarrow> nat \<Rightarrow> char list \<Rightarrow> char list" where
  "cut_slashes k 0 tmp = tmp"
| "cut_slashes k (Suc len) tmp =
     (if Suc len > 1 \<and> tmp ! (k + len) = SLASH then cut_slashes k len (tmp[len := NUL]) else tmp)"

definition frontend_normalize_path :: "nat \<Rightarrow> string \<Rightarrow> int \<times> string" where
  "frontend_normalize_path dst_size path =
     (let tmp = text_copy FRONTEND_MAX_PATH path;
          (k, tmp) = trim_buffer tmp;
          src = drop k tmp
      in if \<not> frontend_path_is_valid (Some src) then (-1, [])
         else let tmp = cut_slashes k (length src) (tmp @ [NUL]);
                  src = c_str (drop k tmp)
              in if src = ''/'' then print_fits dst_size FRONTEND_ROOT
                 else if frontend_path_has_dir_prefix (Some src) (Some FRONTEND_ROOT) then print_fits dst_size src
                 else if src \<noteq> [] \<and> src ! 0 = SLASH then frontend_path_join dst_size FRONTEND_ROOT (drop 1 src)
                 else frontend_path_join dst_size FRONTEND_ROOT src)"

section \<open>The directories of games\<close>

text \<open>
  The fields of \<open>struct frontend_state\<close>; the list holds the entries below \<open>rom_root_count\<close>, the only
  ones that are read.
\<close>

record rom_roots =
  rom_root :: string
  rom_root_label :: string
  rom_root_list :: "string list"

definition frontend_rom_root_presets :: "string list" where
  "frontend_rom_root_presets = [FRONTEND_ROMS_ROOT, FRONTEND_ROOT @ ''/games/ROMS'', FRONTEND_ROOT]"

definition frontend_rom_root_update_label :: "string \<Rightarrow> rom_roots \<Rightarrow> rom_roots" where
  "frontend_rom_root_update_label root fe = fe\<lparr>rom_root_label := text_copy FRONTEND_ROM_ROOT_LABEL_MAX
     (if root = FRONTEND_ROOT then ''SD''
      else if root = FRONTEND_ROOT @ ''/games/ROMS'' then ''games/ROMS''
      else if root = FRONTEND_ROMS_ROOT then ''ROMs''
      else frontend_basename (Some root))\<rparr>"

definition frontend_rom_root :: "rom_roots \<Rightarrow> string" where
  "frontend_rom_root fe = (if rom_root fe \<noteq> [] then rom_root fe else FRONTEND_ROMS_ROOT)"

definition frontend_rom_root_label :: "rom_roots \<Rightarrow> string" where
  "frontend_rom_root_label fe = (if rom_root_label fe \<noteq> [] then rom_root_label fe else ''ROMs'')"

definition frontend_rom_root_at :: "rom_roots \<Rightarrow> nat \<Rightarrow> string option" where
  "frontend_rom_root_at fe index =
     (if index < length (rom_root_list fe) \<and> rom_root_list fe ! index \<noteq> [] then Some (rom_root_list fe ! index)
      else if index = 0 then Some (frontend_rom_root fe) else None)"

definition frontend_rom_root_count :: "rom_roots \<Rightarrow> nat" where
  "frontend_rom_root_count fe = (if rom_root_list fe \<noteq> [] then length (rom_root_list fe) else 1)"

definition frontend_rom_root_index :: "rom_roots \<Rightarrow> string option \<Rightarrow> int" where
  "frontend_rom_root_index fe path = (case path of None \<Rightarrow> -1 | Some p \<Rightarrow>
     if p = [] then -1
     else case find (\<lambda>i. frontend_rom_root_at fe i = Some p) [0..<frontend_rom_root_count fe] of
            None \<Rightarrow> -1 | Some i \<Rightarrow> int i)"

definition frontend_rom_root_sync_primary :: "rom_roots \<Rightarrow> rom_roots" where
  "frontend_rom_root_sync_primary fe =
     (let fe = (if rom_root_list fe = [] \<and> rom_root fe \<noteq> []
                then fe\<lparr>rom_root_list := [text_copy FRONTEND_MAX_PATH (rom_root fe)]\<rparr> else fe);
          fe = (if rom_root_list fe = []
                then fe\<lparr>rom_root_list := [text_copy FRONTEND_MAX_PATH FRONTEND_ROMS_ROOT]\<rparr> else fe);
          root = rom_root_list fe ! 0
      in frontend_rom_root_update_label root (fe\<lparr>rom_root := text_copy FRONTEND_MAX_PATH root\<rparr>))"

text \<open>Moving the entries up to \<open>n\<close> one place to the back; the first keeps its value.\<close>

fun shift_back :: "nat \<Rightarrow> string list \<Rightarrow> string list" where
  "shift_back 0 xs = xs"
| "shift_back (Suc n) xs = shift_back n (xs[Suc n := text_copy FRONTEND_MAX_PATH (xs ! n)])"

definition frontend_rom_root_set_primary :: "string \<Rightarrow> rom_roots \<Rightarrow> int \<times> rom_roots" where
  "frontend_rom_root_set_primary path fe =
     (let (r, normalized) = frontend_normalize_path FRONTEND_MAX_PATH path
      in if r \<noteq> 0 then (-1, fe)
         else if rom_root_list fe = []
              then (0, frontend_rom_root_sync_primary (fe\<lparr>rom_root_list := [text_copy FRONTEND_MAX_PATH normalized]\<rparr>))
         else let index = frontend_rom_root_index fe (Some normalized);
                  roots = rom_root_list fe;
                  roots = (if index > 0 then shift_back (nat index) roots
                           else if index < 0
                           then (let first = length roots
                                 in if first < FRONTEND_ROM_ROOT_MAX then shift_back first (roots @ [[]])
                                    else shift_back (first - 1) roots)
                           else roots);
                  roots = roots[0 := text_copy FRONTEND_MAX_PATH normalized]
              in (0, frontend_rom_root_sync_primary (fe\<lparr>rom_root_list := roots\<rparr>)))"

definition frontend_rom_root_add :: "string \<Rightarrow> rom_roots \<Rightarrow> int \<times> rom_roots" where
  "frontend_rom_root_add path fe =
     (let (r, normalized) = frontend_normalize_path FRONTEND_MAX_PATH path
      in if r \<noteq> 0 then (-1, fe)
         else if rom_root_list fe \<noteq> [] \<and> frontend_rom_root_index fe (Some normalized) \<ge> 0 then (0, fe)
         else if length (rom_root_list fe) \<ge> FRONTEND_ROM_ROOT_MAX then (-1, fe)
         else (0, frontend_rom_root_sync_primary
                   (fe\<lparr>rom_root_list := rom_root_list fe @ [text_copy FRONTEND_MAX_PATH normalized]\<rparr>)))"

text \<open>The last preset that equals the primary directory, else the first.\<close>

definition preset_index :: "string \<Rightarrow> nat" where
  "preset_index root = fold (\<lambda>i k. if root = frontend_rom_root_presets ! i then i else k) [0..<3] 0"

definition frontend_cycle_rom_root :: "int \<Rightarrow> rom_roots \<Rightarrow> rom_roots" where
  "frontend_cycle_rom_root dir fe =
     (let n = length frontend_rom_root_presets;
          index = preset_index (frontend_rom_root fe);
          index = (if dir < 0 then (if index = 0 then n - 1 else index - 1) else (index + 1) mod n)
      in snd (frontend_rom_root_set_primary (frontend_rom_root_presets ! index) fe))"

text \<open>Moving the entries behind \<open>i\<close> one place to the front.\<close>

fun shift_front :: "nat \<Rightarrow> string list \<Rightarrow> string list" where
  "shift_front i [] = []"
| "shift_front 0 (x # xs) = map (text_copy FRONTEND_MAX_PATH) xs"
| "shift_front (Suc i) (x # xs) = x # shift_front i xs"

definition frontend_rom_root_remove :: "string option \<Rightarrow> rom_roots \<Rightarrow> int \<times> rom_roots" where
  "frontend_rom_root_remove path fe =
     (if length (rom_root_list fe) \<le> 1 then (-1, fe)
      else let index = frontend_rom_root_index fe path
           in if index < 0 then (-1, fe)
              else (0, frontend_rom_root_sync_primary
                     (fe\<lparr>rom_root_list := shift_front (nat index) (rom_root_list fe)\<rparr>)))"

definition frontend_path_is_rom_root :: "rom_roots \<Rightarrow> string option \<Rightarrow> bool" where
  "frontend_path_is_rom_root fe path \<longleftrightarrow> frontend_rom_root_index fe path \<ge> 0"

definition frontend_path_is_inside_rom_root :: "rom_roots \<Rightarrow> string option \<Rightarrow> bool" where
  "frontend_path_is_inside_rom_root fe path \<longleftrightarrow>
     list_ex (\<lambda>i. frontend_path_has_dir_prefix path (frontend_rom_root_at fe i)) [0..<frontend_rom_root_count fe]"

definition frontend_rom_title :: "rom_roots \<Rightarrow> string option \<Rightarrow> string" where
  "frontend_rom_title fe path =
     (if frontend_rom_root_index fe path = 0 then frontend_rom_root_label fe else frontend_basename path)"

section \<open>Normalized paths lie below the card's root\<close>

lemma print_fits_ok: "print_fits n s = (0, d) \<Longrightarrow> d = s \<and> s \<noteq> [] \<and> length s < n"
  by (auto simp: print_fits_def snprintf_s_def split: if_splits)

lemma dir_prefix_iff:
  "frontend_path_has_dir_prefix (Some p) (Some r) \<longleftrightarrow> p = r \<or> (\<exists>q. p = r @ SLASH # q)"
proof
  assume *: "frontend_path_has_dir_prefix (Some p) (Some r)"
  then have "take (length r) p = r" by (simp add: frontend_path_has_dir_prefix_def)
  then have p: "p = r @ drop (length r) p" by (metis append_take_drop_id)
  show "p = r \<or> (\<exists>q. p = r @ SLASH # q)"
  proof (cases "drop (length r) p")
    case Nil
    with p show ?thesis by simp
  next
    case (Cons c q)
    with p have "p = r @ c # q" by simp
    with * show ?thesis by (auto simp: frontend_path_has_dir_prefix_def nth_append)
  qed
qed (auto simp: frontend_path_has_dir_prefix_def nth_append)

lemma join_root: "frontend_path_join n FRONTEND_ROOT s = (0, d) \<Longrightarrow> d = FRONTEND_ROOT @ SLASH # s \<and> length d < n"
  using print_fits_ok [of n "FRONTEND_ROOT @ SLASH # s" d]
  by (simp add: frontend_path_join_def FRONTEND_ROOT_def UNIFROG_SD_ROOT_def)

lemma normalize_below_root:
  assumes "frontend_normalize_path n path = (0, d)"
  shows "frontend_path_has_dir_prefix (Some d) (Some FRONTEND_ROOT) \<and> d \<noteq> [] \<and> length d < n"
proof -
  obtain k tmp where t: "trim_buffer (text_copy FRONTEND_MAX_PATH path) = (k, tmp)"
    by (cases "trim_buffer (text_copy FRONTEND_MAX_PATH path)")
  define src where "src = c_str (drop k (cut_slashes k (length (drop k tmp)) (tmp @ [NUL])))"
  have "(src = ''/'' \<and> print_fits n FRONTEND_ROOT = (0, d)) \<or>
      (frontend_path_has_dir_prefix (Some src) (Some FRONTEND_ROOT) \<and> print_fits n src = (0, d)) \<or>
      (\<exists>s. frontend_path_join n FRONTEND_ROOT s = (0, d))"
    using assms t unfolding frontend_normalize_path_def src_def by (auto simp: Let_def split: if_splits)
  then show ?thesis
    by (elim disjE conjE exE) (auto dest!: print_fits_ok join_root simp: dir_prefix_iff)
qed

text \<open>
  A path that begins with a \<open>..\<close> component is taken for valid; the normalized path leads out of the
  root.  Blanks in front of a path that ends in a slash cost it its last characters.
\<close>

lemma normalize_escapes_root:
  "frontend_path_is_valid (Some ''../x'')"
  "frontend_normalize_path 256 ''../x'' = (0, ''/media/mmcblk0/../x'')"
  by code_simp+

lemma normalize_cuts_name:
  "frontend_normalize_path 256 ''/games/'' = (0, ''/media/mmcblk0/games'')"
  "frontend_normalize_path 256 ''  /games/'' = (0, ''/media/mmcblk0/gam'')"
  by code_simp+

section \<open>The list of directories is a most-recent-first list\<close>

definition roots_ok :: "rom_roots \<Rightarrow> bool" where
  "roots_ok fe \<longleftrightarrow> rom_root_list fe \<noteq> [] \<and> length (rom_root_list fe) \<le> FRONTEND_ROM_ROOT_MAX \<and> distinct (rom_root_list fe) \<and>
     (\<forall>r \<in> set (rom_root_list fe). r \<noteq> [] \<and> length r < FRONTEND_MAX_PATH) \<and> rom_root fe = hd (rom_root_list fe)"

lemma copy_fits [simp]: "length s < FRONTEND_MAX_PATH \<Longrightarrow> text_copy FRONTEND_MAX_PATH s = s"
  by (simp add: FRONTEND_MAX_PATH_def text_copy_eq)

lemma find_first_nth:
  assumes "distinct xs" "p \<in> set xs"
  shows "\<exists>i < length xs. xs ! i = p \<and> find (\<lambda>i. i < length xs \<and> xs ! i = p) [0..<length xs] = Some i"
proof -
  from assms(2) obtain i where i: "i < length xs" "xs ! i = p" by (auto simp: in_set_conv_nth)
  moreover have "find (\<lambda>i. i < length xs \<and> xs ! i = p) [0..<length xs] = Some i"
    unfolding find_Some_iff using i assms(1) by (auto intro!: exI [of _ i] simp: nth_eq_iff_index_eq)
  ultimately show ?thesis by blast
qed

lemma rom_root_index_spec:
  assumes ok: "roots_ok fe" and p: "p \<noteq> []"
  shows "if p \<in> set (rom_root_list fe)
    then \<exists>i < length (rom_root_list fe). rom_root_list fe ! i = p \<and> frontend_rom_root_index fe (Some p) = int i
    else frontend_rom_root_index fe (Some p) = -1"
proof -
  let ?xs = "rom_root_list fe"
  have n: "?xs \<noteq> []" "distinct ?xs" using ok by (simp_all add: roots_ok_def)
  have at: "(frontend_rom_root_at fe i = Some p) = (i < length ?xs \<and> ?xs ! i = p)" if "i < length ?xs" for i
    using that ok by (auto simp: frontend_rom_root_at_def roots_ok_def)
  have "find (\<lambda>i. frontend_rom_root_at fe i = Some p) [0..<length ?xs] = find (\<lambda>i. i < length ?xs \<and> ?xs ! i = p) [0..<length ?xs]"
    using at by (intro find_cong) auto
  then have ix: "frontend_rom_root_index fe (Some p) =
      (case find (\<lambda>i. i < length ?xs \<and> ?xs ! i = p) [0..<length ?xs] of None \<Rightarrow> -1 | Some i \<Rightarrow> int i)"
    using n p by (simp add: frontend_rom_root_index_def frontend_rom_root_count_def)
  show ?thesis
  proof (cases "p \<in> set ?xs")
    case True
    from find_first_nth [OF n(2) True] obtain i where "i < length ?xs" "?xs ! i = p"
      "find (\<lambda>i. i < length ?xs \<and> ?xs ! i = p) [0..<length ?xs] = Some i" by blast
    with ix True show ?thesis by auto
  next
    case False
    then have "find (\<lambda>i. i < length ?xs \<and> ?xs ! i = p) [0..<length ?xs] = None" by (auto simp: find_None_iff)
    with ix False show ?thesis by simp
  qed
qed

lemma shift_back_list:
  "n < length xs \<Longrightarrow> \<forall>x \<in> set (take n xs). length x < FRONTEND_MAX_PATH \<Longrightarrow>
   shift_back n xs = hd xs # take n xs @ drop (Suc n) xs"
proof (induction n arbitrary: xs)
  case 0
  then show ?case by (cases xs) auto
next
  case (Suc n)
  let ?ys = "xs[Suc n := text_copy FRONTEND_MAX_PATH (xs ! n)]"
  have n: "xs ! n \<in> set (take (Suc n) xs)" using Suc.prems(1) by (auto simp: in_set_conv_nth intro!: exI [of _ n])
  then have c: "text_copy FRONTEND_MAX_PATH (xs ! n) = xs ! n" using Suc.prems(2) by simp
  have "shift_back n ?ys = hd ?ys # take n ?ys @ drop (Suc n) ?ys"
  proof (rule Suc.IH)
    show "n < length ?ys" using Suc.prems(1) by simp
    show "\<forall>x \<in> set (take n ?ys). length x < FRONTEND_MAX_PATH"
      using Suc.prems(2) by (auto simp: take_Suc_conv_app_nth Suc.prems(1) [THEN Suc_lessD])
  qed
  moreover have "drop (Suc n) ?ys = xs ! n # drop (Suc (Suc n)) xs"
    using Suc.prems(1) by (simp add: c Cons_nth_drop_Suc [symmetric])
  moreover have "hd ?ys = hd xs" using Suc.prems(1) by (cases xs) auto
  ultimately show ?case using Suc.prems(1) by (simp add: take_Suc_conv_app_nth)
qed

lemma shift_front_list: "\<forall>x \<in> set xs. length x < FRONTEND_MAX_PATH \<Longrightarrow> shift_front i xs = take i xs @ drop (Suc i) xs"
proof (induction i xs rule: shift_front.induct)
  case (2 x xs)
  then show ?case by (simp add: map_idI)
qed auto

text \<open>The index of an element splits the list; removing it is a filter.\<close>

lemma filter_other:
  assumes "distinct xs" "i < length xs" "xs ! i = p"
  shows "filter (\<lambda>x. x \<noteq> p) xs = take i xs @ drop (Suc i) xs"
proof -
  have xs: "xs = take i xs @ p # drop (Suc i) xs" using assms(2,3) by (metis id_take_nth_drop)
  with assms(1) have "p \<notin> set (take i xs)" "p \<notin> set (drop (Suc i) xs)"
    by (metis distinct_append distinct.simps(2) disjoint_insert(2) list.simps(15))+
  then have "filter (\<lambda>x. x \<noteq> p) (take i xs) = take i xs" "filter (\<lambda>x. x \<noteq> p) (drop (Suc i) xs) = drop (Suc i) xs"
    by (auto intro!: filter_True)
  then show ?thesis by (subst xs) simp
qed

lemma sync_primary_list:
  assumes "roots \<noteq> []" "length (hd roots) < FRONTEND_MAX_PATH"
  shows "rom_root_list (frontend_rom_root_sync_primary (fe\<lparr>rom_root_list := roots\<rparr>)) = roots"
    "rom_root (frontend_rom_root_sync_primary (fe\<lparr>rom_root_list := roots\<rparr>)) = hd roots"
  using assms by (simp_all add: frontend_rom_root_sync_primary_def Let_def frontend_rom_root_update_label_def hd_conv_nth)

text \<open>The operations on the plain list.\<close>

definition front :: "string \<Rightarrow> string list \<Rightarrow> string list" where
  "front p xs = take FRONTEND_ROM_ROOT_MAX (p # filter (\<lambda>x. x \<noteq> p) xs)"

definition to_back :: "string \<Rightarrow> string list \<Rightarrow> string list" where
  "to_back p xs = (if p \<in> set xs \<or> length xs \<ge> FRONTEND_ROM_ROOT_MAX then xs else xs @ [p])"

definition without :: "string \<Rightarrow> string list \<Rightarrow> string list" where
  "without p xs = (if length xs \<le> 1 then xs else filter (\<lambda>x. x \<noteq> p) xs)"

lemma rom_root_max_pos: "FRONTEND_ROM_ROOT_MAX = Suc 7"
  by (simp add: FRONTEND_ROM_ROOT_MAX_def)

lemma roots_ok_list:
  assumes "xs \<noteq> []" "length xs \<le> FRONTEND_ROM_ROOT_MAX" "distinct xs" "\<forall>r \<in> set xs. r \<noteq> [] \<and> length r < FRONTEND_MAX_PATH"
  shows "roots_ok (frontend_rom_root_sync_primary (fe\<lparr>rom_root_list := xs\<rparr>)) \<and>
    rom_root_list (frontend_rom_root_sync_primary (fe\<lparr>rom_root_list := xs\<rparr>)) = xs"
  using assms sync_primary_list [of xs fe] by (simp add: roots_ok_def)

lemma front_ok:
  assumes "distinct xs" "\<forall>r \<in> set xs. r \<noteq> [] \<and> length r < FRONTEND_MAX_PATH" "p \<noteq> []" "length p < FRONTEND_MAX_PATH"
  shows "front p xs \<noteq> [] \<and> length (front p xs) \<le> FRONTEND_ROM_ROOT_MAX \<and> distinct (front p xs) \<and>
    (\<forall>r \<in> set (front p xs). r \<noteq> [] \<and> length r < FRONTEND_MAX_PATH)"
  using assms by (auto simp: front_def rom_root_max_pos dest!: in_set_takeD)

lemma set_primary_spec:
  assumes ok: "roots_ok fe" and n: "frontend_normalize_path FRONTEND_MAX_PATH path = (0, p)"
  shows "\<exists>fe'. frontend_rom_root_set_primary path fe = (0, fe') \<and> roots_ok fe' \<and> rom_root_list fe' = front p (rom_root_list fe)"
proof -
  let ?xs = "rom_root_list fe"
  have p: "p \<noteq> []" "length p < FRONTEND_MAX_PATH" using normalize_below_root [OF n] by simp_all
  have xs: "?xs \<noteq> []" "length ?xs \<le> FRONTEND_ROM_ROOT_MAX" "distinct ?xs" "\<forall>r \<in> set ?xs. r \<noteq> [] \<and> length r < FRONTEND_MAX_PATH"
    using ok by (simp_all add: roots_ok_def)
  have fits: "\<forall>x \<in> set (take k (?xs @ ys)). length x < FRONTEND_MAX_PATH" if "k \<le> length ?xs" for k ys
    using xs(4) that by (auto dest!: in_set_takeD)
  define ix where "ix = frontend_rom_root_index fe (Some p)"
  define ys where "ys = (if ix > 0 then shift_back (nat ix) ?xs
      else if ix < 0 then (if length ?xs < FRONTEND_ROM_ROOT_MAX then shift_back (length ?xs) (?xs @ [[]])
        else shift_back (length ?xs - 1) ?xs) else ?xs)"
  have "ys[0 := p] = front p ?xs"
  proof (cases "p \<in> set ?xs")
    case True
    with rom_root_index_spec [OF ok p(1)] obtain i where i: "i < length ?xs" "?xs ! i = p" "ix = int i" by (auto simp: ix_def)
    have "ys = shift_back i ?xs" by (cases "i = 0") (simp_all add: ys_def i(3))
    then have "ys = hd ?xs # take i ?xs @ drop (Suc i) ?xs"
      using i(1) shift_back_list [of i ?xs] fits [of i "[]"] by simp
    moreover have "length (p # take i ?xs @ drop (Suc i) ?xs) \<le> FRONTEND_ROM_ROOT_MAX" using i(1) xs(2) by simp
    ultimately show ?thesis using filter_other [OF xs(3) i(1,2)] by (simp add: front_def)
  next
    case False
    then have neg: "ix < 0" using rom_root_index_spec [OF ok p(1)] by (simp add: ix_def)
    have same: "filter (\<lambda>x. x \<noteq> p) ?xs = ?xs" using False by (auto intro: filter_True)
    show ?thesis
    proof (cases "length ?xs < FRONTEND_ROM_ROOT_MAX")
      case True
      have "ys = hd (?xs @ [[]]) # take (length ?xs) (?xs @ [[]]) @ drop (Suc (length ?xs)) (?xs @ [[]])"
        unfolding ys_def using neg True shift_back_list [of "length ?xs" "?xs @ [[]]"] fits [of "length ?xs" "[[]]"] by simp
      with True same show ?thesis by (simp add: front_def)
    next
      case full: False
      then have l: "length ?xs = Suc 7" using xs(2) by (simp add: rom_root_max_pos)
      have "ys = hd ?xs # take 7 ?xs @ drop (Suc 7) ?xs"
        using neg l shift_back_list [of 7 ?xs] fits [of 7 "[]"] by (simp add: ys_def rom_root_max_pos)
      with l same show ?thesis by (simp add: front_def rom_root_max_pos)
    qed
  qed
  moreover have "frontend_rom_root_set_primary path fe = (0, frontend_rom_root_sync_primary (fe\<lparr>rom_root_list := ys[0 := p]\<rparr>))"
    using n xs(1) p(2) by (simp add: frontend_rom_root_set_primary_def Let_def ix_def [symmetric] ys_def)
  ultimately show ?thesis using front_ok [OF xs(3,4) p] roots_ok_list [of "front p ?xs" fe] by simp
qed

lemma add_spec:
  assumes ok: "roots_ok fe" and n: "frontend_normalize_path FRONTEND_MAX_PATH path = (0, p)"
  shows "\<exists>r fe'. frontend_rom_root_add path fe = (r, fe') \<and> roots_ok fe' \<and> rom_root_list fe' = to_back p (rom_root_list fe)"
proof -
  let ?xs = "rom_root_list fe"
  have p: "p \<noteq> []" "length p < FRONTEND_MAX_PATH" using normalize_below_root [OF n] by simp_all
  have xs: "?xs \<noteq> []" "length ?xs \<le> FRONTEND_ROM_ROOT_MAX" "distinct ?xs" "\<forall>r \<in> set ?xs. r \<noteq> [] \<and> length r < FRONTEND_MAX_PATH"
    using ok by (simp_all add: roots_ok_def)
  have ix: "frontend_rom_root_index fe (Some p) \<ge> 0 \<longleftrightarrow> p \<in> set ?xs"
    using rom_root_index_spec [OF ok p(1)] by (auto split: if_splits)
  show ?thesis
  proof (cases "p \<in> set ?xs \<or> length ?xs \<ge> FRONTEND_ROM_ROOT_MAX")
    case True
    with n ix xs(1) ok show ?thesis by (auto simp: frontend_rom_root_add_def to_back_def)
  next
    case False
    with n ix xs(1) p(2) have "frontend_rom_root_add path fe = (0, frontend_rom_root_sync_primary (fe\<lparr>rom_root_list := ?xs @ [p]\<rparr>))"
      by (auto simp: frontend_rom_root_add_def)
    with False xs p roots_ok_list [of "?xs @ [p]" fe] show ?thesis by (auto simp: to_back_def)
  qed
qed

lemma remove_spec:
  assumes ok: "roots_ok fe" and p: "p \<noteq> []"
  shows "\<exists>r fe'. frontend_rom_root_remove (Some p) fe = (r, fe') \<and> roots_ok fe' \<and> rom_root_list fe' = without p (rom_root_list fe)"
proof -
  let ?xs = "rom_root_list fe"
  have xs: "?xs \<noteq> []" "length ?xs \<le> FRONTEND_ROM_ROOT_MAX" "distinct ?xs" "\<forall>r \<in> set ?xs. r \<noteq> [] \<and> length r < FRONTEND_MAX_PATH"
    using ok by (simp_all add: roots_ok_def)
  show ?thesis
  proof (cases "length ?xs \<le> 1 \<or> p \<notin> set ?xs")
    case True
    then have "without p ?xs = ?xs" by (auto simp: without_def intro: filter_True)
    with True rom_root_index_spec [OF ok p] ok show ?thesis by (auto simp: frontend_rom_root_remove_def split: if_splits)
  next
    case False
    with rom_root_index_spec [OF ok p] obtain i where i: "i < length ?xs" "?xs ! i = p" "frontend_rom_root_index fe (Some p) = int i" by auto
    have w: "shift_front i ?xs = without p ?xs"
      using shift_front_list [of ?xs i] xs(4) filter_other [OF xs(3) i(1,2)] False by (simp add: without_def)
    have "length (without p ?xs) = length ?xs - 1" using i(1) xs(4) shift_front_list [of ?xs i] by (simp flip: w)
    then have "without p ?xs \<noteq> []" "length (without p ?xs) \<le> FRONTEND_ROM_ROOT_MAX" using False xs(2) by auto
    moreover have "distinct (without p ?xs)" "\<forall>r \<in> set (without p ?xs). r \<noteq> [] \<and> length r < FRONTEND_MAX_PATH"
      using xs(3,4) by (auto simp: without_def)
    moreover have "frontend_rom_root_remove (Some p) fe = (0, frontend_rom_root_sync_primary (fe\<lparr>rom_root_list := without p ?xs\<rparr>))"
      using False i(3) by (simp add: frontend_rom_root_remove_def flip: w)
    ultimately show ?thesis using roots_ok_list [of "without p ?xs" fe] by auto
  qed
qed

lemma set_primary_refused: "fst (frontend_normalize_path FRONTEND_MAX_PATH path) \<noteq> 0 \<Longrightarrow>
   frontend_rom_root_set_primary path fe = (-1, fe) \<and> frontend_rom_root_add path fe = (-1, fe)"
  by (cases "frontend_normalize_path FRONTEND_MAX_PATH path")
    (simp add: frontend_rom_root_set_primary_def frontend_rom_root_add_def)

datatype root_op = SetPrimary string | AddRoot string | RemoveRoot string | CycleRoot int

fun root_step :: "root_op \<Rightarrow> rom_roots \<Rightarrow> rom_roots" where
  "root_step (SetPrimary path) fe = snd (frontend_rom_root_set_primary path fe)"
| "root_step (AddRoot path) fe = snd (frontend_rom_root_add path fe)"
| "root_step (RemoveRoot path) fe = snd (frontend_rom_root_remove (Some path) fe)"
| "root_step (CycleRoot dir) fe = frontend_cycle_rom_root dir fe"

text \<open>The preset after or before a directory; any other directory counts as the first.\<close>

definition next_preset :: "int \<Rightarrow> string \<Rightarrow> string" where
  "next_preset dir root =
     (if root = FRONTEND_ROOT @ ''/games/ROMS'' then (if dir < 0 then FRONTEND_ROMS_ROOT else FRONTEND_ROOT)
      else if root = FRONTEND_ROOT then (if dir < 0 then FRONTEND_ROOT @ ''/games/ROMS'' else FRONTEND_ROMS_ROOT)
      else (if dir < 0 then FRONTEND_ROOT else FRONTEND_ROOT @ ''/games/ROMS''))"

definition on_normalized :: "(string \<Rightarrow> string list \<Rightarrow> string list) \<Rightarrow> string \<Rightarrow> string list \<Rightarrow> string list" where
  "on_normalized f path xs = (case frontend_normalize_path FRONTEND_MAX_PATH path of (r, p) \<Rightarrow> if r = 0 then f p xs else xs)"

fun list_step :: "root_op \<Rightarrow> string list \<Rightarrow> string list" where
  "list_step (SetPrimary path) xs = on_normalized front path xs"
| "list_step (AddRoot path) xs = on_normalized to_back path xs"
| "list_step (RemoveRoot path) xs = without path xs"
| "list_step (CycleRoot dir) xs = front (next_preset dir (hd xs)) xs"

lemma presets_normal: "p \<in> set frontend_rom_root_presets \<Longrightarrow> frontend_normalize_path FRONTEND_MAX_PATH p = (0, p)"
proof -
  have "list_all (\<lambda>p. frontend_normalize_path FRONTEND_MAX_PATH p = (0, p)) frontend_rom_root_presets" by code_simp
  then show "p \<in> set frontend_rom_root_presets \<Longrightarrow> frontend_normalize_path FRONTEND_MAX_PATH p = (0, p)"
    by (simp add: list_all_iff)
qed

lemma cycle_is_set_primary:
  assumes "roots_ok fe"
  shows "frontend_cycle_rom_root dir fe = snd (frontend_rom_root_set_primary (next_preset dir (hd (rom_root_list fe))) fe)"
    and "next_preset dir root \<in> set frontend_rom_root_presets"
proof -
  have r: "frontend_rom_root fe = hd (rom_root_list fe)"
    using assms by (auto simp: roots_ok_def frontend_rom_root_def)
  have up: "[0..<3] = [0, 1, 2 :: nat]" by (simp add: upt_rec)
  have ix: "preset_index d = (if d = FRONTEND_ROOT then 2 else if d = FRONTEND_ROOT @ ''/games/ROMS'' then 1 else 0)" for d
    unfolding preset_index_def up by (simp add: frontend_rom_root_presets_def)
  have "FRONTEND_ROOT \<noteq> FRONTEND_ROOT @ ''/games/ROMS''" by simp
  then show "frontend_cycle_rom_root dir fe = snd (frontend_rom_root_set_primary (next_preset dir (hd (rom_root_list fe))) fe)"
    unfolding frontend_cycle_rom_root_def r ix next_preset_def by (simp add: frontend_rom_root_presets_def Let_def)
  show "next_preset dir root \<in> set frontend_rom_root_presets"
    by (simp add: next_preset_def frontend_rom_root_presets_def)
qed

lemma root_step_refines:
  assumes ok: "roots_ok fe"
  shows "roots_ok (root_step x fe) \<and> rom_root_list (root_step x fe) = list_step x (rom_root_list fe)"
proof (cases x)
  case (SetPrimary path)
  obtain r p where n: "frontend_normalize_path FRONTEND_MAX_PATH path = (r, p)" by (cases "frontend_normalize_path FRONTEND_MAX_PATH path")
  show ?thesis
  proof (cases "r = 0")
    case True
    with set_primary_spec [OF ok, of path p] n SetPrimary show ?thesis by (auto simp: on_normalized_def)
  next
    case False
    with set_primary_refused [of path fe] n SetPrimary ok show ?thesis by (simp add: on_normalized_def)
  qed
next
  case (AddRoot path)
  obtain r p where n: "frontend_normalize_path FRONTEND_MAX_PATH path = (r, p)" by (cases "frontend_normalize_path FRONTEND_MAX_PATH path")
  show ?thesis
  proof (cases "r = 0")
    case True
    with add_spec [OF ok, of path p] n AddRoot show ?thesis by (auto simp: on_normalized_def)
  next
    case False
    with set_primary_refused [of path fe] n AddRoot ok show ?thesis by (simp add: on_normalized_def)
  qed
next
  case (RemoveRoot path)
  show ?thesis
  proof (cases "path = []")
    case True
    with ok have "without path (rom_root_list fe) = rom_root_list fe" by (auto simp: without_def roots_ok_def intro: filter_True)
    with True RemoveRoot ok show ?thesis by (simp add: frontend_rom_root_remove_def frontend_rom_root_index_def)
  next
    case False
    with remove_spec [OF ok, of path] RemoveRoot show ?thesis by auto
  qed
next
  case (CycleRoot dir)
  let ?p = "next_preset dir (hd (rom_root_list fe))"
  from set_primary_spec [OF ok presets_normal [OF cycle_is_set_primary(2) [OF ok]]] obtain fe' where
    "frontend_rom_root_set_primary ?p fe = (0, fe')" "roots_ok fe'" "rom_root_list fe' = front ?p (rom_root_list fe)" by blast
  with cycle_is_set_primary(1) [OF ok, of dir] CycleRoot show ?thesis by simp
qed

text \<open>
  C39. The list of game directories: whatever is made primary, added, removed or cycled, it has one to
  eight different directories, the primary one is the first, and its contents are those of a
  most-recent-first list: making a directory primary moves it to the front and drops the last one when
  the list is full, adding appends it if there is room, removing deletes it unless it is the only one.
  Every directory that enters the list lies below the root of the card, by its name.
\<close>

theorem rom_roots_refine:
  assumes "roots_ok fe" and "fe' = fold root_step ops fe"
  shows "rom_root_list fe' = fold list_step ops (rom_root_list fe) \<and>
    distinct (rom_root_list fe') \<and> length (rom_root_list fe') \<in> {1..8} \<and> rom_root fe' = hd (rom_root_list fe') \<and>
    (\<forall>d \<in> set (rom_root_list fe') - set (rom_root_list fe). frontend_path_has_dir_prefix (Some d) (Some FRONTEND_ROOT))"
proof -
  have below: "frontend_path_has_dir_prefix (Some d) (Some FRONTEND_ROOT)"
    if "d \<in> set (list_step x xs)" "d \<notin> set xs" for d x xs
  proof (cases x)
    case (CycleRoot dir)
    with that have "d \<in> set frontend_rom_root_presets"
      by (auto simp: front_def next_preset_def frontend_rom_root_presets_def dest!: in_set_takeD split: if_splits)
    then show ?thesis using normalize_below_root [OF presets_normal] by blast
  qed (use that in \<open>auto simp: on_normalized_def front_def to_back_def without_def
        dest!: in_set_takeD dest: normalize_below_root [OF sym] split: if_splits prod.splits\<close>)
  have "roots_ok (fold root_step ops fe) \<and> rom_root_list (fold root_step ops fe) = fold list_step ops (rom_root_list fe) \<and>
    (\<forall>d \<in> set (fold list_step ops (rom_root_list fe)) - set (rom_root_list fe).
      frontend_path_has_dir_prefix (Some d) (Some FRONTEND_ROOT))"
    using assms(1)
  proof (induction ops arbitrary: fe)
    case (Cons x ops)
    with root_step_refines [OF Cons.prems, of x] below show ?case by fastforce
  qed simp
  then show ?thesis unfolding assms(2) roots_ok_def FRONTEND_ROM_ROOT_MAX_def
    by (auto simp: Suc_le_eq)
qed

definition sample_roots :: rom_roots where
  "sample_roots = frontend_rom_root_sync_primary \<lparr>rom_root = [], rom_root_label = [], rom_root_list = []\<rparr>"

lemma sample_roots_ok: "roots_ok sample_roots"
  by code_simp

theorem rom_roots_refine_witness:
  "rom_root_list (fold root_step [AddRoot ''/nes'', SetPrimary ''snes/'', CycleRoot 1, RemoveRoot ''/media/mmcblk0/nes''] sample_roots) =
     fold list_step [AddRoot ''/nes'', SetPrimary ''snes/'', CycleRoot 1, RemoveRoot ''/media/mmcblk0/nes''] (rom_root_list sample_roots)"
  using rom_roots_refine [OF sample_roots_ok refl] by blast

end
