(* ===== verification/UF_Cores.thy ===== *)
theory UF_Cores
  imports UF_Loader UF_Policy UF_Media UF_Paths
begin

text \<open>
  Which emulator core runs a file: the registry of core modules found on the card
  (\<open>components/frontend/src/app/frontend_core_registry.c\<close>), the associations of file extensions
  (\<open>frontend_associations.c\<close>) and the choice between them (\<open>frontend_content.c\<close>, and the mapping of
  system directories of \<open>frontend_browser.c\<close>).

  The card is given by the names in a directory and the stream behind a path.  Log output is not
  modelled.  The scan of shared objects belongs to the Linux build and is left out.
\<close>

section \<open>The registry\<close>

definition UNIFROG_CORE_REGISTRY_MAX :: nat where "UNIFROG_CORE_REGISTRY_MAX = 64"
definition UNIFROG_CORE_REGISTRY_PATH_MAX :: nat where "UNIFROG_CORE_REGISTRY_PATH_MAX = 256"

record core_entry =
  ce_header :: module_header
  ce_path :: string

type_synonym core_registry = "core_entry list"

abbreviation ce_id :: "core_entry \<Rightarrow> string" where
  "ce_id e \<equiv> byte_str (mh_core_id (ce_header e))"

abbreviation ce_extensions :: "core_entry \<Rightarrow> string" where
  "ce_extensions e \<equiv> byte_str (mh_extensions (ce_header e))"

definition ends_with_ci :: "string \<Rightarrow> string \<Rightarrow> bool" where
  "ends_with_ci t sfx \<longleftrightarrow> length t \<ge> length sfx \<and> strcase_eq (drop (length t - length sfx) t) sfx"

definition core_registry_path_join :: "nat \<Rightarrow> string \<Rightarrow> string \<Rightarrow> string option" where
  "core_registry_path_join dst_size root name =
     (let s = root @ (if root \<noteq> [] \<and> root ! (length root - 1) = SLASH then [] else [SLASH]) @ name
      in if length s \<ge> dst_size then None else Some s)"

definition unifrog_core_registry_header_valid :: "module_header option \<Rightarrow> bool" where
  "unifrog_core_registry_header_valid header = unifrog_core_module_header_layout_valid header"

definition unifrog_core_registry_read_header :: "(string \<Rightarrow> cfile option) \<Rightarrow> string \<Rightarrow> module_header option" where
  "unifrog_core_registry_read_header open_file path =
     (if path = [] then None
      else case open_file path of None \<Rightarrow> None
      | Some f \<Rightarrow>
          let (got, f) = f_read HEADER_BYTES f
          in if length got \<noteq> HEADER_BYTES then None
             else case f_seek_end f of (None, _) \<Rightarrow> None
             | (Some _, f) \<Rightarrow> (case f_tell f of (None, _) \<Rightarrow> None
               | (Some file_bytes, _) \<Rightarrow>
                   let header = header_of_bytes got
                   in if \<not> unifrog_core_registry_header_valid (Some header) then None
                      else if file_bytes + CORE_MODULE_TRAILING_PAD_MAX \<ge>
                              unat (mh_file_end_addr header - mh_load_addr header)
                           then Some header else None))"

text \<open>The list of identifiers in an array of \<open>max_ids\<close> buffers.\<close>

definition add_id :: "nat \<Rightarrow> string \<Rightarrow> string list \<Rightarrow> string list" where
  "add_id max_ids i ids =
     (if i = [] \<or> length ids \<ge> max_ids then ids
      else if i \<in> set ids then ids
      else ids @ [snprintf_s UNIFROG_CORE_MODULE_ID_MAX i])"

definition registry_has_id :: "core_registry \<Rightarrow> string \<Rightarrow> bool" where
  "registry_has_id reg i = list_ex (\<lambda>e. ce_id e = i) reg"

fun scan_entries :: "(string \<Rightarrow> cfile option) \<Rightarrow> string \<Rightarrow> string list \<Rightarrow> core_registry \<Rightarrow> core_registry" where
  "scan_entries open_file root [] reg = reg"
| "scan_entries open_file root (name # names) reg =
     (if length reg < UNIFROG_CORE_REGISTRY_MAX
      then scan_entries open_file root names
        (case core_registry_path_join UNIFROG_CORE_REGISTRY_PATH_MAX root name of
           None \<Rightarrow> reg
         | Some path \<Rightarrow>
             if name \<noteq> [] \<and> name ! 0 = CHR ''.'' then reg
             else if ends_with_ci name ''.bin''
             then (case unifrog_core_registry_read_header open_file path of
                     None \<Rightarrow> reg
                   | Some h \<Rightarrow>
                       let e = \<lparr>ce_header = h, ce_path = snprintf_s UNIFROG_CORE_REGISTRY_PATH_MAX path\<rparr>
                       in if registry_has_id reg (ce_id e) then reg else reg @ [e])
             else reg)
      else reg)"

definition scan_root :: "(string \<Rightarrow> string list option) \<Rightarrow> (string \<Rightarrow> cfile option) \<Rightarrow> string \<Rightarrow> core_registry \<Rightarrow> int \<times> core_registry" where
  "scan_root opendir open_file root reg =
     (if root = [] then (-1, reg)
      else case opendir root of None \<Rightarrow> (-1, reg)
      | Some names \<Rightarrow> (0, scan_entries open_file root names reg))"

definition unifrog_core_registry_scan :: "(string \<Rightarrow> string list option) \<Rightarrow> (string \<Rightarrow> cfile option) \<Rightarrow> string \<Rightarrow> int \<times> core_registry" where
  "unifrog_core_registry_scan opendir open_file root =
     (case scan_root opendir open_file root [] of (r, reg) \<Rightarrow> (if r = 0 then 0 else -1, reg))"

definition unifrog_core_registry_find_path :: "core_registry \<Rightarrow> string \<Rightarrow> core_entry option" where
  "unifrog_core_registry_find_path reg path = find (\<lambda>e. ce_path e = path) reg"

definition unifrog_core_registry_find :: "core_registry \<Rightarrow> string \<Rightarrow> core_entry option" where
  "unifrog_core_registry_find reg core_id = find (\<lambda>e. ce_id e = core_id) reg"

text \<open>The scan of the alternatives between bars: \<open>cursor\<close> is the rest at the start of one.\<close>

function extension_loop :: "string \<Rightarrow> string \<Rightarrow> bool" where
  "extension_loop ext cursor =
     (if cursor = [] then False
      else let piece = takeWhile (\<lambda>c. c \<noteq> CHR ''|'') cursor; rest = dropWhile (\<lambda>c. c \<noteq> CHR ''|'') cursor
           in if length ext = length piece \<and> strcase_eq ext piece then True
              else if rest = [] then False
              else extension_loop ext (tl rest))"
  by pat_completeness auto
termination
proof (relation "measure (\<lambda>(e, c). length c)", goal_cases)
  case (2 ext cursor piece rest)
  then have "length (tl rest) < length rest" by simp
  also have "length rest \<le> length cursor" unfolding 2(3) by (rule length_dropWhile_le)
  finally show ?case by simp
qed simp

declare extension_loop.simps [simp del]

definition unifrog_core_registry_entry_supports_path :: "core_entry \<Rightarrow> string \<Rightarrow> bool" where
  "unifrog_core_registry_entry_supports_path e path =
     (if ce_extensions e = [] then False
      else case str_rchr path (CHR ''.'') of None \<Rightarrow> False
      | Some i \<Rightarrow> let extension = drop (Suc i) path
                  in if extension = [] then False else extension_loop extension (ce_extensions e))"

definition unifrog_core_registry_collect_path :: "core_registry \<Rightarrow> string \<Rightarrow> nat \<Rightarrow> string list \<Rightarrow> string list" where
  "unifrog_core_registry_collect_path reg path max_ids ids =
     fold (\<lambda>e ids. if unifrog_core_registry_entry_supports_path e path then add_id max_ids (ce_id e) ids else ids) reg ids"

definition unifrog_core_registry_collect_all :: "core_registry \<Rightarrow> nat \<Rightarrow> string list \<Rightarrow> string list" where
  "unifrog_core_registry_collect_all reg max_ids ids = fold (\<lambda>e. add_id max_ids (ce_id e)) reg ids"

definition unifrog_core_registry_collect_family :: "core_registry \<Rightarrow> string \<Rightarrow> nat \<Rightarrow> string list \<Rightarrow> string list" where
  "unifrog_core_registry_collect_family reg core_id max_ids ids =
     (case unifrog_core_registry_find reg core_id of None \<Rightarrow> ids
      | Some base \<Rightarrow> fold (\<lambda>e ids. if strcase_eq (ce_extensions base) (ce_extensions e)
                                  then add_id max_ids (ce_id e) ids else ids) reg ids)"

section \<open>Associations\<close>

definition FRONTEND_MAX_LINE :: nat where "FRONTEND_MAX_LINE = 384"
definition FRONTEND_ASSOCIATION_MAX :: nat where "FRONTEND_ASSOCIATION_MAX = 112"
definition FRONTEND_ASSOCIATION_HANDLER_MAX :: nat where "FRONTEND_ASSOCIATION_HANDLER_MAX = 8"
definition ASSOCIATION_EXTENSION_MAX :: nat where "ASSOCIATION_EXTENSION_MAX = 16"

record association =
  as_extension :: string
  as_handlers :: "string list"
  as_default :: string

definition path_extension_name :: "string option \<Rightarrow> string" where
  "path_extension_name path = (case path of None \<Rightarrow> [] | Some p \<Rightarrow>
     (case str_rchr p (CHR ''.'') of None \<Rightarrow> []
      | Some dot \<Rightarrow>
          if (case str_rchr p SLASH of None \<Rightarrow> False | Some slash \<Rightarrow> dot < slash) \<or> drop (Suc dot) p = [] then []
          else drop (Suc dot) p))"

text \<open>The index of an association, as the pointer to it.\<close>

definition association_find_mutable :: "association list \<Rightarrow> string \<Rightarrow> nat option" where
  "association_find_mutable assocs extension =
     (if extension = [] then None
      else find (\<lambda>i. strcase_eq (as_extension (assocs ! i)) extension) [0..<length assocs])"

definition association_matches :: "string \<Rightarrow> string \<Rightarrow> bool" where
  "association_matches name ext \<longleftrightarrow> length name > length ext \<and>
     name ! (length name - length ext - 1) = CHR ''.'' \<and> strcase_eq (drop (length name - length ext) name) ext"

definition better :: "string \<Rightarrow> association \<Rightarrow> association option \<times> nat \<Rightarrow> association option \<times> nat" where
  "better name candidate best =
     (let n = length (as_extension candidate)
      in if n > snd best \<and> association_matches name (as_extension candidate) then (Some candidate, n) else best)"

definition frontend_association_for_path :: "association list \<Rightarrow> string option \<Rightarrow> association option" where
  "frontend_association_for_path assocs path = (case path of None \<Rightarrow> None | Some p \<Rightarrow>
     let name = (case str_rchr p SLASH of None \<Rightarrow> p | Some i \<Rightarrow> drop (Suc i) p)
     in fst (fold (better name) assocs (None, 0)))"

definition association_add :: "association list \<Rightarrow> string \<Rightarrow> (nat \<times> association list) option" where
  "association_add assocs extension =
     (if length extension \<ge> ASSOCIATION_EXTENSION_MAX then None
      else case association_find_mutable assocs extension of
        Some i \<Rightarrow> Some (i, assocs)
      | None \<Rightarrow>
          if length assocs \<ge> FRONTEND_ASSOCIATION_MAX then None
          else Some (length assocs, assocs @ [\<lparr>as_extension = text_copy ASSOCIATION_EXTENSION_MAX extension,
                                               as_handlers = [], as_default = []\<rparr>]))"

text \<open>
  One handler: the text is trimmed before it is cut at the comma, so blanks before a comma stay.
  \<open>part\<close> is the rest of the buffer.
\<close>

definition add_handler :: "string \<Rightarrow> string list \<Rightarrow> string list" where
  "add_handler handler hs =
     (if handler = [] then hs
      else if length handler \<ge> UNIFROG_CORE_MODULE_ID_MAX then hs
      else if handler \<in> set hs then hs
      else hs @ [text_copy UNIFROG_CORE_MODULE_ID_MAX handler])"

definition right_trimmed :: "string \<Rightarrow> string" where
  "right_trimmed s = (case trim_buffer s of (k, b) \<Rightarrow> b)"

lemma right_trimmed_length: "length (right_trimmed s) \<le> length s"
  by (simp add: right_trimmed_def trim_buffer_def Let_def)
    (metis add.commute add_le_cancel_left drop_eq_Nil length_dropWhile_le length_drop length_rev length_takeWhile_le
      le_add_diff_inverse2 min.absorb2 min.commute)

function handlers_loop :: "string \<Rightarrow> string list \<Rightarrow> string list" where
  "handlers_loop part hs =
     (if part = [] \<or> length hs \<ge> FRONTEND_ASSOCIATION_HANDLER_MAX then hs
      else let handler = frontend_trim_ascii part
           in case str_chr part (CHR '','') of
                None \<Rightarrow> add_handler handler hs
              | Some i \<Rightarrow> handlers_loop (drop (Suc i) (right_trimmed part))
                            (add_handler (takeWhile (\<lambda>c. c \<noteq> CHR '','') handler) hs))"
  by pat_completeness auto
termination
proof (relation "measure (\<lambda>(p, h). length p)", goal_cases)
  case (2 part hs handler i)
  then have "length (drop (Suc i) (right_trimmed part)) < length part"
    using right_trimmed_length [of part] by (cases part) auto
  then show ?case by simp
qed simp

declare handlers_loop.simps [simp del]

definition association_parse_handlers :: "string \<Rightarrow> association \<Rightarrow> association" where
  "association_parse_handlers txt a = a\<lparr>as_handlers := handlers_loop (text_copy FRONTEND_MAX_LINE txt) []\<rparr>"

definition association_config_entry :: "association list config_cb" where
  "association_config_entry assocs section key value line_number =
     (if section \<noteq> [] \<or> take 10 key \<noteq> ''extension.'' then (assocs, 0)
      else let name = drop 10 key
      in case str_rchr name (CHR ''.'') of None \<Rightarrow> (assocs, 0)
      | Some name_length \<Rightarrow>
          let field = drop (Suc name_length) name
          in if field \<noteq> ''handlers'' \<and> field \<noteq> ''default'' then (assocs, 0)
             else if name_length = 0 \<or> name_length \<ge> ASSOCIATION_EXTENSION_MAX then (assocs, 0)
             else case association_add assocs (take name_length name) of None \<Rightarrow> (assocs, 0)
             | Some (i, assocs) \<Rightarrow>
                 if field = ''handlers'' then (assocs[i := association_parse_handlers value (assocs ! i)], 0)
                 else if length value < UNIFROG_CORE_MODULE_ID_MAX
                 then (assocs[i := (assocs ! i)\<lparr>as_default := text_copy UNIFROG_CORE_MODULE_ID_MAX value\<rparr>], 0)
                 else (assocs, 0))"

definition associations_load_file :: "string \<Rightarrow> association list \<Rightarrow> fsys \<Rightarrow> int \<times> association list \<times> fsys" where
  "associations_load_file path assocs fs =
     (case unifrog_config_read fs (Some path) (Some association_config_entry) assocs of
        ((ret, assocs, errors), fs) \<Rightarrow> (if ret \<noteq> 0 then ret else 0, assocs, fs))"

text \<open>Inserting a handler at the front of the array, which drops the last one when it is full.\<close>

definition insert_handler :: "string \<Rightarrow> string list \<Rightarrow> string list" where
  "insert_handler handler hs =
     (let last = (if length hs < FRONTEND_ASSOCIATION_HANDLER_MAX then length hs else FRONTEND_ASSOCIATION_HANDLER_MAX - 1)
      in text_copy UNIFROG_CORE_MODULE_ID_MAX handler # map (text_copy UNIFROG_CORE_MODULE_ID_MAX) (take last hs))"

text \<open>The settings are saved by a parameter, which gives the return value.\<close>

definition frontend_association_set_default ::
  "(association list \<Rightarrow> int) \<Rightarrow> association list \<Rightarrow> string option \<Rightarrow> string \<Rightarrow> int \<times> association list"
where
  "frontend_association_set_default save assocs path handler =
     (let extension = path_extension_name path
      in if extension = [] \<or> handler = [] then (-1, assocs)
         else case association_add assocs (case frontend_association_for_path assocs path of
                     None \<Rightarrow> extension | Some a \<Rightarrow> as_extension a) of
           None \<Rightarrow> (-1, assocs)
         | Some (i, assocs) \<Rightarrow>
             let a = (assocs ! i)\<lparr>as_default := text_copy UNIFROG_CORE_MODULE_ID_MAX handler\<rparr>;
                 a = (if handler \<in> set (as_handlers a) then a else a\<lparr>as_handlers := insert_handler handler (as_handlers a)\<rparr>);
                 assocs = assocs[i := a]
             in (save assocs, assocs))"

section \<open>The choice of a core\<close>

definition FRONTEND_CORE_CANDIDATE_MAX :: nat where "FRONTEND_CORE_CANDIDATE_MAX = UNIFROG_CORE_REGISTRY_MAX"
definition FRONTEND_ROM_SYSTEM_MAP_MAX :: nat where "FRONTEND_ROM_SYSTEM_MAP_MAX = 48"
definition ROM_SYSTEM_NAME_MAX :: nat where "ROM_SYSTEM_NAME_MAX = 32"

text \<open>The fields of \<open>struct frontend_state\<close> that the choice reads; the systems are names and cores.\<close>

record core_choice =
  cc_registry :: core_registry
  cc_associations :: "association list"
  cc_systems :: "(string \<times> string) list"

definition is_builtin_handler :: "string \<Rightarrow> bool" where
  "is_builtin_handler handler \<longleftrightarrow> handler = ''reader'' \<or> unifrog_media_route_parse (Some handler) \<noteq> None"

definition is_zip_file :: "string \<Rightarrow> bool" where
  "is_zip_file path = unifrog_text_ends_with_ci (Some path) (Some ''.zip'')"

definition frontend_rom_system_mapped_core :: "core_choice \<Rightarrow> string \<Rightarrow> string option" where
  "frontend_rom_system_mapped_core fe name =
     (case find (\<lambda>(n, c). strcase_eq n name) (cc_systems fe) of
        Some (n, c) \<Rightarrow> Some c
      | None \<Rightarrow> unifrog_libretro_policy_system_core (Some name))"

definition add_core_candidate :: "string option \<Rightarrow> string list \<Rightarrow> string list" where
  "add_core_candidate core ids = (case core of None \<Rightarrow> ids | Some c \<Rightarrow>
     if c = [] then ids
     else if c \<in> set ids then ids
     else if length ids \<ge> FRONTEND_CORE_CANDIDATE_MAX then ids
     else ids @ [text_copy UNIFROG_CORE_MODULE_ID_MAX c])"

definition add_available_core_candidate :: "core_choice \<Rightarrow> string \<Rightarrow> string list \<Rightarrow> string list" where
  "add_available_core_candidate fe core ids =
     (if cc_registry fe \<noteq> [] \<and> unifrog_core_registry_find (cc_registry fe) core = None then ids
      else add_core_candidate (Some core) ids)"

text \<open>The components of a path, as the loops over it find them: empty ones are skipped.\<close>

definition path_components :: "string \<Rightarrow> string list" where
  "path_components path = filter (\<lambda>s. s \<noteq> []) (split_on SLASH (text_copy FRONTEND_MAX_PATH path))"

definition add_core_candidates_from_path_dirs :: "core_choice \<Rightarrow> string \<Rightarrow> string list \<Rightarrow> string list" where
  "add_core_candidates_from_path_dirs fe path ids =
     fold (\<lambda>p ids. case frontend_rom_system_mapped_core fe p of
             None \<Rightarrow> ids | Some core \<Rightarrow> add_available_core_candidate fe core ids) (path_components path) ids"

definition core_from_path_dirs :: "core_choice \<Rightarrow> string \<Rightarrow> string option" where
  "core_from_path_dirs fe path =
     (case dropWhile (\<lambda>p. frontend_rom_system_mapped_core fe p = None) (path_components path) of
        [] \<Rightarrow> None | p # _ \<Rightarrow> frontend_rom_system_mapped_core fe p)"

definition safe_core_for_path :: "core_choice \<Rightarrow> string \<Rightarrow> string \<Rightarrow> string" where
  "safe_core_for_path fe path core =
     (if unifrog_core_registry_find (cc_registry fe) core \<noteq> None then core
      else case frontend_association_for_path (cc_associations fe) (Some path) of None \<Rightarrow> []
      | Some a \<Rightarrow>
          if as_default a \<noteq> [] \<and> \<not> is_builtin_handler (as_default a) \<and>
             (cc_registry fe = [] \<or> unifrog_core_registry_find (cc_registry fe) (as_default a) \<noteq> None)
          then as_default a else [])"

definition collect_core_candidates :: "core_choice \<Rightarrow> string \<Rightarrow> string list" where
  "collect_core_candidates fe path =
     (let ids = add_core_candidates_from_path_dirs fe path [];
          ids = (case frontend_association_for_path (cc_associations fe) (Some path) of None \<Rightarrow> ids
                 | Some a \<Rightarrow> fold (\<lambda>h ids. if is_builtin_handler h then ids else add_available_core_candidate fe h ids)
                              (as_handlers a) ids);
          ids = unifrog_core_registry_collect_path (cc_registry fe) path FRONTEND_CORE_CANDIDATE_MAX ids
      in if is_zip_file path
         then let ids = fold (\<lambda>i. unifrog_core_registry_collect_family (cc_registry fe) i FRONTEND_CORE_CANDIDATE_MAX) ids ids
              in if ids = [] then unifrog_core_registry_collect_all (cc_registry fe) FRONTEND_CORE_CANDIDATE_MAX ids else ids
         else ids)"

definition collect_other_core_candidates :: "core_choice \<Rightarrow> string list" where
  "collect_other_core_candidates fe =
     (let ids = unifrog_core_registry_collect_all (cc_registry fe) FRONTEND_CORE_CANDIDATE_MAX []
      in if ids \<noteq> [] then ids
         else fold (\<lambda>a. fold (\<lambda>h ids. if is_builtin_handler h then ids else add_core_candidate (Some h) ids) (as_handlers a))
                (cc_associations fe) [])"

definition default_handler_for_path :: "core_choice \<Rightarrow> string \<Rightarrow> string" where
  "default_handler_for_path fe path =
     (let assoc = frontend_association_for_path (cc_associations fe) (Some path)
      in case assoc of
           Some a \<Rightarrow> if as_default a \<noteq> [] \<and> is_builtin_handler (as_default a) then as_default a
                     else (case core_from_path_dirs fe path of Some c \<Rightarrow> c | None \<Rightarrow> as_default a)
         | None \<Rightarrow> (case core_from_path_dirs fe path of Some c \<Rightarrow> c | None \<Rightarrow> []))"

definition is_content_file :: "core_choice \<Rightarrow> string \<Rightarrow> bool" where
  "is_content_file fe path \<longleftrightarrow> frontend_association_for_path (cc_associations fe) (Some path) \<noteq> None \<or>
     unifrog_media_path_is_supported (Some path) \<or> unifrog_reader_path_supported (Some path)"

text \<open>The next or previous core for a system directory.\<close>

definition rom_system_core_choices :: "core_choice \<Rightarrow> string list" where
  "rom_system_core_choices fe =
     (let ids = unifrog_core_registry_collect_all (cc_registry fe) FRONTEND_CORE_CANDIDATE_MAX []
      in if ids = [] then collect_other_core_candidates fe else ids)"

definition frontend_cycle_rom_system_core :: "string \<Rightarrow> int \<Rightarrow> core_choice \<Rightarrow> core_choice" where
  "frontend_cycle_rom_system_core name dir fe =
     (if name = [] then fe
      else let ids = rom_system_core_choices fe; n = length ids
      in if n = 0 then fe
      else let current = frontend_rom_system_mapped_core fe name;
               index = (case find (\<lambda>i. current = Some (ids ! i)) [0..<n] of None \<Rightarrow> 0 | Some i \<Rightarrow> i);
               index = (if dir < 0 then (if index = 0 then n - 1 else index - 1) else (index + 1) mod n);
               core = text_copy UNIFROG_CORE_MODULE_ID_MAX (ids ! index)
      in case find (\<lambda>i. strcase_eq (fst (cc_systems fe ! i)) name) [0..<length (cc_systems fe)] of
           Some slot \<Rightarrow> fe\<lparr>cc_systems := (cc_systems fe)[slot := (fst (cc_systems fe ! slot), core)]\<rparr>
         | None \<Rightarrow>
             if length (cc_systems fe) \<ge> FRONTEND_ROM_SYSTEM_MAP_MAX then fe
             else fe\<lparr>cc_systems := cc_systems fe @ [(text_copy ROM_SYSTEM_NAME_MAX name, core)]\<rparr>)"

text \<open>Both configuration files, the one of the distribution first.\<close>

definition UNIFROG_CONFIG_PATH :: string where "UNIFROG_CONFIG_PATH = ''/media/mmcblk0/unifrog_data/unifrog.ini''"
definition UNIFROG_DEFAULT_CONFIG_PATH :: string where "UNIFROG_DEFAULT_CONFIG_PATH = ''/media/mmcblk0/unifrog/unifrog.ini''"

definition frontend_associations_load :: "fsys \<Rightarrow> association list \<times> fsys" where
  "frontend_associations_load fs =
     (case associations_load_file UNIFROG_DEFAULT_CONFIG_PATH [] fs of (_, assocs, fs) \<Rightarrow>
      case associations_load_file UNIFROG_CONFIG_PATH assocs fs of (_, assocs, fs) \<Rightarrow> (assocs, fs))"

text \<open>An entry \<open>FOLDER:CORE\<close> of the settings file.\<close>

definition load_rom_system :: "string \<Rightarrow> core_choice \<Rightarrow> core_choice" where
  "load_rom_system value fe =
     (let entry = text_copy 96 value
      in case (case str_chr entry (CHR '':'') of None \<Rightarrow> str_chr entry (CHR ''='') | Some i \<Rightarrow> Some i) of
           None \<Rightarrow> fe
         | Some i \<Rightarrow>
             let name = frontend_trim_ascii (take i entry); core = frontend_trim_ascii (drop (Suc i) entry)
             in if name = [] \<or> core = [] then fe
                else case find (\<lambda>i. strcase_eq (fst (cc_systems fe ! i)) name) [0..<length (cc_systems fe)] of
                  Some j \<Rightarrow> fe\<lparr>cc_systems := (cc_systems fe)[j := (fst (cc_systems fe ! j), text_copy UNIFROG_CORE_MODULE_ID_MAX core)]\<rparr>
                | None \<Rightarrow>
                    if length (cc_systems fe) \<ge> FRONTEND_ROM_SYSTEM_MAP_MAX then fe
                    else let n = text_copy ROM_SYSTEM_NAME_MAX name; c = text_copy UNIFROG_CORE_MODULE_ID_MAX core
                         in if n \<noteq> [] \<and> c \<noteq> [] then fe\<lparr>cc_systems := cc_systems fe @ [(n, c)]\<rparr> else fe)"


text \<open>The tests on a path, a script's first bytes and a module header.\<close>

definition is_asd_file :: "string \<Rightarrow> bool" where
  "is_asd_file path = unifrog_text_ends_with_ci (Some path) (Some ''.asd'')"

definition is_js_script_file :: "string \<Rightarrow> bool" where
  "is_js_script_file path \<longleftrightarrow> unifrog_text_ends_with_ci (Some path) (Some ''.js'') \<or>
     unifrog_text_ends_with_ci (Some path) (Some ''.mjs'')"

definition is_core_module_file :: "string \<Rightarrow> bool" where
  "is_core_module_file path = unifrog_text_ends_with_ci (Some path) (Some ''.bin'')"

definition is_js_libretro_core_script :: "(string \<Rightarrow> cfile option) \<Rightarrow> string \<Rightarrow> bool" where
  "is_js_libretro_core_script open_file path =
     (case open_file path of None \<Rightarrow> False
      | Some f \<Rightarrow> sublist ''unifrog: type=libretro-core'' (byte_str (fst (f_read 255 f))))"

definition core_module_header_compatible :: "module_header option \<Rightarrow> bool" where
  "core_module_header_compatible header = (case header of None \<Rightarrow> False | Some h \<Rightarrow>
     unifrog_core_registry_header_valid (Some h) \<and>
     unifrog_abi_table_compatible (Some unifrog_abi_table) (mh_required_abi_version h) (required_size h))"


section \<open>Well-formed states\<close>

definition wf_registry :: "core_registry \<Rightarrow> bool" where
  "wf_registry reg \<longleftrightarrow> distinct (map ce_id reg) \<and> length reg \<le> UNIFROG_CORE_REGISTRY_MAX \<and>
     (\<forall>e \<in> set reg. ce_id e \<noteq> [] \<and> length (ce_id e) < UNIFROG_CORE_MODULE_ID_MAX \<and>
        length (ce_path e) < UNIFROG_CORE_REGISTRY_PATH_MAX \<and>
        unifrog_core_module_header_layout_valid (Some (ce_header e)))"

definition wf_association :: "association \<Rightarrow> bool" where
  "wf_association a \<longleftrightarrow> as_extension a \<noteq> [] \<and> length (as_extension a) < ASSOCIATION_EXTENSION_MAX \<and>
     length (as_handlers a) \<le> FRONTEND_ASSOCIATION_HANDLER_MAX \<and> distinct (as_handlers a) \<and>
     (\<forall>h \<in> set (as_handlers a). h \<noteq> [] \<and> length h < UNIFROG_CORE_MODULE_ID_MAX) \<and>
     length (as_default a) < UNIFROG_CORE_MODULE_ID_MAX"

definition wf_associations :: "association list \<Rightarrow> bool" where
  "wf_associations assocs \<longleftrightarrow> length assocs \<le> FRONTEND_ASSOCIATION_MAX \<and> list_all wf_association assocs \<and>
     distinct (map (map to_lower \<circ> as_extension) assocs)"

text \<open>
  A system name is cut to 31 characters when it is stored, and a longer name is never found again, so only
  the names that are shorter than that, and so were certainly not cut, are distinct.
\<close>

definition wf_systems :: "(string \<times> string) list \<Rightarrow> bool" where
  "wf_systems ss \<longleftrightarrow> length ss \<le> FRONTEND_ROM_SYSTEM_MAP_MAX \<and>
     (\<forall>(n, c) \<in> set ss. n \<noteq> [] \<and> length n < ROM_SYSTEM_NAME_MAX \<and> c \<noteq> [] \<and> length c < UNIFROG_CORE_MODULE_ID_MAX) \<and>
     distinct (map (map to_lower) (filter (\<lambda>n. length n + 1 < ROM_SYSTEM_NAME_MAX) (map fst ss)))"

definition wf_choice :: "core_choice \<Rightarrow> bool" where
  "wf_choice fe \<longleftrightarrow> wf_registry (cc_registry fe) \<and> wf_associations (cc_associations fe) \<and> wf_systems (cc_systems fe)"

lemmas choice_sizes = UNIFROG_CORE_REGISTRY_MAX_def UNIFROG_CORE_REGISTRY_PATH_MAX_def FRONTEND_ASSOCIATION_MAX_def
  FRONTEND_ASSOCIATION_HANDLER_MAX_def ASSOCIATION_EXTENSION_MAX_def FRONTEND_ROM_SYSTEM_MAP_MAX_def
  ROM_SYSTEM_NAME_MAX_def UNIFROG_CORE_MODULE_ID_MAX_def FRONTEND_CORE_CANDIDATE_MAX_def

lemma text_copy_fits: "length s < n \<Longrightarrow> text_copy n s = s"
  by (simp add: text_copy_eq)

lemma text_copy_shorter: "0 < n \<Longrightarrow> length (text_copy n s) < n"
  by (simp add: text_copy_eq)

lemma text_copy_nonempty: "s \<noteq> [] \<Longrightarrow> 1 < n \<Longrightarrow> text_copy n s \<noteq> []"
  by (simp add: text_copy_eq)

subsection \<open>The registry\<close>

lemma byte_str_length: "list_ex (\<lambda>c. c = 0) b \<Longrightarrow> length (byte_str b) < length b"
  by (induction b) (auto simp: byte_str_def)

lemma byte_str_nonempty: "b \<noteq> [] \<Longrightarrow> b ! 0 \<noteq> 0 \<Longrightarrow> byte_str b \<noteq> []"
  by (cases b) (auto simp: byte_str_def)

lemma registry_header_id:
  assumes "unifrog_core_module_header_layout_valid (Some (header_of_bytes b))"
  shows "byte_str (mh_core_id (header_of_bytes b)) \<noteq> []"
    "length (byte_str (mh_core_id (header_of_bytes b))) < UNIFROG_CORE_MODULE_ID_MAX"
proof -
  let ?id = "mh_core_id (header_of_bytes b)"
  have v: "?id ! 0 \<noteq> 0" "list_ex (\<lambda>c. c = 0) ?id"
    using assms by (simp_all add: unifrog_core_module_header_layout_valid_def)
  have l: "length ?id \<le> 32" by (simp add: header_of_bytes_def Let_def)
  from v(2) have "?id \<noteq> []" by auto
  with v(1) show "byte_str ?id \<noteq> []" by (rule byte_str_nonempty [rotated])
  show "length (byte_str ?id) < UNIFROG_CORE_MODULE_ID_MAX"
    using byte_str_length [OF v(2)] l by (simp add: choice_sizes)
qed

lemma read_header_valid:
  assumes "unifrog_core_registry_read_header open_file path = Some h"
  shows "\<exists>b. h = header_of_bytes b" "unifrog_core_module_header_layout_valid (Some h)"
  using assms
  by (auto simp: unifrog_core_registry_read_header_def unifrog_core_registry_header_valid_def Let_def
      split: if_splits option.splits prod.splits)

lemma wf_registry_add:
  assumes "wf_registry reg" "length reg < UNIFROG_CORE_REGISTRY_MAX" "\<not> registry_has_id reg (ce_id e)"
    "ce_header e = header_of_bytes b" "unifrog_core_module_header_layout_valid (Some (ce_header e))"
    "length (ce_path e) < UNIFROG_CORE_REGISTRY_PATH_MAX"
  shows "wf_registry (reg @ [e])"
  using assms registry_header_id [of b]
  by (auto simp: wf_registry_def registry_has_id_def list_ex_iff)

lemma wf_scan_entries: "wf_registry reg \<Longrightarrow> wf_registry (scan_entries open_file root names reg)"
proof (induction names arbitrary: reg)
  case (Cons name names)
  show ?case
  proof (cases "length reg < UNIFROG_CORE_REGISTRY_MAX \<and> scan_entries open_file root (name # names) reg \<noteq> scan_entries open_file root names reg")
    case True
    then obtain path h where h: "unifrog_core_registry_read_header open_file path = Some h"
      and n: "\<not> registry_has_id reg (byte_str (mh_core_id h))"
      and eq: "scan_entries open_file root (name # names) reg =
         scan_entries open_file root names (reg @ [\<lparr>ce_header = h, ce_path = snprintf_s UNIFROG_CORE_REGISTRY_PATH_MAX path\<rparr>])"
      by (auto simp: Let_def split: option.splits if_splits)
    obtain b where "h = header_of_bytes b" using read_header_valid(1) [OF h] ..
    then have "wf_registry (reg @ [\<lparr>ce_header = h, ce_path = snprintf_s UNIFROG_CORE_REGISTRY_PATH_MAX path\<rparr>])"
      using True n read_header_valid(2) [OF h]
      by (intro wf_registry_add [OF Cons.prems]) (simp_all add: snprintf_s_def choice_sizes)
    then show ?thesis unfolding eq by (rule Cons.IH)
  next
    case False
    then show ?thesis using Cons.IH [OF Cons.prems] Cons.prems by auto
  qed
qed simp

lemma wf_registry_scan: "wf_registry (snd (unifrog_core_registry_scan opendir open_file root))"
proof -
  have "wf_registry []" by (simp add: wf_registry_def)
  then show ?thesis
    by (simp add: unifrog_core_registry_scan_def scan_root_def wf_scan_entries split: option.split)
qed

subsection \<open>The associations\<close>

lemma association_find_Some:
  assumes "association_find_mutable assocs extension = Some i"
  shows "i < length assocs" "strcase_eq (as_extension (assocs ! i)) extension"
  using assms by (auto simp: association_find_mutable_def find_Some_iff split: if_splits)

lemma association_find_None:
  assumes "association_find_mutable assocs extension = None" "extension \<noteq> []"
  shows "\<forall>a \<in> set assocs. \<not> strcase_eq (as_extension a) extension"
  using assms by (auto simp: association_find_mutable_def find_None_iff in_set_conv_nth)

lemma association_add_cases:
  assumes "association_add assocs extension = Some (i, assocs')" "extension \<noteq> []"
  obtains "assocs' = assocs" "i < length assocs" "strcase_eq (as_extension (assocs ! i)) extension"
  | "i = length assocs" "length assocs < FRONTEND_ASSOCIATION_MAX" "length extension < ASSOCIATION_EXTENSION_MAX"
    "\<forall>a \<in> set assocs. \<not> strcase_eq (as_extension a) extension"
    "assocs' = assocs @ [\<lparr>as_extension = extension, as_handlers = [], as_default = []\<rparr>]"
  using assms association_find_Some [of assocs extension] association_find_None [of assocs extension]
  by (fastforce simp: association_add_def text_copy_fits split: if_splits option.splits)

lemma wf_association_add:
  assumes "wf_associations assocs" "association_add assocs extension = Some (i, assocs')" "extension \<noteq> []"
  shows "wf_associations assocs'" "i < length assocs'"
proof -
  show "wf_associations assocs'"
    using assms(2,3)
  proof (cases rule: association_add_cases)
    case 2
    with assms show ?thesis
      by (auto simp: wf_associations_def wf_association_def strcase_eq_def choice_sizes)
  qed (use assms in simp)
  show "i < length assocs'" using assms(2,3) by (cases rule: association_add_cases) auto
qed

lemma wf_association_update:
  assumes "wf_associations assocs" "i < length assocs" "wf_association a" "as_extension a = as_extension (assocs ! i)"
  shows "wf_associations (assocs[i := a])"
proof -
  have "map (map to_lower \<circ> as_extension) (assocs[i := a]) = map (map to_lower \<circ> as_extension) assocs"
    using assms(2,4) by (simp add: map_update list_update_same_conv)
  moreover have "list_all wf_association (assocs[i := a])"
    using assms(1,3) by (auto simp: wf_associations_def list_all_iff dest!: set_update_subset_insert [THEN subsetD])
  ultimately show ?thesis using assms(1) by (simp add: wf_associations_def)
qed

definition handlers_ok :: "string list \<Rightarrow> bool" where
  "handlers_ok hs \<longleftrightarrow> distinct hs \<and> (\<forall>h \<in> set hs. h \<noteq> [] \<and> length h < UNIFROG_CORE_MODULE_ID_MAX)"

lemma add_handler_ok: "handlers_ok hs \<Longrightarrow> handlers_ok (add_handler h hs)" "length (add_handler h hs) \<le> Suc (length hs)"
  by (auto simp: add_handler_def handlers_ok_def text_copy_fits)

lemma handlers_loop_ok:
  "handlers_ok hs \<Longrightarrow> length hs \<le> FRONTEND_ASSOCIATION_HANDLER_MAX \<Longrightarrow>
     handlers_ok (handlers_loop part hs) \<and> length (handlers_loop part hs) \<le> FRONTEND_ASSOCIATION_HANDLER_MAX"
proof (induction part hs rule: handlers_loop.induct)
  case (1 part hs)
  show ?case
  proof (cases "part = [] \<or> length hs \<ge> FRONTEND_ASSOCIATION_HANDLER_MAX")
    case True
    then show ?thesis using 1(2,3) by (simp add: handlers_loop.simps [of part hs])
  next
    case False
    have small: "length (add_handler h hs) \<le> FRONTEND_ASSOCIATION_HANDLER_MAX" for h
      using add_handler_ok(2) [of h hs] False by simp
    show ?thesis
    proof (cases "str_chr part (CHR '','')")
      case None
      then show ?thesis using False small add_handler_ok(1) [OF 1(2)]
        by (simp add: handlers_loop.simps [of part hs] del: str_chr_None)
    next
      case (Some i)
      have "handlers_loop part hs = handlers_loop (drop (Suc i) (right_trimmed part))
          (add_handler (takeWhile (\<lambda>c. c \<noteq> CHR '','') (frontend_trim_ascii part)) hs)"
        using False Some by (simp add: handlers_loop.simps [of part hs])
      then show ?thesis
        using 1(1) [OF False refl Some add_handler_ok(1) [OF 1(2)] small] by simp
    qed
  qed
qed

lemma wf_association_iff:
  "wf_association a \<longleftrightarrow> as_extension a \<noteq> [] \<and> length (as_extension a) < ASSOCIATION_EXTENSION_MAX \<and>
     handlers_ok (as_handlers a) \<and> length (as_handlers a) \<le> FRONTEND_ASSOCIATION_HANDLER_MAX \<and>
     length (as_default a) < UNIFROG_CORE_MODULE_ID_MAX"
  by (auto simp: wf_association_def handlers_ok_def)

lemma wf_parse_handlers: "wf_association a \<Longrightarrow> wf_association (association_parse_handlers txt a)"
  using handlers_loop_ok [of "[]" "text_copy FRONTEND_MAX_LINE txt"]
  by (simp add: wf_association_iff association_parse_handlers_def handlers_ok_def)

lemma wf_nth: "wf_associations assocs \<Longrightarrow> i < length assocs \<Longrightarrow> wf_association (assocs ! i)"
  by (simp add: wf_associations_def list_all_length)


lemma wf_config_entry:
  assumes "wf_associations assocs"
  shows "wf_associations (fst (association_config_entry assocs section key value line_number))"
proof (cases "fst (association_config_entry assocs section key value line_number) = assocs")
  case False
  define name where "name = drop 10 key"
  from False obtain n i as where n: "str_rchr name (CHR ''.'') = Some n" "n \<noteq> 0" "n < ASSOCIATION_EXTENSION_MAX"
    and add: "association_add assocs (take n name) = Some (i, as)"
    and new: "fst (association_config_entry assocs section key value line_number) \<in>
      {as[i := association_parse_handlers value (as ! i)],
       as[i := (as ! i)\<lparr>as_default := text_copy UNIFROG_CORE_MODULE_ID_MAX value\<rparr>], as}"
    unfolding association_config_entry_def Let_def name_def [symmetric]
    by (auto split: if_splits option.splits)
  have ne: "take n name \<noteq> []" using n str_rchr_SomeD(1) [OF n(1)] by auto
  note w = wf_association_add [OF assms add ne]
  have 1: "wf_associations (as[i := association_parse_handlers value (as ! i)])"
    using w by (intro wf_association_update wf_parse_handlers wf_nth) (simp_all add: association_parse_handlers_def)
  have 2: "wf_associations (as[i := (as ! i)\<lparr>as_default := text_copy UNIFROG_CORE_MODULE_ID_MAX value\<rparr>])"
    using w wf_nth [OF w] by (intro wf_association_update)
      (simp_all add: wf_association_def text_copy_shorter choice_sizes)
  show ?thesis using new 1 2 w(1) by auto
qed (use assms in simp)

text \<open>What a callback keeps, reading a whole file keeps.\<close>

lemma config_assign_user:
  assumes "P (cs_user cs)" "\<And>u s k v n. P u \<Longrightarrow> P (fst (cb u s k v n))"
  shows "P (cs_user (fst (config_assign cb t cs)))"
  using assms by (auto simp: config_assign_def Let_def split: option.split prod.splits) (metis fst_conv)

lemma config_line_user:
  assumes "P (cs_user cs)" "\<And>u s k v n. P u \<Longrightarrow> P (fst (cb u s k v n))"
  shows "P (cs_user (fst (config_line cb t cs)))"
  using assms(1) config_assign_user [where P = P and cb = cb, OF _ assms(2)]
  by (simp add: config_line_def config_header_def Let_def split: option.split)

lemma config_loop_user:
  assumes cb: "\<And>u s k v n. P u \<Longrightarrow> P (fst (cb u s k v n))"
  shows "P (cs_user cs) \<Longrightarrow> P (cs_user (config_loop cb st cs))"
proof (induction "length (rest st)" arbitrary: st cs rule: less_induct)
  case less
  show ?case
  proof (cases "read_complete_line st (cs_errors cs)")
    case None
    then show ?thesis using less.prems by (simp add: config_loop.simps)
  next
    case (Some r)
    then obtain l st' e where r: "read_complete_line st (cs_errors cs) = Some (l, st', e)" by (cases r) auto
    have u: "P (cs_user (fst (config_line cb l (cs\<lparr>cs_errors := e\<rparr>))))"
      by (rule config_line_user [where P = P, OF _ cb]) (simp add: less.prems)
    have "P (cs_user (config_loop cb st' (fst (config_line cb l (cs\<lparr>cs_errors := e\<rparr>)))))"
      using read_complete_line_shrinks [OF r] u by (rule less.hyps)
    with u show ?thesis
      by (simp add: config_loop.simps [of cb st cs] r case_prod_beta' Let_def)
  qed
qed

lemma config_read_user:
  assumes "\<And>u s k v n. P u \<Longrightarrow> P (fst (cb u s k v n))" "P u"
    "unifrog_config_read fs path (Some cb) u = ((ret, u', errors), fs')"
  shows "P u'"
proof -
  have loop: "P (cs_user (config_loop cb st (config_start u)))" for st
    by (rule config_loop_user [where P = P]) (use assms(1,2) in \<open>simp_all add: config_start_def\<close>)
  show ?thesis
    using assms(2,3) loop by (auto simp: unifrog_config_read_def Let_def split: option.splits prod.splits)
qed

lemma wf_associations_load: "wf_associations (fst (frontend_associations_load fs))"
proof -
  have load: "wf_associations as \<Longrightarrow> associations_load_file path as fs = (r, as', fs') \<Longrightarrow> wf_associations as'" for path as fs r as' fs'
    using config_read_user [where P = wf_associations and cb = association_config_entry, OF wf_config_entry]
    by (simp add: associations_load_file_def split: prod.splits)
  have nil: "wf_associations []" by (simp add: wf_associations_def)
  show ?thesis
    by (simp add: frontend_associations_load_def split: prod.split) (blast intro: load [OF load [OF nil]])
qed

lemma insert_handler_ok:
  assumes "handlers_ok hs" "h \<noteq> []" "length h < UNIFROG_CORE_MODULE_ID_MAX" "h \<notin> set hs"
    "length hs \<le> FRONTEND_ASSOCIATION_HANDLER_MAX"
  shows "insert_handler h hs = h # take (FRONTEND_ASSOCIATION_HANDLER_MAX - 1) hs" "handlers_ok (insert_handler h hs)"
    "length (insert_handler h hs) \<le> FRONTEND_ASSOCIATION_HANDLER_MAX"
proof -
  have m: "map (text_copy UNIFROG_CORE_MODULE_ID_MAX) (take k hs) = take k hs" for k
  proof (rule map_idI)
    fix x assume "x \<in> set (take k hs)"
    then have "length x < UNIFROG_CORE_MODULE_ID_MAX" using assms(1) in_set_takeD by (fastforce simp: handlers_ok_def)
    then show "text_copy UNIFROG_CORE_MODULE_ID_MAX x = x" by (rule text_copy_fits)
  qed
  show eq: "insert_handler h hs = h # take (FRONTEND_ASSOCIATION_HANDLER_MAX - 1) hs"
    using assms(3,5) m [of "length hs"] m [of 7]
    by (simp add: insert_handler_def Let_def text_copy_fits choice_sizes)
  show "handlers_ok (insert_handler h hs)" "length (insert_handler h hs) \<le> FRONTEND_ASSOCIATION_HANDLER_MAX"
    using assms unfolding eq by (auto simp: handlers_ok_def choice_sizes dest: in_set_takeD)
qed

text \<open>The entry that setting a default leaves.\<close>

definition with_default :: "string \<Rightarrow> association \<Rightarrow> association" where
  "with_default h a = a\<lparr>as_default := h, as_handlers :=
     (if h \<in> set (as_handlers a) then as_handlers a
      else h # take (FRONTEND_ASSOCIATION_HANDLER_MAX - 1) (as_handlers a))\<rparr>"

lemma wf_with_default:
  assumes "wf_association a" "h \<noteq> []" "length h < UNIFROG_CORE_MODULE_ID_MAX"
  shows "wf_association (with_default h a)"
  using assms insert_handler_ok [of "as_handlers a" h] by (auto simp: wf_association_iff with_default_def)

lemma set_default_eq:
  assumes "wf_associations assocs" "handler \<noteq> []" "length handler < UNIFROG_CORE_MODULE_ID_MAX"
    "path_extension_name path \<noteq> []"
    "association_add assocs (case frontend_association_for_path assocs path of
        None \<Rightarrow> path_extension_name path | Some a \<Rightarrow> as_extension a) = Some (i, as)"
    "wf_associations as" "i < length as"
  shows "frontend_association_set_default save assocs path handler =
    (save (as[i := with_default handler (as ! i)]), as[i := with_default handler (as ! i)])"
proof -
  have "handlers_ok (as_handlers (as ! i))" "length (as_handlers (as ! i)) \<le> FRONTEND_ASSOCIATION_HANDLER_MAX"
    using wf_nth [OF assms(6,7)] by (simp_all add: wf_association_iff)
  then have "(if handler \<in> set (as_handlers (as ! i)) then (as ! i)\<lparr>as_default := handler\<rparr>
      else (as ! i)\<lparr>as_default := handler, as_handlers := insert_handler handler (as_handlers (as ! i))\<rparr>) =
     with_default handler (as ! i)"
    using insert_handler_ok(1) [of "as_handlers (as ! i)" handler] assms(2,3) by (simp add: with_default_def)
  then show ?thesis
    using assms(2-5)
    by (cases "handler \<in> set (as_handlers (as ! i))")
      (simp_all add: frontend_association_set_default_def text_copy_fits Let_def)
qed


subsection \<open>The longest extension\<close>

definition base_of :: "string \<Rightarrow> string" where
  "base_of p = (case str_rchr p SLASH of None \<Rightarrow> p | Some i \<Rightarrow> drop (Suc i) p)"

definition applies :: "string \<Rightarrow> association \<Rightarrow> bool" where
  "applies p a \<longleftrightarrow> association_matches (base_of p) (as_extension a)"

lemma better_fold:
  assumes "fold (better name) as (b0, n0) = (b, n)"
  shows "n0 \<le> n \<and> (\<forall>a \<in> set as. association_matches name (as_extension a) \<longrightarrow> length (as_extension a) \<le> n) \<and>
    (b = b0 \<and> n = n0 \<or> (\<exists>a \<in> set as. b = Some a \<and> n = length (as_extension a) \<and>
       association_matches name (as_extension a) \<and> n0 < n))"
  using assms
proof (induction as arbitrary: b0 n0)
  case (Cons a as)
  show ?case
  proof (cases "length (as_extension a) > n0 \<and> association_matches name (as_extension a)")
    case True
    then have "better name a (b0, n0) = (Some a, length (as_extension a))" by (simp add: better_def Let_def)
    then have "fold (better name) as (Some a, length (as_extension a)) = (b, n)" using Cons.prems by simp
    from Cons.IH [OF this] True show ?thesis by auto
  next
    case False
    then have "better name a (b0, n0) = (b0, n0)" by (auto simp: better_def Let_def)
    then have "fold (better name) as (b0, n0) = (b, n)" using Cons.prems by simp
    from Cons.IH [OF this] False show ?thesis by fastforce
  qed
qed simp

lemma matches_same_length:
  assumes "wf_associations as" "a \<in> set as" "b \<in> set as" "applies p a" "applies p b"
    "length (as_extension a) = length (as_extension b)"
  shows "a = b"
proof -
  have "strcase_eq (as_extension a) (as_extension b)"
    using assms(4-6) by (auto simp: applies_def association_matches_def strcase_eq_def)
  moreover have "inj_on (map to_lower \<circ> as_extension) (set as)"
    using assms(1) by (simp add: wf_associations_def distinct_map)
  ultimately show ?thesis using assms(2,3) by (auto simp: inj_on_def strcase_eq_def)
qed

text \<open>The association of a path is the one with the longest extension that the name ends in.\<close>

lemma association_for_path_iff:
  assumes "wf_associations as"
  shows "frontend_association_for_path as (Some p) = Some a \<longleftrightarrow>
    a \<in> set as \<and> applies p a \<and> (\<forall>b \<in> set as. applies p b \<longrightarrow> length (as_extension b) \<le> length (as_extension a))"
    (is "?l \<longleftrightarrow> ?r")
proof -
  obtain b n where f: "fold (better (base_of p)) as (None, 0) = (b, n)" by (meson surj_pair)
  note F = better_fold [OF f]
  have l: "frontend_association_for_path as (Some p) = b"
    using f by (simp add: frontend_association_for_path_def base_of_def)
  have ne: "a \<in> set as \<Longrightarrow> as_extension a \<noteq> []" for a
    using assms by (auto simp: wf_associations_def list_all_iff wf_association_def)
  show ?thesis
  proof
    assume ?l
    with l F show ?r by (auto simp: applies_def)
  next
    assume r: ?r
    then have "0 < n" using F ne by (fastforce simp: applies_def)
    then obtain c where c: "c \<in> set as" "b = Some c" "n = length (as_extension c)" "applies p c"
      using F by (auto simp: applies_def)
    then have "length (as_extension a) = length (as_extension c)"
      using r F by (auto simp: applies_def intro: antisym)
    with r c have "a = c" using matches_same_length [OF assms] by blast
    with l c show ?l by simp
  qed
qed

lemma association_for_path_None:
  assumes "wf_associations as"
  shows "frontend_association_for_path as (Some p) = None \<longleftrightarrow> (\<forall>a \<in> set as. \<not> applies p a)"
proof
  assume l: "frontend_association_for_path as (Some p) = None"
  show "\<forall>a \<in> set as. \<not> applies p a"
  proof (rule ccontr)
    assume "\<not> (\<forall>a \<in> set as. \<not> applies p a)"
    then have ne: "{a \<in> set as. applies p a} \<noteq> {}" by auto
    obtain a where "a \<in> set as" "applies p a" "\<forall>b \<in> {a \<in> set as. applies p a}. length (as_extension b) \<le> length (as_extension a)"
      using ex_is_arg_min_if_finite [OF _ ne, of "\<lambda>a. - int (length (as_extension a))"]
      by (auto simp: is_arg_min_linorder)
    then have "frontend_association_for_path as (Some p) = Some a"
      by (auto simp: association_for_path_iff [OF assms])
    with l show False by simp
  qed
next
  assume "\<forall>a \<in> set as. \<not> applies p a"
  then show "frontend_association_for_path as (Some p) = None"
    using association_for_path_iff [OF assms] by (metis not_None_eq)
qed

lemma path_extension_applies:
  assumes "path_extension_name (Some p) \<noteq> []"
  shows "association_matches (base_of p) (path_extension_name (Some p))"
proof -
  obtain d where d: "str_rchr p (CHR ''.'') = Some d" "path_extension_name (Some p) = drop (Suc d) p"
    "\<And>s. str_rchr p SLASH = Some s \<Longrightarrow> s \<le> d"
    using assms by (auto simp: path_extension_name_def not_less split: option.splits if_splits)
  note dot = str_rchr_SomeD [OF d(1)]
  show ?thesis
  proof (cases "str_rchr p SLASH")
    case None
    then show ?thesis using dot d(2) by (simp add: base_of_def association_matches_def del: str_rchr_None)
  next
    case (Some s)
    have "s \<noteq> d" using dot(2) str_rchr_SomeD(2) [OF Some] by auto
    with d(3) [OF Some] have "s < d" by simp
    with dot have "drop (Suc s) p ! (d - Suc s) = CHR ''.''" "length (drop (Suc s) p) = length p - Suc s"
      "drop (length p - Suc s - (length p - Suc d)) (drop (Suc s) p) = drop (Suc d) p"
      by simp_all
    moreover have "length p - Suc s - (length p - Suc d) - 1 = d - Suc s" using \<open>s < d\<close> dot(1) by simp
    ultimately show ?thesis using d(2) Some \<open>s < d\<close> dot(1)
      by (simp add: base_of_def association_matches_def)
  qed
qed

lemma matches_strcase: "strcase_eq e e' \<Longrightarrow> association_matches n e = association_matches n e'"
  using strcase_eq_length [of e e'] by (auto simp: association_matches_def strcase_eq_def)

text \<open>Replacing one entry by another with the same extension changes no other lookup.\<close>

lemma association_replace_lookup:
  assumes wf: "wf_associations as" "wf_associations as'" and n: "length as \<le> length as'" "i < length as'" "as' ! i = a"
    and other: "\<And>j. j < length as' \<Longrightarrow> j \<noteq> i \<Longrightarrow> j < length as \<and> as' ! j = as ! j"
    and same: "i < length as \<Longrightarrow> as_extension (as ! i) = as_extension a"
    and q: "frontend_association_for_path as' (Some q) \<noteq> Some a"
  shows "frontend_association_for_path as' (Some q) = frontend_association_for_path as (Some q)"
proof -
  have ext: "\<exists>y \<in> set as'. as_extension y = as_extension x" if "x \<in> set as" for x
  proof -
    from that obtain j where j: "j < length as" "as ! j = x" by (auto simp: in_set_conv_nth)
    then have "as_extension (as' ! j) = as_extension x" using other [of j] same n by (cases "j = i") auto
    moreover have "as' ! j \<in> set as'" using j n(1) by simp
    ultimately show ?thesis by blast
  qed
  have app: "applies q x \<longleftrightarrow> applies q y" if "as_extension x = as_extension y" for x y
    using that by (simp add: applies_def)
  show ?thesis
  proof (cases "frontend_association_for_path as' (Some q)")
    case None
    then have "\<forall>x \<in> set as'. \<not> applies q x" using association_for_path_None [OF wf(2)] by simp
    then have "frontend_association_for_path as (Some q) = None"
      using ext app unfolding association_for_path_None [OF wf(1)] by metis
    with None show ?thesis by simp
  next
    case (Some b)
    then have b: "b \<in> set as'" "applies q b" "\<forall>x \<in> set as'. applies q x \<longrightarrow> length (as_extension x) \<le> length (as_extension b)"
      using association_for_path_iff [OF wf(2)] by simp_all
    have "b \<in> set as"
    proof -
      from b(1) obtain j where j: "j < length as'" "as' ! j = b" by (auto simp: in_set_conv_nth)
      with Some q n(3) have "j \<noteq> i" by auto
      with other [OF j(1)] j show ?thesis by auto
    qed
    moreover have "length (as_extension x) \<le> length (as_extension b)" if "x \<in> set as" "applies q x" for x
      using ext [OF that(1)] b(3) that(2) app by metis
    ultimately have "frontend_association_for_path as (Some q) = Some b"
      using b(2) association_for_path_iff [OF wf(1)] by simp
    with Some show ?thesis by simp
  qed
qed

lemma set_default_lookup:
  fixes as p h
  assumes wf: "wf_associations as" and ext: "path_extension_name (Some p) \<noteq> []"
    and h: "h \<noteq> []" "length h < UNIFROG_CORE_MODULE_ID_MAX"
    and room: "frontend_association_for_path as (Some p) \<noteq> None \<or>
      length (path_extension_name (Some p)) < ASSOCIATION_EXTENSION_MAX \<and> length as < FRONTEND_ASSOCIATION_MAX"
    and set: "frontend_association_set_default save as (Some p) h = (r, as')"
  obtains a where "r = save as'" "wf_associations as'" "frontend_association_for_path as' (Some p) = Some a"
    "as_default a = h" "h \<in> set (as_handlers a)"
    "\<And>q. frontend_association_for_path as' (Some q) \<noteq> Some a \<Longrightarrow>
       frontend_association_for_path as' (Some q) = frontend_association_for_path as (Some q)"
proof -
  let ?key = "case frontend_association_for_path as (Some p) of
        None \<Rightarrow> path_extension_name (Some p) | Some a \<Rightarrow> as_extension a"
  have "wf_association a" if "frontend_association_for_path as (Some p) = Some a" for a
    using that wf association_for_path_iff [OF wf] by (simp add: wf_associations_def list_all_iff)
  then have key: "?key \<noteq> []" "length ?key < ASSOCIATION_EXTENSION_MAX"
    using ext room by (auto simp: wf_association_def split: option.split)
  have fits: "association_matches (base_of p) ?key"
    using path_extension_applies [OF ext] association_for_path_iff [OF wf, of p]
    by (simp add: applies_def split: option.split)
  have longest: "applies p x \<Longrightarrow> length (as_extension x) \<le> length ?key" if "x \<in> set as" for x
    using that association_for_path_iff [OF wf, of p] association_for_path_None [OF wf, of p]
    by (auto split: option.split)
  have "association_add as ?key \<noteq> None"
  proof (cases "frontend_association_for_path as (Some p)")
    case None
    then show ?thesis using key room by (simp add: association_add_def split: option.split)
  next
    case (Some a)
    then have "a \<in> set as" using association_for_path_iff [OF wf] by simp
    then have "association_find_mutable as ?key \<noteq> None"
      using association_find_None [of as ?key] key(1) Some strcase_eq_refl [of "as_extension a"] by fastforce
    then show ?thesis using key by (auto simp: association_add_def)
  qed
  then obtain i as1 where add: "association_add as ?key = Some (i, as1)" by (metis not_None_eq surj_pair)
  note w1 = wf_association_add [OF wf add key(1)]
  let ?a = "with_default h (as1 ! i)"
  have eq: "r = save as'" "as' = as1[i := ?a]"
    using set set_default_eq [OF wf h ext add w1, of save] by auto
  have ext_same: "as_extension ?a = as_extension (as1 ! i)" by (simp add: with_default_def)
  have w: "wf_associations as'"
    unfolding eq(2) by (intro wf_association_update w1 wf_with_default wf_nth h ext_same)
  have new: "strcase_eq (as_extension ?a) ?key" "length as \<le> length as1"
    "\<And>j. j < length as1 \<Longrightarrow> j \<noteq> i \<Longrightarrow> j < length as" "\<And>j. j < length as \<Longrightarrow> as1 ! j = as ! j"
    using add key(1) unfolding ext_same by (cases rule: association_add_cases; simp add: nth_append)+
  have "frontend_association_for_path as' (Some p) = Some ?a"
    unfolding association_for_path_iff [OF w]
  proof (intro conjI ballI impI)
    show "?a \<in> set as'" using w1(2) eq(2) by (simp add: set_update_memI)
    show "applies p ?a" using fits matches_strcase [OF new(1)] by (simp add: applies_def)
    fix b assume b: "b \<in> set as'" "applies p b"
    then obtain j where j: "j < length as1" "as' ! j = b" using eq(2) by (auto simp: in_set_conv_nth)
    show "length (as_extension b) \<le> length (as_extension ?a)"
    proof (cases "j = i")
      case False
      then have "b \<in> set as" using j new(3,4) eq(2) by auto
      from longest [OF this b(2)] show ?thesis using strcase_eq_length [OF new(1)] by simp
    qed (use j eq(2) in simp)
  qed
  moreover have "as_default ?a = h" "h \<in> set (as_handlers ?a)" by (simp_all add: with_default_def)
  moreover have "frontend_association_for_path as' (Some q) = frontend_association_for_path as (Some q)"
    if "frontend_association_for_path as' (Some q) \<noteq> Some ?a" for q
    using wf w _ _ _ _ _ that
    by (rule association_replace_lookup [where i = i]) (use new w1(2) eq(2) ext_same in auto)
  ultimately show thesis using eq(1) w that by blast
qed


subsection \<open>The candidates\<close>

definition candidate_ok :: "core_choice \<Rightarrow> string \<Rightarrow> bool" where
  "candidate_ok fe i \<longleftrightarrow> i \<noteq> [] \<and> length i < UNIFROG_CORE_MODULE_ID_MAX \<and>
     (cc_registry fe \<noteq> [] \<longrightarrow> i \<in> ce_id ` set (cc_registry fe))"

definition candidates_ok :: "core_choice \<Rightarrow> string list \<Rightarrow> bool" where
  "candidates_ok fe ids \<longleftrightarrow> distinct ids \<and> length ids \<le> FRONTEND_CORE_CANDIDATE_MAX \<and> list_all (candidate_ok fe) ids"

lemma registry_find_None: "unifrog_core_registry_find reg i = None \<longleftrightarrow> i \<notin> ce_id ` set reg"
  by (auto simp: unifrog_core_registry_find_def find_None_iff)

lemma registry_find_Some:
  assumes "wf_registry reg"
  shows "unifrog_core_registry_find reg i = Some e \<longleftrightarrow> e \<in> set reg \<and> ce_id e = i"
proof
  assume "unifrog_core_registry_find reg i = Some e"
  then show "e \<in> set reg \<and> ce_id e = i" by (auto simp: unifrog_core_registry_find_def find_Some_iff)
next
  assume e: "e \<in> set reg \<and> ce_id e = i"
  moreover have "distinct (map ce_id reg)" using assms by (simp add: wf_registry_def)
  ultimately show "unifrog_core_registry_find reg i = Some e"
    using find_key [of ce_id reg e] by (auto simp: unifrog_core_registry_find_def eq_commute [of i])
qed

lemma candidates_Nil: "candidates_ok fe []"
  by (simp add: candidates_ok_def)

lemma add_core_candidate_ok:
  assumes "candidates_ok fe ids" "length c < UNIFROG_CORE_MODULE_ID_MAX"
    "cc_registry fe \<noteq> [] \<Longrightarrow> c \<in> ce_id ` set (cc_registry fe)"
  shows "candidates_ok fe (add_core_candidate (Some c) ids)"
  using assms by (auto simp: candidates_ok_def candidate_ok_def add_core_candidate_def text_copy_fits)

lemma add_available_ok:
  assumes "candidates_ok fe ids" "length c < UNIFROG_CORE_MODULE_ID_MAX"
  shows "candidates_ok fe (add_available_core_candidate fe c ids)"
  using assms add_core_candidate_ok [OF assms]
  by (auto simp: add_available_core_candidate_def registry_find_None)

text \<open>A registered identifier always finds room, as the list holds registered identifiers only.\<close>

lemma add_id_ok:
  assumes wf: "wf_registry (cc_registry fe)" and ids: "candidates_ok fe ids" and e: "e \<in> set (cc_registry fe)"
  shows "candidates_ok fe (add_id FRONTEND_CORE_CANDIDATE_MAX (ce_id e) ids)"
    "ce_id e \<in> set (add_id FRONTEND_CORE_CANDIDATE_MAX (ce_id e) ids)"
proof -
  let ?reg = "cc_registry fe"
  have id: "ce_id e \<noteq> []" "length (ce_id e) < UNIFROG_CORE_MODULE_ID_MAX" using wf e by (auto simp: wf_registry_def)
  have copy: "snprintf_s UNIFROG_CORE_MODULE_ID_MAX (ce_id e) = ce_id e" using id by (simp add: snprintf_s_def)
  have room: "length ids < FRONTEND_CORE_CANDIDATE_MAX" if "ce_id e \<notin> set ids"
  proof -
    have sub: "set ids \<subset> ce_id ` set ?reg"
      using ids e that by (auto simp: candidates_ok_def candidate_ok_def list_all_iff)
    have "length ids = card (set ids)" using ids by (simp add: candidates_ok_def distinct_card)
    also have "\<dots> < card (ce_id ` set ?reg)" using sub by (intro psubset_card_mono) simp_all
    also have "\<dots> \<le> length ?reg" using card_image_le [of "set ?reg" ce_id] card_length [of ?reg] by simp
    finally show ?thesis using wf by (simp add: wf_registry_def FRONTEND_CORE_CANDIDATE_MAX_def)
  qed
  show "ce_id e \<in> set (add_id FRONTEND_CORE_CANDIDATE_MAX (ce_id e) ids)"
    using room id copy by (auto simp: add_id_def)
  show "candidates_ok fe (add_id FRONTEND_CORE_CANDIDATE_MAX (ce_id e) ids)"
    using room id copy ids e by (auto simp: add_id_def candidates_ok_def candidate_ok_def)
qed

lemma add_id_mono: "set ids \<subseteq> set (add_id n i ids)"
  by (auto simp: add_id_def)

lemma fold_mono: "(\<And>x s. set s \<subseteq> set (f x s)) \<Longrightarrow> set s \<subseteq> set (fold f xs s)"
  by (induction xs arbitrary: s) (simp, metis fold_simps(2) order_trans)

lemma fold_keeps: "(\<And>x s. x \<in> set xs \<Longrightarrow> P s \<Longrightarrow> P (f x s)) \<Longrightarrow> P s \<Longrightarrow> P (fold f xs s)"
  by (induction xs arbitrary: s) auto

text \<open>Adding the registered cores that pass a test: the shape of the three collecting loops.\<close>

definition collect :: "(core_entry \<Rightarrow> bool) \<Rightarrow> core_registry \<Rightarrow> string list \<Rightarrow> string list" where
  "collect T reg ids = fold (\<lambda>e ids. if T e then add_id FRONTEND_CORE_CANDIDATE_MAX (ce_id e) ids else ids) reg ids"

lemma collect_mono: "set ids \<subseteq> set (collect T reg ids)"
  unfolding collect_def by (rule fold_mono) (use add_id_mono in auto)

lemma collect_ok:
  assumes wf: "wf_registry (cc_registry fe)" and ids: "candidates_ok fe ids"
  shows "candidates_ok fe (collect T (cc_registry fe) ids)"
  unfolding collect_def by (rule fold_keeps) (use add_id_ok(1) [OF wf] ids in auto)

lemma collect_sound: "i \<in> set (collect T reg ids) \<Longrightarrow> wf_registry reg \<Longrightarrow> i \<in> set ids \<or> (\<exists>e \<in> set reg. T e \<and> ce_id e = i)"
proof -
  assume "i \<in> set (collect T reg ids)" and wf: "wf_registry reg"
  moreover have "\<forall>j \<in> set (collect T reg ids). j \<in> set ids \<or> (\<exists>e \<in> set reg. T e \<and> ce_id e = j)"
    unfolding collect_def
  proof (rule fold_keeps)
    fix e s assume e: "e \<in> set reg" and s: "\<forall>j \<in> set s. j \<in> set ids \<or> (\<exists>e \<in> set reg. T e \<and> ce_id e = j)"
    have "snprintf_s UNIFROG_CORE_MODULE_ID_MAX (ce_id e) = ce_id e"
      using wf e by (auto simp: wf_registry_def snprintf_s_def)
    with e s show "\<forall>j \<in> set (if T e then add_id FRONTEND_CORE_CANDIDATE_MAX (ce_id e) s else s).
        j \<in> set ids \<or> (\<exists>e \<in> set reg. T e \<and> ce_id e = j)"
      by (auto simp: add_id_def)
  qed simp
  ultimately show ?thesis by blast
qed

lemma collect_complete:
  assumes wf: "wf_registry (cc_registry fe)" and ids: "candidates_ok fe ids" and e: "e \<in> set (cc_registry fe)" "T e"
  shows "ce_id e \<in> set (collect T (cc_registry fe) ids)"
proof -
  let ?f = "\<lambda>e ids. if T e then add_id FRONTEND_CORE_CANDIDATE_MAX (ce_id e) ids else ids"
  obtain us vs where reg: "cc_registry fe = us @ e # vs" using split_list [OF e(1)] by blast
  have "candidates_ok fe (fold ?f us ids)"
    by (rule fold_keeps) (use add_id_ok(1) [OF wf] ids reg in auto)
  from add_id_ok(2) [OF wf this e(1)] have "ce_id e \<in> set (?f e (fold ?f us ids))" using e(2) by simp
  moreover have "set (?f e (fold ?f us ids)) \<subseteq> set (fold ?f vs (?f e (fold ?f us ids)))"
    by (rule fold_mono) (use add_id_mono in auto)
  ultimately show ?thesis unfolding collect_def reg by (simp only: fold_append fold_simps comp_def) blast
qed

lemma collect_path_eq: "unifrog_core_registry_collect_path reg path FRONTEND_CORE_CANDIDATE_MAX ids =
    collect (\<lambda>e. unifrog_core_registry_entry_supports_path e path) reg ids"
  by (simp add: unifrog_core_registry_collect_path_def collect_def)

lemma collect_all_eq: "unifrog_core_registry_collect_all reg FRONTEND_CORE_CANDIDATE_MAX ids = collect (\<lambda>e. True) reg ids"
  by (simp add: unifrog_core_registry_collect_all_def collect_def)

lemma collect_family_eq: "unifrog_core_registry_collect_family reg i FRONTEND_CORE_CANDIDATE_MAX ids =
    (case unifrog_core_registry_find reg i of None \<Rightarrow> ids
     | Some b \<Rightarrow> collect (\<lambda>e. strcase_eq (ce_extensions b) (ce_extensions e)) reg ids)"
  by (simp add: unifrog_core_registry_collect_family_def collect_def split: option.split)

lemma mapped_core_length:
  assumes "wf_systems (cc_systems fe)" "frontend_rom_system_mapped_core fe n = Some c"
  shows "length c < UNIFROG_CORE_MODULE_ID_MAX" "c \<noteq> []"
proof -
  have tab: "c \<noteq> [] \<and> length c < 32" if c: "unifrog_libretro_policy_system_core (Some n) = Some c" for c
  proof -
    have "list_all (\<lambda>x. snd x \<noteq> [] \<and> length (snd x) < 32) system_cores" by code_simp
    moreover obtain x where "x \<in> set system_cores" "c = snd x"
      using c by (auto simp: unifrog_libretro_policy_system_core_def find_Some_iff split: list.splits)
        (metis nth_mem snd_conv)
    ultimately show ?thesis by (simp add: list_all_iff)
  qed
  show "length c < UNIFROG_CORE_MODULE_ID_MAX" "c \<noteq> []"
  proof (atomize (full), cases "find (\<lambda>(m, c). strcase_eq m n) (cc_systems fe)")
    case None
    then show "length c < UNIFROG_CORE_MODULE_ID_MAX \<and> c \<noteq> []"
      using assms(2) tab by (simp add: frontend_rom_system_mapped_core_def choice_sizes)
  next
    case (Some x)
    then have "x \<in> set (cc_systems fe)" by (metis find_Some_iff nth_mem)
    then show "length c < UNIFROG_CORE_MODULE_ID_MAX \<and> c \<noteq> []"
      using assms Some by (cases x) (auto simp: frontend_rom_system_mapped_core_def wf_systems_def)
  qed
qed


lemma fold_available_ok:
  assumes "candidates_ok fe ids" "\<And>x c. x \<in> set xs \<Longrightarrow> core_of x = Some c \<Longrightarrow> length c < UNIFROG_CORE_MODULE_ID_MAX"
  shows "candidates_ok fe (fold (\<lambda>x ids. case core_of x of None \<Rightarrow> ids | Some c \<Rightarrow> add_available_core_candidate fe c ids) xs ids)"
  by (rule fold_keeps) (use assms add_available_ok in \<open>auto split: option.split\<close>)

text \<open>The list before the archive families are added.\<close>

definition direct_candidates :: "core_choice \<Rightarrow> string \<Rightarrow> string list" where
  "direct_candidates fe path =
     (let ids = add_core_candidates_from_path_dirs fe path [];
          ids = (case frontend_association_for_path (cc_associations fe) (Some path) of None \<Rightarrow> ids
                 | Some a \<Rightarrow> fold (\<lambda>h ids. if is_builtin_handler h then ids else add_available_core_candidate fe h ids)
                              (as_handlers a) ids)
      in collect (\<lambda>e. unifrog_core_registry_entry_supports_path e path) (cc_registry fe) ids)"

definition add_family :: "core_choice \<Rightarrow> string \<Rightarrow> string list \<Rightarrow> string list" where
  "add_family fe i ids = (case unifrog_core_registry_find (cc_registry fe) i of None \<Rightarrow> ids
     | Some b \<Rightarrow> collect (\<lambda>e. strcase_eq (ce_extensions b) (ce_extensions e)) (cc_registry fe) ids)"

lemma collect_core_candidates_eq:
  "collect_core_candidates fe path =
     (if is_zip_file path
      then let ids = fold (add_family fe) (direct_candidates fe path) (direct_candidates fe path)
           in if ids = [] then collect (\<lambda>e. True) (cc_registry fe) [] else ids
      else direct_candidates fe path)"
proof -
  have "add_family fe = (\<lambda>i. unifrog_core_registry_collect_family (cc_registry fe) i FRONTEND_CORE_CANDIDATE_MAX)"
    by (auto simp: fun_eq_iff add_family_def collect_family_eq)
  then show ?thesis
    by (simp add: collect_core_candidates_def direct_candidates_def collect_path_eq collect_all_eq Let_def)
qed

lemma direct_candidates_ok:
  assumes "wf_choice fe"
  shows "candidates_ok fe (direct_candidates fe path)"
    "e \<in> set (cc_registry fe) \<Longrightarrow> unifrog_core_registry_entry_supports_path e path \<Longrightarrow>
       ce_id e \<in> set (direct_candidates fe path)"
proof -
  have wf: "wf_registry (cc_registry fe)" "wf_associations (cc_associations fe)" "wf_systems (cc_systems fe)"
    using assms by (simp_all add: wf_choice_def)
  have dirs: "candidates_ok fe (add_core_candidates_from_path_dirs fe path [])"
    unfolding add_core_candidates_from_path_dirs_def
    by (rule fold_available_ok [OF candidates_Nil]) (use mapped_core_length [OF wf(3)] in blast)
  have handlers: "candidates_ok fe (fold (\<lambda>h ids. if is_builtin_handler h then ids else add_available_core_candidate fe h ids)
      (as_handlers a) ids)"
    if "frontend_association_for_path (cc_associations fe) (Some path) = Some a" "candidates_ok fe ids" for a ids
  proof -
    have "wf_association a"
      using that(1) wf(2) association_for_path_iff [OF wf(2)] by (simp add: wf_associations_def list_all_iff)
    then have short: "h \<in> set (as_handlers a) \<Longrightarrow> length h < UNIFROG_CORE_MODULE_ID_MAX" for h
      by (simp add: wf_association_def)
    show ?thesis
      by (rule fold_keeps [where P = "candidates_ok fe", OF _ that(2)]) (simp add: add_available_ok short)
  qed
  have pre: "candidates_ok fe (case frontend_association_for_path (cc_associations fe) (Some path) of
      None \<Rightarrow> add_core_candidates_from_path_dirs fe path []
    | Some a \<Rightarrow> fold (\<lambda>h ids. if is_builtin_handler h then ids else add_available_core_candidate fe h ids)
        (as_handlers a) (add_core_candidates_from_path_dirs fe path []))"
    using dirs handlers by (simp split: option.split)
  show "candidates_ok fe (direct_candidates fe path)"
    unfolding direct_candidates_def Let_def by (rule collect_ok [OF wf(1) pre])
  show "ce_id e \<in> set (direct_candidates fe path)"
    if "e \<in> set (cc_registry fe)" "unifrog_core_registry_entry_supports_path e path"
    unfolding direct_candidates_def Let_def
    by (rule collect_complete [where T = "\<lambda>e. unifrog_core_registry_entry_supports_path e path", OF wf(1) pre that])
qed

lemma add_family_ok: "wf_registry (cc_registry fe) \<Longrightarrow> candidates_ok fe ids \<Longrightarrow> candidates_ok fe (add_family fe i ids)"
  by (auto simp: add_family_def collect_ok split: option.split)

lemma add_family_mono: "set ids \<subseteq> set (add_family fe i ids)"
  using collect_mono by (auto simp: add_family_def split: option.split)

lemma candidates_ok_all:
  assumes "wf_choice fe"
  shows "candidates_ok fe (collect_core_candidates fe path)"
proof -
  have wf: "wf_registry (cc_registry fe)" using assms by (simp add: wf_choice_def)
  have "candidates_ok fe (fold (add_family fe) xs (direct_candidates fe path))" for xs
    by (rule fold_keeps) (use add_family_ok [OF wf] direct_candidates_ok(1) [OF assms] in auto)
  then show ?thesis
    using direct_candidates_ok(1) [OF assms] collect_ok [OF wf candidates_Nil]
    by (simp add: collect_core_candidates_eq Let_def)
qed

lemma candidates_mono: "set (direct_candidates fe path) \<subseteq> set (collect_core_candidates fe path)"
proof -
  have "set ids \<subseteq> set (fold (add_family fe) xs ids)" for xs ids by (rule fold_mono) (rule add_family_mono)
  from this [of "direct_candidates fe path" "direct_candidates fe path"] show ?thesis
    by (auto simp: collect_core_candidates_eq Let_def)
qed

text \<open>Two cores of a family are candidates for an archive together.\<close>

definition same_family :: "core_choice \<Rightarrow> string \<Rightarrow> string \<Rightarrow> bool" where
  "same_family fe i j \<longleftrightarrow> (\<exists>b \<in> set (cc_registry fe). \<exists>e \<in> set (cc_registry fe).
     ce_id b = i \<and> ce_id e = j \<and> strcase_eq (ce_extensions b) (ce_extensions e))"

lemma registered_unique: "wf_registry reg \<Longrightarrow> b \<in> set reg \<Longrightarrow> e \<in> set reg \<Longrightarrow> ce_id b = ce_id e \<Longrightarrow> b = e"
  by (auto simp: wf_registry_def distinct_map inj_on_def)

lemma add_family_iff:
  assumes wf: "wf_registry (cc_registry fe)" and ids: "candidates_ok fe ids"
  shows "j \<in> set (add_family fe i ids) \<longleftrightarrow> j \<in> set ids \<or> same_family fe i j"
proof (cases "unifrog_core_registry_find (cc_registry fe) i")
  case None
  moreover from None have "i \<notin> ce_id ` set (cc_registry fe)" by (simp only: registry_find_None not_False_eq_True)
  ultimately show ?thesis by (auto simp: add_family_def same_family_def)
next
  case (Some b)
  let ?T = "\<lambda>e. strcase_eq (ce_extensions b) (ce_extensions e)"
  from Some have b: "b \<in> set (cc_registry fe)" "ce_id b = i" using registry_find_Some [OF wf] by simp_all
  have "same_family fe i j \<longleftrightarrow> (\<exists>e \<in> set (cc_registry fe). strcase_eq (ce_extensions b) (ce_extensions e) \<and> ce_id e = j)"
  proof
    assume "same_family fe i j"
    then obtain c e where c: "c \<in> set (cc_registry fe)" "e \<in> set (cc_registry fe)" "ce_id c = i" "ce_id e = j"
      "strcase_eq (ce_extensions c) (ce_extensions e)" unfolding same_family_def by blast
    then have "c = b" using registered_unique [OF wf c(1) b(1)] b(2) by simp
    with c show "\<exists>e \<in> set (cc_registry fe). ?T e \<and> ce_id e = j" by blast
  next
    assume "\<exists>e \<in> set (cc_registry fe). ?T e \<and> ce_id e = j"
    with b show "same_family fe i j" unfolding same_family_def by blast
  qed
  moreover have "add_family fe i ids = collect ?T (cc_registry fe) ids" using Some by (simp add: add_family_def)
  moreover have "j \<in> set (collect ?T (cc_registry fe) ids) \<longleftrightarrow>
      j \<in> set ids \<or> (\<exists>e \<in> set (cc_registry fe). ?T e \<and> ce_id e = j)"
    using collect_sound [OF _ wf, of j ?T ids] collect_mono [of ids ?T "cc_registry fe"]
      collect_complete [where T = ?T, OF wf ids] by blast
  ultimately show ?thesis by simp
qed

lemma fold_family_iff:
  assumes wf: "wf_registry (cc_registry fe)" and ids: "candidates_ok fe ids"
  shows "j \<in> set (fold (add_family fe) xs ids) \<longleftrightarrow> j \<in> set ids \<or> (\<exists>i \<in> set xs. same_family fe i j)"
  using ids
proof (induction xs arbitrary: ids)
  case (Cons x xs)
  show ?case
    using Cons.IH [OF add_family_ok [OF wf Cons.prems]] add_family_iff [OF wf Cons.prems] by auto
qed simp

lemma same_family_trans: "wf_registry (cc_registry fe) \<Longrightarrow> same_family fe i j \<Longrightarrow> same_family fe j k \<Longrightarrow> same_family fe i k"
proof -
  assume wf: "wf_registry (cc_registry fe)" and ij: "same_family fe i j" and jk: "same_family fe j k"
  from ij obtain b e where b: "b \<in> set (cc_registry fe)" "e \<in> set (cc_registry fe)" "ce_id b = i" "ce_id e = j"
    "strcase_eq (ce_extensions b) (ce_extensions e)" unfolding same_family_def by blast
  from jk obtain c d where c: "c \<in> set (cc_registry fe)" "d \<in> set (cc_registry fe)" "ce_id c = j" "ce_id d = k"
    "strcase_eq (ce_extensions c) (ce_extensions d)" unfolding same_family_def by blast
  have "c = e" using registered_unique [OF wf c(1) b(2)] b(4) c(3) by simp
  with b c have "strcase_eq (ce_extensions b) (ce_extensions d)" using strcase_eq_trans by blast
  with b c show ?thesis unfolding same_family_def by blast
qed

lemma zip_families:
  assumes "wf_choice fe" "is_zip_file path" "i \<in> set (collect_core_candidates fe path)" "same_family fe i j"
  shows "j \<in> set (collect_core_candidates fe path)"
proof -
  have wf: "wf_registry (cc_registry fe)" using assms(1) by (simp add: wf_choice_def)
  let ?d = "direct_candidates fe path"
  note F = fold_family_iff [OF wf direct_candidates_ok(1) [OF assms(1), of path], of _ ?d]
  show ?thesis
  proof (cases "fold (add_family fe) ?d ?d = []")
    case True
    obtain e where "e \<in> set (cc_registry fe)" "ce_id e = j" using assms(4) by (auto simp: same_family_def)
    then show ?thesis using True assms(2) collect_complete [where T = "\<lambda>e. True", OF wf candidates_Nil]
      by (auto simp: collect_core_candidates_eq)
  next
    case False
    then have eq: "set (collect_core_candidates fe path) = set (fold (add_family fe) ?d ?d)"
      using assms(2) by (simp add: collect_core_candidates_eq Let_def)
    show ?thesis using assms(3,4) same_family_trans [OF wf] unfolding eq F by blast
  qed
qed

lemma zip_has_candidate:
  assumes "wf_choice fe" "is_zip_file path" "cc_registry fe \<noteq> []"
  shows "collect_core_candidates fe path \<noteq> []"
proof -
  have wf: "wf_registry (cc_registry fe)" using assms(1) by (simp add: wf_choice_def)
  have "collect (\<lambda>e. True) (cc_registry fe) [] \<noteq> []"
    using assms(3) collect_complete [where T = "\<lambda>e. True", OF wf candidates_Nil, of "hd (cc_registry fe)"] by auto
  then show ?thesis using assms(2) by (simp add: collect_core_candidates_eq Let_def)
qed

lemma extension_loop_iff:
  "ext \<noteq> [] \<Longrightarrow> extension_loop ext cursor \<longleftrightarrow> (\<exists>alt \<in> set (split_on (CHR ''|'') cursor). strcase_eq ext alt)"
proof (induction ext cursor rule: extension_loop.induct)
  case (1 ext cursor)
  let ?piece = "takeWhile (\<lambda>c. c \<noteq> CHR ''|'') cursor" and ?rest = "dropWhile (\<lambda>c. c \<noteq> CHR ''|'') cursor"
  have none: "\<not> strcase_eq ext []" using "1.prems" by (simp add: strcase_eq_def)
  have hit: "length ext = length ?piece \<and> strcase_eq ext ?piece \<longleftrightarrow> strcase_eq ext ?piece"
    using strcase_eq_length by blast
  define alts where "alts = set (split_on (CHR ''|'') cursor)"
  have sp: "alts = insert ?piece (if ?rest = [] then {} else set (split_on (CHR ''|'') (tl ?rest)))"
    unfolding alts_def by (subst split_on_takeWhile, cases "dropWhile (\<lambda>c. c \<noteq> CHR ''|'') cursor")
      (simp_all del: dropWhile_eq_Nil_conv)
  consider "cursor = []" | "cursor \<noteq> []" "strcase_eq ext ?piece" | "cursor \<noteq> []" "\<not> strcase_eq ext ?piece" "?rest = []"
    | "cursor \<noteq> []" "\<not> strcase_eq ext ?piece" "?rest \<noteq> []" by blast
  then have "extension_loop ext cursor \<longleftrightarrow> (\<exists>alt \<in> alts. strcase_eq ext alt)"
  proof cases
    case 1
    then show ?thesis using none by (simp add: extension_loop.simps [of ext "[]"] alts_def)
  next
    case 4
    then have "extension_loop ext cursor = extension_loop ext (tl ?rest)"
      unfolding extension_loop.simps [of ext cursor] Let_def hit by auto
    also have "\<dots> \<longleftrightarrow> (\<exists>alt \<in> set (split_on (CHR ''|'') (tl ?rest)). strcase_eq ext alt)"
      using 4 hit "1.prems" by (intro "1.IH") auto
    finally show ?thesis unfolding sp using 4(2,3) by auto
  qed (unfold sp extension_loop.simps [of ext cursor] Let_def hit, auto)
  then show ?case by (simp add: alts_def)
qed


subsection \<open>Running the frontend\<close>

text \<open>
  The operations that change the choice: the scan of the card, loading both configuration files, an
  entry of a system directory, setting the default handler of a file and moving a system to another core.
  The handler that is set has at most 31 characters: the rows of the list ``Open with'', from which it is
  taken, hold a handler of an association or a candidate (buffers of 32 characters) or the name of a media
  route.
\<close>

definition choice_start :: core_choice where
  "choice_start = \<lparr>cc_registry = [], cc_associations = [], cc_systems = []\<rparr>"

inductive choice_step :: "core_choice \<Rightarrow> core_choice \<Rightarrow> bool" where
  cs_scan: "choice_step fe (fe\<lparr>cc_registry := snd (unifrog_core_registry_scan opendir open_file root)\<rparr>)"
| cs_load: "choice_step fe (fe\<lparr>cc_associations := fst (frontend_associations_load fs)\<rparr>)"
| cs_system: "choice_step fe (load_rom_system value fe)"
| cs_default: "length handler < UNIFROG_CORE_MODULE_ID_MAX \<Longrightarrow>
    choice_step fe (fe\<lparr>cc_associations := snd (frontend_association_set_default save (cc_associations fe) path handler)\<rparr>)"
| cs_cycle: "choice_step fe (frontend_cycle_rom_system_core name dir fe)"

definition choice_reached :: "core_choice \<Rightarrow> bool" where
  "choice_reached = choice_step\<^sup>*\<^sup>* choice_start"

definition system_ok :: "string \<times> string \<Rightarrow> bool" where
  "system_ok x \<longleftrightarrow> fst x \<noteq> [] \<and> length (fst x) < ROM_SYSTEM_NAME_MAX \<and> snd x \<noteq> [] \<and>
     length (snd x) < UNIFROG_CORE_MODULE_ID_MAX"

lemma wf_systems_iff: "wf_systems ss \<longleftrightarrow> length ss \<le> FRONTEND_ROM_SYSTEM_MAP_MAX \<and> (\<forall>x \<in> set ss. system_ok x) \<and>
    distinct (map (map to_lower) (filter (\<lambda>n. length n + 1 < ROM_SYSTEM_NAME_MAX) (map fst ss)))"
  by (simp add: wf_systems_def system_ok_def case_prod_beta')

lemma wf_systems_put:
  assumes "wf_systems ss" "c \<noteq> []" "length c < UNIFROG_CORE_MODULE_ID_MAX" "i < length ss"
  shows "wf_systems (ss[i := (fst (ss ! i), c)])"
proof -
  have "system_ok (ss ! i)" using assms(1) nth_mem [OF assms(4)] unfolding wf_systems_iff by blast
  then have "system_ok (fst (ss ! i), c)" using assms(2,3) by (simp add: system_ok_def)
  moreover have "map fst (ss[i := (fst (ss ! i), c)]) = map fst ss" using assms(4) by (simp add: map_update list_update_same_conv)
  ultimately show ?thesis
    using assms(1) set_update_subset_insert [of ss i "(fst (ss ! i), c)"] unfolding wf_systems_iff by auto
qed

lemma wf_systems_snoc:
  assumes "wf_systems ss" "n \<noteq> []" "length n < ROM_SYSTEM_NAME_MAX" "c \<noteq> []" "length c < UNIFROG_CORE_MODULE_ID_MAX"
    "length ss < FRONTEND_ROM_SYSTEM_MAP_MAX" "length n + 1 < ROM_SYSTEM_NAME_MAX \<Longrightarrow> \<forall>x \<in> set ss. \<not> strcase_eq (fst x) n"
  shows "wf_systems (ss @ [(n, c)])"
proof -
  have "map to_lower n \<notin> map to_lower ` {m \<in> fst ` set ss. length m + 1 < ROM_SYSTEM_NAME_MAX}"
    if "length n + 1 < ROM_SYSTEM_NAME_MAX"
    using assms(7) [OF that] by (fastforce simp: strcase_eq_def)
  with assms(1-6) show ?thesis by (auto simp: wf_systems_iff system_ok_def)
qed

lemma core_copy:
  assumes "c \<noteq> []"
  shows "text_copy UNIFROG_CORE_MODULE_ID_MAX c \<noteq> []" "length (text_copy UNIFROG_CORE_MODULE_ID_MAX c) < UNIFROG_CORE_MODULE_ID_MAX"
  using assms by (simp_all add: text_copy_nonempty text_copy_shorter choice_sizes)

lemma name_copy:
  assumes "n \<noteq> []"
  shows "text_copy ROM_SYSTEM_NAME_MAX n \<noteq> []" "length (text_copy ROM_SYSTEM_NAME_MAX n) < ROM_SYSTEM_NAME_MAX"
  using assms by (simp_all add: text_copy_nonempty text_copy_shorter choice_sizes)

text \<open>Both operations store a core for a system: in its slot, or in a new one while there is room.\<close>

definition put_system :: "string \<Rightarrow> string \<Rightarrow> core_choice \<Rightarrow> core_choice" where
  "put_system name core fe =
     (case find (\<lambda>i. strcase_eq (fst (cc_systems fe ! i)) name) [0..<length (cc_systems fe)] of
        Some i \<Rightarrow> fe\<lparr>cc_systems := (cc_systems fe)[i := (fst (cc_systems fe ! i), text_copy UNIFROG_CORE_MODULE_ID_MAX core)]\<rparr>
      | None \<Rightarrow>
          if length (cc_systems fe) \<ge> FRONTEND_ROM_SYSTEM_MAP_MAX then fe
          else fe\<lparr>cc_systems := cc_systems fe @ [(text_copy ROM_SYSTEM_NAME_MAX name, text_copy UNIFROG_CORE_MODULE_ID_MAX core)]\<rparr>)"

lemma wf_put_system:
  assumes "wf_choice fe" "name \<noteq> []" "core \<noteq> []"
  shows "wf_choice (put_system name core fe)"
proof -
  have s: "wf_systems (cc_systems fe)" using assms(1) by (simp add: wf_choice_def)
  show ?thesis
  proof (cases "find (\<lambda>i. strcase_eq (fst (cc_systems fe ! i)) name) [0..<length (cc_systems fe)]")
    case (Some i)
    then have "i < length (cc_systems fe)" by (auto simp: find_Some_iff)
    with Some show ?thesis
      using assms(1) wf_systems_put [OF s core_copy [OF assms(3)]] by (simp add: put_system_def wf_choice_def)
  next
    case None
    have new: "\<not> strcase_eq (fst x) (text_copy ROM_SYSTEM_NAME_MAX name)"
      if "length (text_copy ROM_SYSTEM_NAME_MAX name) + 1 < ROM_SYSTEM_NAME_MAX" "x \<in> set (cc_systems fe)" for x
    proof -
      have "text_copy ROM_SYSTEM_NAME_MAX name = name" using that(1) by (auto simp: text_copy_eq choice_sizes)
      with None that(2) show ?thesis by (auto simp: find_None_iff in_set_conv_nth)
    qed
    with None show ?thesis
      using assms(1) wf_systems_snoc [OF s name_copy [OF assms(2)] core_copy [OF assms(3)]]
      by (simp add: put_system_def wf_choice_def)
  qed
qed

lemma load_rom_system_cases:
  "load_rom_system value fe = fe \<or> (\<exists>name core. name \<noteq> [] \<and> core \<noteq> [] \<and> load_rom_system value fe = put_system name core fe)"
proof -
  let ?put = "\<lambda>name core. case find (\<lambda>i. strcase_eq (fst (cc_systems fe ! i)) name) [0..<length (cc_systems fe)] of
        Some j \<Rightarrow> fe\<lparr>cc_systems := (cc_systems fe)[j := (fst (cc_systems fe ! j), text_copy UNIFROG_CORE_MODULE_ID_MAX core)]\<rparr>
      | None \<Rightarrow> if length (cc_systems fe) \<ge> FRONTEND_ROM_SYSTEM_MAP_MAX then fe
          else if text_copy ROM_SYSTEM_NAME_MAX name \<noteq> [] \<and> text_copy UNIFROG_CORE_MODULE_ID_MAX core \<noteq> []
          then fe\<lparr>cc_systems := cc_systems fe @ [(text_copy ROM_SYSTEM_NAME_MAX name, text_copy UNIFROG_CORE_MODULE_ID_MAX core)]\<rparr>
          else fe"
  have put: "?put name core = put_system name core fe" if "name \<noteq> []" "core \<noteq> []" for name core
    using core_copy(1) [OF that(2)] name_copy(1) [OF that(1)] by (simp add: put_system_def split: option.split)
  show ?thesis
  proof (cases "case str_chr (text_copy 96 value) (CHR '':'') of None \<Rightarrow> str_chr (text_copy 96 value) (CHR ''='') | Some i \<Rightarrow> Some i")
    case None
    then show ?thesis unfolding load_rom_system_def Let_def by simp
  next
    case (Some i)
    let ?name = "frontend_trim_ascii (take i (text_copy 96 value))" and ?core = "frontend_trim_ascii (drop (Suc i) (text_copy 96 value))"
    have "load_rom_system value fe = (if ?name = [] \<or> ?core = [] then fe else ?put ?name ?core)"
      unfolding load_rom_system_def Let_def Some option.case ..
    then show ?thesis using put [of ?name ?core] by (cases "?name = [] \<or> ?core = []") auto
  qed
qed

lemma wf_load_rom_system: "wf_choice fe \<Longrightarrow> wf_choice (load_rom_system value fe)"
  using load_rom_system_cases [of "value" fe] wf_put_system by metis

lemma other_candidates_ok:
  assumes "wf_choice fe"
  shows "candidates_ok fe (collect_other_core_candidates fe)"
proof -
  have wf: "wf_registry (cc_registry fe)" "wf_associations (cc_associations fe)" using assms by (simp_all add: wf_choice_def)
  let ?all = "collect (\<lambda>e. True) (cc_registry fe) []"
  have all: "candidates_ok fe ?all" by (rule collect_ok [OF wf(1) candidates_Nil])
  have "candidates_ok fe (fold (\<lambda>a. fold (\<lambda>h ids. if is_builtin_handler h then ids else add_core_candidate (Some h) ids)
      (as_handlers a)) (cc_associations fe) [])" if "?all = []"
  proof (rule fold_keeps [where P = "candidates_ok fe", OF fold_keeps [where P = "candidates_ok fe"] candidates_Nil])
    have reg: "cc_registry fe = []"
      using that collect_complete [where T = "\<lambda>e. True", OF wf(1) candidates_Nil, of "hd (cc_registry fe)"]
      by (cases "cc_registry fe") auto
    fix a ids h s assume "a \<in> set (cc_associations fe)" "h \<in> set (as_handlers a)" "candidates_ok fe s"
    moreover from this have "length h < UNIFROG_CORE_MODULE_ID_MAX"
      using wf(2) by (auto simp: wf_associations_def wf_association_def list_all_iff)
    ultimately show "candidates_ok fe (if is_builtin_handler h then s else add_core_candidate (Some h) s)"
      using add_core_candidate_ok [of fe s h] reg by simp
  qed
  then show ?thesis using all by (simp add: collect_other_core_candidates_def collect_all_eq Let_def)
qed

lemma system_choices_ok:
  assumes "wf_choice fe"
  shows "candidates_ok fe (rom_system_core_choices fe)"
  using other_candidates_ok [OF assms] collect_ok [OF _ candidates_Nil, of fe] assms
  by (simp add: rom_system_core_choices_def collect_all_eq Let_def wf_choice_def)

text \<open>The position that a step from a position leads to, around the end of a list.\<close>

definition cycled :: "int \<Rightarrow> nat \<Rightarrow> nat \<Rightarrow> nat" where
  "cycled dir n i = (if dir < 0 then (if i = 0 then n - 1 else i - 1) else (i + 1) mod n)"

lemma cycle_eq:
  assumes "name \<noteq> []" "rom_system_core_choices fe = ids" "ids \<noteq> []"
  shows "frontend_cycle_rom_system_core name dir fe =
    put_system name (ids ! cycled dir (length ids)
      (case find (\<lambda>i. frontend_rom_system_mapped_core fe name = Some (ids ! i)) [0..<length ids] of None \<Rightarrow> 0 | Some i \<Rightarrow> i)) fe"
  using assms unfolding frontend_cycle_rom_system_core_def put_system_def cycled_def Let_def
  by (simp cong: option.case_cong if_cong)

lemma wf_cycle:
  assumes "wf_choice fe"
  shows "wf_choice (frontend_cycle_rom_system_core name dir fe)"
proof (cases "name = [] \<or> rom_system_core_choices fe = []")
  case True
  then have "frontend_cycle_rom_system_core name dir fe = fe"
    unfolding frontend_cycle_rom_system_core_def Let_def by auto
  with assms show ?thesis by simp
next
  case False
  let ?ids = "rom_system_core_choices fe"
  have "cycled dir (length ?ids) i < length ?ids" if "i < length ?ids" for i
    using that mod_less_divisor [OF order_le_less_trans [OF le0 that], of "Suc i"] by (auto simp: cycled_def)
  moreover have "(case find (\<lambda>i. frontend_rom_system_mapped_core fe name = Some (?ids ! i)) [0..<length ?ids] of None \<Rightarrow> 0 | Some i \<Rightarrow> i) < length ?ids"
    using False by (auto simp: find_Some_iff split: option.split)
  ultimately have "?ids ! cycled dir (length ?ids) (case find (\<lambda>i. frontend_rom_system_mapped_core fe name = Some (?ids ! i)) [0..<length ?ids] of
      None \<Rightarrow> 0 | Some i \<Rightarrow> i) \<in> set ?ids" by simp
  then have "?ids ! cycled dir (length ?ids) (case find (\<lambda>i. frontend_rom_system_mapped_core fe name = Some (?ids ! i)) [0..<length ?ids] of
      None \<Rightarrow> 0 | Some i \<Rightarrow> i) \<noteq> []"
    using system_choices_ok [OF assms] by (auto simp: candidates_ok_def candidate_ok_def list_all_iff)
  then show ?thesis using False wf_put_system [OF assms] cycle_eq [OF _ refl, of name fe dir] by simp
qed

lemma wf_set_default:
  assumes "wf_associations as" "length handler < UNIFROG_CORE_MODULE_ID_MAX"
  shows "wf_associations (snd (frontend_association_set_default save as path handler))"
proof (cases "snd (frontend_association_set_default save as path handler) = as")
  case False
  let ?key = "case frontend_association_for_path as path of None \<Rightarrow> path_extension_name path | Some a \<Rightarrow> as_extension a"
  have c: "path_extension_name path \<noteq> []" "handler \<noteq> []" "association_add as ?key \<noteq> None"
    using False unfolding frontend_association_set_default_def Let_def by (auto split: if_splits option.splits)
  then obtain i as1 where add: "association_add as ?key = Some (i, as1)" by (metis not_None_eq surj_pair)
  have "path = None \<or> (\<exists>p. path = Some p)" by (cases path) auto
  then have key: "?key \<noteq> []"
    using c(1) association_for_path_iff [OF assms(1)] assms(1)
    by (auto simp: path_extension_name_def wf_associations_def list_all_iff wf_association_def split: option.split)
  note w = wf_association_add [OF assms(1) add key]
  have "wf_associations (as1[i := with_default handler (as1 ! i)])"
    by (intro wf_association_update w wf_with_default wf_nth c(2) assms(2)) (simp add: with_default_def)
  then show ?thesis using set_default_eq [OF assms(1) c(2) assms(2) c(1) add w] by simp
qed (use assms in simp)

lemma choice_step_wf: "choice_step fe fe' \<Longrightarrow> wf_choice fe \<Longrightarrow> wf_choice fe'"
proof (induction rule: choice_step.induct)
  case (cs_scan fe opendir open_file root)
  then show ?case using wf_registry_scan by (simp add: wf_choice_def)
next
  case (cs_load fe fs)
  then show ?case using wf_associations_load by (simp add: wf_choice_def)
next
  case (cs_default handler fe save path)
  then show ?case using wf_set_default by (simp add: wf_choice_def)
qed (use wf_load_rom_system wf_cycle in blast)+

lemma choice_reached_wf: "choice_reached fe \<Longrightarrow> wf_choice fe"
  unfolding choice_reached_def
proof (induction rule: rtranclp_induct)
  case base
  show ?case by (simp add: choice_start_def wf_choice_def wf_registry_def wf_associations_def wf_systems_def)
qed (rule choice_step_wf)


lemma supports_path_if:
  assumes "path = stem @ CHR ''.'' # ext" "CHR ''.'' \<notin> set ext" "ext \<noteq> []"
    "alt \<in> set (split_on (CHR ''|'') (ce_extensions e))" "strcase_eq ext alt"
  shows "unifrog_core_registry_entry_supports_path e path"
proof -
  have "ce_extensions e \<noteq> []" using assms(3-5) by (auto simp: strcase_eq_def)
  then show ?thesis
    using assms extension_loop_iff [OF assms(3)]
    by (auto simp: unifrog_core_registry_entry_supports_path_def str_rchr_append Let_def)
qed

section \<open>A small card\<close>

definition demo_core :: "string \<Rightarrow> string \<Rightarrow> bytes" where
  "demo_core i exts = concat (map put32 [UNIFROG_CORE_MODULE_MAGIC, 244, 1, 0x12345678, 0x500, 1, 0x81000000, 0x810000f8,
      0x81000100, 0x810000f8, 0x81000100, 0x810000f4, 0x81000000]) @
     map of_char i @ replicate (32 - length i) 0 @ map of_char exts @ replicate (128 - length exts) 0 @ replicate 32 0 @ [1, 2, 3, 4]"

definition demo_open :: "string \<Rightarrow> cfile option" where
  "demo_open p = (if p = ''/c/snes.bin'' then Some \<lparr>fbytes = demo_core ''snes'' ''smc|sfc'', fpos = 0, ffaults = []\<rparr>
     else if p = ''/c/SNES2.BIN'' then Some \<lparr>fbytes = demo_core ''snes2'' ''SMC|SFC'', fpos = 0, ffaults = []\<rparr> else None)"

definition demo_choice :: core_choice where
  "demo_choice = choice_start\<lparr>cc_registry := snd (unifrog_core_registry_scan
     (\<lambda>d. Some [''.'', ''snes.bin'', ''notes.txt'', ''SNES2.BIN'']) demo_open ''/c'')\<rparr>"

lemma demo_reached: "choice_reached demo_choice"
  unfolding choice_reached_def demo_choice_def by (rule r_into_rtranclp) (rule cs_scan)

lemma demo_core_facts:
  "length (demo_core ''snes'' ''smc|sfc'') = 248" "length (demo_core ''snes2'' ''SMC|SFC'') = 248"
  "unifrog_core_module_header_layout_valid (Some (header_of_bytes (take HEADER_BYTES (demo_core ''snes'' ''smc|sfc''))))"
  "unifrog_core_module_header_layout_valid (Some (header_of_bytes (take HEADER_BYTES (demo_core ''snes2'' ''SMC|SFC''))))"
  "byte_str (mh_core_id (header_of_bytes (take HEADER_BYTES (demo_core ''snes'' ''smc|sfc'')))) = ''snes''"
  "byte_str (mh_core_id (header_of_bytes (take HEADER_BYTES (demo_core ''snes2'' ''SMC|SFC'')))) = ''snes2''"
  "byte_str (mh_extensions (header_of_bytes (take HEADER_BYTES (demo_core ''snes'' ''smc|sfc'')))) = ''smc|sfc''"
  "byte_str (mh_extensions (header_of_bytes (take HEADER_BYTES (demo_core ''snes2'' ''SMC|SFC'')))) = ''SMC|SFC''"
  by code_simp+

lemma demo_core_sizes:
  "unat (mh_file_end_addr (header_of_bytes (take HEADER_BYTES (demo_core ''snes'' ''smc|sfc''))) -
     mh_load_addr (header_of_bytes (take HEADER_BYTES (demo_core ''snes'' ''smc|sfc'')))) = 248"
  "unat (mh_file_end_addr (header_of_bytes (take HEADER_BYTES (demo_core ''snes2'' ''SMC|SFC''))) -
     mh_load_addr (header_of_bytes (take HEADER_BYTES (demo_core ''snes2'' ''SMC|SFC'')))) = 248"
  by code_simp+

lemma read_header_of:
  assumes "open_file p = Some \<lparr>fbytes = b, fpos = 0, ffaults = []\<rparr>" "p \<noteq> []" "length b = 248"
    "unifrog_core_module_header_layout_valid (Some (header_of_bytes (take HEADER_BYTES b)))"
    "unat (mh_file_end_addr (header_of_bytes (take HEADER_BYTES b)) - mh_load_addr (header_of_bytes (take HEADER_BYTES b))) = 248"
  shows "unifrog_core_registry_read_header open_file p = Some (header_of_bytes (take HEADER_BYTES b))"
  using assms by (simp add: unifrog_core_registry_read_header_def unifrog_core_registry_header_valid_def f_read_def io_fault_def
      f_seek_end_def f_tell_def HEADER_BYTES_def LONG_MAX_def)

lemma demo_read:
  "unifrog_core_registry_read_header demo_open ''/c/snes.bin'' = Some (header_of_bytes (take HEADER_BYTES (demo_core ''snes'' ''smc|sfc'')))"
  "unifrog_core_registry_read_header demo_open ''/c/SNES2.BIN'' = Some (header_of_bytes (take HEADER_BYTES (demo_core ''snes2'' ''SMC|SFC'')))"
  by (rule read_header_of; simp add: demo_open_def demo_core_facts demo_core_sizes)+

lemma demo_names:
  "ends_with_ci ''snes.bin'' ''.bin''" "ends_with_ci ''SNES2.BIN'' ''.bin''" "\<not> ends_with_ci ''notes.txt'' ''.bin''"
  by code_simp+

lemma demo_registry: "map (\<lambda>e. (ce_id e, ce_extensions e)) (cc_registry demo_choice) = [(''snes'', ''smc|sfc''), (''snes2'', ''SMC|SFC'')]"
  by (simp add: demo_choice_def unifrog_core_registry_scan_def scan_root_def core_registry_path_join_def choice_sizes Let_def
      demo_names demo_read registry_has_id_def demo_core_facts)

lemma demo_associations: "cc_associations demo_choice = []"
  by (simp add: demo_choice_def choice_start_def)

section \<open>Properties\<close>


text \<open>
  C37.  The cores offered for a file are distinct, fit their buffers and, when any core is installed,
  are installed ones; every installed core that declares the extension of the file (up to case) is offered.  For an
  archive, with a core also every core of the same family is offered, and some core is offered
  when any is installed.
\<close>

theorem core_candidates_complete:
  assumes "choice_reached fe"
  shows "let ids = collect_core_candidates fe path in
    distinct ids \<and> length ids \<le> FRONTEND_CORE_CANDIDATE_MAX \<and>
    (\<forall>i \<in> set ids. i \<noteq> [] \<and> length i < UNIFROG_CORE_MODULE_ID_MAX \<and>
       (cc_registry fe \<noteq> [] \<longrightarrow> i \<in> ce_id ` set (cc_registry fe))) \<and>
    (\<forall>stem ext. path = stem @ CHR ''.'' # ext \<and> CHR ''.'' \<notin> set ext \<and> ext \<noteq> [] \<longrightarrow>
       (\<forall>e \<in> set (cc_registry fe). \<forall>alt \<in> set (split_on (CHR ''|'') (ce_extensions e)).
          strcase_eq ext alt \<longrightarrow> ce_id e \<in> set ids)) \<and>
    (is_zip_file path \<longrightarrow>
       (\<forall>b \<in> set (cc_registry fe). \<forall>e \<in> set (cc_registry fe).
          ce_id b \<in> set ids \<and> strcase_eq (ce_extensions b) (ce_extensions e) \<longrightarrow> ce_id e \<in> set ids) \<and>
       (cc_registry fe \<noteq> [] \<longrightarrow> ids \<noteq> []))"
  unfolding Let_def
proof (intro conjI allI impI ballI)
  note wf = choice_reached_wf [OF assms]
  note ok = candidates_ok_all [OF wf, of path]
  show "distinct (collect_core_candidates fe path)" "length (collect_core_candidates fe path) \<le> FRONTEND_CORE_CANDIDATE_MAX"
    using ok by (simp_all add: candidates_ok_def)
  show "i \<noteq> []" "length i < UNIFROG_CORE_MODULE_ID_MAX" "cc_registry fe \<noteq> [] \<Longrightarrow> i \<in> ce_id ` set (cc_registry fe)"
    if "i \<in> set (collect_core_candidates fe path)" for i
    using that ok by (auto simp: candidates_ok_def candidate_ok_def list_all_iff)
  show "ce_id e \<in> set (collect_core_candidates fe path)"
    if p: "path = stem @ CHR ''.'' # ext \<and> CHR ''.'' \<notin> set ext \<and> ext \<noteq> []" and e: "e \<in> set (cc_registry fe)"
      and alt: "alt \<in> set (split_on (CHR ''|'') (ce_extensions e))" "strcase_eq ext alt" for stem ext e alt
    using direct_candidates_ok(2) [OF wf e supports_path_if [OF _ _ _ alt]] p candidates_mono by blast
  show "ce_id e \<in> set (collect_core_candidates fe path)"
    if "is_zip_file path" "b \<in> set (cc_registry fe)" "e \<in> set (cc_registry fe)"
      "ce_id b \<in> set (collect_core_candidates fe path) \<and> strcase_eq (ce_extensions b) (ce_extensions e)" for b e
    using zip_families [OF wf that(1)] that(2-4) by (auto simp: same_family_def)
  show "collect_core_candidates fe path \<noteq> []" if "is_zip_file path" "cc_registry fe \<noteq> []"
    using zip_has_candidate [OF wf that] .
qed

text \<open>
  C38.  Setting the handler of a file is remembered: as long as the extension has an entry or there is
  room for one, the handler becomes the default of the association that the file has afterwards, is
  among its handlers and is what opens the file, unless a core handles its directory; the associations of files with
  another entry are as before.
\<close>

theorem association_default_remembered:
  assumes "choice_reached fe" "path_extension_name (Some p) \<noteq> []" "h \<noteq> []" "length h < UNIFROG_CORE_MODULE_ID_MAX"
    "frontend_association_for_path (cc_associations fe) (Some p) \<noteq> None \<or>
       length (path_extension_name (Some p)) < ASSOCIATION_EXTENSION_MAX \<and>
       length (cc_associations fe) < FRONTEND_ASSOCIATION_MAX"
    "frontend_association_set_default save (cc_associations fe) (Some p) h = (r, as)"
  shows "\<exists>a. r = save as \<and> frontend_association_for_path as (Some p) = Some a \<and> as_default a = h \<and> h \<in> set (as_handlers a) \<and>
    (is_builtin_handler h \<or> core_from_path_dirs fe p = None \<longrightarrow> default_handler_for_path (fe\<lparr>cc_associations := as\<rparr>) p = h) \<and>
    (\<forall>q. frontend_association_for_path as (Some q) \<noteq> Some a \<longrightarrow>
       frontend_association_for_path as (Some q) = frontend_association_for_path (cc_associations fe) (Some q))"
proof -
  have wf: "wf_associations (cc_associations fe)" using choice_reached_wf [OF assms(1)] by (simp add: wf_choice_def)
  obtain a where a: "r = save as" "frontend_association_for_path as (Some p) = Some a"
    "as_default a = h" "h \<in> set (as_handlers a)"
    "\<And>q. frontend_association_for_path as (Some q) \<noteq> Some a \<Longrightarrow>
       frontend_association_for_path as (Some q) = frontend_association_for_path (cc_associations fe) (Some q)"
    using set_default_lookup [OF wf assms(2-6)] by metis
  have "frontend_rom_system_mapped_core (fe\<lparr>cc_associations := as\<rparr>) = frontend_rom_system_mapped_core fe"
    by (simp add: fun_eq_iff frontend_rom_system_mapped_core_def)
  then have "core_from_path_dirs (fe\<lparr>cc_associations := as\<rparr>) p = core_from_path_dirs fe p"
    by (simp only: core_from_path_dirs_def)
  then have "is_builtin_handler h \<or> core_from_path_dirs fe p = None \<longrightarrow> default_handler_for_path (fe\<lparr>cc_associations := as\<rparr>) p = h"
    using a(2,3) assms(3) by (simp add: default_handler_for_path_def Let_def split: option.split)
  with a show ?thesis by (intro exI [of _ a] conjI allI impI) simp_all
qed


theorem core_candidates_complete_witness:
  "{''snes'', ''snes2''} \<subseteq> set (collect_core_candidates demo_choice ''/ROMS/Game.Sfc'') \<and>
   collect_core_candidates demo_choice ''/ROMS/any.zip'' \<noteq> []"
proof -
  have ids: "ce_id ` set (cc_registry demo_choice) = {''snes'', ''snes2''}"
    using arg_cong [OF demo_registry, of "\<lambda>l. set (map fst l)"] by (simp add: comp_def)
  have ext: "ce_extensions e \<in> {''smc|sfc'', ''SMC|SFC''}" if "e \<in> set (cc_registry demo_choice)" for e
    using arg_cong [OF demo_registry, of "\<lambda>l. set (map snd l)"] imageI [OF that, of ce_extensions] by (simp add: comp_def)
  have "list_all (\<lambda>x. list_ex (strcase_eq ''Sfc'') (split_on (CHR ''|'') x)) [''smc|sfc'', ''SMC|SFC'']" by code_simp
  then have hit: "\<exists>alt \<in> set (split_on (CHR ''|'') x). strcase_eq ''Sfc'' alt" if "x \<in> {''smc|sfc'', ''SMC|SFC''}" for x
    using that by (auto simp: list_ex_iff)
  have path: "''/ROMS/Game.Sfc'' = ''/ROMS/Game'' @ CHR ''.'' # ''Sfc'' \<and> CHR ''.'' \<notin> set ''Sfc'' \<and> ''Sfc'' \<noteq> []" by simp
  have "ce_id e \<in> set (collect_core_candidates demo_choice ''/ROMS/Game.Sfc'')" if "e \<in> set (cc_registry demo_choice)" for e
    using core_candidates_complete [OF demo_reached, of "''/ROMS/Game.Sfc''"] path that hit [OF ext [OF that]]
    unfolding Let_def by blast
  then have "ce_id ` set (cc_registry demo_choice) \<subseteq> set (collect_core_candidates demo_choice ''/ROMS/Game.Sfc'')" by blast
  moreover have zip: "is_zip_file ''/ROMS/any.zip''" by code_simp
  moreover have reg: "cc_registry demo_choice \<noteq> []" using demo_registry by auto
  note all = core_candidates_complete [OF demo_reached, of "''/ROMS/any.zip''", unfolded Let_def]
  have "collect_core_candidates demo_choice ''/ROMS/any.zip'' \<noteq> []"
    by (rule mp [OF conjunct2 [OF mp [OF conjunct2 [OF conjunct2 [OF conjunct2 [OF conjunct2 [OF all]]]] zip]] reg])
  ultimately show ?thesis unfolding ids by simp
qed

theorem association_default_remembered_witness:
  "\<exists>a. frontend_association_for_path (snd (frontend_association_set_default (\<lambda>as. 0) (cc_associations demo_choice)
      (Some ''/books/a.b.TXT'') ''reader'')) (Some ''/books/a.b.TXT'') = Some a \<and> as_default a = ''reader'' \<and> ''reader'' \<in> set (as_handlers a)"
proof -
  have "path_extension_name (Some ''/books/a.b.TXT'') = ''TXT''" by code_simp
  then show ?thesis
    using association_default_remembered [where fe = demo_choice and save = "\<lambda>as. 0" and h = "''reader''" and p = "''/books/a.b.TXT''",
      OF demo_reached _ _ _ _ surjective_pairing]
    by (auto simp: demo_associations choice_sizes)
qed


section \<open>Where the code falls short\<close>

text \<open>Blanks before a comma stay in the name of a handler.\<close>

lemma handler_keeps_blank:
  "as_handlers (association_parse_handlers ''snes , gba'' \<lparr>as_extension = ''zip'', as_handlers = [], as_default = []\<rparr>) = [''snes '', ''gba'']"
  by code_simp

text \<open>
  A system directory with a name of 32 or more characters, such as ``Super Nintendo Entertainment
  System'', is stored with a shorter name: choosing a core for it does not change its core, and every
  choice takes another entry of the table.
\<close>

lemma long_system_never_mapped:
  fixes dir :: int
  assumes "wf_choice fe" "name \<noteq> []" "length name \<ge> ROM_SYSTEM_NAME_MAX" "rom_system_core_choices fe \<noteq> []"
    "length (cc_systems fe) < FRONTEND_ROM_SYSTEM_MAP_MAX"
  defines "fe' \<equiv> frontend_cycle_rom_system_core name dir fe"
  shows "frontend_rom_system_mapped_core fe' name = frontend_rom_system_mapped_core fe name"
    "length (cc_systems fe') = Suc (length (cc_systems fe))"
proof -
  have short: "length (fst x) < ROM_SYSTEM_NAME_MAX" if "x \<in> set (cc_systems fe)" for x
    using assms(1) that by (simp add: wf_choice_def wf_systems_iff system_ok_def)
  have no: "\<not> strcase_eq n name" if "length n < ROM_SYSTEM_NAME_MAX" for n
    using strcase_eq_length [of n name] that assms(3) by auto
  have none: "find (\<lambda>i. strcase_eq (fst (cc_systems fe ! i)) name) [0..<length (cc_systems fe)] = None"
    using short no by (auto simp: find_None_iff)
  obtain core where eq: "fe' = put_system name core fe"
    unfolding fe'_def cycle_eq [OF assms(2) refl assms(4)] by blast
  have fe': "fe' = fe\<lparr>cc_systems := cc_systems fe @ [(text_copy ROM_SYSTEM_NAME_MAX name, text_copy UNIFROG_CORE_MODULE_ID_MAX core)]\<rparr>"
    unfolding eq put_system_def none using assms(5) by simp
  show "length (cc_systems fe') = Suc (length (cc_systems fe))" by (simp add: fe')
  have "find (\<lambda>(n, c). strcase_eq n name) (cc_systems fe) = None"
    using short no by (fastforce simp: find_None_iff)
  moreover have "find (\<lambda>(n, c). strcase_eq n name) (cc_systems fe') = None"
    using short no [OF name_copy(2) [OF assms(2)]] no by (fastforce simp: find_None_iff fe')
  ultimately show "frontend_rom_system_mapped_core fe' name = frontend_rom_system_mapped_core fe name"
    by (simp add: frontend_rom_system_mapped_core_def)
qed

end
