(* ===== verification/UF_Scoped.thy ===== *)
theory UF_Scoped
  imports UF_Clock UF_Policy
begin

text \<open>
  Settings for one core or one game (\<open>components/frontend/src/app/frontend_config.c\<close>): the sections
  \<open>[core.ID]\<close> and \<open>[rom.PATH]\<close> of the configuration file, and the options a game is started with.

  Of \<open>struct unifrog_libretro_run_options\<close> the model has the fields that a section can set; they are the
  fields of \<open>struct unifrog_frontend_scoped_options\<close>.  The theory also has \<open>strtol\<close> and \<open>strtoul\<close> with the
  32-bit \<open>long\<close> of the target.
\<close>

section \<open>Numbers\<close>

definition INT_MAX :: int where "INT_MAX = 2147483647"
definition INT_MIN :: int where "INT_MIN = -2147483648"

text \<open>
  The sign, the digits and what follows them; nothing is consumed when there are no digits.
\<close>

definition scan_number :: "string \<Rightarrow> bool \<times> string \<times> string" where
  "scan_number s =
     (let s1 = dropWhile (\<lambda>c. c \<in> {CHR '' '', TAB, LF, CR, CHR 0x0B, CHR 0x0C}) s;
          (neg, s2) = (if s1 \<noteq> [] \<and> hd s1 = CHR ''-'' then (True, tl s1)
                       else if s1 \<noteq> [] \<and> hd s1 = CHR ''+'' then (False, tl s1) else (False, s1));
          ds = takeWhile is_digit s2
      in if ds = [] then (False, [], s) else (neg, ds, dropWhile is_digit s2))"

text \<open>\<open>strtol\<close> and \<open>strtoul\<close> in base 10: the value, whether \<open>errno\<close> is \<open>ERANGE\<close>, and the rest.\<close>

definition c_strtol :: "string \<Rightarrow> int \<times> bool \<times> string" where
  "c_strtol s =
     (case scan_number s of (neg, ds, after) \<Rightarrow>
        let v = (if neg then - int (digits_value ds) else int (digits_value ds))
        in if v < INT_MIN then (INT_MIN, True, after)
           else if v > INT_MAX then (INT_MAX, True, after) else (v, False, after))"

definition c_strtoul :: "string \<Rightarrow> u32 \<times> bool \<times> string" where
  "c_strtoul s =
     (case scan_number s of (neg, ds, after) \<Rightarrow>
        let n = digits_value ds
        in if n \<ge> 2 ^ 32 then (0xFFFFFFFF, True, after)
           else (if neg then - word_of_nat n else word_of_nat n, False, after))"

section \<open>Sections\<close>

definition UNIFROG_FRONTEND_SCOPED_CONFIG_MAX :: nat where "UNIFROG_FRONTEND_SCOPED_CONFIG_MAX = 56"
definition UNIFROG_FRONTEND_CONFIG_TARGET_MAX :: nat where "UNIFROG_FRONTEND_CONFIG_TARGET_MAX = 256"
definition RUN_CORE_ID_MAX :: nat where "RUN_CORE_ID_MAX = 24"

datatype config_scope = UNIFROG_FRONTEND_CONFIG_CORE | UNIFROG_FRONTEND_CONFIG_ROM

definition SCOPED_CORE :: u32 where "SCOPED_CORE = 1"
definition SCOPED_AUDIO :: u32 where "SCOPED_AUDIO = 2"
definition SCOPED_GAIN :: u32 where "SCOPED_GAIN = 4"
definition SCOPED_CPU :: u32 where "SCOPED_CPU = 8"
definition SCOPED_GE_CLOCK :: u32 where "SCOPED_GE_CLOCK = 16"
definition SCOPED_BACKLIGHT :: u32 where "SCOPED_BACKLIGHT = 32"
definition SCOPED_FRAMESKIP :: u32 where "SCOPED_FRAMESKIP = 64"
definition SCOPED_DISPLAY :: u32 where "SCOPED_DISPLAY = 128"
definition SCOPED_FRAMEBUFFER :: u32 where "SCOPED_FRAMEBUFFER = 256"
definition SCOPED_KEYMAP :: u32 where "SCOPED_KEYMAP = 512"
definition SCOPED_STATE_SLOT :: u32 where "SCOPED_STATE_SLOT = 1024"
definition SCOPED_STATE_AUTO_LOAD :: u32 where "SCOPED_STATE_AUTO_LOAD = 2048"
definition SCOPED_STATE_AUTO_SAVE :: u32 where "SCOPED_STATE_AUTO_SAVE = 4096"
definition SCOPED_RTC_OFFSET :: u32 where "SCOPED_RTC_OFFSET = 8192"

text \<open>The numeric fields; the unsigned ones hold no negative numbers.\<close>

record scoped_options =
  audio_enabled :: int
  audio_gain :: int
  scpu_mhz :: int
  ge_clock :: int
  backlight_level :: int
  frameskip :: int
  display_mode :: int
  framebuffer_format :: int
  input_profile :: int
  state_auto_load :: int
  state_auto_save :: int
  rtc_offset_minutes :: int
  state_slot :: int
  core_id :: string

record scoped_config =
  sc_scope :: config_scope
  sc_target :: string
  sc_options :: scoped_options
  sc_mask :: u32

record frontend_config =
  fc_entries :: "scoped_config list"
  fc_overflowed :: bool

definition zero_options :: scoped_options where
  "zero_options = \<lparr>audio_enabled = 0, audio_gain = 0, scpu_mhz = 0, ge_clock = 0, backlight_level = 0, frameskip = 0,
     display_mode = 0, framebuffer_format = 0, input_profile = 0, state_auto_load = 0, state_auto_save = 0,
     rtc_offset_minutes = 0, state_slot = 0, core_id = []\<rparr>"

definition parse_int :: "string \<Rightarrow> int \<Rightarrow> int \<Rightarrow> int option" where
  "parse_int txt minimum maximum =
     (if txt = [] then None
      else case c_strtol txt of (v, erange, after) \<Rightarrow>
        if erange \<or> after \<noteq> [] \<or> v < minimum \<or> v > maximum then None else Some v)"

text \<open>The field is given by its update.\<close>

type_synonym field_put = "int \<Rightarrow> scoped_options \<Rightarrow> scoped_options"

definition set_int_option :: "string \<Rightarrow> field_put \<Rightarrow> u32 \<Rightarrow> int \<Rightarrow> int \<Rightarrow> scoped_config \<Rightarrow> scoped_config" where
  "set_int_option value put flag minimum maximum e =
     (case parse_int value minimum maximum of None \<Rightarrow> e
      | Some parsed \<Rightarrow> e\<lparr>sc_options := put parsed (sc_options e), sc_mask := sc_mask e OR flag\<rparr>)"

definition set_unsigned_option :: "string \<Rightarrow> field_put \<Rightarrow> u32 \<Rightarrow> int \<Rightarrow> scoped_config \<Rightarrow> scoped_config" where
  "set_unsigned_option value put flag maximum e =
     (if maximum \<le> INT_MAX
      then (case parse_int value 0 maximum of None \<Rightarrow> e
            | Some parsed \<Rightarrow> e\<lparr>sc_options := put parsed (sc_options e), sc_mask := sc_mask e OR flag\<rparr>)
      else e)"

text \<open>The index of the entry, as the pointer to it.\<close>

definition find_or_add :: "config_scope \<Rightarrow> string \<Rightarrow> frontend_config \<Rightarrow> nat option \<times> frontend_config" where
  "find_or_add scope target config =
     (case find (\<lambda>i. sc_scope (fc_entries config ! i) = scope \<and> sc_target (fc_entries config ! i) = target)
             [0..<length (fc_entries config)] of
        Some i \<Rightarrow> (Some i, config)
      | None \<Rightarrow>
          if length (fc_entries config) \<ge> UNIFROG_FRONTEND_SCOPED_CONFIG_MAX then (None, config\<lparr>fc_overflowed := True\<rparr>)
          else (Some (length (fc_entries config)),
                config\<lparr>fc_entries := fc_entries config @
                  [\<lparr>sc_scope = scope, sc_target = snprintf_s UNIFROG_FRONTEND_CONFIG_TARGET_MAX target,
                    sc_options = zero_options, sc_mask = 0\<rparr>]\<rparr>))"

definition set_key :: "config_scope \<Rightarrow> string \<Rightarrow> string \<Rightarrow> scoped_config \<Rightarrow> scoped_config" where
  "set_key scope key value e =
     (if key = ''core'' \<and> scope = UNIFROG_FRONTEND_CONFIG_ROM
      then e\<lparr>sc_options := (sc_options e)\<lparr>core_id := snprintf_s RUN_CORE_ID_MAX value\<rparr>, sc_mask := sc_mask e OR SCOPED_CORE\<rparr>
      else if key = ''audio'' then set_int_option value (\<lambda>v s. s\<lparr>audio_enabled := v\<rparr>) SCOPED_AUDIO 0 1 e
      else if key = ''gain'' then set_unsigned_option value (\<lambda>v s. s\<lparr>audio_gain := v\<rparr>) SCOPED_GAIN 4 e
      else if key = ''cpu''
      then (case parse_int value 0 INT_MAX of None \<Rightarrow> e
            | Some parsed \<Rightarrow>
                if unifrog_libretro_policy_cpu_valid (of_int parsed)
                then e\<lparr>sc_options := (sc_options e)\<lparr>scpu_mhz := parsed\<rparr>, sc_mask := sc_mask e OR SCOPED_CPU\<rparr> else e)
      else if key = ''ge_clock'' then set_int_option value (\<lambda>v s. s\<lparr>ge_clock := v\<rparr>) SCOPED_GE_CLOCK (-1) 3 e
      else if key = ''backlight'' then set_int_option value (\<lambda>v s. s\<lparr>backlight_level := v\<rparr>) SCOPED_BACKLIGHT (-1) 100 e
      else if key = ''frameskip'' then set_int_option value (\<lambda>v s. s\<lparr>frameskip := v\<rparr>) SCOPED_FRAMESKIP 0 3 e
      else if key = ''display'' then set_int_option value (\<lambda>v s. s\<lparr>display_mode := v\<rparr>) SCOPED_DISPLAY 0 2 e
      else if key = ''framebuffer'' then set_int_option value (\<lambda>v s. s\<lparr>framebuffer_format := v\<rparr>) SCOPED_FRAMEBUFFER 0 1 e
      else if key = ''keymap'' then set_int_option value (\<lambda>v s. s\<lparr>input_profile := v\<rparr>) SCOPED_KEYMAP 0 4 e
      else if key = ''state_slot'' then set_unsigned_option value (\<lambda>v s. s\<lparr>state_slot := v\<rparr>) SCOPED_STATE_SLOT 9 e
      else if key = ''state_auto_load'' then set_int_option value (\<lambda>v s. s\<lparr>state_auto_load := v\<rparr>) SCOPED_STATE_AUTO_LOAD 0 1 e
      else if key = ''state_auto_save'' then set_int_option value (\<lambda>v s. s\<lparr>state_auto_save := v\<rparr>) SCOPED_STATE_AUTO_SAVE 0 1 e
      else if key = ''rtc_offset_minutes''
      then set_int_option value (\<lambda>v s. s\<lparr>rtc_offset_minutes := v\<rparr>) SCOPED_RTC_OFFSET (-5270400) 5270400 e
      else e)"

definition section_scope :: "string \<Rightarrow> (config_scope \<times> string) option" where
  "section_scope sec =
     (if take 5 sec = ''core.'' then Some (UNIFROG_FRONTEND_CONFIG_CORE, drop 5 sec)
      else if take 4 sec = ''rom.'' then Some (UNIFROG_FRONTEND_CONFIG_ROM, drop 4 sec)
      else None)"

definition unifrog_frontend_config_parse_entry ::
  "frontend_config \<Rightarrow> string \<Rightarrow> string \<Rightarrow> string \<Rightarrow> int \<times> frontend_config"
where
  "unifrog_frontend_config_parse_entry config sec key value =
     (case section_scope sec of None \<Rightarrow> (0, config)
      | Some (scope, target) \<Rightarrow>
          if target = [] then (0, config)
          else case find_or_add scope target config of
            (None, config) \<Rightarrow> (0, config)
          | (Some i, config) \<Rightarrow>
              (0, config\<lparr>fc_entries := (fc_entries config)[i := set_key scope key value (fc_entries config ! i)]\<rparr>))"

definition config_entry :: "frontend_config config_cb" where
  "config_entry config sec key value line_number =
     (case unifrog_frontend_config_parse_entry config sec key value of (r, config) \<Rightarrow> (config, r))"

definition unifrog_frontend_config_init :: frontend_config where
  "unifrog_frontend_config_init = \<lparr>fc_entries = [], fc_overflowed = False\<rparr>"

definition unifrog_frontend_config_load :: "string option \<Rightarrow> fsys \<Rightarrow> (int \<times> frontend_config \<times> nat) \<times> fsys" where
  "unifrog_frontend_config_load path fs =
     unifrog_config_read fs path (Some config_entry) unifrog_frontend_config_init"

section \<open>The options of a game\<close>

text \<open>\<open>if (c) s.field = value\<close>.\<close>

definition assign :: "bool \<Rightarrow> (scoped_options \<Rightarrow> scoped_options) \<Rightarrow> scoped_options \<Rightarrow> scoped_options" where
  "assign c f s = (if c then f s else s)"

text \<open>The assignments one after the other.\<close>

definition apply_entry :: "scoped_config \<Rightarrow> bool \<Rightarrow> scoped_options \<Rightarrow> scoped_options" where
  "apply_entry entry include_core options =
     (let v = sc_options entry; m = sc_mask entry
      in fold (\<lambda>step. step)
        [assign (include_core \<and> m AND SCOPED_CORE \<noteq> 0) (\<lambda>s. s\<lparr>core_id := snprintf_s RUN_CORE_ID_MAX (core_id v)\<rparr>),
         assign (m AND SCOPED_AUDIO \<noteq> 0) (\<lambda>s. s\<lparr>audio_enabled := audio_enabled v\<rparr>),
         assign (m AND SCOPED_GAIN \<noteq> 0) (\<lambda>s. s\<lparr>audio_gain := audio_gain v\<rparr>),
         assign (m AND SCOPED_CPU \<noteq> 0) (\<lambda>s. s\<lparr>scpu_mhz := scpu_mhz v\<rparr>),
         assign (m AND SCOPED_GE_CLOCK \<noteq> 0) (\<lambda>s. s\<lparr>ge_clock := ge_clock v\<rparr>),
         assign (m AND SCOPED_BACKLIGHT \<noteq> 0) (\<lambda>s. s\<lparr>backlight_level := backlight_level v\<rparr>),
         assign (m AND SCOPED_FRAMESKIP \<noteq> 0) (\<lambda>s. s\<lparr>frameskip := frameskip v\<rparr>),
         assign (m AND SCOPED_DISPLAY \<noteq> 0) (\<lambda>s. s\<lparr>display_mode := display_mode v\<rparr>),
         assign (m AND SCOPED_FRAMEBUFFER \<noteq> 0) (\<lambda>s. s\<lparr>framebuffer_format := framebuffer_format v\<rparr>),
         assign (m AND SCOPED_KEYMAP \<noteq> 0) (\<lambda>s. s\<lparr>input_profile := input_profile v\<rparr>),
         assign (m AND SCOPED_STATE_SLOT \<noteq> 0) (\<lambda>s. s\<lparr>state_slot := state_slot v\<rparr>),
         assign (m AND SCOPED_STATE_AUTO_LOAD \<noteq> 0) (\<lambda>s. s\<lparr>state_auto_load := state_auto_load v\<rparr>),
         assign (m AND SCOPED_STATE_AUTO_SAVE \<noteq> 0) (\<lambda>s. s\<lparr>state_auto_save := state_auto_save v\<rparr>),
         assign (m AND SCOPED_RTC_OFFSET \<noteq> 0) (\<lambda>s. s\<lparr>rtc_offset_minutes := rtc_offset_minutes v\<rparr>)] options)"

definition unifrog_frontend_config_apply ::
  "frontend_config \<Rightarrow> string \<Rightarrow> string option \<Rightarrow> scoped_options \<Rightarrow> scoped_options"
where
  "unifrog_frontend_config_apply config initial_core path options =
     (let options = options\<lparr>core_id := snprintf_s RUN_CORE_ID_MAX initial_core\<rparr>;
          options = (case path of None \<Rightarrow> options | Some p \<Rightarrow>
            fold (\<lambda>e os. if sc_scope e = UNIFROG_FRONTEND_CONFIG_ROM \<and> sc_target e = p \<and> sc_mask e AND SCOPED_CORE \<noteq> 0
                         then os\<lparr>core_id := snprintf_s RUN_CORE_ID_MAX (core_id (sc_options e))\<rparr> else os)
              (fc_entries config) options);
          options = fold (\<lambda>e os. if core_id os \<noteq> [] \<and> sc_scope e = UNIFROG_FRONTEND_CONFIG_CORE \<and> sc_target e = core_id os
                                 then apply_entry e False os else os)
              (fc_entries config) options
      in case path of None \<Rightarrow> options | Some p \<Rightarrow>
           fold (\<lambda>e os. if sc_scope e = UNIFROG_FRONTEND_CONFIG_ROM \<and> sc_target e = p then apply_entry e True os else os)
             (fc_entries config) options)"


section \<open>What the sections mean\<close>

text \<open>The options by name, with the key, the field, the flag and the values that are accepted.\<close>

datatype opt = AUDIO | GAIN | CPU | GE_CLOCK | BACKLIGHT | FRAMESKIP | DISPLAY | FRAMEBUFFER | KEYMAP | STATE_SLOT
  | STATE_AUTO_LOAD | STATE_AUTO_SAVE | RTC_OFFSET

fun opt_key :: "opt \<Rightarrow> string" where
  "opt_key AUDIO = ''audio''" | "opt_key GAIN = ''gain''" | "opt_key CPU = ''cpu''" | "opt_key GE_CLOCK = ''ge_clock''"
| "opt_key BACKLIGHT = ''backlight''" | "opt_key FRAMESKIP = ''frameskip''" | "opt_key DISPLAY = ''display''"
| "opt_key FRAMEBUFFER = ''framebuffer''" | "opt_key KEYMAP = ''keymap''" | "opt_key STATE_SLOT = ''state_slot''"
| "opt_key STATE_AUTO_LOAD = ''state_auto_load''" | "opt_key STATE_AUTO_SAVE = ''state_auto_save''"
| "opt_key RTC_OFFSET = ''rtc_offset_minutes''"

fun opt_get :: "opt \<Rightarrow> scoped_options \<Rightarrow> int" where
  "opt_get AUDIO s = audio_enabled s" | "opt_get GAIN s = audio_gain s" | "opt_get CPU s = scpu_mhz s"
| "opt_get GE_CLOCK s = ge_clock s" | "opt_get BACKLIGHT s = backlight_level s" | "opt_get FRAMESKIP s = frameskip s"
| "opt_get DISPLAY s = display_mode s" | "opt_get FRAMEBUFFER s = framebuffer_format s" | "opt_get KEYMAP s = input_profile s"
| "opt_get STATE_SLOT s = state_slot s" | "opt_get STATE_AUTO_LOAD s = state_auto_load s"
| "opt_get STATE_AUTO_SAVE s = state_auto_save s" | "opt_get RTC_OFFSET s = rtc_offset_minutes s"

fun opt_flag :: "opt \<Rightarrow> u32" where
  "opt_flag AUDIO = SCOPED_AUDIO" | "opt_flag GAIN = SCOPED_GAIN" | "opt_flag CPU = SCOPED_CPU"
| "opt_flag GE_CLOCK = SCOPED_GE_CLOCK" | "opt_flag BACKLIGHT = SCOPED_BACKLIGHT" | "opt_flag FRAMESKIP = SCOPED_FRAMESKIP"
| "opt_flag DISPLAY = SCOPED_DISPLAY" | "opt_flag FRAMEBUFFER = SCOPED_FRAMEBUFFER" | "opt_flag KEYMAP = SCOPED_KEYMAP"
| "opt_flag STATE_SLOT = SCOPED_STATE_SLOT" | "opt_flag STATE_AUTO_LOAD = SCOPED_STATE_AUTO_LOAD"
| "opt_flag STATE_AUTO_SAVE = SCOPED_STATE_AUTO_SAVE" | "opt_flag RTC_OFFSET = SCOPED_RTC_OFFSET"

fun opt_range :: "opt \<Rightarrow> int \<times> int" where
  "opt_range AUDIO = (0, 1)" | "opt_range GAIN = (0, 4)" | "opt_range CPU = (0, INT_MAX)" | "opt_range GE_CLOCK = (-1, 3)"
| "opt_range BACKLIGHT = (-1, 100)" | "opt_range FRAMESKIP = (0, 3)" | "opt_range DISPLAY = (0, 2)"
| "opt_range FRAMEBUFFER = (0, 1)" | "opt_range KEYMAP = (0, 4)" | "opt_range STATE_SLOT = (0, 9)"
| "opt_range STATE_AUTO_LOAD = (0, 1)" | "opt_range STATE_AUTO_SAVE = (0, 1)" | "opt_range RTC_OFFSET = (-5270400, 5270400)"

definition opt_value :: "opt \<Rightarrow> string \<Rightarrow> int option" where
  "opt_value p txt = (case parse_int txt (fst (opt_range p)) (snd (opt_range p)) of None \<Rightarrow> None
     | Some v \<Rightarrow> if p = CPU \<and> \<not> unifrog_libretro_policy_cpu_valid (of_int v) then None else Some v)"

text \<open>
  The last value that a file, as a list of entries, gives an option in the sections of a scope and a
  target, and the last core.
\<close>

fun last_given :: "('e \<Rightarrow> 'a option) \<Rightarrow> 'e list \<Rightarrow> 'a option" where
  "last_given f [] = None"
| "last_given f (e # es) = (case last_given f es of Some v \<Rightarrow> Some v | None \<Rightarrow> f e)"

definition value_in :: "config_scope \<Rightarrow> string \<Rightarrow> opt \<Rightarrow> string \<times> string \<times> string \<Rightarrow> int option" where
  "value_in scope target p = (\<lambda>(sec, key, v). if section_scope sec = Some (scope, target) \<and> key = opt_key p then opt_value p v else None)"

definition core_in :: "string \<Rightarrow> string \<times> string \<times> string \<Rightarrow> string option" where
  "core_in target = (\<lambda>(sec, key, v). if section_scope sec = Some (UNIFROG_FRONTEND_CONFIG_ROM, target) \<and> key = ''core''
     then Some (snprintf_s RUN_CORE_ID_MAX v) else None)"

lemma last_given_snoc: "last_given f (es @ [e]) = (case f e of Some v \<Rightarrow> Some v | None \<Rightarrow> last_given f es)"
  by (induction es) (auto split: option.splits)

text \<open>What an entry of the table holds.\<close>

definition held :: "opt \<Rightarrow> scoped_config \<Rightarrow> int option" where
  "held p e = (if sc_mask e AND opt_flag p \<noteq> 0 then Some (opt_get p (sc_options e)) else None)"

definition held_core :: "scoped_config \<Rightarrow> string option" where
  "held_core e = (if sc_mask e AND SCOPED_CORE \<noteq> 0 then Some (core_id (sc_options e)) else None)"

lemmas scoped_flags = SCOPED_CORE_def SCOPED_AUDIO_def SCOPED_GAIN_def SCOPED_CPU_def SCOPED_GE_CLOCK_def SCOPED_BACKLIGHT_def
  SCOPED_FRAMESKIP_def SCOPED_DISPLAY_def SCOPED_FRAMEBUFFER_def SCOPED_KEYMAP_def SCOPED_STATE_SLOT_def
  SCOPED_STATE_AUTO_LOAD_def SCOPED_STATE_AUTO_SAVE_def SCOPED_RTC_OFFSET_def

fun opt_bit :: "opt \<Rightarrow> nat" where
  "opt_bit AUDIO = 1" | "opt_bit GAIN = 2" | "opt_bit CPU = 3" | "opt_bit GE_CLOCK = 4" | "opt_bit BACKLIGHT = 5"
| "opt_bit FRAMESKIP = 6" | "opt_bit DISPLAY = 7" | "opt_bit FRAMEBUFFER = 8" | "opt_bit KEYMAP = 9" | "opt_bit STATE_SLOT = 10"
| "opt_bit STATE_AUTO_LOAD = 11" | "opt_bit STATE_AUTO_SAVE = 12" | "opt_bit RTC_OFFSET = 13"

lemma opt_flag_bit: "opt_flag p = push_bit (opt_bit p) 1"
  by (cases p) (simp_all add: scoped_flags push_bit_eq_mult)

lemma opt_bit_range: "0 < opt_bit p" "opt_bit p < 32"
  by (cases p; simp)+

lemma opt_bit_inj: "opt_bit p = opt_bit q \<longleftrightarrow> p = q"
  by (cases p; cases q; simp)

lemma and_flag_iff: "n < 32 \<Longrightarrow> (m :: u32) AND push_bit n 1 \<noteq> 0 \<longleftrightarrow> bit m n"
  by (simp only: bit_iff_and_push_bit_not_eq_0)

fun opt_put :: "opt \<Rightarrow> int \<Rightarrow> scoped_options \<Rightarrow> scoped_options" where
  "opt_put AUDIO v s = s\<lparr>audio_enabled := v\<rparr>" | "opt_put GAIN v s = s\<lparr>audio_gain := v\<rparr>" | "opt_put CPU v s = s\<lparr>scpu_mhz := v\<rparr>"
| "opt_put GE_CLOCK v s = s\<lparr>ge_clock := v\<rparr>" | "opt_put BACKLIGHT v s = s\<lparr>backlight_level := v\<rparr>"
| "opt_put FRAMESKIP v s = s\<lparr>frameskip := v\<rparr>" | "opt_put DISPLAY v s = s\<lparr>display_mode := v\<rparr>"
| "opt_put FRAMEBUFFER v s = s\<lparr>framebuffer_format := v\<rparr>" | "opt_put KEYMAP v s = s\<lparr>input_profile := v\<rparr>"
| "opt_put STATE_SLOT v s = s\<lparr>state_slot := v\<rparr>" | "opt_put STATE_AUTO_LOAD v s = s\<lparr>state_auto_load := v\<rparr>"
| "opt_put STATE_AUTO_SAVE v s = s\<lparr>state_auto_save := v\<rparr>" | "opt_put RTC_OFFSET v s = s\<lparr>rtc_offset_minutes := v\<rparr>"

lemma opt_get_put: "opt_get p (opt_put q v s) = (if p = q then v else opt_get p s)"
  by (cases q; cases p; simp)

lemma core_id_put: "core_id (opt_put q v s) = core_id s"
  by (cases q) simp_all

lemma opt_get_core: "opt_get p (s\<lparr>core_id := c\<rparr>) = opt_get p s"
  by (cases p) simp_all

lemma opt_key_inj: "opt_key p = opt_key q \<longleftrightarrow> p = q"
  by (cases p; cases q; simp)

lemma opt_key_core: "opt_key p \<noteq> ''core''"
  by (cases p) simp_all

lemma set_key_opt:
  "set_key scope (opt_key p) value e = (case opt_value p value of None \<Rightarrow> e
     | Some v \<Rightarrow> e\<lparr>sc_options := opt_put p v (sc_options e), sc_mask := sc_mask e OR opt_flag p\<rparr>)"
  by (cases p) (simp_all add: set_key_def set_int_option_def set_unsigned_option_def opt_value_def INT_MAX_def split: option.split)

lemma set_key_other:
  assumes "\<And>p. key \<noteq> opt_key p"
  shows "set_key scope key value e = (if key = ''core'' \<and> scope = UNIFROG_FRONTEND_CONFIG_ROM
    then e\<lparr>sc_options := (sc_options e)\<lparr>core_id := snprintf_s RUN_CORE_ID_MAX value\<rparr>, sc_mask := sc_mask e OR SCOPED_CORE\<rparr> else e)"
proof -
  have "key \<notin> opt_key ` {AUDIO, GAIN, CPU, GE_CLOCK, BACKLIGHT, FRAMESKIP, DISPLAY, FRAMEBUFFER, KEYMAP, STATE_SLOT,
      STATE_AUTO_LOAD, STATE_AUTO_SAVE, RTC_OFFSET}" using assms by blast
  then show ?thesis by (simp add: set_key_def)
qed

lemma SCOPED_CORE_flag: "SCOPED_CORE = push_bit 0 1"
  by (simp add: SCOPED_CORE_def)

lemma mask_or: "n < 32 \<Longrightarrow> k < 32 \<Longrightarrow> (m OR push_bit k 1 :: u32) AND push_bit n 1 \<noteq> 0 \<longleftrightarrow> m AND push_bit n 1 \<noteq> 0 \<or> n = k"
  by (simp only: and_flag_iff) (auto simp: bit_or_iff bit_exp_iff)

lemma held_set_key:
  "held p (set_key scope key value e) = (case if key = opt_key p then opt_value p value else None of Some v \<Rightarrow> Some v | None \<Rightarrow> held p e)"
proof (cases "\<exists>q. key = opt_key q")
  case True
  then obtain q where q: "key = opt_key q" ..
  show ?thesis
    unfolding q set_key_opt held_def opt_flag_bit
    using mask_or [OF opt_bit_range(2) [of p] opt_bit_range(2) [of q], of "sc_mask e"]
    by (auto simp: opt_key_inj opt_get_put opt_bit_inj split: option.split)
next
  case False
  then have other: "\<And>q. key \<noteq> opt_key q" by blast
  show ?thesis
    unfolding set_key_other [OF other] held_def opt_flag_bit SCOPED_CORE_flag
    using mask_or [OF opt_bit_range(2) [of p], of 0 "sc_mask e"] opt_bit_range(1) [of p] other
    by (auto simp: opt_get_core)
qed

lemma held_core_set_key:
  "held_core (set_key scope key value e) = (if key = ''core'' \<and> scope = UNIFROG_FRONTEND_CONFIG_ROM
     then Some (snprintf_s RUN_CORE_ID_MAX value) else held_core e)"
proof (cases "\<exists>q. key = opt_key q")
  case True
  then obtain q where q: "key = opt_key q" ..
  show ?thesis
    unfolding q set_key_opt held_core_def SCOPED_CORE_flag opt_flag_bit
    using mask_or [OF _ opt_bit_range(2) [of q], of 0 "sc_mask e"] opt_bit_range(1) [of q]
    by (auto simp: opt_key_core core_id_put split: option.split)
next
  case False
  then have other: "\<And>q. key \<noteq> opt_key q" by blast
  show ?thesis
    unfolding set_key_other [OF other] held_core_def SCOPED_CORE_flag
    using mask_or [of 0 0 "sc_mask e"] by auto
qed

lemma set_key_target [simp]: "sc_scope (set_key scope key value e) = sc_scope e" "sc_target (set_key scope key value e) = sc_target e"
proof (atomize (full), cases "\<exists>q. key = opt_key q")
  case True
  then obtain q where q: "key = opt_key q" ..
  show "sc_scope (set_key scope key value e) = sc_scope e \<and> sc_target (set_key scope key value e) = sc_target e"
    unfolding q set_key_opt by (simp split: option.split)
next
  case False
  then have other: "\<And>q. key \<noteq> opt_key q" by blast
  show "sc_scope (set_key scope key value e) = sc_scope e \<and> sc_target (set_key scope key value e) = sc_target e"
    unfolding set_key_other [OF other] by simp
qed

lemma assign_keep:
  "(\<And>s. audio_enabled (f s) = audio_enabled s) \<Longrightarrow> audio_enabled (assign c f s) = audio_enabled s"
  "(\<And>s. audio_gain (f s) = audio_gain s) \<Longrightarrow> audio_gain (assign c f s) = audio_gain s"
  "(\<And>s. scpu_mhz (f s) = scpu_mhz s) \<Longrightarrow> scpu_mhz (assign c f s) = scpu_mhz s"
  "(\<And>s. ge_clock (f s) = ge_clock s) \<Longrightarrow> ge_clock (assign c f s) = ge_clock s"
  "(\<And>s. backlight_level (f s) = backlight_level s) \<Longrightarrow> backlight_level (assign c f s) = backlight_level s"
  "(\<And>s. frameskip (f s) = frameskip s) \<Longrightarrow> frameskip (assign c f s) = frameskip s"
  "(\<And>s. display_mode (f s) = display_mode s) \<Longrightarrow> display_mode (assign c f s) = display_mode s"
  "(\<And>s. framebuffer_format (f s) = framebuffer_format s) \<Longrightarrow> framebuffer_format (assign c f s) = framebuffer_format s"
  "(\<And>s. input_profile (f s) = input_profile s) \<Longrightarrow> input_profile (assign c f s) = input_profile s"
  "(\<And>s. state_slot (f s) = state_slot s) \<Longrightarrow> state_slot (assign c f s) = state_slot s"
  "(\<And>s. state_auto_load (f s) = state_auto_load s) \<Longrightarrow> state_auto_load (assign c f s) = state_auto_load s"
  "(\<And>s. state_auto_save (f s) = state_auto_save s) \<Longrightarrow> state_auto_save (assign c f s) = state_auto_save s"
  "(\<And>s. rtc_offset_minutes (f s) = rtc_offset_minutes s) \<Longrightarrow> rtc_offset_minutes (assign c f s) = rtc_offset_minutes s"
  "(\<And>s. core_id (f s) = core_id s) \<Longrightarrow> core_id (assign c f s) = core_id s"
  by (simp_all add: assign_def)

lemma assign_hit:
  "audio_enabled (assign c (\<lambda>s. s\<lparr>audio_enabled := v\<rparr>) s) = (if c then v else audio_enabled s)"
  "audio_gain (assign c (\<lambda>s. s\<lparr>audio_gain := v\<rparr>) s) = (if c then v else audio_gain s)"
  "scpu_mhz (assign c (\<lambda>s. s\<lparr>scpu_mhz := v\<rparr>) s) = (if c then v else scpu_mhz s)"
  "ge_clock (assign c (\<lambda>s. s\<lparr>ge_clock := v\<rparr>) s) = (if c then v else ge_clock s)"
  "backlight_level (assign c (\<lambda>s. s\<lparr>backlight_level := v\<rparr>) s) = (if c then v else backlight_level s)"
  "frameskip (assign c (\<lambda>s. s\<lparr>frameskip := v\<rparr>) s) = (if c then v else frameskip s)"
  "display_mode (assign c (\<lambda>s. s\<lparr>display_mode := v\<rparr>) s) = (if c then v else display_mode s)"
  "framebuffer_format (assign c (\<lambda>s. s\<lparr>framebuffer_format := v\<rparr>) s) = (if c then v else framebuffer_format s)"
  "input_profile (assign c (\<lambda>s. s\<lparr>input_profile := v\<rparr>) s) = (if c then v else input_profile s)"
  "state_slot (assign c (\<lambda>s. s\<lparr>state_slot := v\<rparr>) s) = (if c then v else state_slot s)"
  "state_auto_load (assign c (\<lambda>s. s\<lparr>state_auto_load := v\<rparr>) s) = (if c then v else state_auto_load s)"
  "state_auto_save (assign c (\<lambda>s. s\<lparr>state_auto_save := v\<rparr>) s) = (if c then v else state_auto_save s)"
  "rtc_offset_minutes (assign c (\<lambda>s. s\<lparr>rtc_offset_minutes := v\<rparr>) s) = (if c then v else rtc_offset_minutes s)"
  "core_id (assign c (\<lambda>s. s\<lparr>core_id := i\<rparr>) s) = (if c then i else core_id s)"
  by (simp_all add: assign_def)

lemma apply_entry_get: "opt_get p (apply_entry e c os) = (case held p e of Some v \<Rightarrow> v | None \<Rightarrow> opt_get p os)"
  by (cases p) (simp_all add: apply_entry_def held_def Let_def assign_keep assign_hit)

lemma apply_entry_core:
  "core_id (apply_entry e c os) = (if c then (case held_core e of Some i \<Rightarrow> snprintf_s RUN_CORE_ID_MAX i | None \<Rightarrow> core_id os) else core_id os)"
  by (simp add: apply_entry_def held_core_def Let_def assign_keep assign_hit)


section \<open>The table of sections\<close>

definition entry_key :: "scoped_config \<Rightarrow> config_scope \<times> string" where
  "entry_key e = (sc_scope e, sc_target e)"

definition entry_for :: "config_scope \<times> string \<Rightarrow> scoped_config list \<Rightarrow> scoped_config option" where
  "entry_for k es = find (\<lambda>e. entry_key e = k) es"

lemma find_map_opt: "find P (map g xs) = map_option g (find (P \<circ> g) xs)"
  by (induction xs) auto

lemma find_nth: "find P xs = map_option (\<lambda>i. xs ! i) (find (\<lambda>i. P (xs ! i)) [0..<length xs])"
  using find_map_opt [of P "\<lambda>i. xs ! i" "[0..<length xs]"] by (simp add: map_nth comp_def)

lemma entry_for_Some: "entry_for k es = Some e \<Longrightarrow> e \<in> set es \<and> entry_key e = k"
  by (auto simp: entry_for_def find_Some_iff)

lemma entry_for_None: "entry_for k es = None \<longleftrightarrow> k \<notin> entry_key ` set es"
  by (auto simp: entry_for_def find_None_iff)

lemma entry_for_update:
  assumes "distinct (map entry_key es)" "i < length es" "entry_key e = entry_key (es ! i)"
  shows "entry_for k (es[i := e]) = (if k = entry_key e then Some e else entry_for k es)"
  using assms
proof (induction es arbitrary: i)
  case (Cons x es)
  show ?case
  proof (cases i)
    case (Suc j)
    then have "entry_key x \<noteq> entry_key e" using Cons.prems by (auto simp: image_iff)
    then show ?thesis using Cons Suc by (auto simp: entry_for_def)
  qed (use Cons.prems in \<open>auto simp: entry_for_def\<close>)
qed simp

lemma entry_for_snoc: "entry_for k (es @ [e]) = (case entry_for k es of Some x \<Rightarrow> Some x | None \<Rightarrow> if entry_key e = k then Some e else None)"
  by (induction es) (auto simp: entry_for_def)

lemma map_entry_key_update:
  "i < length es \<Longrightarrow> entry_key e = entry_key (es ! i) \<Longrightarrow> map entry_key (es[i := e]) = map entry_key es"
  by (simp add: map_update list_update_same_conv)

definition fresh :: "config_scope \<times> string \<Rightarrow> scoped_config" where
  "fresh k = \<lparr>sc_scope = fst k, sc_target = snd k, sc_options = zero_options, sc_mask = 0\<rparr>"

lemma held_fresh: "held p (fresh k) = None" "held_core (fresh k) = None"
  by (simp_all add: held_def held_core_def fresh_def)

text \<open>What one entry of the file does to the table.\<close>

lemma parse_entry_step:
  assumes d: "distinct (map entry_key (fc_entries config))" and k: "section_scope sec = Some k" "snd k \<noteq> []" "length (snd k) < UNIFROG_FRONTEND_CONFIG_TARGET_MAX"
    and r: "unifrog_frontend_config_parse_entry config sec key value = (r, config')" "\<not> fc_overflowed config'"
  shows "r = 0 \<and> \<not> fc_overflowed config \<and> distinct (map entry_key (fc_entries config')) \<and>
    (\<forall>j. entry_for j (fc_entries config') =
       (if j = k then Some (set_key (fst k) key value (case entry_for k (fc_entries config) of Some e \<Rightarrow> e | None \<Rightarrow> fresh k))
        else entry_for j (fc_entries config)))"
proof -
  obtain scope target where kk: "k = (scope, target)" by (cases k)
  let ?es = "fc_entries config"
  let ?find = "find (\<lambda>i. sc_scope (?es ! i) = scope \<and> sc_target (?es ! i) = target) [0..<length ?es]"
  have ef: "entry_for k ?es = map_option (\<lambda>i. ?es ! i) ?find"
    unfolding entry_for_def kk by (subst find_nth) (simp add: entry_key_def)
  show ?thesis
  proof (cases ?find)
    case (Some i)
    then have i: "i < length ?es" "sc_scope (?es ! i) = scope" "sc_target (?es ! i) = target" by (auto simp: find_Some_iff)
    let ?e = "set_key scope key value (?es ! i)"
    have key: "entry_key ?e = entry_key (?es ! i)" "entry_key ?e = k" using i kk by (simp_all add: entry_key_def)
    have c: "r = 0" "config' = config\<lparr>fc_entries := ?es[i := ?e]\<rparr>"
      using r(1) k kk Some by (simp_all add: unifrog_frontend_config_parse_entry_def find_or_add_def)
    show ?thesis
      using c r(2) d ef Some kk key(2) map_entry_key_update [OF i(1) key(1)] entry_for_update [OF d i(1) key(1)] by simp
  next
    case None
    then have room: "length ?es < UNIFROG_FRONTEND_SCOPED_CONFIG_MAX"
      using r k kk by (auto simp: unifrog_frontend_config_parse_entry_def find_or_add_def split: if_splits)
    have new: "\<lparr>sc_scope = scope, sc_target = snprintf_s UNIFROG_FRONTEND_CONFIG_TARGET_MAX target, sc_options = zero_options, sc_mask = 0\<rparr> = fresh k"
      using k(3) kk by (simp add: fresh_def snprintf_s_def)
    let ?e = "set_key scope key value (fresh k)"
    have c: "r = 0" "config' = config\<lparr>fc_entries := ?es @ [?e]\<rparr>"
      using r(1) k kk None room new
      by (simp_all add: unifrog_frontend_config_parse_entry_def find_or_add_def list_update_append)
    have key: "entry_key ?e = k" by (simp add: entry_key_def fresh_def kk)
    have nin: "k \<notin> entry_key ` set ?es" using ef None entry_for_None [of k ?es] by simp
    have "distinct (map entry_key (?es @ [?e]))" using d nin key by auto
    moreover have "entry_for j (?es @ [?e]) = (if j = k then Some ?e else entry_for j ?es)" for j
      using ef None key by (auto simp: entry_for_snoc split: option.split)
    ultimately show ?thesis using c r(2) ef None kk by simp
  qed
qed

text \<open>The table holds what the entries read so far say.\<close>

definition table_of :: "(string \<times> string \<times> string) list \<Rightarrow> frontend_config \<Rightarrow> bool" where
  "table_of es config \<longleftrightarrow> distinct (map entry_key (fc_entries config)) \<and>
     (\<forall>scope target p. target \<noteq> [] \<longrightarrow>
        Option.bind (entry_for (scope, target) (fc_entries config)) (held p) = last_given (value_in scope target p) es) \<and>
     (\<forall>target. target \<noteq> [] \<longrightarrow>
        Option.bind (entry_for (UNIFROG_FRONTEND_CONFIG_ROM, target) (fc_entries config)) held_core = last_given (core_in target) es)"

definition short_targets :: "(string \<times> string \<times> string) list \<Rightarrow> bool" where
  "short_targets es \<longleftrightarrow> (\<forall>(sec, key, value) \<in> set es. \<forall>k. section_scope sec = Some k \<longrightarrow>
     length (snd k) < UNIFROG_FRONTEND_CONFIG_TARGET_MAX)"

definition parse_step :: "frontend_config \<Rightarrow> string \<times> string \<times> string \<Rightarrow> frontend_config" where
  "parse_step config = (\<lambda>(sec, key, value). snd (unifrog_frontend_config_parse_entry config sec key value))"

lemma parse_entry_ret: "fst (unifrog_frontend_config_parse_entry config sec key value) = 0"
  by (simp add: unifrog_frontend_config_parse_entry_def split: option.split prod.split)

lemma overflow_stays: "fc_overflowed config \<Longrightarrow> fc_overflowed (parse_step config x)"
  by (cases x) (auto simp: parse_step_def unifrog_frontend_config_parse_entry_def find_or_add_def split: option.split prod.split)

lemma table_step:
  assumes t: "table_of es config" and s: "\<And>k. section_scope sec = Some k \<Longrightarrow> length (snd k) < UNIFROG_FRONTEND_CONFIG_TARGET_MAX"
    and room: "\<not> fc_overflowed (parse_step config (sec, key, value))"
  shows "table_of (es @ [(sec, key, value)]) (parse_step config (sec, key, value))"
proof (cases "\<exists>k. section_scope sec = Some k \<and> snd k \<noteq> []")
  case False
  then have "parse_step config (sec, key, value) = config"
    by (auto simp: parse_step_def unifrog_frontend_config_parse_entry_def split: option.split)
  moreover have "value_in scope target p (sec, key, value) = None" "core_in target (sec, key, value) = None" if "target \<noteq> []" for scope target p
    using False that by (auto simp: value_in_def core_in_def)
  ultimately show ?thesis using t by (simp add: table_of_def last_given_snoc)
next
  case True
  then obtain k where k: "section_scope sec = Some k" "snd k \<noteq> []" by blast
  let ?c = "parse_step config (sec, key, value)"
  have d: "distinct (map entry_key (fc_entries config))" using t by (simp add: table_of_def)
  have r: "unifrog_frontend_config_parse_entry config sec key value = (0, ?c)"
    using parse_entry_ret [of config sec key "value"] by (simp add: parse_step_def prod_eq_iff)
  note S = parse_entry_step [OF d k s [OF k(1)] r room]
  let ?old = "case entry_for k (fc_entries config) of Some e \<Rightarrow> e | None \<Rightarrow> fresh k"
  have old: "held p ?old = Option.bind (entry_for k (fc_entries config)) (held p)"
    "held_core ?old = Option.bind (entry_for k (fc_entries config)) held_core" for p
    by (simp_all add: held_fresh split: option.split)
  have "Option.bind (entry_for (scope, target) (fc_entries ?c)) (held p) = last_given (value_in scope target p) (es @ [(sec, key, value)])"
    if "target \<noteq> []" for scope target p
  proof (cases "(scope, target) = k")
    case True
    then have "last_given (value_in scope target p) es = held p ?old"
      using t that by (auto simp: table_of_def old)
    then show ?thesis
      using S True k by (auto simp: last_given_snoc value_in_def held_set_key split: option.split)
  next
    case False
    then show ?thesis using S t that k by (auto simp: last_given_snoc value_in_def table_of_def)
  qed
  moreover have "Option.bind (entry_for (UNIFROG_FRONTEND_CONFIG_ROM, target) (fc_entries ?c)) held_core = last_given (core_in target) (es @ [(sec, key, value)])"
    if "target \<noteq> []" for target
  proof (cases "(UNIFROG_FRONTEND_CONFIG_ROM, target) = k")
    case True
    then have "last_given (core_in target) es = held_core ?old"
      using t that by (auto simp: table_of_def old)
    then show ?thesis
      using S True k by (auto simp: last_given_snoc core_in_def held_core_set_key)
  next
    case False
    then show ?thesis using S t that k by (auto simp: last_given_snoc core_in_def table_of_def)
  qed
  ultimately show ?thesis using S by (simp add: table_of_def)
qed

lemma table_of_entries:
  "short_targets es \<Longrightarrow> \<not> fc_overflowed (foldl parse_step unifrog_frontend_config_init es) \<Longrightarrow>
     table_of es (foldl parse_step unifrog_frontend_config_init es)"
proof (induction es rule: rev_induct)
  case Nil
  then show ?case by (simp add: table_of_def unifrog_frontend_config_init_def entry_for_def)
next
  case (snoc x es)
  obtain sec key v where x: "x = (sec, key, v)" by (cases x)
  have "\<not> fc_overflowed (foldl parse_step unifrog_frontend_config_init es)" using snoc.prems(2) overflow_stays [of _ x] by auto
  moreover have "short_targets es" "\<And>k. section_scope sec = Some k \<Longrightarrow> length (snd k) < UNIFROG_FRONTEND_CONFIG_TARGET_MAX"
    using snoc.prems(1) x by (auto simp: short_targets_def)
  ultimately show ?case using snoc x table_step by simp
qed


section \<open>Reading a file\<close>

text \<open>A callback that never stops the reader sees the entries that collecting them gives.\<close>

definition sees :: "('u \<Rightarrow> string \<times> string \<times> string \<Rightarrow> 'u) \<Rightarrow> 'u \<Rightarrow> 'u config_state \<Rightarrow> (string \<times> string \<times> string) list config_state \<Rightarrow> bool" where
  "sees g u cs cs0 \<longleftrightarrow> cs_section cs = cs_section cs0 \<and> cs_errors cs = cs_errors cs0 \<and> cs_line cs = cs_line cs0 \<and>
     cs_user cs = foldl g u (cs_user cs0)"

lemma sees_assign:
  assumes "\<And>u sec k v n. cb u sec k v n = (g u (sec, k, v), 0)" "sees g u cs cs0"
  shows "sees g u (fst (config_assign cb t cs)) (fst (config_assign collect_cb t cs0))"
    "\<not> snd (config_assign cb t cs)" "\<not> snd (config_assign collect_cb t cs0)"
  using assms
  by (auto simp: config_assign_def collect_cb_def sees_def Let_def simp del: str_chr_None split: option.split prod.split)

lemma sees_line:
  assumes "\<And>u sec k v n. cb u sec k v n = (g u (sec, k, v), 0)" "sees g u cs cs0"
  shows "sees g u (fst (config_line cb l cs)) (fst (config_line collect_cb l cs0))"
    "\<not> snd (config_line cb l cs)" "\<not> snd (config_line collect_cb l cs0)"
proof -
  let ?n = "\<lambda>c. c\<lparr>cs_line := cs_line c + 1\<rparr>"
  have s: "sees g u (?n cs) (?n cs0)" using assms(2) by (simp add: sees_def)
  have h: "sees g u (config_header t (?n cs)) (config_header t (?n cs0))" for t
    using s by (simp add: config_header_def sees_def Let_def del: str_chr_None split: option.split)
  have line: "cs_line (?n cs) = cs_line (?n cs0)" using s by (simp add: sees_def)
  show "sees g u (fst (config_line cb l cs)) (fst (config_line collect_cb l cs0))"
    "\<not> snd (config_line cb l cs)" "\<not> snd (config_line collect_cb l cs0)"
    using s h sees_assign [where cb = cb and g = g, OF assms(1) s] line by (simp_all add: config_line_def Let_def)
qed

lemma sees_loop:
  assumes cb: "\<And>u sec k v n. cb u sec k v n = (g u (sec, k, v), 0)"
  shows "sees g u cs cs0 \<Longrightarrow> sees g u (config_loop cb st cs) (config_loop collect_cb st cs0)"
proof (induction "length (rest st)" arbitrary: st cs cs0 rule: less_induct)
  case less
  have e: "cs_errors cs = cs_errors cs0" using less.prems by (simp add: sees_def)
  show ?case
  proof (cases "read_complete_line st (cs_errors cs0)")
    case None
    then show ?thesis using less.prems e by (simp add: config_loop.simps [of cb st cs] config_loop.simps [of collect_cb st cs0])
  next
    case (Some r)
    then obtain l st' m where r: "read_complete_line st (cs_errors cs0) = Some (l, st', m)" by (cases r) auto
    have s: "sees g u (cs\<lparr>cs_errors := m\<rparr>) (cs0\<lparr>cs_errors := m\<rparr>)" using less.prems by (simp add: sees_def)
    note L = sees_line [where cb = cb and g = g and l = l, OF cb s]
    have "sees g u (config_loop cb st' (fst (config_line cb l (cs\<lparr>cs_errors := m\<rparr>))))
        (config_loop collect_cb st' (fst (config_line collect_cb l (cs0\<lparr>cs_errors := m\<rparr>))))"
      using read_complete_line_shrinks [OF r] L(1) by (rule less.hyps)
    then show ?thesis
      using L(2,3) r e by (simp add: config_loop.simps [of cb st cs] config_loop.simps [of collect_cb st cs0] case_prod_beta' Let_def)
  qed
qed

lemma config_read_sees:
  assumes "\<And>u sec k v n. cb u sec k v n = (g u (sec, k, v), 0)"
    "unifrog_config_read fs path (Some collect_cb) [] = ((0, es, n), fs1)"
  shows "unifrog_config_read fs path (Some cb) u = ((0, foldl g u es, n), fs1)"
proof -
  have "sees g u (config_loop cb st (config_start u)) (config_loop collect_cb st (config_start []))" for st
    by (rule sees_loop [where cb = cb and g = g, OF assms(1)]) (simp add: sees_def config_start_def)
  then show ?thesis
    using assms(2) by (auto simp: unifrog_config_read_def sees_def Let_def split: option.splits prod.splits)
qed

lemma load_entries:
  assumes "unifrog_config_read fs path (Some collect_cb) [] = ((0, es, n), fs1)"
  shows "unifrog_frontend_config_load path fs = ((0, foldl parse_step unifrog_frontend_config_init es, n), fs1)"
  unfolding unifrog_frontend_config_load_def
  by (rule config_read_sees [where cb = config_entry and g = parse_step, OF _ assms])
    (use parse_entry_ret in \<open>auto simp: config_entry_def parse_step_def split: prod.split dest: arg_cong [where f = fst]\<close>)

section \<open>Applying the sections\<close>

lemma fold_unique:
  assumes "distinct (map entry_key es)"
  shows "fold (\<lambda>e s. if entry_key e = k then f e s else s) es s = (case entry_for k es of None \<Rightarrow> s | Some e \<Rightarrow> f e s)"
  using assms
proof (induction es arbitrary: s)
  case (Cons e es)
  have "fold (\<lambda>e s. if entry_key e = k then f e s else s) es s = s" if "k \<notin> entry_key ` set es" for s
    using that by (induction es) auto
  with Cons show ?case by (auto simp: entry_for_def)
qed (simp add: entry_for_def)

lemma fold_id: "fold (\<lambda>e s. s) es s = s"
  by (induction es) simp_all

lemma fold_core_sections:
  assumes "core_id os = c"
  shows "fold (\<lambda>e os. if core_id os \<noteq> [] \<and> sc_scope e = UNIFROG_FRONTEND_CONFIG_CORE \<and> sc_target e = core_id os
      then apply_entry e False os else os) es os =
    fold (\<lambda>e os. if c \<noteq> [] \<and> sc_scope e = UNIFROG_FRONTEND_CONFIG_CORE \<and> sc_target e = c then apply_entry e False os else os) es os"
  using assms
proof (induction es arbitrary: os)
  case (Cons e es)
  have "core_id (if c \<noteq> [] \<and> sc_scope e = UNIFROG_FRONTEND_CONFIG_CORE \<and> sc_target e = c then apply_entry e False os else os) = c"
    using Cons.prems by (simp add: apply_entry_core)
  with Cons show ?case by simp
qed simp

lemma config_apply_eq:
  assumes "distinct (map entry_key (fc_entries config))"
  shows "unifrog_frontend_config_apply config initial_core (Some game) options =
    (let rom = entry_for (UNIFROG_FRONTEND_CONFIG_ROM, game) (fc_entries config);
         o1 = options\<lparr>core_id := snprintf_s RUN_CORE_ID_MAX (case Option.bind rom held_core of Some c \<Rightarrow> c | None \<Rightarrow> initial_core)\<rparr>;
         o2 = (if core_id o1 = [] then o1
               else case entry_for (UNIFROG_FRONTEND_CONFIG_CORE, core_id o1) (fc_entries config) of None \<Rightarrow> o1
               | Some e \<Rightarrow> apply_entry e False o1)
     in case rom of None \<Rightarrow> o2 | Some e \<Rightarrow> apply_entry e True o2)"
proof -
  let ?es = "fc_entries config" and ?rom = "(UNIFROG_FRONTEND_CONFIG_ROM, game)"
  let ?o0 = "options\<lparr>core_id := snprintf_s RUN_CORE_ID_MAX initial_core\<rparr>"
  let ?o1 = "options\<lparr>core_id := snprintf_s RUN_CORE_ID_MAX (case Option.bind (entry_for ?rom ?es) held_core of Some c \<Rightarrow> c | None \<Rightarrow> initial_core)\<rparr>"
  have first: "fold (\<lambda>e os. if sc_scope e = UNIFROG_FRONTEND_CONFIG_ROM \<and> sc_target e = game \<and> sc_mask e AND SCOPED_CORE \<noteq> 0
      then os\<lparr>core_id := snprintf_s RUN_CORE_ID_MAX (core_id (sc_options e))\<rparr> else os) ?es ?o0 = ?o1"
  proof -
    have eq: "(\<lambda>e os. if sc_scope e = UNIFROG_FRONTEND_CONFIG_ROM \<and> sc_target e = game \<and> sc_mask e AND SCOPED_CORE \<noteq> 0
        then os\<lparr>core_id := snprintf_s RUN_CORE_ID_MAX (core_id (sc_options e))\<rparr> else os) =
      (\<lambda>e os. if entry_key e = ?rom then (if sc_mask e AND SCOPED_CORE \<noteq> 0
        then os\<lparr>core_id := snprintf_s RUN_CORE_ID_MAX (core_id (sc_options e))\<rparr> else os) else os)"
      by (auto simp: fun_eq_iff entry_key_def)
    show ?thesis
      unfolding eq fold_unique [OF assms] by (auto simp: held_core_def split: option.split)
  qed
  have last: "fold (\<lambda>e os. if sc_scope e = UNIFROG_FRONTEND_CONFIG_ROM \<and> sc_target e = game then apply_entry e True os else os) ?es os =
      (case entry_for ?rom ?es of None \<Rightarrow> os | Some e \<Rightarrow> apply_entry e True os)" for os
    using fold_unique [OF assms, of ?rom "\<lambda>e. apply_entry e True" os] by (simp add: entry_key_def)
  have core: "fold (\<lambda>e os. if c \<noteq> [] \<and> sc_scope e = UNIFROG_FRONTEND_CONFIG_CORE \<and> sc_target e = c then apply_entry e False os else os) ?es os =
      (if c = [] then os else case entry_for (UNIFROG_FRONTEND_CONFIG_CORE, c) ?es of None \<Rightarrow> os | Some e \<Rightarrow> apply_entry e False os)" for c os
    using fold_unique [OF assms, of "(UNIFROG_FRONTEND_CONFIG_CORE, c)" "\<lambda>e. apply_entry e False" os]
    by (cases "c = []") (simp_all add: entry_key_def fold_id)
  show ?thesis
    unfolding unifrog_frontend_config_apply_def Let_def option.case first fold_core_sections [OF refl] core last ..
qed

lemma last_given_mem: "last_given f es = Some v \<Longrightarrow> \<exists>e \<in> set es. f e = Some v"
  by (induction es) (auto split: option.splits)

lemma last_given_cut: "last_given (core_in game) es = Some c \<Longrightarrow> snprintf_s RUN_CORE_ID_MAX c = c"
  by (auto dest!: last_given_mem simp: core_in_def snprintf_s_def split: if_splits)

lemma core_section_get:
  fixes os :: scoped_options and es :: "scoped_config list"
  defines "os' \<equiv> (if core_id os = [] then os
    else case entry_for (UNIFROG_FRONTEND_CONFIG_CORE, core_id os) es of None \<Rightarrow> os | Some e \<Rightarrow> apply_entry e False os)"
  shows "core_id os' = core_id os"
    "opt_get p os' = (case if core_id os = [] then None
       else Option.bind (entry_for (UNIFROG_FRONTEND_CONFIG_CORE, core_id os) es) (held p) of Some v \<Rightarrow> v | None \<Rightarrow> opt_get p os)"
  unfolding os'_def by (auto simp: apply_entry_core apply_entry_get split: option.split)

section \<open>Properties\<close>

text \<open>
  C40.  The options a game is started with: for every option, the last acceptable value in the sections of
  the game wins, else the last one in the sections of its core, else the general setting stays; the core
  is the one the game's sections name last, else the proposed one.  The file may hold anything, as long as
  its sections fit the table.
\<close>

theorem scoped_options_precedence:
  assumes "unifrog_config_read fs path (Some collect_cb) [] = ((0, es, n), fs1)" "short_targets es"
    and "unifrog_frontend_config_load path fs = ((r, config, n'), fs2)" "\<not> fc_overflowed config" "game \<noteq> []"
  shows "let os = unifrog_frontend_config_apply config initial_core (Some game) options;
      core = (case last_given (core_in game) es of Some c \<Rightarrow> c | None \<Rightarrow> snprintf_s RUN_CORE_ID_MAX initial_core)
    in core_id os = core \<and>
      (\<forall>p. opt_get p os = (case last_given (value_in UNIFROG_FRONTEND_CONFIG_ROM game p) es of Some v \<Rightarrow> v
         | None \<Rightarrow> (case if core = [] then None else last_given (value_in UNIFROG_FRONTEND_CONFIG_CORE core p) es of Some v \<Rightarrow> v
           | None \<Rightarrow> opt_get p options)))"
proof -
  have config: "config = foldl parse_step unifrog_frontend_config_init es"
    using assms(3) load_entries [OF assms(1)] by simp
  have t: "table_of es config" using table_of_entries [OF assms(2)] assms(4) config by simp
  let ?rom = "entry_for (UNIFROG_FRONTEND_CONFIG_ROM, game) (fc_entries config)"
  have d: "distinct (map entry_key (fc_entries config))" using t by (simp add: table_of_def)
  have core: "Option.bind ?rom held_core = last_given (core_in game) es" using t assms(5) by (simp add: table_of_def)
  have rom: "Option.bind ?rom (held p) = last_given (value_in UNIFROG_FRONTEND_CONFIG_ROM game p) es" for p
    using t assms(5) by (simp add: table_of_def)
  have sec: "Option.bind (entry_for (UNIFROG_FRONTEND_CONFIG_CORE, c) (fc_entries config)) (held p) =
      last_given (value_in UNIFROG_FRONTEND_CONFIG_CORE c p) es" if "c \<noteq> []" for c p
    using t that by (simp add: table_of_def)
  let ?core = "case last_given (core_in game) es of Some c \<Rightarrow> c | None \<Rightarrow> snprintf_s RUN_CORE_ID_MAX initial_core"
  let ?o1 = "options\<lparr>core_id := ?core\<rparr>"
  define o2 where "o2 = (if core_id ?o1 = [] then ?o1
    else case entry_for (UNIFROG_FRONTEND_CONFIG_CORE, core_id ?o1) (fc_entries config) of None \<Rightarrow> ?o1 | Some e \<Rightarrow> apply_entry e False ?o1)"
  have cut: "snprintf_s RUN_CORE_ID_MAX (case last_given (core_in game) es of Some c \<Rightarrow> c | None \<Rightarrow> initial_core) = ?core"
    using last_given_cut by (simp split: option.split)
  have eq: "unifrog_frontend_config_apply config initial_core (Some game) options = (case ?rom of None \<Rightarrow> o2 | Some e \<Rightarrow> apply_entry e True o2)"
    unfolding config_apply_eq [OF d] core Let_def cut o2_def ..
  have o2: "core_id o2 = ?core" "opt_get p o2 = (case if ?core = [] then None
      else last_given (value_in UNIFROG_FRONTEND_CONFIG_CORE ?core p) es of Some v \<Rightarrow> v | None \<Rightarrow> opt_get p options)" for p
    using core_section_get(1) [where os = ?o1 and es = "fc_entries config"] core_section_get(2) [where os = ?o1 and es = "fc_entries config" and p = p]
      sec [of ?core p] unfolding o2_def by (simp_all add: opt_get_core cong: option.case_cong)
  show ?thesis
  proof (cases ?rom)
    case None
    then have "last_given (value_in UNIFROG_FRONTEND_CONFIG_ROM game p) es = None" for p using rom [of p] by simp
    then show ?thesis unfolding eq None Let_def by (simp add: o2)
  next
    case (Some e)
    then have h: "held p e = last_given (value_in UNIFROG_FRONTEND_CONFIG_ROM game p) es" "held_core e = last_given (core_in game) es" for p
      using rom [of p] core by simp_all
    have "core_id (apply_entry e True o2) = ?core"
      using last_given_cut by (simp add: apply_entry_core h o2 split: option.split)
    then show ?thesis unfolding eq Some Let_def option.case by (simp only: apply_entry_get h o2 simp_thms)
  qed
qed

definition demo_sections :: "cfg_item list" where
  "demo_sections = [Comment ''scoped'', Header ''core.snes'', Assign ''frameskip'' ''1'', Assign ''cpu'' ''810'', Assign ''gain'' ''9'',
     Header ''rom./roms/a.sfc'', Assign ''core'' ''snes'', Assign ''frameskip'' ''3'']"

definition demo_sections_fs :: fsys where
  "demo_sections_fs = \<lparr>files = [''c.ini'' \<mapsto> render_items demo_sections], replace_ok = True, faults = [], errno = 0\<rparr>"

theorem scoped_options_precedence_witness:
  "let config = fst (snd (fst (unifrog_frontend_config_load (Some ''c.ini'') demo_sections_fs)));
       os = unifrog_frontend_config_apply config ''gb'' (Some ''/roms/a.sfc'') zero_options
   in core_id os = ''snes'' \<and> opt_get FRAMESKIP os = 3 \<and> opt_get CPU os = 810 \<and> opt_get GAIN os = 0"
proof -
  have rd: "unifrog_config_read demo_sections_fs (Some ''c.ini'') (Some collect_cb) [] =
      ((0, item_entries [] demo_sections, 0), demo_sections_fs)"
  proof (rule config_read_items)
    show "list_all item_ok demo_sections" by code_simp
  qed (simp_all add: demo_sections_fs_def)
  let ?es = "item_entries [] demo_sections"
  let ?config = "foldl parse_step unifrog_frontend_config_init ?es"
  have load: "unifrog_frontend_config_load (Some ''c.ini'') demo_sections_fs = ((0, ?config, 0), demo_sections_fs)"
    by (rule load_entries [OF rd])
  have short: "short_targets ?es"
    by (simp add: short_targets_def demo_sections_def section_scope_def UNIFROG_FRONTEND_CONFIG_TARGET_MAX_def)
  have room: "\<not> fc_overflowed ?config" by code_simp
  have core: "last_given (core_in ''/roms/a.sfc'') ?es = Some ''snes''"
    and vals: "last_given (value_in UNIFROG_FRONTEND_CONFIG_ROM ''/roms/a.sfc'' FRAMESKIP) ?es = Some 3"
      "last_given (value_in UNIFROG_FRONTEND_CONFIG_ROM ''/roms/a.sfc'' CPU) ?es = None"
      "last_given (value_in UNIFROG_FRONTEND_CONFIG_CORE ''snes'' CPU) ?es = Some 810"
      "last_given (value_in UNIFROG_FRONTEND_CONFIG_ROM ''/roms/a.sfc'' GAIN) ?es = None"
      "last_given (value_in UNIFROG_FRONTEND_CONFIG_CORE ''snes'' GAIN) ?es = None"
    by code_simp+
  have "let os = unifrog_frontend_config_apply ?config ''gb'' (Some ''/roms/a.sfc'') zero_options;
      core = (case last_given (core_in ''/roms/a.sfc'') ?es of Some c \<Rightarrow> c | None \<Rightarrow> snprintf_s RUN_CORE_ID_MAX ''gb'')
    in core_id os = core \<and>
      (\<forall>p. opt_get p os = (case last_given (value_in UNIFROG_FRONTEND_CONFIG_ROM ''/roms/a.sfc'' p) ?es of Some v \<Rightarrow> v
         | None \<Rightarrow> (case if core = [] then None else last_given (value_in UNIFROG_FRONTEND_CONFIG_CORE core p) ?es of Some v \<Rightarrow> v
           | None \<Rightarrow> opt_get p zero_options)))"
    by (rule scoped_options_precedence [OF rd short load room]) simp
  then show ?thesis
    unfolding Let_def core load fst_conv snd_conv option.case
    using vals by (simp add: zero_options_def)
qed

text \<open>
  A core whose identifier has 24 or more characters, which the loader permits, has no sections: the
  options hold only 23 of them.
\<close>

lemma long_core_id_has_no_section:
  assumes "\<forall>e \<in> set (fc_entries config). sc_scope e = UNIFROG_FRONTEND_CONFIG_CORE \<and> sc_target e = core"
    "length core \<ge> RUN_CORE_ID_MAX"
  shows "unifrog_frontend_config_apply config core None options = options\<lparr>core_id := snprintf_s RUN_CORE_ID_MAX core\<rparr>"
proof -
  let ?o = "options\<lparr>core_id := snprintf_s RUN_CORE_ID_MAX core\<rparr>"
  have "length (core_id ?o) < length core" using assms(2) by (simp add: snprintf_s_def RUN_CORE_ID_MAX_def)
  then have "core \<noteq> core_id ?o" by auto
  then have step: "(if core_id ?o \<noteq> [] \<and> sc_scope e = UNIFROG_FRONTEND_CONFIG_CORE \<and> sc_target e = core_id ?o
      then apply_entry e False ?o else ?o) = ?o" if "e \<in> set (fc_entries config)" for e
    using that assms(1) by simp
  have "fold f es s = s" if "\<And>e. e \<in> set es \<Longrightarrow> f e s = s" for f :: "scoped_config \<Rightarrow> scoped_options \<Rightarrow> scoped_options" and es s
    using that by (induction es) simp_all
  then show ?thesis unfolding unifrog_frontend_config_apply_def Let_def option.case by this (rule step)
qed

end
