(* ===== verification/Spec2Isabelle.thy ===== *)
theory Spec2Isabelle
  imports UF_Prelude UF_Text UF_Fs UF_Config UF_Battery UF_Archive UF_Policy UF_Media UF_Crash UF_Controller UF_Items UF_Asd UF_Loader UF_Clock UF_PngDraw UF_MediaFile UF_Paths UF_Cores UF_Scoped
begin

text \<open>
  UniFrog is a replacement firmware for a family of hand-held game consoles (MIPS32, no memory
  protection, a FAT card as the only storage).  A boot stage loads a firmware image from the card;
  the firmware shows a frontend that lists games, books and media, and starts emulator cores, which
  are separately linked modules loaded into a fixed memory area.  This development models the parts
  of it that decide something: parsers, policies, state machines, loaders, file replacement, and the
  decoder and drawing code of the display.  Drivers and code that only calls vendor libraries are
  left out (see below).

  \<^bold>\<open>Conventions.\<close>  C strings are lists of characters without the NUL; a pointer that the code
  compares with \<open>NULL\<close> is an \<open>option\<close>; machine integers are words where they can wrap and \<open>nat\<close> or
  \<open>int\<close> where the code bounds them before (each theory says so).  Global variables are records passed
  along.  Log lines, timings and cache maintenance are not part of any state.  Code that is not in
  the repository is a parameter: zlib (\<open>inflate\<close>, \<open>uncompress\<close>), \<open>qsort\<close> (any function that sorts a
  permutation by the comparison), the FAT code of the boot ROM, the device tree, the code of a loaded
  module, the recovery of a card, the millisecond counter.  What the theorems need of a parameter is a
  hypothesis of the theorem, and the witness instantiates it.

  \<^bold>\<open>Theories and sources\<close> (paths below \<open>src/\<close>).

    \<^item> \<open>UF_Prelude\<close>: types, C string functions, list lemmas; the locale of bounded string copies.
    \<^item> \<open>UF_Text\<close>: \<open>foundation/src/display/unifrog_text.c\<close>, \<open>runtime/unifrog_path.c\<close>,
      \<open>runtime/unifrog_boot_policy.c\<close>.  UTF-8 lengths and copies, scrolling labels, boot paths.
    \<^item> \<open>UF_Fs\<close>: the file calls of the C library over a store of files with injected faults.
    \<^item> \<open>UF_Config\<close>: \<open>config/unifrog_config.c\<close>.  The configuration file reader, the rewriting of a
      section, the commit by rename.  Files are related to an abstract list of items.
    \<^item> \<open>UF_Storage\<close>: \<open>storage/unifrog_storage_io.c\<close>.  Operations that are retried after card errors.
    \<^item> \<open>UF_Clock\<close>: \<open>runtime/unifrog_clock.c\<close>.  The clock kept in a file between runs.
    \<^item> \<open>UF_Battery\<close>: \<open>runtime/unifrog_battery_policy.c\<close>.  The gauge curve, the low-battery flag.
    \<^item> \<open>UF_Bin\<close>, \<open>UF_Zip\<close>, \<open>UF_ZipWriter\<close>, \<open>UF_Archive\<close>: \<open>archive/unifrog_zip.c\<close> and
      \<open>archive/unifrog_zip_writer.c\<close> on streams whose calls may fail, and their composition.
    \<^item> \<open>UF_Policy\<close>: \<open>unifrog_libretro_policy.c\<close>, \<open>unifrog_storage_profile.c\<close>, \<open>unifrog_log_policy.c\<close>.
    \<^item> \<open>UF_Media\<close>: \<open>unifrog_media_content.c\<close>, \<open>unifrog_reader_content.c\<close>, \<open>unifrog_media_policy.c\<close>.
    \<^item> \<open>UF_Crash\<close>: \<open>runtime/unifrog_exception_record.c\<close>.  The crash record in retained memory.
    \<^item> \<open>UF_Menu\<close>, \<open>UF_Controller\<close>: \<open>frontend_model.c\<close> and \<open>frontend_controller.c\<close>.
    \<^item> \<open>UF_Frontend\<close>, \<open>UF_Items\<close>: \<open>frontend_navigation.c\<close>, \<open>frontend_history.c\<close>, \<open>frontend_items.c\<close>.
    \<^item> \<open>UF_Trace\<close>, \<open>UF_Mem\<close>, \<open>UF_Boot\<close>, \<open>UF_Asd\<close>: the boot trace, the boot stage \<open>stage1.c\<close>, the boot
      request \<open>unifrog_boot.c\<close> and the packer \<open>tools/asdpack.c\<close>, over a byte-addressed memory.
    \<^item> \<open>UF_Abi\<close>, \<open>UF_Loader\<close>: \<open>abi/unifrog_abi.c\<close> and \<open>modules/unifrog_core_module_loader.c\<close>.
    \<^item> \<open>UF_Run\<close>: computations on buffers in which an access out of bounds, a read of unwritten memory or
      a signed overflow is a trap, with rules for loops.
    \<^item> \<open>UF_Png\<close>, \<open>UF_PngSpec\<close>, \<open>UF_PngDraw\<close>: \<open>display/unifrog_png.c\<close>, the picture decoder: the code, the
      proofs about decoding, and drawing.
    \<^item> \<open>UF_Gfx\<close>: \<open>display/unifrog_gfx.c\<close>, surfaces, rectangles and the built-in font.
    \<^item> \<open>UF_Readahead\<close>, \<open>UF_ReadaheadSpec\<close>, \<open>UF_MediaFile\<close>: \<open>platform/sf2000/unifrog_media_buffered_io.c\<close> of the
      media component, the cached file input behind FFmpeg: the code, the invariant of the cache, and the
      refinement of a file with a position.
    \<^item> \<open>UF_Paths\<close>: \<open>frontend_paths.c\<close> and \<open>frontend_rom_roots.c\<close>, paths on the card and the list of game
      directories.
    \<^item> \<open>UF_Cores\<close>: \<open>frontend_core_registry.c\<close>, \<open>frontend_associations.c\<close>, \<open>frontend_content.c\<close>: the installed
      cores, the handlers of file extensions and the choice of a core for a file.
    \<^item> \<open>UF_Scoped\<close>: \<open>frontend_config.c\<close>, the sections for one core or one game and the options a game is
      started with.

  \<^bold>\<open>What is shown.\<close>  The properties are numbered in the theories (C1, C2, ...).  They fall into these
  groups:

    \<^item> data survives: what the archive writer writes is read back; a configuration file is read and
      rewritten entry by entry; a commit never loses both versions of a file; a write is all or nothing
      and outlasts transient errors; the clock survives a restart; a crash record is reported once;
    \<^item> untrusted input is confined: archives with arbitrary bytes give only safe names and ranges
      inside the file; a module writes only its slot before its code runs; the boot stage writes only
      the loading area; the exception handler reads only mapped addresses;
      the picture decoder never leaves its buffers, and drawing changes exactly the visible pixels it
      should;
    \<^item> the start works: an image that the packer made and the firmware requested is loaded and entered,
      and a card with a readable firmware always ends in a started image;
    \<^item> interfaces show what the settings are: invariants of every reachable menu controller, of the item
      list and of the navigation history; sorting; cyclic menus;
    \<^item> the frontend opens files as configured: the tables of cores, associations and systems stay well
      formed; every core that declares an extension is offered; a chosen handler is remembered; the
      sections of a game override those of its core; the list of game directories and the cached media
      input refine a plain list and a plain file;
    \<^item> optimised routines agree with reference definitions: checksums, path scanners, natural order,
      gauge curve, scrolling labels.

  The locales are the interfaces that several components share: \<open>bounded_copy\<close> (string copies into a
  buffer), \<open>le_field\<close> (fields of binary records), \<open>segment_scan\<close> (loops that scan names by segments),
  \<open>comparator\<close> (orders for \<open>qsort\<close>), \<open>cyclic_setting\<close> (values that keys step through),
  \<open>forgetting_stack\<close> (histories of limited depth), \<open>trace_writer\<close> (event traces) and
  \<open>retained_record\<close> (checksummed records in retained memory).  Each is interpreted on the model's
  definitions in the theory that provides them.

  \<^bold>\<open>Termination and fuel.\<close>  Loops are structural recursions or functions with a measure.  Where a loop
  of the source may run forever because of a parameter (inflating with no progress), the model has fuel
  and a theorem says how much is enough.

  \<^bold>\<open>Not modelled.\<close>  Code that drives hardware or vendor libraries (card controller, audio, video
  decoder, input, frame buffer, the libretro host with its threads), the LVGL user interface and themes,
  TrueType fonts, the JavaScript application host, diagnostics and the Linux port: their behaviour is
  that of the devices and libraries they call, which are not in the repository.  Of the
  frontend, package installation and the favourite and history lists are left out, as are the log ring,
  the templates of picture names and the session state machine of the libretro host.
\<close>

end
